(* ===== verification/Prelude.thy ===== *)
theory Prelude
  imports Main "HOL-Library.Multiset" "HOL-Library.Product_Lexorder"
begin

text \<open>
  Shared vocabulary of the development: Rust's \<open>Result\<close> as a sum type (\<open>Inl\<close> is
  \<open>Err\<close>, \<open>Inr\<close> is \<open>Ok\<close>), the \<open>?\<close> operator, checked \<open>usize\<close> arithmetic,
  and the generic facts on lists, permutations and sorted lists that the component theories
  use. Code that panics is modelled by a value: an extra constructor of the component's error
  type, or \<open>None\<close> where the function has no error type.
\<close>

named_theorems slice_simps \<open>unfolding rules of the slice operations\<close>
named_theorems buffer_simps \<open>unfolding rules of the reorder buffer operations\<close>
named_theorems run_simps \<open>unfolding rules of the run-list operations\<close>

section \<open>Results\<close>

type_synonym ('e, 'a) result = "'e + 'a"

text \<open>The \<open>?\<close> operator: an error returns early, a value goes on.\<close>

definition bind_result :: "('e, 'a) result \<Rightarrow> ('a \<Rightarrow> ('e, 'b) result) \<Rightarrow> ('e, 'b) result" where
  "bind_result r f = (case r of Inl e \<Rightarrow> Inl e | Inr x \<Rightarrow> f x)"

lemma bind_result_simps [simp]:
  "bind_result (Inl e) f = Inl e"
  "bind_result (Inr x) f = f x"
  by (simp_all add: bind_result_def)

lemma bind_result_eq_Inr [simp]:
  "bind_result r f = Inr y \<longleftrightarrow> (\<exists>x. r = Inr x \<and> f x = Inr y)"
  by (cases r) auto

definition is_ok :: "('e, 'a) result \<Rightarrow> bool" where
  "is_ok r = (case r of Inl _ \<Rightarrow> False | Inr _ \<Rightarrow> True)"

lemma is_ok_simps [simp]: "is_ok (Inl e) = False" "is_ok (Inr x) = True"
  by (simp_all add: is_ok_def)

lemma is_ok_iff: "is_ok r \<longleftrightarrow> (\<exists>x. r = Inr x)"
  by (cases r) auto

text \<open>\<open>iter.map(f).collect::<Result<Vec<_>, _>>()\<close>: the first error wins.\<close>

fun collect_result :: "('a \<Rightarrow> ('e, 'b) result) \<Rightarrow> 'a list \<Rightarrow> ('e, 'b list) result" where
  "collect_result f [] = Inr []"
| "collect_result f (x # xs) =
     (case f x of Inl e \<Rightarrow> Inl e
      | Inr y \<Rightarrow> (case collect_result f xs of Inl e \<Rightarrow> Inl e | Inr ys \<Rightarrow> Inr (y # ys)))"

lemma collect_result_Inr:
  "collect_result f xs = Inr ys \<longleftrightarrow> list_all2 (\<lambda>x y. f x = Inr y) xs ys"
proof (induction xs arbitrary: ys)
  case Nil
  then show ?case by auto
next
  case (Cons x xs)
  then show ?case
    by (cases ys; cases "f x"; cases "collect_result f xs")
      (simp_all flip: Cons.IH)
qed

section \<open>Checked arithmetic on \<open>usize\<close> and \<open>u64\<close>\<close>

definition usize_bound :: nat where
  "usize_bound = 2 ^ 64"

definition checked_add :: "nat \<Rightarrow> nat \<Rightarrow> nat option" where
  "checked_add a b = (if a + b < usize_bound then Some (a + b) else None)"

definition checked_mul :: "nat \<Rightarrow> nat \<Rightarrow> nat option" where
  "checked_mul a b = (if a * b < usize_bound then Some (a * b) else None)"

definition checked_sub :: "nat \<Rightarrow> nat \<Rightarrow> nat option" where
  "checked_sub a b = (if b \<le> a then Some (a - b) else None)"

definition ok_or :: "'e \<Rightarrow> 'a option \<Rightarrow> ('e, 'a) result" where
  "ok_or e x = (case x of None \<Rightarrow> Inl e | Some v \<Rightarrow> Inr v)"

lemma ok_or_eq_Inr [simp]: "ok_or e x = Inr v \<longleftrightarrow> x = Some v"
  by (cases x) (auto simp: ok_or_def)

lemma ok_or_Some [simp]: "ok_or e (Some v) = Inr v"
  by (simp add: ok_or_def)

lemma checked_add_eq_Some [simp]:
  "checked_add a b = Some c \<longleftrightarrow> a + b < usize_bound \<and> c = a + b"
  by (auto simp: checked_add_def)

lemma checked_mul_eq_Some [simp]:
  "checked_mul a b = Some c \<longleftrightarrow> a * b < usize_bound \<and> c = a * b"
  by (auto simp: checked_mul_def)

lemma checked_sub_eq_Some [simp]:
  "checked_sub a b = Some c \<longleftrightarrow> b \<le> a \<and> c = a - b"
  by (auto simp: checked_sub_def)

definition div_ceil :: "nat \<Rightarrow> nat \<Rightarrow> nat" where
  "div_ceil a b = (a + b - 1) div b"

lemma div_ceil_1 [simp]: "div_ceil a (Suc 0) = a"
  by (simp add: div_ceil_def)

text \<open>The largest \<open>k < div_ceil a b\<close> satisfies \<open>k * b < a\<close>, and no larger one does.\<close>

lemma less_div_ceil_iff: "0 < b \<Longrightarrow> k < div_ceil a b \<longleftrightarrow> k * b < a"
proof -
  assume b: "0 < b"
  have "k < (a + b - 1) div b \<longleftrightarrow> Suc k \<le> (a + b - 1) div b"
    by (simp add: Suc_le_eq)
  also have "\<dots> \<longleftrightarrow> Suc k * b \<le> a + b - 1"
    using b by (simp add: less_eq_div_iff_mult_less_eq)
  also have "\<dots> \<longleftrightarrow> k * b < a"
    using b by auto
  finally show ?thesis
    by (simp add: div_ceil_def)
qed

lemma div_ceil_pos: "0 < b \<Longrightarrow> 0 < a \<Longrightarrow> 0 < div_ceil a b"
  using less_div_ceil_iff [of b 0 a] by simp

section \<open>Three-way comparison\<close>

datatype ordering = Less | Equal | Greater

section \<open>Lists\<close>

text \<open>A pairwise condition that is symmetric does not depend on the order of the list.\<close>

lemma sorted_wrt_symp_mset:
  assumes sym: "\<And>x y. P x y \<Longrightarrow> P y x"
    and perm: "mset xs = mset ys" and xs: "sorted_wrt P xs"
  shows "sorted_wrt P ys"
  using perm xs
proof (induction xs arbitrary: ys)
  case Nil
  then show ?case by simp
next
  case (Cons x xs)
  from Cons.prems(1) have "x \<in> set ys"
    by (metis list.set_intros(1) set_mset_mset)
  then obtain us vs where ys: "ys = us @ x # vs"
    by (meson split_list)
  with Cons.prems(1) have m: "mset xs = mset (us @ vs)" by simp
  with Cons have w: "sorted_wrt P (us @ vs)" by simp
  from m have "set xs = set (us @ vs)" by (metis set_mset_mset)
  with Cons.prems(2) have "\<forall>z \<in> set us \<union> set vs. P x z" by auto
  with w sym show ?case
    by (auto simp: ys sorted_wrt_append)
qed

lemma sorted_wrt_conjI:
  "sorted_wrt P xs \<Longrightarrow> sorted_wrt Q xs \<Longrightarrow> sorted_wrt (\<lambda>x y. P x y \<and> Q x y) xs"
  by (induction xs) auto

lemma distinct_map_rev [simp]: "distinct (map f (rev xs)) \<longleftrightarrow> distinct (map f xs)"
  by (metis distinct_rev rev_map)

lemma sum_list_map_rev [simp]:
  "(\<Sum>x\<leftarrow>rev xs. f x) = (\<Sum>x\<leftarrow>xs. f x :: 'b :: comm_monoid_add)"
  by (metis rev_map sum_list_rev)

lemma sum_list_map_mset:
  assumes "mset xs = mset ys"
  shows "(\<Sum>x\<leftarrow>xs. f x) = (\<Sum>x\<leftarrow>ys. f x :: 'b :: comm_monoid_add)"
  by (metis assms mset_map sum_mset_sum_list)

lemma sum_list_zip_nth:
  assumes "length xs = length ys"
  shows "(\<Sum>(x, y)\<leftarrow>zip xs ys. f x y) = (\<Sum>i<length xs. f (xs ! i) (ys ! i))"
  using assms
  by (simp add: sum_list_sum_nth case_prod_beta atLeast0LessThan)

text \<open>Removing the element at an index (\<open>Vec::remove\<close>).\<close>

definition remove_nth :: "nat \<Rightarrow> 'a list \<Rightarrow> 'a list" where
  "remove_nth i xs = take i xs @ drop (Suc i) xs"

lemma length_remove_nth [simp]: "i < length xs \<Longrightarrow> length (remove_nth i xs) = length xs - 1"
  by (simp add: remove_nth_def)

section \<open>Run lists\<close>

text \<open>The list a run list stands for.\<close>

definition expand_runs :: "((nat \<times> nat) \<times> 'v) list \<Rightarrow> 'v list" where
  "expand_runs rs = concat (map (\<lambda>((a, b), v). replicate (b - a) v) rs)"

text \<open>The runs start at \<open>lo\<close>, end at \<open>hi\<close>, are nonempty and leave no gap.\<close>

fun tiles :: "nat \<Rightarrow> nat \<Rightarrow> ((nat \<times> nat) \<times> 'v) list \<Rightarrow> bool" where
  "tiles lo hi [] \<longleftrightarrow> lo = hi"
| "tiles lo hi (((a, b), v) # rs) \<longleftrightarrow> a = lo \<and> a < b \<and> tiles b hi rs"

lemma tiles_snoc: "tiles lo hi (rs @ [((a, b), v)]) \<longleftrightarrow> tiles lo a rs \<and> a < b \<and> b = hi"
  by (induction lo hi rs rule: tiles.induct) auto

lemma expand_runs_snoc [simp]:
  "expand_runs (rs @ [((a, b), v)]) = expand_runs rs @ replicate (b - a) v"
  by (simp add: expand_runs_def)

lemma tiles_length: "tiles lo hi rs \<Longrightarrow> lo \<le> hi \<and> length (expand_runs rs) = hi - lo"
  by (induction lo hi rs rule: tiles.induct) (auto simp: expand_runs_def)

section \<open>Systems that come to rest\<close>

text \<open>A system whose steps keep an invariant and lower a measure, and that can step until it rests.\<close>

locale settling =
  fixes move :: "'s \<Rightarrow> 's \<Rightarrow> bool" and inv :: "'s \<Rightarrow> bool" and rest :: "'s \<Rightarrow> bool" and measure :: "'s \<Rightarrow> nat"
  assumes keeps: "inv s \<Longrightarrow> move s s' \<Longrightarrow> inv s'"
    and lowers: "inv s \<Longrightarrow> move s s' \<Longrightarrow> measure s' < measure s"
    and moves: "inv s \<Longrightarrow> \<not> rest s \<Longrightarrow> \<exists>s'. move s s'"
begin

lemma run_inv: "(move ^^ j) s s' \<Longrightarrow> inv s \<Longrightarrow> inv s' \<and> measure s' + j \<le> measure s"
proof (induction j arbitrary: s')
  case (Suc j)
  then obtain t where t: "(move ^^ j) s t" "move t s'" by auto
  from Suc.IH [OF t(1) Suc.prems(2)] show ?case using keeps [OF _ t(2)] lowers [OF _ t(2)] by fastforce
qed simp

lemma run_bound: "inv s \<Longrightarrow> (move ^^ j) s s' \<Longrightarrow> j \<le> measure s"
  using run_inv by fastforce

lemma settles: "inv s \<Longrightarrow> \<exists>s'. move\<^sup>*\<^sup>* s s' \<and> inv s' \<and> rest s'"
proof (induction "measure s" arbitrary: s rule: less_induct)
  case less
  show ?case
  proof (cases "rest s")
    case False
    then obtain s1 where s1: "move s s1" using moves less.prems by blast
    then obtain s' where "move\<^sup>*\<^sup>* s1 s'" "inv s'" "rest s'" using less keeps lowers by blast
    then show ?thesis using s1 by (meson converse_rtranclp_into_rtranclp)
  qed (use less.prems in blast)
qed

end

end
