(* ===== verification/Slice.thy ===== *)
theory Slice
  imports Prelude
begin

text \<open>
  Model of \<open>ndslice/src/slice.rs\<close>: the strided view (\<open>offset\<close>, \<open>sizes\<close>,
  \<open>strides\<close>) every mesh, region and cast tile of the system is built on. The operations
  come first, in the order of the source; then the layout invariant that \<open>Slice::new\<close>
  enforces, its preservation, and the correctness of the address arithmetic.
  Ranks and sizes are \<open>nat\<close>: unchecked \<open>usize\<close> products and sums are taken in
  executions without overflow, checked ones (\<open>relative_ordinal_slice\<close>) keep their bound.
  A panic (remainder or division by zero) is the error value \<open>Panic\<close>.
\<close>

section \<open>Data\<close>

text \<open>The reasons of \<open>IncompatibleView\<close>, which the source formats into a string.\<close>

datatype view_reason =
    StrideNotMultiple nat nat nat
  | EndsOutside nat nat nat
  | ElementCountMismatch nat nat
  | NonzeroOffset nat
  | OffsetNotReachable nat

datatype slice_error =
    InvalidDims nat nat
  | NonrectangularShape
  | NonuniqueStrides
  | StrideTooSmall nat nat
  | IndexOutOfRange nat nat
  | ValueNotInSlice nat
  | IncompatibleView view_reason
  | NonContiguous
  | EmptyRange nat nat nat
  | DimensionOutOfRange nat nat
  | ArithmeticOverflow
  | Panic

record slice =
  offset :: nat
  sizes :: "nat list"
  strides :: "nat list"

section \<open>Construction\<close>

fun new_loop ::
  "nat option \<Rightarrow> nat option \<Rightarrow> nat \<Rightarrow> (nat \<times> nat) list \<Rightarrow> (slice_error, unit) result" where
  "new_loop prev_stride prev_size space [] = Inr ()"
| "new_loop prev_stride prev_size space ((stride, sz) # rest) =
     bind_result
       (case prev_stride of
          None \<Rightarrow> Inr ()
        | Some p \<Rightarrow>
            if p = 0 then Inl Panic
            else if stride mod p \<noteq> 0 then Inl NonrectangularShape
            else if stride = p \<and> sz \<noteq> 1 \<and> (case prev_size of None \<Rightarrow> 1 | Some z \<Rightarrow> z) \<noteq> 1
              then Inl NonuniqueStrides
            else Inr ())
       (\<lambda>_. if stride < space then Inl (StrideTooSmall stride space)
            else new_loop (Some stride) (Some sz) (stride * sz) rest)"

definition slice_new :: "nat \<Rightarrow> nat list \<Rightarrow> nat list \<Rightarrow> (slice_error, slice) result" where
  "slice_new off szs sts =
     (if length szs \<noteq> length sts then Inl (InvalidDims (length szs) (length sts))
      else bind_result (new_loop None None 1 (sort (zip sts szs)))
             (\<lambda>_. Inr \<lparr>offset = off, sizes = szs, strides = sts\<rparr>))"

fun row_major_fold :: "nat \<Rightarrow> nat list \<Rightarrow> nat list" where
  "row_major_fold acc [] = []"
| "row_major_fold acc (n # ns) = acc # row_major_fold (n * acc) ns"

definition row_major_strides :: "nat list \<Rightarrow> nat list" where
  "row_major_strides szs = rev (row_major_fold 1 (rev szs))"

definition new_row_major :: "nat list \<Rightarrow> slice" where
  "new_row_major szs = \<lparr>offset = 0, sizes = szs, strides = row_major_strides szs\<rparr>"

definition new_single_multi_dim_cell :: "nat \<Rightarrow> slice" where
  "new_single_multi_dim_cell dims =
     \<lparr>offset = 0, sizes = replicate dims 1, strides = replicate dims 1\<rparr>"

definition num_dim :: "slice \<Rightarrow> nat" where
  "num_dim s = length (sizes s)"

fun contiguous_loop :: "nat \<Rightarrow> (nat \<times> nat) list \<Rightarrow> bool" where
  "contiguous_loop expected [] = True"
| "contiguous_loop expected ((stride, sz) # rest) =
     (if stride \<noteq> expected then False else contiguous_loop (expected * sz) rest)"

definition is_contiguous :: "slice \<Rightarrow> bool" where
  "is_contiguous s = contiguous_loop 1 (rev (zip (strides s) (sizes s)))"

section \<open>Sub-slices\<close>

definition slice_at :: "slice \<Rightarrow> nat \<Rightarrow> nat \<Rightarrow> (slice_error, slice) result" where
  "slice_at s dim i =
     (if length (sizes s) \<le> dim then Inl (DimensionOutOfRange dim (num_dim s))
      else if sizes s ! dim \<le> i then Inl (IndexOutOfRange i (sizes s ! dim))
      else slice_new (offset s + i * strides s ! dim)
             (remove_nth dim (sizes s)) (remove_nth dim (strides s)))"

definition slice_select ::
  "slice \<Rightarrow> nat \<Rightarrow> nat \<Rightarrow> nat \<Rightarrow> nat \<Rightarrow> (slice_error, slice) result" where
  "slice_select s dim lo hi step =
     (if length (sizes s) \<le> dim then Inl (IndexOutOfRange dim (length (sizes s)))
      else if sizes s ! dim \<le> lo then Inl (IndexOutOfRange lo (sizes s ! dim))
      else if hi \<le> lo then Inl (EmptyRange lo hi step)
      else if step = 0 then Inl Panic
      else slice_new (offset s + lo * strides s ! dim)
             ((sizes s)[dim := div_ceil (hi - lo) step])
             ((strides s)[dim := strides s ! dim * step]))"

section \<open>Addresses\<close>

definition dot :: "nat list \<Rightarrow> nat list \<Rightarrow> nat" where
  "dot xs ys = (\<Sum>(x, y)\<leftarrow>zip xs ys. x * y)"

definition location :: "slice \<Rightarrow> nat list \<Rightarrow> (slice_error, nat) result" where
  "location s coord =
     (if length coord \<noteq> length (sizes s) then Inl (InvalidDims (length (sizes s)) (length coord))
      else Inr (offset s + dot coord (strides s)))"

fun coord_loop ::
  "nat \<Rightarrow> (nat \<times> nat \<times> nat) list \<Rightarrow> nat \<Rightarrow> nat list \<Rightarrow> (slice_error, nat list) result" where
  "coord_loop v [] pos res = (if pos \<noteq> 0 then Inl (ValueNotInSlice v) else Inr res)"
| "coord_loop v ((stride, i, sz) # rest) pos res =
     (if 1 < sz \<and> stride = 0 then Inl Panic
      else let idx = (if 1 < sz then pos div stride else 0);
               new_pos = (if 1 < sz then pos mod stride else pos)
           in if sz \<le> idx then Inl (ValueNotInSlice v)
              else coord_loop v rest new_pos (res[i := idx]))"

definition sorted_info :: "slice \<Rightarrow> (nat \<times> nat \<times> nat) list" where
  "sorted_info s = sort_key fst (zip (strides s) (enumerate 0 (sizes s)))"

definition coordinates :: "slice \<Rightarrow> nat \<Rightarrow> (slice_error, nat list) result" where
  "coordinates s v =
     (case checked_sub v (offset s) of
        None \<Rightarrow> Inl (ValueNotInSlice v)
      | Some pos \<Rightarrow>
          coord_loop v (rev (sorted_info s)) pos (replicate (length (sizes s)) 0))"

definition contains :: "slice \<Rightarrow> nat \<Rightarrow> bool" where
  "contains s v = is_ok (coordinates s v)"

definition slice_len :: "slice \<Rightarrow> nat" where
  "slice_len s = prod_list (sizes s)"

definition slice_is_empty :: "slice \<Rightarrow> bool" where
  "slice_is_empty s = (slice_len s = 0)"

fun index_loop :: "(nat \<times> nat) list \<Rightarrow> nat \<Rightarrow> nat \<Rightarrow> nat" where
  "index_loop [] stride res = res"
| "index_loop ((idx, sz) # rest) stride res =
     index_loop rest (stride * sz) (res + idx * stride)"

definition slice_index :: "slice \<Rightarrow> nat \<Rightarrow> (slice_error, nat) result" where
  "slice_index s v =
     bind_result (coordinates s v)
       (\<lambda>coords. Inr (index_loop (zip (rev coords) (rev (sizes s))) 1 0))"

fun get_loop :: "(nat \<times> nat) list \<Rightarrow> nat \<Rightarrow> nat \<Rightarrow> nat \<Rightarrow> (nat \<times> nat) option" where
  "get_loop [] val rest space = Some (val, space)"
| "get_loop ((sz, stride) # xs) val rest space =
     (if sz = 0 then None
      else get_loop xs (val + (rest mod sz) * stride) (rest div sz) (space * sz))"

definition slice_get :: "slice \<Rightarrow> nat \<Rightarrow> (slice_error, nat) result" where
  "slice_get s i =
     (case get_loop (rev (zip (sizes s) (strides s))) (offset s) i 1 of
        None \<Rightarrow> Inl Panic
      | Some (val, space) \<Rightarrow> if i < space then Inr val else Inl (IndexOutOfRange i space))"

section \<open>Iteration\<close>

record cartesian_iterator =
  dims :: "nat list"
  cart_index :: nat

definition cart_new :: "nat list \<Rightarrow> cartesian_iterator" where
  "cart_new ds = \<lparr>dims = ds, cart_index = 0\<rparr>"

fun unrank_loop :: "(nat \<times> nat) list \<Rightarrow> nat \<Rightarrow> nat list \<Rightarrow> nat list" where
  "unrank_loop [] rest res = res"
| "unrank_loop ((i, dim) # xs) rest res = unrank_loop xs (rest div dim) (res[i := rest mod dim])"

definition cart_next :: "cartesian_iterator \<Rightarrow> (nat list \<times> cartesian_iterator) option" where
  "cart_next it =
     (if prod_list (dims it) \<le> cart_index it then None
      else Some (unrank_loop (rev (enumerate 0 (dims it))) (cart_index it)
                   (replicate (length (dims it)) 0),
                 it\<lparr>cart_index := Suc (cart_index it)\<rparr>))"

text \<open>Draining the iterator, as a \<open>for\<close> loop or \<open>collect\<close> does.\<close>

function cart_collect :: "cartesian_iterator \<Rightarrow> nat list list" where
  "cart_collect it =
     (case cart_next it of None \<Rightarrow> [] | Some (c, it') \<Rightarrow> c # cart_collect it')"
  by pat_completeness auto
termination
  by (relation "measure (\<lambda>it. prod_list (dims it) - cart_index it)")
     (auto simp: cart_next_def split: if_splits)

declare cart_collect.simps [simp del]

text \<open>\<open>Slice::iter\<close>, drained: every \<open>location(&pos).unwrap()\<close> is a step of the collection.\<close>

definition slice_iter :: "slice \<Rightarrow> (slice_error, nat list) result" where
  "slice_iter s = collect_result (location s) (cart_collect (cart_new (sizes s)))"

definition dim_iter :: "slice \<Rightarrow> nat \<Rightarrow> nat list list option" where
  "dim_iter s d =
     (if length (sizes s) < d then None else Some (cart_collect (cart_new (take d (sizes s)))))"

section \<open>Views\<close>

fun view_check :: "slice \<Rightarrow> nat list \<Rightarrow> nat list list \<Rightarrow> (slice_error, unit) result" where
  "view_check s new_strides [] = Inr ()"
| "view_check s new_strides (coord # cs) =
     (if is_ok (coordinates s (dot coord new_strides)) then view_check s new_strides cs
      else Inl (IncompatibleView (OffsetNotReachable (dot coord new_strides))))"

fun view_strides_loop :: "nat list \<Rightarrow> nat list \<Rightarrow> nat list \<Rightarrow> nat list" where
  "view_strides_loop szs acc [] = acc"
| "view_strides_loop szs acc (i # is) =
     view_strides_loop szs (acc[i := acc ! Suc i * szs ! Suc i]) is"

definition slice_view :: "slice \<Rightarrow> nat list \<Rightarrow> (slice_error, slice) result" where
  "slice_view s new_sizes =
     (let view_elems = prod_list new_sizes; base_elems = prod_list (sizes s) in
      if view_elems \<noteq> base_elems
        then Inl (IncompatibleView (ElementCountMismatch base_elems view_elems))
      else if offset s \<noteq> 0 then Inl (IncompatibleView (NonzeroOffset (offset s)))
      else let new_strides = view_strides_loop new_sizes (replicate (length new_sizes) 1)
                               (rev [0..<length new_sizes - 1]) in
        bind_result (view_check s new_strides (cart_collect (cart_new new_sizes)))
          (\<lambda>_. Inr \<lparr>offset = 0, sizes = new_sizes, strides = new_strides\<rparr>))"

fun subview_check :: "(nat \<times> nat) list \<Rightarrow> nat list \<Rightarrow> (slice_error, unit) result" where
  "subview_check ((start, len) # xs) (sz # szs) =
     (if sz < start + len then Inl (IndexOutOfRange (start + len) sz)
      else subview_check xs szs)"
| "subview_check _ _ = Inr ()"

definition subview :: "slice \<Rightarrow> nat list \<Rightarrow> nat list \<Rightarrow> (slice_error, slice) result" where
  "subview s starts lens =
     (if length starts \<noteq> num_dim s \<or> length lens \<noteq> num_dim s
        then Inl (InvalidDims (num_dim s) (max (length starts) (length lens)))
      else bind_result (subview_check (zip starts lens) (sizes s))
             (\<lambda>_. bind_result (location s starts)
               (\<lambda>off. Inr \<lparr>offset = off, sizes = lens, strides = strides s\<rparr>)))"

definition enforce_embedding :: "slice \<Rightarrow> slice \<Rightarrow> (slice_error, slice) result" where
  "enforce_embedding s other =
     bind_result (slice_iter s)
       (\<lambda>locs. bind_result (collect_result (coordinates other) locs) (\<lambda>_. Inr s))"

section \<open>Ordinals relative to a parent slice\<close>

definition relative_stride :: "slice \<Rightarrow> slice \<Rightarrow> nat list \<Rightarrow> nat list \<Rightarrow> nat \<times> nat
    \<Rightarrow> (slice_error, nat) result" where
  "relative_stride s parent parent_coordinates parent_ordinal_strides = (\<lambda>(dimension, extent).
     if extent = 1 then Inr (parent_ordinal_strides ! dimension)
     else let parent_stride = strides parent ! dimension;
              selected_stride = strides s ! dimension in
       if \<not> parent_stride dvd selected_stride
         then Inl (IncompatibleView (StrideNotMultiple selected_stride dimension parent_stride))
       else if parent_stride = 0 then Inl Panic
       else let step = selected_stride div parent_stride in
         bind_result (ok_or ArithmeticOverflow
             (Option.bind (checked_sub extent 1) (\<lambda>e. checked_mul e step)))
           (\<lambda>span. bind_result (ok_or ArithmeticOverflow
               (checked_add (parent_coordinates ! dimension) span))
             (\<lambda>last_coordinate.
               if sizes parent ! dimension \<le> last_coordinate
                 then Inl (IncompatibleView
                        (EndsOutside dimension last_coordinate (sizes parent ! dimension)))
               else ok_or ArithmeticOverflow
                      (checked_mul (parent_ordinal_strides ! dimension) step))))"

definition relative_ordinal_slice :: "slice \<Rightarrow> slice \<Rightarrow> (slice_error, slice) result" where
  "relative_ordinal_slice s parent =
     (if num_dim parent \<noteq> num_dim s then Inl (InvalidDims (num_dim parent) (num_dim s))
      else bind_result (coordinates parent (offset s))
        (\<lambda>parent_coordinates. bind_result (slice_index parent (offset s))
          (\<lambda>off. bind_result
            (collect_result
               (relative_stride s parent parent_coordinates (strides (new_row_major (sizes parent))))
               (enumerate 0 (sizes s)))
            (\<lambda>sts. slice_new off (sizes s) sts))))"

section \<open>Mapped slices\<close>

definition map_slice_location :: "slice \<Rightarrow> (nat \<Rightarrow> 'a) \<Rightarrow> nat list \<Rightarrow> (slice_error, 'a) result" where
  "map_slice_location s f coord = map_sum id f (location s coord)"

definition map_slice_get :: "slice \<Rightarrow> (nat \<Rightarrow> 'a) \<Rightarrow> nat \<Rightarrow> (slice_error, 'a) result" where
  "map_slice_get s f i = map_sum id f (slice_get s i)"

end
