(* ===== verification/Slice_Props.thy ===== *)
theory Slice_Props
  imports Slice
begin

text \<open>
  The layout invariant of slices and the correctness of their address arithmetic:
  what \<open>Slice::new\<close> accepts, that \<open>coordinates\<close> inverts \<open>location\<close>, that
  \<open>index\<close> and \<open>get\<close> are the row-major bijection, what iteration enumerates, and
  that \<open>at\<close>, \<open>select\<close> and \<open>subview\<close> address the sub-region they are asked for.
\<close>

section \<open>The layout invariant\<close>

text \<open>
  Two dimensions fit when the stride of the second is a multiple of the stride of the first
  and at least the space the first one covers. A layout is a list of (stride, size) pairs with
  positive strides any two of which fit one way or the other. Unlike the check in
  \<open>Slice::new\<close>, which looks at neighbours after sorting, it does not depend on order.
\<close>

definition fits :: "nat \<times> nat \<Rightarrow> nat \<times> nat \<Rightarrow> bool" where
  "fits a b \<longleftrightarrow> fst a dvd fst b \<and> fst a * snd a \<le> fst b"

definition compat :: "nat \<times> nat \<Rightarrow> nat \<times> nat \<Rightarrow> bool" where
  "compat a b \<longleftrightarrow> fits a b \<or> fits b a"

definition layout :: "(nat \<times> nat) list \<Rightarrow> bool" where
  "layout xs \<longleftrightarrow> (\<forall>a \<in> set xs. 0 < fst a) \<and> sorted_wrt compat xs"

definition slice_inv :: "slice \<Rightarrow> bool" where
  "slice_inv s \<longleftrightarrow> length (sizes s) = length (strides s) \<and> (\<forall>n \<in> set (sizes s). 0 < n)
     \<and> layout (zip (strides s) (sizes s))"

lemma compat_sym: "compat a b \<Longrightarrow> compat b a"
  by (auto simp: compat_def)

lemma layout_mset: "mset xs = mset ys \<Longrightarrow> layout xs \<longleftrightarrow> layout ys"
  unfolding layout_def
  by (metis compat_sym sorted_wrt_symp_mset set_mset_mset)

lemma fits_trans:
  assumes "fits a b" "fits b c" "0 < snd b"
  shows "fits a c"
proof -
  have "fst a * snd a \<le> fst b" "fst b * 1 \<le> fst b * snd b" "fst b * snd b \<le> fst c"
    using assms by (simp_all add: fits_def)
  then have "fst a * snd a \<le> fst c" by linarith
  with assms(1,2) show ?thesis
    by (auto simp: fits_def intro: dvd_trans)
qed

lemma fits_fst_le: "fits a b \<Longrightarrow> 0 < snd a \<Longrightarrow> fst a \<le> fst b"
  unfolding fits_def by (metis One_nat_def Suc_leI mult.right_neutral mult_le_mono2 order_trans)

text \<open>In a layout sorted by (stride, size), earlier dimensions fit later ones.\<close>

lemma compat_le_fits:
  assumes "compat a b" "a \<le> b" "0 < fst b" "0 < snd a" "0 < snd b"
  shows "fits a b"
proof (cases "fits a b")
  case False
  with assms(1) have ba: "fst b dvd fst a" "fst b * snd b \<le> fst a"
    by (auto simp: compat_def fits_def)
  from assms(2) have ab: "fst a \<le> fst b" "fst a = fst b \<longrightarrow> snd a \<le> snd b"
    by (auto simp: less_eq_prod_def)
  from ba(2) ab(1) have "fst b * snd b \<le> fst b * 1" by linarith
  with assms(3) have "snd b \<le> 1" by (simp only: mult_le_cancel1)
  with assms(5) have "snd b = 1" by simp
  with ba(2) ab assms(4) have "fst a = fst b" "snd a = 1" by auto
  then show ?thesis by (simp add: fits_def)
qed simp

lemma sorted_wrt_fits_sort:
  assumes "\<forall>a \<in> set xs. 0 < fst a \<and> 0 < snd a"
  shows "sorted_wrt fits (sort xs) \<longleftrightarrow> sorted_wrt compat xs"
proof
  assume "sorted_wrt fits (sort xs)"
  then have "sorted_wrt compat (sort xs)"
    by (rule sorted_wrt_mono_rel [rotated]) (auto simp: compat_def)
  then show "sorted_wrt compat xs"
    by (rule sorted_wrt_symp_mset [rotated 2]) (auto intro: compat_sym)
next
  assume "sorted_wrt compat xs"
  then have "sorted_wrt compat (sort xs)"
    by (rule sorted_wrt_symp_mset [rotated 2]) (auto intro: compat_sym)
  moreover have "sorted_wrt (\<le>) (sort xs)" by simp
  ultimately have "sorted_wrt (\<lambda>a b. compat a b \<and> a \<le> b) (sort xs)"
    by (rule sorted_wrt_conjI)
  then show "sorted_wrt fits (sort xs)"
    by (rule sorted_wrt_mono_rel [rotated]) (use assms compat_le_fits in auto)
qed

section \<open>What \<open>Slice::new\<close> accepts\<close>

lemma new_loop_Some_iff:
  assumes "0 < p" "0 < q" "\<forall>a \<in> set xs. 0 < snd a"
  shows "new_loop (Some p) (Some q) (p * q) xs = Inr () \<longleftrightarrow>
    successively fits ((p, q) # xs)"
  using assms
proof (induction xs arbitrary: p q)
  case Nil
  then show ?case by simp
next
  case (Cons a xs)
  obtain s n where a: "a = (s, n)" by (cases a)
  show ?case
  proof (cases "fits (p, q) (s, n)")
    case True
    then have s: "0 < s" "p dvd s" "p * q \<le> s"
      using Cons.prems by (auto simp: fits_def intro: gr_zeroI)
    have "q = 1" if "s = p" using that s(3) Cons.prems(1,2) by auto
    with Cons.IH [of s n] Cons.prems True s show ?thesis
      by (auto simp: a dvd_eq_mod_eq_0 successively_Cons)
  next
    case False
    then show ?thesis
      using Cons.prems by (auto simp: a fits_def dvd_eq_mod_eq_0)
  qed
qed

lemma successively_fits_pos:
  "successively fits (a # xs) \<Longrightarrow> 0 < fst a \<Longrightarrow> \<forall>b \<in> set (a # xs). 0 < snd b \<Longrightarrow>
     \<forall>b \<in> set (a # xs). 0 < fst b"
proof (induction xs arbitrary: a)
  case (Cons b xs)
  then have "fits a b" "0 < snd a" by auto
  then have "0 < fst b"
    using fits_fst_le [of a b] Cons.prems(2) by simp
  with Cons.IH [of b] Cons.prems show ?case by simp
qed simp

lemma new_loop_None_iff:
  assumes "\<forall>a \<in> set xs. 0 < snd a"
  shows "new_loop None None 1 xs = Inr () \<longleftrightarrow>
    (\<forall>a \<in> set xs. 0 < fst a) \<and> successively fits xs"
proof (cases xs)
  case (Cons a ys)
  obtain s n where a: "a = (s, n)" by (cases a)
  have "new_loop None None 1 xs = Inr () \<longleftrightarrow> 0 < s \<and> successively fits xs"
    using new_loop_Some_iff [of s n ys] assms by (auto simp: Cons a)
  also have "\<dots> \<longleftrightarrow> (\<forall>a \<in> set xs. 0 < fst a) \<and> successively fits xs"
    using successively_fits_pos [of a ys] assms by (auto simp: Cons a)
  finally show ?thesis .
qed simp

lemma successively_fits_iff_sorted_wrt:
  assumes "\<forall>a \<in> set xs. 0 < snd a"
  shows "successively fits xs \<longleftrightarrow> sorted_wrt fits xs"
  by (rule successively_iff_sorted_wrt_strong) (use assms fits_trans in blast)

lemma new_loop_iff_layout:
  assumes "\<forall>a \<in> set xs. 0 < snd a"
  shows "new_loop None None 1 (sort xs) = Inr () \<longleftrightarrow> layout xs"
proof -
  have "new_loop None None 1 (sort xs) = Inr () \<longleftrightarrow>
      (\<forall>a \<in> set xs. 0 < fst a) \<and> sorted_wrt fits (sort xs)"
    using new_loop_None_iff [of "sort xs"] successively_fits_iff_sorted_wrt [of "sort xs"] assms
    by simp
  then show ?thesis
    using sorted_wrt_fits_sort [of xs] assms by (auto simp: layout_def)
qed

lemma zip_sizes_pos:
  "\<forall>n \<in> set szs. 0 < n \<Longrightarrow> \<forall>a \<in> set (zip sts szs). 0 < snd a"
  by (auto dest: set_zip_rightD)

lemma slice_new_iff:
  assumes "\<forall>n \<in> set szs. 0 < n"
  shows "slice_new off szs sts = Inr s \<longleftrightarrow>
    s = \<lparr>offset = off, sizes = szs, strides = sts\<rparr> \<and> slice_inv s"
  using new_loop_iff_layout [OF zip_sizes_pos [OF assms, of sts]] assms
  by (auto simp: slice_new_def slice_inv_def)

lemma slice_new_shape:
  "slice_new off szs sts = Inr s \<Longrightarrow>
     s = \<lparr>offset = off, sizes = szs, strides = sts\<rparr> \<and> length szs = length sts"
  by (auto simp: slice_new_def split: if_splits)

section \<open>\<open>coordinates\<close> and \<open>location\<close>\<close>

text \<open>In-range coordinates, and the address they denote.\<close>

definition in_range :: "slice \<Rightarrow> nat list \<Rightarrow> bool" where
  "in_range s c \<longleftrightarrow> list_all2 (<) c (sizes s)"

lemma in_range_length: "in_range s c \<Longrightarrow> length c = length (sizes s)"
  by (simp add: in_range_def list_all2_lengthD)

lemma in_range_nth: "in_range s c \<Longrightarrow> i < length (sizes s) \<Longrightarrow> c ! i < sizes s ! i"
  by (simp add: in_range_def list_all2_conv_all_nth)

lemma in_rangeI:
  "length c = length (sizes s) \<Longrightarrow> (\<And>i. i < length (sizes s) \<Longrightarrow> c ! i < sizes s ! i) \<Longrightarrow>
     in_range s c"
  by (simp add: in_range_def list_all2_conv_all_nth)

abbreviation info_pair :: "nat \<times> nat \<times> nat \<Rightarrow> nat \<times> nat" where
  "info_pair e \<equiv> (fst e, snd (snd e))"

abbreviation info_dim :: "nat \<times> nat \<times> nat \<Rightarrow> nat" where
  "info_dim e \<equiv> fst (snd e)"

text \<open>What the loop of \<open>coordinates\<close> returns denotes the position it was given.\<close>

lemma coord_loop_sound:
  assumes "coord_loop v es pos res = Inr r" "distinct (map info_dim es)"
    "\<forall>e \<in> set es. info_dim e < length res"
  shows "length r = length res \<and> (\<forall>j. j \<notin> info_dim ` set es \<longrightarrow> r ! j = res ! j) \<and>
    (\<forall>e \<in> set es. r ! info_dim e < snd (snd e)) \<and>
    pos = (\<Sum>e\<leftarrow>es. r ! info_dim e * fst e)"
  using assms
proof (induction v es pos res rule: coord_loop.induct)
  case (1 v pos res)
  then show ?case by (auto split: if_splits)
next
  case (2 v stride i sz es pos res)
  define idx where "idx = (if 1 < sz then pos div stride else 0)"
  define new_pos where "new_pos = (if 1 < sz then pos mod stride else pos)"
  from "2.prems"(1) have ok: "\<not> (1 < sz \<and> stride = 0)" "idx < sz"
    and loop: "coord_loop v es new_pos (res[i := idx]) = Inr r"
    by (auto simp: idx_def new_pos_def Let_def split: if_splits)
  have split: "pos = idx * stride + new_pos"
    by (simp add: idx_def new_pos_def)
  have IH: "length r = length (res[i := idx]) \<and>
      (\<forall>j. j \<notin> info_dim ` set es \<longrightarrow> r ! j = res[i := idx] ! j) \<and>
      (\<forall>e \<in> set es. r ! info_dim e < snd (snd e)) \<and>
      new_pos = (\<Sum>e\<leftarrow>es. r ! info_dim e * fst e)"
    using "2.IH" [OF ok(1) idx_def new_pos_def _ loop] ok(2) "2.prems"(2,3) by auto
  then have "r ! i = idx"
    using "2.prems"(2,3) by auto
  with IH split ok(2) show ?case by auto
qed

text \<open>
  Mixed-radix condition on the dimensions in descending order: below a dimension with more than
  one element, the remaining dimensions reach less than its stride.
\<close>

definition reach :: "(nat \<times> nat \<times> nat) list \<Rightarrow> nat" where
  "reach es = (\<Sum>(s, i, n)\<leftarrow>es. (n - 1) * s)"

fun radix :: "(nat \<times> nat \<times> nat) list \<Rightarrow> bool" where
  "radix [] = True"
| "radix ((s, i, n) # es) = ((1 < n \<longrightarrow> reach es < s) \<and> radix es)"

lemma sum_le_reach:
  assumes "\<forall>(s, i, n) \<in> set es. f i < n"
  shows "(\<Sum>(s, i, n)\<leftarrow>es. f i * s) \<le> reach es"
  using assms by (induction es) (auto simp: reach_def intro!: add_mono mult_le_mono1)

lemma coord_loop_complete:
  assumes "radix es" "\<forall>(s, i, n) \<in> set es. f i < n" "distinct (map info_dim es)"
    "\<forall>e \<in> set es. info_dim e < length res"
  shows "\<exists>r. coord_loop v es (\<Sum>(s, i, n)\<leftarrow>es. f i * s) res = Inr r \<and>
    (\<forall>e \<in> set es. r ! info_dim e = f (info_dim e))"
  using assms
proof (induction es arbitrary: res)
  case Nil
  then show ?case by simp
next
  case (Cons e es)
  obtain s i n where e: "e = (s, i, n)" by (cases e) auto
  let ?rest = "\<Sum>(s, i, n)\<leftarrow>es. f i * s"
  have rest: "?rest \<le> reach es" and fi: "f i < n"
    using sum_le_reach [of es f] Cons.prems(2) by (auto simp: e)
  obtain r where r: "coord_loop v es ?rest (res[i := f i]) = Inr r"
    "\<forall>e \<in> set es. r ! info_dim e = f (info_dim e)"
    using Cons.IH [of "res[i := f i]"] Cons.prems by (auto simp: e)
  have "r ! i = f i"
    using coord_loop_sound [OF r(1)] Cons.prems by (auto simp: e)
  moreover have "coord_loop v (e # es) (f i * s + ?rest) res = Inr r"
  proof (cases "1 < n")
    case True
    with Cons.prems(1) rest have less: "?rest < s" by (simp add: e)
    then have "(f i * s + ?rest) div s = f i" "(f i * s + ?rest) mod s = ?rest"
      by simp_all
    with True fi r(1) less show ?thesis by (simp add: e Let_def)
  next
    case False
    with fi have "f i = 0" by simp
    with False fi r(1) show ?thesis by (simp add: e Let_def)
  qed
  ultimately show ?case
    using r(2) by (auto simp: e)
qed

section \<open>The dimension table of \<open>coordinates\<close>\<close>

lemma length_sorted_info [simp]:
  "length (sorted_info s) = min (length (strides s)) (length (sizes s))"
  by (simp add: sorted_info_def)

lemma mset_sorted_info: "mset (sorted_info s) = mset (zip (strides s) (enumerate 0 (sizes s)))"
  by (simp add: sorted_info_def)

lemma map_info_pair_zip:
  "map info_pair (zip sts (enumerate k szs)) = zip sts szs"
  by (induction sts arbitrary: szs k) (auto simp: zip_Cons1 split: list.split)

lemma map_info_dim_zip:
  "map info_dim (zip sts (enumerate k szs)) = [k..<k + min (length sts) (length szs)]"
proof (induction sts arbitrary: szs k)
  case (Cons a sts)
  then show ?case
    by (cases szs) (simp_all add: upt_conv_Cons del: upt_Suc)
qed simp

lemma distinct_sorted_info: "distinct (map info_dim (sorted_info s))"
proof -
  have "mset (map info_dim (sorted_info s)) =
      mset (map info_dim (zip (strides s) (enumerate 0 (sizes s))))"
    by (metis mset_map mset_sorted_info)
  then show ?thesis
    using mset_eq_imp_distinct_iff map_info_dim_zip distinct_upt by metis
qed

lemma sum_list_zip_enumerate:
  assumes "length sts = length szs"
  shows "(\<Sum>(s, i, n)\<leftarrow>zip sts (enumerate 0 szs). f i * s) = (\<Sum>i<length szs. f i * sts ! i)"
  using assms
  by (simp add: sum_list_sum_nth atLeast0LessThan nth_enumerate_eq case_prod_beta)

lemma sum_sorted_info:
  assumes "length (sizes s) = length (strides s)"
  shows "(\<Sum>(st, i, n)\<leftarrow>sorted_info s. f i * st) = (\<Sum>i<length (sizes s). f i * strides s ! i)"
  using sum_list_zip_enumerate [of "strides s" "sizes s" f] assms
    sum_list_map_mset [OF mset_sorted_info, of "\<lambda>(st, i, n). f i * st" s] by simp

lemma set_sorted_info:
  assumes "length (sizes s) = length (strides s)"
  shows "set (sorted_info s) = (\<lambda>i. (strides s ! i, i, sizes s ! i)) ` {..<length (sizes s)}"
  using assms
  by (auto simp: sorted_info_def set_zip nth_enumerate_eq image_iff Bex_def)

lemma dot_nth:
  "length xs = length ys \<Longrightarrow> dot xs ys = (\<Sum>i<length xs. xs ! i * ys ! i)"
  by (simp add: dot_def sum_list_zip_nth)

section \<open>The invariant gives the radix condition\<close>

lemma slice_inv_pos:
  assumes "slice_inv s" "i < length (sizes s)"
  shows "0 < strides s ! i" "0 < sizes s ! i"
proof -
  have "(strides s ! i, sizes s ! i) \<in> set (zip (strides s) (sizes s))"
    using assms by (auto simp: slice_inv_def set_zip)
  with assms show "0 < strides s ! i" "0 < sizes s ! i"
    by (auto simp: slice_inv_def layout_def)
qed

lemma reach_chain:
  assumes "\<forall>e \<in> set es. fits (info_pair e) (s, n)" "0 < s"
    "sorted_wrt (\<lambda>e f. 1 < snd (snd f) \<longrightarrow> fits (info_pair e) (info_pair f)) es"
    "\<forall>e \<in> set es. 0 < fst e \<and> 0 < snd (snd e)"
  shows "reach es < s"
  using assms
proof (induction es arbitrary: s n rule: rev_induct)
  case Nil
  then show ?case by (simp add: reach_def)
next
  case (snoc e es)
  obtain p i q where e: "e = (p, i, q)" by (cases e) auto
  show ?case
  proof (cases "1 < q")
    case False
    with snoc.prems have "q = 1" by (simp add: e)
    with snoc.IH [of s n] snoc.prems show ?thesis
      by (auto simp: reach_def e sorted_wrt_append)
  next
    case True
    have "reach es < p"
      by (rule snoc.IH [of p q]) (use snoc.prems True in \<open>auto simp: e sorted_wrt_append\<close>)
    then have "reach (es @ [e]) < p + (q - 1) * p"
      by (simp add: reach_def e)
    also have "\<dots> = p * q"
      using True by (simp add: algebra_simps diff_mult_distrib)
    also have "\<dots> \<le> s"
      using snoc.prems(1) by (auto simp: e fits_def)
    finally show ?thesis .
  qed
qed

lemma radix_rev:
  assumes "sorted_wrt (\<lambda>e f. 1 < snd (snd f) \<longrightarrow> fits (info_pair e) (info_pair f)) es"
    "\<forall>e \<in> set es. 0 < fst e \<and> 0 < snd (snd e)"
  shows "radix (rev es)"
  using assms
proof (induction es rule: rev_induct)
  case (snoc e es)
  obtain p i q where e: "e = (p, i, q)" by (cases e) auto
  have "1 < q \<longrightarrow> reach es < p"
    using reach_chain [of es p q] snoc.prems by (auto simp: e sorted_wrt_append)
  moreover have "reach (rev es) = reach es"
    by (simp add: reach_def)
  ultimately show ?case
    using snoc by (simp add: e sorted_wrt_append)
qed simp

lemma slice_inv_radix:
  assumes "slice_inv s"
  shows "radix (rev (sorted_info s))"
proof (rule radix_rev)
  let ?z = "zip (strides s) (enumerate 0 (sizes s))"
  have inv: "layout (map info_pair ?z)" "length (sizes s) = length (strides s)"
    using assms by (simp_all add: slice_inv_def map_info_pair_zip)
  show p: "\<forall>e \<in> set (sorted_info s). 0 < fst e \<and> 0 < snd (snd e)"
    using slice_inv_pos [OF assms] set_sorted_info [OF inv(2)] by auto
  have "sorted_wrt (\<lambda>e f. compat (info_pair e) (info_pair f)) ?z"
    using inv(1) by (simp add: layout_def sorted_wrt_map)
  then have "sorted_wrt (\<lambda>e f. compat (info_pair e) (info_pair f)) (sorted_info s)"
    by (rule sorted_wrt_symp_mset [rotated 2]) (auto simp: mset_sorted_info intro: compat_sym)
  moreover have "sorted_wrt (\<lambda>e f. fst e \<le> fst f) (sorted_info s)"
    using sorted_sort_key [of fst ?z] by (simp add: sorted_info_def sorted_wrt_map)
  ultimately have
    "sorted_wrt (\<lambda>e f. compat (info_pair e) (info_pair f) \<and> fst e \<le> fst f) (sorted_info s)"
    by (rule sorted_wrt_conjI)
  then show "sorted_wrt (\<lambda>e f. 1 < snd (snd f) \<longrightarrow> fits (info_pair e) (info_pair f)) (sorted_info s)"
  proof (rule sorted_wrt_mono_rel [rotated], intro impI)
    fix e f
    assume m: "e \<in> set (sorted_info s)" "f \<in> set (sorted_info s)"
      and c: "compat (info_pair e) (info_pair f) \<and> fst e \<le> fst f" and n: "1 < snd (snd f)"
    have "\<not> fits (info_pair f) (info_pair e)"
    proof
      assume "fits (info_pair f) (info_pair e)"
      with c have "fst f * snd (snd f) \<le> fst f * 1" by (auto simp: fits_def)
      with n p m show False by (simp only: mult_le_cancel1) auto
    qed
    with c show "fits (info_pair e) (info_pair f)"
      by (simp add: compat_def)
  qed
qed

section \<open>Address arithmetic is a bijection\<close>

lemma location_eq:
  "length c = length (sizes s) \<Longrightarrow> location s c = Inr (offset s + dot c (strides s))"
  by (simp add: location_def)

lemma coordinates_sound:
  assumes "coordinates s v = Inr c" "length (sizes s) = length (strides s)"
  shows "in_range s c \<and> location s c = Inr v"
proof -
  let ?es = "rev (sorted_info s)"
  from assms(1) have v: "offset s \<le> v"
    and loop: "coord_loop v ?es (v - offset s) (replicate (length (sizes s)) 0) = Inr c"
    by (auto simp: coordinates_def checked_sub_def split: option.splits if_splits)
  have c: "length c = length (sizes s)" "\<forall>e \<in> set ?es. c ! info_dim e < snd (snd e)"
    "v - offset s = (\<Sum>e\<leftarrow>?es. c ! info_dim e * fst e)"
    using coord_loop_sound [OF loop] distinct_sorted_info [of s] set_sorted_info [OF assms(2)]
    by auto
  have "(\<Sum>e\<leftarrow>?es. c ! info_dim e * fst e) = (\<Sum>(st, i, n)\<leftarrow>sorted_info s. c ! i * st)"
    by (simp add: case_prod_unfold)
  with c(3) sum_sorted_info [OF assms(2), of "\<lambda>i. c ! i"]
  have "v - offset s = (\<Sum>i<length (sizes s). c ! i * strides s ! i)"
    by simp
  with v c(1) assms(2) have "location s c = Inr v"
    by (simp add: location_def dot_nth)
  moreover have "in_range s c"
    using c(1,2) set_sorted_info [OF assms(2)] by (auto intro!: in_rangeI)
  ultimately show ?thesis by simp
qed

lemma coordinates_complete:
  assumes "slice_inv s" "in_range s c"
  shows "coordinates s (offset s + dot c (strides s)) = Inr c"
proof -
  have len: "length (sizes s) = length (strides s)" "length c = length (sizes s)"
    using assms by (simp_all add: slice_inv_def in_range_length)
  let ?es = "rev (sorted_info s)" and ?v = "offset s + dot c (strides s)"
  have "\<forall>(st, i, n) \<in> set ?es. c ! i < n"
    using set_sorted_info [OF len(1)] in_range_nth [OF assms(2)] by auto
  moreover have "distinct (map info_dim ?es)"
    using distinct_sorted_info [of s] by simp
  moreover have "\<forall>e \<in> set ?es. info_dim e < length (replicate (length (sizes s)) (0::nat))"
    using set_sorted_info [OF len(1)] by auto
  ultimately obtain r where
    r: "coord_loop ?v ?es (\<Sum>(st, i, n)\<leftarrow>?es. c ! i * st) (replicate (length (sizes s)) 0) = Inr r"
      "\<forall>e \<in> set ?es. r ! info_dim e = c ! info_dim e"
    using coord_loop_complete [OF slice_inv_radix [OF assms(1)], of "\<lambda>i. c ! i"] by blast
  have "(\<Sum>(st, i, n)\<leftarrow>?es. c ! i * st) = dot c (strides s)"
    using sum_sorted_info [OF len(1), of "\<lambda>i. c ! i"] len
    by (simp add: dot_nth)
  with r(1) have ok: "coordinates s ?v = Inr r"
    by (simp add: coordinates_def checked_sub_def)
  then have "length r = length (sizes s)"
    using coordinates_sound [OF _ len(1)] in_range_length by blast
  then have "r = c"
    using r(2) len set_sorted_info [OF len(1)] by (auto intro!: nth_equalityI)
  with ok show ?thesis by simp
qed

section \<open>Row-major ordinals\<close>

text \<open>
  Little-endian mixed radix: the loops of \<open>index\<close>, \<open>get\<close> and the Cartesian iterator
  walk the dimensions from the last to the first, so they work on reversed lists.
\<close>

fun digits :: "nat list \<Rightarrow> nat \<Rightarrow> nat list" where
  "digits [] k = []"
| "digits (d # ds) k = (k mod d) # digits ds (k div d)"

fun undigits :: "nat list \<Rightarrow> nat list \<Rightarrow> nat" where
  "undigits (d # ds) (x # xs) = x + d * undigits ds xs"
| "undigits _ _ = 0"

lemma length_digits [simp]: "length (digits ds k) = length ds"
  by (induction ds arbitrary: k) auto

lemma digits_in_range:
  "k < prod_list ds \<Longrightarrow> list_all2 (<) (digits ds k) ds"
proof (induction ds arbitrary: k)
  case (Cons d ds)
  then have "0 < d" by (auto intro: gr_zeroI)
  moreover from this Cons.prems have "k div d < prod_list ds"
    by (simp add: div_less_iff_less_mult mult.commute)
  ultimately show ?case using Cons.IH by simp
qed simp

lemma undigits_digits: "k < prod_list ds \<Longrightarrow> undigits ds (digits ds k) = k"
proof (induction ds arbitrary: k)
  case (Cons d ds)
  then have "0 < d" by (auto intro: gr_zeroI)
  with Cons.prems have "k div d < prod_list ds"
    by (simp add: div_less_iff_less_mult mult.commute)
  with Cons.IH show ?case by simp
qed simp

lemma digits_undigits:
  "list_all2 (<) xs ds \<Longrightarrow> digits ds (undigits ds xs) = xs \<and> undigits ds xs < prod_list ds"
proof (induction xs ds rule: list_all2_induct)
  case (Cons x xs d ds)
  have "x + d * undigits ds xs < d * Suc (undigits ds xs)"
    using Cons by simp
  also have "\<dots> \<le> d * prod_list ds"
    using Cons by (intro mult_le_mono2) simp
  finally show ?case using Cons by simp
qed simp

lemma index_loop_eq:
  "length xs = length ds \<Longrightarrow> index_loop (zip xs ds) st res = res + st * undigits ds xs"
  by (induction xs ds arbitrary: st res rule: list_induct2) (auto simp: algebra_simps)

lemma get_loop_eq:
  "length ds = length sts \<Longrightarrow> get_loop (zip ds sts) val k acc =
     (if 0 \<in> set ds then None else Some (val + dot (digits ds k) sts, acc * prod_list ds))"
  by (induction ds sts arbitrary: val k acc rule: list_induct2)
     (auto simp: dot_def algebra_simps)

lemma unrank_loop_eq:
  "length ds \<le> length res \<Longrightarrow>
     unrank_loop (rev (enumerate 0 ds)) k res = rev (digits (rev ds) k) @ drop (length ds) res"
proof (induction ds arbitrary: k res rule: rev_induct)
  case (snoc d ds)
  have "drop (length ds) (res[length ds := k mod d]) = k mod d # drop (Suc (length ds)) res"
    using snoc.prems by (simp add: drop_update_swap Cons_nth_drop_Suc [symmetric])
  with snoc show ?case by (simp add: enumerate_append_eq)
qed simp

definition unrank :: "nat list \<Rightarrow> nat \<Rightarrow> nat list" where
  "unrank szs k = rev (digits (rev szs) k)"

definition ordinal :: "nat list \<Rightarrow> nat list \<Rightarrow> nat" where
  "ordinal szs c = undigits (rev szs) (rev c)"

lemma length_unrank [simp]: "length (unrank szs k) = length szs"
  by (simp add: unrank_def)

lemma prod_list_rev [simp]: "prod_list (rev xs) = (prod_list xs :: nat)"
  by (induction xs) (simp_all add: mult.commute)

lemma unrank_in_range: "k < prod_list szs \<Longrightarrow> list_all2 (<) (unrank szs k) szs"
  using digits_in_range [of k "rev szs"] by (simp add: unrank_def list_all2_rev1)

lemma ordinal_unrank: "k < prod_list szs \<Longrightarrow> ordinal szs (unrank szs k) = k"
  using undigits_digits [of k "rev szs"] by (simp add: unrank_def ordinal_def)

lemma unrank_ordinal:
  "list_all2 (<) c szs \<Longrightarrow> unrank szs (ordinal szs c) = c \<and> ordinal szs c < prod_list szs"
  using digits_undigits [of "rev c" "rev szs"] by (simp add: unrank_def ordinal_def)

lemma dot_rev: "length xs = length ys \<Longrightarrow> dot (rev xs) (rev ys) = dot xs ys"
  by (simp add: dot_def zip_rev)

section \<open>What iteration enumerates\<close>

lemma cart_collect_from:
  "cart_collect \<lparr>dims = ds, cart_index = i\<rparr> = map (unrank ds) [i..<prod_list ds]"
proof (induction "prod_list ds - i" arbitrary: i)
  case 0
  then show ?case
    by (simp add: cart_collect.simps [of "\<lparr>dims = ds, cart_index = i\<rparr>"] cart_next_def)
next
  case (Suc n)
  then have "[i..<prod_list ds] = i # [Suc i..<prod_list ds]"
    by (simp add: upt_conv_Cons)
  with Suc show ?case
    by (simp add: cart_collect.simps [of "\<lparr>dims = ds, cart_index = i\<rparr>"] cart_next_def
        unrank_loop_eq unrank_def)
qed

text \<open>The ranks of a slice, in row-major order.\<close>

definition ranks :: "slice \<Rightarrow> nat list" where
  "ranks s = map (\<lambda>k. offset s + dot (unrank (sizes s) k) (strides s)) [0..<slice_len s]"

lemma cart_collect_new: "cart_collect (cart_new ds) = map (unrank ds) [0..<prod_list ds]"
  by (simp add: cart_new_def cart_collect_from)

lemma slice_iter_eq: "slice_iter s = Inr (ranks s)"
  by (simp add: slice_iter_def cart_collect_new ranks_def slice_len_def collect_result_Inr
      list_all2_conv_all_nth location_def)

lemma length_ranks [simp]: "length (ranks s) = slice_len s"
  by (simp add: ranks_def)

lemma nth_ranks:
  "k < slice_len s \<Longrightarrow> ranks s ! k = offset s + dot (unrank (sizes s) k) (strides s)"
  by (simp add: ranks_def)

lemma unrank_in_range_slice: "k < slice_len s \<Longrightarrow> in_range s (unrank (sizes s) k)"
  by (simp add: in_range_def slice_len_def unrank_in_range)

lemma coordinates_nth_ranks:
  "slice_inv s \<Longrightarrow> k < slice_len s \<Longrightarrow> coordinates s (ranks s ! k) = Inr (unrank (sizes s) k)"
  by (simp add: nth_ranks coordinates_complete unrank_in_range_slice)

lemma coordinates_ranks:
  assumes "coordinates s v = Inr c" "length (sizes s) = length (strides s)"
  shows "ordinal (sizes s) c < slice_len s \<and> ranks s ! ordinal (sizes s) c = v
    \<and> unrank (sizes s) (ordinal (sizes s) c) = c"
  using coordinates_sound [OF assms] unrank_ordinal [of c "sizes s"] in_range_length [of s c]
  by (auto simp: in_range_def slice_len_def nth_ranks location_def)

lemma slice_index_eq:
  "slice_index s v = map_sum id (ordinal (sizes s)) (coordinates s v)"
  if "length (sizes s) = length (strides s)"
proof (cases "coordinates s v")
  case (Inr c)
  then have "length c = length (sizes s)"
    using coordinates_sound [OF Inr that] in_range_length by blast
  with Inr show ?thesis
    by (simp add: slice_index_def ordinal_def index_loop_eq)
qed (simp add: slice_index_def)

lemma slice_get_eq:
  assumes "length (sizes s) = length (strides s)"
  shows "slice_get s i =
    (if 0 \<in> set (sizes s) then Inl Panic
     else if i < slice_len s then Inr (ranks s ! i) else Inl (IndexOutOfRange i (slice_len s)))"
  using assms
  by (simp add: slice_get_def zip_rev [symmetric] get_loop_eq nth_ranks slice_len_def unrank_def
      dot_rev [of "digits (rev (sizes s)) i" "rev (strides s)", simplified])

section \<open>The interface of a rank space\<close>

text \<open>
  What meshes and tiles rely on: a numbering \<open>0..<len\<close> of the members and its inverse.
\<close>

locale rank_space =
  fixes inv :: "'s \<Rightarrow> bool"
    and len :: "'s \<Rightarrow> nat"
    and get :: "'s \<Rightarrow> nat \<Rightarrow> ('e, nat) result"
    and index :: "'s \<Rightarrow> nat \<Rightarrow> ('e, nat) result"
  assumes get_ok: "inv s \<Longrightarrow> i < len s \<Longrightarrow> \<exists>v. get s i = Inr v \<and> index s v = Inr i"
    and get_err: "inv s \<Longrightarrow> len s \<le> i \<Longrightarrow> \<exists>e. get s i = Inl e"
    and index_ok: "inv s \<Longrightarrow> index s v = Inr i \<Longrightarrow> get s i = Inr v"
begin

lemma index_less: "inv s \<Longrightarrow> index s v = Inr i \<Longrightarrow> i < len s"
  using get_err [of s i] index_ok [of s v i] by (cases "i < len s") auto

lemma get_index: "inv s \<Longrightarrow> get s i = Inr v \<Longrightarrow> index s v = Inr i"
  by (metis Inl_Inr_False get_err get_ok leI sum.inject(2))

lemma get_iff_index: "inv s \<Longrightarrow> get s i = Inr v \<longleftrightarrow> index s v = Inr i"
  using get_index index_ok by blast

lemma get_inj: "inv s \<Longrightarrow> get s i = Inr v \<Longrightarrow> get s j = Inr v \<Longrightarrow> i = j"
  by (metis get_index sum.inject(2))

lemma collect_get:
  assumes "inv s" "collect_result (get s) [0..<len s] = Inr vs"
  shows "distinct vs \<and> length vs = len s \<and> set vs = {v. is_ok (index s v)}"
proof -
  have vs: "length vs = len s" "\<And>i. i < len s \<Longrightarrow> get s i = Inr (vs ! i)"
    using assms(2) by (auto simp: collect_result_Inr list_all2_conv_all_nth)
  then have "distinct vs"
    unfolding distinct_conv_nth by (metis get_inj [OF assms(1)])
  moreover have "v \<in> set vs \<longleftrightarrow> is_ok (index s v)" for v
  proof
    assume "v \<in> set vs"
    then obtain i where "i < len s" "v = vs ! i"
      using vs(1) by (auto simp: in_set_conv_nth)
    then show "is_ok (index s v)"
      using get_index [OF assms(1) vs(2)] by simp
  next
    assume "is_ok (index s v)"
    then obtain i where i: "index s v = Inr i" by (auto simp: is_ok_iff)
    then have "i < len s" "v = vs ! i"
      using index_less [OF assms(1)] index_ok [OF assms(1)] vs(2) by fastforce+
    then show "v \<in> set vs" using vs(1) by simp
  qed
  ultimately show ?thesis using vs by auto
qed

end

interpretation slice_space: rank_space slice_inv slice_len slice_get slice_index
proof unfold_locales
  fix s :: slice and i v
  assume inv: "slice_inv s"
  then have len: "length (sizes s) = length (strides s)" and nz: "0 \<notin> set (sizes s)"
    by (auto simp: slice_inv_def)
  show "\<exists>v. slice_get s i = Inr v \<and> slice_index s v = Inr i" if "i < slice_len s"
    using that coordinates_nth_ranks [OF inv that] ordinal_unrank [of i "sizes s"] nz
    by (simp add: slice_get_eq [OF len] slice_index_eq [OF len] slice_len_def)
  show "\<exists>e. slice_get s i = Inl e" if "slice_len s \<le> i"
    using that nz by (simp add: slice_get_eq [OF len])
  show "slice_get s i = Inr v" if "slice_index s v = Inr i"
  proof -
    from that obtain c where c: "coordinates s v = Inr c" "i = ordinal (sizes s) c"
      by (cases "coordinates s v") (simp_all add: slice_index_eq [OF len])
    with coordinates_ranks [OF c(1) len] nz show ?thesis
      by (simp add: slice_get_eq [OF len])
  qed
qed

lemma ranks_collect:
  assumes "slice_inv s"
  shows "collect_result (slice_get s) [0..<slice_len s] = Inr (ranks s)"
  using assms
  by (auto simp: collect_result_Inr list_all2_conv_all_nth slice_get_eq slice_inv_def)

lemma contains_iff_index:
  "length (sizes s) = length (strides s) \<Longrightarrow> contains s v \<longleftrightarrow> is_ok (slice_index s v)"
  by (cases "coordinates s v") (simp_all add: contains_def slice_index_eq)

lemma ranks_props:
  assumes "slice_inv s"
  shows "distinct (ranks s)" "set (ranks s) = {v. contains s v}"
  using slice_space.collect_get [OF assms ranks_collect [OF assms]] assms
  by (simp_all add: contains_iff_index slice_inv_def)

lemma set_ranks_eq:
  assumes "length (sizes s) = length (strides s)"
  shows "set (ranks s) = {offset s + dot c (strides s) | c. in_range s c}"
proof (intro set_eqI iffI)
  fix v
  assume "v \<in> set (ranks s)"
  then show "v \<in> {offset s + dot c (strides s) | c. in_range s c}"
    by (auto simp: in_set_conv_nth nth_ranks intro: unrank_in_range_slice)
next
  fix v
  assume "v \<in> {offset s + dot c (strides s) | c. in_range s c}"
  then obtain c where c: "in_range s c" "v = offset s + dot c (strides s)" by blast
  then have "unrank (sizes s) (ordinal (sizes s) c) = c" "ordinal (sizes s) c < slice_len s"
    using unrank_ordinal [of c "sizes s"] by (auto simp: in_range_def slice_len_def)
  with c show "v \<in> set (ranks s)"
    by (metis length_ranks nth_mem nth_ranks)
qed

end
