(* ===== verification/Slice_Views.thy ===== *)
theory Slice_Views
  imports Slice_Props
begin

text \<open>
  Sub-slices and re-views: \<open>at\<close>, \<open>select\<close>, \<open>subview\<close>, \<open>view\<close>,
  \<open>enforce_embedding\<close>, row-major slices and ordinals relative to a parent. Each lemma says
  which ranks of the base slice the result addresses.
\<close>

section \<open>Inner products\<close>

lemma dot_split:
  assumes "i < length xs" "length xs = length ys"
  shows "dot xs ys = xs ! i * ys ! i + (\<Sum>j\<in>{..<length xs} - {i}. xs ! j * ys ! j)"
  using assms by (simp add: dot_nth sum.remove [of "{..<length ys}" i])

lemma dot_update:
  assumes "i < length xs" "length xs = length ys"
  shows "dot (xs[i := a]) ys + xs ! i * ys ! i = dot xs ys + a * ys ! i"
  using assms dot_split [of i xs ys] dot_split [of i "xs[i := a]" ys] by simp

lemma dot_update2:
  assumes "i < length xs" "length xs = length ys"
  shows "dot xs (ys[i := a]) + xs ! i * ys ! i = dot xs ys + xs ! i * a"
  using assms dot_split [of i xs ys] dot_split [of i xs "ys[i := a]"] by simp

lemma dot_remove_nth:
  assumes "i < length xs" "length xs = length ys"
  shows "dot xs ys = xs ! i * ys ! i + dot (remove_nth i xs) (remove_nth i ys)"
proof -
  have "zip xs ys = zip (take i xs) (take i ys) @ (xs ! i, ys ! i) #
      zip (drop (Suc i) xs) (drop (Suc i) ys)"
    using assms id_take_nth_drop [of i "zip xs ys"] by (simp add: take_zip drop_zip)
  then show ?thesis
    using assms by (simp add: dot_def remove_nth_def)
qed

section \<open>Smaller layouts are layouts\<close>

lemma layout_shrink:
  assumes "layout xs" "list_all2 (\<lambda>a b. fst b = fst a \<and> snd b \<le> snd a) xs ys"
  shows "layout ys"
proof -
  have ys: "length ys = length xs" "\<And>i. i < length xs \<Longrightarrow>
      fst (ys ! i) = fst (xs ! i) \<and> snd (ys ! i) \<le> snd (xs ! i)"
    using assms(2) by (auto simp: list_all2_conv_all_nth)
  have fits: "fits (ys ! i) (ys ! j)" if "fits (xs ! i) (xs ! j)" "i < length xs" "j < length xs" for i j
    using that ys(2) [of i] ys(2) [of j]
    by (auto simp: fits_def intro: order_trans [OF mult_le_mono2])
  have "compat (ys ! i) (ys ! j)" if "i < j" "j < length xs" for i j
    using assms(1) that fits [of i j] fits [of j i]
    unfolding layout_def sorted_wrt_iff_nth_less compat_def by auto
  moreover have "0 < fst (ys ! i)" if "i < length xs" for i
    using assms(1) that ys(2) [of i] by (simp add: layout_def)
  ultimately show ?thesis
    using ys(1) by (auto simp: layout_def sorted_wrt_iff_nth_less all_set_conv_all_nth)
qed

lemma layout_remove_nth:
  assumes "layout xs"
  shows "layout (remove_nth i xs)"
proof (cases "i < length xs")
  case True
  then have "layout (take i xs @ xs ! i # drop (Suc i) xs)"
    using assms by (simp add: id_take_nth_drop [symmetric])
  then show ?thesis
    by (simp add: layout_def remove_nth_def sorted_wrt_append)
qed (use assms in \<open>simp add: remove_nth_def\<close>)

section \<open>\<open>select\<close>\<close>

lemma slice_select_cases:
  assumes "slice_select s dim lo hi step = Inr t"
  shows "dim < length (sizes s)" "lo < sizes s ! dim" "lo < hi" "0 < step"
    "t = \<lparr>offset = offset s + lo * strides s ! dim,
          sizes = (sizes s)[dim := div_ceil (hi - lo) step],
          strides = (strides s)[dim := strides s ! dim * step]\<rparr>"
  using assms
  by (auto simp: slice_select_def dest: slice_new_shape split: if_splits)

lemma slice_select_inv:
  assumes "slice_select s dim lo hi step = Inr t" "slice_inv s"
  shows "slice_inv t"
proof -
  note c = slice_select_cases [OF assms(1)]
  have "\<forall>n \<in> set ((sizes s)[dim := div_ceil (hi - lo) step]). 0 < n"
    using assms(2) c div_ceil_pos [of step "hi - lo"]
    by (auto simp: slice_inv_def dest!: set_update_subset_insert [THEN subsetD])
  with slice_new_iff [OF this] assms(1) c show ?thesis
    by (auto simp: slice_select_def split: if_splits)
qed

lemma slice_select_unit:
  assumes "slice_inv s" "dim < length (sizes s)" "lo < hi" "hi \<le> sizes s ! dim"
  shows "slice_select s dim lo hi 1 =
      Inr \<lparr>offset = offset s + lo * strides s ! dim, sizes = (sizes s)[dim := hi - lo],
           strides = strides s\<rparr>"
proof -
  let ?szs = "(sizes s)[dim := hi - lo]"
  have pos: "\<forall>n \<in> set ?szs. 0 < n"
    using assms by (auto simp: slice_inv_def dest!: set_update_subset_insert [THEN subsetD])
  have "list_all2 (\<lambda>a b. fst b = fst a \<and> snd b \<le> snd a)
      (zip (strides s) (sizes s)) (zip (strides s) ?szs)"
    using assms by (auto simp: list_all2_conv_all_nth nth_list_update slice_inv_def)
  with assms have "layout (zip (strides s) ?szs)"
    by (auto simp: slice_inv_def intro: layout_shrink)
  with assms pos slice_new_iff [OF pos] show ?thesis
    by (simp add: slice_select_def slice_inv_def)
qed

text \<open>The coordinates of the base slice a selection keeps.\<close>

definition selected :: "slice \<Rightarrow> nat \<Rightarrow> nat \<Rightarrow> nat \<Rightarrow> nat \<Rightarrow> nat list \<Rightarrow> bool" where
  "selected s dim lo hi step c \<longleftrightarrow>
     in_range s c \<and> lo \<le> c ! dim \<and> c ! dim < hi \<and> step dvd c ! dim - lo"

lemma select_address:
  assumes "slice_select s dim lo hi step = Inr t" "length (sizes s) = length (strides s)"
    "length d = length (sizes s)"
  shows "offset t + dot d (strides t) =
    offset s + dot (d[dim := lo + d ! dim * step]) (strides s)"
proof -
  note c = slice_select_cases [OF assms(1)]
  have "dot d (strides t) + d ! dim * strides s ! dim =
      dot d (strides s) + d ! dim * (strides s ! dim * step)"
    using dot_update2 [of dim d "strides s"] assms(2,3) c(1,5) by simp
  moreover have "dot (d[dim := lo + d ! dim * step]) (strides s) + d ! dim * strides s ! dim =
      dot d (strides s) + (lo + d ! dim * step) * strides s ! dim"
    using dot_update [of dim d "strides s"] assms(2,3) c(1) by simp
  ultimately show ?thesis
    using c(5) by (simp add: algebra_simps)
qed

lemma select_ranks:
  assumes sel: "slice_select s dim lo hi step = Inr t" and inv: "slice_inv s"
    and hi: "hi \<le> sizes s ! dim"
  shows "set (ranks t) = {offset s + dot c (strides s) | c. selected s dim lo hi step c}"
proof (intro set_eqI iffI)
  note c = slice_select_cases [OF sel]
  have len: "length (sizes s) = length (strides s)" "length (sizes t) = length (strides t)"
    using inv slice_select_inv [OF sel inv] by (simp_all add: slice_inv_def)
  fix v
  {
    assume "v \<in> set (ranks t)"
    then obtain d where d: "in_range t d" "v = offset t + dot d (strides t)"
      by (auto simp: set_ranks_eq [OF len(2)])
    have ld: "length d = length (sizes s)"
      using in_range_length [OF d(1)] c(5) by simp
    let ?c = "d[dim := lo + d ! dim * step]"
    have "d ! dim < div_ceil (hi - lo) step"
      using in_range_nth [OF d(1), of dim] c(1,5) by simp
    then have "lo + d ! dim * step < hi"
      using less_div_ceil_iff [OF c(4)] by (simp add: less_diff_conv2 c(3) less_imp_le)
    moreover have "?c ! i < sizes s ! i" if "i < length (sizes s)" for i
      using in_range_nth [OF d(1), of i] that c(5) ld hi \<open>lo + d ! dim * step < hi\<close>
      by (cases "i = dim") auto
    ultimately have "selected s dim lo hi step ?c"
      using c(1) ld by (auto simp: selected_def intro!: in_rangeI)
    with select_address [OF sel len(1) ld] d(2)
    show "v \<in> {offset s + dot c (strides s) | c. selected s dim lo hi step c}"
      by auto
  next
    assume "v \<in> {offset s + dot c (strides s) | c. selected s dim lo hi step c}"
    then obtain e where e: "in_range s e" "lo \<le> e ! dim" "e ! dim < hi" "step dvd e ! dim - lo"
      and v: "v = offset s + dot e (strides s)"
      by (auto simp: selected_def)
    have le: "length e = length (sizes s)" using in_range_length [OF e(1)] .
    from e(4) obtain k where k: "e ! dim - lo = step * k" by (auto elim: dvdE)
    then have ek: "e ! dim = lo + k * step" using e(2) by (simp add: mult.commute)
    let ?d = "e[dim := k]"
    have "k < div_ceil (hi - lo) step"
      using less_div_ceil_iff [OF c(4)] e(3) ek c(3) by auto
    then have "in_range t ?d"
      using in_range_nth [OF e(1)] le c(1,5) by (auto intro!: in_rangeI simp: nth_list_update)
    moreover have "offset t + dot ?d (strides t) = v"
      using select_address [OF sel len(1), of ?d] le c(1) ek v list_update_id [of e dim] by simp
    ultimately show "v \<in> set (ranks t)"
      by (auto simp: set_ranks_eq [OF len(2)])
  }
qed

section \<open>\<open>at\<close>\<close>

lemma slice_at_ok:
  assumes "slice_inv s" "dim < length (sizes s)" "i < sizes s ! dim"
  shows "\<exists>t. slice_at s dim i = Inr t \<and> slice_inv t \<and>
    t = \<lparr>offset = offset s + i * strides s ! dim, sizes = remove_nth dim (sizes s),
         strides = remove_nth dim (strides s)\<rparr>"
proof -
  let ?szs = "remove_nth dim (sizes s)" and ?sts = "remove_nth dim (strides s)"
  have pos: "\<forall>n \<in> set ?szs. 0 < n"
    using assms(1) by (auto simp: slice_inv_def remove_nth_def dest: in_set_takeD in_set_dropD)
  have "zip ?sts ?szs = remove_nth dim (zip (strides s) (sizes s))"
    using assms(1,2) by (simp add: remove_nth_def slice_inv_def take_zip drop_zip)
  then have "layout (zip ?sts ?szs)"
    using assms(1) by (simp add: slice_inv_def layout_remove_nth)
  with pos assms show ?thesis
    using slice_new_iff [OF pos] by (simp add: slice_at_def slice_inv_def)
qed

lemma nth_remove_nth:
  "dim < length xs \<Longrightarrow> j < length xs - 1 \<Longrightarrow>
     remove_nth dim xs ! j = (if j < dim then xs ! j else xs ! Suc j)"
  by (auto simp: remove_nth_def nth_append min_def)

definition insert_nth :: "nat \<Rightarrow> 'a \<Rightarrow> 'a list \<Rightarrow> 'a list" where
  "insert_nth i x xs = take i xs @ x # drop i xs"

lemma remove_insert_nth [simp]: "i \<le> length xs \<Longrightarrow> remove_nth i (insert_nth i x xs) = xs"
  by (simp add: remove_nth_def insert_nth_def)

lemma insert_remove_nth: "i < length xs \<Longrightarrow> insert_nth i (xs ! i) (remove_nth i xs) = xs"
  by (simp add: remove_nth_def insert_nth_def id_take_nth_drop [symmetric])

lemma length_insert_nth [simp]: "length (insert_nth i x xs) = Suc (length xs)"
  by (simp add: insert_nth_def)

lemma nth_insert_nth_eq [simp]: "i \<le> length xs \<Longrightarrow> insert_nth i x xs ! i = x"
  by (simp add: insert_nth_def nth_append)

lemma list_all2_remove_nth:
  assumes "dim < length xs" "length xs = length ys"
  shows "list_all2 P xs ys \<longleftrightarrow>
    P (xs ! dim) (ys ! dim) \<and> list_all2 P (remove_nth dim xs) (remove_nth dim ys)"
proof -
  have "list_all2 P xs ys \<longleftrightarrow> list_all2 P (take dim xs @ xs ! dim # drop (Suc dim) xs)
      (take dim ys @ ys ! dim # drop (Suc dim) ys)"
    using assms by (simp add: id_take_nth_drop [symmetric])
  also have "\<dots> \<longleftrightarrow> list_all2 P (take dim xs) (take dim ys) \<and> P (xs ! dim) (ys ! dim) \<and>
      list_all2 P (drop (Suc dim) xs) (drop (Suc dim) ys)"
    using assms by (simp add: list_all2_append)
  also have "\<dots> \<longleftrightarrow>
      P (xs ! dim) (ys ! dim) \<and> list_all2 P (remove_nth dim xs) (remove_nth dim ys)"
    using assms by (simp add: list_all2_append remove_nth_def conj_ac)
  finally show ?thesis .
qed

lemma slice_at_ranks:
  assumes "slice_inv s" "slice_at s dim i = Inr t"
  shows "set (ranks t) = {offset s + dot c (strides s) | c. in_range s c \<and> c ! dim = i}"
proof -
  have dim: "dim < length (sizes s)" "i < sizes s ! dim"
    using assms(2) by (auto simp: slice_at_def split: if_splits)
  then have t: "slice_inv t"
    "t = \<lparr>offset = offset s + i * strides s ! dim, sizes = remove_nth dim (sizes s),
         strides = remove_nth dim (strides s)\<rparr>"
    using slice_at_ok [OF assms(1)] assms(2) by auto
  have len: "length (sizes s) = length (strides s)" "length (sizes t) = length (strides t)"
    using assms(1) t(1) by (simp_all add: slice_inv_def)
  have "(\<exists>d. in_range t d \<and> v = offset t + dot d (strides t)) \<longleftrightarrow>
      (\<exists>c. in_range s c \<and> c ! dim = i \<and> v = offset s + dot c (strides s))" for v
  proof
    assume "\<exists>d. in_range t d \<and> v = offset t + dot d (strides t)"
    then obtain d where d: "in_range t d" "v = offset t + dot d (strides t)" by blast
    let ?c = "insert_nth dim i d"
    have ld: "Suc (length d) = length (sizes s)"
      using in_range_length [OF d(1)] dim(1) t(2) by simp
    then have "in_range s ?c" "?c ! dim = i"
      using d(1) dim list_all2_remove_nth [of dim ?c "sizes s" "(<)"] t(2)
      by (simp_all add: in_range_def)
    moreover have "v = offset s + dot ?c (strides s)"
      using dot_remove_nth [of dim ?c "strides s"] d(2) t(2) ld len dim by simp
    ultimately show "\<exists>c. in_range s c \<and> c ! dim = i \<and> v = offset s + dot c (strides s)" by blast
  next
    assume "\<exists>c. in_range s c \<and> c ! dim = i \<and> v = offset s + dot c (strides s)"
    then obtain c where c: "in_range s c" "c ! dim = i" "v = offset s + dot c (strides s)" by blast
    have "in_range t (remove_nth dim c)"
      using c(1) dim list_all2_remove_nth [of dim c "sizes s" "(<)"] in_range_length [OF c(1)] t(2)
      by (simp add: in_range_def)
    moreover have "v = offset t + dot (remove_nth dim c) (strides t)"
      using dot_remove_nth [of dim c "strides s"] c in_range_length [OF c(1)] t(2) len dim by simp
    ultimately show "\<exists>d. in_range t d \<and> v = offset t + dot d (strides t)" by blast
  qed
  then show ?thesis
    by (auto simp: set_ranks_eq [OF len(2)])
qed

section \<open>\<open>subview\<close>\<close>

lemma subview_check_iff:
  "length xs = length szs \<Longrightarrow> subview_check xs szs = Inr () \<longleftrightarrow>
     list_all2 (\<lambda>(start, len) sz. start + len \<le> sz) xs szs"
  by (induction xs szs rule: list_induct2) (auto split: if_splits)

lemma subview_iff:
  "subview s starts lens = Inr t \<longleftrightarrow>
     length starts = num_dim s \<and> length lens = num_dim s \<and>
     (\<forall>i < num_dim s. starts ! i + lens ! i \<le> sizes s ! i) \<and>
     t = \<lparr>offset = offset s + dot starts (strides s), sizes = lens, strides = strides s\<rparr>"
  by (auto simp: subview_def subview_check_iff location_def num_dim_def list_all2_conv_all_nth)

lemma subview_inv:
  assumes "slice_inv s" "subview s starts lens = Inr t" "\<forall>n \<in> set lens. 0 < n"
  shows "slice_inv t"
proof -
  have t: "length lens = length (sizes s)" "\<And>i. i < length (sizes s) \<Longrightarrow> lens ! i \<le> sizes s ! i"
    "sizes t = lens" "strides t = strides s"
    using assms(2) by (auto simp: subview_iff num_dim_def intro: add_leD2)
  have "list_all2 (\<lambda>a b. fst b = fst a \<and> snd b \<le> snd a)
      (zip (strides s) (sizes s)) (zip (strides s) lens)"
    using t assms(1) by (auto simp: list_all2_conv_all_nth slice_inv_def)
  with assms(1,3) t show ?thesis
    by (auto simp: slice_inv_def intro: layout_shrink)
qed

lemma dot_add:
  assumes "length xs = length zs" "length ys = length zs"
  shows "dot (map2 (+) xs ys) zs = dot xs zs + dot ys zs"
  using assms by (simp add: dot_nth algebra_simps sum.distrib)

lemma subview_ranks:
  assumes "slice_inv s" "subview s starts lens = Inr t"
  shows "set (ranks t) = {offset s + dot c (strides s) | c. in_range s c \<and>
    (\<forall>i < length (sizes s). starts ! i \<le> c ! i \<and> c ! i < starts ! i + lens ! i)}"
proof -
  have t: "length starts = length (sizes s)" "length lens = length (sizes s)"
    "\<And>i. i < length (sizes s) \<Longrightarrow> starts ! i + lens ! i \<le> sizes s ! i"
    "t = \<lparr>offset = offset s + dot starts (strides s), sizes = lens, strides = strides s\<rparr>"
    using assms(2) by (auto simp: subview_iff num_dim_def)
  have len: "length (sizes s) = length (strides s)" "length (sizes t) = length (strides t)"
    using assms(1) t by (simp_all add: slice_inv_def)
  have "(\<exists>d. in_range t d \<and> v = offset t + dot d (strides t)) \<longleftrightarrow>
      (\<exists>c. in_range s c \<and> (\<forall>i < length (sizes s). starts ! i \<le> c ! i \<and> c ! i < starts ! i + lens ! i)
         \<and> v = offset s + dot c (strides s))" for v
  proof
    assume "\<exists>d. in_range t d \<and> v = offset t + dot d (strides t)"
    then obtain d where d: "in_range t d" "v = offset t + dot d (strides t)" by blast
    let ?c = "map2 (+) starts d"
    have ld: "length d = length (sizes s)"
      using in_range_length [OF d(1)] t by simp
    have lt: "d ! i < lens ! i" if "i < length (sizes s)" for i
      using in_range_nth [OF d(1), of i] that t by simp
    have "in_range s ?c"
    proof (rule in_rangeI)
      fix i assume "i < length (sizes s)"
      with lt [of i] t(3) [of i] t(1) ld show "?c ! i < sizes s ! i" by simp
    qed (use t ld in simp)
    moreover have "v = offset s + dot ?c (strides s)"
      using d(2) t ld len by (simp add: dot_add)
    ultimately show "\<exists>c. in_range s c \<and>
        (\<forall>i < length (sizes s). starts ! i \<le> c ! i \<and> c ! i < starts ! i + lens ! i)
        \<and> v = offset s + dot c (strides s)"
      using lt t ld by (intro exI [of _ ?c]) simp
  next
    assume "\<exists>c. in_range s c \<and>
        (\<forall>i < length (sizes s). starts ! i \<le> c ! i \<and> c ! i < starts ! i + lens ! i)
        \<and> v = offset s + dot c (strides s)"
    then obtain c where c: "in_range s c"
      "\<forall>i < length (sizes s). starts ! i \<le> c ! i \<and> c ! i < starts ! i + lens ! i"
      "v = offset s + dot c (strides s)" by blast
    let ?d = "map2 (-) c starts"
    have lc: "length c = length (sizes s)" using in_range_length [OF c(1)] .
    have "map2 (+) starts ?d = c"
      using c(2) lc t by (auto intro!: nth_equalityI)
    then have "dot starts (strides s) + dot ?d (strides s) = dot c (strides s)"
      using dot_add [of starts "strides s" ?d] lc t len by simp
    moreover have "in_range t ?d"
      using c(2) lc t by (auto intro!: in_rangeI)
    ultimately show "\<exists>d. in_range t d \<and> v = offset t + dot d (strides t)"
      using c(3) t by (intro exI [of _ ?d]) simp
  qed
  then show ?thesis
    unfolding set_ranks_eq [OF len(2)] by blast
qed

section \<open>Row-major slices\<close>

lemma length_row_major_fold [simp]: "length (row_major_fold acc ds) = length ds"
  by (induction ds arbitrary: acc) auto

lemma length_row_major_strides [simp]: "length (row_major_strides szs) = length szs"
  by (simp add: row_major_strides_def)

lemma dot_row_major_fold:
  "length xs = length ds \<Longrightarrow> dot xs (row_major_fold acc ds) = acc * undigits ds xs"
  by (induction xs ds arbitrary: acc rule: list_induct2) (auto simp: dot_def algebra_simps)

lemma dot_row_major:
  assumes "length c = length szs"
  shows "dot c (row_major_strides szs) = ordinal szs c"
  using assms dot_row_major_fold [of "rev c" "rev szs" 1]
    dot_rev [of c "row_major_strides szs"]
  by (simp add: row_major_strides_def ordinal_def)

lemma row_major_fold_layout:
  assumes "\<forall>n \<in> set ds. 0 < n" "0 < acc"
  shows "sorted_wrt fits (zip (row_major_fold acc ds) ds) \<and>
    (\<forall>b \<in> set (zip (row_major_fold acc ds) ds). acc dvd fst b \<and> acc \<le> fst b)"
  using assms
proof (induction ds arbitrary: acc)
  case (Cons n ds)
  then have "0 < n * acc" by simp
  with Cons have IH: "sorted_wrt fits (zip (row_major_fold (n * acc) ds) ds)"
    "\<forall>b \<in> set (zip (row_major_fold (n * acc) ds) ds). n * acc dvd fst b \<and> n * acc \<le> fst b"
    by auto
  have "acc dvd x \<and> acc \<le> x" if "n * acc dvd x" "n * acc \<le> x" for x
    using that Cons.prems dvd_mult_right [of n acc x]
    by (auto intro: order_trans [of acc "n * acc"])
  with IH have "\<forall>b \<in> set (zip (row_major_fold (n * acc) ds) ds).
      fits (acc, n) b \<and> acc dvd fst b \<and> acc \<le> fst b"
    by (auto simp: fits_def mult.commute)
  with IH(1) show ?case by auto
qed simp

lemma new_row_major_inv:
  assumes "\<forall>n \<in> set szs. 0 < n"
  shows "slice_inv (new_row_major szs)"
proof -
  let ?z = "zip (row_major_fold 1 (rev szs)) (rev szs)"
  have z: "sorted_wrt fits ?z" "\<forall>b \<in> set ?z. 1 \<le> fst b"
    using row_major_fold_layout [of "rev szs" 1] assms by auto
  have "sorted_wrt compat ?z"
    by (rule sorted_wrt_mono_rel [OF _ z(1)]) (simp add: compat_def)
  with z(2) have "layout ?z" by (fastforce simp: layout_def)
  moreover have "mset (zip (row_major_strides szs) szs) = mset ?z"
    by (metis length_rev length_row_major_fold mset_rev rev_rev_ident row_major_strides_def zip_rev)
  ultimately have "layout (zip (row_major_strides szs) szs)"
    using layout_mset by blast
  with assms show ?thesis
    by (simp add: slice_inv_def new_row_major_def)
qed

lemma ranks_new_row_major: "ranks (new_row_major szs) = [0..<prod_list szs]"
  by (auto simp: ranks_def new_row_major_def slice_len_def dot_row_major ordinal_unrank
      intro!: nth_equalityI)

lemma contiguous_loop_iff:
  "length sts = length szs \<Longrightarrow>
     contiguous_loop e (zip sts szs) \<longleftrightarrow> sts = row_major_fold e szs"
  by (induction sts szs arbitrary: e rule: list_induct2) (auto simp: mult.commute)

lemma is_contiguous_iff:
  assumes "length (sizes s) = length (strides s)"
  shows "is_contiguous s \<longleftrightarrow> strides s = row_major_strides (sizes s)"
  using assms contiguous_loop_iff [of "rev (strides s)" "rev (sizes s)" 1]
  by (auto simp: is_contiguous_def zip_rev [symmetric] row_major_strides_def rev_swap)

lemma is_contiguous_ranks:
  assumes "length (sizes s) = length (strides s)" "is_contiguous s"
  shows "ranks s = [offset s..<offset s + slice_len s]"
  using assms
  by (auto simp: is_contiguous_iff ranks_def slice_len_def dot_row_major ordinal_unrank
      intro!: nth_equalityI)

section \<open>\<open>view\<close>\<close>

lemma row_major_fold_append:
  "row_major_fold acc (ds @ [d]) = row_major_fold acc ds @ [acc * prod_list ds]"
  by (induction ds arbitrary: acc) (auto simp: algebra_simps)

lemma row_major_strides_Cons:
  "row_major_strides (n # ns) = prod_list ns # row_major_strides ns"
  by (simp add: row_major_strides_def row_major_fold_append)

lemma nth_row_major_strides:
  "i < length szs \<Longrightarrow> row_major_strides szs ! i = prod_list (drop (Suc i) szs)"
  by (induction szs arbitrary: i) (auto simp: row_major_strides_Cons nth_Cons split: nat.splits)

lemma view_strides_loop_eq:
  assumes "length acc = length szs" "m < length szs"
    "\<And>k. m \<le> k \<Longrightarrow> k < length szs \<Longrightarrow> acc ! k = prod_list (drop (Suc k) szs)"
  shows "view_strides_loop szs acc (rev [0..<m]) = row_major_strides szs"
  using assms
proof (induction m arbitrary: acc)
  case 0
  then show ?case by (auto intro!: nth_equalityI simp: nth_row_major_strides)
next
  case (Suc m)
  let ?acc = "acc[m := acc ! Suc m * szs ! Suc m]"
  have "drop (Suc m) szs = szs ! Suc m # drop (Suc (Suc m)) szs"
    using Suc.prems(2) by (simp add: Cons_nth_drop_Suc)
  then have "acc ! Suc m * szs ! Suc m = prod_list (drop (Suc m) szs)"
    using Suc.prems(3) [of "Suc m"] Suc.prems(2) by (simp add: mult.commute)
  then have "?acc ! k = prod_list (drop (Suc k) szs)" if "m \<le> k" "k < length szs" for k
    using that Suc.prems by (cases "k = m") auto
  with Suc.IH [of ?acc] Suc.prems show ?case by simp
qed

lemma view_strides:
  "view_strides_loop szs (replicate (length szs) 1) (rev [0..<length szs - 1]) =
     row_major_strides szs"
proof (cases "szs = []")
  case False
  show ?thesis
  proof (rule view_strides_loop_eq)
    fix k assume "length szs - 1 \<le> k" "k < length szs"
    then show "replicate (length szs) 1 ! k = prod_list (drop (Suc k) szs)" by simp
  qed (use False in simp_all)
qed (simp add: row_major_strides_def)

lemma view_check_iff:
  "view_check s sts cs = Inr () \<longleftrightarrow> (\<forall>c \<in> set cs. contains s (dot c sts))"
  by (induction cs) (auto simp: contains_def)

lemma slice_view_eq:
  "slice_view s szs =
     (if prod_list szs \<noteq> slice_len s
        then Inl (IncompatibleView (ElementCountMismatch (slice_len s) (prod_list szs)))
      else if offset s \<noteq> 0 then Inl (IncompatibleView (NonzeroOffset (offset s)))
      else bind_result (view_check s (row_major_strides szs) (cart_collect (cart_new szs)))
             (\<lambda>_. Inr (new_row_major szs)))"
  by (simp only: slice_view_def Let_def view_strides slice_len_def new_row_major_def)

lemma slice_view_iff:
  "slice_view s szs = Inr t \<longleftrightarrow>
     prod_list szs = slice_len s \<and> offset s = 0 \<and> (\<forall>v < slice_len s. contains s v) \<and>
     t = new_row_major szs"
proof -
  have "(\<forall>c \<in> set (cart_collect (cart_new szs)). contains s (dot c (row_major_strides szs))) \<longleftrightarrow>
      (\<forall>v < prod_list szs. contains s v)"
    by (auto simp: cart_collect_new dot_row_major ordinal_unrank)
  then have "view_check s (row_major_strides szs) (cart_collect (cart_new szs)) = Inr () \<longleftrightarrow>
      (\<forall>v < prod_list szs. contains s v)"
    by (simp only: view_check_iff)
  moreover have "slice_view s szs = Inr t \<longleftrightarrow> prod_list szs = slice_len s \<and> offset s = 0 \<and>
      view_check s (row_major_strides szs) (cart_collect (cart_new szs)) = Inr () \<and>
      t = new_row_major szs"
    unfolding slice_view_eq by (auto split: if_splits)
  ultimately show ?thesis
    by (cases "prod_list szs = slice_len s") simp_all
qed

lemma slice_view_ranks:
  assumes "slice_inv s" "slice_view s szs = Inr t"
  shows "set (ranks t) = set (ranks s)"
proof -
  have t: "t = new_row_major szs" "prod_list szs = slice_len s"
    using assms(2) unfolding slice_view_iff by simp_all
  have sub: "{..<slice_len s} \<subseteq> set (ranks s)"
    using assms(2) unfolding slice_view_iff ranks_props(2) [OF assms(1)] by blast
  have "card (set (ranks s)) = slice_len s"
    using distinct_card [OF ranks_props(1) [OF assms(1)]] by simp
  then have "{..<slice_len s} = set (ranks s)"
    by (intro card_seteq [OF _ sub]) simp_all
  moreover have "set (ranks t) = {..<slice_len s}"
    using t by (simp add: ranks_new_row_major atLeast0LessThan)
  ultimately show ?thesis by simp
qed

section \<open>\<open>enforce_embedding\<close>\<close>

lemma collect_result_ok: "is_ok (collect_result f xs) \<longleftrightarrow> (\<forall>x \<in> set xs. is_ok (f x))"
  by (induction xs) (auto split: sum.splits)

lemma enforce_embedding_iff:
  "enforce_embedding s other = Inr t \<longleftrightarrow> t = s \<and> (\<forall>v \<in> set (ranks s). contains other v)"
proof -
  have "is_ok (collect_result (coordinates other) (ranks s)) \<longleftrightarrow>
      (\<forall>v \<in> set (ranks s). contains other v)"
    by (simp add: collect_result_ok contains_def)
  then show ?thesis
    by (auto simp: enforce_embedding_def slice_iter_eq is_ok_iff)
qed

section \<open>Ordinals relative to a parent\<close>

lemma relative_stride_ok:
  assumes "relative_stride s parent pc rm (i, extent) = Inr st" "extent \<noteq> 1" "0 < extent"
  shows "\<exists>step. strides s ! i = strides parent ! i * step \<and> st = rm ! i * step \<and>
    pc ! i + (extent - 1) * step < sizes parent ! i"
proof -
  from assms(1,2) obtain
    "strides parent ! i dvd strides s ! i" "strides parent ! i \<noteq> 0"
    "pc ! i + (extent - 1) * (strides s ! i div strides parent ! i) < sizes parent ! i"
    "st = rm ! i * (strides s ! i div strides parent ! i)"
    by (auto simp: relative_stride_def Let_def bind_eq_Some_conv split: if_splits)
  then show ?thesis
    by (intro exI [of _ "strides s ! i div strides parent ! i"]) simp
qed

lemma relative_ordinal_slice_parts:
  assumes "relative_ordinal_slice s parent = Inr t"
    and "length (sizes parent) = length (strides parent)"
  shows "\<exists>pc sts. num_dim parent = num_dim s \<and> coordinates parent (offset s) = Inr pc \<and>
    length sts = num_dim s \<and>
    (\<forall>i < num_dim s. relative_stride s parent pc (row_major_strides (sizes parent))
       (i, sizes s ! i) = Inr (sts ! i)) \<and>
    t = \<lparr>offset = ordinal (sizes parent) pc, sizes = sizes s, strides = sts\<rparr>"
  using assms slice_index_eq [OF assms(2)]
  by (fastforce simp: relative_ordinal_slice_def num_dim_def collect_result_Inr
      list_all2_conv_all_nth nth_enumerate_eq new_row_major_def dest: slice_new_shape
      split: if_splits)

lemma relative_ordinal_slice_ranks:
  assumes rel: "relative_ordinal_slice s parent = Inr t"
    and inv: "slice_inv s" "slice_inv parent" and k: "k < slice_len s"
  shows "ranks t ! k < slice_len parent \<and> ranks parent ! (ranks t ! k) = ranks s ! k"
proof -
  have lp: "length (sizes parent) = length (strides parent)"
    and ls: "length (sizes s) = length (strides s)"
    using inv by (simp_all add: slice_inv_def)
  let ?rm = "row_major_strides (sizes parent)" and ?c = "unrank (sizes s) k"
  obtain pc sts where n: "num_dim parent = num_dim s" and pc: "coordinates parent (offset s) = Inr pc"
    and sts: "length sts = num_dim s"
      "\<forall>i < num_dim s. relative_stride s parent pc ?rm (i, sizes s ! i) = Inr (sts ! i)"
    and t: "t = \<lparr>offset = ordinal (sizes parent) pc, sizes = sizes s, strides = sts\<rparr>"
    using relative_ordinal_slice_parts [OF rel lp] by blast
  have pcr: "in_range parent pc" "offset s = offset parent + dot pc (strides parent)"
    using coordinates_sound [OF pc lp] in_range_length [of parent pc]
    by (auto simp: location_def split: if_splits)
  have c: "in_range s ?c" using unrank_in_range_slice [OF k] .
  define d where "d = map (\<lambda>i. pc ! i + (if sizes s ! i = 1 then 0 else
      ?c ! i * (strides s ! i div strides parent ! i))) [0..<num_dim s]"
  have dims: "d ! i < sizes parent ! i \<and>
      d ! i * strides parent ! i = pc ! i * strides parent ! i + ?c ! i * strides s ! i \<and>
      d ! i * ?rm ! i = pc ! i * ?rm ! i + ?c ! i * sts ! i" if i: "i < num_dim s" for i
  proof (cases "sizes s ! i = 1")
    case True
    then have "?c ! i = 0"
      using in_range_nth [OF c, of i] i by (simp add: num_dim_def)
    with True i n in_range_nth [OF pcr(1), of i] show ?thesis by (simp add: num_dim_def d_def)
  next
    case False
    have "0 < sizes s ! i" "0 < strides parent ! i" "?c ! i < sizes s ! i"
      using slice_inv_pos(2) [OF inv(1)] slice_inv_pos(1) [OF inv(2)] in_range_nth [OF c, of i] i n
      by (auto simp: num_dim_def)
    moreover obtain step where st: "strides s ! i = strides parent ! i * step" "sts ! i = ?rm ! i * step"
      "pc ! i + (sizes s ! i - 1) * step < sizes parent ! i"
      using relative_stride_ok [OF sts(2) [rule_format, OF i] False] calculation(1) by blast
    moreover have "?c ! i * step \<le> (sizes s ! i - 1) * step"
      using calculation(3) by (intro mult_le_mono1) simp
    then have "pc ! i + ?c ! i * step < sizes parent ! i"
      using calculation(6) by linarith
    ultimately show ?thesis
      using False i by (simp add: algebra_simps d_def)
  qed
  have ld: "length d = length (sizes parent)" "length pc = length (sizes parent)"
    using n in_range_length [OF pcr(1)] by (simp_all add: num_dim_def d_def)
  have inr: "in_range parent d"
    using dims ld n by (intro in_rangeI) (simp_all add: num_dim_def)
  have "ranks s ! k = offset parent + dot d (strides parent)"
    using dims ld lp ls n k pcr(2)
    by (simp add: nth_ranks dot_nth num_dim_def sum.distrib)
  moreover have "ranks t ! k = ordinal (sizes parent) d"
    using dims ld n k sts(1) t
    by (simp add: nth_ranks dot_nth num_dim_def sum.distrib slice_len_def
        dot_row_major [symmetric])
  ultimately show ?thesis
    using inr unrank_ordinal [of d "sizes parent"]
    by (simp add: nth_ranks in_range_def slice_len_def)
qed

section \<open>Properties\<close>

text \<open>\<open>Slice::new\<close> accepts sizes and strides (all sizes positive) exactly when they form a
  valid layout: as many strides as sizes, positive strides, and of any two dimensions the
  stride of one divides the other's and leaves room for its extent. The result does not depend
  on the order in which the loop meets equal strides.\<close>

theorem slice_new_accepts:
  assumes "\<forall>n \<in> set szs. 0 < n"
  shows "slice_new off szs sts = Inr s \<longleftrightarrow>
    s = \<lparr>offset = off, sizes = szs, strides = sts\<rparr> \<and> slice_inv s"
  using slice_new_iff [OF assms] .

theorem slice_new_accepts_witness:
  "slice_inv \<lparr>offset = 3, sizes = [2, 3], strides = [6, 2]\<rparr> \<and>
   slice_new 0 [2, 2] [1, 1] = Inl NonuniqueStrides"
proof -
  have "slice_new 3 [2, 3] [6, 2] = Inr \<lparr>offset = 3, sizes = [2, 3], strides = [6, 2]\<rparr>" by code_simp
  moreover have "slice_new 0 [2, 2] [1, 1] = Inl NonuniqueStrides" by code_simp
  ultimately show ?thesis using slice_new_accepts [of "[2, 3]" 3 "[6, 2]"] by simp
qed



text \<open>Ordinals: on a valid slice \<open>get\<close> and \<open>index\<close> are inverse to each other, and
  \<open>get\<close> of an ordinal past the end is the error \<open>IndexOutOfRange\<close>.\<close>

theorem get_index_inverse:
  assumes "slice_inv s"
  shows "(slice_get s i = Inr v \<longleftrightarrow> slice_index s v = Inr i) \<and>
    (slice_len s \<le> i \<longrightarrow> slice_get s i = Inl (IndexOutOfRange i (slice_len s)))"
  using slice_space.get_iff_index [OF assms, of i v] assms
  by (auto simp: slice_get_eq slice_inv_def)

theorem get_index_inverse_witness:
  "slice_index (new_row_major [2, 3]) 5 = Inr 5 \<and>
   slice_get (new_row_major [2, 3]) 6 = Inl (IndexOutOfRange 6 6)"
proof -
  have inv: "slice_inv (new_row_major [2, 3])" by (rule new_row_major_inv) simp
  have "slice_get (new_row_major [2, 3]) 5 = Inr 5" "slice_len (new_row_major [2, 3]) = 6"
    by code_simp+
  with get_index_inverse [OF inv, of 5 5] get_index_inverse [OF inv, of 6 0] show ?thesis by simp
qed

text \<open>Iterating a valid slice yields each member exactly once, in ordinal order: no address
  twice, as many as \<open>len\<close>, exactly those that \<open>contains\<close> accepts, and the \<open>i\<close>-th
  is \<open>get(i)\<close>.\<close>

theorem iter_enumerates:
  assumes "slice_inv s"
  shows "\<exists>vs. slice_iter s = Inr vs \<and> distinct vs \<and> length vs = slice_len s \<and>
    (\<forall>v. contains s v \<longleftrightarrow> v \<in> set vs) \<and> (\<forall>i < slice_len s. slice_get s i = Inr (vs ! i))"
proof (intro exI conjI)
  show "slice_iter s = Inr (ranks s)" by (rule slice_iter_eq)
  show "distinct (ranks s)" "\<forall>v. contains s v \<longleftrightarrow> v \<in> set (ranks s)"
    using ranks_props [OF assms] by auto
  show "\<forall>i < slice_len s. slice_get s i = Inr (ranks s ! i)"
    using assms by (auto simp: slice_get_eq slice_inv_def)
qed simp

theorem iter_enumerates_witness:
  "\<exists>vs. slice_iter (new_row_major [2, 2]) = Inr vs \<and> distinct vs \<and> length vs = 4"
proof -
  have "slice_inv (new_row_major [2, 2])" by (rule new_row_major_inv) simp
  moreover have "slice_len (new_row_major [2, 2]) = 4" by code_simp
  ultimately show ?thesis using iter_enumerates [of "new_row_major [2, 2]"] by auto
qed

text \<open>\<open>get\<close> on a slice with an empty dimension panics for every ordinal (remainder by
  zero), although the documentation promises an error for ordinals past the end.\<close>

theorem get_panics_on_empty_dimension:
  assumes "length (sizes s) = length (strides s)" "0 \<in> set (sizes s)"
  shows "slice_get s i = Inl Panic"
  using assms by (simp add: slice_get_eq)

theorem get_panics_on_empty_dimension_witness:
  "slice_new 0 [2, 0] [2, 1] = Inr \<lparr>offset = 0, sizes = [2, 0], strides = [2, 1]\<rparr> \<and>
   slice_get \<lparr>offset = 0, sizes = [2, 0], strides = [2, 1]\<rparr> 0 = Inl Panic"
proof -
  have "slice_new 0 [2, 0] [2, 1] = Inr \<lparr>offset = 0, sizes = [2, 0], strides = [2, 1]\<rparr>" by code_simp
  then show ?thesis
    using get_panics_on_empty_dimension [of "\<lparr>offset = 0, sizes = [2, 0], strides = [2, 1]\<rparr>" 0] by simp
qed

text \<open>\<open>select\<close> of a range inside the dimension keeps the slice valid and selects
  exactly the members whose coordinate in that dimension is in the range and on a step.\<close>

theorem select_members:
  assumes "slice_select s dim lo hi step = Inr t" "slice_inv s" "hi \<le> sizes s ! dim"
  shows "slice_inv t \<and> (\<exists>vs. slice_iter t = Inr vs \<and>
    set vs = {offset s + dot c (strides s) | c. in_range s c \<and> lo \<le> c ! dim \<and> c ! dim < hi \<and>
      step dvd c ! dim - lo})"
  using slice_select_inv [OF assms(1,2)] select_ranks [OF assms]
  by (simp add: slice_iter_eq selected_def)

theorem select_members_witness:
  "slice_inv \<lparr>offset = 1, sizes = [2, 2], strides = [4, 2]\<rparr>"
proof -
  have "slice_inv (new_row_major [2, 4])" by (rule new_row_major_inv) simp
  moreover have "slice_select (new_row_major [2, 4]) 1 1 4 2 =
      Inr \<lparr>offset = 1, sizes = [2, 2], strides = [4, 2]\<rparr>" "sizes (new_row_major [2, 4]) ! 1 = 4"
    by code_simp+
  ultimately show ?thesis using select_members [of "new_row_major [2, 4]" 1 1 4 2] by auto
qed

text \<open>\<open>at\<close> fixes one coordinate: it succeeds exactly for an index within the
  dimension, the result is a valid slice of one dimension less, and its members are exactly
  those with that coordinate.\<close>

theorem at_members:
  assumes "slice_inv s"
  shows "(is_ok (slice_at s dim i) \<longleftrightarrow> dim < length (sizes s) \<and> i < sizes s ! dim) \<and>
    (\<forall>t. slice_at s dim i = Inr t \<longrightarrow> slice_inv t \<and> Suc (num_dim t) = num_dim s \<and>
      (\<exists>vs. slice_iter t = Inr vs \<and>
        set vs = {offset s + dot c (strides s) | c. in_range s c \<and> c ! dim = i}))"
proof (intro conjI allI impI)
  have iff: "is_ok (slice_at s dim i) \<Longrightarrow> dim < length (sizes s) \<and> i < sizes s ! dim"
    by (auto simp: slice_at_def split: if_splits)
  then show "is_ok (slice_at s dim i) \<longleftrightarrow> dim < length (sizes s) \<and> i < sizes s ! dim"
    using slice_at_ok [OF assms, of dim i] by auto
  fix t assume t: "slice_at s dim i = Inr t"
  with iff have "dim < length (sizes s)" "i < sizes s ! dim" by auto
  with slice_at_ok [OF assms, of dim i] t
  show "slice_inv t" "Suc (num_dim t) = num_dim s" by (auto simp: num_dim_def)
  show "\<exists>vs. slice_iter t = Inr vs \<and>
      set vs = {offset s + dot c (strides s) | c. in_range s c \<and> c ! dim = i}"
    using slice_at_ranks [OF assms t] by (simp add: slice_iter_eq)
qed

theorem at_members_witness:
  "slice_inv \<lparr>offset = 3, sizes = [2], strides = [6]\<rparr>"
proof -
  have "slice_inv (new_row_major [2, 6])" by (rule new_row_major_inv) simp
  moreover have "slice_at (new_row_major [2, 6]) 1 3 = Inr \<lparr>offset = 3, sizes = [2], strides = [6]\<rparr>"
    by code_simp
  ultimately show ?thesis using at_members [of "new_row_major [2, 6]" 1 3] by auto
qed

text \<open>\<open>view\<close> succeeds exactly when the element counts agree, the slice starts at 0 and
  every offset of the new row-major layout is an address of the slice; the view then has the
  same members as a valid slice it views.\<close>

theorem view_members:
  assumes "slice_inv s"
  shows "(slice_view s szs = Inr t \<longleftrightarrow> prod_list szs = slice_len s \<and> offset s = 0 \<and>
      (\<forall>v < slice_len s. contains s v) \<and> t = new_row_major szs) \<and>
    (slice_view s szs = Inr t \<longrightarrow>
      (\<exists>vs ws. slice_iter s = Inr vs \<and> slice_iter t = Inr ws \<and> set ws = set vs))"
  using slice_view_iff [of s szs t] slice_view_ranks [OF assms, of szs t]
  by (simp add: slice_iter_eq)

theorem view_members_witness:
  "\<exists>vs ws. slice_iter (new_row_major [2, 3]) = Inr vs \<and> slice_iter (new_row_major [6]) = Inr ws \<and>
     set ws = set vs"
proof -
  have "slice_inv (new_row_major [2, 3])" by (rule new_row_major_inv) simp
  moreover have "slice_view (new_row_major [2, 3]) [6] = Inr (new_row_major [6])" by code_simp
  ultimately show ?thesis using view_members [of "new_row_major [2, 3]"] by blast
qed

text \<open>\<open>relative_ordinal_slice\<close>: the addresses of the result are ordinals of the parent,
  and looking them up in the parent gives back the members of the slice, position by
  position.\<close>

theorem relative_ordinals:
  assumes "relative_ordinal_slice s parent = Inr t" "slice_inv s" "slice_inv parent" "k < slice_len s"
  shows "\<exists>vs ws. slice_iter s = Inr vs \<and> slice_iter t = Inr ws \<and>
    slice_get parent (ws ! k) = Inr (vs ! k)"
  using relative_ordinal_slice_ranks [OF assms] assms(3)
  by (auto simp: slice_iter_eq slice_get_eq slice_inv_def)

theorem relative_ordinals_witness:
  "\<exists>vs ws. slice_iter \<lparr>offset = 2, sizes = [2, 1], strides = [4, 2]\<rparr> = Inr vs \<and>
     slice_iter \<lparr>offset = 1, sizes = [2, 1], strides = [2, 1]\<rparr> = Inr ws \<and>
     slice_get \<lparr>offset = 0, sizes = [2, 2], strides = [4, 2]\<rparr> (ws ! 1) = Inr (vs ! 1)"
proof -
  let ?s = "\<lparr>offset = 2, sizes = [2, 1], strides = [4, 2]\<rparr>"
  let ?p = "\<lparr>offset = 0, sizes = [2, 2], strides = [4, 2]\<rparr>"
  have "slice_inv ?s" "slice_inv ?p"
    by (simp_all add: slice_inv_def layout_def compat_def fits_def)
  moreover have "coordinates ?p 2 = Inr [0, 1]" "slice_index ?p 2 = Inr 1"
    "row_major_strides [2, 2] = [2, 1]" "enumerate 0 [2, 1 :: nat] = [(0, 2), (1, 1)]"
    "slice_new 1 [2, 1] [2, 1] = Inr \<lparr>offset = 1, sizes = [2, 1], strides = [2, 1]\<rparr>"
    by code_simp+
  then have "relative_ordinal_slice ?s ?p = Inr \<lparr>offset = 1, sizes = [2, 1], strides = [2, 1]\<rparr>"
    by (simp add: relative_ordinal_slice_def relative_stride_def num_dim_def new_row_major_def
        checked_sub_def checked_mul_def checked_add_def usize_bound_def Let_def)
  moreover have "1 < slice_len ?s" by (simp add: slice_len_def)
  ultimately show ?thesis using relative_ordinals by blast
qed

end
