(* ===== verification/Tile.thy ===== *)
theory Tile
  imports Slice_Views
begin

text \<open>
  Model of \<open>hyperactor_cast/src/tile.rs\<close>: the tiling geometry of cast routing. A tile is
  a slice; a tiling policy decomposes it into structural children (\<open>child_nodes\<close>),
  and the communication children (\<open>children\<close>) are obtained by contracting anchors.
  The trait \<open>Tiling\<close> with its three implementations becomes one function on the
  selector \<open>TilingPolicy\<close>. \<open>None\<close> is the panic of an \<open>expect\<close>.
\<close>

section \<open>Data\<close>

datatype tile = Tile (tile_space: slice)

record split =
  split_dim :: nat
  split_index :: nat

datatype tile_relation = Anchor split | Sibling split

record tile_node =
  node_tile :: tile
  node_relation :: tile_relation

datatype tiling_policy = BlockPartitioning | BoundedFanout nat | Bisection

definition tile_ranks :: "tile \<Rightarrow> (slice_error, nat list) result" where
  "tile_ranks t = slice_iter (tile_space t)"

definition rank_count :: "tile \<Rightarrow> nat" where
  "rank_count t = slice_len (tile_space t)"

definition root_rank :: "tile \<Rightarrow> nat" where
  "root_rank t = offset (tile_space t)"

definition is_sibling :: "tile_node \<Rightarrow> bool" where
  "is_sibling n = (case node_relation n of Anchor _ \<Rightarrow> False | Sibling _ \<Rightarrow> True)"

section \<open>Helpers\<close>

text \<open>\<open>space.select(dim, lo, hi, 1).expect(..)\<close>\<close>

definition select_tile :: "slice \<Rightarrow> nat \<Rightarrow> nat \<Rightarrow> nat \<Rightarrow> tile option" where
  "select_tile s dim lo hi = (case slice_select s dim lo hi 1 of Inl _ \<Rightarrow> None | Inr t \<Rightarrow> Some (Tile t))"

definition dimension_extents :: "slice \<Rightarrow> (nat \<times> nat) list" where
  "dimension_extents s = enumerate 0 (sizes s)"

definition first_non_singleton_dim :: "slice \<Rightarrow> nat option" where
  "first_non_singleton_dim s =
     map_option fst (find (\<lambda>(dim, extent). 1 < extent) (dimension_extents s))"

definition active_dimensions :: "slice \<Rightarrow> (nat \<times> nat) list" where
  "active_dimensions s = filter (\<lambda>(dim, extent). 1 < extent) (dimension_extents s)"

definition minimum_fanout :: "tile \<Rightarrow> nat" where
  "minimum_fanout t = length (active_dimensions (tile_space t))"

definition effective_fanout :: "tile \<Rightarrow> nat \<Rightarrow> nat" where
  "effective_fanout t requested = max requested (minimum_fanout t)"

text \<open>
  The loop over the active dimensions: one group each, then the surplus left to right. Extents
  of active dimensions exceed 1, so \<open>dim_extent - 1 - 1\<close> is the exact difference.
\<close>

fun allocate_loop :: "nat \<Rightarrow> (nat \<times> nat) list \<Rightarrow> nat list" where
  "allocate_loop remaining [] = []"
| "allocate_loop remaining ((dim, dim_extent) # ds) =
     (let additional = min remaining (dim_extent - 1 - 1)
      in (1 + additional) # allocate_loop (remaining - additional) ds)"

definition allocate_groups_per_slab :: "nat \<Rightarrow> (nat \<times> nat) list \<Rightarrow> nat list" where
  "allocate_groups_per_slab available active_dims =
     allocate_loop (available - length active_dims) active_dims"

fun interval_loop :: "nat \<Rightarrow> nat \<Rightarrow> nat list \<Rightarrow> nat \<Rightarrow> (nat \<times> nat) list" where
  "interval_loop base extra [] start = []"
| "interval_loop base extra (i # is) start =
     (let stop = start + (base + (if i < extra then 1 else 0))
      in (start, stop) # interval_loop base extra is stop)"

definition bounded_intervals :: "nat \<Rightarrow> nat \<Rightarrow> (nat \<times> nat) list" where
  "bounded_intervals group_count extent =
     (if group_count = 0 \<or> extent \<le> 1 then []
      else let remaining = extent - 1;
               groups = min group_count remaining
           in interval_loop (remaining div groups) (remaining mod groups) [0..<groups] 1)"

fun fix_dims :: "slice \<Rightarrow> (nat \<times> nat) list \<Rightarrow> slice option" where
  "fix_dims s [] = Some s"
| "fix_dims s ((dim, extent) # ds) =
     (case slice_select s dim 0 1 1 of Inl _ \<Rightarrow> None | Inr t \<Rightarrow> fix_dims t ds)"

definition anchor_prefix :: "tile \<Rightarrow> (nat \<times> nat) list \<Rightarrow> nat \<Rightarrow> tile option" where
  "anchor_prefix base active_dims dim =
     map_option Tile (fix_dims (tile_space base) (takeWhile (\<lambda>(d, _). d \<noteq> dim) active_dims))"

definition frontier_tile :: "tile \<Rightarrow> (nat \<times> nat) list \<Rightarrow> nat \<Rightarrow> nat \<Rightarrow> nat \<Rightarrow> tile option" where
  "frontier_tile base active_dims slab_dim group_begin group_end =
     (case anchor_prefix base active_dims slab_dim of
        None \<Rightarrow> None
      | Some anchored \<Rightarrow> select_tile (tile_space anchored) slab_dim group_begin group_end)"

definition root_point_tile :: "tile \<Rightarrow> (nat \<times> nat) list \<Rightarrow> tile option" where
  "root_point_tile base active_dims = map_option Tile (fix_dims (tile_space base) active_dims)"

section \<open>Structural children\<close>

definition mk_node :: "tile_relation \<Rightarrow> tile \<Rightarrow> tile_node" where
  "mk_node r t = \<lparr>node_tile = t, node_relation = r\<rparr>"

definition block_child_nodes :: "tile \<Rightarrow> tile_node list option" where
  "block_child_nodes t =
     (let s = tile_space t in
      case first_non_singleton_dim s of
        None \<Rightarrow> Some []
      | Some dim \<Rightarrow>
          (let n = sizes s ! dim;
               siblings = map (\<lambda>index. map_option
                   (mk_node (Sibling \<lparr>split_dim = dim, split_index = index\<rparr>))
                   (select_tile s dim index (index + 1))) [1..<n];
               anchor = map_option (mk_node (Anchor \<lparr>split_dim = dim, split_index = 0\<rparr>))
                   (select_tile s dim 0 1)
           in those (siblings @ [anchor])))"

definition bounded_siblings :: "tile \<Rightarrow> (nat \<times> nat) list \<Rightarrow> nat list \<Rightarrow> tile_node option list" where
  "bounded_siblings t active_dims groups_per_slab =
     concat (map (\<lambda>((slab_dim, dim_extent), group_count).
       map (\<lambda>(group_begin, group_end). map_option
           (mk_node (Sibling \<lparr>split_dim = slab_dim, split_index = group_begin\<rparr>))
           (frontier_tile t active_dims slab_dim group_begin group_end))
         (bounded_intervals group_count dim_extent))
       (zip active_dims groups_per_slab))"

definition bounded_child_nodes :: "nat \<Rightarrow> tile \<Rightarrow> tile_node list option" where
  "bounded_child_nodes fanout t =
     (let active_dims = active_dimensions (tile_space t) in
      if active_dims = [] then Some []
      else let groups = allocate_groups_per_slab (effective_fanout t fanout) active_dims;
               anchor = map_option
                 (mk_node (Anchor \<lparr>split_dim = fst (last active_dims), split_index = 0\<rparr>))
                 (root_point_tile t active_dims)
           in those (bounded_siblings t active_dims groups @ [anchor]))"

definition bisection_child_nodes :: "tile \<Rightarrow> tile_node list option" where
  "bisection_child_nodes t =
     (let s = tile_space t in
      case first_non_singleton_dim s of
        None \<Rightarrow> Some []
      | Some dim \<Rightarrow>
          (let n = sizes s ! dim; lower = n div 2 in
           those
             [map_option (mk_node (Sibling \<lparr>split_dim = dim, split_index = lower\<rparr>))
                (select_tile s dim lower n),
              map_option (mk_node (Anchor \<lparr>split_dim = dim, split_index = 0\<rparr>))
                (select_tile s dim 0 lower)]))"

definition child_nodes :: "tiling_policy \<Rightarrow> tile \<Rightarrow> tile_node list option" where
  "child_nodes p t =
     (case p of
        BlockPartitioning \<Rightarrow> block_child_nodes t
      | BoundedFanout fanout \<Rightarrow> bounded_child_nodes fanout t
      | Bisection \<Rightarrow> bisection_child_nodes t)"

section \<open>Communication children\<close>

text \<open>
  Anchors shrink the sum of the extents, for every slice and not only for valid ones, so the
  default method \<open>Tiling::children\<close> terminates.
\<close>

lemma those_Some_iff: "those xs = Some ys \<longleftrightarrow> map Some ys = xs"
proof (induction xs arbitrary: ys)
  case (Cons x xs)
  then show ?case by (cases ys) (auto split: option.splits)
qed auto

lemma slice_select_anchor_sizes:
  "slice_select s dim 0 hi 1 = Inr t \<Longrightarrow>
     sizes t = (sizes s)[dim := hi] \<and> dim < length (sizes s) \<and> 0 < sizes s ! dim"
  using slice_select_cases [of s dim 0 hi 1 t] by auto

lemma sum_list_update_less:
  "i < length xs \<Longrightarrow> (a :: nat) < xs ! i \<Longrightarrow> sum_list (xs[i := a]) < sum_list xs"
  by (induction xs arbitrary: i) (auto simp: nth_Cons split: nat.splits)

lemma sum_list_update_le:
  "(a :: nat) \<le> xs ! i \<or> length xs \<le> i \<Longrightarrow> sum_list (xs[i := a]) \<le> sum_list xs"
  by (induction xs arbitrary: i) (auto simp: nth_Cons split: nat.splits)

lemma first_non_singleton_dim_Some:
  "first_non_singleton_dim s = Some dim \<Longrightarrow> dim < length (sizes s) \<and> 1 < sizes s ! dim"
  by (auto simp: first_non_singleton_dim_def dimension_extents_def find_Some_iff nth_enumerate_eq)

lemma in_active_dimensions:
  "(d, n) \<in> set (active_dimensions s) \<longleftrightarrow> d < length (sizes s) \<and> n = sizes s ! d \<and> 1 < n"
  by (auto simp: active_dimensions_def dimension_extents_def in_set_enumerate_eq)

lemma fix_dims_le:
  "fix_dims s ds = Some t \<Longrightarrow> sum_list (sizes t) \<le> sum_list (sizes s)"
proof (induction s ds rule: fix_dims.induct)
  case (2 s dim extent ds)
  then obtain u where u: "slice_select s dim 0 1 1 = Inr u" "fix_dims u ds = Some t"
    by (auto split: sum.splits)
  then have "sizes u = (sizes s)[dim := 1]" "1 \<le> sizes s ! dim"
    using slice_select_anchor_sizes [of s dim 1 u] by auto
  with "2.IH" [OF u] show ?case
    using sum_list_update_le [of 1 "sizes s" dim] by simp
qed auto

lemma fix_dims_less:
  assumes "fix_dims s ((dim, extent) # ds) = Some t" "1 < sizes s ! dim"
  shows "sum_list (sizes t) < sum_list (sizes s)"
proof -
  from assms(1) obtain u where u: "slice_select s dim 0 1 1 = Inr u" "fix_dims u ds = Some t"
    by (auto split: sum.splits)
  then have "sum_list (sizes u) < sum_list (sizes s)"
    using slice_select_anchor_sizes [of s dim 1 u] sum_list_update_less [of dim "sizes s" 1] assms(2)
    by simp
  with fix_dims_le [OF u(2)] show ?thesis by simp
qed

lemma select_tile_less:
  assumes "select_tile s dim 0 hi = Some t" "hi < sizes s ! dim"
  shows "sum_list (sizes (tile_space t)) < sum_list (sizes s)"
  using assms slice_select_anchor_sizes [of s dim hi] sum_list_update_less [of dim "sizes s" hi]
  by (auto simp: select_tile_def split: sum.splits)

lemma those_mem: "those xs = Some ys \<Longrightarrow> y \<in> set ys \<longleftrightarrow> Some y \<in> set xs"
  by (auto simp: those_Some_iff)

lemma Some_eq_mk_node [simp]:
  "Some node = map_option (mk_node r) x \<longleftrightarrow> x = Some (node_tile node) \<and> node_relation node = r"
  by (cases x) (auto simp: mk_node_def)

lemma node_sel_mk_node [simp]: "node_tile (mk_node r t) = t" "node_relation (mk_node r t) = r"
  by (simp_all add: mk_node_def)

lemma anchor_block:
  assumes "block_child_nodes t = Some nodes" "node \<in> set nodes" "node_relation node = Anchor sp"
  obtains dim where "first_non_singleton_dim (tile_space t) = Some dim"
    "select_tile (tile_space t) dim 0 1 = Some (node_tile node)"
  using assms
  by (auto simp: block_child_nodes_def Let_def those_mem split: option.splits)

lemma anchor_bisection:
  assumes "bisection_child_nodes t = Some nodes" "node \<in> set nodes" "node_relation node = Anchor sp"
  obtains dim where "first_non_singleton_dim (tile_space t) = Some dim"
    "select_tile (tile_space t) dim 0 (sizes (tile_space t) ! dim div 2) = Some (node_tile node)"
  using assms
  by (auto simp: bisection_child_nodes_def Let_def those_Some_iff split: option.splits)

lemma anchor_bounded:
  assumes "bounded_child_nodes f t = Some nodes" "node \<in> set nodes" "node_relation node = Anchor sp"
  obtains dim extent ds where "active_dimensions (tile_space t) = (dim, extent) # ds"
    "fix_dims (tile_space t) ((dim, extent) # ds) = Some (tile_space (node_tile node))"
proof -
  obtain dim extent ds where a: "active_dimensions (tile_space t) = (dim, extent) # ds"
    using assms by (cases "active_dimensions (tile_space t)") (auto simp: bounded_child_nodes_def)
  with assms have "Some node \<in> set (bounded_siblings t ((dim, extent) # ds)
      (allocate_groups_per_slab (effective_fanout t f) ((dim, extent) # ds))) \<or>
      root_point_tile t ((dim, extent) # ds) = Some (node_tile node)"
    by (auto simp: bounded_child_nodes_def Let_def those_mem)
  then have "root_point_tile t ((dim, extent) # ds) = Some (node_tile node)"
    using assms(3) by (auto simp: bounded_siblings_def)
  with a show thesis
    by (intro that [of dim extent ds]) (auto simp: root_point_tile_def simp del: fix_dims.simps
        dest: arg_cong [where f = tile_space])
qed

lemma anchor_child_less:
  assumes "child_nodes p t = Some nodes" "node \<in> set nodes" "node_relation node = Anchor sp"
  shows "sum_list (sizes (tile_space (node_tile node))) < sum_list (sizes (tile_space t))"
proof (cases p)
  case BlockPartitioning
  with assms obtain dim where "first_non_singleton_dim (tile_space t) = Some dim"
    "select_tile (tile_space t) dim 0 1 = Some (node_tile node)"
    by (auto simp: child_nodes_def elim: anchor_block)
  then show ?thesis
    using first_non_singleton_dim_Some select_tile_less by metis
next
  case (BoundedFanout f)
  with assms obtain dim extent ds where "active_dimensions (tile_space t) = (dim, extent) # ds"
    "fix_dims (tile_space t) ((dim, extent) # ds) = Some (tile_space (node_tile node))"
    by (auto simp: child_nodes_def elim: anchor_bounded)
  then show ?thesis
    using fix_dims_less in_active_dimensions [of dim extent "tile_space t"] by auto
next
  case Bisection
  with assms obtain dim where d: "first_non_singleton_dim (tile_space t) = Some dim"
    "select_tile (tile_space t) dim 0 (sizes (tile_space t) ! dim div 2) = Some (node_tile node)"
    by (auto simp: child_nodes_def elim: anchor_bisection)
  have "1 < sizes (tile_space t) ! dim"
    using first_non_singleton_dim_Some [OF d(1)] by simp
  then show ?thesis
    by (intro select_tile_less [OF d(2)]) simp
qed

function children :: "tiling_policy \<Rightarrow> tile \<Rightarrow> tile list option" where
  "children p t =
     (case child_nodes p t of
        None \<Rightarrow> None
      | Some nodes \<Rightarrow>
          map_option concat (those (map (\<lambda>node.
            case node_relation node of
              Sibling _ \<Rightarrow> Some [node_tile node]
            | Anchor _ \<Rightarrow> children p (node_tile node)) nodes)))"
  by pat_completeness auto
termination
  by (relation "measure (\<lambda>(p, t). sum_list (sizes (tile_space t)))")
     (auto dest: anchor_child_less)

declare children.simps [simp del]

end
