(* ===== verification/Tile_Props.thy ===== *)
theory Tile_Props
  imports Tile
begin

text \<open>
  Correctness of cast tiling: on a valid tile no \<open>expect\<close> panics, the structural children
  partition the ranks of the parent, the communication children partition the ranks other
  than the root, and \<open>BoundedFanout\<close> honours its cap.
\<close>

section \<open>Counting with predicates\<close>

lemma count_sum_filter_mset:
  "count (\<Sum>P\<leftarrow>Ps. filter_mset P M) x = count M x * length (filter (\<lambda>P. P x) Ps)"
  by (induction Ps) auto

lemma sum_filter_mset_partition:
  assumes "\<And>x. x \<in># M \<Longrightarrow> length (filter (\<lambda>P. P x) Ps) = 1"
  shows "(\<Sum>P\<leftarrow>Ps. filter_mset P M) = M"
proof (rule multiset_eqI)
  fix x
  show "count (\<Sum>P\<leftarrow>Ps. filter_mset P M) x = count M x"
    using assms [of x] by (cases "x \<in># M") (simp_all add: count_sum_filter_mset not_in_iff)
qed

lemma length_filter_distinct:
  "distinct xs \<Longrightarrow> length (filter (\<lambda>x. a = x) xs) = (if a \<in> set xs then 1 else 0)"
  by (induction xs) auto

section \<open>Sub-slices as predicates on coordinates\<close>

definition addr :: "slice \<Rightarrow> nat list \<Rightarrow> nat" where
  "addr s c = offset s + dot c (strides s)"

definition coords :: "slice \<Rightarrow> nat list list" where
  "coords s = map (unrank (sizes s)) [0..<slice_len s]"

lemma set_coords: "set (coords s) = {c. in_range s c}"
proof (intro set_eqI iffI)
  fix c assume "c \<in> {c. in_range s c}"
  then have "unrank (sizes s) (ordinal (sizes s) c) = c" "ordinal (sizes s) c < slice_len s"
    using unrank_ordinal [of c "sizes s"] by (auto simp: in_range_def slice_len_def)
  then show "c \<in> set (coords s)"
    by (metis atLeast0LessThan coords_def image_eqI lessThan_iff list.set_map set_upt)
qed (auto simp: coords_def unrank_in_range_slice)

lemma distinct_coords: "distinct (coords s)"
  by (auto simp: coords_def distinct_map slice_len_def intro!: inj_on_inverseI [where g = "ordinal (sizes s)"]
      ordinal_unrank)

lemma ranks_coords: "ranks s = map (addr s) (coords s)"
  by (simp add: ranks_def coords_def addr_def)

lemma inj_addr: "slice_inv s \<Longrightarrow> inj_on (addr s) {c. in_range s c}"
  by (rule inj_onI) (metis addr_def coordinates_complete mem_Collect_eq sum.inject(2))

definition covers :: "slice \<Rightarrow> slice \<Rightarrow> (nat list \<Rightarrow> bool) \<Rightarrow> bool" where
  "covers s t P \<longleftrightarrow> slice_inv t \<and> set (ranks t) = addr s ` {c. in_range s c \<and> P c}"

lemma covers_mset:
  assumes "slice_inv s" "covers s t P"
  shows "mset (ranks t) = image_mset (addr s) (filter_mset P (mset (coords s)))"
proof -
  have "distinct (map (addr s) (filter P (coords s)))"
    using inj_on_subset [OF inj_addr [OF assms(1)], of "set (filter P (coords s))"]
    by (auto simp: distinct_map distinct_coords set_coords)
  moreover have "distinct (ranks t)"
    using assms(2) ranks_props(1) by (simp add: covers_def)
  moreover have "set (ranks t) = set (map (addr s) (filter P (coords s)))"
    using assms(2) by (auto simp: covers_def set_coords)
  ultimately show ?thesis
    by (metis mset_filter mset_map set_eq_iff_mset_eq_distinct)
qed

lemma partition_mset:
  assumes "slice_inv s" "list_all2 (covers s) ts Ps"
    "\<And>c. in_range s c \<Longrightarrow> length (filter (\<lambda>P. P c) Ps) = 1"
  shows "mset (concat (map ranks ts)) = mset (ranks s)"
proof -
  have "mset (concat (map ranks ts)) =
      (\<Sum>P\<leftarrow>Ps. image_mset (addr s) (filter_mset P (mset (coords s))))"
    using assms(2) by (induction rule: list_all2_induct) (auto simp: covers_mset [OF assms(1)])
  also have "\<dots> = image_mset (addr s) (\<Sum>P\<leftarrow>Ps. filter_mset P (mset (coords s)))"
    by (induction Ps) auto
  also have "(\<Sum>P\<leftarrow>Ps. filter_mset P (mset (coords s))) = mset (coords s)"
    using assms(3) by (intro sum_filter_mset_partition) (simp add: set_coords)
  finally show ?thesis
    by (simp add: ranks_coords [of s])
qed

text \<open>A narrowing keeps offset and strides and cuts the coordinate range.\<close>

definition narrows :: "slice \<Rightarrow> slice \<Rightarrow> (nat list \<Rightarrow> bool) \<Rightarrow> bool" where
  "narrows s t P \<longleftrightarrow> slice_inv t \<and> offset t = offset s \<and> strides t = strides s \<and>
     (\<forall>c. in_range t c \<longleftrightarrow> in_range s c \<and> P c)"

lemma narrows_covers:
  assumes "narrows s t P" "covers t u Q"
  shows "covers s u (\<lambda>c. P c \<and> Q c)"
proof -
  have "addr t = addr s" using assms(1) by (simp add: narrows_def addr_def fun_eq_iff)
  with assms show ?thesis by (simp add: narrows_def covers_def conj_assoc)
qed

lemma narrows_trans:
  "narrows s t P \<Longrightarrow> narrows t u Q \<Longrightarrow> narrows s u (\<lambda>c. P c \<and> Q c)"
  by (auto simp: narrows_def)

lemma narrows_imp_covers:
  assumes "narrows s t P"
  shows "covers s t P"
proof -
  have "addr t = addr s" using assms by (simp add: narrows_def addr_def fun_eq_iff)
  moreover have "length (sizes t) = length (strides t)"
    using assms by (simp add: narrows_def slice_inv_def)
  ultimately show ?thesis
    using assms by (auto simp: narrows_def covers_def set_ranks_eq addr_def fun_eq_iff)
qed

lemma select_covers:
  assumes "slice_inv s" "dim < length (sizes s)" "lo < hi" "hi \<le> sizes s ! dim"
  shows "\<exists>t. slice_select s dim lo hi 1 = Inr t \<and>
    covers s t (\<lambda>c. lo \<le> c ! dim \<and> c ! dim < hi)"
proof -
  obtain t where t: "slice_select s dim lo hi 1 = Inr t"
    using slice_select_unit [OF assms] by blast
  have "set (ranks t) = addr s ` {c. in_range s c \<and> lo \<le> c ! dim \<and> c ! dim < hi}"
    using select_ranks [OF t assms(1,4)] by (auto simp: selected_def addr_def)
  with t slice_select_inv [OF t assms(1)] show ?thesis
    by (auto simp: covers_def)
qed

lemma select_narrows:
  assumes "slice_inv s" "dim < length (sizes s)" "0 < hi" "hi \<le> sizes s ! dim"
  shows "\<exists>t. slice_select s dim 0 hi 1 = Inr t \<and> sizes t = (sizes s)[dim := hi] \<and>
    narrows s t (\<lambda>c. c ! dim < hi)"
proof -
  let ?t = "\<lparr>offset = offset s, sizes = (sizes s)[dim := hi], strides = strides s\<rparr>"
  have t: "slice_select s dim 0 hi 1 = Inr ?t"
    using slice_select_unit [OF assms(1,2,3,4)] by simp
  have "in_range ?t c \<longleftrightarrow> in_range s c \<and> c ! dim < hi" for c
  proof
    assume c: "in_range ?t c"
    have "c ! dim < hi"
      using in_range_nth [OF c, of dim] assms(2) by simp
    moreover have "c ! i < sizes s ! i" if "i < length (sizes s)" for i
      using in_range_nth [OF c, of i] that calculation assms(4) by (cases "i = dim") simp_all
    ultimately show "in_range s c \<and> c ! dim < hi"
      using in_range_length [OF c] by (auto intro!: in_rangeI)
  next
    assume c: "in_range s c \<and> c ! dim < hi"
    then have "c ! i < sizes ?t ! i" if "i < length (sizes s)" for i
      using that in_range_nth [of s c i] by (cases "i = dim") simp_all
    with c show "in_range ?t c"
      by (auto intro!: in_rangeI simp: in_range_length)
  qed
  with t slice_select_inv [OF t assms(1)] show ?thesis
    by (intro exI [of _ ?t]) (simp add: narrows_def)
qed

section \<open>Fixing dimensions to index zero\<close>

lemma fix_dims_narrows:
  assumes "slice_inv s" "\<forall>d \<in> fst ` set ds. d < length (sizes s)"
  shows "\<exists>t. fix_dims s ds = Some t \<and> length (sizes t) = length (sizes s) \<and>
    (\<forall>d. sizes t ! d = (if d \<in> fst ` set ds then 1 else sizes s ! d)) \<and>
    narrows s t (\<lambda>c. \<forall>d \<in> fst ` set ds. c ! d = 0)"
  using assms
proof (induction ds arbitrary: s)
  case Nil
  then show ?case by (simp add: narrows_def)
next
  case (Cons e ds)
  obtain d n where e: "e = (d, n)" by (cases e)
  have d: "d < length (sizes s)" "1 \<le> sizes s ! d"
    using Cons.prems slice_inv_pos(2) [of s d] by (auto simp: e)
  obtain u where u: "slice_select s d 0 1 1 = Inr u" "sizes u = (sizes s)[d := 1]"
    "narrows s u (\<lambda>c. c ! d < 1)"
    using select_narrows [OF Cons.prems(1) d(1) _ d(2)] by auto
  have "slice_inv u" "\<forall>d \<in> fst ` set ds. d < length (sizes u)"
    using u Cons.prems(2) by (auto simp: narrows_def)
  then obtain t where t: "fix_dims u ds = Some t" "length (sizes t) = length (sizes u)"
    "\<forall>d. sizes t ! d = (if d \<in> fst ` set ds then 1 else sizes u ! d)"
    "narrows u t (\<lambda>c. \<forall>d \<in> fst ` set ds. c ! d = 0)"
    using Cons.IH by blast
  have "narrows s t (\<lambda>c. \<forall>d \<in> fst ` set (e # ds). c ! d = 0)"
    using narrows_trans [OF u(3) t(4)] by (simp add: e)
  with t u d show ?case
    by (auto simp: e nth_list_update)
qed

section \<open>Intervals and group allocation\<close>

definition group_len :: "nat \<Rightarrow> nat \<Rightarrow> nat \<Rightarrow> nat" where
  "group_len base extra i = base + (if i < extra then 1 else 0)"

lemma interval_loop_mem:
  assumes "(b, e) \<in> set (interval_loop base extra is start)" "0 < base"
  shows "start \<le> b \<and> b < e \<and> e \<le> start + (\<Sum>i\<leftarrow>is. group_len base extra i)"
  using assms
  by (induction base extra "is" start rule: interval_loop.induct)
     (fastforce simp: Let_def group_len_def)+

lemma interval_loop_count:
  "length (filter (\<lambda>(b, e). b \<le> x \<and> x < e) (interval_loop base extra is start)) =
     (if start \<le> x \<and> x < start + (\<Sum>i\<leftarrow>is. group_len base extra i) then 1 else 0)"
  by (induction base extra "is" start rule: interval_loop.induct)
     (auto simp: Let_def group_len_def)

lemma length_interval_loop [simp]: "length (interval_loop base extra is start) = length is"
  by (induction base extra "is" start rule: interval_loop.induct) (auto simp: Let_def)

lemma sum_group_len:
  "extra \<le> g \<Longrightarrow> (\<Sum>i\<leftarrow>[0..<g]. group_len base extra i) = g * base + extra"
proof (induction g arbitrary: extra)
  case (Suc g)
  show ?case
  proof (cases "extra = Suc g")
    case True
    then have "(\<Sum>i\<leftarrow>[0..<g]. group_len base extra i) = (\<Sum>i\<leftarrow>[0..<g]. group_len base g i)"
      by (intro arg_cong [where f = sum_list] map_cong) (auto simp: group_len_def)
    with Suc.IH [of g] True show ?thesis by (simp add: group_len_def)
  next
    case False
    with Suc show ?thesis by (simp add: group_len_def)
  qed
qed simp

lemma bounded_intervals_props:
  assumes "0 < g" "1 < n"
  shows "(b, e) \<in> set (bounded_intervals g n) \<Longrightarrow> 1 \<le> b \<and> b < e \<and> e \<le> n"
    and "length (filter (\<lambda>(b, e). b \<le> x \<and> x < e) (bounded_intervals g n)) =
      (if 1 \<le> x \<and> x < n then 1 else 0)"
    and "length (bounded_intervals g n) \<le> g"
proof -
  define groups where "groups = min g (n - 1)"
  let ?b = "(n - 1) div groups" and ?x = "(n - 1) mod groups"
  have g: "0 < groups" "groups \<le> n - 1"
    using assms by (simp_all add: groups_def)
  then have b: "0 < ?b" by (simp add: div_greater_zero_iff)
  have eq: "bounded_intervals g n = interval_loop ?b ?x [0..<groups] 1"
    using assms by (simp add: bounded_intervals_def Let_def groups_def)
  have "(\<Sum>i\<leftarrow>[0..<groups]. group_len ?b ?x i) = groups * ?b + ?x"
    using g by (intro sum_group_len) (simp add: less_imp_le)
  then have sum: "(\<Sum>i\<leftarrow>[0..<groups]. group_len ?b ?x i) = n - 1"
    by simp
  show "1 \<le> b \<and> b < e \<and> e \<le> n" if "(b, e) \<in> set (bounded_intervals g n)"
    using interval_loop_mem [of b e ?b ?x "[0..<groups]" 1] that b assms unfolding eq sum by simp
  show "length (filter (\<lambda>(b, e). b \<le> x \<and> x < e) (bounded_intervals g n)) =
      (if 1 \<le> x \<and> x < n then 1 else 0)"
    using assms unfolding eq interval_loop_count sum by auto
  show "length (bounded_intervals g n) \<le> g"
    unfolding eq by (simp add: groups_def)
qed

lemma length_allocate [simp]: "length (allocate_loop r ds) = length ds"
  by (induction r ds rule: allocate_loop.induct) (auto simp: Let_def)

lemma allocate_pos: "g \<in> set (allocate_loop r ds) \<Longrightarrow> 0 < g"
  by (induction r ds rule: allocate_loop.induct) (auto simp: Let_def)

lemma sum_allocate: "sum_list (allocate_loop r ds) \<le> length ds + r"
proof (induction r ds rule: allocate_loop.induct)
  case (2 r d n ds)
  define a where "a = min r (n - 1 - 1)"
  have "sum_list (allocate_loop (r - a) ds) \<le> length ds + (r - a)" "a \<le> r"
    using 2 by (simp_all add: a_def)
  moreover have "allocate_loop r ((d, n) # ds) = (1 + a) # allocate_loop (r - a) ds"
    by (simp add: Let_def a_def)
  ultimately show ?case by simp
qed simp

section \<open>Structural children partition the tile\<close>

text \<open>What a decomposition of a tile into structural children promises.\<close>

definition node_slices :: "tile_node list \<Rightarrow> slice list" where
  "node_slices nodes = map (tile_space \<circ> node_tile) nodes"

definition good_split :: "tile \<Rightarrow> tile_node list \<Rightarrow> bool" where
  "good_split t nodes \<longleftrightarrow>
     (\<forall>u \<in> set (node_slices nodes). slice_inv u) \<and>
     mset (concat (map ranks (node_slices nodes))) = mset (ranks (tile_space t)) \<and>
     (\<exists>sibs a sp. nodes = sibs @ [a] \<and> (\<forall>n \<in> set sibs. is_sibling n) \<and>
        node_relation a = Anchor sp \<and> root_rank (node_tile a) = root_rank t)"

lemma list_all2_covers_inv: "list_all2 (covers s) ts Ps \<Longrightarrow> \<forall>u \<in> set ts. slice_inv u"
  by (auto simp: list_all2_conv_all_nth covers_def in_set_conv_nth)

lemma good_splitI:
  assumes "slice_inv (tile_space t)" "list_all2 (covers (tile_space t)) (node_slices (sibs @ [a])) Ps"
    "\<And>c. in_range (tile_space t) c \<Longrightarrow> length (filter (\<lambda>P. P c) Ps) = 1"
    "\<forall>n \<in> set sibs. is_sibling n" "node_relation a = Anchor sp" "root_rank (node_tile a) = root_rank t"
  shows "good_split t (sibs @ [a])"
  unfolding good_split_def
  using partition_mset [OF assms(1-3)] list_all2_covers_inv [OF assms(2)] assms(4-6) by blast

lemma select_tile_covers:
  assumes "slice_inv s" "dim < length (sizes s)" "lo < hi" "hi \<le> sizes s ! dim"
  shows "\<exists>u. select_tile s dim lo hi = Some (Tile u) \<and>
    covers s u (\<lambda>c. lo \<le> c ! dim \<and> c ! dim < hi) \<and> offset u = offset s + lo * strides s ! dim"
  using select_covers [OF assms] slice_select_cases(5) [of s dim lo hi 1]
  by (fastforce simp: select_tile_def)

lemma those_map_Some: "(\<And>x. x \<in> set xs \<Longrightarrow> f x = Some (g x)) \<Longrightarrow> those (map f xs) = Some (map g xs)"
  by (simp add: those_Some_iff)

lemma block_good_split:
  assumes inv: "slice_inv (tile_space t)" and dim: "first_non_singleton_dim (tile_space t) = Some dim"
  shows "\<exists>nodes. block_child_nodes t = Some nodes \<and> good_split t nodes"
proof -
  let ?s = "tile_space t" and ?n = "sizes (tile_space t) ! dim"
  have d: "dim < length (sizes ?s)" "1 < ?n"
    using first_non_singleton_dim_Some [OF dim] by simp_all
  let ?rel = "\<lambda>i. if i = 0 then Anchor \<lparr>split_dim = dim, split_index = 0\<rparr>
                  else Sibling \<lparr>split_dim = dim, split_index = i\<rparr>"
  have ex: "\<exists>u. select_tile ?s dim i (i + 1) = Some (Tile u) \<and> covers ?s u (\<lambda>c. c ! dim = i) \<and>
      offset u = offset ?s + i * strides ?s ! dim" if "i < ?n" for i
  proof -
    have "(\<lambda>c. i \<le> c ! dim \<and> c ! dim < i + 1) = (\<lambda>c. c ! dim = i)" by auto
    with select_tile_covers [OF inv d(1), of i "i + 1"] that show ?thesis by auto
  qed
  then obtain u where u: "\<And>i. i < ?n \<Longrightarrow> select_tile ?s dim i (i + 1) = Some (Tile (u i)) \<and>
      covers ?s (u i) (\<lambda>c. c ! dim = i) \<and> offset (u i) = offset ?s + i * strides ?s ! dim"
    by metis
  let ?node = "\<lambda>i. mk_node (?rel i) (Tile (u i))"
  let ?is = "[1..<?n] @ [0]"
  have sib: "map (\<lambda>i. map_option (mk_node (Sibling \<lparr>split_dim = dim, split_index = i\<rparr>))
        (select_tile ?s dim i (i + 1))) [1..<?n] =
      map (\<lambda>i. map_option (mk_node (?rel i)) (select_tile ?s dim i (i + 1))) [1..<?n]"
    by (rule map_cong) auto
  have "block_child_nodes t = those (map (\<lambda>i. map_option (mk_node (?rel i))
      (select_tile ?s dim i (i + 1))) ?is)"
    unfolding block_child_nodes_def Let_def dim option.case sib by simp
  also have "\<dots> = Some (map ?node ?is)"
    by (rule those_map_Some) (use u d in auto)
  finally have nodes: "block_child_nodes t = Some (map ?node [1..<?n] @ [?node 0])"
    by simp
  have "good_split t (map ?node [1..<?n] @ [?node 0])"
  proof (rule good_splitI [OF inv, where Ps = "map (\<lambda>i c. c ! dim = i) ?is"])
    show "list_all2 (covers ?s) (node_slices (map ?node [1..<?n] @ [?node 0]))
        (map (\<lambda>i c. c ! dim = i) ?is)"
      using u d by (auto simp: node_slices_def list_all2_conv_all_nth nth_append)
    fix c assume "in_range ?s c"
    then have "c ! dim \<in> set ?is"
      using in_range_nth [of ?s c dim] d by auto
    moreover have "distinct ?is" by simp
    ultimately have "length (filter (\<lambda>i. c ! dim = i) ?is) = 1"
      using length_filter_distinct by metis
    then show "length (filter (\<lambda>P. P c) (map (\<lambda>i c. c ! dim = i) ?is)) = 1"
      by (simp only: filter_map length_map comp_def)
  qed (use u [of 0] d in \<open>auto simp: is_sibling_def root_rank_def\<close>)
  with nodes show ?thesis by blast
qed

lemma bisection_good_split:
  assumes inv: "slice_inv (tile_space t)" and dim: "first_non_singleton_dim (tile_space t) = Some dim"
  shows "\<exists>nodes. bisection_child_nodes t = Some nodes \<and> good_split t nodes"
proof -
  let ?s = "tile_space t" and ?n = "sizes (tile_space t) ! dim"
  have d: "dim < length (sizes ?s)" "1 < ?n"
    using first_non_singleton_dim_Some [OF dim] by simp_all
  obtain u where u: "select_tile ?s dim (?n div 2) ?n = Some (Tile u)"
    "covers ?s u (\<lambda>c. ?n div 2 \<le> c ! dim \<and> c ! dim < ?n)"
    using select_tile_covers [OF inv d(1), of "?n div 2" ?n] d(2) by auto
  obtain w where w: "select_tile ?s dim 0 (?n div 2) = Some (Tile w)"
    "covers ?s w (\<lambda>c. c ! dim < ?n div 2)" "offset w = offset ?s"
    using select_tile_covers [OF inv d(1), of 0 "?n div 2"] d(2) by auto
  let ?nodes = "[mk_node (Sibling \<lparr>split_dim = dim, split_index = ?n div 2\<rparr>) (Tile u)] @
    [mk_node (Anchor \<lparr>split_dim = dim, split_index = 0\<rparr>) (Tile w)]"
  have "bisection_child_nodes t = Some ?nodes"
    using dim u(1) w(1) by (simp add: bisection_child_nodes_def Let_def)
  moreover have "good_split t ?nodes"
    by (rule good_splitI [OF inv, where Ps = "[\<lambda>c. ?n div 2 \<le> c ! dim \<and> c ! dim < ?n,
          \<lambda>c. c ! dim < ?n div 2]"])
       (use u w d in_range_nth [of ?s _ dim] in
         \<open>auto simp: node_slices_def is_sibling_def root_rank_def\<close>)
  ultimately show ?thesis by blast
qed

section \<open>The frontier of \<open>BoundedFanout\<close>\<close>

definition slab_keys :: "(nat \<times> nat) list \<Rightarrow> nat list \<Rightarrow> (nat \<times> nat \<times> nat) list" where
  "slab_keys ad gs = concat (map (\<lambda>((d, n), g). map (\<lambda>(b, e). (d, b, e)) (bounded_intervals g n)) (zip ad gs))"

definition zero_before :: "(nat \<times> nat) list \<Rightarrow> nat \<Rightarrow> nat list \<Rightarrow> bool" where
  "zero_before ad d c \<longleftrightarrow> (\<forall>d' \<in> fst ` set (takeWhile (\<lambda>(d', _). d' \<noteq> d) ad). c ! d' = 0)"

lemma bounded_siblings_keys:
  "bounded_siblings t ad gs =
     map (\<lambda>(d, b, e). map_option (mk_node (Sibling \<lparr>split_dim = d, split_index = b\<rparr>))
       (frontier_tile t ad d b e)) (slab_keys ad gs)"
  by (simp add: bounded_siblings_def slab_keys_def map_concat comp_def case_prod_unfold)

lemma active_distinct: "distinct (map fst (active_dimensions s))"
  by (simp add: active_dimensions_def dimension_extents_def distinct_map_filter)

lemma active_dims_less: "d \<in> fst ` set (active_dimensions s) \<Longrightarrow> d < length (sizes s)"
  using in_active_dimensions by force

lemma slab_keys_mem:
  assumes "(d, b, e) \<in> set (slab_keys (active_dimensions s) gs)" "\<forall>g \<in> set gs. 0 < g"
  shows "(d, sizes s ! d) \<in> set (active_dimensions s) \<and> 1 \<le> b \<and> b < e \<and> e \<le> sizes s ! d"
proof -
  from assms(1) obtain n g where m: "((d, n), g) \<in> set (zip (active_dimensions s) gs)"
    "(b, e) \<in> set (bounded_intervals g n)"
    by (auto simp: slab_keys_def)
  then have "(d, n) \<in> set (active_dimensions s)" "g \<in> set gs"
    by (auto dest: set_zip_leftD set_zip_rightD)
  with assms(2) m(2) show ?thesis
    using bounded_intervals_props(1) [of g n b e] by (auto simp: in_active_dimensions)
qed

lemma frontier_tile_covers:
  assumes inv: "slice_inv (tile_space t)" and d: "(d, n) \<in> set (active_dimensions (tile_space t))"
    and b: "b < e" "e \<le> n"
  shows "\<exists>u. frontier_tile t (active_dimensions (tile_space t)) d b e = Some (Tile u) \<and>
    covers (tile_space t) u
      (\<lambda>c. zero_before (active_dimensions (tile_space t)) d c \<and> b \<le> c ! d \<and> c ! d < e)"
proof -
  let ?s = "tile_space t" and ?ad = "active_dimensions (tile_space t)"
  let ?pre = "takeWhile (\<lambda>(d', _). d' \<noteq> d) ?ad"
  have "set ?pre \<subseteq> set ?ad" by (auto dest: set_takeWhileD)
  then have "\<forall>d' \<in> fst ` set ?pre. d' < length (sizes ?s)"
    using active_dims_less [of _ ?s] by blast
  then obtain w where w: "fix_dims ?s ?pre = Some w" "length (sizes w) = length (sizes ?s)"
    "\<forall>d'. sizes w ! d' = (if d' \<in> fst ` set ?pre then 1 else sizes ?s ! d')"
    "narrows ?s w (zero_before ?ad d)"
    using fix_dims_narrows [OF inv, of ?pre] unfolding zero_before_def by blast
  have "d \<notin> fst ` set ?pre" using set_takeWhileD by fastforce
  then have "sizes w ! d = n" "d < length (sizes w)"
    using d w(2) w(3) [rule_format, of d] by (simp_all add: in_active_dimensions)
  then obtain u where u: "select_tile w d b e = Some (Tile u)"
    "covers w u (\<lambda>c. b \<le> c ! d \<and> c ! d < e)"
    using select_tile_covers [of w d b e] w(4) b by (auto simp: narrows_def)
  from w(1) u(1) have "frontier_tile t ?ad d b e = Some (Tile u)"
    by (simp add: frontier_tile_def anchor_prefix_def)
  with narrows_covers [OF w(4) u(2)] show ?thesis by blast
qed

lemma zero_before_Cons:
  "fst a \<noteq> d \<Longrightarrow> zero_before (a # ad) d c \<longleftrightarrow> c ! fst a = 0 \<and> zero_before ad d c"
  by (cases a) (auto simp: zero_before_def)

lemma first_nonzero_count:
  assumes "distinct (map fst ad)"
  shows "(\<Sum>a\<leftarrow>ad. if zero_before ad (fst a) c \<and> c ! fst a \<noteq> 0 then 1 else 0) +
    (if \<forall>d \<in> fst ` set ad. c ! d = 0 then 1 else 0) = (1 :: nat)"
  using assms
proof (induction ad)
  case (Cons a ad)
  let ?f = "\<lambda>ad b. if zero_before ad (fst b) c \<and> c ! fst b \<noteq> 0 then 1 else (0::nat)"
  let ?z = "\<lambda>ad. if \<forall>d \<in> fst ` set ad. c ! d = 0 then 1 else (0::nat)"
  have head: "zero_before (a # ad) (fst a) c"
    by (simp add: zero_before_def case_prod_unfold)
  have f: "zero_before (a # ad) (fst b) c \<longleftrightarrow> c ! fst a = 0 \<and> zero_before ad (fst b) c"
    if "b \<in> set ad" for b
  proof -
    have "fst a \<noteq> fst b" using that Cons.prems by auto
    then show ?thesis by (simp add: zero_before_Cons)
  qed
  have IH: "(\<Sum>b\<leftarrow>ad. ?f ad b) + ?z ad = 1"
    using Cons by (simp only: list.map distinct.simps)
  show ?case
  proof (cases "c ! fst a = 0")
    case True
    then have "(\<Sum>b\<leftarrow>ad. ?f (a # ad) b) = (\<Sum>b\<leftarrow>ad. ?f ad b)"
      by (intro arg_cong [where f = sum_list] map_cong refl) (simp add: f)
    moreover have "?f (a # ad) a = 0" "?z (a # ad) = ?z ad"
      using True by simp_all
    ultimately show ?thesis
      using IH by (simp only: list.map sum_list.Cons add_0)
  next
    case False
    have "map (?f (a # ad)) ad = map (\<lambda>_. 0) ad"
      using False by (intro map_cong refl) (simp add: f)
    then have "(\<Sum>b\<leftarrow>ad. ?f (a # ad) b) = 0" by (simp only: sum_list_0)
    moreover have "?f (a # ad) a = 1" "?z (a # ad) = 0"
      using False head by simp_all
    ultimately show ?thesis
      by (simp only: list.map sum_list.Cons add_0_right)
  qed
qed simp

lemma slab_keys_count:
  assumes "length gs = length ad" "\<forall>g \<in> set gs. 0 < g" "\<forall>(d, n) \<in> set ad. 1 < n \<and> c ! d < n"
  shows "length (filter (\<lambda>(d, b, e). Z d \<and> b \<le> c ! d \<and> c ! d < e) (slab_keys ad gs)) =
    (\<Sum>a\<leftarrow>ad. if Z (fst a) \<and> c ! fst a \<noteq> 0 then 1 else 0)"
  using assms
proof (induction gs ad rule: list_induct2)
  case (Cons g gs a ad)
  obtain d n where a: "a = (d, n)" by (cases a)
  have "length (filter (\<lambda>(d, b, e). Z d \<and> b \<le> c ! d \<and> c ! d < e)
        (map (\<lambda>(b, e). (d, b, e)) (bounded_intervals g n))) =
      (if Z d then length (filter (\<lambda>(b, e). b \<le> c ! d \<and> c ! d < e) (bounded_intervals g n)) else 0)"
    by (simp add: filter_map comp_def case_prod_unfold)
  also have "\<dots> = (if Z d \<and> c ! d \<noteq> 0 then 1 else 0)"
    using bounded_intervals_props(2) [of g n "c ! d"] Cons.prems by (auto simp: a)
  finally show ?case
    using Cons by (simp add: slab_keys_def a)
qed (simp add: slab_keys_def)

lemma bounded_good_split:
  assumes inv: "slice_inv (tile_space t)" and ne: "active_dimensions (tile_space t) \<noteq> []"
  shows "\<exists>nodes. bounded_child_nodes f t = Some nodes \<and> good_split t nodes"
proof -
  let ?s = "tile_space t" and ?ad = "active_dimensions (tile_space t)"
  define gs where "gs = allocate_groups_per_slab (effective_fanout t f) ?ad"
  have gs: "length gs = length ?ad" "\<forall>g \<in> set gs. 0 < g"
    by (auto simp: gs_def allocate_groups_per_slab_def dest: allocate_pos)
  define keys where "keys = slab_keys ?ad gs"
  define P where "P = (\<lambda>k c. zero_before ?ad (fst k) c \<and> fst (snd k) \<le> c ! fst k \<and> c ! fst k < snd (snd k))"
  define ft where "ft = (\<lambda>k. frontier_tile t ?ad (fst k) (fst (snd k)) (snd (snd k)))"
  have "\<exists>u. ft k = Some (Tile u) \<and> covers ?s u (P k)" if "k \<in> set keys" for k
  proof -
    obtain d b e where k: "k = (d, b, e)" by (cases k) auto
    have "(d, sizes ?s ! d) \<in> set ?ad" "b < e" "e \<le> sizes ?s ! d"
      using slab_keys_mem [of d b e ?s gs] that gs(2) by (simp_all add: keys_def k)
    then show ?thesis
      using frontier_tile_covers [OF inv, of d "sizes ?s ! d" b e] by (simp add: k P_def ft_def)
  qed
  then obtain u where u: "\<And>k. k \<in> set keys \<Longrightarrow> ft k = Some (Tile (u k)) \<and> covers ?s (u k) (P k)"
    using bchoice [of "set keys" "\<lambda>k u. ft k = Some (Tile u) \<and> covers ?s u (P k)"] by blast
  obtain w where w: "fix_dims ?s ?ad = Some w" "narrows ?s w (\<lambda>c. \<forall>d \<in> fst ` set ?ad. c ! d = 0)"
    using fix_dims_narrows [OF inv, of ?ad] active_dims_less by blast
  define sib where "sib = (\<lambda>k. mk_node (Sibling \<lparr>split_dim = fst k, split_index = fst (snd k)\<rparr>) (Tile (u k)))"
  let ?anchor = "mk_node (Anchor \<lparr>split_dim = fst (last ?ad), split_index = 0\<rparr>) (Tile w)"
  have "bounded_siblings t ?ad gs = map (\<lambda>k. map_option
      (mk_node (Sibling \<lparr>split_dim = fst k, split_index = fst (snd k)\<rparr>)) (ft k)) keys"
    by (simp add: bounded_siblings_keys keys_def ft_def case_prod_unfold)
  also have "\<dots> = map Some (map sib keys)"
    using u by (simp add: sib_def)
  finally have sibs: "bounded_siblings t ?ad gs = map Some (map sib keys)" .
  have nodes: "bounded_child_nodes f t = Some (map sib keys @ [?anchor])"
    using ne w(1) unfolding bounded_child_nodes_def Let_def gs_def [symmetric] sibs
    by (simp add: root_point_tile_def those_Some_iff)
  let ?zero = "\<lambda>c. \<forall>d \<in> fst ` set ?ad. c ! d = 0"
  have "good_split t (map sib keys @ [?anchor])"
  proof (rule good_splitI [OF inv, where Ps = "map P keys @ [?zero]"])
    show "list_all2 (covers ?s) (node_slices (map sib keys @ [?anchor])) (map P keys @ [?zero])"
      using u narrows_imp_covers [OF w(2)]
      by (simp add: node_slices_def list_all2_append list_all2_map1 list_all2_map2 list_all2_same sib_def)
    fix c assume c: "in_range ?s c"
    then have "\<forall>(d, n) \<in> set ?ad. 1 < n \<and> c ! d < n"
      using in_range_nth [OF c] by (auto simp: in_active_dimensions)
    from slab_keys_count [OF gs this, of "\<lambda>d. zero_before ?ad d c"]
    have "length (filter (\<lambda>k. P k c) keys) =
        (\<Sum>a\<leftarrow>?ad. if zero_before ?ad (fst a) c \<and> c ! fst a \<noteq> 0 then 1 else 0)"
      by (simp add: P_def keys_def case_prod_unfold)
    moreover have "length (filter (\<lambda>P. P c) (map P keys @ [?zero])) =
        length (filter (\<lambda>k. P k c) keys) + (if ?zero c then 1 else 0)"
      by (simp add: filter_map comp_def)
    ultimately show "length (filter (\<lambda>P. P c) (map P keys @ [?zero])) = 1"
      using first_nonzero_count [OF active_distinct, of ?s c] by (simp only:)
  qed (use w(2) in \<open>auto simp: is_sibling_def root_rank_def narrows_def sib_def\<close>)
  with nodes show ?thesis by blast
qed

section \<open>The interface of a tiling\<close>

text \<open>
  The contract of the trait \<open>Tiling\<close>: \<open>child_nodes\<close> of a singleton tile is empty and
  of any other valid tile a good split, anchors shrink, and \<open>children\<close> contracts anchors.
\<close>

definition is_leaf :: "tile \<Rightarrow> bool" where
  "is_leaf t \<longleftrightarrow> active_dimensions (tile_space t) = []"

definition slices_of :: "tile list \<Rightarrow> slice list" where
  "slices_of ts = map tile_space ts"

lemma slices_of_simps [simp]:
  "slices_of [] = []" "slices_of (t # ts) = tile_space t # slices_of ts"
  "slices_of (xs @ ys) = slices_of xs @ slices_of ys"
  by (simp_all add: slices_of_def)

lemma is_leaf_iff: "is_leaf t \<longleftrightarrow> (\<forall>n \<in> set (sizes (tile_space t)). n \<le> 1)"
proof -
  let ?szs = "sizes (tile_space t)"
  have "is_leaf t \<longleftrightarrow> (\<forall>d n. (d, n) \<notin> set (active_dimensions (tile_space t)))"
    by (cases "active_dimensions (tile_space t)") (auto simp: is_leaf_def)
  also have "\<dots> \<longleftrightarrow> (\<forall>d < length ?szs. ?szs ! d \<le> 1)"
    by (simp only: in_active_dimensions) (metis not_le)
  also have "\<dots> \<longleftrightarrow> (\<forall>n \<in> set ?szs. n \<le> 1)"
    by (simp only: all_set_conv_all_nth)
  finally show ?thesis .
qed

lemma first_non_singleton_dim_None:
  "first_non_singleton_dim (tile_space t) = None \<longleftrightarrow> is_leaf t"
  by (simp add: first_non_singleton_dim_def is_leaf_def active_dimensions_def find_None_iff
      filter_empty_conv) force

lemma prod_list_ones: "\<forall>n \<in> set ns. n = 1 \<Longrightarrow> prod_list ns = (1 :: nat)"
  by (induction ns) auto

lemma dot_zero: "dot (replicate n 0) ys = 0"
proof (induction n arbitrary: ys)
  case (Suc n)
  then show ?case by (cases ys) (simp_all add: dot_def)
qed (simp add: dot_def)

lemma unrank_0: "unrank szs 0 = replicate (length szs) 0"
proof -
  have "digits ds 0 = replicate (length ds) 0" for ds by (induction ds) auto
  then show ?thesis by (simp add: unrank_def)
qed

lemma leaf_ranks:
  assumes "slice_inv (tile_space t)" "is_leaf t"
  shows "ranks (tile_space t) = [root_rank t]"
proof -
  have "\<forall>n \<in> set (sizes (tile_space t)). n = 1"
    using assms by (fastforce simp: is_leaf_iff slice_inv_def)
  then have "slice_len (tile_space t) = 1" by (simp add: slice_len_def prod_list_ones)
  then show ?thesis by (simp add: ranks_def unrank_0 dot_zero root_rank_def)
qed

locale tiling =
  fixes nodes :: "tile \<Rightarrow> tile_node list option"
    and kids :: "tile \<Rightarrow> tile list option"
  assumes nodes_leaf: "is_leaf t \<Longrightarrow> nodes t = Some []"
    and nodes_split: "slice_inv (tile_space t) \<Longrightarrow> \<not> is_leaf t \<Longrightarrow>
      \<exists>ns. nodes t = Some ns \<and> good_split t ns"
    and anchor_less: "nodes t = Some ns \<Longrightarrow> n \<in> set ns \<Longrightarrow> node_relation n = Anchor sp \<Longrightarrow>
      sum_list (sizes (tile_space (node_tile n))) < sum_list (sizes (tile_space t))"
    and kids_eq: "kids t = (case nodes t of None \<Rightarrow> None | Some ns \<Rightarrow>
      map_option concat (those (map (\<lambda>n. case node_relation n of
        Sibling _ \<Rightarrow> Some [node_tile n] | Anchor _ \<Rightarrow> kids (node_tile n)) ns)))"
begin

lemma kids_leaf: "is_leaf t \<Longrightarrow> kids t = Some []"
  by (subst kids_eq) (simp add: nodes_leaf)

text \<open>Anchor contraction: the siblings, then the children of the anchor.\<close>

lemma kids_split:
  assumes "nodes t = Some (sibs @ [a])" "\<forall>n \<in> set sibs. is_sibling n"
    "node_relation a = Anchor sp" "kids (node_tile a) = Some cs"
  shows "kids t = Some (map node_tile sibs @ cs)"
proof -
  let ?f = "\<lambda>n. case node_relation n of Sibling _ \<Rightarrow> Some [node_tile n]
      | Anchor _ \<Rightarrow> kids (node_tile n)"
  have "map ?f (sibs @ [a]) = map Some (map (\<lambda>n. [node_tile n]) sibs @ [cs])"
    using assms by (auto simp: is_sibling_def split: tile_relation.splits)
  then have "those (map ?f (sibs @ [a])) = Some (map (\<lambda>n. [node_tile n]) sibs @ [cs])"
    by (simp add: those_Some_iff)
  moreover have "concat (map (\<lambda>n. [node_tile n]) sibs) = map node_tile sibs"
    by (induction sibs) auto
  ultimately show ?thesis
    using assms(1) by (subst kids_eq) simp
qed

lemma kids_partition:
  assumes "slice_inv (tile_space t)"
  shows "\<exists>cs. kids t = Some cs \<and> (\<forall>u \<in> set (slices_of cs). slice_inv u) \<and>
    mset (ranks (tile_space t)) = add_mset (root_rank t) (mset (concat (map ranks (slices_of cs))))"
  using assms
proof (induction "sum_list (sizes (tile_space t))" arbitrary: t rule: less_induct)
  case less
  show ?case
  proof (cases "is_leaf t")
    case True
    then show ?thesis
      using leaf_ranks [OF less.prems] by (simp add: kids_leaf)
  next
    case False
    obtain ns where ns: "nodes t = Some ns" "good_split t ns"
      using nodes_split [OF less.prems False] by blast
    then obtain sibs a sp where a: "ns = sibs @ [a]" "\<forall>n \<in> set sibs. is_sibling n"
      "node_relation a = Anchor sp" "root_rank (node_tile a) = root_rank t"
      by (auto simp: good_split_def)
    have inv: "\<forall>u \<in> set (node_slices ns). slice_inv u"
      and parts: "mset (concat (map ranks (node_slices ns))) = mset (ranks (tile_space t))"
      using ns(2) by (simp_all add: good_split_def)
    obtain cs where cs: "kids (node_tile a) = Some cs" "\<forall>u \<in> set (slices_of cs). slice_inv u"
      "mset (ranks (tile_space (node_tile a))) =
        add_mset (root_rank t) (mset (concat (map ranks (slices_of cs))))"
      using less.hyps [OF anchor_less [OF ns(1), of a sp]] inv a by (auto simp: node_slices_def)
    have "kids t = Some (map node_tile sibs @ cs)"
      using kids_split ns(1) a cs(1) by blast
    moreover have "slices_of (map node_tile sibs) = node_slices sibs"
      by (simp add: slices_of_def node_slices_def)
    ultimately show ?thesis
      using inv cs(2,3) parts a(1) by (auto simp: node_slices_def)
  qed
qed

lemma kids_shrink:
  assumes "slice_inv (tile_space t)" "kids t = Some cs" "c \<in> set cs"
  shows "slice_inv (tile_space c) \<and> slice_len (tile_space c) < slice_len (tile_space t)"
proof -
  have part: "\<forall>u \<in> set (slices_of cs). slice_inv u"
    "mset (ranks (tile_space t)) = add_mset (root_rank t) (mset (concat (map ranks (slices_of cs))))"
    using kids_partition [OF assms(1)] assms(2) by auto
  from part(2) have "slice_len (tile_space t) = Suc (length (concat (map ranks (slices_of cs))))"
    by (metis length_ranks size_add_mset size_mset)
  moreover have "length (concat (map ranks (slices_of cs))) =
      (\<Sum>c\<leftarrow>cs. slice_len (tile_space c))"
    by (simp add: length_concat slices_of_def comp_def)
  moreover have "slice_len (tile_space c) \<le> (\<Sum>c\<leftarrow>cs. slice_len (tile_space c))"
    using assms(3) by (intro member_le_sum_list) auto
  ultimately show ?thesis
    using part(1) assms(3) by (simp add: slices_of_def)
qed

end

interpretation policy: tiling "child_nodes p" "children p" for p
proof unfold_locales
  fix t
  show "is_leaf t \<Longrightarrow> child_nodes p t = Some []"
    using first_non_singleton_dim_None [of t]
    by (cases p) (simp_all add: child_nodes_def block_child_nodes_def bounded_child_nodes_def
        bisection_child_nodes_def Let_def is_leaf_def)
  show "\<exists>ns. child_nodes p t = Some ns \<and> good_split t ns"
    if inv: "slice_inv (tile_space t)" and nl: "\<not> is_leaf t"
  proof -
    obtain dim where "first_non_singleton_dim (tile_space t) = Some dim"
      using first_non_singleton_dim_None [of t] nl by blast
    then show ?thesis
      using block_good_split [OF inv] bisection_good_split [OF inv] bounded_good_split [OF inv] nl
      by (cases p) (auto simp: child_nodes_def is_leaf_def)
  qed
  show "children p t = (case child_nodes p t of None \<Rightarrow> None | Some ns \<Rightarrow>
      map_option concat (those (map (\<lambda>n. case node_relation n of
        Sibling _ \<Rightarrow> Some [node_tile n] | Anchor _ \<Rightarrow> children p (node_tile n)) ns)))"
    by (subst children.simps) (auto split: option.splits tile_relation.splits)
qed (auto dest: anchor_child_less)

section \<open>The fan-out cap\<close>

lemma length_slab_keys:
  assumes "length gs = length ad" "\<forall>g \<in> set gs. 0 < g" "\<forall>(d, n) \<in> set ad. 1 < n"
  shows "length (slab_keys ad gs) \<le> sum_list gs"
  using assms
proof (induction gs ad rule: list_induct2)
  case (Cons g gs a ad)
  then show ?case
    using bounded_intervals_props(3) [of g "snd a"]
    by (auto simp: slab_keys_def case_prod_unfold intro!: add_mono)
qed (simp add: slab_keys_def)

lemma bounded_fanout_length:
  assumes "slice_inv (tile_space t)" "children (BoundedFanout f) t = Some cs"
  shows "length cs \<le> effective_fanout t f"
proof (cases "is_leaf t")
  case True
  then show ?thesis
    using policy.kids_leaf [of t "BoundedFanout f"] assms(2) by simp
next
  case False
  let ?ad = "active_dimensions (tile_space t)"
  obtain ns where ns: "child_nodes (BoundedFanout f) t = Some ns" "good_split t ns"
    using policy.nodes_split [OF assms(1) False] by blast
  then obtain sibs a sp where a: "ns = sibs @ [a]" "\<forall>n \<in> set sibs. is_sibling n"
    "node_relation a = Anchor sp"
    by (auto simp: good_split_def)
  have bc: "bounded_child_nodes f t = Some (sibs @ [a])"
    using ns(1) a(1) by (simp add: child_nodes_def)
  define gs where "gs = allocate_groups_per_slab (effective_fanout t f) ?ad"
  have gs: "length gs = length ?ad" "\<forall>g \<in> set gs. 0 < g"
    by (auto simp: gs_def allocate_groups_per_slab_def dest: allocate_pos)
  have "length (bounded_siblings t ?ad gs) = length sibs"
    using bc False unfolding bounded_child_nodes_def Let_def gs_def [symmetric] is_leaf_def
    by (auto simp: those_Some_iff dest: arg_cong [where f = length])
  moreover have "length (bounded_siblings t ?ad gs) \<le> sum_list gs"
  proof -
    have "\<forall>(d, n) \<in> set ?ad. 1 < n" by (auto simp: in_active_dimensions)
    from length_slab_keys [OF gs this] show ?thesis by (simp add: bounded_siblings_keys)
  qed
  moreover have "sum_list gs \<le> effective_fanout t f"
    using sum_allocate [of "effective_fanout t f - length ?ad" ?ad]
    by (simp add: gs_def allocate_groups_per_slab_def effective_fanout_def minimum_fanout_def)
  moreover have "children (BoundedFanout f) (node_tile a) = Some []"
  proof -
    obtain dim extent ds where "?ad = (dim, extent) # ds"
      "fix_dims (tile_space t) ?ad = Some (tile_space (node_tile a))"
      using anchor_bounded [OF bc _ a(3)] by (metis in_set_conv_decomp)
    then have "sizes (tile_space (node_tile a)) ! d \<le> 1" if "d < length (sizes (tile_space t))" for d
      using fix_dims_narrows [OF assms(1), of ?ad] active_dims_less that
        in_active_dimensions [of d "sizes (tile_space t) ! d" "tile_space t"] by force
    moreover have "length (sizes (tile_space (node_tile a))) = length (sizes (tile_space t))"
      using fix_dims_narrows [OF assms(1), of ?ad] active_dims_less
        \<open>fix_dims (tile_space t) ?ad = Some (tile_space (node_tile a))\<close> by force
    ultimately have "is_leaf (node_tile a)"
      by (auto simp: is_leaf_iff in_set_conv_nth)
    then show ?thesis by (rule policy.kids_leaf)
  qed
  ultimately show ?thesis
    using policy.kids_split [OF ns(1) [unfolded a(1)] a(2,3)] assms(2) by auto
qed

section \<open>Properties\<close>

text \<open>Every tiling policy partitions a valid tile that is not a single point: its structural
  children are valid, their ranks taken together are the ranks of the tile, each exactly once,
  and the last child is the anchor, which keeps the root of the tile.\<close>

theorem child_nodes_partition:
  assumes "slice_inv (tile_space t)" "\<exists>n \<in> set (sizes (tile_space t)). 1 < n"
  shows "\<exists>nodes rss rs. child_nodes p t = Some nodes \<and>
    (\<forall>node \<in> set nodes. slice_inv (tile_space (node_tile node))) \<and>
    map (\<lambda>node. tile_ranks (node_tile node)) nodes = map Inr rss \<and> tile_ranks t = Inr rs \<and>
    mset (concat rss) = mset rs \<and>
    (\<exists>sibs a sp. nodes = sibs @ [a] \<and> (\<forall>n \<in> set sibs. is_sibling n) \<and>
       node_relation a = Anchor sp \<and> root_rank (node_tile a) = root_rank t)"
proof -
  have "\<not> is_leaf t" using assms(2) unfolding is_leaf_iff by (meson not_le)
  from policy.nodes_split [OF assms(1) this] obtain nodes where
    n: "child_nodes p t = Some nodes" "good_split t nodes" by blast
  have r: "map (\<lambda>node. tile_ranks (node_tile node)) nodes = map Inr (map ranks (node_slices nodes))"
    by (simp add: tile_ranks_def slice_iter_eq node_slices_def)
  have "mset (concat (map ranks (node_slices nodes))) = mset (ranks (tile_space t))"
    "\<forall>node \<in> set nodes. slice_inv (tile_space (node_tile node))"
    "\<exists>sibs a sp. nodes = sibs @ [a] \<and> (\<forall>n \<in> set sibs. is_sibling n) \<and>
       node_relation a = Anchor sp \<and> root_rank (node_tile a) = root_rank t"
    using n(2) by (auto simp: good_split_def node_slices_def)
  moreover have "tile_ranks t = Inr (ranks (tile_space t))"
    by (simp add: tile_ranks_def slice_iter_eq)
  ultimately show ?thesis using n(1) r by blast
qed

theorem child_nodes_partition_witness:
  "\<exists>nodes. child_nodes (BoundedFanout 2) (Tile (new_row_major [2, 3])) = Some nodes \<and>
     (\<forall>node \<in> set nodes. slice_inv (tile_space (node_tile node)))"
proof -
  have "slice_inv (tile_space (Tile (new_row_major [2, 3])))" by (simp add: new_row_major_inv)
  moreover have "\<exists>n \<in> set (sizes (tile_space (Tile (new_row_major [2, 3])))). 1 < n" by code_simp
  ultimately show ?thesis
    using child_nodes_partition [of "Tile (new_row_major [2, 3])" "BoundedFanout 2"] by blast
qed

text \<open>C6: The communication children of a valid tile exist for every policy (no panic, the
  anchor contraction terminates), are valid and strictly smaller, and together with the root of
  the tile cover the ranks of the tile, each exactly once.\<close>

theorem children_partition:
  assumes "slice_inv (tile_space t)"
  shows "\<exists>cs rss rs. children p t = Some cs \<and>
    (\<forall>c \<in> set cs. slice_inv (tile_space c) \<and> rank_count c < rank_count t) \<and>
    map tile_ranks cs = map Inr rss \<and> tile_ranks t = Inr rs \<and>
    mset rs = add_mset (root_rank t) (mset (concat rss))"
proof -
  obtain cs where cs: "children p t = Some cs"
    "mset (ranks (tile_space t)) = add_mset (root_rank t) (mset (concat (map ranks (slices_of cs))))"
    using policy.kids_partition [OF assms] by blast
  moreover have "\<forall>c \<in> set cs. slice_inv (tile_space c) \<and> rank_count c < rank_count t"
    using policy.kids_shrink [OF assms cs(1)] by (simp add: rank_count_def)
  moreover have "map tile_ranks cs = map Inr (map ranks (slices_of cs))"
    "tile_ranks t = Inr (ranks (tile_space t))"
    by (simp_all add: tile_ranks_def slice_iter_eq slices_of_def)
  ultimately show ?thesis by blast
qed

theorem children_partition_witness:
  "\<exists>cs. children Bisection (Tile (new_row_major [2, 3])) = Some cs \<and>
     (\<forall>c \<in> set cs. slice_inv (tile_space c))"
  using children_partition [of "Tile (new_row_major [2, 3])" Bisection]
  by (simp add: new_row_major_inv) blast

text \<open>C33: \<open>BoundedFanout\<close> keeps its promise: a tile never has more communication children
  than the requested fan-out, or one per active dimension where that is more.\<close>

theorem bounded_fanout_cap:
  assumes "slice_inv (tile_space t)"
  shows "\<exists>cs. children (BoundedFanout f) t = Some cs \<and> length cs \<le> effective_fanout t f"
  using policy.kids_partition [OF assms, of "BoundedFanout f"] bounded_fanout_length [OF assms, of f]
  by blast

theorem bounded_fanout_cap_witness:
  "\<exists>cs. children (BoundedFanout 3) (Tile (new_row_major [4, 4])) = Some cs \<and> length cs \<le> 3"
proof -
  have "effective_fanout (Tile (new_row_major [4, 4])) 3 = 3" by code_simp
  moreover have "slice_inv (tile_space (Tile (new_row_major [4, 4])))" by (simp add: new_row_major_inv)
  ultimately show ?thesis
    using bounded_fanout_cap [of "Tile (new_row_major [4, 4])" 3] by simp
qed

end
