(* ===== verification/Addr.thy ===== *)
theory Addr
  imports Prelude "HOL-Library.List_Lexorder" "HOL-Library.Char_ord"
begin

text \<open>
  Identities of procs, actors and ports: \<open>hyperactor/src/id.rs\<close>, \<open>port.rs\<close> and
  \<open>addr.rs\<close>. Instance labels are display metadata: the hand-written \<open>Eq\<close> and
  \<open>Ord\<close> ignore them. The theory models the constructors, the accessors used for
  sequencing and the equality and order of each identity type, and shows that they satisfy
  the contract of Rust's \<open>Ord\<close>. Network locations are the type parameter \<open>'l\<close>.
\<close>

section \<open>Data\<close>

type_synonym label = string

datatype uid = Singleton label | Instance nat "label option"

record proc_id =
  proc_uid :: uid

record actor_id =
  actor_uid :: uid
  actor_proc :: proc_id

datatype control_port = Introspect | Signal | Status

datatype port = Ephemeral nat | Handler uid | Control control_port

record port_id =
  port_actor :: actor_id
  port_port :: port

record 'l actor_addr =
  actor_addr_id :: actor_id
  actor_addr_location :: 'l

record 'l port_addr =
  port_addr_id :: port_id
  port_addr_location :: 'l

section \<open>Operations\<close>

definition uid_label :: "uid \<Rightarrow> label option" where
  "uid_label u = (case u of Singleton l \<Rightarrow> Some l | Instance _ l \<Rightarrow> l)"

definition instance_value :: "uid \<Rightarrow> nat option" where
  "instance_value u = (case u of Singleton _ \<Rightarrow> None | Instance n _ \<Rightarrow> Some n)"

definition with_label :: "uid \<Rightarrow> label option \<Rightarrow> uid" where
  "with_label u l = (case u of
     Singleton l' \<Rightarrow> Singleton l'
   | Instance n existing \<Rightarrow> Instance n (case l of None \<Rightarrow> existing | Some x \<Rightarrow> Some x))"

definition proc_id_new :: "uid \<Rightarrow> label option \<Rightarrow> proc_id" where
  "proc_id_new u l = \<lparr>proc_uid = with_label u l\<rparr>"

definition actor_id_new :: "uid \<Rightarrow> proc_id \<Rightarrow> label option \<Rightarrow> actor_id" where
  "actor_id_new u p l = \<lparr>actor_uid = with_label u l, actor_proc = p\<rparr>"

definition port_is_ephemeral :: "port \<Rightarrow> bool" where
  "port_is_ephemeral p = (case p of Ephemeral _ \<Rightarrow> True | _ \<Rightarrow> False)"

definition port_is_handler :: "port \<Rightarrow> bool" where
  "port_is_handler p = (case p of Handler _ \<Rightarrow> True | _ \<Rightarrow> False)"

definition port_is_control :: "port \<Rightarrow> bool" where
  "port_is_control p = (case p of Control _ \<Rightarrow> True | _ \<Rightarrow> False)"

definition ephemeral_index :: "port \<Rightarrow> nat option" where
  "ephemeral_index p = (case p of Ephemeral i \<Rightarrow> Some i | _ \<Rightarrow> None)"

text \<open>\<open>None\<close> is the panic on a handler port that is named by a singleton.\<close>

definition port_as_u64 :: "port \<Rightarrow> nat option" where
  "port_as_u64 p = (case p of
     Ephemeral i \<Rightarrow> Some i
   | Handler u \<Rightarrow> instance_value u
   | Control Introspect \<Rightarrow> Some 0
   | Control Signal \<Rightarrow> Some 1
   | Control Status \<Rightarrow> Some 2)"

definition addr_port :: "'l port_addr \<Rightarrow> port" where
  "addr_port p = port_port (port_addr_id p)"

definition is_handler_port :: "'l port_addr \<Rightarrow> bool" where
  "is_handler_port p = port_is_handler (addr_port p)"

definition addr_actor :: "'l port_addr \<Rightarrow> 'l actor_addr" where
  "addr_actor p = \<lparr>actor_addr_id = port_actor (port_addr_id p),
     actor_addr_location = port_addr_location p\<rparr>"

section \<open>Equality and order\<close>

definition reverse :: "ordering \<Rightarrow> ordering" where
  "reverse c = (case c of Less \<Rightarrow> Greater | Equal \<Rightarrow> Equal | Greater \<Rightarrow> Less)"

definition then_with :: "ordering \<Rightarrow> ordering \<Rightarrow> ordering" where
  "then_with c d = (case c of Equal \<Rightarrow> d | _ \<Rightarrow> c)"

definition ord_cmp :: "'a :: linorder \<Rightarrow> 'a \<Rightarrow> ordering" where
  "ord_cmp a b = (if a < b then Less else if a = b then Equal else Greater)"

fun uid_eq :: "uid \<Rightarrow> uid \<Rightarrow> bool" where
  "uid_eq (Singleton a) (Singleton b) = (a = b)"
| "uid_eq (Instance a _) (Instance b _) = (a = b)"
| "uid_eq _ _ = False"

fun uid_cmp :: "uid \<Rightarrow> uid \<Rightarrow> ordering" where
  "uid_cmp (Singleton a) (Singleton b) = ord_cmp a b"
| "uid_cmp (Singleton _) (Instance _ _) = Less"
| "uid_cmp (Instance _ _) (Singleton _) = Greater"
| "uid_cmp (Instance a _) (Instance b _) = ord_cmp a b"

definition proc_id_eq :: "proc_id \<Rightarrow> proc_id \<Rightarrow> bool" where
  "proc_id_eq a b = uid_eq (proc_uid a) (proc_uid b)"

definition proc_id_cmp :: "proc_id \<Rightarrow> proc_id \<Rightarrow> ordering" where
  "proc_id_cmp a b = uid_cmp (proc_uid a) (proc_uid b)"

definition actor_id_eq :: "actor_id \<Rightarrow> actor_id \<Rightarrow> bool" where
  "actor_id_eq a b = (proc_id_eq (actor_proc a) (actor_proc b) \<and> uid_eq (actor_uid a) (actor_uid b))"

definition actor_id_cmp :: "actor_id \<Rightarrow> actor_id \<Rightarrow> ordering" where
  "actor_id_cmp a b =
     then_with (proc_id_cmp (actor_proc a) (actor_proc b)) (uid_cmp (actor_uid a) (actor_uid b))"

text \<open>The derived instances of \<open>ControlPort\<close> and \<open>Port\<close>: declaration order, then the fields.\<close>

definition control_port_tag :: "control_port \<Rightarrow> nat" where
  "control_port_tag p = (case p of Introspect \<Rightarrow> 0 | Signal \<Rightarrow> 1 | Status \<Rightarrow> 2)"

definition port_tag :: "port \<Rightarrow> nat" where
  "port_tag p = (case p of Ephemeral _ \<Rightarrow> 0 | Handler _ \<Rightarrow> 1 | Control _ \<Rightarrow> 2)"

fun port_eq :: "port \<Rightarrow> port \<Rightarrow> bool" where
  "port_eq (Ephemeral a) (Ephemeral b) = (a = b)"
| "port_eq (Handler a) (Handler b) = uid_eq a b"
| "port_eq (Control a) (Control b) = (a = b)"
| "port_eq _ _ = False"

fun port_cmp :: "port \<Rightarrow> port \<Rightarrow> ordering" where
  "port_cmp (Ephemeral a) (Ephemeral b) = ord_cmp a b"
| "port_cmp (Handler a) (Handler b) = uid_cmp a b"
| "port_cmp (Control a) (Control b) = ord_cmp (control_port_tag a) (control_port_tag b)"
| "port_cmp a b = ord_cmp (port_tag a) (port_tag b)"

definition port_id_eq :: "port_id \<Rightarrow> port_id \<Rightarrow> bool" where
  "port_id_eq a b = (actor_id_eq (port_actor a) (port_actor b) \<and> port_eq (port_port a) (port_port b))"

definition port_id_cmp :: "port_id \<Rightarrow> port_id \<Rightarrow> ordering" where
  "port_id_cmp a b =
     then_with (actor_id_cmp (port_actor a) (port_actor b)) (port_cmp (port_port a) (port_port b))"

definition actor_addr_eq :: "'l actor_addr \<Rightarrow> 'l actor_addr \<Rightarrow> bool" where
  "actor_addr_eq a b = (actor_id_eq (actor_addr_id a) (actor_addr_id b)
     \<and> actor_addr_location a = actor_addr_location b)"

definition actor_addr_cmp :: "'l :: linorder actor_addr \<Rightarrow> 'l actor_addr \<Rightarrow> ordering" where
  "actor_addr_cmp a b =
     then_with (actor_id_cmp (actor_addr_id a) (actor_addr_id b))
       (ord_cmp (actor_addr_location a) (actor_addr_location b))"

definition port_addr_eq :: "'l port_addr \<Rightarrow> 'l port_addr \<Rightarrow> bool" where
  "port_addr_eq a b = (port_id_eq (port_addr_id a) (port_addr_id b)
     \<and> port_addr_location a = port_addr_location b)"

definition port_addr_cmp :: "'l :: linorder port_addr \<Rightarrow> 'l port_addr \<Rightarrow> ordering" where
  "port_addr_cmp a b =
     then_with (port_id_cmp (port_addr_id a) (port_addr_id b))
       (ord_cmp (port_addr_location a) (port_addr_location b))"

section \<open>Canonical representatives\<close>

text \<open>
  A hash map keyed by an identity compares with the equality above. The model of such a map
  is keyed by the canonical representative of the class, in which instance labels are erased.
\<close>

definition uid_key :: "uid \<Rightarrow> uid" where
  "uid_key u = (case u of Singleton l \<Rightarrow> Singleton l | Instance n _ \<Rightarrow> Instance n None)"

definition actor_id_key :: "actor_id \<Rightarrow> actor_id" where
  "actor_id_key a = \<lparr>actor_uid = uid_key (actor_uid a),
     actor_proc = \<lparr>proc_uid = uid_key (proc_uid (actor_proc a))\<rparr>\<rparr>"

definition port_key :: "port \<Rightarrow> port" where
  "port_key p = (case p of Handler u \<Rightarrow> Handler (uid_key u) | _ \<Rightarrow> p)"

definition actor_addr_key :: "'l actor_addr \<Rightarrow> 'l actor_addr" where
  "actor_addr_key a = \<lparr>actor_addr_id = actor_id_key (actor_addr_id a),
     actor_addr_location = actor_addr_location a\<rparr>"

definition port_addr_key :: "'l port_addr \<Rightarrow> 'l port_addr" where
  "port_addr_key p = \<lparr>port_addr_id = \<lparr>port_actor = actor_id_key (port_actor (port_addr_id p)),
       port_port = port_key (port_port (port_addr_id p))\<rparr>,
     port_addr_location = port_addr_location p\<rparr>"

lemma uid_key_eq_iff [simp]: "uid_key a = uid_key b \<longleftrightarrow> uid_eq a b"
  by (cases a; cases b) (auto simp: uid_key_def)

lemma actor_id_key_eq_iff [simp]: "actor_id_key a = actor_id_key b \<longleftrightarrow> actor_id_eq a b"
  by (auto simp: actor_id_key_def actor_id_eq_def proc_id_eq_def)

lemma port_key_eq_iff [simp]: "port_key a = port_key b \<longleftrightarrow> port_eq a b"
  by (cases a; cases b) (auto simp: port_key_def)

lemma actor_addr_key_eq_iff [simp]: "actor_addr_key a = actor_addr_key b \<longleftrightarrow> actor_addr_eq a b"
  by (auto simp: actor_addr_key_def actor_addr_eq_def)

lemma port_addr_key_eq_iff [simp]: "port_addr_key a = port_addr_key b \<longleftrightarrow> port_addr_eq a b"
  by (auto simp: port_addr_key_def port_addr_eq_def port_id_eq_def)

section \<open>The contract of \<open>Ord\<close>\<close>

locale ord_contract =
  fixes cmp :: "'a \<Rightarrow> 'a \<Rightarrow> ordering"
    and eq :: "'a \<Rightarrow> 'a \<Rightarrow> bool"
  assumes cmp_Equal: "cmp a b = Equal \<longleftrightarrow> eq a b"
    and cmp_reverse: "cmp b a = reverse (cmp a b)"
    and cmp_trans: "cmp a b = Less \<Longrightarrow> cmp b c = Less \<Longrightarrow> cmp a c = Less"
    and cmp_cong: "eq a b \<Longrightarrow> cmp a c = cmp b c"
begin

lemma eq_refl: "eq a a"
  using cmp_reverse [of a a] cmp_Equal [of a a] by (cases "cmp a a") (auto simp: reverse_def)

lemma eq_sym: "eq a b \<Longrightarrow> eq b a"
  using cmp_reverse [of b a] cmp_Equal [of a b] cmp_Equal [of b a] by (auto simp: reverse_def)

lemma eq_trans: "eq a b \<Longrightarrow> eq b c \<Longrightarrow> eq a c"
  using cmp_cong [of a b c] cmp_Equal [of a c] cmp_Equal [of b c] by simp

lemma cmp_Greater: "cmp a b = Greater \<longleftrightarrow> cmp b a = Less"
  using cmp_reverse [of b a] by (cases "cmp a b") (auto simp: reverse_def)

lemma cmp_cong_right: "eq a b \<Longrightarrow> cmp c a = cmp c b"
  using cmp_cong [of a b c] cmp_reverse [of c a] cmp_reverse [of c b] by simp

text \<open>Exactly one of less, equal and greater holds.\<close>

lemma trichotomy:
  "(cmp a b = Less \<and> \<not> eq a b \<and> cmp b a = Greater) \<or>
   (eq a b \<and> cmp a b = Equal \<and> cmp b a = Equal) \<or>
   (cmp a b = Greater \<and> \<not> eq a b \<and> cmp b a = Less)"
  using cmp_Equal [of a b] cmp_reverse [of b a] by (cases "cmp a b") (auto simp: reverse_def)

end

lemma ord_cmp_contract: "ord_contract (ord_cmp :: 'a :: linorder \<Rightarrow> _) (=)"
  by unfold_locales (auto simp: ord_cmp_def reverse_def split: if_splits)

text \<open>Lexicographic combination of two orders through projections.\<close>

lemma then_with_contract:
  assumes "ord_contract c e" "ord_contract c' e'"
  shows "ord_contract (\<lambda>a b. then_with (c (f a) (f b)) (c' (g a) (g b)))
    (\<lambda>a b. e (f a) (f b) \<and> e' (g a) (g b))"
proof -
  have c: "c x y = Equal \<longleftrightarrow> e x y" "c y x = reverse (c x y)"
    "c x y = Less \<Longrightarrow> c y z = Less \<Longrightarrow> c x z = Less" "e x y \<Longrightarrow> c x z = c y z"
    "e x y \<Longrightarrow> c z x = c z y" for x y z
    using assms(1) by (blast dest: ord_contract.cmp_Equal ord_contract.cmp_reverse
        ord_contract.cmp_trans ord_contract.cmp_cong ord_contract.cmp_cong_right)+
  have d: "c' x y = Equal \<longleftrightarrow> e' x y" "c' y x = reverse (c' x y)"
    "c' x y = Less \<Longrightarrow> c' y z = Less \<Longrightarrow> c' x z = Less" "e' x y \<Longrightarrow> c' x z = c' y z" for x y z
    using assms(2) by (blast dest: ord_contract.cmp_Equal ord_contract.cmp_reverse
        ord_contract.cmp_trans ord_contract.cmp_cong)+
  show ?thesis
  proof
    fix a b cc
    show "then_with (c (f a) (f b)) (c' (g a) (g b)) = Equal \<longleftrightarrow> e (f a) (f b) \<and> e' (g a) (g b)"
      using c(1) [of "f a" "f b"] d(1) [of "g a" "g b"]
      by (auto simp: then_with_def split: ordering.splits)
    show "then_with (c (f b) (f a)) (c' (g b) (g a)) =
        reverse (then_with (c (f a) (f b)) (c' (g a) (g b)))"
      using c(2) [of "f b" "f a"] d(2) [of "g b" "g a"]
      by (auto simp: then_with_def reverse_def split: ordering.splits)
    assume "e (f a) (f b) \<and> e' (g a) (g b)"
    then show "then_with (c (f a) (f cc)) (c' (g a) (g cc)) =
        then_with (c (f b) (f cc)) (c' (g b) (g cc))"
      using c(4) d(4) by metis
  next
    fix a b cc
    assume ab: "then_with (c (f a) (f b)) (c' (g a) (g b)) = Less"
      and bc: "then_with (c (f b) (f cc)) (c' (g b) (g cc)) = Less"
    show "then_with (c (f a) (f cc)) (c' (g a) (g cc)) = Less"
    proof (cases "c (f a) (f b)")
      case Less
      then have "c (f a) (f cc) = Less"
        using bc c(1) [of "f b" "f cc"] c(3) [of "f a" "f b" "f cc"] c(5) [of "f b" "f cc" "f a"]
        by (auto simp: then_with_def split: ordering.splits)
      then show ?thesis by (simp add: then_with_def)
    next
      case Equal
      with ab have "c' (g a) (g b) = Less" by (simp add: then_with_def)
      moreover have "c (f a) (f cc) = c (f b) (f cc)"
        using Equal c(1) [of "f a" "f b"] c(4) [of "f a" "f b" "f cc"] by simp
      ultimately show ?thesis
        using bc d(3) by (auto simp: then_with_def split: ordering.splits)
    qed (use ab in \<open>simp add: then_with_def\<close>)
  qed
qed

interpretation uid_ord: ord_contract uid_cmp uid_eq
proof
  fix a b c
  show "uid_cmp a b = Equal \<longleftrightarrow> uid_eq a b"
    by (cases a; cases b) (auto simp: ord_cmp_def)
  show "uid_cmp b a = reverse (uid_cmp a b)"
    by (cases a; cases b) (auto simp: ord_cmp_def reverse_def)
  show "uid_cmp a b = Less \<Longrightarrow> uid_cmp b c = Less \<Longrightarrow> uid_cmp a c = Less"
    by (cases a; cases b; cases c) (auto simp: ord_cmp_def split: if_splits)
  show "uid_eq a b \<Longrightarrow> uid_cmp a c = uid_cmp b c"
    by (cases a; cases b; cases c) auto
qed

lemma then_with_contractI:
  assumes "ord_contract c e" "ord_contract c' e'"
    and "\<And>a b. cmp a b = then_with (c (f a) (f b)) (c' (g a) (g b))"
    and "\<And>a b. eq a b \<longleftrightarrow> e (f a) (f b) \<and> e' (g a) (g b)"
  shows "ord_contract cmp eq"
proof -
  have "cmp = (\<lambda>a b. then_with (c (f a) (f b)) (c' (g a) (g b)))"
    "eq = (\<lambda>a b. e (f a) (f b) \<and> e' (g a) (g b))"
    using assms(3,4) by blast+
  then show ?thesis using then_with_contract [OF assms(1,2)] by simp
qed

interpretation proc_id_ord: ord_contract proc_id_cmp proc_id_eq
  by unfold_locales (auto simp: proc_id_cmp_def proc_id_eq_def uid_ord.cmp_Equal
      dest: uid_ord.cmp_trans uid_ord.cmp_cong intro: uid_ord.cmp_reverse)

interpretation actor_id_ord: ord_contract actor_id_cmp actor_id_eq
  by (rule then_with_contractI [OF proc_id_ord.ord_contract_axioms uid_ord.ord_contract_axioms])
    (rule actor_id_cmp_def actor_id_eq_def)+

interpretation port_ord: ord_contract port_cmp port_eq
proof
  fix a b c
  show "port_cmp a b = Equal \<longleftrightarrow> port_eq a b"
    by (cases a; cases b)
      (auto simp: ord_cmp_def port_tag_def control_port_tag_def uid_ord.cmp_Equal
        split: control_port.splits)
  show "port_cmp b a = reverse (port_cmp a b)"
    by (cases a; cases b)
      (auto simp: ord_cmp_def port_tag_def reverse_def [of Less] reverse_def [of Greater]
        reverse_def [of Equal] intro: uid_ord.cmp_reverse)
  show "port_cmp a b = Less \<Longrightarrow> port_cmp b c = Less \<Longrightarrow> port_cmp a c = Less"
    by (cases a; cases b; cases c)
      (auto simp: ord_cmp_def port_tag_def dest: uid_ord.cmp_trans split: if_splits)
  show "port_eq a b \<Longrightarrow> port_cmp a c = port_cmp b c"
    by (cases a; cases b; cases c) (auto simp: port_tag_def dest: uid_ord.cmp_cong)
qed

interpretation port_id_ord: ord_contract port_id_cmp port_id_eq
  by (rule then_with_contractI [OF actor_id_ord.ord_contract_axioms port_ord.ord_contract_axioms])
    (rule port_id_cmp_def port_id_eq_def)+

interpretation actor_addr_ord:
  ord_contract "actor_addr_cmp :: 'l :: linorder actor_addr \<Rightarrow> _" actor_addr_eq
  by (rule then_with_contractI [OF actor_id_ord.ord_contract_axioms ord_cmp_contract])
    (rule actor_addr_cmp_def actor_addr_eq_def)+

interpretation port_addr_ord:
  ord_contract "port_addr_cmp :: 'l :: linorder port_addr \<Rightarrow> _" port_addr_eq
  by (rule then_with_contractI [OF port_id_ord.ord_contract_axioms ord_cmp_contract])
    (rule port_addr_cmp_def port_addr_eq_def)+

section \<open>Properties\<close>

text \<open>The hand-written equality and order of port addresses (and through them of uids, procs,
  actors and ports) satisfy the contract of \<open>Ord\<close>: exactly one of less, equal and greater,
  mirrored when the arguments are swapped, transitive; relabelling an instance uid changes
  neither.\<close>

theorem port_addr_order:
  fixes a b c :: "'l :: linorder port_addr"
  shows "(port_addr_cmp a b = Equal \<longleftrightarrow> port_addr_eq a b) \<and>
    port_addr_cmp b a = reverse (port_addr_cmp a b) \<and>
    \<not> (port_addr_cmp a b = Less \<and> port_addr_cmp b c = Less \<and> port_addr_cmp a c \<noteq> Less) \<and>
    uid_eq (with_label u l) u"
proof -
  have "uid_eq (with_label u l) u" by (cases u) (simp_all add: with_label_def)
  then show ?thesis
    using port_addr_ord.cmp_Equal [of a b] port_addr_ord.cmp_reverse [of b a]
      port_addr_ord.cmp_trans [of a b c] by blast
qed

end
