(* ===== verification/Ordering.thy ===== *)
theory Ordering
  imports Addr
begin

text \<open>
  Model of \<open>hyperactor/src/ordering.rs\<close>: the sender side of message ordering. A
  \<open>Sequencer\<close> numbers the messages of one session per destination key; handler ports of an
  actor share one key, ephemeral ports have their own, control ports bypass sequencing. The
  shared map behind \<open>Arc<Mutex<..>>\<close> is passed explicitly: every operation holds the lock
  for its whole effect, except \<open>assign_seqs\<close>, which takes it once per chunk; the chunks are
  modelled, with no other thread running between them. Sequence numbers are \<open>u64\<close>
  counters that start at 0 and only grow by one, so they are \<open>nat\<close>.
\<close>

section \<open>Data\<close>

type_synonym uuid = nat

datatype 'l seq_key = Actor "'l actor_addr" | Port "'l port_addr"

datatype seq_info = Session uuid nat | Direct

record 'l sequencer =
  session_id :: uuid
  last_seqs :: "'l seq_key \<rightharpoonup> nat"

record 'l session_snapshot =
  snap_session :: uuid
  snap_sender :: "'l actor_addr option"
  last_released_seq :: nat
  expected_next_seq :: nat
  buffered_count :: nat
  oldest_buffered_seq :: "nat option"
  newest_buffered_seq :: "nat option"

record 'l ordering_snapshot =
  enabled :: bool
  sessions :: "'l session_snapshot list"
  skipped_session_count :: nat

section \<open>Snapshots\<close>

definition is_complete :: "'l ordering_snapshot \<Rightarrow> bool" where
  "is_complete s = (skipped_session_count s = 0)"

text \<open>\<open>DeliveryProgress\<close> has the one field \<open>largest_dequeueable_sequence\<close>.\<close>

definition delivery_progress_for_session :: "'l ordering_snapshot \<Rightarrow> uuid \<Rightarrow> nat option" where
  "delivery_progress_for_session s sid =
     (if \<not> enabled s \<or> \<not> is_complete s then None
      else Some (case find (\<lambda>x. snap_session x = sid) (sessions s) of
                   None \<Rightarrow> 0 | Some x \<Rightarrow> last_released_seq x))"

section \<open>Keys\<close>

definition for_handler :: "'l actor_addr \<Rightarrow> 'l seq_key" where
  "for_handler a = Actor (actor_addr_key a)"

definition for_ephemeral_port :: "'l port_addr \<Rightarrow> 'l seq_key option" where
  "for_ephemeral_port p =
     (if port_is_ephemeral (addr_port p) then Some (Port (port_addr_key p)) else None)"

definition is_valid :: "seq_info \<Rightarrow> bool" where
  "is_valid i = (case i of Session _ s \<Rightarrow> s \<noteq> 0 | Direct \<Rightarrow> True)"

definition seq_key :: "'l port_addr \<Rightarrow> 'l seq_key option" where
  "seq_key p =
     (if port_is_control (addr_port p) then None
      else if is_handler_port p then Some (for_handler (addr_actor p))
      else for_ephemeral_port p)"

section \<open>Assignment\<close>

definition sequencer_new :: "uuid \<Rightarrow> 'l sequencer" where
  "sequencer_new sid = \<lparr>session_id = sid, last_seqs = Map.empty\<rparr>"

definition or_default :: "nat option \<Rightarrow> nat" where
  "or_default x = (case x of None \<Rightarrow> 0 | Some n \<Rightarrow> n)"

definition assign_seq :: "'l sequencer \<Rightarrow> 'l port_addr \<Rightarrow> seq_info \<times> 'l sequencer" where
  "assign_seq s p =
     (case seq_key p of
        None \<Rightarrow> (Direct, s)
      | Some key \<Rightarrow>
          (let entry = or_default (last_seqs s key) + 1
           in (Session (session_id s) entry, s\<lparr>last_seqs := (last_seqs s)(key \<mapsto> entry)\<rparr>)))"

definition last_sent :: "'l sequencer \<Rightarrow> 'l port_addr \<Rightarrow> nat option" where
  "last_sent s p = (case seq_key p of None \<Rightarrow> None | Some key \<Rightarrow> last_seqs s key)"

definition last_sent_to_actor :: "'l sequencer \<Rightarrow> 'l actor_addr \<Rightarrow> nat" where
  "last_sent_to_actor s a = or_default (last_seqs s (for_handler a))"

text \<open>The locals of \<open>assign_seqs\<close>: the runs pushed so far and the open run.\<close>

record run_state =
  runs :: "((nat \<times> nat) \<times> nat) list"
  run_start :: nat
  prev :: "nat option"
  run_ordinal :: nat

definition push_seq :: "run_state \<Rightarrow> nat \<Rightarrow> run_state" where
  "push_seq st s =
     (let st1 = (case prev st of
          Some p \<Rightarrow> if p \<noteq> s
            then st\<lparr>runs := runs st @ [((run_start st, run_ordinal st), p)], run_start := run_ordinal st\<rparr>
            else st
        | None \<Rightarrow> st)
      in st1\<lparr>prev := Some s, run_ordinal := run_ordinal st1 + 1\<rparr>)"

fun assign_chunk ::
  "('l seq_key \<rightharpoonup> nat) \<times> run_state \<Rightarrow> 'l seq_key list \<Rightarrow> ('l seq_key \<rightharpoonup> nat) \<times> run_state" where
  "assign_chunk (guard, st) [] = (guard, st)"
| "assign_chunk (guard, st) (key # keys) =
     (let s = (case guard key of Some n \<Rightarrow> n + 1 | None \<Rightarrow> 1)
      in assign_chunk (guard(key \<mapsto> s), push_seq st s) keys)"

text \<open>\<open>slice::chunks\<close>. The configured chunk size is a \<open>NonZeroUsize\<close>.\<close>

function chunks :: "nat \<Rightarrow> 'a list \<Rightarrow> 'a list list" where
  "chunks n xs = (if xs = [] \<or> n = 0 then [] else take n xs # chunks n (drop n xs))"
  by pat_completeness auto
termination
  by (relation "measure (\<lambda>(n, xs). length xs)") auto

declare chunks.simps [simp del]

definition assign_seqs ::
  "nat \<Rightarrow> 'l sequencer \<Rightarrow> 'l seq_key list \<Rightarrow> ((nat \<times> nat) \<times> nat) list \<times> 'l sequencer" where
  "assign_seqs max_locked s keys =
     (let (guard, st) = foldl assign_chunk
            (last_seqs s, \<lparr>runs = [], run_start = 0, prev = None, run_ordinal = 0\<rparr>)
            (chunks max_locked keys);
          rs = (case prev st of None \<Rightarrow> runs st
                | Some p \<Rightarrow> runs st @ [((run_start st, length keys), p)])
      in (rs, s\<lparr>last_seqs := guard\<rparr>))"

section \<open>One key at a time\<close>

text \<open>The reference: number the keys one by one, as repeated calls of \<open>assign_seq\<close> do.\<close>

fun number_keys :: "('k \<rightharpoonup> nat) \<Rightarrow> 'k list \<Rightarrow> nat list \<times> ('k \<rightharpoonup> nat)" where
  "number_keys m [] = ([], m)"
| "number_keys m (k # ks) =
     (let s = or_default (m k) + 1; (ss, m') = number_keys (m(k \<mapsto> s)) ks in (s # ss, m'))"

fun assign_ports :: "'l sequencer \<Rightarrow> 'l port_addr list \<Rightarrow> seq_info list \<times> 'l sequencer" where
  "assign_ports s [] = ([], s)"
| "assign_ports s (p # ps) =
     (let (i, s1) = assign_seq s p; (is, s2) = assign_ports s1 ps in (i # is, s2))"

lemma or_default_simps [simp]: "or_default None = 0" "or_default (Some n) = n"
  by (simp_all add: or_default_def)

lemma number_keys_Cons:
  "number_keys m (k # ks) =
     ((or_default (m k) + 1) # fst (number_keys (m(k \<mapsto> or_default (m k) + 1)) ks),
      snd (number_keys (m(k \<mapsto> or_default (m k) + 1)) ks))"
  by (simp add: Let_def split: prod.splits)

declare number_keys.simps(2) [simp del]
declare number_keys_Cons [simp]

lemma length_number_keys: "length (fst (number_keys m ks)) = length ks"
  by (induction ks arbitrary: m) simp_all

text \<open>Each occurrence of a key gets the next number of that key.\<close>

lemma number_keys_nth:
  "i < length ks \<Longrightarrow>
   fst (number_keys m ks) ! i = or_default (m (ks ! i)) + count (mset (take (Suc i) ks)) (ks ! i)"
proof (induction ks arbitrary: m i)
  case (Cons k ks)
  show ?case
  proof (cases i)
    case 0
    then show ?thesis by simp
  next
    case (Suc j)
    with Cons.prems have "j < length ks" by simp
    from Cons.IH [OF this, of "m(k \<mapsto> or_default (m k) + 1)"] show ?thesis
      using Suc by (auto simp flip: fun_upd_def)
  qed
qed simp

lemma number_keys_map:
  "or_default (snd (number_keys m ks) k) = or_default (m k) + count (mset ks) k"
  by (induction ks arbitrary: m) simp_all

lemma number_keys_append:
  "number_keys m (xs @ ys) =
     (fst (number_keys m xs) @ fst (number_keys (snd (number_keys m xs)) ys),
      snd (number_keys (snd (number_keys m xs)) ys))"
  by (induction xs arbitrary: m) simp_all

section \<open>Runs\<close>

definition run_inv :: "run_state \<Rightarrow> nat list \<Rightarrow> bool" where
  "run_inv st ss \<longleftrightarrow> run_ordinal st = length ss \<and>
     (case prev st of
        None \<Rightarrow> ss = [] \<and> runs st = [] \<and> run_start st = 0
      | Some p \<Rightarrow> tiles 0 (run_start st) (runs st) \<and> run_start st < length ss \<and>
          ss = expand_runs (runs st) @ replicate (length ss - run_start st) p \<and>
          successively (\<lambda>x y. snd x \<noteq> snd y) (runs st @ [((run_start st, length ss), p)]))"

lemma run_invI:
  assumes "prev st = Some p" "run_ordinal st = length ss" "tiles 0 (run_start st) (runs st)"
    "run_start st < length ss"
    "ss = expand_runs (runs st) @ replicate (length ss - run_start st) p"
    "successively (\<lambda>x y. snd x \<noteq> snd y) (runs st @ [((run_start st, length ss), p)])"
  shows "run_inv st ss"
  using assms by (simp add: run_inv_def)

lemma push_seq_inv:
  assumes "run_inv st ss"
  shows "run_inv (push_seq st s) (ss @ [s])"
proof (cases "prev st")
  case None
  with assms show ?thesis by (simp add: run_inv_def push_seq_def expand_runs_def)
next
  case (Some p)
  note inv = assms [unfolded run_inv_def, simplified Some, simplified]
  show ?thesis
  proof (cases "p = s")
    case True
    have "Suc (length ss) - run_start st = Suc (length ss - run_start st)"
      using inv by (simp only: Suc_diff_le less_imp_le)
    then have eq: "ss @ [s] =
        expand_runs (runs st) @ replicate (length (ss @ [s]) - run_start st) p"
      using inv True by (metis append.assoc length_append_singleton replicate_append_same replicate_Suc)
    have push: "push_seq st s = st\<lparr>prev := Some p, run_ordinal := Suc (run_ordinal st)\<rparr>"
      using Some True by (simp add: push_seq_def)
    have "successively (\<lambda>x y. snd x \<noteq> snd y) (runs st @ [((run_start st, length (ss @ [s])), p)])"
      "run_start st < length (ss @ [s])"
      using inv by (simp_all only: successively_append_iff) auto
    moreover have "prev (push_seq st s) = Some p" "run_ordinal (push_seq st s) = length (ss @ [s])"
      and sel: "runs (push_seq st s) = runs st" "run_start (push_seq st s) = run_start st"
      using inv by (simp_all add: push)
    ultimately show ?thesis
      using inv eq by (intro run_invI) (simp_all only: sel)
  next
    case False
    then show ?thesis
      using inv Some
      by (auto simp: run_inv_def push_seq_def tiles_snoc successively_append_iff)
  qed
qed

lemma assign_chunk_number:
  assumes "run_inv st ss"
  shows "\<exists>st'. assign_chunk (guard, st) ks = (snd (number_keys guard ks), st') \<and>
    run_inv st' (ss @ fst (number_keys guard ks))"
  using assms
proof (induction ks arbitrary: guard st ss)
  case (Cons k ks)
  let ?s = "or_default (guard k) + 1"
  have "(case guard k of Some n \<Rightarrow> n + 1 | None \<Rightarrow> 1) = ?s"
    by (simp split: option.splits)
  moreover note Cons.IH [OF push_seq_inv [OF Cons.prems, of ?s], of "guard(k \<mapsto> ?s)"]
  ultimately show ?case by (simp del: fun_upd_apply)
qed simp

lemma concat_chunks: "0 < n \<Longrightarrow> concat (chunks n xs) = xs"
proof (induction n xs rule: chunks.induct)
  case (1 n xs)
  then show ?case by (subst chunks.simps) auto
qed

lemma foldl_assign_chunk:
  assumes "run_inv st ss"
  shows "\<exists>st'. foldl assign_chunk (guard, st) kss = (snd (number_keys guard (concat kss)), st') \<and>
    run_inv st' (ss @ fst (number_keys guard (concat kss)))"
  using assms
proof (induction kss arbitrary: guard st ss)
  case (Cons ks kss)
  from assign_chunk_number [OF Cons.prems, of guard ks] obtain st1 where
    "assign_chunk (guard, st) ks = (snd (number_keys guard ks), st1)"
    "run_inv st1 (ss @ fst (number_keys guard ks))" by blast
  with Cons.IH [of st1 "ss @ fst (number_keys guard ks)" "snd (number_keys guard ks)"]
  show ?case
    by (simp add: number_keys_append)
qed simp

lemma assign_seqs_spec:
  assumes "0 < max_locked" "assign_seqs max_locked s keys = (rs, s')"
  shows "expand_runs rs = fst (number_keys (last_seqs s) keys)"
    and "s' = s\<lparr>last_seqs := snd (number_keys (last_seqs s) keys)\<rparr>"
    and "tiles 0 (length keys) rs"
    and "successively (\<lambda>x y. snd x \<noteq> snd y) rs"
proof -
  let ?init = "\<lparr>runs = [], run_start = 0, prev = None, run_ordinal = 0\<rparr>"
  have "run_inv ?init []" by (simp add: run_inv_def)
  from foldl_assign_chunk [OF this, of "last_seqs s" "chunks max_locked keys"] obtain st where
    st: "foldl assign_chunk (last_seqs s, ?init) (chunks max_locked keys) =
      (snd (number_keys (last_seqs s) keys), st)"
    "run_inv st (fst (number_keys (last_seqs s) keys))"
    using concat_chunks [OF assms(1), of keys] by auto
  have rs: "rs = (case prev st of None \<Rightarrow> runs st
      | Some p \<Rightarrow> runs st @ [((run_start st, length keys), p)])"
    "s' = s\<lparr>last_seqs := snd (number_keys (last_seqs s) keys)\<rparr>"
    using assms(2) st(1) by (auto simp: assign_seqs_def)
  then show "s' = s\<lparr>last_seqs := snd (number_keys (last_seqs s) keys)\<rparr>" by simp
  show "expand_runs rs = fst (number_keys (last_seqs s) keys)" "tiles 0 (length keys) rs"
    "successively (\<lambda>x y. snd x \<noteq> snd y) rs"
    using st(2) rs(1) length_number_keys [of "last_seqs s" keys]
    by (auto simp: run_inv_def tiles_snoc expand_runs_def split: option.splits)
qed

section \<open>Agreement with one-by-one assignment\<close>

lemma assign_ports_number:
  assumes "map seq_key ps = map Some keys"
  shows "assign_ports s ps =
    (map (Session (session_id s)) (fst (number_keys (last_seqs s) keys)),
     s\<lparr>last_seqs := snd (number_keys (last_seqs s) keys)\<rparr>)"
  using assms
proof (induction ps arbitrary: keys s)
  case (Cons p ps)
  then obtain k ks where "keys = k # ks" "seq_key p = Some k" "map seq_key ps = map Some ks"
    by (cases keys) auto
  with Cons.IH [of ks] show ?case
    by (auto simp: assign_seq_def Let_def split: prod.splits)
qed simp

text \<open>The number of earlier messages under the same key decides the next number.\<close>

lemma assign_ports_nth:
  "i < length ps \<Longrightarrow> fst (assign_ports s ps) ! i =
     (case seq_key (ps ! i) of
        None \<Rightarrow> Direct
      | Some k \<Rightarrow> Session (session_id s)
          (or_default (last_seqs s k) + count (mset (map seq_key (take (Suc i) ps))) (Some k)))"
proof (induction ps arbitrary: s i)
  case (Cons p ps)
  obtain info s1 where s1: "assign_seq s p = (info, s1)" by (cases "assign_seq s p")
  have sid: "session_id s1 = session_id s"
    using s1 by (auto simp: assign_seq_def Let_def split: option.splits)
  have unfold: "fst (assign_ports s (p # ps)) = info # fst (assign_ports s1 ps)"
    using s1 by (simp add: case_prod_unfold Let_def)
  have last: "or_default (last_seqs s1 k) =
      or_default (last_seqs s k) + (if seq_key p = Some k then 1 else 0)" for k
    using s1 by (auto simp: assign_seq_def Let_def split: option.splits)
  show ?case
  proof (cases i)
    case 0
    then show ?thesis
      using s1 unfold by (auto simp: assign_seq_def Let_def split: option.splits)
  next
    case (Suc j)
    with Cons.prems have "j < length ps" by simp
    from Cons.IH [OF this, of s1] show ?thesis
      using Suc unfold by (auto simp: sid last split: option.splits)
  qed
qed simp

section \<open>Properties\<close>

text \<open>C24: \<open>assign_seqs\<close>, which works on run-length encoded chunks under the lock, assigns
  exactly the numbers that one \<open>assign_seq\<close> per destination would, in the same order and
  with the same final counters, whatever the chunk size; its runs are nonempty, cover the
  input without gaps, and neighbouring runs differ.\<close>

theorem assign_seqs_agrees:
  assumes "0 < max_locked" "map seq_key ps = map Some keys"
  shows "\<exists>rs s'. assign_seqs max_locked s keys = (rs, s') \<and>
    assign_ports s ps = (map (Session (session_id s)) (expand_runs rs), s') \<and>
    tiles 0 (length keys) rs \<and> successively (\<lambda>x y. snd x \<noteq> snd y) rs"
proof -
  obtain rs s' where r: "assign_seqs max_locked s keys = (rs, s')"
    by (cases "assign_seqs max_locked s keys")
  show ?thesis
    using assign_seqs_spec [OF assms(1) r] assign_ports_number [OF assms(2), of s] r by auto
qed

definition port_at :: "nat \<Rightarrow> port \<Rightarrow> nat port_addr" where
  "port_at n p = \<lparr>port_addr_id = \<lparr>port_actor = \<lparr>actor_uid = Instance n None,
     actor_proc = \<lparr>proc_uid = Singleton ''p''\<rparr>\<rparr>, port_port = p\<rparr>, port_addr_location = 0\<rparr>"

theorem assign_seqs_agrees_witness:
  "\<exists>rs s'. assign_seqs 1 (sequencer_new 7) [for_handler (addr_actor (port_at 0 (Handler (Instance 4 None))))] = (rs, s') \<and>
     assign_ports (sequencer_new 7) [port_at 0 (Handler (Instance 4 None))] =
       (map (Session 7) (expand_runs rs), s')"
proof -
  have "map seq_key [port_at 0 (Handler (Instance 4 None))] =
      map Some [for_handler (addr_actor (port_at 0 (Handler (Instance 4 None))))]"
    by (simp add: seq_key_def port_at_def addr_port_def port_is_control_def is_handler_port_def
        port_is_handler_def)
  from assign_seqs_agrees [OF _ this, of 1 "sequencer_new 7"] show ?thesis
    by (auto simp: sequencer_new_def)
qed

text \<open>The numbers of a session are consecutive per destination: the \<open>i\<close>-th message gets
  one more than the messages numbered before it under its key, starting from the stored
  counter; messages to control ports are not numbered and do not disturb the counters.\<close>

theorem assign_seq_consecutive:
  assumes "i < length ps"
  shows "fst (assign_ports s ps) ! i =
    (case seq_key (ps ! i) of
       None \<Rightarrow> Direct
     | Some k \<Rightarrow> Session (session_id s)
         (or_default (last_seqs s k) + length (filter (\<lambda>p. seq_key p = Some k) (take (Suc i) ps))))"
proof -
  have "count (mset (map seq_key qs)) (Some k) = length (filter (\<lambda>p. seq_key p = Some k) qs)"
    for qs :: "'a port_addr list" and k
    by (induction qs) auto
  with assign_ports_nth [OF assms] show ?thesis by (simp split: option.splits)
qed

theorem assign_seq_consecutive_witness:
  "fst (assign_ports (sequencer_new 7) [port_at 0 (Ephemeral 1), port_at 0 (Control Signal),
     port_at 0 (Ephemeral 1)]) ! 2 = Session 7 2"
  using assign_seq_consecutive [of 2 "[port_at 0 (Ephemeral 1), port_at 0 (Control Signal),
     port_at 0 (Ephemeral 1)]" "sequencer_new 7"]
  by (simp add: seq_key_def port_at_def addr_port_def port_is_control_def is_handler_port_def
      port_is_handler_def for_ephemeral_port_def port_is_ephemeral_def sequencer_new_def numeral_2_eq_2)

text \<open>Two destinations share a counter exactly when both are handler ports of the same
  actor, or are the same ephemeral port (up to display labels); control ports have none.\<close>

theorem seq_key_shared:
  "(seq_key p = None \<longleftrightarrow> port_is_control (addr_port p)) \<and>
   (seq_key p \<noteq> None \<and> seq_key p = seq_key q \<longleftrightarrow>
      (port_is_handler (addr_port p) \<and> port_is_handler (addr_port q) \<and>
         actor_addr_eq (addr_actor p) (addr_actor q)) \<or>
      (port_is_ephemeral (addr_port p) \<and> port_is_ephemeral (addr_port q) \<and> port_addr_eq p q))"
  by (cases "addr_port p"; cases "addr_port q")
    (auto simp: seq_key_def is_handler_port_def port_is_handler_def port_is_control_def
      port_is_ephemeral_def for_ephemeral_port_def for_handler_def)

end
