(* ===== verification/Sequenced.thy ===== *)
theory Sequenced
  imports Ordering
begin

text \<open>
  Model of \<open>hyperactor/src/sequenced.rs\<close>: the receiver side of message ordering. A
  \<open>Buffer\<close> holds future messages in a ring of at most 32 slots and a sparse spillover map, a
  per-session sequencer releases them in order, and \<open>SequencedReceiver\<close> pulls items from
  the channel until one is deliverable. A failed \<open>assert!\<close>, an index out of bounds and
  an underflow are \<open>None\<close>. \<open>BTreeMap\<close> is a strictly sorted association list.
  Sequence numbers are \<open>nat\<close>: the counter grows by one from 1.
\<close>

section \<open>Data\<close>

definition RING_BUFFER_LIMIT :: nat where
  "RING_BUFFER_LIMIT = 32"

record 'm buffer =
  ring :: "'m option list"
  head :: nat
  spillover :: "(nat \<times> 'm) list option"

record ('l, 'm) recv_sequencer =
  expected :: nat
  sq_sender :: "'l actor_addr option"
  sq_buffer :: "'m buffer"

record ('l, 'm) envelope =
  env_seq_info :: seq_info
  env_sender :: "'l actor_addr option"
  env_message :: 'm

record ('l, 'm) receiver =
  rx :: "('l, 'm) envelope list"
  enable_buffering :: bool
  senders :: "uuid \<rightharpoonup> ('l, 'm) recv_sequencer"
  ready :: "'m list"

definition direct_envelope :: "'m \<Rightarrow> ('l, 'm) envelope" where
  "direct_envelope m = \<lparr>env_seq_info = Direct, env_sender = None, env_message = m\<rparr>"

definition buffer_default :: "'m buffer" where
  "buffer_default = \<lparr>ring = [], head = 0, spillover = None\<rparr>"

definition recv_sequencer_default :: "('l, 'm) recv_sequencer" where
  "recv_sequencer_default = \<lparr>expected = 1, sq_sender = None, sq_buffer = buffer_default\<rparr>"

definition receiver_new :: "('l, 'm) envelope list \<Rightarrow> bool \<Rightarrow> ('l, 'm) receiver" where
  "receiver_new q buffering =
     \<lparr>rx = q, enable_buffering = buffering, senders = Map.empty, ready = []\<rparr>"

section \<open>Buffer operations\<close>

definition grow_ring :: "'m buffer \<Rightarrow> nat \<Rightarrow> 'm buffer option" where
  "grow_ring b new_len =
     (if \<not> new_len \<le> RING_BUFFER_LIMIT \<or> \<not> length (ring b) < new_len then None
      else Some (b\<lparr>ring := map (\<lambda>off. if off < length (ring b)
                             then ring b ! ((head b + off) mod length (ring b)) else None)
                             [0..<new_len],
                   head := 0\<rparr>))"

definition ensure_ring :: "'m buffer \<Rightarrow> nat \<Rightarrow> nat \<Rightarrow> 'm buffer option" where
  "ensure_ring b next_seq seq =
     (let gap = seq - next_seq;
          wanted_len = (if gap < RING_BUFFER_LIMIT then gap + 1 else RING_BUFFER_LIMIT)
      in if ring b = [] then Some (b\<lparr>ring := replicate wanted_len None, head := 0\<rparr>)
         else if length (ring b) < wanted_len then grow_ring b wanted_len
         else Some b)"

definition in_ring_window :: "'m buffer \<Rightarrow> nat \<Rightarrow> nat \<Rightarrow> bool" where
  "in_ring_window b next_seq seq = (ring b \<noteq> [] \<and> seq < next_seq + length (ring b))"

definition insert_ring :: "'m buffer \<Rightarrow> nat \<Rightarrow> nat \<Rightarrow> 'm \<Rightarrow> 'm buffer option" where
  "insert_ring b next_seq seq message =
     (if \<not> in_ring_window b next_seq seq \<or> seq < next_seq then None
      else let index = (head b + (seq - next_seq)) mod length (ring b)
           in if ring b ! index \<noteq> None then Some b
              else Some (b\<lparr>ring := (ring b)[index := Some message]\<rparr>))"

text \<open>\<open>entry(seq)\<close> of the \<open>BTreeMap\<close>: insert when vacant, keep when occupied.\<close>

fun btree_insert_vacant :: "nat \<Rightarrow> 'm \<Rightarrow> (nat \<times> 'm) list \<Rightarrow> (nat \<times> 'm) list" where
  "btree_insert_vacant k v [] = [(k, v)]"
| "btree_insert_vacant k v ((k', v') # xs) =
     (if k < k' then (k, v) # (k', v') # xs
      else if k = k' then (k', v') # xs
      else (k', v') # btree_insert_vacant k v xs)"

definition buffer_insert :: "'m buffer \<Rightarrow> nat \<Rightarrow> nat \<Rightarrow> 'm \<Rightarrow> 'm buffer option" where
  "buffer_insert b next_seq seq message =
     (if \<not> next_seq < seq then None
      else case ensure_ring b next_seq seq of
        None \<Rightarrow> None
      | Some b1 \<Rightarrow>
          if in_ring_window b1 next_seq seq then insert_ring b1 next_seq seq message
          else Some (b1\<lparr>spillover := Some (btree_insert_vacant seq message
                           (case spillover b1 of None \<Rightarrow> [] | Some sp \<Rightarrow> sp))\<rparr>))"

text \<open>The loop of \<open>refill_from_spillover\<close>, over the entries in key order.\<close>

fun refill_loop :: "'m buffer \<Rightarrow> nat \<Rightarrow> (nat \<times> 'm) list \<Rightarrow> ('m buffer \<times> (nat \<times> 'm) list) option" where
  "refill_loop b next_seq [] = Some (b, [])"
| "refill_loop b next_seq ((seq, message) # sp) =
     (if \<not> in_ring_window b next_seq seq then Some (b, (seq, message) # sp)
      else case insert_ring b next_seq seq message of
        None \<Rightarrow> None
      | Some b1 \<Rightarrow> refill_loop b1 next_seq sp)"

definition refill_from_spillover :: "'m buffer \<Rightarrow> nat \<Rightarrow> 'm buffer option" where
  "refill_from_spillover b next_seq =
     (if ring b = [] then Some b
      else case spillover b of
        None \<Rightarrow> Some b
      | Some sp \<Rightarrow>
          (case refill_loop b next_seq sp of
             None \<Rightarrow> None
           | Some (b1, sp1) \<Rightarrow> Some (b1\<lparr>spillover := if sp1 = [] then None else Some sp1\<rparr>)))"

definition reset_if_empty :: "'m buffer \<Rightarrow> 'm buffer" where
  "reset_if_empty b =
     (if spillover b = None \<and> list_all (\<lambda>slot. slot = None) (ring b)
      then b\<lparr>ring := [], head := 0\<rparr> else b)"

definition advance :: "'m buffer \<Rightarrow> nat \<Rightarrow> 'm buffer option" where
  "advance b next_seq =
     (if ring b = [] then Some b
      else if length (ring b) \<le> head b then None
      else map_option reset_if_empty
             (refill_from_spillover
                (b\<lparr>ring := (ring b)[head b := None], head := (head b + 1) mod length (ring b)\<rparr>)
                next_seq))"

definition take_current :: "'m buffer \<Rightarrow> nat \<Rightarrow> ('m option \<times> 'm buffer) option" where
  "take_current b next_seq =
     (if ring b = [] then Some (None, b)
      else case refill_from_spillover b next_seq of
        None \<Rightarrow> None
      | Some b1 \<Rightarrow>
          if length (ring b1) \<le> head b1 then None
          else Some (ring b1 ! head b1, b1\<lparr>ring := (ring b1)[head b1 := None]\<rparr>))"

fun snapshot_loop :: "'m buffer \<Rightarrow> nat \<Rightarrow> nat list \<Rightarrow> nat \<times> nat option \<times> nat option
    \<Rightarrow> nat \<times> nat option \<times> nat option" where
  "snapshot_loop b next_seq [] acc = acc"
| "snapshot_loop b next_seq (off # offs) (cnt, oldest, newest) =
     (if ring b ! ((head b + off) mod length (ring b)) \<noteq> None
      then let seq = next_seq + off in
        snapshot_loop b next_seq offs (cnt + 1,
          Some (case oldest of None \<Rightarrow> seq | Some x \<Rightarrow> min x seq),
          Some (case newest of None \<Rightarrow> seq | Some x \<Rightarrow> max x seq))
      else snapshot_loop b next_seq offs (cnt, oldest, newest))"

definition buffer_snapshot :: "'m buffer \<Rightarrow> nat \<Rightarrow> nat \<times> nat option \<times> nat option" where
  "buffer_snapshot b next_seq =
     (let (cnt, oldest, newest) =
            snapshot_loop b next_seq [0..<length (ring b)] (0, None, None)
      in case spillover b of
           None \<Rightarrow> (cnt, oldest, newest)
         | Some sp \<Rightarrow>
             (cnt + length sp,
              (if sp = [] then oldest
               else Some (case oldest of None \<Rightarrow> fst (hd sp) | Some x \<Rightarrow> min x (fst (hd sp)))),
              (if sp = [] then newest
               else Some (case newest of None \<Rightarrow> fst (last sp) | Some x \<Rightarrow> max x (fst (last sp))))))"

section \<open>Termination of the drain loop\<close>

text \<open>
  Every message taken out lowers the number of buffered messages, whatever the state of the
  buffer, so \<open>drain_ready\<close> terminates without any invariant.
\<close>

definition ring_count :: "'m option list \<Rightarrow> nat" where
  "ring_count r = length (filter (\<lambda>slot. slot \<noteq> None) r)"

definition stored :: "'m buffer \<Rightarrow> nat" where
  "stored b = ring_count (ring b) + (case spillover b of None \<Rightarrow> 0 | Some sp \<Rightarrow> length sp)"

lemma ring_count_update:
  "i < length r \<Longrightarrow> ring_count (r[i := x]) + (if r ! i = None then 0 else 1) =
     ring_count r + (if x = None then 0 else 1)"
proof (induction r arbitrary: i)
  case (Cons a r)
  show ?case
  proof (cases i)
    case (Suc j)
    with Cons.IH [of j] Cons.prems show ?thesis by (auto simp: ring_count_def split: if_splits)
  qed (simp add: ring_count_def)
qed simp

lemma insert_ring_Some:
  assumes "insert_ring b next_seq seq m = Some b'"
  shows "spillover b' = spillover b \<and> head b' = head b \<and> length (ring b') = length (ring b) \<and>
    ring_count (ring b') \<le> Suc (ring_count (ring b))"
proof -
  have "ring b \<noteq> []" using assms by (auto simp: insert_ring_def in_ring_window_def split: if_splits)
  then have "(head b + (seq - next_seq)) mod length (ring b) < length (ring b)" by simp
  then show ?thesis
    using assms ring_count_update [of "(head b + (seq - next_seq)) mod length (ring b)" "ring b" "Some m"]
    by (auto simp: insert_ring_def Let_def split: if_splits)
qed

lemma refill_loop_Some:
  "refill_loop b next_seq sp = Some (b', sp') \<Longrightarrow>
     ring_count (ring b') + length sp' \<le> ring_count (ring b) + length sp \<and>
     head b' = head b \<and> length (ring b') = length (ring b)"
proof (induction b next_seq sp rule: refill_loop.induct)
  case (2 b next_seq seq message sp)
  show ?case
  proof (cases "in_ring_window b next_seq seq")
    case True
    with "2.prems" obtain b1 where "insert_ring b next_seq seq message = Some b1"
      "refill_loop b1 next_seq sp = Some (b', sp')"
      by (auto split: option.splits)
    with "2.IH" [OF _ this] True insert_ring_Some [of b next_seq seq message b1] show ?thesis
      by auto
  qed (use "2.prems" in auto)
qed auto

lemma refill_stored:
  "refill_from_spillover b next_seq = Some b' \<Longrightarrow>
     stored b' \<le> stored b \<and> head b' = head b \<and> length (ring b') = length (ring b)"
  by (auto simp: refill_from_spillover_def stored_def split: if_splits option.splits prod.splits
      dest!: refill_loop_Some)

lemma ring_count_clear: "ring_count (r[i := None]) \<le> ring_count r"
  using ring_count_update [of i r None] by (cases "i < length r") (auto simp: list_update_beyond)

lemma advance_stored: "advance b next_seq = Some b' \<Longrightarrow> stored b' \<le> stored b"
proof -
  assume a: "advance b next_seq = Some b'"
  have "stored (reset_if_empty c) \<le> stored c" for c :: "'a buffer"
    by (auto simp: reset_if_empty_def stored_def ring_count_def)
  moreover have "stored (b\<lparr>ring := (ring b)[head b := None], head := h\<rparr>) \<le> stored b" for h
    using ring_count_clear [of "ring b" "head b"] by (simp add: stored_def)
  ultimately show ?thesis
    using a by (auto simp: advance_def split: if_splits dest!: refill_stored) (meson le_trans)
qed

lemma take_current_stored:
  "take_current b next_seq = Some (Some m, b') \<Longrightarrow> stored b' < stored b"
proof -
  assume a: "take_current b next_seq = Some (Some m, b')"
  then obtain b1 where b1: "refill_from_spillover b next_seq = Some b1" "head b1 < length (ring b1)"
    "ring b1 ! head b1 = Some m" "b' = b1\<lparr>ring := (ring b1)[head b1 := None]\<rparr>"
    by (auto simp: take_current_def split: if_splits option.splits)
  then have "stored b' < stored b1"
    using ring_count_update [of "head b1" "ring b1" None] by (simp add: stored_def)
  with refill_stored [OF b1(1)] show ?thesis by simp
qed

section \<open>Sequencer operations\<close>

function drain_ready :: "('l, 'm) recv_sequencer \<Rightarrow> 'm list
    \<Rightarrow> (('l, 'm) recv_sequencer \<times> 'm list) option" where
  "drain_ready sq rdy =
     (case take_current (sq_buffer sq) (expected sq) of
        None \<Rightarrow> None
      | Some (None, b) \<Rightarrow> Some (sq\<lparr>sq_buffer := b\<rparr>, rdy)
      | Some (Some message, b) \<Rightarrow>
          (case advance b (expected sq + 1) of
             None \<Rightarrow> None
           | Some b1 \<Rightarrow>
               drain_ready (sq\<lparr>expected := expected sq + 1, sq_buffer := b1\<rparr>) (rdy @ [message])))"
  by pat_completeness auto
termination
  by (relation "measure (\<lambda>(sq, rdy). stored (sq_buffer sq))")
     (auto dest!: take_current_stored advance_stored)

declare drain_ready.simps [simp del]

text \<open>The returned message, the sequencer and the ready queue after the call.\<close>

definition sequencer_admit :: "('l, 'm) recv_sequencer \<Rightarrow> nat \<Rightarrow> 'm \<Rightarrow> 'm list
    \<Rightarrow> ('m option \<times> ('l, 'm) recv_sequencer \<times> 'm list) option" where
  "sequencer_admit sq seq message rdy =
     (if seq < expected sq then Some (None, sq, rdy)
      else if expected sq < seq then
        (case buffer_insert (sq_buffer sq) (expected sq) seq message of
           None \<Rightarrow> None
         | Some b \<Rightarrow> Some (None, sq\<lparr>sq_buffer := b\<rparr>, rdy))
      else (case advance (sq_buffer sq) (expected sq + 1) of
              None \<Rightarrow> None
            | Some b \<Rightarrow>
                (case drain_ready (sq\<lparr>expected := expected sq + 1, sq_buffer := b\<rparr>) rdy of
                   None \<Rightarrow> None
                 | Some (sq', rdy') \<Rightarrow> Some (Some message, sq', rdy'))))"

section \<open>Receiver operations\<close>

definition receiver_admit :: "('l, 'm) receiver \<Rightarrow> ('l, 'm) envelope
    \<Rightarrow> ('m option \<times> ('l, 'm) receiver) option" where
  "receiver_admit r item =
     (if \<not> enable_buffering r then Some (Some (env_message item), r)
      else case env_seq_info item of
        Direct \<Rightarrow> Some (Some (env_message item), r)
      | Session sid seq \<Rightarrow>
          if \<not> 0 < seq then None
          else let sq = (case senders r sid of None \<Rightarrow> recv_sequencer_default | Some sq \<Rightarrow> sq);
                   sq1 = (if sq_sender sq = None then sq\<lparr>sq_sender := env_sender item\<rparr> else sq)
               in case sequencer_admit sq1 seq (env_message item) (ready r) of
                    None \<Rightarrow> None
                  | Some (out, sq2, rdy) \<Rightarrow>
                      Some (out, r\<lparr>senders := (senders r)(sid \<mapsto> sq2), ready := rdy\<rparr>))"

lemma receiver_admit_rx: "receiver_admit r item = Some (out, r') \<Longrightarrow> rx r' = rx r"
  by (auto simp: receiver_admit_def Let_def split: if_splits seq_info.splits option.splits)

text \<open>
  \<open>try_recv\<close>: the inner \<open>None\<close> is \<open>TryRecvError::Empty\<close>. \<open>recv\<close> runs the same
  loop and waits where \<open>try_recv\<close> returns the error.
\<close>

function try_recv :: "('l, 'm) receiver \<Rightarrow> ('m option \<times> ('l, 'm) receiver) option" where
  "try_recv r =
     (case ready r of
        m # ms \<Rightarrow> Some (Some m, r\<lparr>ready := ms\<rparr>)
      | [] \<Rightarrow>
          (case rx r of
             [] \<Rightarrow> Some (None, r)
           | item # items \<Rightarrow>
               (case receiver_admit (r\<lparr>rx := items\<rparr>) item of
                  None \<Rightarrow> None
                | Some (Some m, r1) \<Rightarrow> Some (Some m, r1)
                | Some (None, r1) \<Rightarrow> try_recv r1)))"
  by pat_completeness auto
termination
  by (relation "measure (\<lambda>r. length (rx r))") (auto dest!: receiver_admit_rx)

declare try_recv.simps [simp del]

section \<open>Snapshots\<close>

definition session_entry :: "uuid \<Rightarrow> ('l, 'm) recv_sequencer \<Rightarrow> 'l session_snapshot" where
  "session_entry sid sq =
     (let (cnt, oldest, newest) = buffer_snapshot (sq_buffer sq) (expected sq)
      in \<lparr>snap_session = sid, snap_sender = sq_sender sq,
          last_released_seq = expected sq - 1, expected_next_seq = expected sq,
          buffered_count = cnt, oldest_buffered_seq = oldest, newest_buffered_seq = newest\<rparr>)"

text \<open>
  \<open>SequencedSnapshot::snapshot\<close>. \<open>busy\<close> says that the lock is held by the receiver;
  \<open>sids\<close> is the iteration order of the hash map over its sessions.
\<close>

definition snapshot :: "bool \<Rightarrow> uuid list \<Rightarrow> ('l, 'm) receiver \<Rightarrow> 'l ordering_snapshot" where
  "snapshot busy sids r =
     (if \<not> enable_buffering r then \<lparr>enabled = False, sessions = [], skipped_session_count = 0\<rparr>
      else if busy then \<lparr>enabled = True, sessions = [], skipped_session_count = 1\<rparr>
      else \<lparr>enabled = True,
            sessions = sort_key snap_session
              (List.map_filter (\<lambda>sid. map_option (session_entry sid) (senders r sid)) sids),
            skipped_session_count = 0\<rparr>)"

end
