(* ===== verification/Sequenced_Props.thy ===== *)
theory Sequenced_Props
  imports Sequenced
begin

text \<open>
  Correctness of the receiver-side reordering. The abstraction of a buffer is the partial map
  from future sequence numbers to messages; every buffer operation refines an update of that
  map. The sequencer then releases, for any arrival order, exactly the messages of the
  contiguous prefix of sequence numbers, first arrival first, each once and in order.
\<close>

section \<open>Invariant and abstraction\<close>

definition spill_map :: "(nat \<times> 'm) list option \<Rightarrow> nat \<rightharpoonup> 'm" where
  "spill_map sp = (case sp of None \<Rightarrow> Map.empty | Some xs \<Rightarrow> map_of xs)"

definition slot :: "'m buffer \<Rightarrow> nat \<Rightarrow> 'm option" where
  "slot b off = ring b ! ((head b + off) mod length (ring b))"

definition pending :: "'m buffer \<Rightarrow> nat \<Rightarrow> nat \<rightharpoonup> 'm" where
  "pending b next_seq s =
     (case (if next_seq \<le> s \<and> s < next_seq + length (ring b) then slot b (s - next_seq) else None) of
        Some m \<Rightarrow> Some m
      | None \<Rightarrow> spill_map (spillover b) s)"

definition buffer_inv :: "'m buffer \<Rightarrow> nat \<Rightarrow> bool" where
  "buffer_inv b next_seq \<longleftrightarrow>
     (ring b = [] \<longrightarrow> head b = 0 \<and> spillover b = None) \<and>
     (ring b \<noteq> [] \<longrightarrow> head b < length (ring b)) \<and>
     length (ring b) \<le> RING_BUFFER_LIMIT \<and>
     (\<forall>sp. spillover b = Some sp \<longrightarrow> sp \<noteq> [] \<and> sorted_wrt (<) (map fst sp) \<and>
        length (ring b) = RING_BUFFER_LIMIT \<and> (\<forall>k \<in> fst ` set sp. next_seq + RING_BUFFER_LIMIT \<le> k))"

text \<open>Between calls the expected sequence number itself is never buffered.\<close>

definition settled :: "'m buffer \<Rightarrow> nat \<Rightarrow> bool" where
  "settled b next_seq \<longleftrightarrow> pending b next_seq next_seq = None"

lemma RING_BUFFER_LIMIT_pos [simp]: "0 < RING_BUFFER_LIMIT"
  by (simp add: RING_BUFFER_LIMIT_def)

lemma ring_index_inj:
  assumes "i < n" "j < (n :: nat)" "(h + i) mod n = (h + j) mod n"
  shows "i = j"
proof -
  have "i' = j'" if "i' \<le> j'" "j' < n" "(h + j') mod n = (h + i') mod n" for i' j'
  proof -
    have "n dvd (h + j') - (h + i')"
      using that mod_eq_dvd_iff_nat [of "h + i'" "h + j'" n] by simp
    then show ?thesis using that by (auto dest: dvd_imp_le)
  qed
  from this [of i j] this [of j i] show ?thesis using assms by (cases "i \<le> j") auto
qed

lemma buffer_inv_default [simp]: "buffer_inv buffer_default n"
  by (simp add: buffer_inv_def buffer_default_def)

lemma pending_default [simp]: "pending buffer_default n = Map.empty"
  by (rule ext) (auto simp: pending_def buffer_default_def spill_map_def)

lemma pending_at:
  "pending b n (n + off) =
     (case (if off < length (ring b) then slot b off else None) of
        Some m \<Rightarrow> Some m | None \<Rightarrow> spill_map (spillover b) (n + off))"
  by (simp add: pending_def)

lemma pending_lt: "s < n \<Longrightarrow> pending b n s = spill_map (spillover b) s"
  by (simp add: pending_def)

lemma pending_ext:
  assumes "\<And>off. pending b n (n + off) = P (n + off)" "\<And>s. s < n \<Longrightarrow> pending b n s = P s"
  shows "pending b n = P"
proof
  fix s
  show "pending b n s = P s"
    using assms le_Suc_ex [of n s] by (cases "n \<le> s") auto
qed

lemma pending_empty: "ring b = [] \<Longrightarrow> spillover b = None \<Longrightarrow> pending b n = Map.empty"
  by (rule ext) (auto simp: pending_def spill_map_def)

section \<open>Ring updates\<close>

lemma insert_ring_ok:
  assumes "ring b \<noteq> []" "n \<le> s" "s < n + length (ring b)"
  shows "\<exists>b'. insert_ring b n s m = Some b' \<and> head b' = head b \<and> spillover b' = spillover b \<and>
    length (ring b') = length (ring b) \<and>
    (\<forall>off < length (ring b). slot b' off =
       (if off = s - n \<and> slot b off = None then Some m else slot b off))"
proof -
  let ?n = "length (ring b)"
  obtain d where s: "s = n + d" using assms(2) le_Suc_ex by blast
  let ?i = "(head b + d) mod ?n"
  have i: "?i < ?n" using assms(1) by simp
  have off: "?i = (head b + off) mod ?n \<longleftrightarrow> off = d" if "off < ?n" for off
    using that assms(3) s ring_index_inj [of off ?n d "head b"] by auto
  show ?thesis
  proof (cases "ring b ! ?i")
    case None
    then show ?thesis
      using assms i
      by (auto simp: s insert_ring_def in_ring_window_def Let_def slot_def nth_list_update off)
  next
    case (Some y)
    then show ?thesis
      using assms i by (auto simp: s insert_ring_def in_ring_window_def Let_def slot_def)
  qed
qed

text \<open>
  What \<open>refill_from_spillover\<close> needs: spilled keys may already lie in the window, as they
  do right after the head moved.
\<close>

definition refillable :: "'m buffer \<Rightarrow> nat \<Rightarrow> bool" where
  "refillable b n \<longleftrightarrow> ring b \<noteq> [] \<and> head b < length (ring b) \<and> length (ring b) \<le> RING_BUFFER_LIMIT \<and>
     (\<forall>sp. spillover b = Some sp \<longrightarrow> sp \<noteq> [] \<and> sorted_wrt (<) (map fst sp) \<and>
        length (ring b) = RING_BUFFER_LIMIT \<and> (\<forall>k \<in> fst ` set sp. n \<le> k))"

lemma buffer_inv_refillable: "buffer_inv b n \<Longrightarrow> ring b \<noteq> [] \<Longrightarrow> refillable b n"
  by (fastforce simp: buffer_inv_def refillable_def)

lemma map_of_beyond: "\<forall>k \<in> fst ` set sp. u \<le> k \<Longrightarrow> s < (u :: nat) \<Longrightarrow> map_of sp s = None"
  by (fastforce simp: map_of_eq_None_iff)

lemma refill_loop_ok:
  assumes "ring b \<noteq> []" "sorted_wrt (<) (map fst sp)" "\<forall>k \<in> fst ` set sp. n \<le> k"
  shows "\<exists>b' sp'. refill_loop b n sp = Some (b', sp') \<and> head b' = head b \<and>
    length (ring b') = length (ring b) \<and>
    sp' = filter (\<lambda>(k, _). n + length (ring b) \<le> k) sp \<and>
    (\<forall>off < length (ring b). slot b' off =
       (case slot b off of None \<Rightarrow> map_of sp (n + off) | Some m \<Rightarrow> Some m))"
  using assms
proof (induction b n sp rule: refill_loop.induct)
  case (1 b n)
  then show ?case by (auto split: option.splits)
next
  case (2 b n s m sp)
  show ?case
  proof (cases "in_ring_window b n s")
    case True
    then have s: "n \<le> s" "s < n + length (ring b)"
      using "2.prems" by (auto simp: in_ring_window_def)
    obtain b1 where b1: "insert_ring b n s m = Some b1" "head b1 = head b"
      "length (ring b1) = length (ring b)"
      "\<forall>off < length (ring b). slot b1 off =
         (if off = s - n \<and> slot b off = None then Some m else slot b off)"
      using insert_ring_ok [OF "2.prems"(1) s, of m] by blast
    then have "ring b1 \<noteq> []" using "2.prems"(1) by auto
    with "2.IH" [OF _ b1(1)] True "2.prems" obtain b' sp' where
      b': "refill_loop b1 n sp = Some (b', sp')" "head b' = head b1"
        "length (ring b') = length (ring b1)"
        "sp' = filter (\<lambda>(k, _). n + length (ring b1) \<le> k) sp"
        "\<forall>off < length (ring b1). slot b' off =
          (case slot b1 off of None \<Rightarrow> map_of sp (n + off) | Some m \<Rightarrow> Some m)"
      by auto
    have "map_of sp s = None"
      using "2.prems"(2) by (fastforce simp: map_of_eq_None_iff)
    with True b1 b' s show ?thesis
      by (auto split: option.splits)
  next
    case False
    then have s: "n + length (ring b) \<le> s"
      using "2.prems"(1) by (auto simp: in_ring_window_def)
    then have far: "\<forall>k \<in> fst ` set ((s, m) # sp). n + length (ring b) \<le> k"
      using "2.prems"(2) by auto
    then have "filter (\<lambda>(k, _). n + length (ring b) \<le> k) ((s, m) # sp) = (s, m) # sp"
      by (intro filter_True) auto
    moreover have "map_of ((s, m) # sp) (n + off) = None" if "off < length (ring b)" for off
      using map_of_beyond [OF far] that by simp
    ultimately show ?thesis
      using False by (auto split: option.splits)
  qed
qed

lemma map_of_filter_key: "map_of (filter (\<lambda>(k, _). P k) xs) s = (if P s then map_of xs s else None)"
  by (induction xs) auto

lemma refill_ok:
  assumes "refillable b n"
  shows "\<exists>b'. refill_from_spillover b n = Some b' \<and> buffer_inv b' n \<and> ring b' \<noteq> [] \<and>
    pending b' n = pending b n"
proof (cases "spillover b")
  case None
  with assms show ?thesis
    by (auto simp: refillable_def refill_from_spillover_def buffer_inv_def)
next
  case (Some sp)
  with assms have b: "ring b \<noteq> []" "sorted_wrt (<) (map fst sp)" "\<forall>k \<in> fst ` set sp. n \<le> k"
    "head b < length (ring b)" "length (ring b) = RING_BUFFER_LIMIT"
    by (auto simp: refillable_def)
  let ?far = "filter (\<lambda>(k, _). n + length (ring b) \<le> k) sp"
  obtain b' where b': "refill_loop b n sp = Some (b', ?far)" "head b' = head b"
    "length (ring b') = length (ring b)"
    "\<forall>off < length (ring b). slot b' off =
       (case slot b off of None \<Rightarrow> map_of sp (n + off) | Some m \<Rightarrow> Some m)"
    using refill_loop_ok [OF b(1-3)] by blast
  let ?b = "b'\<lparr>spillover := if ?far = [] then None else Some ?far\<rparr>"
  have "refill_from_spillover b n = Some ?b"
    using Some b(1) b'(1) by (simp add: refill_from_spillover_def)
  moreover have "buffer_inv ?b n"
  proof -
    have "sorted_wrt (<) (map fst ?far)"
      using b(2) by (auto simp: sorted_wrt_map intro: sorted_wrt_filter)
    then show ?thesis using b b' by (auto simp: buffer_inv_def)
  qed
  moreover have "ring ?b \<noteq> []" using b(1) b'(3) by auto
  moreover have "pending ?b n = pending b n"
  proof
    fix s
    have far: "spill_map (spillover ?b) s = (if n + length (ring b) \<le> s then map_of sp s else None)"
      using map_of_filter_key [of "\<lambda>k. n + length (ring b) \<le> k" sp s] by (auto simp: spill_map_def)
    have sl: "slot ?b off = slot b' off" for off by (simp add: slot_def)
    show "pending ?b n s = pending b n s"
    proof (cases "n \<le> s")
      case True
      then obtain off where "s = n + off" using le_Suc_ex by blast
      then show ?thesis
        using far sl b' Some unfolding pending_def by (auto simp: spill_map_def split: option.splits)
    next
      case False
      then have "map_of sp s = None" using map_of_beyond [OF b(3)] by simp
      with far False b'(3) Some show ?thesis unfolding pending_def by (auto simp: spill_map_def)
    qed
  qed
  ultimately show ?thesis by blast
qed

lemma near_spill:
  assumes "buffer_inv b n" "u < n + length (ring b)"
  shows "spill_map (spillover b) u = None"
proof (cases "spillover b")
  case (Some sp)
  then have "\<forall>k \<in> fst ` set sp. n + length (ring b) \<le> k"
    using assms(1) by (simp add: buffer_inv_def)
  with Some assms(2) show ?thesis by (simp only: spill_map_def option.case map_of_beyond)
qed (simp add: spill_map_def)

section \<open>The operations refine updates of the pending map\<close>

lemma reset_if_empty_ok:
  assumes "buffer_inv b n"
  shows "buffer_inv (reset_if_empty b) n \<and> pending (reset_if_empty b) n = pending b n"
proof (cases "spillover b = None \<and> list_all (\<lambda>slot. slot = None) (ring b)")
  case True
  have "slot b off = None" if "off < length (ring b)" for off
  proof -
    have "(head b + off) mod length (ring b) < length (ring b)" 
      using that by (intro mod_less_divisor) linarith
    then show ?thesis using True unfolding slot_def list_all_length by blast
  qed
  then have "pending b n s = None" for s
    using True pending_ext [of b n Map.empty]
    by (simp add: pending_at pending_lt spill_map_def fun_eq_iff)
  then show ?thesis
    using True by (auto simp: reset_if_empty_def buffer_inv_def pending_empty fun_eq_iff)
qed (use assms in \<open>auto simp: reset_if_empty_def\<close>)

text \<open>Clearing the head and moving it: the window now starts one number later.\<close>

lemma move_head:
  assumes "buffer_inv b n" "ring b \<noteq> []"
  defines "b1 \<equiv> b\<lparr>ring := (ring b)[head b := None], head := (head b + 1) mod length (ring b)\<rparr>"
  shows "refillable b1 (n + 1)" "pending b1 (n + 1) = (pending b n)(n := None)"
proof -
  let ?L = "length (ring b)"
  have h: "head b < ?L" using assms by (simp add: buffer_inv_def)
  show "refillable b1 (n + 1)"
    using assms(1,2) h by (fastforce simp: b1_def refillable_def buffer_inv_def RING_BUFFER_LIMIT_def)
  have slot: "slot b1 off = (if off + 1 < ?L then slot b (off + 1) else None)" if "off < ?L" for off
  proof -
    have idx: "((head b + 1) mod ?L + off) mod ?L = (head b + (off + 1)) mod ?L"
      by (simp add: mod_add_left_eq add.assoc)
    have "(head b + (off + 1)) mod ?L = head b \<longleftrightarrow> \<not> off + 1 < ?L"
    proof (cases "off + 1 < ?L")
      case True
      then show ?thesis
        using ring_index_inj [of "off + 1" ?L 0 "head b"] h assms(2) by auto
    next
      case False
      then have "off + 1 = ?L" using that by simp
      then show ?thesis using False h by simp
    qed
    then show ?thesis
      using h idx by (auto simp: slot_def b1_def nth_list_update)
  qed
  show "pending b1 (n + 1) = (pending b n)(n := None)"
  proof
    fix s
    have sp: "spillover b1 = spillover b" "length (ring b1) = ?L" by (simp_all add: b1_def)
    have near: "spill_map (spillover b) u = None" if "u < n + ?L" for u
      using near_spill [OF assms(1)] that .
    consider "s \<le> n" | off where "s = n + 1 + off" using le_Suc_ex not_less_eq_eq
      by (metis Suc_eq_plus1)
    then show "pending b1 (n + 1) s = ((pending b n)(n := None)) s"
    proof cases
      case 1
      then show ?thesis
        using near [of s] assms(2) sp by (auto simp: pending_def)
    next
      case 2
      then show ?thesis
        using slot [of off] sp unfolding pending_def by (auto split: option.splits)
    qed
  qed
qed

lemma advance_ok:
  assumes "buffer_inv b n"
  shows "\<exists>b'. advance b (n + 1) = Some b' \<and> buffer_inv b' (n + 1) \<and>
    pending b' (n + 1) = (pending b n)(n := None)"
proof (cases "ring b = []")
  case True
  then have "spillover b = None" "head b = 0" using assms by (auto simp: buffer_inv_def)
  then show ?thesis
    using True by (auto simp: advance_def buffer_inv_def pending_empty)
next
  case False
  then have h: "head b < length (ring b)" using assms by (simp add: buffer_inv_def)
  from refill_ok [OF move_head(1) [OF assms False]] obtain b' where
    b': "refill_from_spillover (b\<lparr>ring := (ring b)[head b := None],
        head := (head b + 1) mod length (ring b)\<rparr>) (n + 1) = Some b'"
      "buffer_inv b' (n + 1)" "pending b' (n + 1) = (pending b n)(n := None)"
    using move_head(2) [OF assms False] by auto
  then show ?thesis
    using reset_if_empty_ok [OF b'(2)] False h by (auto simp: advance_def)
qed

lemma take_current_ok:
  assumes "buffer_inv b n"
  shows "\<exists>b'. take_current b n = Some (pending b n n, b') \<and> buffer_inv b' n \<and>
    pending b' n = (pending b n)(n := None)"
proof (cases "ring b = []")
  case True
  then have "pending b n = Map.empty" using assms by (auto simp: buffer_inv_def pending_empty)
  then show ?thesis using True assms by (simp add: take_current_def)
next
  case False
  obtain b1 where b1: "refill_from_spillover b n = Some b1" "buffer_inv b1 n" "ring b1 \<noteq> []"
    "pending b1 n = pending b n"
    using refill_ok [OF buffer_inv_refillable [OF assms False]] by blast
  let ?L = "length (ring b1)"
  let ?b = "b1\<lparr>ring := (ring b1)[head b1 := None]\<rparr>"
  have h: "head b1 < ?L" using b1 by (simp add: buffer_inv_def)
  have near: "spill_map (spillover b1) u = None" if "u < n + ?L" for u
    using near_spill [OF b1(2)] that .
  have "pending b1 n n = ring b1 ! head b1"
    using h near [of n] by (auto simp: pending_def slot_def split: option.splits)
  moreover have "buffer_inv ?b n" using b1(2) by (auto simp: buffer_inv_def)
  moreover have "pending ?b n = (pending b1 n)(n := None)"
  proof
    fix s
    have "slot ?b off = (if off = 0 then None else slot b1 off)" if "off < ?L" for off
      using ring_index_inj [of off ?L 0 "head b1"] h that b1(3)
      by (auto simp: slot_def nth_list_update)
    then show "pending ?b n s = ((pending b1 n)(n := None)) s"
      using near [of n] b1(3) unfolding pending_def by (auto split: option.splits)
  qed
  ultimately show ?thesis
    using b1 h False by (auto simp: take_current_def)
qed

lemma grow_ring_ok:
  assumes "buffer_inv b n" "ring b \<noteq> []" "length (ring b) < len" "len \<le> RING_BUFFER_LIMIT"
  shows "\<exists>b'. grow_ring b len = Some b' \<and> buffer_inv b' n \<and> length (ring b') = len \<and>
    spillover b' = spillover b \<and> pending b' n = pending b n"
proof -
  let ?b = "b\<lparr>ring := map (\<lambda>off. if off < length (ring b)
      then ring b ! ((head b + off) mod length (ring b)) else None) [0..<len], head := 0\<rparr>"
  have none: "spillover b = None"
    using assms by (cases "spillover b") (auto simp: buffer_inv_def)
  have slot: "slot ?b off = (if off < length (ring b) then slot b off else None)" if "off < len" for off
    using that by (simp add: slot_def)
  have "pending ?b n = pending b n"
    using none assms(3) by (intro pending_ext) (simp_all add: pending_at pending_lt spill_map_def slot
        split: option.splits)
  then show ?thesis
    using assms none by (auto simp: grow_ring_def buffer_inv_def)
qed

lemma ensure_ring_ok:
  assumes "buffer_inv b n" "n < s"
  shows "\<exists>b'. ensure_ring b n s = Some b' \<and> buffer_inv b' n \<and> ring b' \<noteq> [] \<and>
    pending b' n = pending b n \<and>
    (s < n + length (ring b') \<or> length (ring b') = RING_BUFFER_LIMIT)"
proof -
  define len where "len = (if s - n < RING_BUFFER_LIMIT then s - n + 1 else RING_BUFFER_LIMIT)"
  have len: "0 < len" "len \<le> RING_BUFFER_LIMIT" "s < n + len \<or> len = RING_BUFFER_LIMIT"
    by (auto simp: len_def)
  have far: "s < n + l \<or> l = RING_BUFFER_LIMIT" if "len \<le> l" "l \<le> RING_BUFFER_LIMIT" for l
    using len(3) that by auto
  show ?thesis
  proof (cases "ring b = []")
    case True
    let ?b = "b\<lparr>ring := replicate len None, head := 0\<rparr>"
    have none: "spillover b = None" using True assms(1) by (simp add: buffer_inv_def)
    have "slot ?b off = None" if "off < len" for off
      using that by (simp add: slot_def)
    then have "pending ?b n = pending b n"
      using True none by (auto simp: pending_def spill_map_def fun_eq_iff)
    then show ?thesis
      using True len none by (auto simp: ensure_ring_def buffer_inv_def simp flip: len_def)
  next
    case False
    then show ?thesis
      using grow_ring_ok [OF assms(1) False, of len] len far [of "length (ring b)"] assms(1)
      by (cases "length (ring b) < len") (auto simp: ensure_ring_def buffer_inv_def Let_def
          simp flip: len_def)
  qed
qed

lemma btree_insert_vacant_props:
  assumes "sorted_wrt (<) (map fst xs)"
  shows "sorted_wrt (<) (map fst (btree_insert_vacant k v xs))"
    and "set (map fst (btree_insert_vacant k v xs)) = insert k (set (map fst xs))"
    and "map_of (btree_insert_vacant k v xs) =
      (if map_of xs k = None then (map_of xs)(k \<mapsto> v) else map_of xs)"
    and "btree_insert_vacant k v xs \<noteq> []"
proof -
  have set: "set (map fst (btree_insert_vacant k v ys)) = insert k (set (map fst ys))"
    for k :: nat and v :: 'a and ys
    by (induction k v ys rule: btree_insert_vacant.induct) auto
  then show "set (map fst (btree_insert_vacant k v xs)) = insert k (set (map fst xs))" .
  show "sorted_wrt (<) (map fst (btree_insert_vacant k v xs))"
    using assms
  proof (induction k v xs rule: btree_insert_vacant.induct)
    case (2 k v k' v' xs)
    have "\<forall>j \<in> set (map fst (btree_insert_vacant k v xs)). k' < j" if "k' < k"
      using "2.prems" that by (simp only: set) auto
    with 2 show ?case by auto
  qed simp
  show "map_of (btree_insert_vacant k v xs) =
      (if map_of xs k = None then (map_of xs)(k \<mapsto> v) else map_of xs)"
    using assms
  proof (induction k v xs rule: btree_insert_vacant.induct)
    case (2 k v k' v' xs)
    show ?case
    proof (cases "k < k'")
      case True
      then have "map_of xs k = None"
        using "2.prems" by (auto simp: map_of_eq_None_iff)
      with True show ?thesis by auto
    qed (use 2 in auto)
  qed simp
  show "btree_insert_vacant k v xs \<noteq> []"
    by (cases "(k, v, xs)" rule: btree_insert_vacant.cases) auto
qed

lemma buffer_insert_ok:
  assumes "buffer_inv b n" "n < s"
  shows "\<exists>b'. buffer_insert b n s m = Some b' \<and> buffer_inv b' n \<and>
    pending b' n = (if pending b n s = None then (pending b n)(s \<mapsto> m) else pending b n)"
proof -
  obtain b1 where b1: "ensure_ring b n s = Some b1" "buffer_inv b1 n" "ring b1 \<noteq> []"
    "pending b1 n = pending b n" "s < n + length (ring b1) \<or> length (ring b1) = RING_BUFFER_LIMIT"
    using ensure_ring_ok [OF assms] by blast
  show ?thesis
  proof (cases "s < n + length (ring b1)")
    case True
    obtain b2 where b2: "insert_ring b1 n s m = Some b2" "head b2 = head b1"
      "spillover b2 = spillover b1" "length (ring b2) = length (ring b1)"
      "\<forall>off < length (ring b1). slot b2 off =
         (if off = s - n \<and> slot b1 off = None then Some m else slot b1 off)"
      using insert_ring_ok [OF b1(3) _ True, of m] assms(2) by auto
    have "buffer_inv b2 n" using b1(2,3) b2(2-4) by (auto simp: buffer_inv_def)
    moreover have "pending b2 n u =
        (if pending b1 n s = None then (pending b1 n)(s \<mapsto> m) else pending b1 n) u" for u
    proof (cases "u = s")
      case False
      then have "n \<le> u \<Longrightarrow> u - n \<noteq> s - n" using assms(2) by linarith
      then show ?thesis
        using False b2 unfolding pending_def by (auto split: option.splits)
    qed (use b2 near_spill [OF b1(2) True] True assms(2) in
        \<open>auto simp: pending_def split: option.splits\<close>)
    ultimately show ?thesis
      using b1 b2(1) assms(2) True by (auto simp: buffer_insert_def in_ring_window_def)
  next
    case False
    define sp where "sp = (case spillover b1 of None \<Rightarrow> [] | Some sp \<Rightarrow> sp)"
    have sp: "sorted_wrt (<) (map fst sp)" "spill_map (spillover b1) = map_of sp"
      "\<forall>k \<in> fst ` set sp. n + RING_BUFFER_LIMIT \<le> k"
      using b1(2) by (cases "spillover b1"; simp add: sp_def buffer_inv_def spill_map_def)+
    note ins = btree_insert_vacant_props [OF sp(1), of s m]
    let ?b = "b1\<lparr>spillover := Some (btree_insert_vacant s m sp)\<rparr>"
    have L: "length (ring b1) = RING_BUFFER_LIMIT" using False b1(5) by simp
    have "\<forall>k \<in> set (map fst (btree_insert_vacant s m sp)). n + RING_BUFFER_LIMIT \<le> k"
      unfolding ins(2) using sp(3) False L by auto
    then have "buffer_inv ?b n"
      using b1(2,3) ins(1,4) L by (simp add: buffer_inv_def)
    moreover have "slot ?b = slot b1" by (simp add: slot_def fun_eq_iff)
    then have "pending ?b n u =
        (if pending b1 n s = None then (pending b1 n)(s \<mapsto> m) else pending b1 n) u" for u
      using False sp(2) ins(3) by (auto simp: pending_def spill_map_def split: option.splits)
    ultimately show ?thesis
      using b1 assms(2) False by (auto simp: buffer_insert_def in_ring_window_def simp flip: sp_def)
  qed
qed

section \<open>The expected sequence number of a history\<close>

text \<open>
  A history is the list of arrivals (sequence number, message) of a session. The expected
  number is the least positive one that has not arrived.
\<close>

fun first_missing :: "nat list \<Rightarrow> nat \<Rightarrow> nat \<Rightarrow> nat" where
  "first_missing ks 0 n = n"
| "first_missing ks (Suc f) n = (if n \<in> set ks then first_missing ks f (Suc n) else n)"

definition next_expected :: "(nat \<times> 'm) list \<Rightarrow> nat" where
  "next_expected h = first_missing (map fst h) (length h) 1"

lemma first_missing_props:
  "n \<le> first_missing ks f n \<and> {n..<first_missing ks f n} \<subseteq> set ks \<and>
   (first_missing ks f n \<notin> set ks \<or> first_missing ks f n = n + f)"
proof (induction ks f n rule: first_missing.induct)
  case (2 ks f n)
  show ?case
  proof (cases "n \<in> set ks")
    case True
    let ?m = "first_missing ks f (Suc n)"
    note ih = "2.IH" [OF True]
    then have "{n..<?m} = insert n {Suc n..<?m}" by auto
    then show ?thesis using ih True by simp
  qed simp
qed simp

lemma next_expected_props:
  shows "1 \<le> next_expected h" "next_expected h \<notin> fst ` set h"
    "1 \<le> s \<Longrightarrow> s < next_expected h \<Longrightarrow> s \<in> fst ` set h"
proof -
  let ?ks = "map fst h"
  let ?m = "first_missing ?ks (length h) 1"
  have m: "1 \<le> ?m" "{1..<?m} \<subseteq> set ?ks" "?m \<notin> set ?ks \<or> ?m = 1 + length h"
    using first_missing_props [of 1 ?ks "length h"] by auto
  have "?m \<notin> set ?ks"
  proof
    assume a: "?m \<in> set ?ks"
    then have len: "?m = Suc (length h)" using m(3) by linarith
    have "insert ?m {1..<?m} \<subseteq> set ?ks" using a m(2) by blast
    then have "card (insert ?m {1..<?m}) \<le> card (set ?ks)" by (intro card_mono) simp
    moreover have "card (insert ?m {1..<?m}) = ?m" using m(1) by simp
    moreover have "card (set ?ks) \<le> length h" using card_length [of ?ks] by simp
    ultimately show False using len by linarith
  qed
  then show "1 \<le> next_expected h" "next_expected h \<notin> fst ` set h"
    using m(1) unfolding next_expected_def set_map by blast+
  show "s \<in> fst ` set h" if "1 \<le> s" "s < next_expected h"
  proof -
    have "s \<in> {1..<?m}" using that by (simp add: next_expected_def)
    then show ?thesis using m(2) unfolding set_map by blast
  qed
qed

lemma next_expected_unique:
  assumes "1 \<le> n" "n \<notin> fst ` set h" "\<And>s. 1 \<le> s \<Longrightarrow> s < n \<Longrightarrow> s \<in> fst ` set h"
  shows "next_expected h = n"
proof (rule ccontr)
  assume "next_expected h \<noteq> n"
  then consider "next_expected h < n" | "n < next_expected h" by linarith
  then show False
    by cases (use assms next_expected_props(1,2) [of h] next_expected_props(3) [of n h] in blast)+
qed

lemma next_expected_Nil [simp]: "next_expected [] = 1"
  by (simp add: next_expected_def)

declare map_of_append [simp del]

section \<open>The contract of the reorder buffer\<close>

locale reorder_buffer =
  fixes inv :: "'b \<Rightarrow> nat \<Rightarrow> bool"
    and pend :: "'b \<Rightarrow> nat \<Rightarrow> nat \<rightharpoonup> 'm"
    and put :: "'b \<Rightarrow> nat \<Rightarrow> nat \<Rightarrow> 'm \<Rightarrow> 'b option"
    and adv :: "'b \<Rightarrow> nat \<Rightarrow> 'b option"
    and tak :: "'b \<Rightarrow> nat \<Rightarrow> ('m option \<times> 'b) option"
    and weight :: "'b \<Rightarrow> nat"
  assumes put_law: "inv b n \<Longrightarrow> n < s \<Longrightarrow> \<exists>b'. put b n s m = Some b' \<and> inv b' n \<and>
      pend b' n = (if pend b n s = None then (pend b n)(s \<mapsto> m) else pend b n)"
    and adv_law: "inv b n \<Longrightarrow> \<exists>b'. adv b (n + 1) = Some b' \<and> inv b' (n + 1) \<and>
      pend b' (n + 1) = (pend b n)(n := None)"
    and tak_law: "inv b n \<Longrightarrow> \<exists>b'. tak b n = Some (pend b n n, b') \<and> inv b' n \<and>
      pend b' n = (pend b n)(n := None)"
    and tak_weight: "tak b n = Some (Some m, b') \<Longrightarrow> weight b' < weight b"
    and adv_weight: "adv b n = Some b' \<Longrightarrow> weight b' \<le> weight b"

text \<open>
  A sequencer over such a buffer: the drain loop and the admission of one arrival, given by
  the equations of the code over the buffer, the expected number and the ready queue.
\<close>

locale ordered_release = reorder_buffer inv pend put adv tak weight
  for inv :: "'b \<Rightarrow> nat \<Rightarrow> bool" and pend :: "'b \<Rightarrow> nat \<Rightarrow> nat \<rightharpoonup> 'm" and put adv tak weight +
  fixes drain :: "'b \<Rightarrow> nat \<Rightarrow> 'm list \<Rightarrow> ('b \<times> nat \<times> 'm list) option"
    and admit :: "'b \<Rightarrow> nat \<Rightarrow> nat \<Rightarrow> 'm \<Rightarrow> 'm list \<Rightarrow> ('m option \<times> 'b \<times> nat \<times> 'm list) option"
  assumes drain_eq: "drain b n rdy = (case tak b n of None \<Rightarrow> None
      | Some (None, b1) \<Rightarrow> Some (b1, n, rdy)
      | Some (Some m, b1) \<Rightarrow> (case adv b1 (n + 1) of None \<Rightarrow> None
          | Some b2 \<Rightarrow> drain b2 (n + 1) (rdy @ [m])))"
    and admit_eq: "admit b n s m rdy =
      (if s < n then Some (None, b, n, rdy)
       else if n < s then (case put b n s m of None \<Rightarrow> None | Some b1 \<Rightarrow> Some (None, b1, n, rdy))
       else (case adv b (n + 1) of None \<Rightarrow> None
         | Some b1 \<Rightarrow> (case drain b1 (n + 1) rdy of None \<Rightarrow> None
             | Some (b2, n2, rdy2) \<Rightarrow> Some (Some m, b2, n2, rdy2))))"
begin

lemma drain_ok:
  assumes "inv b n"
  shows "\<exists>b' n'. drain b n rdy = Some (b', n', rdy @ map (\<lambda>s. the (pend b n s)) [n..<n']) \<and>
    n \<le> n' \<and> inv b' n' \<and> (\<forall>s. n \<le> s \<and> s < n' \<longrightarrow> pend b n s \<noteq> None) \<and> pend b n n' = None \<and>
    pend b' n' = (\<lambda>s. if n \<le> s \<and> s < n' then None else pend b n s)"
  using assms
proof (induction "weight b" arbitrary: b n rdy rule: less_induct)
  case less
  obtain b1 where b1: "tak b n = Some (pend b n n, b1)" "inv b1 n"
    "pend b1 n = (pend b n)(n := None)"
    using tak_law [OF less.prems] by blast
  show ?case
  proof (cases "pend b n n")
    case None
    then have "pend b1 n = pend b n" using b1(3) by auto
    moreover have "drain b n rdy = Some (b1, n, rdy)"
      using None b1(1) by (subst drain_eq) simp
    moreover have "pend b n = (\<lambda>s. if n \<le> s \<and> s < n then None else pend b n s)" by (rule ext) auto
    ultimately show ?thesis
      using None b1(2) by (intro exI [of _ b1] exI [of _ n] conjI) auto
  next
    case (Some m)
    obtain b2 where b2: "adv b1 (n + 1) = Some b2" "inv b2 (n + 1)"
      "pend b2 (n + 1) = (pend b n)(n := None)"
      using adv_law [OF b1(2)] b1(3) by auto
    have "weight b2 < weight b"
      using tak_weight adv_weight [OF b2(1)] b1(1) Some by fastforce
    from less.hyps [OF this b2(2), of "rdy @ [m]"] obtain b' n' where
      b': "drain b2 (n + 1) (rdy @ [m]) =
          Some (b', n', (rdy @ [m]) @ map (\<lambda>s. the (pend b2 (n + 1) s)) [n + 1..<n'])"
        "n + 1 \<le> n'" "inv b' n'" "\<forall>s. n + 1 \<le> s \<and> s < n' \<longrightarrow> pend b2 (n + 1) s \<noteq> None"
        "pend b2 (n + 1) n' = None"
        "pend b' n' = (\<lambda>s. if n + 1 \<le> s \<and> s < n' then None else pend b2 (n + 1) s)"
      by blast
    have "[n..<n'] = n # [n + 1..<n']" using b'(2) by (simp add: upt_conv_Cons)
    then have out: "rdy @ map (\<lambda>s. the (pend b n s)) [n..<n'] =
        (rdy @ [m]) @ map (\<lambda>s. the (pend b2 (n + 1) s)) [n + 1..<n']"
      using Some b2(3) by simp
    have "drain b n rdy = Some (b', n', rdy @ map (\<lambda>s. the (pend b n s)) [n..<n'])"
      unfolding out using b1(1) b2(1) b'(1) Some by (subst drain_eq) simp
    moreover have "\<forall>s. n \<le> s \<and> s < n' \<longrightarrow> pend b n s \<noteq> None"
    proof (intro allI impI)
      fix s assume "n \<le> s \<and> s < n'"
      then show "pend b n s \<noteq> None"
        using b'(4) b2(3) Some by (cases "s = n") auto
    qed
    moreover have "pend b n n' = None" using b'(2,5) b2(3) by simp
    moreover have "pend b' n' = (\<lambda>s. if n \<le> s \<and> s < n' then None else pend b n s)"
      using b'(2,6) b2(3) by (auto simp: fun_eq_iff)
    ultimately show ?thesis
      using b'(2,3) by (intro exI [of _ b'] exI [of _ n']) simp
  qed
qed

text \<open>What the sequencer remembers of the history of its session.\<close>

definition remembers :: "'b \<Rightarrow> nat \<Rightarrow> (nat \<times> 'm) list \<Rightarrow> bool" where
  "remembers b n h \<longleftrightarrow> inv b n \<and> n = next_expected h \<and>
     pend b n = (\<lambda>s. if s < n then None else map_of h s)"

lemma map_of_snoc: "map_of (h @ [(s, m)]) u =
    (case map_of h u of Some x \<Rightarrow> Some x | None \<Rightarrow> if u = s then Some m else None)"
  by (auto simp: map_of_append map_add_def split: option.splits)

lemma admit_stale:
  assumes "remembers b n h" "0 < s" "s < n"
  shows "remembers b n (h @ [(s, m)])"
proof -
  have n: "n = next_expected h" using assms(1) by (simp add: remembers_def)
  then have s: "s \<in> fst ` set h" using next_expected_props(3) [of s h] assms by simp
  then have "map_of (h @ [(s, m)]) = map_of h"
    by (intro ext, subst map_of_snoc) (auto dest: weak_map_of_SomeI split: option.splits)
  moreover have "next_expected (h @ [(s, m)]) = n"
    using s n next_expected_props(1,2) [of h] next_expected_props(3) [of _ h]
    by (intro next_expected_unique) auto
  ultimately show ?thesis using assms(1) unfolding remembers_def by metis
qed

lemma admit_future:
  assumes "remembers b n h" "n < s"
  shows "\<exists>b'. put b n s m = Some b' \<and> remembers b' n (h @ [(s, m)])"
proof -
  obtain b' where b': "put b n s m = Some b'" "inv b' n"
    "pend b' n = (if pend b n s = None then (pend b n)(s \<mapsto> m) else pend b n)"
    using put_law [of b n s m] assms by (auto simp: remembers_def)
  have "next_expected (h @ [(s, m)]) = n"
    using assms next_expected_props(1,2) [of h] next_expected_props(3) [of _ h]
    by (intro next_expected_unique) (auto simp: remembers_def)
  moreover have "pend b' n = (\<lambda>u. if u < n then None else map_of (h @ [(s, m)]) u)"
    using assms b'(3) by (auto simp: fun_eq_iff map_of_snoc remembers_def split: option.splits)
  ultimately show ?thesis using b' by (auto simp: remembers_def)
qed

lemma admit_expected:
  fixes m :: 'm
  assumes "remembers b n h"
  defines "h' \<equiv> h @ [(n, m)]"
  shows "\<exists>b' n'. admit b n n m rdy =
      Some (Some m, b', n', rdy @ map (\<lambda>s. the (map_of h' s)) [n + 1..<n']) \<and>
    n < n' \<and> remembers b' n' h' \<and> map_of h' n = Some m"
proof -
  have inv: "inv b n" "n = next_expected h" "pend b n = (\<lambda>s. if s < n then None else map_of h s)"
    using assms(1) by (auto simp: remembers_def)
  have fresh: "map_of h n = None"
    using next_expected_props(2) [of h] inv(2) by (simp add: map_of_eq_None_iff)
  have h': "map_of h' s = map_of h s" if "s \<noteq> n" for s
    using that by (simp add: h'_def map_of_snoc split: option.splits)
  obtain b1 where b1: "adv b (n + 1) = Some b1" "inv b1 (n + 1)"
    "pend b1 (n + 1) = (pend b n)(n := None)"
    using adv_law [OF inv(1)] by blast
  have p1: "pend b1 (n + 1) = (\<lambda>s. if s \<le> n then None else map_of h' s)"
    using b1(3) inv(3) h' by (auto simp: fun_eq_iff)
  obtain b' n' where b': "drain b1 (n + 1) rdy =
      Some (b', n', rdy @ map (\<lambda>s. the (pend b1 (n + 1) s)) [n + 1..<n'])"
    "n + 1 \<le> n'" "inv b' n'" "\<forall>s. n + 1 \<le> s \<and> s < n' \<longrightarrow> pend b1 (n + 1) s \<noteq> None"
    "pend b1 (n + 1) n' = None"
    "pend b' n' = (\<lambda>s. if n + 1 \<le> s \<and> s < n' then None else pend b1 (n + 1) s)"
    using drain_ok [OF b1(2), of rdy] by blast
  have out: "map (\<lambda>s. the (pend b1 (n + 1) s)) [n + 1..<n'] =
      map (\<lambda>s. the (map_of h' s)) [n + 1..<n']"
    by (simp add: p1 [unfolded Suc_eq_plus1 [symmetric]])
  have "next_expected h' = n'"
  proof (rule next_expected_unique)
    show "1 \<le> n'" using b'(2) by simp
    show "n' \<notin> fst ` set h'" using b'(2,5) p1 by (simp add: map_of_eq_None_iff)
    fix s assume s: "1 \<le> s" "s < n'"
    show "s \<in> fst ` set h'"
    proof (cases s n rule: linorder_cases)
      case greater
      then have "map_of h' s \<noteq> None" using b'(4) p1 s(2) by simp
      then show ?thesis by (simp add: map_of_eq_None_iff)
    qed (use s(1) next_expected_props(3) [of s h] inv(2) in \<open>auto simp: h'_def\<close>)
  qed
  moreover have "pend b' n' = (\<lambda>s. if s < n' then None else map_of h' s)"
    using b'(2,6) p1 by (auto simp: fun_eq_iff)
  ultimately have "remembers b' n' h'" using b'(3) by (simp add: remembers_def)
  moreover have "map_of h' n = Some m" using fresh by (simp add: h'_def map_of_snoc)
  ultimately show ?thesis
    using b1(1) b'(1,2) out by (subst admit_eq) auto
qed

text \<open>One arrival: the sequencer releases exactly the newly contiguous numbers, in order.\<close>

lemma admit_ok:
  fixes m :: 'm
  assumes "remembers b n h" "0 < s"
  defines "h' \<equiv> h @ [(s, m)]"
  shows "\<exists>res b' n' more. admit b n s m rdy = Some (res, b', n', rdy @ more) \<and>
    n \<le> n' \<and> remembers b' n' h' \<and>
    (case res of None \<Rightarrow> [] | Some x \<Rightarrow> [x]) @ more = map (\<lambda>u. the (map_of h' u)) [n..<n']"
proof (cases s n rule: linorder_cases)
  case less
  then show ?thesis
    using admit_stale [OF assms(1,2), of m] by (subst admit_eq) (auto simp: h'_def)
next
  case greater
  then show ?thesis
    using admit_future [OF assms(1) greater, of m] by (subst admit_eq) (auto simp: h'_def)
next
  case equal
  then obtain b' n' where *: "admit b n n m rdy =
      Some (Some m, b', n', rdy @ map (\<lambda>s. the (map_of h' s)) [n + 1..<n'])"
    "n < n'" "remembers b' n' h'" "map_of h' n = Some m"
    using admit_expected [OF assms(1), of m rdy] by (auto simp: h'_def)
  then have "[n..<n'] = n # [n + 1..<n']" by (simp add: upt_conv_Cons)
  with * equal show ?thesis by auto
qed

end

interpretation ring_buffer:
  reorder_buffer buffer_inv pending buffer_insert advance take_current stored
  by unfold_locales (fact buffer_insert_ok advance_ok take_current_ok take_current_stored
      advance_stored)+

text \<open>The sequencer of the receiver, for any recorded sender.\<close>

definition seq_state :: "'l actor_addr option \<Rightarrow> 'm buffer \<Rightarrow> nat \<Rightarrow> ('l, 'm) recv_sequencer" where
  "seq_state sd b n = \<lparr>expected = n, sq_sender = sd, sq_buffer = b\<rparr>"

definition drain_parts :: "'l actor_addr option \<Rightarrow> 'm buffer \<Rightarrow> nat \<Rightarrow> 'm list
    \<Rightarrow> ('m buffer \<times> nat \<times> 'm list) option" where
  "drain_parts sd b n rdy =
     map_option (\<lambda>(sq, rdy'). (sq_buffer sq, expected sq, rdy')) (drain_ready (seq_state sd b n) rdy)"

definition admit_parts :: "'l actor_addr option \<Rightarrow> 'm buffer \<Rightarrow> nat \<Rightarrow> nat \<Rightarrow> 'm \<Rightarrow> 'm list
    \<Rightarrow> ('m option \<times> 'm buffer \<times> nat \<times> 'm list) option" where
  "admit_parts sd b n s m rdy =
     map_option (\<lambda>(res, sq, rdy'). (res, sq_buffer sq, expected sq, rdy'))
       (sequencer_admit (seq_state sd b n) s m rdy)"

lemma seq_state_sel [simp]:
  "expected (seq_state sd b n) = n" "sq_sender (seq_state sd b n) = sd"
  "sq_buffer (seq_state sd b n) = b"
  "(seq_state sd b n)\<lparr>expected := n', sq_buffer := b'\<rparr> = seq_state sd b' n'"
  "(seq_state sd b n)\<lparr>sq_buffer := b'\<rparr> = seq_state sd b' n"
  by (simp_all add: seq_state_def)

interpretation released: ordered_release
  buffer_inv pending buffer_insert advance take_current stored "drain_parts sd" "admit_parts sd"
  for sd :: "'l actor_addr option"
proof
  show "drain_parts sd b n rdy = (case take_current b n of None \<Rightarrow> None
      | Some (None, b1) \<Rightarrow> Some (b1, n, rdy)
      | Some (Some m, b1) \<Rightarrow> (case advance b1 (n + 1) of None \<Rightarrow> None
          | Some b2 \<Rightarrow> drain_parts sd b2 (n + 1) (rdy @ [m])))" for b :: "'m buffer" and n rdy
    unfolding drain_parts_def by (subst drain_ready.simps) (simp split: option.splits)
  show "admit_parts sd b n s m rdy =
      (if s < n then Some (None, b, n, rdy)
       else if n < s then (case buffer_insert b n s m of None \<Rightarrow> None | Some b1 \<Rightarrow> Some (None, b1, n, rdy))
       else (case advance b (n + 1) of None \<Rightarrow> None
         | Some b1 \<Rightarrow> (case drain_parts sd b1 (n + 1) rdy of None \<Rightarrow> None
             | Some (b2, n2, rdy2) \<Rightarrow> Some (Some m, b2, n2, rdy2))))"
    for b :: "'m buffer" and n s m rdy
    by (auto simp: admit_parts_def sequencer_admit_def drain_parts_def split: option.splits)
qed

section \<open>Sequencers and receivers against their histories\<close>

definition session_inv :: "('l, 'm) recv_sequencer \<Rightarrow> (nat \<times> 'm) list \<Rightarrow> bool" where
  "session_inv sq h \<longleftrightarrow> buffer_inv (sq_buffer sq) (expected sq) \<and> expected sq = next_expected h \<and>
     pending (sq_buffer sq) (expected sq) = (\<lambda>s. if s < expected sq then None else map_of h s)"

lemma session_inv_default: "session_inv recv_sequencer_default []"
  by (simp add: session_inv_def recv_sequencer_default_def fun_eq_iff)

definition released_list :: "'m option \<Rightarrow> 'm list" where
  "released_list res = (case res of None \<Rightarrow> [] | Some m \<Rightarrow> [m])"

lemma drain_ready_sender: "drain_ready sq rdy = Some (sq', rdy') \<Longrightarrow> sq_sender sq' = sq_sender sq"
proof (induction sq rdy rule: drain_ready.induct)
  case (1 sq rdy)
  show ?case
    using "1.prems" "1.IH" unfolding drain_ready.simps [of sq rdy]
    by (fastforce split: option.splits)
qed

lemma sequencer_admit_sender:
  "sequencer_admit sq s m rdy = Some (res, sq', rdy') \<Longrightarrow> sq_sender sq' = sq_sender sq"
  by (auto simp: sequencer_admit_def split: if_splits option.splits dest: drain_ready_sender)

lemma sequencer_admit_ok:
  fixes m :: 'm and sq :: "('l, 'm) recv_sequencer"
  assumes "session_inv sq h" "0 < s"
  defines "h' \<equiv> h @ [(s, m)]"
  shows "\<exists>res sq' more. sequencer_admit sq s m rdy = Some (res, sq', rdy @ more) \<and>
    session_inv sq' h' \<and> expected sq \<le> expected sq' \<and>
    released_list res @ more = map (\<lambda>u. the (map_of h' u)) [expected sq..<expected sq']"
proof -
  have sq: "seq_state (sq_sender sq) (sq_buffer sq) (expected sq) = sq"
    by (simp add: seq_state_def)
  have "released.remembers (sq_buffer sq) (expected sq) h"
    using assms(1) unfolding released.remembers_def session_inv_def .
  from released.admit_ok [OF this assms(2), of "sq_sender sq" m rdy] obtain res b' n' more where
    *: "admit_parts (sq_sender sq) (sq_buffer sq) (expected sq) s m rdy = Some (res, b', n', rdy @ more)"
      "expected sq \<le> n'" "released.remembers b' n' h'"
      "(case res of None \<Rightarrow> [] | Some x \<Rightarrow> [x]) @ more =
        map (\<lambda>u. the (map_of h' u)) [expected sq..<n']"
    unfolding h'_def by blast
  from *(1) obtain sq' where "sequencer_admit sq s m rdy = Some (res, sq', rdy @ more)"
    "b' = sq_buffer sq'" "n' = expected sq'"
    by (auto simp: admit_parts_def sq)
  with *(2-4) show ?thesis
    by (auto simp: session_inv_def released.remembers_def released_list_def)
qed

text \<open>The arrivals of one session among the items of a channel.\<close>

definition session_history :: "uuid \<Rightarrow> ('l, 'm) envelope list \<Rightarrow> (nat \<times> 'm) list" where
  "session_history sid items =
     concat (map (\<lambda>e. case env_seq_info e of
        Session sid' s \<Rightarrow> if sid' = sid then [(s, env_message e)] else []
      | Direct \<Rightarrow> []) items)"

lemma session_history_snoc:
  "session_history sid (es @ [e]) = session_history sid es @ session_history sid [e]"
  by (simp add: session_history_def)

text \<open>What the arrival of an item releases, given the items before it.\<close>

definition releases :: "('l, 'm) envelope list \<Rightarrow> ('l, 'm) envelope \<Rightarrow> 'm list" where
  "releases seen e = (case env_seq_info e of
     Direct \<Rightarrow> [env_message e]
   | Session sid s \<Rightarrow>
       (let h = session_history sid seen; h' = h @ [(s, env_message e)]
        in map (\<lambda>u. the (map_of h' u)) [next_expected h..<next_expected h']))"

fun release_all :: "('l, 'm) envelope list \<Rightarrow> ('l, 'm) envelope list \<Rightarrow> 'm list" where
  "release_all seen [] = []"
| "release_all seen (e # es) = releases seen e @ release_all (seen @ [e]) es"

definition receiver_inv :: "('l, 'm) receiver \<Rightarrow> ('l, 'm) envelope list \<Rightarrow> bool" where
  "receiver_inv r seen \<longleftrightarrow> enable_buffering r \<and>
     (\<forall>sid. case senders r sid of
        None \<Rightarrow> session_history sid seen = []
      | Some sq \<Rightarrow> session_inv sq (session_history sid seen))"

lemma receiver_inv_new: "receiver_inv (receiver_new q True) []"
  by (simp add: receiver_inv_def receiver_new_def session_history_def)

lemma session_inv_sender [simp]: "session_inv (sq\<lparr>sq_sender := sd\<rparr>) h = session_inv sq h"
  by (simp add: session_inv_def)

lemma receiver_admit_ok:
  assumes "receiver_inv r seen" "is_valid (env_seq_info e)"
  shows "\<exists>res r' more. receiver_admit r e = Some (res, r') \<and> receiver_inv r' (seen @ [e]) \<and>
    rx r' = rx r \<and> ready r' = ready r @ more \<and> released_list res @ more = releases seen e"
proof (cases "env_seq_info e")
  case Direct
  then show ?thesis
    using assms by (auto simp: receiver_admit_def receiver_inv_def releases_def released_list_def
        session_history_snoc session_history_def cong: option.case_cong)
next
  case (Session sid s)
  define sq where "sq = (case senders r sid of None \<Rightarrow> recv_sequencer_default | Some sq \<Rightarrow> sq)"
  define sq1 where "sq1 = (if sq_sender sq = None then sq\<lparr>sq_sender := env_sender e\<rparr> else sq)"
  have s: "0 < s" using assms(2) Session by (simp add: is_valid_def)
  have buf: "enable_buffering r" using assms(1) by (simp add: receiver_inv_def)
  let ?h = "session_history sid seen"
  have "(case senders r sid of None \<Rightarrow> ?h = [] | Some sq \<Rightarrow> session_inv sq ?h)"
    using assms(1) by (simp add: receiver_inv_def)
  then have "session_inv sq ?h"
    by (cases "senders r sid") (simp_all add: sq_def session_inv_default)
  then have sq1: "session_inv sq1 ?h" by (simp add: sq1_def)
  have hist: "session_history sid' (seen @ [e]) =
      (if sid' = sid then ?h @ [(s, env_message e)] else session_history sid' seen)" for sid'
    unfolding session_history_snoc using Session by (auto simp: session_history_def)
  obtain res sq' more where
    *: "sequencer_admit sq1 s (env_message e) (ready r) = Some (res, sq', ready r @ more)"
      "session_inv sq' (?h @ [(s, env_message e)])"
      "released_list res @ more =
        map (\<lambda>u. the (map_of (?h @ [(s, env_message e)]) u)) [expected sq1..<expected sq']"
    using sequencer_admit_ok [OF sq1 s] by blast
  let ?r = "r\<lparr>senders := (senders r)(sid \<mapsto> sq'), ready := ready r @ more\<rparr>"
  have "receiver_admit r e = Some (res, ?r)"
    unfolding receiver_admit_def Let_def Session seq_info.case sq_def [symmetric] sq1_def [symmetric]
    using *(1) s buf by simp
  moreover have "receiver_inv ?r (seen @ [e])"
    using assms(1) *(2) unfolding receiver_inv_def hist by simp
  moreover have "releases seen e = released_list res @ more"
    using *(2,3) sq1 Session by (simp add: releases_def session_inv_def Let_def)
  ultimately show ?thesis by auto
qed

section \<open>Draining the channel\<close>

text \<open>
  Everything still to be delivered: the ready queue, then what the queued items will release.
  One \<open>try_recv\<close> returns the head of that stream, and reports an empty channel only
  when the stream is empty.
\<close>

definition upcoming :: "('l, 'm) receiver \<Rightarrow> ('l, 'm) envelope list \<Rightarrow> 'm list" where
  "upcoming r seen = ready r @ release_all seen (rx r)"

lemma try_recv_ok:
  assumes "receiver_inv r seen" "\<forall>e \<in> set (rx r). is_valid (env_seq_info e)"
  shows "\<exists>res r' seen'. try_recv r = Some (res, r') \<and> receiver_inv r' seen' \<and>
    seen' @ rx r' = seen @ rx r \<and> upcoming r seen = released_list res @ upcoming r' seen' \<and>
    (res = None \<longrightarrow> rx r' = [] \<and> upcoming r seen = []) \<and> set (rx r') \<subseteq> set (rx r)"
  using assms
proof (induction r arbitrary: seen rule: try_recv.induct)
  case (1 r)
  show ?case
  proof (cases "ready r")
    case (Cons m ms)
    then show ?thesis
      using "1.prems" by (subst try_recv.simps)
        (auto simp: upcoming_def released_list_def receiver_inv_def intro!: exI [of _ seen])
  next
    case Nil
    show ?thesis
    proof (cases "rx r")
      case Nil
      then show ?thesis
        using "1.prems" \<open>ready r = []\<close> by (subst try_recv.simps)
          (auto simp: upcoming_def released_list_def intro!: exI [of _ seen])
    next
      case (Cons e es)
      have "receiver_inv (r\<lparr>rx := es\<rparr>) seen" using "1.prems"(1) by (simp add: receiver_inv_def)
      then obtain res r' more where *: "receiver_admit (r\<lparr>rx := es\<rparr>) e = Some (res, r')"
        "receiver_inv r' (seen @ [e])" "rx r' = es" "ready r' = more"
        "released_list res @ more = releases seen e"
        using receiver_admit_ok [of "r\<lparr>rx := es\<rparr>" seen e] "1.prems"(2) Cons Nil by auto
      have up: "upcoming r seen = released_list res @ upcoming r' (seen @ [e])"
        using Nil Cons *(3-5) by (simp add: upcoming_def)
      have valid: "\<forall>e \<in> set (rx r'). is_valid (env_seq_info e)"
        using "1.prems"(2) Cons *(3) by simp
      show ?thesis
      proof (cases res)
        case None
        have step: "try_recv r = try_recv r'"
          using Nil Cons *(1) None by (subst try_recv.simps) simp
        from "1.IH" [OF Nil Cons *(1) refl None *(2) valid] up show ?thesis
          using None Cons *(3) by (fastforce simp: step released_list_def)
      next
        case (Some m)
        have "try_recv r = Some (Some m, r')"
          using Nil Cons *(1) Some by (subst try_recv.simps) simp
        then show ?thesis
          using *(2,3) up Some Cons by (auto intro!: exI [of _ "seen @ [e]"])
      qed
    qed
  qed
qed

text \<open>Repeated \<open>try_recv\<close> until the channel is empty, at most \<open>fuel\<close> times.\<close>

fun recv_all :: "nat \<Rightarrow> ('l, 'm) receiver \<Rightarrow> ('m list \<times> ('l, 'm) receiver) option" where
  "recv_all 0 r = None"
| "recv_all (Suc fuel) r =
     (case try_recv r of
        None \<Rightarrow> None
      | Some (None, r') \<Rightarrow> Some ([], r')
      | Some (Some m, r') \<Rightarrow> map_option (\<lambda>(ms, r''). (m # ms, r'')) (recv_all fuel r'))"

lemma recv_all_ok:
  assumes "receiver_inv r seen" "\<forall>e \<in> set (rx r). is_valid (env_seq_info e)"
    "length (upcoming r seen) < fuel"
  shows "\<exists>r'. recv_all fuel r = Some (upcoming r seen, r') \<and> receiver_inv r' (seen @ rx r) \<and>
    rx r' = []"
  using assms
proof (induction fuel arbitrary: r seen)
  case (Suc fuel)
  obtain res r' seen' where *: "try_recv r = Some (res, r')" "receiver_inv r' seen'"
    "seen' @ rx r' = seen @ rx r" "upcoming r seen = released_list res @ upcoming r' seen'"
    "res = None \<longrightarrow> rx r' = [] \<and> upcoming r seen = []" "set (rx r') \<subseteq> set (rx r)"
    using try_recv_ok [OF Suc.prems(1,2)] by blast
  show ?case
  proof (cases res)
    case None
    then show ?thesis using * by auto
  next
    case (Some m)
    have "\<forall>e \<in> set (rx r'). is_valid (env_seq_info e)" "length (upcoming r' seen') < fuel"
      using Suc.prems(2,3) *(4,6) Some by (auto simp: released_list_def)
    from Suc.IH [OF *(2) this] show ?thesis
      using *(1,3,4) Some by (auto simp: released_list_def)
  qed
qed simp

section \<open>One session among many\<close>

definition of_session :: "uuid \<Rightarrow> ('l, 'm) envelope \<Rightarrow> bool" where
  "of_session sid e = (case env_seq_info e of Session sid' _ \<Rightarrow> sid' = sid | Direct \<Rightarrow> False)"

text \<open>Each item with the messages its arrival releases.\<close>

fun release_trace :: "('l, 'm) envelope list \<Rightarrow> ('l, 'm) envelope list
    \<Rightarrow> (('l, 'm) envelope \<times> 'm list) list" where
  "release_trace seen [] = []"
| "release_trace seen (e # es) = (e, releases seen e) # release_trace (seen @ [e]) es"

lemma release_all_trace: "release_all seen es = concat (map snd (release_trace seen es))"
  by (induction es arbitrary: seen) auto

lemma release_trace_items: "map fst (release_trace seen es) = es"
  by (induction es arbitrary: seen) auto

lemma release_trace_direct:
  "\<forall>(e, rel) \<in> set (release_trace seen es). env_seq_info e = Direct \<longrightarrow> rel = [env_message e]"
  by (induction es arbitrary: seen) (auto simp: releases_def)

lemma map_of_first: "u \<in> fst ` set h \<Longrightarrow> map_of (h @ h') u = map_of h u"
  using map_of_eq_None_iff [of h u] by (auto simp: map_of_append map_add_def split: option.splits)

lemma next_expected_mono: "next_expected h \<le> next_expected (h @ h')"
proof (rule ccontr)
  assume "\<not> ?thesis"
  then have "next_expected (h @ h') \<in> fst ` set h"
    using next_expected_props(1) [of "h @ h'"] by (intro next_expected_props(3)) auto
  then show False using next_expected_props(2) [of "h @ h'"] by auto
qed

lemma session_releases:
  "concat (map snd (filter (\<lambda>(e, _). of_session sid e) (release_trace seen es))) =
   map (\<lambda>u. the (map_of (session_history sid (seen @ es)) u))
     [next_expected (session_history sid seen)..<next_expected (session_history sid (seen @ es))]"
proof (induction es arbitrary: seen)
  case (Cons e es)
  let ?h = "session_history sid seen"
  let ?h1 = "session_history sid (seen @ [e])"
  let ?h2 = "session_history sid (seen @ e # es)"
  have h2: "?h2 = ?h1 @ session_history sid es" by (simp add: session_history_def)
  have h1: "?h1 = ?h @ session_history sid [e]" by (rule session_history_snoc)
  show ?case
  proof (cases "of_session sid e")
    case True
    then obtain s where e: "env_seq_info e = Session sid s"
      by (auto simp: of_session_def split: seq_info.splits)
    then have h1': "?h1 = ?h @ [(s, env_message e)]"
      by (simp add: h1) (simp add: session_history_def)
    have "releases seen e = map (\<lambda>u. the (map_of ?h1 u)) [next_expected ?h..<next_expected ?h1]"
      using e by (simp add: releases_def Let_def h1')
    also have "\<dots> = map (\<lambda>u. the (map_of ?h2 u)) [next_expected ?h..<next_expected ?h1]"
      using next_expected_props(3) [of _ ?h1] next_expected_props(1) [of ?h] unfolding h2
      by (auto simp: map_of_first)
    finally have "releases seen e @ map (\<lambda>u. the (map_of ?h2 u)) [next_expected ?h1..<next_expected ?h2] =
        map (\<lambda>u. the (map_of ?h2 u)) [next_expected ?h..<next_expected ?h2]"
      using next_expected_mono [of ?h "session_history sid [e]"]
        next_expected_mono [of ?h1 "session_history sid es"] unfolding h1 [symmetric] h2 [symmetric]
      by (simp add: le_Suc_ex upt_add_eq_append flip: map_append)
        (metis le_Suc_ex upt_add_eq_append)
    then show ?thesis using True Cons.IH [of "seen @ [e]"] by simp
  next
    case False
    then have "session_history sid [e] = []"
      by (auto simp: of_session_def session_history_def split: seq_info.splits)
    then show ?thesis using False Cons.IH [of "seen @ [e]"] h1 by simp
  qed
qed simp

section \<open>Snapshots\<close>

definition opt_hd :: "'a list \<Rightarrow> 'a option" where
  "opt_hd xs = (case xs of [] \<Rightarrow> None | x # _ \<Rightarrow> Some x)"

definition opt_last :: "'a list \<Rightarrow> 'a option" where
  "opt_last xs = opt_hd (rev xs)"

definition summary :: "nat list \<Rightarrow> nat \<times> nat option \<times> nat option" where
  "summary xs = (length xs, opt_hd xs, opt_last xs)"

lemma summary_snoc:
  assumes "sorted_wrt (<) (xs @ [s])"
  shows "summary (xs @ [s]) = (length xs + 1,
    Some (case opt_hd xs of None \<Rightarrow> s | Some x \<Rightarrow> min x s),
    Some (case opt_last xs of None \<Rightarrow> s | Some x \<Rightarrow> max x s))"
proof -
  have "opt_hd (xs @ [s]) = Some (case opt_hd xs of None \<Rightarrow> s | Some x \<Rightarrow> min x s)"
    using assms by (cases xs) (auto simp: opt_hd_def)
  moreover have "opt_last (xs @ [s]) = Some (case opt_last xs of None \<Rightarrow> s | Some x \<Rightarrow> max x s)"
    using assms by (cases xs rule: rev_cases) (auto simp: opt_last_def opt_hd_def sorted_wrt_append)
  ultimately show ?thesis by (simp add: summary_def)
qed

lemma snapshot_loop_summary:
  assumes "sorted_wrt (<) offs" "sorted_wrt (<) acc" "\<forall>x \<in> set acc. \<forall>off \<in> set offs. x < n + off"
  shows "snapshot_loop b n offs (summary acc) =
    summary (acc @ map (\<lambda>off. n + off) (filter (\<lambda>off. slot b off \<noteq> None) offs))"
  using assms
proof (induction offs arbitrary: acc)
  case (Cons off offs)
  show ?case
  proof (cases "slot b off = None")
    case True
    then show ?thesis
      using Cons.IH [of acc] Cons.prems by (simp add: summary_def slot_def)
  next
    case False
    have acc: "sorted_wrt (<) (acc @ [n + off])"
      using Cons.prems by (auto simp: sorted_wrt_append)
    from Cons.IH [of "acc @ [n + off]"] acc Cons.prems
    have "snapshot_loop b n offs (summary (acc @ [n + off])) =
        summary (acc @ map (\<lambda>off. n + off) (filter (\<lambda>off. slot b off \<noteq> None) (off # offs)))"
      using False by auto
    moreover have "snapshot_loop b n (off # offs) (summary acc) =
        snapshot_loop b n offs (summary (acc @ [n + off]))"
      using False summary_snoc [OF acc] by (simp add: summary_def slot_def Let_def)
    ultimately show ?thesis by simp
  qed
qed simp

text \<open>The buffered sequence numbers, in ascending order.\<close>

definition buffered_seqs :: "'m buffer \<Rightarrow> nat \<Rightarrow> nat list" where
  "buffered_seqs b n =
     map (\<lambda>off. n + off) (filter (\<lambda>off. slot b off \<noteq> None) [0..<length (ring b)]) @
     (case spillover b of None \<Rightarrow> [] | Some sp \<Rightarrow> map fst sp)"

lemma buffered_seqs_props:
  assumes "buffer_inv b n"
  shows "sorted_wrt (<) (buffered_seqs b n)" "set (buffered_seqs b n) = dom (pending b n)"
proof -
  define sp where "sp = (case spillover b of None \<Rightarrow> [] | Some sp \<Rightarrow> map fst sp)"
  define L where "L = map (\<lambda>off. n + off) (filter (\<lambda>off. slot b off \<noteq> None) [0..<length (ring b)])"
  have sp: "sorted_wrt (<) sp" "\<forall>k \<in> set sp. n + length (ring b) \<le> k"
    using assms by (cases "spillover b"; simp add: sp_def buffer_inv_def)+
  have "sorted_wrt (<) L" by (auto simp: L_def sorted_wrt_map intro!: sorted_wrt_filter)
  moreover have "\<forall>x \<in> set L. x < n + length (ring b)" by (auto simp: L_def)
  ultimately have "sorted_wrt (<) (L @ sp)"
    using sp by (fastforce simp: sorted_wrt_append)
  then show "sorted_wrt (<) (buffered_seqs b n)"
    unfolding buffered_seqs_def sp_def [symmetric] L_def [symmetric] .
  have dom_sp: "set sp = dom (spill_map (spillover b))"
    by (auto simp: sp_def spill_map_def dom_map_of_conv_image_fst split: option.splits)
  have "s \<in> set L \<union> set sp \<longleftrightarrow> pending b n s \<noteq> None" for s
  proof (cases "n \<le> s")
    case True
    then obtain off where "s = n + off" using le_Suc_ex by blast
    then show ?thesis
      unfolding dom_sp by (auto simp: pending_at L_def split: option.splits)
  next
    case False
    then show ?thesis unfolding dom_sp by (auto simp: pending_lt L_def)
  qed
  then show "set (buffered_seqs b n) = dom (pending b n)"
    unfolding buffered_seqs_def sp_def [symmetric] L_def [symmetric] by auto
qed

lemma buffer_snapshot_summary:
  assumes "buffer_inv b n"
  shows "buffer_snapshot b n = summary (buffered_seqs b n)"
proof -
  let ?L = "map (\<lambda>off. n + off) (filter (\<lambda>off. slot b off \<noteq> None) [0..<length (ring b)])"
  have loop: "snapshot_loop b n [0..<length (ring b)] (0, None, None) = summary ?L"
    using snapshot_loop_summary [of "[0..<length (ring b)]" "[]" n b]
    by (simp add: summary_def opt_hd_def opt_last_def)
  show ?thesis
  proof (cases "spillover b")
    case None
    then show ?thesis
      using loop by (simp add: buffer_snapshot_def buffered_seqs_def summary_def)
  next
    case (Some sp)
    then have ne: "sp \<noteq> []" using assms by (simp add: buffer_inv_def)
    have srt: "sorted_wrt (<) (?L @ map fst sp)"
      using buffered_seqs_props(1) [OF assms] Some by (simp add: buffered_seqs_def)
    have "opt_hd (?L @ map fst sp) =
        Some (case opt_hd ?L of None \<Rightarrow> fst (hd sp) | Some x \<Rightarrow> min x (fst (hd sp)))"
      using srt ne by (cases ?L; cases sp) (auto simp: opt_hd_def)
    moreover have "opt_last (?L @ map fst sp) =
        Some (case opt_last ?L of None \<Rightarrow> fst (last sp) | Some x \<Rightarrow> max x (fst (last sp)))"
      using srt ne by (cases ?L rule: rev_cases; cases sp rule: rev_cases)
        (auto simp: opt_last_def opt_hd_def sorted_wrt_append)
    ultimately show ?thesis
      using loop Some ne by (simp add: buffer_snapshot_def buffered_seqs_def summary_def)
  qed
qed

section \<open>Reachable receivers\<close>

lemma recv_all_inv:
  assumes "receiver_inv r seen" "\<forall>e \<in> set (rx r). is_valid (env_seq_info e)"
    "recv_all fuel r = Some (out, r')"
  shows "receiver_inv r' (seen @ rx r) \<and> out = upcoming r seen \<and> rx r' = []"
  using assms
proof (induction fuel arbitrary: r seen out)
  case (Suc fuel)
  obtain res r1 seen1 where *: "try_recv r = Some (res, r1)" "receiver_inv r1 seen1"
    "seen1 @ rx r1 = seen @ rx r" "upcoming r seen = released_list res @ upcoming r1 seen1"
    "res = None \<longrightarrow> rx r1 = [] \<and> upcoming r seen = []" "set (rx r1) \<subseteq> set (rx r)"
    using try_recv_ok [OF Suc.prems(1,2)] by blast
  show ?case
  proof (cases res)
    case None
    with Suc.prems(3) * show ?thesis by auto
  next
    case (Some m)
    then obtain out1 where "recv_all fuel r1 = Some (out1, r')" "out = m # out1"
      using Suc.prems(3) *(1) by auto
    moreover have "\<forall>e \<in> set (rx r1). is_valid (env_seq_info e)" using Suc.prems(2) *(6) by auto
    ultimately show ?thesis
      using Suc.IH [OF *(2), of out1] *(3,4) Some by (simp add: released_list_def)
  qed
qed simp

lemma reachable_inv:
  assumes "recv_all fuel (receiver_new items True) = Some (out, r)"
    "\<forall>e \<in> set items. is_valid (env_seq_info e)"
  shows "receiver_inv r items \<and> out = release_all [] items"
proof -
  have rx: "rx (receiver_new items True) = items" "ready (receiver_new items True) = []"
    by (simp_all add: receiver_new_def)
  show ?thesis
    using recv_all_inv [OF receiver_inv_new, of items fuel out r] assms by (simp add: rx upcoming_def)
qed

section \<open>Properties\<close>

text \<open>C4: The receiver delivers in order. For any items in the channel with valid numbers, from
  any number of senders in any order, with gaps, repetitions and numbers far ahead: repeated
  \<open>try_recv\<close> (given enough calls) empties the channel without a panic. What one session
  delivers is the first message that arrived for each of the numbers 1, 2, 3, ... up to the
  first number that never arrived: in order, nothing lost, nothing twice. Unsequenced messages
  are delivered at once.\<close>

theorem receiver_in_order:
  assumes "\<forall>e \<in> set items. is_valid (env_seq_info e)"
    and "length (concat (map snd (release_trace [] items))) < fuel"
  shows "\<exists>trace r. recv_all fuel (receiver_new items True) = Some (concat (map snd trace), r) \<and>
    rx r = [] \<and> map fst trace = items \<and>
    (\<forall>sid. concat (map snd (filter (\<lambda>(e, _). of_session sid e) trace)) =
       map (\<lambda>u. the (map_of (session_history sid items) u))
         [1..<next_expected (session_history sid items)]) \<and>
    (\<forall>(e, rel) \<in> set trace. env_seq_info e = Direct \<longrightarrow> rel = [env_message e])"
proof -
  let ?r = "receiver_new items True"
  let ?t = "release_trace [] items"
  have r: "rx ?r = items" "ready ?r = []" by (simp_all add: receiver_new_def)
  have up: "upcoming ?r [] = concat (map snd ?t)"
    by (simp add: upcoming_def r release_all_trace)
  obtain r' where "recv_all fuel ?r = Some (concat (map snd ?t), r')" "rx r' = []"
    using recv_all_ok [OF receiver_inv_new, of items fuel] assms r(1) up by auto
  moreover have "concat (map snd (filter (\<lambda>(e, _). of_session sid e) ?t)) =
      map (\<lambda>u. the (map_of (session_history sid items) u))
        [1..<next_expected (session_history sid items)]" for sid
    using session_releases [of sid "[]" items] by (simp add: session_history_def)
  ultimately show ?thesis
    using release_trace_items [of "[]" items] release_trace_direct [of "[]" items] by blast
qed

definition item :: "seq_info \<Rightarrow> nat \<Rightarrow> (nat, nat) envelope" where
  "item i m = \<lparr>env_seq_info = i, env_sender = None, env_message = m\<rparr>"

theorem receiver_in_order_witness:
  "\<exists>trace r. recv_all 9 (receiver_new [item (Session 1 2) 20, item (Session 5 1) 50,
      item (Session 1 1) 10, item (Session 1 2) 21] True) = Some (concat (map snd trace), r) \<and>
    map fst trace = [item (Session 1 2) 20, item (Session 5 1) 50,
      item (Session 1 1) 10, item (Session 1 2) 21] \<and>
    concat (map snd (filter (\<lambda>(e, _). of_session 1 e) trace)) = [10, 20]"
proof -
  let ?items = "[item (Session 1 2) 20, item (Session 5 1) 50, item (Session 1 1) 10,
    item (Session 1 2) 21]"
  have v: "\<forall>e \<in> set ?items. is_valid (env_seq_info e)"
    by (simp add: item_def is_valid_def)
  have h: "session_history 1 ?items = [(2, 20), (1, 10), (2, 21)]" by code_simp
  have out: "map (\<lambda>u. the (map_of [(2, 20), (1, 10), (2, 21 :: nat)] u))
      [1..<next_expected [(2, 20), (1, 10), (2, 21 :: nat)]] = [10, 20]" by code_simp
  have len: "length (concat (map snd (release_trace [] ?items))) < 9" by code_simp
  from receiver_in_order [OF v len] obtain trace r where
    "recv_all 9 (receiver_new ?items True) = Some (concat (map snd trace), r)"
    "map fst trace = ?items"
    and all: "\<forall>sid. concat (map snd (filter (\<lambda>(e, _). of_session sid e) trace)) =
      map (\<lambda>u. the (map_of (session_history sid ?items) u)) [1..<next_expected (session_history sid ?items)]"
    by (elim exE conjE) (rule that, assumption+)
  moreover have "concat (map snd (filter (\<lambda>(e, _). of_session 1 e) trace)) = [10, 20]"
    using all [rule_format, of 1] unfolding h out .
  ultimately show ?thesis by (intro exI conjI)
qed

text \<open>One arrival at a sequencer that has seen the history \<open>h\<close>: a positive number never
  panics, exactly the numbers that have become contiguous are released, in order, the expected
  number becomes the first that is missing, and the invariant is kept.\<close>

theorem sequencer_admit_releases:
  assumes "session_inv sq h" "0 < s"
  shows "\<exists>res sq' more. sequencer_admit sq s m rdy = Some (res, sq', rdy @ more) \<and>
    session_inv sq' (h @ [(s, m)]) \<and> expected sq' = next_expected (h @ [(s, m)]) \<and>
    sq_sender sq' = sq_sender sq \<and>
    released_list res @ more =
      map (\<lambda>u. the (map_of (h @ [(s, m)]) u)) [next_expected h..<next_expected (h @ [(s, m)])]"
proof -
  obtain res sq' more where *: "sequencer_admit sq s m rdy = Some (res, sq', rdy @ more)"
    "session_inv sq' (h @ [(s, m)])"
    "released_list res @ more = map (\<lambda>u. the (map_of (h @ [(s, m)]) u)) [expected sq..<expected sq']"
    using sequencer_admit_ok [OF assms] by blast
  moreover have "expected sq = next_expected h" "expected sq' = next_expected (h @ [(s, m)])"
    using assms(1) *(2) by (simp_all add: session_inv_def)
  ultimately show ?thesis using sequencer_admit_sender by metis
qed

theorem sequencer_admit_releases_witness:
  "\<exists>res (sq' :: (nat, nat) recv_sequencer) more.
     sequencer_admit recv_sequencer_default 1 10 [] = Some (res, sq', more) \<and> expected sq' = 2"
proof -
  have "next_expected ([] @ [(1, 10 :: nat)]) = 2" by code_simp
  then show ?thesis
    using sequencer_admit_releases [OF session_inv_default, of 1 10 "[]"] by fastforce
qed

text \<open>C16: The ring buffer with spillover implements a map from future sequence numbers to
  messages: inserting a future number adds it unless one is already stored, advancing past the
  expected number forgets it, taking the current number removes and returns it. No operation
  panics, and each keeps the invariant (at most 32 slots, spilled numbers beyond the
  window).\<close>

theorem buffer_refines_map:
  assumes "buffer_inv b n"
  shows "(\<forall>s > n. \<forall>m. \<exists>b'. buffer_insert b n s m = Some b' \<and> buffer_inv b' n \<and>
      pending b' n = (if pending b n s = None then (pending b n)(s \<mapsto> m) else pending b n)) \<and>
    (\<exists>b'. advance b (n + 1) = Some b' \<and> buffer_inv b' (n + 1) \<and>
      pending b' (n + 1) = (pending b n)(n := None)) \<and>
    (\<exists>b'. take_current b n = Some (pending b n n, b') \<and> buffer_inv b' n \<and>
      pending b' n = (pending b n)(n := None))"
  using ring_buffer.put_law [OF assms] ring_buffer.adv_law [OF assms] ring_buffer.tak_law [OF assms]
  by blast

theorem buffer_refines_map_witness:
  "\<exists>b'. buffer_insert buffer_default 1 40 (7 :: nat) = Some b' \<and> buffer_inv b' 1 \<and>
     pending b' 1 = [40 \<mapsto> 7]"
  using buffer_refines_map [OF buffer_inv_default, THEN conjunct1, rule_format, of 1 40 7] by simp

text \<open>The snapshot of a reachable receiver is exact: for each session the released prefix is
  the contiguous one, and the buffered count, oldest and newest numbers are those of the
  arrived numbers beyond it.\<close>

theorem snapshot_exact:
  assumes "recv_all fuel (receiver_new items True) = Some (out, r)"
    "\<forall>e \<in> set items. is_valid (env_seq_info e)" "senders r sid = Some sq"
  shows "\<exists>q. sorted_wrt (<) q \<and>
    set q = {s \<in> fst ` set (session_history sid items). next_expected (session_history sid items) < s} \<and>
    session_entry sid sq =
      \<lparr>snap_session = sid, snap_sender = sq_sender sq,
       last_released_seq = next_expected (session_history sid items) - 1,
       expected_next_seq = next_expected (session_history sid items),
       buffered_count = length q, oldest_buffered_seq = opt_hd q, newest_buffered_seq = opt_last q\<rparr>"
proof -
  let ?h = "session_history sid items"
  have "case senders r sid of None \<Rightarrow> ?h = [] | Some sq \<Rightarrow> session_inv sq ?h"
    using reachable_inv [OF assms(1,2)] unfolding receiver_inv_def by blast
  then have inv: "session_inv sq ?h" using assms(3) by simp
  then have b: "buffer_inv (sq_buffer sq) (expected sq)" "expected sq = next_expected ?h"
    and p: "pending (sq_buffer sq) (expected sq) = (\<lambda>s. if s < expected sq then None else map_of ?h s)"
    unfolding session_inv_def by blast+
  let ?q = "buffered_seqs (sq_buffer sq) (expected sq)"
  have "set ?q = {s. \<not> s < expected sq \<and> map_of ?h s \<noteq> None}"
    unfolding buffered_seqs_props(2) [OF b(1)] p by (auto simp: dom_def)
  also have "\<dots> = {s \<in> fst ` set ?h. next_expected ?h < s}"
    using next_expected_props(2) [of ?h] unfolding b(2) map_of_eq_None_iff
    by (auto simp: le_less not_less)
  finally have "set ?q = {s \<in> fst ` set ?h. next_expected ?h < s}" .
  moreover have "session_entry sid sq =
      \<lparr>snap_session = sid, snap_sender = sq_sender sq,
       last_released_seq = next_expected ?h - 1, expected_next_seq = next_expected ?h,
       buffered_count = length ?q, oldest_buffered_seq = opt_hd ?q, newest_buffered_seq = opt_last ?q\<rparr>"
    using buffer_snapshot_summary [OF b(1)] b(2) by (simp add: session_entry_def summary_def)
  ultimately show ?thesis using buffered_seqs_props(1) [OF b(1)] by blast
qed

theorem snapshot_exact_witness:
  "\<exists>out r. recv_all 9 (receiver_new [item (Session 1 3) 30, item (Session 1 1) 10] True) = Some (out, r) \<and>
     (\<forall>sq. senders r 1 = Some sq \<longrightarrow> last_released_seq (session_entry 1 sq) = 1)"
proof -
  let ?items = "[item (Session 1 3) 30, item (Session 1 1) 10]"
  have v: "\<forall>e \<in> set ?items. is_valid (env_seq_info e)" by (simp add: item_def is_valid_def)
  have n: "next_expected (session_history 1 ?items) = 2" by code_simp
  have "length (upcoming (receiver_new ?items True) []) < 9" by code_simp
  then obtain out r where r: "recv_all 9 (receiver_new ?items True) = Some (out, r)"
    using recv_all_ok [OF receiver_inv_new, of ?items 9] v by (auto simp: receiver_new_def)
  moreover have "last_released_seq (session_entry 1 sq) = 1" if sq: "senders r 1 = Some sq" for sq
    using snapshot_exact [OF r v sq] n by fastforce
  ultimately show ?thesis by blast
qed

text \<open>The delivery progress a snapshot reports for a session it knows is the number of the
  last message released to the actor, that is, the length of the contiguous prefix of the
  arrived numbers.\<close>

theorem delivery_progress_exact:
  assumes "recv_all fuel (receiver_new items True) = Some (out, r)"
    "\<forall>e \<in> set items. is_valid (env_seq_info e)" "sid \<in> set sids" "senders r sid = Some sq"
  shows "delivery_progress_for_session (snapshot False sids r) sid =
    Some (next_expected (session_history sid items) - 1)"
proof -
  have inv: "receiver_inv r items" using reachable_inv [OF assms(1,2)] by blast
  let ?L = "List.map_filter (\<lambda>sid. map_option (session_entry sid) (senders r sid)) sids"
  let ?P = "\<lambda>x. snap_session x = sid"
  have sel: "snap_session (session_entry u q) = u" "last_released_seq (session_entry u q) = expected q - 1"
    for u :: uuid and q :: "('b, 'a) recv_sequencer"
    by (simp_all add: session_entry_def case_prod_unfold Let_def)
  have mem: "x \<in> set ?L \<longleftrightarrow> (\<exists>u \<in> set sids. \<exists>q. senders r u = Some q \<and> x = session_entry u q)" for x
    by (force simp: map_filter_def split: option.splits)
  have "session_entry sid sq \<in> set (sort_key snap_session ?L)"
    using assms(3,4) by (auto simp: mem)
  then have "find ?P (sort_key snap_session ?L) \<noteq> None"
    unfolding find_None_iff using sel(1) [of sid sq] by metis
  then obtain x where x: "find ?P (sort_key snap_session ?L) = Some x" by blast
  then have "x \<in> set (sort_key snap_session ?L)" "snap_session x = sid"
    unfolding find_Some_iff by (metis nth_mem)+
  then have "x \<in> set ?L" "snap_session x = sid" by simp_all
  then have "last_released_seq x = expected sq - 1"
    using mem [of x] assms(4) sel by auto
  moreover have "session_inv sq (session_history sid items)"
    using inv assms(4) unfolding receiver_inv_def by (metis option.simps(5))
  ultimately show ?thesis
    using x inv by (simp add: delivery_progress_for_session_def snapshot_def is_complete_def
        receiver_inv_def session_inv_def)
qed

theorem delivery_progress_exact_witness:
  "\<exists>out r. recv_all 9 (receiver_new [item (Session 1 3) 30, item (Session 1 1) 10] True) = Some (out, r) \<and>
     (\<forall>sq. senders r 1 = Some sq \<longrightarrow> delivery_progress_for_session (snapshot False [1] r) 1 = Some 1)"
proof -
  let ?items = "[item (Session 1 3) 30, item (Session 1 1) 10]"
  have v: "\<forall>e \<in> set ?items. is_valid (env_seq_info e)" by (simp add: item_def is_valid_def)
  have n: "next_expected (session_history 1 ?items) = 2" by code_simp
  have "length (upcoming (receiver_new ?items True) []) < 9" by code_simp
  then obtain out r where r: "recv_all 9 (receiver_new ?items True) = Some (out, r)"
    using recv_all_ok [OF receiver_inv_new, of ?items 9] v by (auto simp: receiver_new_def)
  moreover have "delivery_progress_for_session (snapshot False [1] r) 1 = Some 1"
    if sq: "senders r 1 = Some sq" for sq
    using delivery_progress_exact [OF r v _ sq, of "[1]"] n by simp
  ultimately show ?thesis by blast
qed

text \<open>With buffering disabled the receiver hands every message on in arrival order, whatever
  its sequencing metadata says.\<close>

theorem unbuffered_passthrough:
  "\<exists>r. recv_all (Suc (length items)) (receiver_new items False) = Some (map env_message items, r)"
proof -
  have "\<exists>r'. recv_all (Suc (length (rx r))) r = Some (map env_message (rx r), r')"
    if "\<not> enable_buffering r" "ready r = []" for r :: "('a, 'b) receiver"
    using that
  proof (induction "rx r" arbitrary: r)
    case Nil
    from Nil.hyps Nil.prems show ?case by (simp add: try_recv.simps)
  next
    case (Cons e es)
    have "try_recv r = Some (Some (env_message e), r\<lparr>rx := es\<rparr>)"
      using Cons.prems Cons.hyps(2) [symmetric] by (subst try_recv.simps) (simp add: receiver_admit_def)
    moreover have "\<exists>r'. recv_all (Suc (length es)) (r\<lparr>rx := es\<rparr>) = Some (map env_message es, r')"
      using Cons.hyps(1) [of "r\<lparr>rx := es\<rparr>"] Cons.prems by simp
    ultimately show ?case
      using Cons.hyps(2) [symmetric] by (auto simp del: recv_all.simps
          simp: recv_all.simps(2) [of "Suc (length es)"])
  qed
  from this [of "receiver_new items False"] show ?thesis
    by (simp add: receiver_new_def del: recv_all.simps)
qed

end
