(* ===== verification/Rle.thy ===== *)
theory Rle
  imports Prelude
begin

text \<open>
  Model of \<open>hyperactor/src/value_mesh/rle.rs\<close>: run-length encoding of dense values, of
  value runs, and the right-wins merge of two run lists. A run is a half-open range with a
  value. Table ids are \<open>u32\<close>: the truncating casts are written out.
\<close>

type_synonym range = "nat \<times> nat"
type_synonym 'v run = "range \<times> 'v"

definition range_is_empty :: "range \<Rightarrow> bool" where
  "range_is_empty r = (\<not> fst r < snd r)"

definition as_u32 :: "nat \<Rightarrow> nat" where
  "as_u32 n = n mod 2 ^ 32"

section \<open>Dense values\<close>

record 'v dense_state =
  dn_table :: "'v list"
  dn_runs :: "nat run list"
  dn_start :: nat
  dn_cur_id :: nat
  dn_len :: nat

definition dense_step :: "('v \<Rightarrow> 'v \<Rightarrow> bool) \<Rightarrow> 'v dense_state \<Rightarrow> nat \<times> 'v \<Rightarrow> 'v dense_state" where
  "dense_step same st iv =
     (let (i, v) = iv; idx = i + 1;
          st1 = (if \<not> same v (dn_table st ! dn_cur_id st)
                 then st\<lparr>dn_runs := dn_runs st @ [((dn_start st, idx), dn_cur_id st)],
                         dn_start := idx, dn_table := dn_table st @ [v],
                         dn_cur_id := as_u32 (length (dn_table st))\<rparr>
                 else st)
      in st1\<lparr>dn_len := idx + 1\<rparr>)"

definition rle_from_dense :: "'v list \<Rightarrow> ('v \<Rightarrow> 'v \<Rightarrow> bool) \<Rightarrow> 'v list \<times> nat run list" where
  "rle_from_dense values same =
     (case values of
        [] \<Rightarrow> ([], [])
      | first # rest \<Rightarrow>
          (let st = foldl (dense_step same)
                 \<lparr>dn_table = [first], dn_runs = [], dn_start = 0, dn_cur_id = 0, dn_len = 1\<rparr>
                 (enumerate 0 rest)
           in (dn_table st, dn_runs st @ [((dn_start st, dn_len st), dn_cur_id st)])))"

section \<open>Value runs\<close>

text \<open>The closure \<open>append\<close>: extend the last run when it touches and has the same value.\<close>

definition append_run :: "'v run list \<Rightarrow> range \<Rightarrow> 'v \<Rightarrow> 'v run list" where
  "append_run out r v =
     (if out \<noteq> [] \<and> snd (fst (last out)) = fst r \<and> snd (last out) = v
      then butlast out @ [((fst (fst (last out)), snd r), v)]
      else out @ [(r, v)])"

fun position :: "('v \<Rightarrow> bool) \<Rightarrow> 'v list \<Rightarrow> nat option" where
  "position P [] = None"
| "position P (x # xs) = (if P x then Some 0 else map_option Suc (position P xs))"

definition push_value_run :: "'v list \<times> nat run list \<Rightarrow> 'v run \<Rightarrow> 'v list \<times> nat run list" where
  "push_value_run st rv =
     (let (table, out) = st; (r, v) = rv;
          (id, table1) = (case position (\<lambda>x. x = v) table of
             Some idx \<Rightarrow> (as_u32 idx, table)
           | None \<Rightarrow> (as_u32 (length table), table @ [v]))
      in (table1, append_run out r id))"

definition rle_from_value_runs :: "'v run list \<Rightarrow> 'v list \<times> nat run list" where
  "rle_from_value_runs rs = (if rs = [] then ([], []) else foldl push_value_run ([], []) rs)"

definition ranges_overlap :: "range \<Rightarrow> range \<Rightarrow> bool" where
  "ranges_overlap a b = (fst a < snd b \<and> fst b < snd a)"

section \<open>Merging\<close>

text \<open>Advance the start of the current left run, dropping it when it becomes empty.\<close>

definition clamp_left :: "nat \<Rightarrow> 'v run list \<Rightarrow> 'v run list" where
  "clamp_left start ls =
     (case ls of [] \<Rightarrow> []
      | ((a, b), v) # rest \<Rightarrow> if range_is_empty (start, b) then rest else ((start, b), v) # rest)"

text \<open>The inner loop: trim or skip the left runs that still reach into the emitted range.\<close>

fun trim_left :: "nat \<Rightarrow> 'v run list \<Rightarrow> 'v run list" where
  "trim_left e [] = []"
| "trim_left e (((a, b), v) # ls) =
     (if a < e
      then if range_is_empty (max a e, b) then trim_left e ls else ((max a e, b), v) # ls
      else ((a, b), v) # ls)"

lemma length_clamp_left: "length (clamp_left s ls) \<le> length ls"
  by (auto simp: clamp_left_def split: list.splits)

lemma length_trim_left: "length (trim_left e ls) \<le> length ls"
  by (induction e ls rule: trim_left.induct) auto

function merge_loop :: "'v run list \<Rightarrow> 'v run list \<Rightarrow> 'v run list \<Rightarrow> 'v run list" where
  "merge_loop [] right out = foldl (\<lambda>out (r, v). append_run out r v) out right"
| "merge_loop (l # ls) [] out = foldl (\<lambda>out (r, v). append_run out r v) out (l # ls)"
| "merge_loop (((la, lb), lv) # ls) (((ra, rb), rv) # rs) out =
     (if ranges_overlap (la, lb) (ra, rb) then
        if lv = rv then
          merge_loop (clamp_left rb (((la, lb), lv) # ls)) rs (append_run out (min la ra, rb) rv)
        else if la < ra then
          merge_loop (((ra, lb), lv) # ls) (((ra, rb), rv) # rs) (append_run out (la, ra) lv)
        else
          merge_loop (trim_left rb (clamp_left (max la rb) (((la, lb), lv) # ls))) rs
            (append_run out (ra, rb) rv)
      else if la < ra then
        merge_loop ls (((ra, rb), rv) # rs) (append_run out (la, lb) lv)
      else
        merge_loop (((la, lb), lv) # ls) rs (append_run out (ra, rb) rv))"
  by pat_completeness auto
termination
proof (relation "measure (\<lambda>(ls, rs, out). 2 * (length ls + length rs) +
    (case (ls, rs) of (((la, lb), lv) # _, ((ra, rb), rv) # _) \<Rightarrow> if la < ra then 1 else 0 | _ \<Rightarrow> 0))",
    goal_cases)
  case (2 la lb lv ls ra rb rv rs out)
  then show ?case
    using length_clamp_left [of rb "((la, lb), lv) # ls"] by (auto split: list.splits)
next
  case (4 la lb lv ls ra rb rv rs out)
  then show ?case
    using length_trim_left [of rb "clamp_left (max la rb) (((la, lb), lv) # ls)"]
      length_clamp_left [of "max la rb" "((la, lb), lv) # ls"]
    by (auto split: list.splits)
qed (auto split: list.splits)

definition merge_value_runs :: "'v run list \<Rightarrow> 'v run list \<Rightarrow> 'v run list" where
  "merge_value_runs left_in right_in = merge_loop left_in right_in []"

section \<open>What a run list denotes\<close>

definition in_run :: "nat \<Rightarrow> range \<Rightarrow> bool" where
  "in_run i r \<longleftrightarrow> fst r \<le> i \<and> i < snd r"

text \<open>The value of the first run that contains the rank.\<close>

fun run_lookup :: "'v run list \<Rightarrow> nat \<Rightarrow> 'v option" where
  "run_lookup [] i = None"
| "run_lookup ((r, v) # rs) i = (if in_run i r then Some v else run_lookup rs i)"

text \<open>Sorted, nonempty and without overlap; the second predicate asks that equal neighbours
  do not touch.\<close>

definition runs_wf :: "'v run list \<Rightarrow> bool" where
  "runs_wf rs \<longleftrightarrow> (\<forall>x \<in> set rs. fst (fst x) < snd (fst x)) \<and>
     sorted_wrt (\<lambda>x y. snd (fst x) \<le> fst (fst y)) rs"

definition coalesced :: "'v run list \<Rightarrow> bool" where
  "coalesced rs \<longleftrightarrow> successively (\<lambda>x y. \<not> (snd (fst x) = fst (fst y) \<and> snd x = snd y)) rs"

lemma run_lookup_append:
  "run_lookup (xs @ ys) i = (case run_lookup xs i of Some v \<Rightarrow> Some v | None \<Rightarrow> run_lookup ys i)"
  by (induction xs i rule: run_lookup.induct) auto

lemma run_lookup_None: "\<forall>x \<in> set rs. \<not> in_run i (fst x) \<Longrightarrow> run_lookup rs i = None"
  by (induction rs i rule: run_lookup.induct) auto

lemma runs_wf_Cons:
  "runs_wf ((r, v) # rs) \<longleftrightarrow> fst r < snd r \<and> (\<forall>x \<in> set rs. snd r \<le> fst (fst x)) \<and> runs_wf rs"
  by (auto simp: runs_wf_def)

lemma runs_wf_append:
  "runs_wf (xs @ ys) \<longleftrightarrow> runs_wf xs \<and> runs_wf ys \<and>
     (\<forall>x \<in> set xs. \<forall>y \<in> set ys. snd (fst x) \<le> fst (fst y))"
  by (auto simp: runs_wf_def sorted_wrt_append)

lemma lookup_before:
  "runs_wf rs \<Longrightarrow> \<forall>x \<in> set rs. b \<le> fst (fst x) \<Longrightarrow> i < b \<Longrightarrow> run_lookup rs i = None"
  by (intro run_lookup_None) (auto simp: in_run_def)

lemma wf_nonempty: "runs_wf rs \<Longrightarrow> x \<in> set rs \<Longrightarrow> fst (fst x) < snd (fst x)"
  by (auto simp: runs_wf_def)

section \<open>Appending\<close>

lemma append_run_lookup:
  assumes "\<forall>x \<in> set out. fst (fst x) < snd (fst x)" "fst r < snd r"
  shows "run_lookup (append_run out r v) i = run_lookup (out @ [(r, v)]) i"
proof (cases "out \<noteq> [] \<and> snd (fst (last out)) = fst r \<and> snd (last out) = v")
  case True
  then obtain ys a b where "out = ys @ [((a, b), v)]" "b = fst r"
    by (metis append_butlast_last_id prod.exhaust_sel)
  then show ?thesis
    using assms by (auto simp: append_run_def run_lookup_append in_run_def split: option.splits)
qed (auto simp: append_run_def)

lemma append_run_nonempty:
  assumes "\<forall>x \<in> set out. fst (fst x) < snd (fst x)" "fst r < snd r"
  shows "\<forall>x \<in> set (append_run out r v). fst (fst x) < snd (fst x)"
proof (cases "out \<noteq> [] \<and> snd (fst (last out)) = fst r \<and> snd (last out) = v")
  case True
  then obtain ys a b where "out = ys @ [((a, b), v)]" "b = fst r"
    by (metis append_butlast_last_id prod.exhaust_sel)
  then show ?thesis using assms by (auto simp: append_run_def)
qed (use assms in \<open>auto simp: append_run_def\<close>)

lemma append_run_wf:
  assumes "runs_wf (out @ [(r, v)])"
  shows "runs_wf (append_run out r v)"
proof (cases "out \<noteq> [] \<and> snd (fst (last out)) = fst r \<and> snd (last out) = v")
  case True
  then obtain ys a b where "out = ys @ [((a, b), v)]" "b = fst r"
    by (metis append_butlast_last_id prod.exhaust_sel)
  then show ?thesis using assms by (auto simp: append_run_def runs_wf_append runs_wf_Cons)
qed (use assms in \<open>auto simp: append_run_def\<close>)

lemma append_run_coalesced:
  assumes "coalesced out"
  shows "coalesced (append_run out r v)"
proof (cases "out \<noteq> [] \<and> snd (fst (last out)) = fst r \<and> snd (last out) = v")
  case True
  then obtain ys a b where "out = ys @ [((a, b), v)]" "b = fst r"
    by (metis append_butlast_last_id prod.exhaust_sel)
  then show ?thesis
    using assms by (auto simp: append_run_def coalesced_def successively_append_iff)
qed (use assms in \<open>auto simp: append_run_def coalesced_def successively_append_iff\<close>)

text \<open>Appending never looks past the last end, so later runs still follow.\<close>

lemma append_run_ends:
  "runs_wf (out @ [(r, v)]) \<Longrightarrow> x \<in> set (append_run out r v) \<Longrightarrow> snd (fst x) \<le> snd r"
  by (auto simp: append_run_def runs_wf_append runs_wf_Cons dest!: in_set_butlastD split: if_splits)

section \<open>The merge denotes "right wins"\<close>

definition overlay_on :: "(nat \<Rightarrow> 'v option) \<Rightarrow> (nat \<Rightarrow> 'v option) \<Rightarrow> nat \<Rightarrow> 'v option" where
  "overlay_on l r i = (case r i of Some v \<Rightarrow> Some v | None \<Rightarrow> l i)"

abbreviation nonempty_runs :: "'v run list \<Rightarrow> bool" where
  "nonempty_runs rs \<equiv> \<forall>x \<in> set rs. fst (fst x) < snd (fst x)"

lemma foldl_append_lookup:
  assumes "nonempty_runs out" "nonempty_runs rs"
  shows "run_lookup (foldl (\<lambda>out (r, v). append_run out r v) out rs) i = run_lookup (out @ rs) i \<and>
    nonempty_runs (foldl (\<lambda>out (r, v). append_run out r v) out rs)"
  using assms
proof (induction rs arbitrary: out)
  case (Cons x rs)
  obtain r v where x: "x = (r, v)" by (cases x)
  then have r: "fst r < snd r" using Cons.prems(2) by simp
  from Cons.IH [OF append_run_nonempty [OF Cons.prems(1) r]] Cons.prems(2)
    append_run_lookup [OF Cons.prems(1) r]
  show ?case by (simp add: x run_lookup_append split: option.splits)
qed simp

lemma clamp_left_lookup:
  assumes "runs_wf (((a, b), v) # ls)" "a \<le> s"
  shows "run_lookup (clamp_left s (((a, b), v) # ls)) i =
      (if i < s \<and> in_run i (a, b) then None else run_lookup (((a, b), v) # ls) i)"
    and "runs_wf (clamp_left s (((a, b), v) # ls))"
proof -
  show "runs_wf (clamp_left s (((a, b), v) # ls))"
    using assms by (auto simp: clamp_left_def range_is_empty_def runs_wf_Cons)
  have "run_lookup ls i = None" if "i < b"
    using assms(1) that lookup_before [of ls b i] by (auto simp: runs_wf_Cons)
  then show "run_lookup (clamp_left s (((a, b), v) # ls)) i =
      (if i < s \<and> in_run i (a, b) then None else run_lookup (((a, b), v) # ls) i)"
    using assms by (auto simp: clamp_left_def range_is_empty_def in_run_def)
qed

lemma trim_left_props:
  assumes "runs_wf ls"
  shows "run_lookup (trim_left e ls) i = (if i < e then None else run_lookup ls i)"
    and "runs_wf (trim_left e ls)" and "\<forall>x \<in> set (trim_left e ls). e \<le> fst (fst x)"
    and "\<forall>x \<in> set (trim_left e ls). \<exists>y \<in> set ls. fst (fst y) \<le> fst (fst x) \<and>
      snd (fst x) = snd (fst y) \<and> snd x = snd y"
proof -
  show wf: "runs_wf (trim_left e ls)" and ge: "\<forall>x \<in> set (trim_left e ls). e \<le> fst (fst x)"
    using assms by (induction e ls rule: trim_left.induct) (auto simp: runs_wf_Cons range_is_empty_def)
  show "run_lookup (trim_left e ls) i = (if i < e then None else run_lookup ls i)"
  proof (cases "i < e")
    case True
    then show ?thesis using lookup_before [OF wf ge] by simp
  next
    case False
    then show ?thesis
      by (induction e ls rule: trim_left.induct) (auto simp: range_is_empty_def in_run_def)
  qed
  show "\<forall>x \<in> set (trim_left e ls). \<exists>y \<in> set ls. fst (fst y) \<le> fst (fst x) \<and>
      snd (fst x) = snd (fst y) \<and> snd x = snd y"
    by (induction e ls rule: trim_left.induct) auto
qed

text \<open>The pieces emitted so far come first, then the rest of the right list, then the left.\<close>

definition stack :: "'v run list \<Rightarrow> 'v run list \<Rightarrow> 'v run list \<Rightarrow> nat \<Rightarrow> 'v option" where
  "stack out ls rs i = run_lookup (out @ rs @ ls) i"

lemma stack_emit:
  assumes "nonempty_runs out" "fst r < snd r"
    and "in_run i r \<Longrightarrow> run_lookup (rs @ ls) i = Some v"
    and "\<not> in_run i r \<Longrightarrow> run_lookup (rs' @ ls') i = run_lookup (rs @ ls) i"
  shows "stack (append_run out r v) ls' rs' i = stack out ls rs i"
  using assms append_run_lookup [OF assms(1,2), of v i]
  by (auto simp: stack_def run_lookup_append split: option.splits if_splits)

lemma stack_equal:
  assumes wf: "runs_wf (((la, lb), v) # ls)" "runs_wf (((ra, rb), v) # rs)" "nonempty_runs out"
    and ov: "ranges_overlap (la, lb) (ra, rb)"
  shows "stack (append_run out (min la ra, rb) v) (clamp_left rb (((la, lb), v) # ls)) rs i =
    stack out (((la, lb), v) # ls) (((ra, rb), v) # rs) i"
proof (rule stack_emit [OF wf(3)])
  note d = wf(1,2) [unfolded runs_wf_Cons] ov [unfolded ranges_overlap_def]
  show "fst (min la ra, rb) < snd (min la ra, rb)" using d by auto
  have rs: "run_lookup rs i = None" if "i < rb"
    using d(2) that lookup_before [of rs rb i] by auto
  have la: "la \<le> rb" using d by auto
  show "in_run i (min la ra, rb) \<Longrightarrow>
      run_lookup ((((ra, rb), v) # rs) @ ((la, lb), v) # ls) i = Some v"
    using rs d by (auto simp: in_run_def run_lookup_append min_def split: if_splits)
  show "\<not> in_run i (min la ra, rb) \<Longrightarrow> run_lookup (rs @ clamp_left rb (((la, lb), v) # ls)) i =
      run_lookup ((((ra, rb), v) # rs) @ ((la, lb), v) # ls) i"
    using clamp_left_lookup(1) [OF wf(1) la, of i]
    by (auto simp: in_run_def run_lookup_append min_def split: if_splits option.splits)
qed

lemma stack_prefix:
  assumes wf: "runs_wf (((la, lb), lv) # ls)" "runs_wf (((ra, rb), rv) # rs)" "nonempty_runs out"
    and ov: "ranges_overlap (la, lb) (ra, rb)" "la < ra"
  shows "stack (append_run out (la, ra) lv) (((ra, lb), lv) # ls) (((ra, rb), rv) # rs) i =
    stack out (((la, lb), lv) # ls) (((ra, rb), rv) # rs) i"
proof (rule stack_emit [OF wf(3)])
  note d = wf(1,2) [unfolded runs_wf_Cons] ov [unfolded ranges_overlap_def]
  have rs: "run_lookup rs i = None" if "i < rb"
    using d(2) that lookup_before [of rs rb i] by auto
  show "in_run i (la, ra) \<Longrightarrow>
      run_lookup ((((ra, rb), rv) # rs) @ ((la, lb), lv) # ls) i = Some lv"
    using rs d by (auto simp: in_run_def run_lookup_append split: option.splits)
  show "\<not> in_run i (la, ra) \<Longrightarrow> run_lookup ((((ra, rb), rv) # rs) @ ((ra, lb), lv) # ls) i =
      run_lookup ((((ra, rb), rv) # rs) @ ((la, lb), lv) # ls) i"
    using d by (auto simp: in_run_def run_lookup_append split: option.splits)
qed (use ov in simp)

lemma trim_clamp:
  fixes rb :: nat
  assumes "runs_wf (((la, lb), lv) # ls)"
  defines "ls' \<equiv> trim_left rb (clamp_left (max la rb) (((la, lb), lv) # ls))"
  shows "runs_wf ls'" "\<forall>x \<in> set ls'. rb \<le> fst (fst x)"
    "run_lookup ls' i = (if i < rb then None else run_lookup (((la, lb), lv) # ls) i)"
proof -
  note c = clamp_left_lookup [OF assms(1), of "max la rb", simplified]
  note t = trim_left_props [OF c(2), of rb]
  show "runs_wf ls'" "\<forall>x \<in> set ls'. rb \<le> fst (fst x)" using t by (simp_all add: ls'_def)
  show "run_lookup ls' i = (if i < rb then None else run_lookup (((la, lb), lv) # ls) i)"
    using t(1) [of i] c(1) [of i] by (auto simp: ls'_def in_run_def)
qed

lemma stack_right:
  assumes wf: "runs_wf (((la, lb), lv) # ls)" "runs_wf (((ra, rb), rv) # rs)" "nonempty_runs out"
    and le: "ra \<le> la"
  shows "stack (append_run out (ra, rb) rv)
      (trim_left rb (clamp_left (max la rb) (((la, lb), lv) # ls))) rs i =
    stack out (((la, lb), lv) # ls) (((ra, rb), rv) # rs) i"
proof (rule stack_emit [OF wf(3)])
  have "run_lookup (((la, lb), lv) # ls) i = None" if "i < ra"
    using lookup_before [OF wf(1), of la i] wf(1) that le by (fastforce simp: runs_wf_Cons)
  then show "\<not> in_run i (ra, rb) \<Longrightarrow>
      run_lookup (rs @ trim_left rb (clamp_left (max la rb) (((la, lb), lv) # ls))) i =
      run_lookup ((((ra, rb), rv) # rs) @ ((la, lb), lv) # ls) i"
    using trim_clamp(3) [OF wf(1), of rb i] by (auto simp: run_lookup_append in_run_def split: option.splits)
qed (use wf(2) in \<open>auto simp: runs_wf_Cons\<close>)

lemma stack_left_alone:
  assumes wf: "runs_wf (((la, lb), lv) # ls)" "runs_wf (((ra, rb), rv) # rs)" "nonempty_runs out"
    and ov: "\<not> ranges_overlap (la, lb) (ra, rb)" "la < ra"
  shows "stack (append_run out (la, lb) lv) ls (((ra, rb), rv) # rs) i =
    stack out (((la, lb), lv) # ls) (((ra, rb), rv) # rs) i"
proof (rule stack_emit [OF wf(3)])
  note d = wf(1,2) [unfolded runs_wf_Cons] ov [unfolded ranges_overlap_def]
  have "run_lookup (((ra, rb), rv) # rs) i = None" if "i < lb"
    using lookup_before [OF wf(2), of ra i] d that by (fastforce simp: runs_wf_Cons)
  then show "in_run i (la, lb) \<Longrightarrow>
      run_lookup ((((ra, rb), rv) # rs) @ ((la, lb), lv) # ls) i = Some lv"
    by (auto simp: in_run_def run_lookup_append split: option.splits)
qed (use wf(1) in \<open>auto simp: runs_wf_Cons run_lookup_append split: option.splits\<close>)

lemma stack_right_alone:
  assumes "runs_wf (((ra, rb), rv) # rs)" "nonempty_runs out"
  shows "stack (append_run out (ra, rb) rv) ls rs i = stack out ls (((ra, rb), rv) # rs) i"
  by (rule stack_emit [OF assms(2)]) (use assms(1) in \<open>auto simp: runs_wf_Cons\<close>)

lemma merge_loop_stack:
  assumes "runs_wf ls" "runs_wf rs" "nonempty_runs out"
  shows "run_lookup (merge_loop ls rs out) i = stack out ls rs i \<and> nonempty_runs (merge_loop ls rs out)"
  using assms
proof (induction ls rs out rule: merge_loop.induct)
  case (1 right out)
  then show ?case
    using foldl_append_lookup [of out right i] by (simp add: stack_def wf_nonempty)
next
  case (2 l ls out)
  then show ?case
    using foldl_append_lookup [of out "l # ls" i] by (simp add: stack_def wf_nonempty del: foldl_Cons)
next
  case (3 la lb lv ls ra rb rv rs out)
  note wf = "3.prems"
  note d = wf(1,2) [unfolded runs_wf_Cons]
  show ?case
  proof (cases "ranges_overlap (la, lb) (ra, rb)")
    case True
    note ov = True [unfolded ranges_overlap_def]
    consider "lv = rv" | "lv \<noteq> rv" "la < ra" | "lv \<noteq> rv" "ra \<le> la" by linarith
    then show ?thesis
    proof cases
      case 1
      have la: "la \<le> rb" using ov d by auto
      note ih = "3.IH"(1) [OF True 1 clamp_left_lookup(2) [OF wf(1) la]]
      have "nonempty_runs (append_run out (min la ra, rb) rv)"
        by (intro append_run_nonempty [OF wf(3)]) (use ov d in auto)
      with ih d stack_equal [OF wf(1) [unfolded 1] wf(2,3) True] 1 True show ?thesis by simp
    next
      case 2
      note ih = "3.IH"(2) [OF True 2]
      have "nonempty_runs (append_run out (la, ra) lv)"
        by (intro append_run_nonempty [OF wf(3)]) (use 2 in auto)
      moreover have "runs_wf (((ra, lb), lv) # ls)" using ov d by (auto simp: runs_wf_Cons)
      ultimately show ?thesis using ih wf(2) stack_prefix [OF wf True 2(2)] 2 True by simp
    next
      case 3
      note ih = "3.IH"(3) [OF True 3(1), simplified 3(2) not_less, OF _ trim_clamp(1) [OF wf(1)]]
      have "nonempty_runs (append_run out (ra, rb) rv)"
        by (intro append_run_nonempty [OF wf(3)]) (use d in auto)
      with ih d stack_right [OF wf 3(2)] 3 True show ?thesis by simp
    qed
  next
    case False
    show ?thesis
    proof (cases "la < ra")
      case True
      have "nonempty_runs (append_run out (la, lb) lv)"
        by (intro append_run_nonempty [OF wf(3)]) (use d in auto)
      with "3.IH"(4) [OF False True] d wf(2) stack_left_alone [OF wf False True] False True
      show ?thesis by simp
    next
      case le: False
      have "nonempty_runs (append_run out (ra, rb) rv)"
        by (intro append_run_nonempty [OF wf(3)]) (use d in auto)
      with "3.IH"(5) [OF False le] d wf(1) stack_right_alone [OF wf(2,3)] False le
      show ?thesis by simp
    qed
  qed
qed

lemma merge_value_runs_lookup:
  assumes "runs_wf left_in" "runs_wf right_in"
  shows "run_lookup (merge_value_runs left_in right_in) i =
    overlay_on (run_lookup left_in) (run_lookup right_in) i"
  using merge_loop_stack [OF assms, of "[]" i]
  by (simp add: merge_value_runs_def stack_def run_lookup_append overlay_on_def)

section \<open>When the merge is normalized\<close>

text \<open>
  The equal-value branch emits up to the end of the right run but only advances the current
  left run. When the right run reaches past it into a further left run, that run is emitted
  again. Under the following condition this does not happen.
\<close>

definition no_overhang :: "'v run list \<Rightarrow> 'v run list \<Rightarrow> bool" where
  "no_overhang ls rs \<longleftrightarrow> (\<forall>l \<in> set ls. \<forall>r \<in> set rs.
     ranges_overlap (fst l) (fst r) \<and> snd l = snd r \<longrightarrow> snd (fst r) \<le> snd (fst l))"

definition narrower :: "'v run \<Rightarrow> 'v run \<Rightarrow> bool" where
  "narrower x y \<longleftrightarrow> fst (fst y) \<le> fst (fst x) \<and> snd (fst x) = snd (fst y) \<and> snd x = snd y"

lemma no_overhang_narrow:
  assumes "no_overhang ls rs" "\<forall>x \<in> set ls'. \<exists>y \<in> set ls. narrower x y" "set rs' \<subseteq> set rs"
  shows "no_overhang ls' rs'"
  unfolding no_overhang_def
proof (intro ballI impI)
  fix x r assume x: "x \<in> set ls'" and r: "r \<in> set rs'"
    and ov: "ranges_overlap (fst x) (fst r) \<and> snd x = snd r"
  from assms(2) x obtain y where y: "y \<in> set ls" "narrower x y" by blast
  then have "ranges_overlap (fst y) (fst r) \<and> snd y = snd r"
    using ov by (auto simp: narrower_def ranges_overlap_def)
  with assms(1,3) y r show "snd (fst r) \<le> snd (fst x)"
    by (force simp: no_overhang_def narrower_def)
qed

lemma narrower_refl [simp]: "narrower x x"
  by (simp add: narrower_def)

lemma clamp_left_narrower:
  "a \<le> s \<Longrightarrow> \<forall>x \<in> set (clamp_left s (((a, b), v) # ls)). \<exists>y \<in> set (((a, b), v) # ls). narrower x y"
  by (auto simp: clamp_left_def narrower_def)

lemma trim_left_narrower: "\<forall>x \<in> set (trim_left e ls). \<exists>y \<in> set ls. narrower x y"
  by (induction e ls rule: trim_left.induct) (auto simp: narrower_def)

lemma narrower_trans: "narrower x y \<Longrightarrow> narrower y z \<Longrightarrow> narrower x z"
  by (auto simp: narrower_def)

lemma trim_clamp_narrower:
  "\<forall>x \<in> set (trim_left rb (clamp_left (max a rb) (((a, b), v) # ls))).
     \<exists>y \<in> set (((a, b), v) # ls). narrower x y"
proof
  fix x assume "x \<in> set (trim_left rb (clamp_left (max a rb) (((a, b), v) # ls)))"
  then obtain y where "y \<in> set (clamp_left (max a rb) (((a, b), v) # ls))" "narrower x y"
    using trim_left_narrower by blast
  then show "\<exists>y \<in> set (((a, b), v) # ls). narrower x y"
    using clamp_left_narrower [of a "max a rb" b v ls] narrower_trans [of x y] by force
qed

text \<open>The emitted runs are normalized and end before everything that is still to come.\<close>

definition settled_runs :: "'v run list \<Rightarrow> 'v run list \<Rightarrow> bool" where
  "settled_runs out rest \<longleftrightarrow> runs_wf out \<and> coalesced out \<and>
     (\<forall>x \<in> set out. \<forall>y \<in> set rest. snd (fst x) \<le> fst (fst y))"

lemma settled_emit:
  assumes "settled_runs out rest" "a < b" "\<exists>y \<in> set rest. fst (fst y) \<le> a"
    "\<forall>y \<in> set rest'. b \<le> fst (fst y)"
  shows "settled_runs (append_run out (a, b) v) rest'"
proof -
  have "\<forall>x \<in> set out. snd (fst x) \<le> a" using assms(1,3) unfolding settled_runs_def by fastforce
  then have wf: "runs_wf (out @ [((a, b), v)])"
    using assms(1,2) by (auto simp: settled_runs_def runs_wf_def sorted_wrt_append)
  then show ?thesis
    using assms(1,4) append_run_wf [OF wf] append_run_ends [OF wf] append_run_coalesced
    unfolding settled_runs_def by fastforce
qed

lemma foldl_append_settled:
  assumes "settled_runs out rs" "runs_wf rs"
  shows "runs_wf (foldl (\<lambda>out (r, v). append_run out r v) out rs) \<and>
    coalesced (foldl (\<lambda>out (r, v). append_run out r v) out rs)"
  using assms
proof (induction rs arbitrary: out)
  case (Cons x rs)
  obtain a b v where x: "x = ((a, b), v)" by (metis prod.exhaust_sel)
  have "settled_runs (append_run out (a, b) v) rs"
    by (rule settled_emit [OF Cons.prems(1)]) (use Cons.prems(2) in \<open>auto simp: x runs_wf_Cons\<close>)
  with Cons show ?case by (auto simp: x runs_wf_Cons)
qed (simp add: settled_runs_def)

lemma merge_loop_wf:
  assumes "runs_wf ls" "runs_wf rs" "no_overhang ls rs" "settled_runs out (ls @ rs)"
  shows "runs_wf (merge_loop ls rs out) \<and> coalesced (merge_loop ls rs out)"
  using assms
proof (induction ls rs out rule: merge_loop.induct)
  case (1 right out)
  then show ?case using foldl_append_settled by (simp add: settled_runs_def)
next
  case (2 l ls out)
  then show ?case using foldl_append_settled [of out "l # ls"] by (simp del: foldl_Cons)
next
  case (3 la lb lv ls ra rb rv rs out)
  note wf = "3.prems"
  note d = wf(1,2) [unfolded runs_wf_Cons, simplified]
  show ?case
  proof (cases "ranges_overlap (la, lb) (ra, rb)")
    case True
    note ov = True [unfolded ranges_overlap_def, simplified]
    consider "lv = rv" | "lv \<noteq> rv" "la < ra" | "lv \<noteq> rv" "ra \<le> la" by linarith
    then show ?thesis
    proof cases
      case 1
      have le: "la \<le> rb" "rb \<le> lb" using ov d wf(3) True 1 by (auto simp: no_overhang_def)
      let ?ls = "clamp_left rb (((la, lb), lv) # ls)"
      have "no_overhang ?ls rs"
        using no_overhang_narrow [OF wf(3) clamp_left_narrower [OF le(1)]] by auto
      moreover have "settled_runs (append_run out (min la ra, rb) rv) (?ls @ rs)"
        by (rule settled_emit [OF wf(4)])
          (use ov d le in \<open>auto simp: clamp_left_def range_is_empty_def min_def\<close>)
      ultimately show ?thesis
        using "3.IH"(1) [OF True 1 clamp_left_lookup(2) [OF wf(1) le(1)]] d 1 True by simp
    next
      case 2
      have "runs_wf (((ra, lb), lv) # ls)" using ov d by (auto simp: runs_wf_Cons)
      moreover have "no_overhang (((ra, lb), lv) # ls) (((ra, rb), rv) # rs)"
        by (rule no_overhang_narrow [OF wf(3)]) (use 2 in \<open>auto simp: narrower_def\<close>)
      moreover have "settled_runs (append_run out (la, ra) lv) ((((ra, lb), lv) # ls) @ ((ra, rb), rv) # rs)"
        by (rule settled_emit [OF wf(4)]) (use 2 ov d in auto)
      ultimately show ?thesis using "3.IH"(2) [OF True 2] wf(2) 2 True by simp
    next
      case 3
      let ?ls = "trim_left rb (clamp_left (max la rb) (((la, lb), lv) # ls))"
      have "no_overhang ?ls rs"
        using no_overhang_narrow [OF wf(3) trim_clamp_narrower] by auto
      moreover have "settled_runs (append_run out (ra, rb) rv) (?ls @ rs)"
        by (rule settled_emit [OF wf(4)]) (use d trim_clamp(2) [OF wf(1), of rb] in auto)
      ultimately show ?thesis
        using "3.IH"(3) [OF True 3(1), simplified 3(2) not_less, OF _ trim_clamp(1) [OF wf(1)]] d 3 True
        by simp
    qed
  next
    case False
    note ov = False [unfolded ranges_overlap_def, simplified]
    show ?thesis
    proof (cases "la < ra")
      case True
      have "settled_runs (append_run out (la, lb) lv) (ls @ ((ra, rb), rv) # rs)"
        by (rule settled_emit [OF wf(4)]) (use True ov d in auto)
      moreover have "no_overhang ls (((ra, rb), rv) # rs)"
        using wf(3) by (auto simp: no_overhang_def)
      ultimately show ?thesis
        using "3.IH"(4) [OF False True] d wf(2) False True by simp
    next
      case le: False
      have "settled_runs (append_run out (ra, rb) rv) ((((la, lb), lv) # ls) @ rs)"
        by (rule settled_emit [OF wf(4)]) (use le ov d in auto)
      moreover have "no_overhang (((la, lb), lv) # ls) rs"
        using wf(3) by (auto simp: no_overhang_def)
      ultimately show ?thesis
        using "3.IH"(5) [OF False le] d wf(1) False le by simp
    qed
  qed
qed

lemma merge_value_runs_wf:
  assumes "runs_wf left_in" "runs_wf right_in" "no_overhang left_in right_in"
  shows "runs_wf (merge_value_runs left_in right_in) \<and> coalesced (merge_value_runs left_in right_in)"
  using merge_loop_wf [OF assms, of "[]"]
  by (simp add: merge_value_runs_def settled_runs_def runs_wf_def coalesced_def)

section \<open>Encodings decode to what was encoded\<close>

definition decode_runs :: "'v list \<Rightarrow> nat run list \<Rightarrow> 'v run list" where
  "decode_runs table rs = map (\<lambda>(r, id). (r, table ! id)) rs"

lemma as_u32_small: "n < 2 ^ 32 \<Longrightarrow> as_u32 n = n"
  by (simp add: as_u32_def)

lemma position_Some: "position P xs = Some i \<Longrightarrow> i < length xs \<and> P (xs ! i)"
  by (induction P xs arbitrary: i rule: position.induct) (auto split: if_splits)

lemma position_None: "position P xs = None \<longleftrightarrow> (\<forall>x \<in> set xs. \<not> P x)"
  by (induction P xs rule: position.induct) auto

text \<open>The table has no repetition, so equal ids mean equal values and appending commutes with
  decoding.\<close>

lemma decode_append_run:
  assumes "distinct table" "\<forall>x \<in> set out. snd x < length table" "j < length table"
  shows "decode_runs table (append_run out r j) = append_run (decode_runs table out) r (table ! j)"
proof (cases out rule: rev_cases)
  case (snoc ys y)
  then have "snd y < length table" using assms(2) by simp
  then have "table ! snd y = table ! j \<longleftrightarrow> snd y = j"
    using assms(1,3) nth_eq_iff_index_eq by blast
  then show ?thesis by (cases y) (auto simp: snoc append_run_def decode_runs_def)
qed (simp add: append_run_def decode_runs_def)

lemma decode_runs_extend:
  "\<forall>x \<in> set out. snd x < length table \<Longrightarrow> decode_runs (table @ ts) out = decode_runs table out"
  by (auto simp: decode_runs_def nth_append)

lemma append_run_ids:
  "x \<in> set (append_run out r j) \<Longrightarrow> snd x = j \<or> (\<exists>y \<in> set out. snd x = snd y)"
  by (auto simp: append_run_def dest!: in_set_butlastD split: if_splits)

definition encodes :: "'v list \<times> nat run list \<Rightarrow> 'v run list \<Rightarrow> nat \<Rightarrow> bool" where
  "encodes st dec n \<longleftrightarrow> distinct (fst st) \<and> length (fst st) \<le> n \<and>
     (\<forall>x \<in> set (snd st). snd x < length (fst st)) \<and> decode_runs (fst st) (snd st) = dec"

lemma push_value_run_encodes:
  assumes "encodes st dec n" "n < 2 ^ 32"
  shows "encodes (push_value_run st (r, v)) (append_run dec r v) (Suc n)"
proof -
  obtain table out where st: "st = (table, out)" by (cases st)
  note e = assms(1) [unfolded encodes_def st, simplified]
  show ?thesis
  proof (cases "position (\<lambda>x. x = v) table")
    case (Some idx)
    then have idx: "idx < length table" "table ! idx = v" using position_Some by fastforce+
    then have id: "as_u32 idx = idx" using e assms(2) by (intro as_u32_small) simp
    have "\<forall>x \<in> set (append_run out r idx). snd x < length table"
      using append_run_ids [of _ out r idx] e idx(1) by fastforce
    then show ?thesis
      using Some e idx id decode_append_run [of table out idx r]
      by (simp add: encodes_def st push_value_run_def)
  next
    case None
    let ?t = "table @ [v]" and ?id = "length table"
    have id: "as_u32 ?id = ?id" using e assms(2) by (intro as_u32_small) simp
    have t: "distinct ?t" "\<forall>x \<in> set out. snd x < length ?t" "?t ! ?id = v" "?id < length ?t"
      using None e by (auto simp: position_None less_Suc_eq)
    have "\<forall>x \<in> set (append_run out r ?id). snd x < length ?t"
      using append_run_ids [of _ out r ?id] t(2) by fastforce
    then show ?thesis
      using None e t id decode_append_run [OF t(1,2,4), of r] decode_runs_extend [of out table "[v]"]
      by (simp add: encodes_def st push_value_run_def)
  qed
qed

lemma foldl_push_encodes:
  assumes "encodes st dec n" "n + length rs \<le> 2 ^ 32"
  shows "encodes (foldl push_value_run st rs) (foldl (\<lambda>out (r, v). append_run out r v) dec rs)
    (n + length rs)"
  using assms
proof (induction rs arbitrary: st dec n)
  case (Cons x rs)
  obtain r v where x: "x = (r, v)" by (cases x)
  have "encodes (push_value_run st (r, v)) (append_run dec r v) (Suc n)"
    using Cons.prems by (intro push_value_run_encodes) auto
  from Cons.IH [OF this] Cons.prems(2) show ?case by (simp add: x)
qed simp

lemma rle_from_value_runs_decodes:
  assumes "length rs \<le> 2 ^ 32" "rle_from_value_runs rs = (table, out)"
  shows "distinct table" "\<forall>x \<in> set out. snd x < length table"
    "decode_runs table out = foldl (\<lambda>out (r, v). append_run out r v) [] rs"
proof -
  have "encodes ([], []) [] 0" by (simp add: encodes_def decode_runs_def)
  from foldl_push_encodes [OF this, of rs] assms
  have "encodes (table, out) (foldl (\<lambda>out (r, v). append_run out r v) [] rs) (length rs)"
    by (cases "rs = []") (auto simp: rle_from_value_runs_def encodes_def decode_runs_def)
  then show "distinct table" "\<forall>x \<in> set out. snd x < length table"
    "decode_runs table out = foldl (\<lambda>out (r, v). append_run out r v) [] rs"
    by (simp_all add: encodes_def)
qed

lemma settled_runs_Nil [simp]: "settled_runs [] rest"
  by (simp add: settled_runs_def runs_wf_def coalesced_def)

lemma rle_from_value_runs_spec:
  assumes "length rs \<le> 2 ^ 32" "runs_wf rs" "rle_from_value_runs rs = (table, out)"
  shows "runs_wf (decode_runs table out)" "coalesced (decode_runs table out)"
    "run_lookup (decode_runs table out) i = run_lookup rs i"
  using rle_from_value_runs_decodes [OF assms(1,3)] foldl_append_settled [OF settled_runs_Nil assms(2)]
    foldl_append_lookup [of "[]" rs i] assms(2)
  by (simp_all add: wf_nonempty)

section \<open>Dense encoding\<close>

definition dense_inv :: "('v \<Rightarrow> 'v \<Rightarrow> bool) \<Rightarrow> 'v dense_state \<Rightarrow> 'v list \<Rightarrow> bool" where
  "dense_inv same st vs \<longleftrightarrow> dn_len st = length vs \<and> dn_start st < length vs \<and>
     length (dn_table st) = Suc (length (dn_runs st)) \<and> length (dn_table st) \<le> length vs \<and>
     map snd (dn_runs st) = [0..<length (dn_runs st)] \<and> dn_cur_id st = length (dn_runs st) \<and>
     tiles 0 (dn_start st) (dn_runs st) \<and>
     list_all2 (\<lambda>v t. v = t \<or> same v t) vs
       (expand_runs (decode_runs (dn_table st) (dn_runs st @ [((dn_start st, length vs), dn_cur_id st)]))) \<and>
     (\<forall>k < length (dn_runs st). \<not> same (dn_table st ! Suc k) (dn_table st ! k))"

lemma decode_runs_append [simp]:
  "decode_runs table (xs @ ys) = decode_runs table xs @ decode_runs table ys"
  "decode_runs table [(r, k)] = [(r, table ! k)]" "decode_runs table [] = []"
  by (simp_all add: decode_runs_def)

lemma expand_runs_append [simp]:
  "expand_runs (xs @ ys) = expand_runs xs @ expand_runs ys"
  "expand_runs [((a, b), v)] = replicate (b - a) v" "expand_runs [] = []"
  by (simp_all add: expand_runs_def)

lemma dense_invI:
  assumes "dn_len st = length vs" "dn_start st < length vs"
    "length (dn_table st) = Suc (length (dn_runs st))" "length (dn_table st) \<le> length vs"
    "map snd (dn_runs st) = [0..<length (dn_runs st)]" "dn_cur_id st = length (dn_runs st)"
    "tiles 0 (dn_start st) (dn_runs st)"
    "list_all2 (\<lambda>v t. v = t \<or> same v t) vs (expand_runs (decode_runs (dn_table st) (dn_runs st)) @
       replicate (length vs - dn_start st) (dn_table st ! dn_cur_id st))"
    "\<forall>k < length (dn_runs st). \<not> same (dn_table st ! Suc k) (dn_table st ! k)"
  shows "dense_inv same st vs"
  using assms by (simp add: dense_inv_def)

lemma dense_invD:
  assumes "dense_inv same st vs"
  shows "dn_len st = length vs" "dn_start st < length vs"
    "length (dn_table st) = Suc (length (dn_runs st))" "length (dn_table st) \<le> length vs"
    "map snd (dn_runs st) = [0..<length (dn_runs st)]" "dn_cur_id st = length (dn_runs st)"
    "tiles 0 (dn_start st) (dn_runs st)"
    "list_all2 (\<lambda>v t. v = t \<or> same v t) vs (expand_runs (decode_runs (dn_table st) (dn_runs st)) @
       replicate (length vs - dn_start st) (dn_table st ! dn_cur_id st))"
    "\<forall>k < length (dn_runs st). \<not> same (dn_table st ! Suc k) (dn_table st ! k)"
  using assms unfolding dense_inv_def decode_runs_append expand_runs_append by blast+

lemma dense_step_same:
  assumes "dense_inv same st vs" "same v (dn_table st ! dn_cur_id st)"
  shows "dense_inv same (dense_step same st (length vs - 1, v)) (vs @ [v])"
proof -
  note i = dense_invD [OF assms(1)]
  have step: "dense_step same st (length vs - 1, v) = st\<lparr>dn_len := Suc (length vs)\<rparr>"
    using assms(2) i(2) by (simp add: dense_step_def)
  have n: "length (vs @ [v]) - dn_start st = Suc (length vs - dn_start st)"
    using i(2) by (simp add: Suc_diff_le)
  have "list_all2 (\<lambda>v t. v = t \<or> same v t) (vs @ [v])
      ((expand_runs (decode_runs (dn_table st) (dn_runs st)) @
        replicate (length vs - dn_start st) (dn_table st ! dn_cur_id st)) @ [dn_table st ! dn_cur_id st])"
    by (rule list_all2_appendI [OF i(8)]) (simp add: assms(2))
  then have rel: "list_all2 (\<lambda>v t. v = t \<or> same v t) (vs @ [v])
      (expand_runs (decode_runs (dn_table st) (dn_runs st)) @
        replicate (length (vs @ [v]) - dn_start st) (dn_table st ! dn_cur_id st))"
    unfolding n by (simp add: replicate_append_same)
  have sel: "dn_len (dense_step same st (length vs - 1, v)) = Suc (length vs)"
    "dn_start (dense_step same st (length vs - 1, v)) = dn_start st"
    "dn_table (dense_step same st (length vs - 1, v)) = dn_table st"
    "dn_runs (dense_step same st (length vs - 1, v)) = dn_runs st"
    "dn_cur_id (dense_step same st (length vs - 1, v)) = dn_cur_id st"
    unfolding step by simp_all
  show ?thesis
    by (rule dense_invI; unfold sel)
      (use i rel in \<open>simp_all only: length_append_singleton less_SucI le_SucI\<close>)
qed

lemma dense_step_differs:
  assumes "dense_inv same st vs" "\<not> same v (dn_table st ! dn_cur_id st)" "length vs < 2 ^ 32"
  shows "dense_inv same (dense_step same st (length vs - 1, v)) (vs @ [v])"
proof -
  note i = dense_invD [OF assms(1)]
  let ?st = "dense_step same st (length vs - 1, v)"
  let ?rs = "dn_runs st @ [((dn_start st, length vs), dn_cur_id st)]"
  have u32: "as_u32 (length (dn_table st)) = length ?rs"
    using i(3,4) assms(3) by (simp add: as_u32_small)
  have sel: "dn_runs ?st = ?rs" "dn_start ?st = length vs" "dn_table ?st = dn_table st @ [v]"
    "dn_cur_id ?st = length ?rs" "dn_len ?st = Suc (length vs)"
    using assms(2) i(2) u32 by (simp_all add: dense_step_def)
  have "snd x < length (dn_runs st)" if "x \<in> set (dn_runs st)" for x
    using that i(5) by (metis atLeastLessThan_iff image_eqI set_map set_upt)
  then have ids: "\<forall>x \<in> set ?rs. snd x < length (dn_table st)"
    using i(3,6) by (auto simp: less_Suc_eq)
  have "list_all2 (\<lambda>v t. v = t \<or> same v t) (vs @ [v])
      (expand_runs (decode_runs (dn_table st @ [v]) ?rs) @ [v])"
    unfolding decode_runs_extend [OF ids]
    by (rule list_all2_appendI) (use i(8) in simp_all)
  then have rel: "list_all2 (\<lambda>v t. v = t \<or> same v t) (vs @ [v])
      (expand_runs (decode_runs (dn_table st @ [v]) ?rs) @
        replicate (length (vs @ [v]) - length vs) ((dn_table st @ [v]) ! length ?rs))"
    using i(3) by (simp add: nth_append)
  have nb: "\<forall>k < length ?rs. \<not> same ((dn_table st @ [v]) ! Suc k) ((dn_table st @ [v]) ! k)"
    using i(3,6,9) assms(2) by (auto simp: less_Suc_eq nth_append)
  have map: "map snd ?rs = [0..<length ?rs]" using i(5,6) by simp
  have til: "tiles 0 (length vs) ?rs" using i(2,7) by (simp add: tiles_snoc)
  show ?thesis
    by (rule dense_invI; unfold sel)
      (fact nb map til rel | use i(3,4) in \<open>simp only: length_append_singleton lessI Suc_le_mono\<close>)+
qed

lemma dense_step_inv:
  assumes "dense_inv same st vs" "length vs < 2 ^ 32"
  shows "dense_inv same (dense_step same st (length vs - 1, v)) (vs @ [v])"
  using dense_step_same [OF assms(1)] dense_step_differs [OF assms(1) _ assms(2)] by blast

lemma foldl_dense_inv:
  assumes "dense_inv same st vs" "length vs + length ws \<le> 2 ^ 32"
  shows "dense_inv same (foldl (dense_step same) st (enumerate (length vs - 1) ws)) (vs @ ws)"
  using assms
proof (induction ws arbitrary: st vs)
  case (Cons w ws)
  have pos: "0 < length vs" using Cons.prems(1) by (auto simp: dense_inv_def)
  have "dense_inv same (dense_step same st (length vs - 1, w)) (vs @ [w])"
    using Cons.prems by (intro dense_step_inv) auto
  from Cons.IH [OF this] Cons.prems(2) pos show ?case by simp
qed simp

lemma rle_from_dense_spec:
  assumes "length values \<le> 2 ^ 32" "rle_from_dense values same = (table, rs)"
  shows "tiles 0 (length values) rs" "map snd rs = [0..<length rs]" "length table = length rs"
    "list_all2 (\<lambda>v t. v = t \<or> same v t) values (expand_runs (decode_runs table rs))"
    "\<forall>k. Suc k < length table \<longrightarrow> \<not> same (table ! Suc k) (table ! k)"
proof -
  have "tiles 0 (length values) rs \<and> map snd rs = [0..<length rs] \<and> length table = length rs \<and>
    list_all2 (\<lambda>v t. v = t \<or> same v t) values (expand_runs (decode_runs table rs)) \<and>
    (\<forall>k. Suc k < length table \<longrightarrow> \<not> same (table ! Suc k) (table ! k))"
  proof (cases "values")
    case Nil
    then show ?thesis using assms(2) by (auto simp: rle_from_dense_def)
  next
    case (Cons v ws)
    let ?init = "\<lparr>dn_table = [v], dn_runs = [], dn_start = 0, dn_cur_id = 0, dn_len = 1\<rparr>"
    let ?st = "foldl (dense_step same) ?init (enumerate 0 ws)"
    have "dense_inv same ?init [v]" by (simp add: dense_inv_def)
    from foldl_dense_inv [OF this, of ws] have inv: "dense_inv same ?st values"
      using assms(1) Cons by simp
    have "table = dn_table ?st" "rs = dn_runs ?st @ [((dn_start ?st, dn_len ?st), dn_cur_id ?st)]"
      using assms(2) Cons by (auto simp: rle_from_dense_def Let_def)
    with inv show ?thesis by (auto simp: dense_inv_def tiles_snoc)
  qed
  then show "tiles 0 (length values) rs" "map snd rs = [0..<length rs]" "length table = length rs"
    "list_all2 (\<lambda>v t. v = t \<or> same v t) values (expand_runs (decode_runs table rs))"
    "\<forall>k. Suc k < length table \<longrightarrow> \<not> same (table ! Suc k) (table ! k)" by blast+
qed

lemma rle_from_dense_eq:
  assumes "length vs \<le> 2 ^ 32"
  shows "\<exists>table rs. rle_from_dense vs (=) = (table, rs) \<and> expand_runs (decode_runs table rs) = vs \<and>
    tiles 0 (length vs) rs \<and> (\<forall>x \<in> set rs. snd x < length table) \<and>
    (\<forall>k. Suc k < length table \<longrightarrow> table ! Suc k \<noteq> table ! k)"
proof -
  obtain table rs where r: "rle_from_dense vs (=) = (table, rs)"
    by (cases "rle_from_dense vs (=)")
  note s = rle_from_dense_spec [OF assms r]
  have "expand_runs (decode_runs table rs) = vs"
    using s(4) by (simp add: list_all2_eq [symmetric] list.rel_eq)
  moreover have "\<forall>x \<in> set rs. snd x < length table"
    using s(2,3) by (metis atLeastLessThan_iff image_eqI set_map set_upt)
  ultimately show ?thesis using r s(1,5) by blast
qed

section \<open>Properties\<close>



text \<open>The merge is sorted, without overlap and coalesced when no right run reaches past the
  end of a left run of the same value that it overlaps.\<close>

theorem merge_normalized:
  assumes "runs_wf left_in" "runs_wf right_in"
    "\<forall>l \<in> set left_in. \<forall>r \<in> set right_in. ranges_overlap (fst l) (fst r) \<and> snd l = snd r \<longrightarrow>
       snd (fst r) \<le> snd (fst l)"
  shows "runs_wf (merge_value_runs left_in right_in) \<and> coalesced (merge_value_runs left_in right_in)"
  using merge_value_runs_wf [OF assms(1,2)] assms(3) by (simp add: no_overhang_def)

theorem merge_normalized_witness:
  "runs_wf (merge_value_runs [((0, 4), 1)] [((1, 2), 2 :: nat)])"
  using merge_normalized [of "[((0, 4), 1)]" "[((1, 2), 2 :: nat)]"]
  by (simp add: runs_wf_def)

text \<open>Without that condition the documented postcondition fails: two valid, coalesced inputs
  whose merge has overlapping runs, because the branch for equal values does not trim the left
  runs that the right run covers.\<close>

theorem merge_not_normalized:
  "\<exists>left_in right_in :: nat run list. runs_wf left_in \<and> coalesced left_in \<and>
     runs_wf right_in \<and> coalesced right_in \<and>
     merge_value_runs left_in right_in = [((0, 4), 1), ((2, 4), 2)] \<and>
     \<not> runs_wf (merge_value_runs left_in right_in)"
proof (intro exI conjI)
  let ?l = "[((0, 2), 1), ((2, 4), 2)] :: nat run list" and ?r = "[((0, 4), 1)] :: nat run list"
  show "runs_wf ?l" "coalesced ?l" "runs_wf ?r" "coalesced ?r"
    by (simp_all add: runs_wf_def coalesced_def)
  show m: "merge_value_runs ?l ?r = [((0, 4), 1), ((2, 4), 2)]"
    by (simp add: merge_value_runs_def ranges_overlap_def clamp_left_def range_is_empty_def append_run_def)
  show "\<not> runs_wf (merge_value_runs ?l ?r)" unfolding m by (simp add: runs_wf_def)
qed

text \<open>Compressing dense values is lossless: for equality, expanding the runs through the
  table gives back the values; the runs are nonempty and cover the input without gaps, and
  neighbouring runs hold different values.\<close>

theorem rle_from_dense_lossless:
  assumes "length vs \<le> 2 ^ 32"
  shows "\<exists>table rs. rle_from_dense vs (=) = (table, rs) \<and> expand_runs (decode_runs table rs) = vs \<and>
    tiles 0 (length vs) rs \<and> (\<forall>x \<in> set rs. snd x < length table) \<and>
    (\<forall>k. Suc k < length table \<longrightarrow> table ! Suc k \<noteq> table ! k)"
  by (rule rle_from_dense_eq [OF assms])

theorem rle_from_dense_lossless_witness:
  "\<exists>table rs. rle_from_dense [7, 7, 8 :: nat] (=) = (table, rs) \<and>
     expand_runs (decode_runs table rs) = [7, 7, 8]"
  using rle_from_dense_lossless [of "[7, 7, 8 :: nat]"] by auto

text \<open>Encoding normalized value runs keeps their meaning: the decoded runs are sorted,
  without overlap and coalesced, every rank keeps its value, and the table has no duplicate.\<close>

theorem rle_from_value_runs_keeps:
  assumes "length rs \<le> 2 ^ 32" "runs_wf rs"
  shows "\<exists>table out. rle_from_value_runs rs = (table, out) \<and> distinct table \<and>
    (\<forall>x \<in> set out. snd x < length table) \<and>
    runs_wf (decode_runs table out) \<and> coalesced (decode_runs table out) \<and>
    (\<forall>i. run_lookup (decode_runs table out) i = run_lookup rs i)"
proof -
  obtain table out where r: "rle_from_value_runs rs = (table, out)"
    by (cases "rle_from_value_runs rs")
  show ?thesis
    using r rle_from_value_runs_decodes(1,2) [OF assms(1) r] rle_from_value_runs_spec [OF assms r]
    by blast
qed

theorem rle_from_value_runs_keeps_witness:
  "\<exists>table out. rle_from_value_runs [((0, 2), 7), ((2, 5), 7 :: nat)] = (table, out) \<and> distinct table"
  using rle_from_value_runs_keeps [of "[((0, 2), 7), ((2, 5), 7 :: nat)]"] by (auto simp: runs_wf_def)

end
