(* ===== verification/Value_Overlay.thy ===== *)
theory Value_Overlay
  imports Rle
begin

text \<open>
  Model of \<open>hyperactor/src/value_mesh/value_overlay.rs\<close>: sparse overlays of rank ranges and
  values, kept sorted, without overlap and coalesced. \<open>normalize\<close> drains the vector it
  works on, so a failed normalization leaves it empty: operations return the result and the
  state after the call.
\<close>

section \<open>Data and operations\<close>

datatype build_error =
    EmptyRange
  | OverlappingRanges range range
  | OutOfBounds range nat

record 'v value_overlay =
  ov_runs :: "'v run list"

definition overlay_new :: "'v value_overlay" where
  "overlay_new = \<lparr>ov_runs = []\<rparr>"

definition overlay_len :: "'v value_overlay \<Rightarrow> nat" where
  "overlay_len ov = length (ov_runs ov)"

definition overlay_is_empty :: "'v value_overlay \<Rightarrow> bool" where
  "overlay_is_empty ov = (ov_runs ov = [])"

fun normalize_loop :: "'v run list \<Rightarrow> 'v run list \<Rightarrow> (build_error, 'v run list) result" where
  "normalize_loop out [] = Inr out"
| "normalize_loop out ((r, v) # rest) =
     (if out \<noteq> [] \<and> fst r < snd (fst (last out))
      then Inl (OverlappingRanges (fst (last out)) r)
      else if out \<noteq> [] \<and> snd (fst (last out)) = fst r \<and> snd (last out) = v
      then normalize_loop (butlast out @ [((fst (fst (last out)), snd r), v)]) rest
      else normalize_loop (out @ [(r, v)]) rest)"

definition normalize :: "'v run list \<Rightarrow> (build_error, unit) result \<times> 'v run list" where
  "normalize v =
     (if v = [] then (Inr (), v)
      else case normalize_loop [] (sort_key fst v) of
        Inl e \<Rightarrow> (Inl e, [])
      | Inr out \<Rightarrow> (Inr (), out))"

definition push_run :: "'v value_overlay \<Rightarrow> range \<Rightarrow> 'v
    \<Rightarrow> (build_error, unit) result \<times> 'v value_overlay" where
  "push_run ov r v =
     (if range_is_empty r then (Inl EmptyRange, ov)
      else if ov_runs ov \<noteq> [] \<and> snd (fst (last (ov_runs ov))) \<le> fst r
      then if snd (fst (last (ov_runs ov))) = fst r \<and> snd (last (ov_runs ov)) = v
           then (Inr (), ov\<lparr>ov_runs := butlast (ov_runs ov) @
                   [((fst (fst (last (ov_runs ov))), snd r), v)]\<rparr>)
           else (Inr (), ov\<lparr>ov_runs := ov_runs ov @ [(r, v)]\<rparr>)
      else let (res, rs) = normalize (ov_runs ov @ [(r, v)]) in (res, ov\<lparr>ov_runs := rs\<rparr>))"

definition try_from_runs :: "'v run list \<Rightarrow> (build_error, 'v value_overlay) result" where
  "try_from_runs rs =
     (if list_ex (\<lambda>x. range_is_empty (fst x)) rs then Inl EmptyRange
      else case normalize (sort_key fst rs) of
        (Inl e, _) \<Rightarrow> Inl e
      | (Inr _, v) \<Rightarrow> Inr \<lparr>ov_runs = v\<rparr>)"

section \<open>Disjoint runs\<close>

definition disjoint_runs :: "'v run \<Rightarrow> 'v run \<Rightarrow> bool" where
  "disjoint_runs x y \<longleftrightarrow> snd (fst x) \<le> fst (fst y) \<or> snd (fst y) \<le> fst (fst x)"

lemma run_lookup_disjoint:
  assumes "sorted_wrt disjoint_runs rs"
  shows "run_lookup rs i = Some v \<longleftrightarrow> (\<exists>r. (r, v) \<in> set rs \<and> in_run i r)"
  using assms
proof (induction rs)
  case (Cons x rs)
  obtain r u where x: "x = (r, u)" by (cases x)
  show ?case
  proof (cases "in_run i r")
    case True
    have "\<not> in_run i s" if "(s, w) \<in> set rs" for s w
    proof -
      have "disjoint_runs (r, u) (s, w)" using Cons.prems that by (auto simp: x)
      then show ?thesis using True by (auto simp: disjoint_runs_def in_run_def)
    qed
    then show ?thesis using True by (cases r) (auto simp: x)
  next
    case False
    then show ?thesis using Cons by (auto simp: x)
  qed
qed simp

lemma run_lookup_perm:
  assumes "sorted_wrt disjoint_runs xs" "mset xs = mset ys"
  shows "run_lookup xs i = run_lookup ys i"
proof -
  have "sorted_wrt disjoint_runs ys"
    using assms by (intro sorted_wrt_symp_mset [of disjoint_runs xs ys]) (auto simp: disjoint_runs_def)
  then have "run_lookup xs i = Some v \<longleftrightarrow> run_lookup ys i = Some v" for v
    using assms(1) mset_eq_setD [OF assms(2)] by (simp only: run_lookup_disjoint)
  then show ?thesis by (metis not_Some_eq)
qed

lemma runs_wf_sort:
  fixes rs :: "'v run list"
  assumes "nonempty_runs rs"
  shows "runs_wf (sort_key fst rs) \<longleftrightarrow> sorted_wrt disjoint_runs rs"
proof
  assume "runs_wf (sort_key fst rs)"
  then have "sorted_wrt disjoint_runs (sort_key fst rs)"
    unfolding runs_wf_def by (auto elim!: sorted_wrt_mono_rel [rotated] simp: disjoint_runs_def)
  then show "sorted_wrt disjoint_runs rs"
    by (rule sorted_wrt_symp_mset [rotated 2]) (auto simp: disjoint_runs_def)
next
  assume "sorted_wrt disjoint_runs rs"
  then have "sorted_wrt disjoint_runs (sort_key fst rs)"
    by (rule sorted_wrt_symp_mset [rotated 2]) (auto simp: disjoint_runs_def)
  moreover have "sorted_wrt (\<lambda>x y. fst x \<le> fst y) (sort_key fst rs)"
    using sorted_sort_key [of fst rs] by (simp add: sorted_wrt_map)
  ultimately have "sorted_wrt (\<lambda>x y. disjoint_runs x y \<and> fst x \<le> fst y) (sort_key fst rs)"
    by (rule sorted_wrt_conjI)
  then have "sorted_wrt (\<lambda>x y. snd (fst x) \<le> fst (fst y)) (sort_key fst rs)"
    by (rule sorted_wrt_mono_rel [rotated])
      (use assms in \<open>fastforce simp: disjoint_runs_def less_eq_prod_def\<close>)
  then show "runs_wf (sort_key fst rs)" using assms by (simp add: runs_wf_def)
qed

section \<open>Normalization\<close>

lemma normalize_loop_append:
  "normalize_loop out ((r, v) # rest) =
     (if out \<noteq> [] \<and> fst r < snd (fst (last out)) then Inl (OverlappingRanges (fst (last out)) r)
      else normalize_loop (append_run out r v) rest)"
  by (simp add: append_run_def)

declare normalize_loop.simps(2) [simp del]

lemma append_run_last: "append_run out r v \<noteq> [] \<and> snd (fst (last (append_run out r v))) = snd r"
  by (simp add: append_run_def)

lemma normalize_loop_ok:
  "nonempty_runs rs \<Longrightarrow>
   (case normalize_loop out rs of
      Inl e \<Rightarrow> \<not> (runs_wf rs \<and> (out \<noteq> [] \<longrightarrow> (\<forall>y \<in> set rs. snd (fst (last out)) \<le> fst (fst y))))
    | Inr res \<Rightarrow> runs_wf rs \<and> (out \<noteq> [] \<longrightarrow> (\<forall>y \<in> set rs. snd (fst (last out)) \<le> fst (fst y))) \<and>
        res = foldl (\<lambda>out (r, v). append_run out r v) out rs)"
proof (induction rs arbitrary: out)
  case (Cons x rs)
  obtain r v where x: "x = (r, v)" by (cases x)
  show ?case
  proof (cases "out \<noteq> [] \<and> fst r < snd (fst (last out))")
    case True
    then show ?thesis by (auto simp: x normalize_loop_append)
  next
    case False
    have r: "fst r < snd r" "nonempty_runs rs" using Cons.prems by (simp_all add: x)
    have "normalize_loop out (x # rs) = normalize_loop (append_run out r v) rs"
      using False by (auto simp: x normalize_loop_append)
    with Cons.IH [OF r(2), of "append_run out r v"] append_run_last [of out r v] False r(1)
    show ?thesis by (fastforce simp: x runs_wf_Cons split: sum.splits)
  qed
qed (simp add: runs_wf_def)

definition coalesce :: "'v run list \<Rightarrow> 'v run list" where
  "coalesce rs = foldl (\<lambda>out (r, v). append_run out r v) [] rs"

lemma coalesce_props:
  assumes "runs_wf rs"
  shows "runs_wf (coalesce rs)" "coalesced (coalesce rs)" "run_lookup (coalesce rs) i = run_lookup rs i"
  using foldl_append_settled [OF settled_runs_Nil assms] foldl_append_lookup [of "[]" rs i] assms
  by (simp_all add: coalesce_def wf_nonempty)

lemma normalize_ok:
  assumes "nonempty_runs rs" "sorted_wrt disjoint_runs rs"
  shows "normalize rs = (Inr (), coalesce (sort_key fst rs))"
proof (cases "rs = []")
  case True
  then show ?thesis by (simp add: normalize_def coalesce_def)
next
  case False
  then show ?thesis
    using normalize_loop_ok [of "sort_key fst rs" "[]"] runs_wf_sort [OF assms(1)] assms
    by (auto simp: normalize_def coalesce_def split: sum.splits)
qed

lemma normalize_err:
  assumes "nonempty_runs rs" "\<not> sorted_wrt disjoint_runs rs"
  shows "\<exists>e. normalize rs = (Inl e, [])"
proof -
  have "rs \<noteq> []" using assms(2) by auto
  then show ?thesis
    using normalize_loop_ok [of "sort_key fst rs" "[]"] runs_wf_sort [OF assms(1)] assms
    by (auto simp: normalize_def split: sum.splits)
qed

text \<open>The invariant of an overlay (VO-1).\<close>

definition overlay_inv :: "'v value_overlay \<Rightarrow> bool" where
  "overlay_inv ov \<longleftrightarrow> runs_wf (ov_runs ov) \<and> coalesced (ov_runs ov)"

lemma runs_wf_disjoint: "runs_wf rs \<Longrightarrow> sorted_wrt disjoint_runs rs"
  unfolding runs_wf_def by (auto elim!: sorted_wrt_mono_rel [rotated] simp: disjoint_runs_def)

lemma sort_key_id: "runs_wf rs \<Longrightarrow> sort_key fst rs = rs"
proof (rule sort_key_id_if_sorted)
  assume "runs_wf rs"
  then have "nonempty_runs rs" "sorted_wrt (\<lambda>x y. snd (fst x) \<le> fst (fst y)) rs"
    by (auto simp: runs_wf_def)
  from sorted_wrt_mono_rel [OF _ this(2), of "\<lambda>x y. fst x \<le> fst y"] this(1)
  have "sorted_wrt (\<lambda>x y. fst x \<le> fst y) rs"
    by (fastforce simp: less_eq_prod_def)
  then show "sorted (map fst rs)" by (simp add: sorted_wrt_map)
qed

lemma sorted_wrt_disjoint_snoc:
  "sorted_wrt disjoint_runs (rs @ [x]) \<longleftrightarrow> sorted_wrt disjoint_runs rs \<and> (\<forall>y \<in> set rs. disjoint_runs y x)"
  by (auto simp: sorted_wrt_append)

lemma push_run_append:
  assumes "overlay_inv ov" "\<not> range_is_empty r" "ov_runs ov \<noteq> []"
    "snd (fst (last (ov_runs ov))) \<le> fst r"
  shows "push_run ov r v = (Inr (), \<lparr>ov_runs = append_run (ov_runs ov) r v\<rparr>)"
    and "runs_wf (ov_runs ov @ [(r, v)])"
proof -
  show "push_run ov r v = (Inr (), \<lparr>ov_runs = append_run (ov_runs ov) r v\<rparr>)"
    using assms(2-4) by (simp add: push_run_def append_run_def)
  obtain ys y where ys: "ov_runs ov = ys @ [y]" using assms(3) by (cases "ov_runs ov" rule: rev_cases) auto
  have y: "snd (fst y) \<le> fst r" using assms(4) by (simp add: ys)
  have "snd (fst x) \<le> fst r" if "x \<in> set (ov_runs ov)" for x
  proof (cases "x = y")
    case False
    then have "snd (fst x) \<le> fst (fst y)" "fst (fst y) < snd (fst y)"
      using assms(1) that by (auto simp: overlay_inv_def runs_wf_def ys sorted_wrt_append)
    with y show ?thesis by linarith
  qed (use y in simp)
  then show "runs_wf (ov_runs ov @ [(r, v)])"
    using assms(1,2) by (simp add: overlay_inv_def range_is_empty_def runs_wf_def sorted_wrt_append)
qed

lemma push_run_slow:
  assumes "overlay_inv ov" "\<not> range_is_empty r"
    "\<not> (ov_runs ov \<noteq> [] \<and> snd (fst (last (ov_runs ov))) \<le> fst r)"
  shows "\<forall>y \<in> set (ov_runs ov). disjoint_runs y (r, v) \<Longrightarrow>
      push_run ov r v = (Inr (), \<lparr>ov_runs = coalesce (sort_key fst (ov_runs ov @ [(r, v)]))\<rparr>)"
    and "\<not> (\<forall>y \<in> set (ov_runs ov). disjoint_runs y (r, v)) \<Longrightarrow>
      \<exists>e. push_run ov r v = (Inl e, overlay_new)"
proof -
  have ne: "nonempty_runs (ov_runs ov @ [(r, v)])"
    using assms(1,2) by (auto simp: overlay_inv_def runs_wf_def range_is_empty_def)
  have eq: "push_run ov r v = (case normalize (ov_runs ov @ [(r, v)]) of (res, rs) \<Rightarrow> (res, \<lparr>ov_runs = rs\<rparr>))"
    using assms(2,3) by (auto simp: push_run_def split: prod.splits)
  have wf: "sorted_wrt disjoint_runs (ov_runs ov)"
    using assms(1) by (simp add: overlay_inv_def runs_wf_disjoint)
  show "\<forall>y \<in> set (ov_runs ov). disjoint_runs y (r, v) \<Longrightarrow>
      push_run ov r v = (Inr (), \<lparr>ov_runs = coalesce (sort_key fst (ov_runs ov @ [(r, v)]))\<rparr>)"
    using normalize_ok [OF ne] wf by (simp add: eq sorted_wrt_disjoint_snoc)
  show "\<not> (\<forall>y \<in> set (ov_runs ov). disjoint_runs y (r, v)) \<Longrightarrow>
      \<exists>e. push_run ov r v = (Inl e, overlay_new)"
    using normalize_err [OF ne] wf by (auto simp: eq sorted_wrt_disjoint_snoc overlay_new_def)
qed

text \<open>A successful push: valid, and the pushed range on top of what was there.\<close>

lemma push_run_ok:
  assumes "overlay_inv ov" "\<not> range_is_empty r" "\<forall>y \<in> set (ov_runs ov). disjoint_runs y (r, v)"
  shows "\<exists>ov'. push_run ov r v = (Inr (), ov') \<and> overlay_inv ov' \<and>
    (\<forall>i. run_lookup (ov_runs ov') i = (if in_run i r then Some v else run_lookup (ov_runs ov) i))"
proof -
  have ne: "nonempty_runs (ov_runs ov @ [(r, v)])"
    using assms(1,2) by (auto simp: overlay_inv_def runs_wf_def range_is_empty_def)
  have dis: "sorted_wrt disjoint_runs (ov_runs ov @ [(r, v)])"
    using assms by (simp add: overlay_inv_def runs_wf_disjoint sorted_wrt_disjoint_snoc)
  have top: "run_lookup (ov_runs ov @ [(r, v)]) i = (if in_run i r then Some v else run_lookup (ov_runs ov) i)" for i
  proof -
    have "run_lookup (ov_runs ov @ [(r, v)]) i = run_lookup ((r, v) # ov_runs ov) i"
      by (rule run_lookup_perm [OF dis]) simp
    then show ?thesis by simp
  qed
  show ?thesis
  proof (cases "ov_runs ov \<noteq> [] \<and> snd (fst (last (ov_runs ov))) \<le> fst r")
    case True
    note p = push_run_append [OF assms(1,2)] True
    have "coalesced (append_run (ov_runs ov) r v)"
      using assms(1) by (simp add: overlay_inv_def append_run_coalesced)
    moreover have "run_lookup (append_run (ov_runs ov) r v) i = run_lookup (ov_runs ov @ [(r, v)]) i" for i
      using ne by (intro append_run_lookup) auto
    ultimately show ?thesis
      using p append_run_wf [of "ov_runs ov" r v] top by (auto simp: overlay_inv_def)
  next
    case False
    have wf: "runs_wf (sort_key fst (ov_runs ov @ [(r, v)]))"
      using runs_wf_sort [OF ne] dis by simp
    have "run_lookup (coalesce (sort_key fst (ov_runs ov @ [(r, v)]))) i =
        run_lookup (ov_runs ov @ [(r, v)]) i" for i
      unfolding coalesce_props(3) [OF wf] by (rule run_lookup_perm [symmetric, OF dis]) simp
    then show ?thesis
      using push_run_slow(1) [OF assms(1,2) False assms(3)] coalesce_props(1,2) [OF wf] top
      by (auto simp: overlay_inv_def)
  qed
qed

lemma push_run_err:
  assumes "overlay_inv ov" "\<not> range_is_empty r" "\<not> (\<forall>y \<in> set (ov_runs ov). disjoint_runs y (r, v))"
  shows "\<exists>e. push_run ov r v = (Inl e, overlay_new)"
proof -
  have "\<not> (ov_runs ov \<noteq> [] \<and> snd (fst (last (ov_runs ov))) \<le> fst r)"
  proof
    assume "ov_runs ov \<noteq> [] \<and> snd (fst (last (ov_runs ov))) \<le> fst r"
    then have "runs_wf (ov_runs ov @ [(r, v)])" using push_run_append(2) [OF assms(1,2)] by blast
    then have "sorted_wrt disjoint_runs (ov_runs ov @ [(r, v)])" by (rule runs_wf_disjoint)
    with assms(3) show False by (simp add: sorted_wrt_disjoint_snoc)
  qed
  with push_run_slow(2) [OF assms(1,2) _ assms(3)] show ?thesis by blast
qed

lemma try_from_runs_cases:
  "if nonempty_runs rs \<and> sorted_wrt disjoint_runs rs
   then \<exists>ov. try_from_runs rs = Inr ov \<and> overlay_inv ov \<and>
     (\<forall>i. run_lookup (ov_runs ov) i = run_lookup rs i)
   else \<exists>e. try_from_runs rs = Inl e"
proof (cases "list_ex (\<lambda>x. range_is_empty (fst x)) rs")
  case True
  then show ?thesis by (auto simp: try_from_runs_def list_ex_iff range_is_empty_def)
next
  case False
  then have ne: "nonempty_runs rs" by (auto simp: list_ex_iff range_is_empty_def)
  then have ne': "nonempty_runs (sort_key fst rs)" by simp
  show ?thesis
  proof (cases "sorted_wrt disjoint_runs rs")
    case True
    have wf: "runs_wf (sort_key fst rs)" using runs_wf_sort [OF ne] True by simp
    then have "normalize (sort_key fst rs) = (Inr (), coalesce (sort_key fst rs))"
      using normalize_ok [OF ne' runs_wf_disjoint] by (simp add: sort_key_id)
    moreover have "run_lookup (coalesce (sort_key fst rs)) i = run_lookup rs i" for i
      unfolding coalesce_props(3) [OF wf] by (rule run_lookup_perm [symmetric, OF True]) simp
    ultimately show ?thesis
      using False True ne coalesce_props(1,2) [OF wf] by (simp add: try_from_runs_def overlay_inv_def)
  next
    case nd: False
    have "\<not> sorted_wrt disjoint_runs (sort_key fst rs)"
    proof
      assume "sorted_wrt disjoint_runs (sort_key fst rs)"
      then have "sorted_wrt disjoint_runs rs"
        by (rule sorted_wrt_symp_mset [rotated 2]) (auto simp: disjoint_runs_def)
      with nd show False by simp
    qed
    from normalize_err [OF ne' this] show ?thesis
      using False nd by (auto simp: try_from_runs_def)
  qed
qed

section \<open>Properties\<close>

text \<open>\<open>try_from_runs\<close> accepts runs in any order exactly when they are nonempty and
  pairwise disjoint; the overlay is then sorted, without overlap and coalesced, and assigns to
  each rank the value of the run that contains it.\<close>

theorem try_from_runs_spec:
  "if (\<forall>x \<in> set rs. fst (fst x) < snd (fst x)) \<and> sorted_wrt disjoint_runs rs
   then \<exists>ov. try_from_runs rs = Inr ov \<and> overlay_inv ov \<and>
     (\<forall>i. run_lookup (ov_runs ov) i = run_lookup rs i)
   else \<exists>e. try_from_runs rs = Inl e"
  by (rule try_from_runs_cases)

theorem try_from_runs_spec_witness:
  "\<exists>ov. try_from_runs [((4, 6), 1 :: nat), ((0, 2), 3)] = Inr ov \<and> run_lookup (ov_runs ov) 5 = Some 1"
  using try_from_runs_spec [of "[((4, 6), 1 :: nat), ((0, 2), 3)]"]
  by (auto simp: disjoint_runs_def in_run_def)

text \<open>\<open>push_run\<close> of a nonempty range that is disjoint from the overlay succeeds, keeps
  the overlay valid, and sets exactly the ranks of the range.\<close>

theorem push_run_sets:
  assumes "overlay_inv ov" "fst r < snd r" "\<forall>y \<in> set (ov_runs ov). disjoint_runs y (r, v)"
  shows "\<exists>ov'. push_run ov r v = (Inr (), ov') \<and> overlay_inv ov' \<and>
    (\<forall>i. run_lookup (ov_runs ov') i = (if in_run i r then Some v else run_lookup (ov_runs ov) i))"
  using push_run_ok [OF assms(1) _ assms(3)] assms(2) by (simp add: range_is_empty_def)

theorem push_run_sets_witness:
  "\<exists>ov'. push_run \<lparr>ov_runs = [((4, 6), 1 :: nat)]\<rparr> (2, 4) 1 = (Inr (), ov') \<and> overlay_inv ov'"
  using push_run_sets [of "\<lparr>ov_runs = [((4, 6), 1 :: nat)]\<rparr>" "(2, 4)" 1]
  by (auto simp: overlay_inv_def runs_wf_def coalesced_def disjoint_runs_def)

text \<open>A \<open>push_run\<close> that overlaps the overlay does not only report the error: the
  overlay is left empty, and every run it held is lost.\<close>

theorem push_run_overlap_clears:
  assumes "overlay_inv ov" "fst r < snd r" "\<exists>y \<in> set (ov_runs ov). \<not> disjoint_runs y (r, v)"
  shows "\<exists>e. push_run ov r v = (Inl e, overlay_new)"
  using push_run_err [OF assms(1), of r v] assms(2,3) by (auto simp: range_is_empty_def)

theorem push_run_overlap_clears_witness:
  "\<exists>e. push_run \<lparr>ov_runs = [((0, 5), 1 :: nat)]\<rparr> (1, 2) 2 = (Inl e, overlay_new)"
  using push_run_overlap_clears [of "\<lparr>ov_runs = [((0, 5), 1 :: nat)]\<rparr>" "(1, 2)" 2]
  by (auto simp: overlay_inv_def runs_wf_def coalesced_def disjoint_runs_def)

end
