(* ===== verification/Value_Mesh.thy ===== *)
theory Value_Mesh
  imports Value_Overlay Slice_Views "HOL-Library.Word"
begin

unbundle bit_operations_syntax

text \<open>
  Model of \<open>hyperactor/src/value_mesh.rs\<close>: one value per rank of a region, stored densely
  or run-length encoded. A region is its slice (labels carry no behaviour here). \<open>None\<close> is
  a panic where the function has no error type. The uninitialized buffer of
  \<open>build_indexed\<close> is a list of optional values with the occupancy bitset kept as 64-bit
  words.
\<close>

section \<open>Data\<close>

datatype value_mesh_error = InvalidRankCardinality nat nat

datatype 'v rep = Dense "'v list" | Compressed "'v list" "nat run list"

record 'v value_mesh =
  vm_region :: slice
  vm_rep :: "'v rep"

definition num_ranks :: "slice \<Rightarrow> nat" where
  "num_ranks region = slice_len region"

section \<open>Construction\<close>

definition vm_new_unchecked :: "slice \<Rightarrow> 'v list \<Rightarrow> 'v value_mesh" where
  "vm_new_unchecked region vs = \<lparr>vm_region = region, vm_rep = Dense vs\<rparr>"

definition vm_empty :: "'v value_mesh" where
  "vm_empty = vm_new_unchecked (new_row_major [0]) []"

definition vm_new :: "slice \<Rightarrow> 'v list \<Rightarrow> (value_mesh_error, 'v value_mesh) result" where
  "vm_new region vs =
     (if length vs \<noteq> num_ranks region then Inl (InvalidRankCardinality (num_ranks region) (length vs))
      else Inr \<lparr>vm_region = region, vm_rep = Dense vs\<rparr>)"

definition from_single :: "slice \<Rightarrow> 'v \<Rightarrow> 'v value_mesh" where
  "from_single region s =
     (let n = num_ranks region in
      if n = 0 then \<lparr>vm_region = region, vm_rep = Compressed [] []\<rparr>
      else \<lparr>vm_region = region, vm_rep = Compressed [s] [((0, n), 0)]\<rparr>)"

fun check_ranges :: "nat \<Rightarrow> 'v run list \<Rightarrow> (value_mesh_error, unit) result" where
  "check_ranges n [] = Inr ()"
| "check_ranges n ((r, v) # rs) =
     (if range_is_empty r then Inl (InvalidRankCardinality n 0)
      else if n < snd r then Inl (InvalidRankCardinality n (snd r))
      else check_ranges n rs)"

fun check_windows :: "nat \<Rightarrow> 'v run list \<Rightarrow> (value_mesh_error, unit) result" where
  "check_windows n ((a, u) # (b, v) # rs) =
     (if fst b < snd a then Inl (InvalidRankCardinality n (fst b))
      else check_windows n ((b, v) # rs))"
| "check_windows n _ = Inr ()"

text \<open>
  The index assigns ids in order of first appearance and the table lists its keys by id, so
  both are kept as the one list of values. \<open>next_id\<close> is a \<open>u32\<close> counter.
\<close>

definition id_of :: "'v list \<Rightarrow> 'v \<Rightarrow> nat \<times> 'v list" where
  "id_of index v = (case position (\<lambda>x. x = v) index of
     Some i \<Rightarrow> (i, index) | None \<Rightarrow> (length index, index @ [v]))"

fun fill_loop :: "nat \<Rightarrow> 'v run list \<Rightarrow> 'v list \<Rightarrow> nat run list \<Rightarrow> nat
    \<Rightarrow> 'v list \<times> nat run list \<times> nat" where
  "fill_loop default_id [] index rs cursor = (index, rs, cursor)"
| "fill_loop default_id ((r, v) # rest) index rs cursor =
     (let rs1 = (if cursor < fst r then rs @ [((cursor, fst r), default_id)] else rs);
          (j, index1) = id_of index v
      in fill_loop default_id rest index1 (rs1 @ [(r, j)]) (snd r))"

definition from_ranges_with_default ::
  "slice \<Rightarrow> 'v \<Rightarrow> 'v run list \<Rightarrow> (value_mesh_error, 'v value_mesh) result" where
  "from_ranges_with_default region dflt ranges =
     (let n = num_ranks region in
      if n = 0 then Inr \<lparr>vm_region = region, vm_rep = Compressed [] []\<rparr>
      else bind_result (check_ranges n ranges) (\<lambda>_.
        let sorted = sort_key fst ranges in
        bind_result (check_windows n sorted) (\<lambda>_.
          let (default_id, index) = id_of [] dflt;
              (table, rs, cursor) = fill_loop default_id sorted index [] 0;
              rs1 = (if cursor < n then rs @ [((cursor, n), default_id)] else rs)
          in Inr \<lparr>vm_region = region, vm_rep = Compressed table rs1\<rparr>)))"

definition compress_adjacent_in_place_by :: "('v \<Rightarrow> 'v \<Rightarrow> bool) \<Rightarrow> 'v value_mesh \<Rightarrow> 'v value_mesh" where
  "compress_adjacent_in_place_by same m =
     (case vm_rep m of
        Compressed _ _ \<Rightarrow> m
      | Dense vs \<Rightarrow> (let (table, rs) = rle_from_dense vs same in m\<lparr>vm_rep := Compressed table rs\<rparr>))"

definition compress_adjacent_in_place :: "'v value_mesh \<Rightarrow> 'v value_mesh" where
  "compress_adjacent_in_place m = compress_adjacent_in_place_by (=) m"

definition from_dense :: "slice \<Rightarrow> 'v list \<Rightarrow> (value_mesh_error, 'v value_mesh) result" where
  "from_dense region vs = map_sum id compress_adjacent_in_place (vm_new region vs)"

definition transpose :: "('e, 'v) result value_mesh \<Rightarrow> ('e, 'v value_mesh) result" where
  "transpose m =
     (case vm_rep m of
        Dense vs \<Rightarrow> map_sum id (\<lambda>ws. vm_new_unchecked (vm_region m) ws) (collect_result id vs)
      | Compressed table rs \<Rightarrow>
          map_sum id (\<lambda>t. \<lparr>vm_region = vm_region m, vm_rep = Compressed t rs\<rparr>)
            (collect_result id table))"

section \<open>Lookup\<close>

text \<open>\<open>slice::binary_search_by\<close> of the standard library.\<close>

function bsearch_loop :: "(nat \<Rightarrow> ordering) \<Rightarrow> nat \<Rightarrow> nat \<Rightarrow> nat" where
  "bsearch_loop f base sz =
     (if 1 < sz
      then let half = sz div 2; mid = base + half
           in bsearch_loop f (if f mid = Greater then base else mid) (sz - half)
      else base)"
  by pat_completeness auto
termination
  by (relation "measure (\<lambda>(f, base, sz). sz)") auto

declare bsearch_loop.simps [simp del]

definition binary_search_by :: "('a \<Rightarrow> ordering) \<Rightarrow> 'a list \<Rightarrow> nat option" where
  "binary_search_by f xs =
     (if xs = [] then None
      else let base = bsearch_loop (\<lambda>i. f (xs ! i)) 0 (length xs)
           in if f (xs ! base) = Equal then Some base else None)"

definition run_cmp :: "nat \<Rightarrow> nat run \<Rightarrow> ordering" where
  "run_cmp rank run =
     (if snd (fst run) \<le> rank then Less else if rank < fst (fst run) then Greater else Equal)"

definition vm_get :: "'v value_mesh \<Rightarrow> nat \<Rightarrow> 'v option" where
  "vm_get m rank =
     (if num_ranks (vm_region m) \<le> rank then None
      else case vm_rep m of
        Dense vs \<Rightarrow> if rank < length vs then Some (vs ! rank) else None
      | Compressed table rs \<Rightarrow>
          (case binary_search_by (run_cmp rank) rs of
             None \<Rightarrow> None
           | Some idx \<Rightarrow> if snd (rs ! idx) < length table then Some (table ! snd (rs ! idx)) else None))"

text \<open>
  \<open>get_by_base_rank\<close>: the point of the base rank has the coordinates of the slice, and its
  rank is their ordinal.
\<close>

definition get_by_base_rank :: "'v value_mesh \<Rightarrow> nat \<Rightarrow> 'v option" where
  "get_by_base_rank m base_rank =
     (if \<not> contains (vm_region m) base_rank then None
      else case slice_index (vm_region m) base_rank of
        Inl _ \<Rightarrow> None
      | Inr k \<Rightarrow> vm_get m k)"

section \<open>Runs and overlays\<close>

fun dense_runs_loop :: "'v list \<Rightarrow> nat list \<Rightarrow> nat \<Rightarrow> 'v run list \<Rightarrow> nat \<times> 'v run list" where
  "dense_runs_loop vs [] start out = (start, out)"
| "dense_runs_loop vs (i # is) start out =
     (if vs ! i \<noteq> vs ! (i - 1)
      then dense_runs_loop vs is i (out @ [((start, i), vs ! (i - 1))])
      else dense_runs_loop vs is start out)"

definition materialized_runs :: "'v value_mesh \<Rightarrow> 'v run list" where
  "materialized_runs m =
     (case vm_rep m of
        Dense vs \<Rightarrow>
          (if vs = [] then []
           else let (start, out) = dense_runs_loop vs [1..<length vs] 0 []
                in out @ [((start, length vs), last vs)])
      | Compressed table rs \<Rightarrow> map (\<lambda>(r, j). (r, table ! j)) rs)"

fun check_bounds :: "nat \<Rightarrow> 'v run list \<Rightarrow> (build_error, unit) result" where
  "check_bounds n [] = Inr ()"
| "check_bounds n ((r, v) # rs) = (if n < snd r then Inl (OutOfBounds r n) else check_bounds n rs)"

definition merge_from_overlay ::
  "'v value_mesh \<Rightarrow> 'v value_overlay \<Rightarrow> (build_error, 'v value_mesh) result" where
  "merge_from_overlay m ov =
     bind_result (check_bounds (num_ranks (vm_region m)) (ov_runs ov)) (\<lambda>_.
       let merged = merge_value_runs (materialized_runs m) (ov_runs ov);
           (table, rs) = rle_from_value_runs merged
       in Inr (m\<lparr>vm_rep := Compressed table rs\<rparr>))"

text \<open>The result and the state after the call: the template replaces an empty state even when
  the merge fails.\<close>

definition accumulate :: "'v value_mesh \<Rightarrow> 'v value_mesh \<Rightarrow> 'v value_overlay
    \<Rightarrow> (build_error, unit) result \<times> 'v value_mesh" where
  "accumulate template state update =
     (let st = (if num_ranks (vm_region state) = 0 then template else state)
      in case merge_from_overlay st update of
           Inl e \<Rightarrow> (Inl e, st)
         | Inr st1 \<Rightarrow> (Inr (), st1))"

definition overlay_reduce ::
  "'v value_overlay \<Rightarrow> 'v value_overlay \<Rightarrow> (build_error, 'v value_overlay) result" where
  "overlay_reduce l r = try_from_runs (merge_value_runs (ov_runs l) (ov_runs r))"

section \<open>Building from indexed pairs\<close>

record 'v indexed_state =
  ix_buf :: "'v option list"
  ix_bits :: "64 word list"
  ix_filled :: nat

definition write_pair :: "'v indexed_state \<Rightarrow> nat \<Rightarrow> 'v \<Rightarrow> 'v indexed_state" where
  "write_pair st rank value =
     (let w = rank div 64; mask = push_bit (rank mod 64) (1 :: 64 word); word = ix_bits st ! w;
          st1 = (if word AND mask \<noteq> 0 then st
                 else st\<lparr>ix_bits := (ix_bits st)[w := word OR mask], ix_filled := ix_filled st + 1\<rparr>)
      in st1\<lparr>ix_buf := (ix_buf st)[rank := Some value]\<rparr>)"

fun index_pairs :: "nat \<Rightarrow> (nat \<times> 'v) list \<Rightarrow> 'v indexed_state
    \<Rightarrow> (value_mesh_error, 'v indexed_state) result" where
  "index_pairs n [] st = Inr st"
| "index_pairs n ((rank, value) # ps) st =
     (if n \<le> rank then Inl (InvalidRankCardinality n (rank + 1))
      else index_pairs n ps (write_pair st rank value))"

definition indexed_init :: "nat \<Rightarrow> 'v indexed_state" where
  "indexed_init n = \<lparr>ix_buf = replicate n None, ix_bits = replicate (div_ceil n 64) 0, ix_filled = 0\<rparr>"

text \<open>Reading an uninitialized slot would be undefined behaviour: \<open>None\<close>.\<close>

definition build_indexed ::
  "slice \<Rightarrow> (nat \<times> 'v) list \<Rightarrow> (value_mesh_error, 'v value_mesh option) result" where
  "build_indexed region pairs =
     (let n = num_ranks region in
      bind_result (index_pairs n pairs (indexed_init n)) (\<lambda>st.
        if ix_filled st \<noteq> n then Inl (InvalidRankCardinality n (ix_filled st))
        else Inr (map_option (vm_new_unchecked region) (those (ix_buf st)))))"

text \<open>
  The guard that drops the initialized slots when the build fails: it visits the set bits of each
  word from the lowest up, after masking the bits past the last element. The result is the list
  of dropped slots.
\<close>

definition trailing_zeros :: "64 word \<Rightarrow> nat" where
  "trailing_zeros w = length (takeWhile (\<lambda>i. \<not> bit w i) [0..<64])"

lemma and_minus_one_less: "w \<noteq> 0 \<Longrightarrow> unat (w AND (w - 1)) < unat (w :: 64 word)"
proof -
  assume "w \<noteq> 0"
  then have "unat (w - 1) < unat w" by (simp add: unat_minus_one unat_gt_0)
  moreover have "unat (w AND (w - 1)) \<le> unat (w - 1)"
    using word_and_le1 by (simp only: word_le_nat_alt [symmetric])
  ultimately show ?thesis by simp
qed

function scan_word :: "64 word \<Rightarrow> nat \<Rightarrow> nat list" where
  "scan_word word base =
     (if word \<noteq> 0 then (base + trailing_zeros word) # scan_word (word AND (word - 1)) base else [])"
  by pat_completeness auto
termination
  by (relation "measure (\<lambda>(w, base). unat w)") (auto simp: and_minus_one_less)

declare scan_word.simps [simp del]

definition mask_final :: "nat \<Rightarrow> nat \<Rightarrow> nat \<Rightarrow> 64 word \<Rightarrow> 64 word" where
  "mask_final n_elems n_words w word =
     (if w = n_words - 1 then
        (let used_bits = n_elems - w * 64 in
         if used_bits < 64
         then word AND (if used_bits = 0 then 0 else push_bit used_bits 1 - 1)
         else word)
      else word)"

definition drop_guard :: "nat \<Rightarrow> 64 word list \<Rightarrow> nat list" where
  "drop_guard n_elems bits =
     concat (map (\<lambda>w. scan_word (mask_final n_elems (length bits) w (bits ! w)) (w * 64))
       [0..<length bits])"

section \<open>Slicing\<close>

text \<open>\<open>Region::is_subset\<close> and \<open>Region::remap\<close> of \<open>ndslice/src/view.rs\<close>: both scan the two
  iterators once.\<close>

fun subset_scan :: "nat list \<Rightarrow> nat list \<Rightarrow> bool" where
  "subset_scan (l # ls) (r # rs) =
     (if l < r then False else if l = r then subset_scan ls rs else subset_scan (l # ls) rs)"
| "subset_scan (l # ls) [] = False"
| "subset_scan [] rs = True"

definition is_subset :: "slice \<Rightarrow> slice \<Rightarrow> bool" where
  "is_subset s other =
     (case (slice_iter s, slice_iter other) of
        (Inr left, Inr right) \<Rightarrow> subset_scan left right | _ \<Rightarrow> False)"

fun remap_scan :: "nat list \<Rightarrow> (nat \<times> nat) list \<Rightarrow> nat list option" where
  "remap_scan [] ours = Some []"
| "remap_scan (needle # ns) [] = None"
| "remap_scan (needle # ns) ((index, value) # ours) =
     (if value = needle then map_option ((#) index) (remap_scan ns ours)
      else remap_scan (needle # ns) ours)"

definition remap :: "slice \<Rightarrow> slice \<Rightarrow> nat list option" where
  "remap s target =
     (if \<not> is_subset target s then None
      else case (slice_iter target, slice_iter s) of
        (Inr theirs, Inr ours) \<Rightarrow> remap_scan theirs (enumerate 0 ours) | _ \<Rightarrow> None)"

definition slice_dense :: "'v value_mesh \<Rightarrow> slice \<Rightarrow> 'v value_mesh option" where
  "slice_dense m region =
     (case remap (vm_region m) region of
        None \<Rightarrow> None
      | Some is \<Rightarrow> map_option (vm_new_unchecked region) (those (map (vm_get m) is)))"

fun last_ordinal_loop :: "(nat \<times> nat) list \<Rightarrow> nat \<Rightarrow> nat \<Rightarrow> nat \<Rightarrow> nat" where
  "last_ordinal_loop [] distance slice_stride slice_ordinal = slice_ordinal"
| "last_ordinal_loop ((dim_size, source_stride) # ds) distance slice_stride slice_ordinal =
     (let stride = slice_stride div dim_size;
          coordinate = min (distance div source_stride) (dim_size - 1)
      in last_ordinal_loop ds (distance - coordinate * source_stride) stride
           (slice_ordinal + coordinate * stride))"

definition last_slice_ordinal_at_or_before :: "slice \<Rightarrow> nat \<Rightarrow> nat" where
  "last_slice_ordinal_at_or_before s source_ordinal =
     last_ordinal_loop (zip (sizes s) (strides s)) (source_ordinal - offset s) (slice_len s) 0"

fun source_ordinal_loop :: "(nat \<times> nat) list \<Rightarrow> nat \<Rightarrow> nat \<Rightarrow> nat" where
  "source_ordinal_loop [] slice_ordinal source_ordinal = source_ordinal"
| "source_ordinal_loop ((dim_size, stride) # ds) slice_ordinal source_ordinal =
     source_ordinal_loop ds (slice_ordinal div dim_size)
       (source_ordinal + slice_ordinal mod dim_size * stride)"

definition source_ordinal_at :: "slice \<Rightarrow> nat \<Rightarrow> nat" where
  "source_ordinal_at s slice_ordinal =
     source_ordinal_loop (rev (zip (sizes s) (strides s))) slice_ordinal (offset s)"

text \<open>\<open>dropWhile\<close> is the inner loop that skips the runs before the cursor. An empty rest is the
  index panic; a cursor that does not move would loop forever and is \<open>None\<close> as well.\<close>

function slice_loop :: "slice \<Rightarrow> nat run list \<Rightarrow> nat run list \<Rightarrow> nat \<Rightarrow> nat \<Rightarrow> nat run list option" where
  "slice_loop s source_runs out cursor source_cursor =
     (if cursor < slice_len s then
        (case dropWhile (\<lambda>run. snd (fst run) \<le> source_cursor) source_runs of
           [] \<Rightarrow> None
         | run # rest \<Rightarrow>
             (let nxt = last_slice_ordinal_at_or_before s (snd (fst run) - 1) + 1;
                  out1 = (if out \<noteq> [] \<and> snd (last out) = snd run
                          then butlast out @ [((fst (fst (last out)), nxt), snd run)]
                          else out @ [((cursor, nxt), snd run)])
              in if nxt \<le> cursor then None
                 else slice_loop s (run # rest) out1 nxt
                   (if nxt < slice_len s then source_ordinal_at s nxt else source_cursor)))
      else Some out)"
  by pat_completeness auto
termination
  by (relation "measure (\<lambda>(s, rs, out, c, sc). slice_len s - c)") auto

declare slice_loop.simps [simp del]

definition slice_compressed ::
  "slice \<Rightarrow> 'v list \<Rightarrow> nat run list \<Rightarrow> slice \<Rightarrow> 'v value_mesh option" where
  "slice_compressed slice_region value_table source_runs slice_ordinals =
     map_option (\<lambda>rs. \<lparr>vm_region = slice_region, vm_rep = Compressed value_table rs\<rparr>)
       (slice_loop slice_ordinals source_runs [] 0 (offset slice_ordinals))"

definition sliced :: "'v value_mesh \<Rightarrow> slice \<Rightarrow> 'v value_mesh option" where
  "sliced m region =
     (case vm_rep m of
        Dense _ \<Rightarrow> slice_dense m region
      | Compressed table rs \<Rightarrow>
          if num_ranks region = 0
          then Some \<lparr>vm_region = region, vm_rep = Compressed [] []\<rparr>
          else (case relative_ordinal_slice region (vm_region m) of
                  Inl _ \<Rightarrow> None
                | Inr slice_ordinals \<Rightarrow> slice_compressed region table rs slice_ordinals))"

end
