(* ===== verification/Value_Mesh_Props.thy ===== *)
theory Value_Mesh_Props
  imports Value_Mesh
begin

text \<open>
  Correctness of value meshes. The abstraction of a mesh is the list of its values in rank
  order; every constructor, the lookup by binary search and the overlay merge are stated
  against it.
\<close>

section \<open>Invariant and abstraction\<close>

definition mesh_values :: "'v value_mesh \<Rightarrow> 'v list" where
  "mesh_values m = (case vm_rep m of
     Dense vs \<Rightarrow> vs | Compressed table rs \<Rightarrow> expand_runs (decode_runs table rs))"

definition mesh_inv :: "'v value_mesh \<Rightarrow> bool" where
  "mesh_inv m \<longleftrightarrow> (case vm_rep m of
     Dense vs \<Rightarrow> length vs = num_ranks (vm_region m)
   | Compressed table rs \<Rightarrow> tiles 0 (num_ranks (vm_region m)) rs \<and> (\<forall>x \<in> set rs. snd x < length table))"

lemma tiles_decode: "tiles lo hi (decode_runs table rs) = tiles lo hi rs"
  by (induction lo hi rs rule: tiles.induct) (auto simp: decode_runs_def)

lemma tiles_runs_wf: "tiles lo hi rs \<Longrightarrow> runs_wf rs \<and> (\<forall>x \<in> set rs. lo \<le> fst (fst x) \<and> snd (fst x) \<le> hi)"
proof (induction lo hi rs rule: tiles.induct)
  case (2 lo hi a b v rs)
  then have rs: "runs_wf rs" "\<forall>x \<in> set rs. b \<le> fst (fst x) \<and> snd (fst x) \<le> hi" and "a < b" "a = lo"
    by auto
  have "b \<le> hi" using "2.prems" tiles_length [of b hi rs] by simp
  with rs \<open>a < b\<close> \<open>a = lo\<close> show ?case by (auto simp: runs_wf_Cons)
qed (simp add: runs_wf_def)

lemma expand_lookup:
  "tiles lo hi rs \<Longrightarrow> lo \<le> i \<Longrightarrow> i < hi \<Longrightarrow> run_lookup rs i = Some (expand_runs rs ! (i - lo))"
proof (induction lo hi rs rule: tiles.induct)
  case (2 lo hi a b v rs)
  show ?case
  proof (cases "i < b")
    case True
    with 2 show ?thesis by (auto simp: in_run_def expand_runs_def nth_append)
  next
    case False
    with "2.IH" "2.prems" have "run_lookup rs i = Some (expand_runs rs ! (i - b))" by auto
    moreover have "(i - lo) - (b - lo) = i - b" using False "2.prems" by auto
    ultimately show ?thesis
      using False "2.prems" by (auto simp: in_run_def expand_runs_def nth_append)
  qed
qed auto

lemma mesh_invD:
  "mesh_inv m \<Longrightarrow> vm_rep m = Dense vs \<Longrightarrow> length vs = num_ranks (vm_region m)"
  "mesh_inv m \<Longrightarrow> vm_rep m = Compressed table rs \<Longrightarrow> tiles 0 (num_ranks (vm_region m)) rs"
  "mesh_inv m \<Longrightarrow> vm_rep m = Compressed table rs \<Longrightarrow> x \<in> set rs \<Longrightarrow> snd x < length table"
  unfolding mesh_inv_def by simp_all

lemma mesh_values_length: "mesh_inv m \<Longrightarrow> length (mesh_values m) = num_ranks (vm_region m)"
proof (cases "vm_rep m")
  case (Compressed table rs)
  assume "mesh_inv m"
  from mesh_invD(2) [OF this Compressed]
  have "tiles 0 (num_ranks (vm_region m)) (decode_runs table rs)" unfolding tiles_decode .
  from tiles_length [OF this] show ?thesis by (simp add: mesh_values_def Compressed)
qed (simp add: mesh_values_def mesh_invD)

section \<open>Binary search\<close>

text \<open>The loop narrows to the last index that is not \<open>Greater\<close>.\<close>

lemma bsearch_loop_inv:
  assumes "0 < sz" "base = 0 \<or> f base \<noteq> Greater" "\<forall>j. base + sz \<le> j \<longrightarrow> j < n \<longrightarrow> f j = Greater"
    "base + sz \<le> n" and mono: "\<forall>i j. i \<le> j \<longrightarrow> j < n \<longrightarrow> f i = Greater \<longrightarrow> f j = Greater"
  shows "bsearch_loop f base sz < n \<and> (bsearch_loop f base sz = 0 \<or> f (bsearch_loop f base sz) \<noteq> Greater)
    \<and> (\<forall>j < n. f j = Greater \<or> j \<le> bsearch_loop f base sz)"
  using assms(1-4)
proof (induction sz arbitrary: base rule: less_induct)
  case (less sz)
  show ?case
  proof (cases "1 < sz")
    case True
    define half where "half = sz div 2"
    define base' where "base' = (if f (base + half) = Greater then base else base + half)"
    have h: "0 < half" "half < sz" "base' + (sz - half) \<le> n"
      using True less.prems(4) by (auto simp: half_def base'_def)
    have hi: "f j = Greater" if "base' + (sz - half) \<le> j" "j < n" for j
    proof (cases "f (base + half) = Greater")
      case True
      then have "base + half \<le> j" using that h by (auto simp: base'_def half_def)
      then show ?thesis using mono True that by blast
    next
      case False
      then show ?thesis using less.prems(3) that h by (auto simp: base'_def)
    qed
    have eq: "bsearch_loop f base sz = bsearch_loop f base' (sz - half)"
      using True by (subst bsearch_loop.simps) (simp add: Let_def base'_def half_def)
    show ?thesis unfolding eq
    proof (rule less.IH)
      show "sz - half < sz" "0 < sz - half" using h by auto
      show "base' = 0 \<or> f base' \<noteq> Greater" using less.prems(2) by (auto simp: base'_def)
    qed (use h hi in auto)
  next
    case False
    then have 1: "sz = 1" "bsearch_loop f base sz = base"
      using less.prems(1) by (auto simp: bsearch_loop.simps [of f base sz])
    have "f j = Greater \<or> j \<le> base" if "j < n" for j
      using less.prems(3) 1(1) that by (metis Suc_eq_plus1 not_less_eq_eq)
    then show ?thesis using less.prems 1 by auto
  qed
qed

lemma binary_search_by_hit:
  assumes "k < length xs" "f (xs ! k) = Equal" "\<forall>j < length xs. k < j \<longrightarrow> f (xs ! j) = Greater"
    "\<forall>j < k. f (xs ! j) = Less"
  shows "binary_search_by f xs = Some k"
proof -
  let ?b = "bsearch_loop (\<lambda>i. f (xs ! i)) 0 (length xs)"
  have mono: "f (xs ! j) = Greater" if "i \<le> j" "j < length xs" "f (xs ! i) = Greater" for i j
  proof -
    have "k < i" using assms(2,4) that(3) by (metis linorder_neqE_nat ordering.distinct(3,5))
    then show ?thesis using assms(3) that by simp
  qed
  have b: "?b < length xs \<and> (?b = 0 \<or> f (xs ! ?b) \<noteq> Greater) \<and>
      (\<forall>j < length xs. f (xs ! j) = Greater \<or> j \<le> ?b)"
    by (rule bsearch_loop_inv) (use assms(1) mono in auto)
  then have "k \<le> ?b" using assms(1,2) by (metis ordering.distinct(5))
  moreover have "\<not> k < ?b" using b assms(3) by auto
  ultimately have "?b = k" by simp
  then show ?thesis using assms(1,2) by (auto simp: binary_search_by_def Let_def)
qed

text \<open>On runs that tile an interval the search finds the run of each rank.\<close>

lemma tiles_split:
  assumes "tiles lo hi rs" "lo \<le> i" "i < hi"
  shows "\<exists>k < length rs. in_run i (fst (rs ! k)) \<and>
    (\<forall>j < k. snd (fst (rs ! j)) \<le> i) \<and> (\<forall>j < length rs. k < j \<longrightarrow> i < fst (fst (rs ! j)))"
  using assms
proof (induction lo hi rs rule: tiles.induct)
  case (2 lo hi a b v rs)
  then have t: "a = lo" "a < b" "tiles b hi rs" by auto
  show ?case
  proof (cases "i < b")
    case True
    have "\<forall>x \<in> set rs. b \<le> fst (fst x)" using tiles_runs_wf [OF t(3)] by auto
    then have "i < fst (fst ((((a, b), v) # rs) ! j))" if "j < Suc (length rs)" "0 < j" for j
      using that True by (cases j) (auto dest!: nth_mem)
    then show ?thesis using True t "2.prems" by (intro exI [of _ 0]) (auto simp: in_run_def)
  next
    case False
    with "2.IH" t "2.prems" obtain k where k: "k < length rs" "in_run i (fst (rs ! k))"
      "\<forall>j < k. snd (fst (rs ! j)) \<le> i" "\<forall>j < length rs. k < j \<longrightarrow> i < fst (fst (rs ! j))"
      by auto
    have "snd (fst ((((a, b), v) # rs) ! j)) \<le> i" if "j < Suc k" for j
      using that k(3) False by (cases j) auto
    moreover have "i < fst (fst ((((a, b), v) # rs) ! j))" if "j < Suc (length rs)" "Suc k < j" for j
      using that k(4) by (cases j) auto
    ultimately show ?thesis using k(1,2) by (intro exI [of _ "Suc k"]) auto
  qed
qed simp

lemma run_lookup_nth:
  assumes "k < length rs" "in_run i (fst (rs ! k))" "\<forall>j < k. \<not> in_run i (fst (rs ! j))"
  shows "run_lookup rs i = Some (snd (rs ! k))"
  using assms
proof (induction rs arbitrary: k)
  case (Cons x rs)
  obtain r v where x: "x = (r, v)" by (cases x)
  show ?case
  proof (cases k)
    case (Suc j)
    have "\<forall>l < j. \<not> in_run i (fst (rs ! l))" using Cons.prems(3) Suc by (metis Suc_less_eq nth_Cons_Suc)
    moreover have "\<not> in_run i r" using Cons.prems(3) Suc x by (metis fst_conv nth_Cons_0 zero_less_Suc)
    ultimately show ?thesis using Cons.IH [of j] Cons.prems(1,2) Suc x by simp
  qed (use Cons.prems x in auto)
qed simp

lemma search_runs:
  assumes "tiles 0 n rs" "i < n"
  shows "\<exists>k < length rs. binary_search_by (run_cmp i) rs = Some k \<and> run_lookup rs i = Some (snd (rs ! k))"
proof -
  from tiles_split [OF assms(1) _ assms(2)] obtain k where k: "k < length rs" "in_run i (fst (rs ! k))"
    "\<forall>j < k. snd (fst (rs ! j)) \<le> i" "\<forall>j < length rs. k < j \<longrightarrow> i < fst (fst (rs ! j))" by auto
  have ne: "fst (fst (rs ! j)) < snd (fst (rs ! j))" if "j < length rs" for j
    using tiles_runs_wf [OF assms(1)] nth_mem [OF that] by (auto simp: runs_wf_def)
  have "binary_search_by (run_cmp i) rs = Some k"
  proof (rule binary_search_by_hit [OF k(1)])
    show "run_cmp i (rs ! k) = Equal" using k(2) by (auto simp: run_cmp_def in_run_def)
    show "\<forall>j < length rs. k < j \<longrightarrow> run_cmp i (rs ! j) = Greater"
      using k(4) ne by (force simp: run_cmp_def)
    show "\<forall>j < k. run_cmp i (rs ! j) = Less" using k(3) by (simp add: run_cmp_def)
  qed
  moreover have "run_lookup rs i = Some (snd (rs ! k))"
    by (rule run_lookup_nth) (use k in \<open>auto simp: in_run_def\<close>)
  ultimately show ?thesis using k(1) by blast
qed

lemma decode_lookup: "run_lookup (decode_runs table rs) i = map_option (\<lambda>j. table ! j) (run_lookup rs i)"
  by (induction rs) (auto simp: decode_runs_def)

lemma vm_get_values:
  assumes "mesh_inv m"
  shows "vm_get m i = (if i < num_ranks (vm_region m) then Some (mesh_values m ! i) else None)"
proof (cases "i < num_ranks (vm_region m)")
  case True
  show ?thesis
  proof (cases "vm_rep m")
    case (Dense vs)
    then show ?thesis
      using True mesh_invD(1) [OF assms Dense] by (simp add: vm_get_def mesh_values_def)
  next
    case (Compressed table rs)
    note t = mesh_invD(2) [OF assms Compressed]
    from search_runs [OF t True] obtain k where k: "k < length rs"
      "binary_search_by (run_cmp i) rs = Some k" "run_lookup rs i = Some (snd (rs ! k))" by blast
    have "tiles 0 (num_ranks (vm_region m)) (decode_runs table rs)" using t unfolding tiles_decode .
    from expand_lookup [OF this _ True] have "table ! snd (rs ! k) = mesh_values m ! i"
      using k(3) by (simp add: decode_lookup mesh_values_def Compressed)
    moreover have "snd (rs ! k) < length table"
      using mesh_invD(3) [OF assms Compressed nth_mem [OF k(1)]] .
    ultimately show ?thesis using True k(2) by (simp add: vm_get_def Compressed)
  qed
qed (simp add: vm_get_def)

section \<open>Constructors\<close>

lemma from_single_props:
  "mesh_inv (from_single region s) \<and> mesh_values (from_single region s) = replicate (num_ranks region) s"
  by (simp add: from_single_def Let_def mesh_inv_def mesh_values_def decode_runs_def expand_runs_def)

lemma from_dense_props:
  assumes "length vs = num_ranks region" "length vs \<le> 2 ^ 32"
  shows "\<exists>m. from_dense region vs = Inr m \<and> mesh_inv m \<and> mesh_values m = vs \<and> vm_region m = region"
proof -
  from rle_from_dense_eq [OF assms(2)] obtain table rs where
    r: "rle_from_dense vs (=) = (table, rs)" "expand_runs (decode_runs table rs) = vs"
      "tiles 0 (length vs) rs" "\<forall>x \<in> set rs. snd x < length table" by blast
  then have "from_dense region vs = Inr \<lparr>vm_region = region, vm_rep = Compressed table rs\<rparr>"
    using assms(1) by (simp add: from_dense_def vm_new_def compress_adjacent_in_place_def
        compress_adjacent_in_place_by_def)
  then show ?thesis
    using r(2-4) assms(1) by (simp add: mesh_inv_def mesh_values_def)
qed

text \<open>The runs of \<open>from_ranges_with_default\<close> with their values in place of the ids.\<close>

fun fill_runs :: "'v \<Rightarrow> nat \<Rightarrow> nat \<Rightarrow> 'v run list \<Rightarrow> 'v run list" where
  "fill_runs dflt n cursor [] = (if cursor < n then [((cursor, n), dflt)] else [])"
| "fill_runs dflt n cursor ((r, v) # rest) =
     (if cursor < fst r then [((cursor, fst r), dflt)] else []) @ (r, v) # fill_runs dflt n (snd r) rest"

lemma fill_runs_props:
  assumes "runs_wf ranges" "\<forall>x \<in> set ranges. cursor \<le> fst (fst x) \<and> snd (fst x) \<le> n" "cursor \<le> n"
  shows "tiles cursor n (fill_runs dflt n cursor ranges) \<and>
    (\<forall>i. cursor \<le> i \<and> i < n \<longrightarrow> run_lookup (fill_runs dflt n cursor ranges) i =
      Some (case run_lookup ranges i of Some v \<Rightarrow> v | None \<Rightarrow> dflt))"
  using assms
proof (induction dflt n cursor ranges rule: fill_runs.induct)
  case (2 dflt n cursor r v rest)
  have d: "fst r < snd r" "\<forall>x \<in> set rest. snd r \<le> fst (fst x)" "runs_wf rest" "cursor \<le> fst r" "snd r \<le> n"
    using "2.prems" by (auto simp: runs_wf_Cons)
  have IH: "tiles (snd r) n (fill_runs dflt n (snd r) rest)"
    "\<forall>i. snd r \<le> i \<and> i < n \<longrightarrow> run_lookup (fill_runs dflt n (snd r) rest) i =
      Some (case run_lookup rest i of Some v \<Rightarrow> v | None \<Rightarrow> dflt)"
    using "2.IH" d "2.prems"(2) by auto
  have "run_lookup rest i = None" if "i < snd r" for i using lookup_before [OF d(3,2) that] .
  with IH(2) d have "run_lookup (fill_runs dflt n cursor ((r, v) # rest)) i =
      Some (case run_lookup ((r, v) # rest) i of Some v \<Rightarrow> v | None \<Rightarrow> dflt)" if "cursor \<le> i" "i < n" for i
    using that by (auto simp: in_run_def)
  moreover have "tiles cursor n (fill_runs dflt n cursor ((r, v) # rest))"
    using IH(1) d by (cases r) auto
  ultimately show ?case by blast
qed (auto simp: in_run_def)

lemma id_of_props:
  assumes "id_of index v = (j, index1)"
  shows "\<exists>ext. index1 = index @ ext" "j < length index1" "index1 ! j = v"
  using assms position_Some [of "\<lambda>x. x = v" index]
  by (auto simp: id_of_def nth_append split: option.splits)

lemma fill_loop_decodes:
  assumes "fill_loop d ranges index rs cursor = (table, rs', cursor')"
    "d < length index" "\<forall>x \<in> set rs. snd x < length index"
  shows "(\<exists>ext. table = index @ ext) \<and> (\<forall>x \<in> set rs'. snd x < length table) \<and>
    decode_runs table (rs' @ (if cursor' < n then [((cursor', n), d)] else [])) =
      decode_runs index rs @ fill_runs (index ! d) n cursor ranges"
  using assms
proof (induction d ranges index rs cursor rule: fill_loop.induct)
  case (2 d r v rest index rs cursor)
  define rs1 where "rs1 = (if cursor < fst r then rs @ [((cursor, fst r), d)] else rs)"
  obtain j index1 where j: "id_of index v = (j, index1)" by (cases "id_of index v")
  note i = id_of_props [OF j]
  from i(1) obtain ext where ext: "index1 = index @ ext" by blast
  have l: "fill_loop d rest index1 (rs1 @ [(r, j)]) (snd r) = (table, rs', cursor')"
    using "2.prems"(1) by (simp add: j rs1_def Let_def)
  have ids: "\<forall>x \<in> set rs1. snd x < length index" using "2.prems"(2,3) by (auto simp: rs1_def)
  have ids1: "\<forall>x \<in> set (rs1 @ [(r, j)]). snd x < length index1"
    using ids i(2) by (auto simp: ext intro: trans_less_add1)
  have "(\<exists>ext. table = index1 @ ext) \<and> (\<forall>x \<in> set rs'. snd x < length table) \<and>
    decode_runs table (rs' @ (if cursor' < n then [((cursor', n), d)] else [])) =
      decode_runs index1 (rs1 @ [(r, j)]) @ fill_runs (index1 ! d) n (snd r) rest"
    by (rule "2.IH" [OF _ _ _ l _ ids1]) (use "2.prems"(2) in \<open>simp_all add: rs1_def j ext\<close>)
  moreover have "index1 ! d = index ! d" using ext "2.prems"(2) by (simp add: nth_append)
  moreover have "decode_runs index1 rs1 = decode_runs index rs @
      (if cursor < fst r then [((cursor, fst r), index ! d)] else [])"
    unfolding ext decode_runs_extend [OF ids] by (simp add: rs1_def)
  ultimately show ?case using i(3) ext by auto
qed (auto simp: decode_runs_def)

text \<open>The checks accept exactly the nonempty, in-bounds, pairwise disjoint ranges.\<close>

lemma check_ranges_iff:
  "check_ranges n rs = Inr () \<longleftrightarrow> nonempty_runs rs \<and> (\<forall>x \<in> set rs. snd (fst x) \<le> n)"
  by (induction n rs rule: check_ranges.induct) (auto simp: range_is_empty_def)

lemma check_windows_iff:
  "nonempty_runs rs \<Longrightarrow> check_windows n rs = Inr () \<longleftrightarrow> runs_wf rs"
proof (induction n rs rule: check_windows.induct)
  case (1 n a u b v rs)
  then have IH: "snd a \<le> fst b \<Longrightarrow> check_windows n ((b, v) # rs) = Inr () \<longleftrightarrow> runs_wf ((b, v) # rs)" by simp
  have "runs_wf ((a, u) # (b, v) # rs) \<longleftrightarrow> snd a \<le> fst b \<and> runs_wf ((b, v) # rs)"
    using "1.prems" by (fastforce simp: runs_wf_Cons)
  with IH show ?case by auto
qed (auto simp: runs_wf_def)

lemma from_ranges_props:
  assumes "0 < num_ranks region"
  shows "if nonempty_runs ranges \<and> (\<forall>x \<in> set ranges. snd (fst x) \<le> num_ranks region) \<and>
      sorted_wrt disjoint_runs ranges
    then \<exists>m. from_ranges_with_default region dflt ranges = Inr m \<and> mesh_inv m \<and> vm_region m = region \<and>
      (\<forall>i < num_ranks region. mesh_values m ! i =
        (case run_lookup ranges i of Some v \<Rightarrow> v | None \<Rightarrow> dflt))
    else \<exists>e. from_ranges_with_default region dflt ranges = Inl e"
proof -
  define n where "n = num_ranks region"
  let ?s = "sort_key fst ranges"
  have c: "check_ranges n ranges = Inr () \<longleftrightarrow> nonempty_runs ranges \<and> (\<forall>x \<in> set ranges. snd (fst x) \<le> n)"
    by (rule check_ranges_iff)
  have w: "check_windows n ?s = Inr () \<longleftrightarrow> sorted_wrt disjoint_runs ranges" if "nonempty_runs ranges"
    using check_windows_iff [of ?s n] runs_wf_sort [OF that] that by simp
  show ?thesis
  proof (cases "check_ranges n ranges = Inr () \<and> check_windows n ?s = Inr ()")
    case True
    obtain table rs cur where f: "fill_loop 0 ?s [dflt] [] 0 = (table, rs, cur)"
      by (cases "fill_loop 0 ?s [dflt] [] 0") auto
    define rs1 where "rs1 = (if cur < n then rs @ [((cur, n), 0)] else rs)"
    have r: "from_ranges_with_default region dflt ranges = Inr \<lparr>vm_region = region, vm_rep = Compressed table rs1\<rparr>"
      using True f assms by (simp add: from_ranges_with_default_def n_def [symmetric] Let_def id_of_def rs1_def)
    have dis: "sorted_wrt disjoint_runs ranges" and ne: "nonempty_runs ranges" using True c w by auto
    have wf: "runs_wf ?s" using runs_wf_sort [OF ne] dis by simp
    from fill_loop_decodes [OF f, of n] have d: "decode_runs table rs1 = fill_runs dflt n 0 ?s"
      "\<forall>x \<in> set rs. snd x < length table" "0 < length table" by (auto simp: rs1_def)
    have p: "tiles 0 n (fill_runs dflt n 0 ?s)"
      "\<forall>i < n. run_lookup (fill_runs dflt n 0 ?s) i = Some (case run_lookup ?s i of Some v \<Rightarrow> v | None \<Rightarrow> dflt)"
      using fill_runs_props [OF wf, of 0 n dflt] True c by auto
    have "run_lookup ?s i = run_lookup ranges i" for i
      by (rule run_lookup_perm [symmetric, OF dis]) simp
    then have "expand_runs (decode_runs table rs1) ! i = (case run_lookup ranges i of Some v \<Rightarrow> v | None \<Rightarrow> dflt)"
      if "i < n" for i
      using expand_lookup [OF p(1), of i] p(2) that unfolding d(1) by simp
    moreover have "tiles 0 n rs1" using p(1) unfolding d(1) [symmetric] tiles_decode .
    moreover have "\<forall>x \<in> set rs1. snd x < length table" using d(2,3) by (auto simp: rs1_def)
    ultimately show ?thesis
      using True c w r by (simp add: mesh_inv_def mesh_values_def n_def)
  next
    case False
    then have "\<exists>e. from_ranges_with_default region dflt ranges = Inl e"
      using assms by (cases "check_ranges n ranges"; cases "check_windows n ?s")
        (auto simp: from_ranges_with_default_def n_def)
    then show ?thesis using False c w by (auto simp: n_def)
  qed
qed

section \<open>Runs of a mesh\<close>

definition dense_runs_inv :: "'v list \<Rightarrow> nat \<Rightarrow> nat \<Rightarrow> 'v run list \<Rightarrow> bool" where
  "dense_runs_inv vs i start out \<longleftrightarrow> start < i \<and> i \<le> length vs \<and> tiles 0 start out \<and>
     expand_runs out = take start vs \<and> (\<forall>k. start \<le> k \<and> k < i \<longrightarrow> vs ! k = vs ! (i - 1))"

lemma take_replicate:
  assumes "start < i" "i \<le> length vs" "\<forall>k. start \<le> k \<and> k < i \<longrightarrow> vs ! k = v"
  shows "take start vs @ replicate (i - start) v = take i vs"
  by (rule nth_equalityI) (use assms in \<open>auto simp: nth_append\<close>)

lemma dense_runs_loop_inv:
  assumes "dense_runs_inv vs i start out" "dense_runs_loop vs [i..<length vs] start out = (s, o')"
  shows "dense_runs_inv vs (length vs) s o'"
  using assms
proof (induction "length vs - i" arbitrary: i start out)
  case 0
  then show ?case by (auto simp: dense_runs_inv_def)
next
  case (Suc d)
  then have i: "i < length vs" by simp
  then have up: "[i..<length vs] = i # [Suc i..<length vs]" by (rule upt_conv_Cons)
  note inv = Suc.prems(1) [unfolded dense_runs_inv_def]
  show ?case
  proof (cases "vs ! i = vs ! (i - 1)")
    case True
    have "vs ! k = vs ! i" if "start \<le> k" "k < Suc i" for k
      using inv True that by (cases "k = i") (simp, metis less_SucE)
    then have "dense_runs_inv vs (Suc i) start out"
      unfolding dense_runs_inv_def using inv i by (metis Suc_leI diff_Suc_1 less_SucI)
    moreover have "dense_runs_loop vs [Suc i..<length vs] start out = (s, o')"
      using Suc.prems(2) up True by simp
    ultimately show ?thesis using Suc.hyps(2) by (intro Suc.hyps(1) [of "Suc i"]) simp_all
  next
    case False
    have "take start vs @ replicate (i - start) (vs ! (i - 1)) = take i vs"
      using inv by (intro take_replicate) blast+
    moreover have "tiles 0 start out" "expand_runs out = take start vs" "start < i" using inv by blast+
    ultimately have "dense_runs_inv vs (Suc i) i (out @ [((start, i), vs ! (i - 1))])"
      using i by (auto simp: dense_runs_inv_def tiles_snoc less_Suc_eq)
    moreover have "dense_runs_loop vs [Suc i..<length vs] i (out @ [((start, i), vs ! (i - 1))]) = (s, o')"
      using Suc.prems(2) up False by simp
    ultimately show ?thesis using Suc.hyps(2) by (intro Suc.hyps(1) [of "Suc i"]) simp_all
  qed
qed

lemma materialized_runs_props:
  assumes "mesh_inv m"
  shows "tiles 0 (num_ranks (vm_region m)) (materialized_runs m) \<and>
    expand_runs (materialized_runs m) = mesh_values m"
proof (cases "vm_rep m")
  case (Dense vs)
  note len = mesh_invD(1) [OF assms Dense]
  show ?thesis
  proof (cases "vs = []")
    case True
    then show ?thesis using len by (simp add: materialized_runs_def mesh_values_def Dense expand_runs_def)
  next
    case False
    obtain s o' where l: "dense_runs_loop vs [1..<length vs] 0 [] = (s, o')"
      by (cases "dense_runs_loop vs [1..<length vs] 0 []")
    have "dense_runs_inv vs 1 0 []" using False by (simp add: dense_runs_inv_def expand_runs_def Suc_leI)
    from dense_runs_loop_inv [OF this l] have inv: "s < length vs" "tiles 0 s o'"
      "expand_runs o' = take s vs" "\<forall>k. s \<le> k \<and> k < length vs \<longrightarrow> vs ! k = last vs"
      using False by (auto simp: dense_runs_inv_def last_conv_nth)
    have "materialized_runs m = o' @ [((s, length vs), last vs)]"
      using l False by (simp add: materialized_runs_def Dense)
    then show ?thesis
      using inv take_replicate [of s "length vs" vs "last vs"] len
      by (simp add: tiles_snoc mesh_values_def Dense)
  qed
next
  case (Compressed table rs)
  then have "materialized_runs m = decode_runs table rs" by (simp add: materialized_runs_def decode_runs_def)
  then show ?thesis
    using mesh_invD(2) [OF assms Compressed] by (simp add: tiles_decode mesh_values_def Compressed)
qed

section \<open>Merging an overlay into a mesh\<close>

lemma tilesI:
  assumes "runs_wf rs" "\<forall>x \<in> set rs. lo \<le> fst (fst x) \<and> snd (fst x) \<le> hi" "lo \<le> hi"
    "\<forall>i. lo \<le> i \<and> i < hi \<longrightarrow> run_lookup rs i \<noteq> None"
  shows "tiles lo hi rs"
  using assms
proof (induction rs arbitrary: lo)
  case Nil
  then show ?case by (metis linorder_neqE_nat linorder_not_le order_refl run_lookup.simps(1) tiles.simps(1))
next
  case (Cons x rs)
  obtain a b v where x: "x = ((a, b), v)" by (metis prod.exhaust)
  have d: "a < b" "\<forall>x \<in> set rs. b \<le> fst (fst x)" "runs_wf rs" "lo \<le> a" "b \<le> hi"
    using Cons.prems by (auto simp: x runs_wf_Cons)
  have "a = lo"
  proof (rule ccontr)
    assume "a \<noteq> lo"
    then have "run_lookup (x # rs) lo = None"
      using d by (intro run_lookup_None) (auto simp: x in_run_def)
    then show False using Cons.prems(4) d by auto
  qed
  moreover have "\<forall>i. b \<le> i \<and> i < hi \<longrightarrow> run_lookup rs i \<noteq> None"
    using Cons.prems(4) d by (auto simp: x in_run_def split: if_splits)
  moreover have "\<forall>x \<in> set rs. b \<le> fst (fst x) \<and> snd (fst x) \<le> hi"
    using d(2) Cons.prems(2) by simp
  ultimately show ?case using Cons.IH [OF d(3), of b] d by (simp add: x)
qed

lemma runs_wf_length:
  "runs_wf rs \<Longrightarrow> \<forall>x \<in> set rs. lo \<le> fst (fst x) \<and> snd (fst x) \<le> hi \<Longrightarrow> lo \<le> hi \<Longrightarrow> length rs \<le> hi - lo"
proof (induction rs arbitrary: lo)
  case (Cons x rs)
  obtain r v where x: "x = (r, v)" by (cases x)
  then have d: "fst r < snd r" "\<forall>x \<in> set rs. snd r \<le> fst (fst x)" "runs_wf rs" "lo \<le> fst r" "snd r \<le> hi"
    using Cons.prems by (auto simp: runs_wf_Cons)
  have "length rs \<le> hi - snd r" using Cons.IH [of "snd r"] d Cons.prems(2) by auto
  then show ?case using d by simp
qed simp

text \<open>A sorted run list without overlap is determined at its ends by what it denotes.\<close>

lemma lookup_bounds:
  assumes "runs_wf rs" "\<forall>i. run_lookup rs i \<noteq> None \<longrightarrow> lo \<le> i \<and> i < hi" "x \<in> set rs"
  shows "lo \<le> fst (fst x) \<and> snd (fst x) \<le> hi"
proof -
  have ne: "fst (fst x) < snd (fst x)" using assms(1,3) by (rule wf_nonempty)
  have "run_lookup rs i \<noteq> None" if "in_run i (fst x)" for i
    using assms(3) that by (induction rs i rule: run_lookup.induct) auto
  then have "run_lookup rs (fst (fst x)) \<noteq> None" "run_lookup rs (snd (fst x) - 1) \<noteq> None"
    using ne by (auto simp: in_run_def)
  then have "lo \<le> fst (fst x)" "snd (fst x) - 1 < hi" using assms(2) by blast+
  with ne show ?thesis by simp
qed

lemma check_bounds_iff: "check_bounds n rs = Inr () \<longleftrightarrow> (\<forall>x \<in> set rs. snd (fst x) \<le> n)"
  by (induction n rs rule: check_bounds.induct) auto

lemma merge_from_overlay_props:
  assumes "mesh_inv m" "num_ranks (vm_region m) \<le> 2 ^ 32" "overlay_inv ov"
    "\<forall>x \<in> set (ov_runs ov). snd (fst x) \<le> num_ranks (vm_region m)"
    "no_overhang (materialized_runs m) (ov_runs ov)"
  shows "\<exists>m'. merge_from_overlay m ov = Inr m' \<and> mesh_inv m' \<and> vm_region m' = vm_region m \<and>
    (\<forall>i < num_ranks (vm_region m). mesh_values m' ! i =
      (case run_lookup (ov_runs ov) i of Some v \<Rightarrow> v | None \<Rightarrow> mesh_values m ! i))"
proof -
  define n where "n = num_ranks (vm_region m)"
  define ls where "ls = materialized_runs m"
  define merged where "merged = merge_value_runs ls (ov_runs ov)"
  obtain table rs where r: "rle_from_value_runs merged = (table, rs)" by (cases "rle_from_value_runs merged")
  have ls: "tiles 0 n ls" "expand_runs ls = mesh_values m"
    using materialized_runs_props [OF assms(1)] by (auto simp: n_def ls_def)
  have lwf: "runs_wf ls" "\<forall>x \<in> set ls. snd (fst x) \<le> n" using tiles_runs_wf [OF ls(1)] by auto
  have rwf: "runs_wf (ov_runs ov)" using assms(3) by (simp add: overlay_inv_def)
  have mwf: "runs_wf merged"
    using merge_value_runs_wf [OF lwf(1) rwf] assms(5) by (simp add: merged_def ls_def)
  have lk: "run_lookup merged i = (case run_lookup (ov_runs ov) i of Some v \<Rightarrow> Some v | None \<Rightarrow> run_lookup ls i)" for i
    using merge_value_runs_lookup [OF lwf(1) rwf, of i] by (simp add: merged_def overlay_on_def)
  have out: "run_lookup xs i = None" if "\<forall>x \<in> set xs. snd (fst x) \<le> n" "\<not> i < n" for i and xs :: "'a run list"
    by (rule run_lookup_None) (use that in \<open>fastforce simp: in_run_def\<close>)
  have "\<forall>i. run_lookup merged i \<noteq> None \<longrightarrow> 0 \<le> i \<and> i < n"
    using out [OF lwf(2)] out [OF assms(4) [folded n_def]]
    by (auto simp: lk split: option.splits intro: ccontr)
  then have "\<forall>x \<in> set merged. 0 \<le> fst (fst x) \<and> snd (fst x) \<le> n"
    using lookup_bounds [OF mwf] by blast
  then have len: "length merged \<le> 2 ^ 32"
    using runs_wf_length [OF mwf, of 0 n] assms(2) by (simp add: n_def)
  have val: "run_lookup merged i = Some (case run_lookup (ov_runs ov) i of Some v \<Rightarrow> v | None \<Rightarrow> mesh_values m ! i)"
    if "i < n" for i
    using expand_lookup [OF ls(1), of i] that ls(2) by (auto simp: lk split: option.splits)
  note dec = rle_from_value_runs_spec [OF len mwf r]
  have tl: "tiles 0 n (decode_runs table rs)"
  proof (rule tilesI [OF dec(1)])
    show "\<forall>x \<in> set (decode_runs table rs). 0 \<le> fst (fst x) \<and> snd (fst x) \<le> n"
      using lookup_bounds [OF dec(1), of 0 n] \<open>\<forall>i. run_lookup merged i \<noteq> None \<longrightarrow> 0 \<le> i \<and> i < n\<close>
      by (simp add: dec(3))
  qed (auto simp: dec(3) val)
  have "merge_from_overlay m ov = Inr (m\<lparr>vm_rep := Compressed table rs\<rparr>)"
    using check_bounds_iff [of n "ov_runs ov"] assms(4) r
    by (simp add: merge_from_overlay_def n_def merged_def ls_def)
  moreover have "mesh_inv (m\<lparr>vm_rep := Compressed table rs\<rparr>)"
    using tl rle_from_value_runs_decodes(2) [OF len r] by (simp add: mesh_inv_def tiles_decode n_def)
  moreover have "mesh_values (m\<lparr>vm_rep := Compressed table rs\<rparr>) ! i =
      (case run_lookup (ov_runs ov) i of Some v \<Rightarrow> v | None \<Rightarrow> mesh_values m ! i)" if "i < n" for i
    using expand_lookup [OF tl, of i] val [OF that] that by (simp add: mesh_values_def dec(3))
  ultimately show ?thesis by (auto simp: n_def)
qed

section \<open>Building from indexed pairs\<close>

text \<open>The bitset marks exactly the initialized slots and the counter counts them.\<close>

definition indexed_inv :: "nat \<Rightarrow> 'v indexed_state \<Rightarrow> bool" where
  "indexed_inv n st \<longleftrightarrow> length (ix_buf st) = n \<and> length (ix_bits st) = div_ceil n 64 \<and>
     (\<forall>r < n. bit (ix_bits st ! (r div 64)) (r mod 64) \<longleftrightarrow> ix_buf st ! r \<noteq> None) \<and>
     ix_filled st = card {r. r < n \<and> ix_buf st ! r \<noteq> None}"

lemma indexed_init_inv: "indexed_inv n (indexed_init n)"
proof -
  have "r div 64 < div_ceil n 64" if "r < n" for r
    using that less_div_ceil_iff [of 64 "r div 64" n] by (simp add: le_less_trans [OF div_times_less_eq_dividend])
  then show ?thesis by (auto simp: indexed_inv_def indexed_init_def)
qed

lemma slot_bit:
  fixes w :: "64 word"
  shows "w AND push_bit (r mod 64) 1 \<noteq> 0 \<longleftrightarrow> bit w (r mod 64)"
    and "bit (w OR push_bit (r mod 64) 1) (k mod 64) \<longleftrightarrow> bit w (k mod 64) \<or> k mod 64 = r mod 64"
proof -
  show "w AND push_bit (r mod 64) 1 \<noteq> 0 \<longleftrightarrow> bit w (r mod 64)"
    by (simp add: bit_iff_and_push_bit_not_eq_0)
  show "bit (w OR push_bit (r mod 64) 1) (k mod 64) \<longleftrightarrow> bit w (k mod 64) \<or> k mod 64 = r mod 64"
    by (auto simp: bit_or_iff bit_exp_iff)
qed

lemma write_pair_inv:
  assumes "indexed_inv n st" "r < n"
  shows "indexed_inv n (write_pair st r v)" and "ix_buf (write_pair st r v) = (ix_buf st)[r := Some v]"
proof -
  note inv = assms(1) [unfolded indexed_inv_def]
  show buf: "ix_buf (write_pair st r v) = (ix_buf st)[r := Some v]"
    by (simp add: write_pair_def Let_def)
  have w: "r div 64 < length (ix_bits st)"
    using inv assms(2) less_div_ceil_iff [of 64 "r div 64" n]
    by (simp add: le_less_trans [OF div_times_less_eq_dividend])
  show "indexed_inv n (write_pair st r v)"
  proof (cases "ix_buf st ! r = None")
    case True
    then have nb: "\<not> bit (ix_bits st ! (r div 64)) (r mod 64)" using inv assms(2) by simp
    have bits: "ix_bits (write_pair st r v) =
        (ix_bits st)[r div 64 := (ix_bits st ! (r div 64)) OR push_bit (r mod 64) 1]"
      and filled: "ix_filled (write_pair st r v) = ix_filled st + 1"
      using nb slot_bit(1) [of "ix_bits st ! (r div 64)" r] by (simp_all add: write_pair_def Let_def)
    have "bit (ix_bits (write_pair st r v) ! (k div 64)) (k mod 64) \<longleftrightarrow> ix_buf (write_pair st r v) ! k \<noteq> None"
      if "k < n" for k
    proof (cases "k div 64 = r div 64")
      case True
      have "k = r \<longleftrightarrow> k mod 64 = r mod 64" using True by (metis div_mod_decomp)
      then show ?thesis
        unfolding bits buf True nth_list_update_eq [OF w] slot_bit(2) using inv that True
        by (cases "k = r") auto
    next
      case False
      then have "k \<noteq> r" by blast
      with False show ?thesis unfolding bits buf using inv that by simp
    qed
    moreover have "{k. k < n \<and> (ix_buf st)[r := Some v] ! k \<noteq> None} =
        insert r {k. k < n \<and> ix_buf st ! k \<noteq> None}"
      using assms(2) inv by (auto simp: nth_list_update)
    ultimately show ?thesis
      unfolding indexed_inv_def using inv True by (simp add: buf filled bits)
  next
    case False
    then have nb: "bit (ix_bits st ! (r div 64)) (r mod 64)" using inv assms(2) by simp
    have same: "ix_bits (write_pair st r v) = ix_bits st" "ix_filled (write_pair st r v) = ix_filled st"
      using nb slot_bit(1) [of "ix_bits st ! (r div 64)" r] by (simp_all add: write_pair_def Let_def)
    have none: "(ix_buf st)[r := Some v] ! k \<noteq> None \<longleftrightarrow> ix_buf st ! k \<noteq> None" if "k < n" for k
      using False that inv by (cases "k = r") auto
    then have "{k. k < n \<and> (ix_buf st)[r := Some v] ! k \<noteq> None} = {k. k < n \<and> ix_buf st ! k \<noteq> None}"
      by blast
    then show ?thesis unfolding indexed_inv_def using inv none by (simp add: buf same)
  qed
qed

lemma index_pairs_ok:
  assumes "indexed_inv n st" "\<forall>x \<in> set ps. fst x < n"
  shows "\<exists>st'. index_pairs n ps st = Inr st' \<and> indexed_inv n st' \<and>
    (\<forall>r < n. ix_buf st' ! r = (case map_of (rev ps) r of Some v \<Rightarrow> Some v | None \<Rightarrow> ix_buf st ! r))"
  using assms
proof (induction n ps st rule: index_pairs.induct)
  case (2 n rank v ps st)
  then have r: "rank < n" by simp
  note w = write_pair_inv [OF "2.prems"(1) r, of v]
  obtain st' where st': "index_pairs n ps (write_pair st rank v) = Inr st'" "indexed_inv n st'"
    "\<forall>r < n. ix_buf st' ! r =
      (case map_of (rev ps) r of Some v \<Rightarrow> Some v | None \<Rightarrow> ix_buf (write_pair st rank v) ! r)"
    using "2.IH" [OF _ w(1)] r "2.prems"(2) by auto
  have "length (ix_buf st) = n" using "2.prems"(1) by (simp add: indexed_inv_def)
  then have "ix_buf st' ! k = (case map_of (rev ((rank, v) # ps)) k of Some v \<Rightarrow> Some v | None \<Rightarrow> ix_buf st ! k)"
    if "k < n" for k
    using st'(3) that by (auto simp: w(2) map_add_def split: option.splits)
  then show ?case using st'(1,2) r by auto
qed simp

lemma index_pairs_err:
  assumes "\<not> (\<forall>x \<in> set ps. fst x < n)"
  shows "\<exists>x \<in> set ps. n \<le> fst x \<and> index_pairs n ps st = Inl (InvalidRankCardinality n (fst x + 1))"
  using assms by (induction n ps st rule: index_pairs.induct) force+

lemma those_Some: "those (map Some xs) = Some xs"
  by (induction xs) auto

lemma build_indexed_props:
  fixes pairs :: "(nat \<times> 'v) list"
  assumes "\<forall>x \<in> set pairs. fst x < num_ranks region"
  shows "build_indexed region pairs =
    (if fst ` set pairs = {..<num_ranks region}
     then Inr (Some (vm_new_unchecked region (map (\<lambda>r. the (map_of (rev pairs) r)) [0..<num_ranks region])))
     else Inl (InvalidRankCardinality (num_ranks region) (card (fst ` set pairs))))"
proof -
  define n where "n = num_ranks region"
  have lt: "\<forall>x \<in> set pairs. fst x < n" using assms unfolding n_def .
  from index_pairs_ok [OF indexed_init_inv lt] obtain st where
    st: "index_pairs n pairs (indexed_init n) = Inr st" "indexed_inv n st"
    "\<forall>r < n. ix_buf st ! r = (case map_of (rev pairs) r of Some v \<Rightarrow> Some v | None \<Rightarrow> ix_buf (indexed_init n) ! r)"
    by blast
  have buf: "ix_buf st ! r = map_of (rev pairs) r" if "r < n" for r
    using st(3) that by (auto simp: indexed_init_def split: option.splits)
  have dom: "map_of (rev pairs) r \<noteq> None \<longleftrightarrow> r \<in> fst ` set pairs" for r
    by (simp add: map_of_eq_None_iff)
  have "r < n \<and> ix_buf st ! r \<noteq> None \<longleftrightarrow> r < n \<and> r \<in> fst ` set pairs" for r
    using buf [of r] dom [of r] by (cases "r < n") simp_all
  then have "{r. r < n \<and> ix_buf st ! r \<noteq> None} = {r. r < n \<and> r \<in> fst ` set pairs}"
    by (rule Collect_cong)
  also have "\<dots> = fst ` set pairs" using lt by auto
  finally have filled: "ix_filled st = card (fst ` set pairs)" using st(2) by (simp add: indexed_inv_def)
  have sub: "fst ` set pairs \<subseteq> {..<n}" using lt by auto
  have full: "ix_filled st = n \<longleftrightarrow> fst ` set pairs = {..<n}"
    unfolding filled using card_subset_eq [OF _ sub] by (metis card_lessThan finite_lessThan)
  show ?thesis
  proof (cases "fst ` set pairs = {..<n}")
    case True
    define f where "f = (\<lambda>r. the (map_of (rev pairs) r))"
    have got: "map_of (rev pairs) r = Some (f r)" if "r < n" for r
      using dom [of r] that unfolding True f_def by simp
    have "ix_buf st = map Some (map f [0..<n])"
    proof (rule nth_equalityI)
      show "length (ix_buf st) = length (map Some (map f [0..<n]))"
        using st(2) by (simp add: indexed_inv_def)
      then show "ix_buf st ! r = map Some (map f [0..<n]) ! r" if "r < length (ix_buf st)" for r
        using that by (simp add: buf got)
    qed
    then show ?thesis
      using st(1) True full
      by (simp add: build_indexed_def n_def [symmetric] f_def [symmetric] those_Some del: map_map)
  next
    case False
    then show ?thesis using st(1) full filled by (simp add: build_indexed_def n_def [symmetric])
  qed
qed

section \<open>The drop guard\<close>

lemma trailing_zeros_props:
  assumes "w \<noteq> 0"
  shows "trailing_zeros w < 64" "bit w (trailing_zeros w)" "\<forall>i < trailing_zeros w. \<not> bit w i"
proof -
  let ?t = "takeWhile (\<lambda>i. \<not> bit w i) [0..<64]"
  from assms obtain i where i: "bit w i" using bit_eqI [of w 0] by auto
  then have "i < 64" using bit_imp_le_length [OF i] by simp
  show lt: "trailing_zeros w < 64"
  proof (rule ccontr)
    assume "\<not> trailing_zeros w < 64"
    then have "length ?t \<ge> length [0..<64]" by (simp add: trailing_zeros_def)
    then have "?t = [0..<64]"
      using length_takeWhile_le [of "\<lambda>i. \<not> bit w i" "[0..<64]"] takeWhile_eq_take
      by (metis take_all)
    then have "\<forall>j \<in> set [0..<64]. \<not> bit w j" by (metis set_takeWhileD)
    with i \<open>i < 64\<close> show False by simp
  qed
  show "bit w (trailing_zeros w)"
    using nth_length_takeWhile [of "\<lambda>i. \<not> bit w i" "[0..<64]"] lt by (simp add: trailing_zeros_def)
  show "\<forall>i < trailing_zeros w. \<not> bit w i"
  proof (intro allI impI)
    fix i assume i: "i < trailing_zeros w"
    then have "?t ! i \<in> set ?t" by (intro nth_mem) (simp add: trailing_zeros_def)
    moreover have "?t ! i = i" using i lt by (simp add: takeWhile_nth trailing_zeros_def)
    ultimately show "\<not> bit w i" by (metis set_takeWhileD)
  qed
qed

text \<open>\<open>word & (word - 1)\<close> clears the lowest set bit.\<close>

lemma clear_lowest:
  assumes "w \<noteq> 0"
  shows "bit (w AND (w - 1)) i \<longleftrightarrow> bit w i \<and> i \<noteq> trailing_zeros w"
proof -
  define k where "k = trailing_zeros w"
  note tz = trailing_zeros_props [OF assms, folded k_def]
  define w' where "w' = unset_bit k w"
  have b: "bit w' j \<longleftrightarrow> bit w j \<and> j \<noteq> k" for j
    by (auto simp: w'_def bit_unset_bit_iff)
  have "w' AND 2 ^ k = 0" by (rule bit_eqI) (auto simp: bit_and_iff b bit_exp_iff)
  then have "w' + 2 ^ k = w' OR 2 ^ k" by (rule disjunctive_add_eq_or)
  also have "\<dots> = w" using tz(1,2) by (intro bit_eqI) (auto simp: bit_or_iff b bit_exp_iff)
  finally have w: "w = w' + 2 ^ k" ..
  have "w' AND mask k = 0" using tz(3) by (intro bit_eqI) (auto simp: bit_and_iff b bit_mask_iff)
  then have "w' + mask k = w' OR mask k" by (rule disjunctive_add_eq_or)
  moreover have "w - 1 = w' + mask k" unfolding w by (simp add: mask_eq_exp_minus_1)
  ultimately have "w - 1 = w' OR mask k" by simp
  then show ?thesis using tz by (auto simp: bit_and_iff bit_or_iff b bit_mask_iff k_def [symmetric])
qed

lemma scan_word_bits: "scan_word w base = map ((+) base) (filter (bit w) [0..<64])"
proof (induction w base rule: scan_word.induct)
  case (1 w base)
  show ?case
  proof (cases "w = 0")
    case False
    define k where "k = trailing_zeros w"
    note tz = trailing_zeros_props [OF False, folded k_def]
    have up: "[0..<64] = [0..<k] @ k # [Suc k..<64]"
      using tz(1) by (metis le_add_same_cancel1 less_imp_le_nat upt_add_eq_append upt_conv_Cons zero_le le_add_diff_inverse)
    have lo: "filter (bit v) [0..<k] = []" if "\<forall>i<k. \<not> bit v i" for v :: "64 word"
      using that by (simp add: filter_empty_conv)
    have hi: "filter (bit (w AND (w - 1))) [Suc k..<64] = filter (bit w) [Suc k..<64]"
      by (rule filter_cong) (auto simp: clear_lowest [OF False] k_def)
    have "filter (bit w) [0..<64] = k # filter (bit w) [Suc k..<64]"
      unfolding up using lo [OF tz(3)] tz(2) by simp
    moreover have "filter (bit (w AND (w - 1))) [0..<64] = filter (bit w) [Suc k..<64]"
      unfolding up using lo [of "w AND (w - 1)"] tz(3) hi by (simp add: clear_lowest [OF False] k_def)
    ultimately show ?thesis
      using False 1 by (subst scan_word.simps) (simp add: k_def)
  qed (simp add: scan_word.simps)
qed

lemma concat_words:
  "concat (map (\<lambda>w. map ((+) (w * 64)) (filter (bit (f w)) [0..<64])) [0..<k]) =
     filter (\<lambda>r. bit (f (r div 64)) (r mod 64)) [0..<k * 64]"
  for f :: "nat \<Rightarrow> 64 word"
proof (induction k)
  case (Suc k)
  have "[0..<Suc k * 64] = [0..<k * 64] @ map ((+) (k * 64)) [0..<64]"
    using upt_add_eq_append [of 0 "k * 64" 64] map_add_upt [of "k * 64" 64]
    by (simp add: add.commute [of 64] add.commute [of _ "k * 64"])
  moreover have "filter (\<lambda>r. bit (f (r div 64)) (r mod 64)) (map ((+) (k * 64)) [0..<64]) =
      map ((+) (k * 64)) (filter (bit (f k)) [0..<64])"
    unfolding filter_map o_def by (intro arg_cong [of _ _ "map _"] filter_cong) auto
  ultimately show ?case using Suc by simp
qed simp

lemma mask_final_bit:
  assumes "w < n_words" "n_words = div_ceil n 64" "i < 64"
  shows "bit (mask_final n n_words w word) i \<longleftrightarrow> bit word i \<and> w * 64 + i < n"
proof (cases "w = n_words - 1")
  case True
  have m: "bit (2 ^ u - 1 :: 64 word) i \<longleftrightarrow> i < u" for u
    using assms(3) by (auto simp flip: mask_eq_exp_minus_1 simp: bit_mask_iff)
  have "w * 64 < n" using assms(1,2) less_div_ceil_iff [of 64 w n] by simp
  then show ?thesis using True assms(3) by (auto simp: mask_final_def Let_def bit_and_iff m)
next
  case False
  then have "Suc w < div_ceil n 64" using assms by simp
  then have "Suc w * 64 < n" using less_div_ceil_iff [of 64 "Suc w" n] by simp
  then show ?thesis using False assms(3) by (simp add: mask_final_def)
qed

lemma drop_guard_slots:
  assumes "indexed_inv n st"
  shows "drop_guard n (ix_bits st) = filter (\<lambda>r. ix_buf st ! r \<noteq> None) [0..<n]"
proof -
  let ?k = "length (ix_bits st)" and ?f = "\<lambda>w. mask_final n (length (ix_bits st)) w (ix_bits st ! w)"
  have k: "?k = div_ceil n 64" using assms by (simp add: indexed_inv_def)
  have n: "n \<le> ?k * 64" using less_div_ceil_iff [of 64 ?k n] k by simp
  have "bit (?f (r div 64)) (r mod 64) \<longleftrightarrow> r < n \<and> ix_buf st ! r \<noteq> None" if "r < ?k * 64" for r
    using mask_final_bit [of "r div 64" ?k n "r mod 64"] that k assms
    by (auto simp: indexed_inv_def less_mult_imp_div_less)
  then have "drop_guard n (ix_bits st) = filter (\<lambda>r. r < n \<and> ix_buf st ! r \<noteq> None) [0..<?k * 64]"
    unfolding drop_guard_def scan_word_bits concat_words by (intro filter_cong) auto
  also have "[0..<?k * 64] = [0..<n] @ [n..<?k * 64]" using n by (metis le_add_diff_inverse upt_add_eq_append zero_le)
  also have "filter (\<lambda>r. r < n \<and> ix_buf st ! r \<noteq> None) \<dots> = filter (\<lambda>r. ix_buf st ! r \<noteq> None) [0..<n]"
    by (auto simp: filter_empty_conv intro: filter_cong)
  finally show ?thesis .
qed

section \<open>Properties\<close>

text \<open>C27: Lookup by rank, with its binary search over the runs, agrees with the dense list of
  values the mesh stands for, for both representations: every rank below the number of ranks has
  its value, and every other rank has none.\<close>

theorem get_agrees:
  assumes "mesh_inv m"
  shows "vm_get m i = (if i < num_ranks (vm_region m) then Some (mesh_values m ! i) else None)"
  by (rule vm_get_values [OF assms])

theorem get_agrees_witness:
  "vm_get \<lparr>vm_region = new_row_major [4],
     vm_rep = Compressed [7, 8 :: nat] [((0, 1), 0), ((1, 3), 1), ((3, 4), 0)]\<rparr> 2 = Some 8"
  using get_agrees [of "\<lparr>vm_region = new_row_major [4],
     vm_rep = Compressed [7, 8 :: nat] [((0, 1), 0), ((1, 3), 1), ((3, 4), 0)]\<rparr>" 2]
  by (simp add: mesh_inv_def mesh_values_def num_ranks_def slice_len_def new_row_major_def
      expand_runs_def decode_runs_def eval_nat_numeral)

text \<open>\<open>from_ranges_with_default\<close> on a nonempty region accepts exactly the nonempty,
  in-bounds, pairwise disjoint ranges, in any order; the mesh then has at each rank the value of
  the range that contains it and the default elsewhere, in runs without gap or overlap.\<close>

theorem from_ranges_spec:
  assumes "0 < num_ranks region"
  shows "if (\<forall>x \<in> set ranges. fst (fst x) < snd (fst x) \<and> snd (fst x) \<le> num_ranks region) \<and>
      sorted_wrt disjoint_runs ranges
    then \<exists>m. from_ranges_with_default region dflt ranges = Inr m \<and> mesh_inv m \<and>
      (\<forall>i < num_ranks region. vm_get m i =
        Some (case run_lookup ranges i of Some v \<Rightarrow> v | None \<Rightarrow> dflt))
    else \<exists>e. from_ranges_with_default region dflt ranges = Inl e"
  using from_ranges_props [OF assms, of ranges dflt] by (auto simp: vm_get_values split: if_splits)

theorem from_ranges_spec_witness:
  "\<exists>m. from_ranges_with_default (new_row_major [5]) (0 :: nat) [((3, 4), 9), ((1, 2), 7)] = Inr m \<and>
     vm_get m 3 = Some 9 \<and> vm_get m 4 = Some 0"
  using from_ranges_spec [of "new_row_major [5]" "[((3, 4), 9 :: nat), ((1, 2), 7)]" 0]
  by (auto simp: num_ranks_def slice_len_def new_row_major_def disjoint_runs_def in_run_def)

text \<open>\<open>from_dense\<close> compresses without loss: for one value per rank (and at most
  \<open>2 ^ 32\<close> of them, the range of the table ids) it succeeds and every rank reads back its value.\<close>

theorem from_dense_get:
  assumes "length vs = num_ranks region" "length vs \<le> 2 ^ 32"
  shows "\<exists>m. from_dense region vs = Inr m \<and> mesh_inv m \<and>
    (\<forall>i. vm_get m i = (if i < length vs then Some (vs ! i) else None))"
  using from_dense_props [OF assms] assms(1) by (auto simp: vm_get_values)

theorem from_dense_get_witness:
  "\<exists>m. from_dense (new_row_major [3]) [7, 7, 8 :: nat] = Inr m \<and> vm_get m 1 = Some 7"
  using from_dense_get [of "[7, 7, 8 :: nat]" "new_row_major [3]"]
  by (auto simp: num_ranks_def slice_len_def new_row_major_def)

text \<open>C31: Merging an overlay into a mesh succeeds when the overlay is in bounds, keeps the mesh
  valid, and gives each rank the overlay's value where it has one and the old value elsewhere. It
  needs that no overlay run reaches past the end of a mesh run of the same value it overlaps.\<close>

theorem merge_from_overlay_right_wins:
  assumes "mesh_inv m" "num_ranks (vm_region m) \<le> 2 ^ 32" "overlay_inv ov"
    "\<forall>x \<in> set (ov_runs ov). snd (fst x) \<le> num_ranks (vm_region m)"
    "no_overhang (materialized_runs m) (ov_runs ov)"
  shows "\<exists>m'. merge_from_overlay m ov = Inr m' \<and> mesh_inv m' \<and>
    (\<forall>i < num_ranks (vm_region m). vm_get m' i =
      (case run_lookup (ov_runs ov) i of Some v \<Rightarrow> Some v | None \<Rightarrow> vm_get m i))"
proof -
  from merge_from_overlay_props [OF assms] obtain m' where m': "merge_from_overlay m ov = Inr m'"
    "mesh_inv m'" "vm_region m' = vm_region m"
    "\<forall>i < num_ranks (vm_region m). mesh_values m' ! i =
      (case run_lookup (ov_runs ov) i of Some v \<Rightarrow> v | None \<Rightarrow> mesh_values m ! i)" by blast
  then show ?thesis
    using vm_get_values [OF assms(1)] vm_get_values [OF m'(2)] by (auto split: option.splits)
qed

theorem merge_from_overlay_right_wins_witness:
  "\<exists>m'. merge_from_overlay (from_single (new_row_major [4]) (3 :: nat)) \<lparr>ov_runs = [((2, 3), 5)]\<rparr> = Inr m' \<and>
     vm_get m' 2 = Some 5"
proof -
  let ?m = "from_single (new_row_major [4]) (3 :: nat)" and ?ov = "\<lparr>ov_runs = [((2, 3), 5 :: nat)]\<rparr>"
  have n: "num_ranks (vm_region ?m) = 4"
    by (simp add: from_single_def num_ranks_def slice_len_def new_row_major_def)
  have "no_overhang (materialized_runs ?m) (ov_runs ?ov)"
    by (simp add: from_single_def num_ranks_def slice_len_def new_row_major_def materialized_runs_def
        no_overhang_def)
  then show ?thesis
    using merge_from_overlay_right_wins [of ?m ?ov] from_single_props [of "new_row_major [4]" "3 :: nat"]
    by (auto simp: n overlay_inv_def runs_wf_def coalesced_def in_run_def)
qed

text \<open>C38: Without that condition an update is lost: a valid overlay that sets all four ranks of a
  mesh to the value its first two ranks already have leaves the old value at the other two.\<close>

theorem overlay_update_lost:
  "\<exists>(m :: nat value_mesh) ov m'. mesh_inv m \<and> overlay_inv ov \<and> merge_from_overlay m ov = Inr m' \<and>
     run_lookup (ov_runs ov) 2 = Some 7 \<and> vm_get m' 2 = Some 8 \<and>
     (\<exists>e. overlay_reduce \<lparr>ov_runs = materialized_runs m\<rparr> ov = Inl e)"
proof (intro exI conjI)
  let ?m = "\<lparr>vm_region = new_row_major [4], vm_rep = Dense [7, 7, 8, 8 :: nat]\<rparr>"
  let ?ov = "\<lparr>ov_runs = [((0, 4), 7 :: nat)]\<rparr>"
  let ?m' = "\<lparr>vm_region = new_row_major [4], vm_rep = Compressed [7, 8 :: nat] [((0, 4), 0), ((2, 4), 1)]\<rparr>"
  have n: "num_ranks (new_row_major [4]) = 4" by (simp add: num_ranks_def slice_len_def new_row_major_def)
  have l: "materialized_runs ?m = [((0, 2), 7), ((2, 4), 8)]"
    by (simp add: materialized_runs_def eval_nat_numeral upt_rec)
  have g: "merge_value_runs [((0, 2), 7), ((2, 4), 8)] [((0, 4), 7 :: nat)] = [((0, 4), 7), ((2, 4), 8)]"
    by (simp add: merge_value_runs_def ranges_overlap_def clamp_left_def range_is_empty_def append_run_def)
  show "mesh_inv ?m" by (simp add: mesh_inv_def n)
  show "overlay_inv ?ov" by (simp add: overlay_inv_def runs_wf_def coalesced_def)
  show "merge_from_overlay ?m ?ov = Inr ?m'"
    by (simp add: merge_from_overlay_def n l g rle_from_value_runs_def push_value_run_def append_run_def as_u32_def)
  show "run_lookup (ov_runs ?ov) 2 = Some 7" by (simp add: in_run_def)
  show "vm_get ?m' 2 = Some 8"
    by (simp add: vm_get_def n binary_search_by_def bsearch_loop.simps run_cmp_def)
  show "overlay_reduce \<lparr>ov_runs = materialized_runs ?m\<rparr> ?ov = Inl (OverlappingRanges (0, 4) (2, 4))"
    by (simp add: overlay_reduce_def l g try_from_runs_def range_is_empty_def normalize_def normalize_loop.simps)
qed

text \<open>C29: Building from (rank, value) pairs: a pair out of range is an error; otherwise the build
  succeeds exactly when every rank occurs, the last value of each rank wins and no uninitialized
  slot is read, and it fails with the number of distinct ranks when one is missing.\<close>

theorem build_indexed_spec:
  "if \<forall>x \<in> set pairs. fst x < num_ranks region
   then build_indexed region pairs =
     (if fst ` set pairs = {..<num_ranks region}
      then Inr (Some (vm_new_unchecked region (map (\<lambda>r. the (map_of (rev pairs) r)) [0..<num_ranks region])))
      else Inl (InvalidRankCardinality (num_ranks region) (card (fst ` set pairs))))
   else \<exists>x \<in> set pairs. num_ranks region \<le> fst x \<and>
     build_indexed region pairs = Inl (InvalidRankCardinality (num_ranks region) (fst x + 1))"
proof (cases "\<forall>x \<in> set pairs. fst x < num_ranks region")
  case True
  then show ?thesis using build_indexed_props [OF True] by simp
next
  case False
  from index_pairs_err [OF False] obtain x where "x \<in> set pairs" "num_ranks region \<le> fst x"
    "index_pairs (num_ranks region) pairs (indexed_init (num_ranks region)) =
      Inl (InvalidRankCardinality (num_ranks region) (fst x + 1))" by blast
  then have "build_indexed region pairs = Inl (InvalidRankCardinality (num_ranks region) (fst x + 1))"
    by (simp add: build_indexed_def)
  with \<open>x \<in> set pairs\<close> \<open>num_ranks region \<le> fst x\<close> False show ?thesis by auto
qed

theorem build_indexed_spec_witness:
  "build_indexed (new_row_major [2]) [(1, 5 :: nat), (0, 3), (1, 6)] =
     Inr (Some (vm_new_unchecked (new_row_major [2]) [3, 6]))"
  using build_indexed_spec [of "[(1, 5 :: nat), (0, 3), (1, 6)]" "new_row_major [2]"]
  by (simp add: num_ranks_def slice_len_def new_row_major_def lessThan_Suc eval_nat_numeral insert_commute)

text \<open>C30: When a build from pairs fails, the drop guard drops exactly the slots written so far,
  each once and in ascending order: no initialized value leaks, none is dropped twice and no
  uninitialized slot is touched.\<close>

theorem drop_guard_exact:
  assumes "\<forall>x \<in> set pairs. fst x < n"
  shows "\<exists>st. index_pairs n pairs (indexed_init n) = Inr st \<and>
    drop_guard n (ix_bits st) = filter (\<lambda>r. r \<in> fst ` set pairs) [0..<n]"
proof -
  from index_pairs_ok [OF indexed_init_inv assms] obtain st where
    st: "index_pairs n pairs (indexed_init n) = Inr st" "indexed_inv n st"
    "\<forall>r < n. ix_buf st ! r = (case map_of (rev pairs) r of Some v \<Rightarrow> Some v | None \<Rightarrow> ix_buf (indexed_init n) ! r)"
    by blast
  have "ix_buf st ! r \<noteq> None \<longleftrightarrow> r \<in> fst ` set pairs" if "r < n" for r
    using st(3) that map_of_eq_None_iff [of "rev pairs" r]
    by (cases "map_of (rev pairs) r") (simp_all add: indexed_init_def)
  then have "filter (\<lambda>r. ix_buf st ! r \<noteq> None) [0..<n] = filter (\<lambda>r. r \<in> fst ` set pairs) [0..<n]"
    by (intro filter_cong refl) auto
  with st(1) drop_guard_slots [OF st(2)] show ?thesis by (intro exI conjI) simp_all
qed

theorem drop_guard_exact_witness:
  "\<exists>st. index_pairs 3 [(2, 5 :: nat), (0, 3), (2, 6)] (indexed_init 3) = Inr st \<and>
     drop_guard 3 (ix_bits st) = [0, 2]"
  using drop_guard_exact [of "[(2, 5 :: nat), (0, 3), (2, 6)]" 3] by (simp add: eval_nat_numeral)

end
