(* ===== verification/Mesh_Slicing.thy ===== *)
theory Mesh_Slicing
  imports Value_Mesh_Props
begin

text \<open>
  Slicing a run-length encoded mesh: \<open>slice_compressed\<close> walks the source runs and jumps over
  whole dimensions instead of visiting each selected rank. It agrees with looking every selected
  rank up in the source mesh.
\<close>

section \<open>Nested strides\<close>

text \<open>
  The address of a row-major ordinal, dimension by dimension, and the condition that addresses
  grow with ordinals: each stride exceeds the span of the dimensions after it.
\<close>

fun val :: "(nat \<times> nat) list \<Rightarrow> nat \<Rightarrow> nat" where
  "val [] k = 0"
| "val ((n, s) # ds) k =
     k div prod_list (map fst ds) * s + val ds (k mod prod_list (map fst ds))"

fun span :: "(nat \<times> nat) list \<Rightarrow> nat" where
  "span [] = 0"
| "span ((n, s) # ds) = (n - 1) * s + span ds"

fun nested :: "(nat \<times> nat) list \<Rightarrow> bool" where
  "nested [] \<longleftrightarrow> True"
| "nested ((n, s) # ds) \<longleftrightarrow> 0 < n \<and> span ds < s \<and> nested ds"

abbreviation extent_of :: "(nat \<times> nat) list \<Rightarrow> nat" where
  "extent_of ds \<equiv> prod_list (map fst ds)"

lemma extent_pos: "nested ds \<Longrightarrow> 0 < extent_of ds"
  by (induction ds rule: nested.induct) auto

lemma split_ordinal:
  assumes "k < n * (P :: nat)"
  shows "k div P < n" "k mod P < P" "k = k div P * P + k mod P"
proof -
  have P: "0 < P" using assms by (cases P) auto
  then show "k div P < n" "k mod P < P" using assms by (simp_all add: div_less_iff_less_mult)
qed simp

lemma val_span: "nested ds \<Longrightarrow> k < extent_of ds \<Longrightarrow> val ds k \<le> span ds"
proof (induction ds arbitrary: k rule: nested.induct)
  case (2 n s ds)
  note sp = split_ordinal [of k n "extent_of ds"]
  have "k div extent_of ds * s \<le> (n - 1) * s" using sp(1) "2.prems" by (intro mult_le_mono1) simp
  moreover have "val ds (k mod extent_of ds) \<le> span ds" using "2.IH" "2.prems" sp(2) by simp
  ultimately show ?case unfolding val.simps span.simps by (rule add_le_mono)
qed simp

lemma val_zero: "val ds 0 = 0"
  by (induction ds) auto

lemma val_unrank:
  "length ns = length ss \<Longrightarrow> k < prod_list ns \<Longrightarrow> dot (unrank ns k) ss = val (zip ns ss) k"
proof (induction ns ss arbitrary: k rule: list_induct2)
  case (Cons n ns s ss)
  have fst: "map fst (zip ns ss) = ns" using Cons.hyps by simp
  note sp = split_ordinal [of k n "prod_list ns"]
  have k: "k < n * prod_list ns" using Cons.prems by simp
  have "list_all2 (<) (k div prod_list ns # unrank ns (k mod prod_list ns)) (n # ns)"
    using sp(1,2) [OF k] unrank_in_range by simp
  moreover have "ordinal (n # ns) (k div prod_list ns # unrank ns (k mod prod_list ns)) = k"
  proof -
    have "dot (k div prod_list ns # unrank ns (k mod prod_list ns)) (row_major_strides (n # ns)) =
        k div prod_list ns * prod_list ns + ordinal ns (unrank ns (k mod prod_list ns))"
      by (simp add: row_major_strides_Cons dot_row_major [symmetric] dot_def)
    then show ?thesis
      using sp(2,3) [OF k] ordinal_unrank by (simp add: dot_row_major)
  qed
  ultimately have "unrank (n # ns) k = k div prod_list ns # unrank ns (k mod prod_list ns)"
    using unrank_ordinal by metis
  then have "dot (unrank (n # ns) k) (s # ss) =
      k div prod_list ns * s + dot (unrank ns (k mod prod_list ns)) ss"
    by (simp add: dot_def)
  then show ?case using Cons.IH sp(2) [OF k] fst by simp
qed (simp add: unrank_def dot_def)

section \<open>The two closures\<close>

lemma last_ordinal_loop_acc:
  "last_ordinal_loop ds dist st acc = acc + last_ordinal_loop ds dist st 0"
proof (induction ds arbitrary: dist st acc)
  case (Cons d ds)
  obtain n s where d: "d = (n, s)" by (cases d)
  let ?st = "st div n" and ?c = "min (dist div s) (n - 1)"
  show ?case
    using Cons [of "dist - ?c * s" ?st "acc + ?c * ?st"] Cons [of "dist - ?c * s" ?st "?c * ?st"]
    by (simp add: d Let_def)
qed simp

text \<open>The greedy walk finds the last ordinal whose address is not past the distance.\<close>

lemma last_ordinal_loop_greatest:
  assumes "nested ds"
  shows "last_ordinal_loop ds dist (extent_of ds) 0 < extent_of ds \<and>
    (\<forall>k < extent_of ds. val ds k \<le> dist \<longleftrightarrow> k \<le> last_ordinal_loop ds dist (extent_of ds) 0)"
  using assms
proof (induction ds arbitrary: dist rule: nested.induct)
  case (2 n s ds)
  define P where "P = extent_of ds"
  define c where "c = min (dist div s) (n - 1)"
  define g where "g = last_ordinal_loop ds (dist - c * s) P 0"
  have n: "0 < n" "span ds < s" "nested ds" "0 < P" using "2.prems" extent_pos by (auto simp: P_def)
  have loop: "last_ordinal_loop ((n, s) # ds) dist (n * P) 0 = c * P + g"
    using n(1) last_ordinal_loop_acc [of ds "dist - c * s" P "c * P"]
    by (simp add: Let_def c_def g_def)
  have IH: "g < P" "\<forall>b < P. val ds b \<le> dist - c * s \<longleftrightarrow> b \<le> g"
    using "2.IH" [OF n(3), of "dist - c * s"] by (auto simp: g_def P_def)
  have "c * s \<le> dist div s * s" by (intro mult_le_mono1) (simp add: c_def)
  then have "c * s \<le> dist" using div_times_less_eq_dividend [of dist s] by linarith
  moreover have "c < n" using n(1) by (simp add: c_def)
  ultimately have cd: "c < n" "c * s \<le> dist" by simp_all
  have "val ((n, s) # ds) k \<le> dist \<longleftrightarrow> k \<le> c * P + g" if k: "k < n * P" for k
  proof -
    note sp = split_ordinal [OF k]
    have v: "val ((n, s) # ds) k = k div P * s + val ds (k mod P)" by (simp add: P_def)
    have bs: "val ds (k mod P) \<le> span ds" using val_span [OF n(3)] sp(2) by (simp add: P_def)
    consider "k div P < c" | "k div P = c" | "c < k div P" by linarith
    then show ?thesis
    proof cases
      case 1
      then have "Suc (k div P) \<le> c" by simp
      then have "Suc (k div P) * s \<le> c * s" "Suc (k div P) * P \<le> c * P" by (rule mult_le_mono1)+
      then have "k div P * s + s \<le> c * s" "k div P * P + P \<le> c * P" by simp_all
      then show ?thesis using v bs n(2) cd(2) sp(2,3) by linarith
    next
      case 2
      have "val ((n, s) # ds) k \<le> dist \<longleftrightarrow> val ds (k mod P) \<le> dist - c * s" using v 2 cd(2) by auto
      also have "\<dots> \<longleftrightarrow> k mod P \<le> g" using IH(2) sp(2) by blast
      also have "\<dots> \<longleftrightarrow> c * P + k mod P \<le> c * P + g" by simp
      also have "c * P + k mod P = k" using sp(3) 2 by simp
      finally show ?thesis .
    next
      case 3
      then have "c = dist div s" using sp(1) by (auto simp: c_def min_def split: if_splits)
      then have "dist < Suc c * s" using n(2) by (simp add: dividend_less_div_times)
      moreover have "Suc c \<le> k div P" using 3 by simp
      then have "Suc c * s \<le> k div P * s" "Suc c * P \<le> k div P * P" by (rule mult_le_mono1)+
      moreover have "Suc c * P = c * P + P" by simp
      ultimately show ?thesis using v IH(1) sp(3) by linarith
    qed
  qed
  moreover have "c * P + g < n * P"
  proof -
    have "Suc c * P \<le> n * P" using cd(1) by (intro mult_le_mono1) simp
    then show ?thesis using IH(1) by simp
  qed
  ultimately show ?case using loop by (simp add: P_def [symmetric])
qed simp

lemma source_ordinal_loop_val:
  assumes "nested ds"
  shows "source_ordinal_loop (rev ds @ rest) k acc =
    source_ordinal_loop rest (k div extent_of ds) (acc + val ds (k mod extent_of ds))"
  using assms
proof (induction ds arbitrary: rest k acc rule: nested.induct)
  case (2 n s ds)
  have P: "0 < extent_of ds" using extent_pos "2.prems" by simp
  have "source_ordinal_loop (rev ((n, s) # ds) @ rest) k acc =
      source_ordinal_loop ((n, s) # rest) (k div extent_of ds) (acc + val ds (k mod extent_of ds))"
    using "2.IH" "2.prems" by simp
  also have "\<dots> = source_ordinal_loop rest (k div extent_of ds div n)
      (acc + val ds (k mod extent_of ds) + k div extent_of ds mod n * s)" by simp
  also have "k div extent_of ds div n = k div (n * extent_of ds)"
    by (simp add: div_mult2_eq [symmetric] mult.commute)
  also have "k div extent_of ds mod n = k mod (n * extent_of ds) div extent_of ds"
    using P by (simp add: mod_mult2_eq mult.commute [of n])
  also have "k mod extent_of ds = k mod (n * extent_of ds) mod extent_of ds"
    by (rule mod_mod_cancel [symmetric]) simp
  finally show ?case by (simp add: add.commute add.left_commute)
qed simp

section \<open>Slices in ordinal space\<close>

text \<open>A slice whose addresses are ordinals of a parent in ascending order.\<close>

definition ascending :: "slice \<Rightarrow> bool" where
  "ascending s \<longleftrightarrow> length (sizes s) = length (strides s) \<and> nested (zip (sizes s) (strides s))"

lemma ascending_extent: "ascending s \<Longrightarrow> extent_of (zip (sizes s) (strides s)) = slice_len s"
  by (simp add: ascending_def slice_len_def)

lemma nth_ranks_val:
  "ascending s \<Longrightarrow> k < slice_len s \<Longrightarrow> ranks s ! k = offset s + val (zip (sizes s) (strides s)) k"
  by (simp add: ascending_def nth_ranks val_unrank slice_len_def)

lemma source_ordinal_at_ranks:
  assumes "ascending s" "k < slice_len s"
  shows "source_ordinal_at s k = ranks s ! k"
  using source_ordinal_loop_val [of "zip (sizes s) (strides s)" "[]" k "offset s"]
    nth_ranks_val [OF assms] assms ascending_extent [OF assms(1)]
  by (simp add: ascending_def source_ordinal_at_def)

lemma last_slice_ordinal_ranks:
  assumes "ascending s" "offset s \<le> x"
  shows "last_slice_ordinal_at_or_before s x < slice_len s \<and>
    (\<forall>k < slice_len s. ranks s ! k \<le> x \<longleftrightarrow> k \<le> last_slice_ordinal_at_or_before s x)"
  using last_ordinal_loop_greatest [of "zip (sizes s) (strides s)" "x - offset s"] assms
    ascending_extent [OF assms(1)]
  by (auto simp: ascending_def last_slice_ordinal_at_or_before_def nth_ranks_val [OF assms(1)])

lemma relative_nested:
  assumes "length ns = length Ns" "length sts = length Ns" "\<forall>n \<in> set ns. 0 < n" "\<forall>N \<in> set Ns. 0 < N"
    and "\<forall>i < length Ns. \<exists>step. 0 < step \<and> sts ! i = row_major_strides Ns ! i * step \<and>
      (ns ! i - 1) * step < Ns ! i"
  shows "nested (zip ns sts) \<and> span (zip ns sts) < prod_list Ns"
  using assms
proof (induction Ns arbitrary: ns sts)
  case (Cons N Ns)
  obtain n ns' where ns: "ns = n # ns'" using Cons.prems(1) by (cases ns) auto
  obtain st sts' where sts: "sts = st # sts'" using Cons.prems(2) by (cases sts) auto
  have IH: "nested (zip ns' sts')" "span (zip ns' sts') < prod_list Ns"
  proof -
    have "\<exists>step. 0 < step \<and> sts' ! i = row_major_strides Ns ! i * step \<and> (ns' ! i - 1) * step < Ns ! i"
      if "i < length Ns" for i
      using Cons.prems(5) [rule_format, of "Suc i"] that by (simp add: ns sts row_major_strides_Cons)
    then show "nested (zip ns' sts')" "span (zip ns' sts') < prod_list Ns"
      using Cons.IH [of ns' sts'] Cons.prems(1-4) by (auto simp: ns sts)
  qed
  from Cons.prems(5) [rule_format, of 0] obtain step where
    step: "0 < step" "st = prod_list Ns * step" "(n - 1) * step < N"
    by (auto simp: ns sts row_major_strides_Cons)
  have "(n - 1) * st = (n - 1) * step * prod_list Ns" using step(2) by simp
  also have "\<dots> \<le> (N - 1) * prod_list Ns" using step(3) by (intro mult_le_mono1) simp
  finally have "(n - 1) * st + span (zip ns' sts') < (N - 1) * prod_list Ns + prod_list Ns"
    using IH(2) by linarith
  also have "\<dots> = N * prod_list Ns" using Cons.prems(4) by (cases N) auto
  finally have "span (zip ns sts) < prod_list (N # Ns)" by (simp add: ns sts)
  moreover have "prod_list Ns * 1 \<le> prod_list Ns * step" using step(1) by (intro mult_le_mono2) simp
  then have "span (zip ns' sts') < st" unfolding step(2) using IH(2) by linarith
  ultimately show ?case using IH(1) Cons.prems(3) by (simp add: ns sts)
qed simp

lemma relative_ascending:
  assumes rel: "relative_ordinal_slice s parent = Inr t" and inv: "slice_inv s" "slice_inv parent"
  shows "ascending t \<and> sizes t = sizes s"
proof -
  have lp: "length (sizes parent) = length (strides parent)" using inv(2) by (simp add: slice_inv_def)
  let ?rm = "row_major_strides (sizes parent)"
  obtain pc sts where n: "num_dim parent = num_dim s" "length sts = num_dim s"
    "\<forall>i < num_dim s. relative_stride s parent pc ?rm (i, sizes s ! i) = Inr (sts ! i)"
    "t = \<lparr>offset = ordinal (sizes parent) pc, sizes = sizes s, strides = sts\<rparr>"
    using relative_ordinal_slice_parts [OF rel lp] by blast
  have pos: "\<forall>n \<in> set (sizes s). 0 < n" "\<forall>n \<in> set (sizes parent). 0 < n" using inv by (auto simp: slice_inv_def)
  have "\<exists>step. 0 < step \<and> sts ! i = ?rm ! i * step \<and> (sizes s ! i - 1) * step < sizes parent ! i"
    if i: "i < length (sizes parent)" for i
  proof (cases "sizes s ! i = 1")
    case True
    then have "sts ! i = ?rm ! i" using n(1,3) i by (auto simp: num_dim_def relative_stride_def)
    then show ?thesis using True pos(2) i by (intro exI [of _ 1]) simp
  next
    case False
    have p: "0 < sizes s ! i" "0 < strides s ! i" using slice_inv_pos [OF inv(1)] i n(1) by (auto simp: num_dim_def)
    obtain step where "strides s ! i = strides parent ! i * step" "sts ! i = ?rm ! i * step"
      "pc ! i + (sizes s ! i - 1) * step < sizes parent ! i"
      using relative_stride_ok [OF n(3) [rule_format, of i] False p(1)] n(1) i by (auto simp: num_dim_def)
    then show ?thesis using p(2) by (intro exI [of _ step]) (auto intro: gr_zeroI)
  qed
  then have "nested (zip (sizes s) sts)"
    using relative_nested [of "sizes s" "sizes parent" sts] n(1,2) pos by (simp add: num_dim_def)
  then show ?thesis using n(2,4) by (simp add: ascending_def num_dim_def)
qed

section \<open>The main loop\<close>

lemma tiles_dropWhile:
  assumes "tiles lo hi rs" "lo \<le> x" "x < hi"
  shows "\<exists>a b v rest. dropWhile (\<lambda>run. snd (fst run) \<le> x) rs = ((a, b), v) # rest \<and>
    a \<le> x \<and> x < b \<and> tiles a hi (((a, b), v) # rest) \<and>
    (\<forall>y \<ge> a. run_lookup (((a, b), v) # rest) y = run_lookup rs y)"
  using assms
proof (induction lo hi rs rule: tiles.induct)
  case (2 lo hi a b v rs)
  show ?case
  proof (cases "x < b")
    case True
    with 2 show ?thesis by auto
  next
    case False
    with 2 obtain a' b' v' rest where r: "dropWhile (\<lambda>run. snd (fst run) \<le> x) rs = ((a', b'), v') # rest"
      "a' \<le> x" "x < b'" "tiles a' hi (((a', b'), v') # rest)"
      "\<forall>y \<ge> a'. run_lookup (((a', b'), v') # rest) y = run_lookup rs y" by auto
    have "((a', b'), v') \<in> set rs" using r(1) by (metis list.set_intros(1) set_dropWhileD)
    then have "b \<le> a'" using tiles_runs_wf [of b hi rs] "2.prems"(1) by auto
    then have "\<forall>y \<ge> a'. run_lookup (((a', b'), v') # rest) y = run_lookup (((a, b), v) # rs) y"
      using r(5) by (auto simp: in_run_def)
    with r(1-4) False show ?thesis by auto
  qed
qed simp

text \<open>The runs written so far: they tile the ordinals before the cursor and carry the ids of the
  source runs at the selected positions.\<close>

definition sliced_upto :: "slice \<Rightarrow> nat run list \<Rightarrow> nat run list \<Rightarrow> nat \<Rightarrow> bool" where
  "sliced_upto s rs out cursor \<longleftrightarrow> tiles 0 cursor out \<and>
     (\<forall>k < cursor. run_lookup out k = run_lookup rs (ranks s ! k))"

lemma tiles_append:
  "tiles lo mid xs \<Longrightarrow> tiles mid hi ys \<Longrightarrow> tiles lo hi (xs @ ys)"
  by (induction lo mid xs rule: tiles.induct) auto

lemma extend_run:
  assumes "sliced_upto s rs out cursor" "cursor < nxt"
    "\<forall>k. cursor \<le> k \<and> k < nxt \<longrightarrow> run_lookup rs (ranks s ! k) = Some j"
  shows "sliced_upto s rs (if out \<noteq> [] \<and> snd (last out) = j
      then butlast out @ [((fst (fst (last out)), nxt), j)] else out @ [((cursor, nxt), j)]) nxt"
proof -
  note up = assms(1) [unfolded sliced_upto_def]
  show ?thesis
  proof (cases "out \<noteq> [] \<and> snd (last out) = j")
    case True
    then obtain ys a b where out: "out = ys @ [((a, b), j)]"
      by (metis append_butlast_last_id prod.exhaust_sel)
    have t: "tiles 0 a ys" "a < b" "b = cursor" using up by (simp_all add: out tiles_snoc)
    have ys: "run_lookup ys k = None" if "a \<le> k" for k
      using tiles_runs_wf [OF t(1)] that by (intro run_lookup_None) (force simp: in_run_def)
    have "run_lookup (ys @ [((a, nxt), j)]) k = run_lookup rs (ranks s ! k)" if "k < nxt" for k
    proof (cases "k < cursor")
      case True
      then have "run_lookup rs (ranks s ! k) = run_lookup out k" using up by simp
      moreover have "run_lookup out k = run_lookup (ys @ [((a, nxt), j)]) k"
        using True that t assms(2) by (simp add: out run_lookup_append in_run_def split: option.splits)
      ultimately show ?thesis by simp
    next
      case False
      then show ?thesis using assms(3) that ys [of k] t by (simp add: run_lookup_append in_run_def)
    qed
    then show ?thesis using True t assms(2) by (simp add: sliced_upto_def out tiles_snoc)
  next
    case False
    have none: "run_lookup out k = None" if "cursor \<le> k" for k
      using tiles_runs_wf [of 0 cursor out] up that by (intro run_lookup_None) (force simp: in_run_def)
    have "run_lookup (out @ [((cursor, nxt), j)]) k = run_lookup rs (ranks s ! k)" if "k < nxt" for k
    proof (cases "k < cursor")
      case True
      then have "run_lookup out k = Some (expand_runs out ! k)"
        using expand_lookup [of 0 cursor out k] up by simp
      then show ?thesis using up True by (simp add: run_lookup_append)
    next
      case False
      then show ?thesis using assms(3) that none [of k] by (simp add: run_lookup_append in_run_def)
    qed
    moreover have "tiles 0 nxt (out @ [((cursor, nxt), j)])" using up assms(2) by (simp add: tiles_snoc)
    ultimately show ?thesis unfolding sliced_upto_def if_not_P [OF False] by blast
  qed
qed

lemma slice_loop_correct:
  assumes asc: "ascending s" and bound: "\<forall>k < slice_len s. ranks s ! k < n" and "sliced_upto s rs0 out cursor"
    and "cursor \<le> slice_len s" "tiles lo n rs" "\<forall>y \<ge> lo. run_lookup rs y = run_lookup rs0 y"
    and "cursor < slice_len s \<longrightarrow> source_cursor = ranks s ! cursor \<and> lo \<le> source_cursor"
  shows "\<exists>out'. slice_loop s rs out cursor source_cursor = Some out' \<and> sliced_upto s rs0 out' (slice_len s)"
  using assms(3-)
proof (induction "slice_len s - cursor" arbitrary: out cursor lo rs source_cursor rule: less_induct)
  case less
  show ?case
  proof (cases "cursor < slice_len s")
    case False
    then show ?thesis using less.prems by (subst slice_loop.simps) auto
  next
    case True
    then have sc: "source_cursor = ranks s ! cursor" "lo \<le> source_cursor" "source_cursor < n"
      using less.prems(5) bound by auto
    obtain a b j rest where d: "dropWhile (\<lambda>run. snd (fst run) \<le> source_cursor) rs = ((a, b), j) # rest"
      "a \<le> source_cursor" "source_cursor < b" "tiles a n (((a, b), j) # rest)"
      "\<forall>y \<ge> a. run_lookup (((a, b), j) # rest) y = run_lookup rs y"
      using tiles_dropWhile [OF less.prems(3) sc(2,3)] by blast
    have off: "offset s \<le> b - 1" using nth_ranks_val [OF asc True] sc(1) d(3) by simp
    define nxt where "nxt = last_slice_ordinal_at_or_before s (b - 1) + 1"
    note last = last_slice_ordinal_ranks [OF asc off]
    have nx: "cursor < nxt" "nxt \<le> slice_len s" "\<forall>k < slice_len s. ranks s ! k < b \<longleftrightarrow> k < nxt"
      using last True sc(1) d(3) by (auto simp: nxt_def less_Suc_eq_le)
    have mono: "ranks s ! cursor \<le> ranks s ! k" if "cursor \<le> k" "k < slice_len s" for k
    proof (rule ccontr)
      assume "\<not> ?thesis"
      moreover have "offset s \<le> ranks s ! k" using nth_ranks_val [OF asc that(2)] by simp
      ultimately show False
        using last_slice_ordinal_ranks [OF asc, of "ranks s ! k"] True that by fastforce
    qed
    have ids: "run_lookup rs0 (ranks s ! k) = Some j" if "cursor \<le> k" "k < nxt" for k
    proof -
      have k: "k < slice_len s" using that nx(2) by simp
      then have "a \<le> ranks s ! k" "ranks s ! k < b" using mono [OF that(1) k] nx(3) that d(2) sc(1) by auto
      moreover from this have "run_lookup rs (ranks s ! k) = Some j"
        using d(5) by (metis fst_conv in_run_def run_lookup.simps(2) snd_conv)
      moreover have "lo \<le> ranks s ! k" using mono [OF that(1) k] sc by simp
      ultimately show ?thesis using less.prems(4) by simp
    qed
    define out1 where "out1 = (if out \<noteq> [] \<and> snd (last out) = j
        then butlast out @ [((fst (fst (last out)), nxt), j)] else out @ [((cursor, nxt), j)])"
    define sc1 where "sc1 = (if nxt < slice_len s then source_ordinal_at s nxt else source_cursor)"
    have up: "sliced_upto s rs0 out1 nxt"
      unfolding out1_def by (rule extend_run [OF less.prems(1) nx(1)]) (use ids in blast)
    have "\<exists>out'. slice_loop s (((a, b), j) # rest) out1 nxt sc1 = Some out' \<and> sliced_upto s rs0 out' (slice_len s)"
    proof (rule less.hyps [OF _ up nx(2) d(4)])
      show "slice_len s - nxt < slice_len s - cursor" using nx by simp
      have "lo \<le> a" if "lo \<le> source_cursor"
      proof -
        have "((a, b), j) \<in> set rs" using d(1) by (metis list.set_intros(1) set_dropWhileD)
        then show ?thesis using tiles_runs_wf [OF less.prems(3)] by auto
      qed
      then show "\<forall>y \<ge> a. run_lookup (((a, b), j) # rest) y = run_lookup rs0 y"
        using d(5) less.prems(4) sc(2) by simp
      show "nxt < slice_len s \<longrightarrow> sc1 = ranks s ! nxt \<and> a \<le> sc1"
      proof
        assume n: "nxt < slice_len s"
        then have "sc1 = ranks s ! nxt" using source_ordinal_at_ranks [OF asc n] by (simp add: sc1_def)
        moreover have "b \<le> ranks s ! nxt" using nx(3) n by (metis less_irrefl not_less)
        ultimately show "sc1 = ranks s ! nxt \<and> a \<le> sc1" using d(2,3) by simp
      qed
    qed
    moreover have "slice_loop s rs out cursor source_cursor = slice_loop s (((a, b), j) # rest) out1 nxt sc1"
      using True d(1) nx(1) by (subst slice_loop.simps) (simp add: Let_def nxt_def out1_def sc1_def)
    ultimately show ?thesis by simp
  qed
qed

section \<open>Lookup by base rank\<close>

lemma get_by_base_rank_nth:
  assumes "mesh_inv m" "slice_inv (vm_region m)" "k < slice_len (vm_region m)"
  shows "get_by_base_rank m (ranks (vm_region m) ! k) = Some (mesh_values m ! k)"
proof -
  have len: "length (sizes (vm_region m)) = length (strides (vm_region m))"
    using assms(2) by (simp add: slice_inv_def)
  have c: "coordinates (vm_region m) (ranks (vm_region m) ! k) = Inr (unrank (sizes (vm_region m)) k)"
    by (rule coordinates_nth_ranks [OF assms(2,3)])
  then have "slice_index (vm_region m) (ranks (vm_region m) ! k) = Inr k"
    using slice_index_eq [OF len] ordinal_unrank assms(3) by (simp add: slice_len_def)
  then show ?thesis
    using c vm_get_values [OF assms(1), of k] assms(3)
    by (simp add: get_by_base_rank_def contains_def num_ranks_def)
qed

lemma get_by_base_rank_None:
  "v \<notin> set (ranks s) \<Longrightarrow> vm_region m = s \<Longrightarrow> length (sizes s) = length (strides s) \<Longrightarrow> get_by_base_rank m v = None"
  using coordinates_ranks [of s v]
  by (cases "coordinates s v") (auto simp: get_by_base_rank_def contains_def in_set_conv_nth)

lemma sliced_compressed:
  assumes "mesh_inv m" "vm_rep m = Compressed table rs" "slice_inv region" "slice_inv (vm_region m)"
    "relative_ordinal_slice region (vm_region m) = Inr t"
  shows "\<exists>m'. sliced m region = Some m' \<and> mesh_inv m' \<and> vm_region m' = region \<and>
    (\<forall>r \<in> set (ranks region). get_by_base_rank m' r = get_by_base_rank m r)"
proof -
  define n where "n = num_ranks (vm_region m)"
  have asc: "ascending t" "sizes t = sizes region" using relative_ascending [OF assms(5,3,4)] by auto
  then have len: "slice_len t = slice_len region" by (simp add: slice_len_def)
  have rel: "ranks t ! k < n \<and> ranks (vm_region m) ! (ranks t ! k) = ranks region ! k"
    if "k < slice_len region" for k
    using relative_ordinal_slice_ranks [OF assms(5,3,4) that] by (simp add: n_def num_ranks_def)
  have rs: "tiles 0 n rs" "\<forall>x \<in> set rs. snd x < length table"
    using mesh_invD [OF assms(1)] assms(2) by (auto simp: n_def)
  have pos: "0 < slice_len region"
    using extent_pos [of "zip (sizes t) (strides t)"] asc(1) ascending_extent [OF asc(1)] len
    by (simp add: ascending_def)
  have "\<exists>out. slice_loop t rs [] 0 (offset t) = Some out \<and> sliced_upto t rs out (slice_len t)"
  proof (rule slice_loop_correct [OF asc(1) _ _ _ rs(1)])
    show "0 < slice_len t \<longrightarrow> offset t = ranks t ! 0 \<and> 0 \<le> offset t"
      using nth_ranks_val [OF asc(1), of 0] val_zero by simp
  qed (use rel len in \<open>auto simp: sliced_upto_def\<close>)
  then obtain out where out: "slice_loop t rs [] 0 (offset t) = Some out" "sliced_upto t rs out (slice_len t)"
    by blast
  define m' where "m' = \<lparr>vm_region = region, vm_rep = Compressed table out\<rparr>"
  have s: "sliced m region = Some m'"
    using assms(2,5) out(1) pos by (simp add: sliced_def slice_compressed_def num_ranks_def m'_def)
  have tl: "tiles 0 (slice_len region) out" "\<forall>k < slice_len region. run_lookup out k = run_lookup rs (ranks t ! k)"
    using out(2) len by (auto simp: sliced_upto_def)
  have ids: "snd x < length table" if "x \<in> set out" for x
  proof -
    obtain a b j where x: "x = ((a, b), j)" by (metis prod.exhaust)
    have "runs_wf out" "b \<le> slice_len region" using tiles_runs_wf [OF tl(1)] that x by auto
    moreover have "a < b" using wf_nonempty [OF calculation(1) that] x by simp
    ultimately have wf: "runs_wf out" "a < slice_len region" "a < b" by simp_all
    have "run_lookup out a = Some j"
      using run_lookup_disjoint [OF runs_wf_disjoint [OF wf(1)], of a j] that x wf(3) by (force simp: in_run_def)
    then have "run_lookup rs (ranks t ! a) = Some j" using tl(2) wf(2) by simp
    then have "\<exists>y \<in> set rs. snd y = j" by (induction rs "ranks t ! a" rule: run_lookup.induct) (auto split: if_splits)
    then show ?thesis using rs(2) x by auto
  qed
  have inv: "mesh_inv m'" using tl(1) ids by (simp add: mesh_inv_def m'_def num_ranks_def)
  have "get_by_base_rank m' (ranks region ! k) = get_by_base_rank m (ranks region ! k)" if k: "k < slice_len region" for k
  proof -
    have "mesh_values m' ! k = mesh_values m ! (ranks t ! k)"
      using tl rel [OF k] k rs(1) expand_lookup [of 0 "slice_len region" "decode_runs table out" k]
        expand_lookup [of 0 n "decode_runs table rs" "ranks t ! k"]
      by (auto simp: tiles_decode decode_lookup mesh_values_def m'_def assms(2))
    then show ?thesis
      using get_by_base_rank_nth [OF inv] get_by_base_rank_nth [OF assms(1,4), of "ranks t ! k"] rel [OF k] k assms(3)
      by (simp add: m'_def n_def num_ranks_def)
  qed
  then have "\<forall>r \<in> set (ranks region). get_by_base_rank m' r = get_by_base_rank m r"
    by (auto simp: in_set_conv_nth)
  then show ?thesis using s inv by (auto simp: m'_def)
qed

section \<open>Properties\<close>



end
