(* ===== verification/Semilattice.thy ===== *)
theory Semilattice
  imports Prelude "HOL-Library.AList" "HOL-Library.Word"
begin

text \<open>
  Model of the \<open>algebra\<close> crate: the \<open>JoinSemilattice\<close> trait with its default methods
  (\<open>lib.rs\<close>), its instances (\<open>join_semilattice.rs\<close>) and the last-writer-wins register
  (\<open>crdt.rs\<close>). The laws of the trait are the locale \<open>join_semilattice\<close>; every instance of
  the crate is an interpretation. A \<open>HashMap\<close> is the list of its entries in iteration order
  with distinct keys, compared as \<open>PartialEq\<close> does, so the locale has the equality of the
  type as a parameter. The contract also has a validity predicate: a register keeps it as long
  as one stamp is written with one value.
\<close>

section \<open>Trait methods\<close>

definition leq :: "('a \<Rightarrow> 'a \<Rightarrow> bool) \<Rightarrow> ('a \<Rightarrow> 'a \<Rightarrow> 'a) \<Rightarrow> 'a \<Rightarrow> 'a \<Rightarrow> bool" where
  "leq eq join x y = eq (join x y) y"

definition join_all :: "('a \<Rightarrow> 'a \<Rightarrow> 'a) \<Rightarrow> 'a list \<Rightarrow> 'a option" where
  "join_all join xs = (case xs of [] \<Rightarrow> None | x # rest \<Rightarrow> Some (foldl join x rest))"

definition join_all_from_bottom :: "'a \<Rightarrow> ('a \<Rightarrow> 'a \<Rightarrow> 'a) \<Rightarrow> 'a list \<Rightarrow> 'a" where
  "join_all_from_bottom bottom join xs = foldl join bottom xs"

section \<open>Instances\<close>

datatype 'a maxv = MaxV (max_inner: 'a)

definition max_join :: "'a :: linorder maxv \<Rightarrow> 'a maxv \<Rightarrow> 'a maxv" where
  "max_join x y = (if max_inner y \<le> max_inner x then x else y)"

definition max_bottom :: "'a :: {linorder, order_bot} maxv" where
  "max_bottom = MaxV bot"

datatype 'a minv = MinV (min_inner: 'a)

definition min_join :: "'a :: linorder minv \<Rightarrow> 'a minv \<Rightarrow> 'a minv" where
  "min_join x y = (if min_inner x \<le> min_inner y then x else y)"

definition min_bottom :: "'a :: {linorder, order_top} minv" where
  "min_bottom = MinV top"

datatype anyv = AnyV bool

fun any_join :: "anyv \<Rightarrow> anyv \<Rightarrow> anyv" where
  "any_join (AnyV a) (AnyV b) = AnyV (a \<or> b)"

definition any_bottom :: anyv where
  "any_bottom = AnyV False"

datatype allv = AllV bool

fun all_join :: "allv \<Rightarrow> allv \<Rightarrow> allv" where
  "all_join (AllV a) (AllV b) = AllV (a \<and> b)"

definition all_bottom :: allv where
  "all_bottom = AllV True"

definition hashset_join :: "'a set \<Rightarrow> 'a set \<Rightarrow> 'a set" where
  "hashset_join a b = a \<union> b"

definition btreeset_join :: "'a set \<Rightarrow> 'a set \<Rightarrow> 'a set" where
  "btreeset_join a b = a \<union> b"

fun option_join :: "('a \<Rightarrow> 'a \<Rightarrow> 'a) \<Rightarrow> 'a option \<Rightarrow> 'a option \<Rightarrow> 'a option" where
  "option_join join None x = x"
| "option_join join x None = x"
| "option_join join (Some a) (Some b) = Some (join a b)"

definition unit_join :: "unit \<Rightarrow> unit \<Rightarrow> unit" where
  "unit_join x y = ()"

subsection \<open>Lattice maps\<close>

type_synonym ('k, 'v) lattice_map = "('k \<times> 'v) list"

definition lm_new :: "('k, 'v) lattice_map" where
  "lm_new = []"

definition lm_insert :: "'k \<Rightarrow> 'v \<Rightarrow> ('k, 'v) lattice_map \<Rightarrow> ('k, 'v) lattice_map" where
  "lm_insert k v m = AList.update k v m"

definition lm_get :: "('k, 'v) lattice_map \<Rightarrow> 'k \<Rightarrow> 'v option" where
  "lm_get m k = map_of m k"

definition lm_len :: "('k, 'v) lattice_map \<Rightarrow> nat" where
  "lm_len m = length m"

text \<open>\<open>HashMap::eq\<close>: equal sizes, and every entry of one is found in the other.\<close>

definition lm_eq :: "('v \<Rightarrow> 'v \<Rightarrow> bool) \<Rightarrow> ('k, 'v) lattice_map \<Rightarrow> ('k, 'v) lattice_map \<Rightarrow> bool" where
  "lm_eq eq m1 m2 = (length m1 = length m2 \<and>
     list_all (\<lambda>(k, v). case map_of m2 k of Some w \<Rightarrow> eq v w | None \<Rightarrow> False) m1)"

definition lm_step :: "('v \<Rightarrow> 'v \<Rightarrow> 'v) \<Rightarrow> ('k, 'v) lattice_map \<Rightarrow> 'k \<times> 'v \<Rightarrow> ('k, 'v) lattice_map" where
  "lm_step join out kv =
     (case kv of (k, v_other) \<Rightarrow>
        case map_of out k of
          Some v_here \<Rightarrow> AList.update k (join v_here v_other) out
        | None \<Rightarrow> AList.update k v_other out)"

definition lm_join :: "('v \<Rightarrow> 'v \<Rightarrow> 'v) \<Rightarrow> ('k, 'v) lattice_map \<Rightarrow> ('k, 'v) lattice_map
    \<Rightarrow> ('k, 'v) lattice_map" where
  "lm_join join m1 m2 = foldl (lm_step join) m1 m2"

subsection \<open>The last-writer-wins register\<close>

record 'a lww =
  lww_value :: 'a
  lww_ts :: "64 word"
  lww_replica :: "64 word"

definition lww_new :: "'a \<Rightarrow> 64 word \<Rightarrow> 64 word \<Rightarrow> 'a lww" where
  "lww_new v t r = \<lparr>lww_value = v, lww_ts = t, lww_replica = r\<rparr>"

definition lww_join :: "'a lww \<Rightarrow> 'a lww \<Rightarrow> 'a lww" where
  "lww_join x y =
     (if lww_ts y < lww_ts x then x
      else if lww_ts x < lww_ts y then y
      else if lww_replica y < lww_replica x then x
      else if lww_replica x < lww_replica y then y
      else x)"

definition lww_bottom :: "'a \<Rightarrow> 'a lww" where
  "lww_bottom dflt = \<lparr>lww_value = dflt, lww_ts = 0, lww_replica = 0\<rparr>"

section \<open>The contract of the trait\<close>

locale join_semilattice =
  fixes ok :: "'a \<Rightarrow> bool" and eq :: "'a \<Rightarrow> 'a \<Rightarrow> bool" and join :: "'a \<Rightarrow> 'a \<Rightarrow> 'a"
  assumes eq_refl: "ok x \<Longrightarrow> eq x x"
    and eq_sym: "ok x \<Longrightarrow> ok y \<Longrightarrow> eq x y \<Longrightarrow> eq y x"
    and eq_trans: "ok x \<Longrightarrow> ok y \<Longrightarrow> ok z \<Longrightarrow> eq x y \<Longrightarrow> eq y z \<Longrightarrow> eq x z"
    and join_wf: "ok x \<Longrightarrow> ok y \<Longrightarrow> ok (join x y)"
    and join_cong: "ok x \<Longrightarrow> ok x' \<Longrightarrow> ok y \<Longrightarrow> ok y' \<Longrightarrow> eq x x' \<Longrightarrow> eq y y' \<Longrightarrow> eq (join x y) (join x' y')"
    and assoc: "ok x \<Longrightarrow> ok y \<Longrightarrow> ok z \<Longrightarrow> eq (join (join x y) z) (join x (join y z))"
    and comm: "ok x \<Longrightarrow> ok y \<Longrightarrow> eq (join x y) (join y x)"
    and idem: "ok x \<Longrightarrow> eq (join x x) x"
begin

lemma trans_step:
  "eq x y \<Longrightarrow> eq y z \<Longrightarrow> ok x \<Longrightarrow> ok y \<Longrightarrow> ok z \<Longrightarrow> eq x z"
  by (rule eq_trans)

lemma upper_left: "ok x \<Longrightarrow> ok y \<Longrightarrow> leq eq join x (join x y)"
proof -
  assume w: "ok x" "ok y"
  have "eq (join x (join x y)) (join (join x x) y)" by (rule eq_sym) (intro assoc join_wf w)+
  moreover have "eq (join (join x x) y) (join x y)" by (intro join_cong join_wf w idem eq_refl)
  ultimately show ?thesis unfolding leq_def by (rule trans_step) (intro join_wf w)+
qed

lemma upper_right: "ok x \<Longrightarrow> ok y \<Longrightarrow> leq eq join y (join x y)"
proof -
  assume w: "ok x" "ok y"
  have "eq (join y (join x y)) (join y (join y x))" by (intro join_cong join_wf w comm eq_refl)
  moreover have "eq (join y (join y x)) (join y x)" using upper_left [of y x] w by (simp add: leq_def)
  ultimately have "eq (join y (join x y)) (join y x)" by (rule trans_step) (intro join_wf w)+
  moreover have "eq (join y x) (join x y)" by (intro comm w)
  ultimately show ?thesis unfolding leq_def by (rule trans_step) (intro join_wf w)+
qed

lemma least: "ok x \<Longrightarrow> ok y \<Longrightarrow> ok z \<Longrightarrow> leq eq join x z \<Longrightarrow> leq eq join y z \<Longrightarrow> leq eq join (join x y) z"
proof -
  assume w: "ok x" "ok y" "ok z" and l: "leq eq join x z" "leq eq join y z"
  have "eq (join (join x y) z) (join x (join y z))" by (intro assoc w)
  moreover have "eq (join x (join y z)) (join x z)"
    using l(2) unfolding leq_def by (intro join_cong join_wf w eq_refl)
  ultimately have "eq (join (join x y) z) (join x z)" by (rule trans_step) (intro join_wf w)+
  then show ?thesis using l(1) unfolding leq_def by (rule trans_step) (intro join_wf w)+
qed

lemma leq_trans: "ok x \<Longrightarrow> ok y \<Longrightarrow> ok z \<Longrightarrow> leq eq join x y \<Longrightarrow> leq eq join y z \<Longrightarrow> leq eq join x z"
proof -
  assume w: "ok x" "ok y" "ok z" and l: "leq eq join x y" "leq eq join y z"
  have "eq z (join y z)" using l(2) unfolding leq_def by (rule eq_sym [rotated 2]) (intro join_wf w)+
  then have "eq (join x z) (join x (join y z))" by (intro join_cong join_wf w eq_refl)
  moreover have "eq (join x (join y z)) (join (join x y) z)" by (rule eq_sym) (intro assoc join_wf w)+
  ultimately have "eq (join x z) (join (join x y) z)" by (rule trans_step) (intro join_wf w)+
  moreover have "eq (join (join x y) z) (join y z)"
    using l(1) unfolding leq_def by (intro join_cong join_wf w eq_refl)
  ultimately have "eq (join x z) (join y z)" by (rule trans_step) (intro join_wf w)+
  then show ?thesis using l(2) unfolding leq_def by (rule trans_step) (intro join_wf w)+
qed

lemma leq_antisym: "ok x \<Longrightarrow> ok y \<Longrightarrow> leq eq join x y \<Longrightarrow> leq eq join y x \<Longrightarrow> eq x y"
proof -
  assume w: "ok x" "ok y" and l: "leq eq join x y" "leq eq join y x"
  have "eq x (join y x)" using l(2) unfolding leq_def by (rule eq_sym [rotated 2]) (intro join_wf w)+
  moreover have "eq (join y x) (join x y)" by (intro comm w)
  ultimately have "eq x (join x y)" by (rule trans_step) (intro join_wf w)+
  then show ?thesis using l(1) unfolding leq_def by (rule trans_step) (intro join_wf w)+
qed

lemma leq_refl: "ok x \<Longrightarrow> leq eq join x x"
  unfolding leq_def by (rule idem)

lemma foldl_wf: "ok s \<Longrightarrow> \<forall>x \<in> set xs. ok x \<Longrightarrow> ok (foldl join s xs)"
  by (induction xs arbitrary: s) (auto intro: join_wf)

text \<open>Folding \<open>join\<close> gives the least upper bound of the start and the updates.\<close>

lemma foldl_upper:
  "ok s \<Longrightarrow> \<forall>x \<in> set xs. ok x \<Longrightarrow> y \<in> insert s (set xs) \<Longrightarrow> leq eq join y (foldl join s xs)"
proof (induction xs arbitrary: s y)
  case (Cons x xs)
  have w: "ok (join s x)" "\<forall>x \<in> set xs. ok x" "ok x" using Cons.prems by (auto intro: join_wf)
  have up: "z \<in> insert (join s x) (set xs) \<Longrightarrow> leq eq join z (foldl join (join s x) xs)" for z
    by (rule Cons.IH [OF w(1,2)])
  have end_wf: "ok (foldl join (join s x) xs)" using foldl_wf [OF w(1,2)] .
  have "leq eq join s (foldl join (join s x) xs)"
    using leq_trans [OF _ w(1) end_wf upper_left] up Cons.prems w by blast
  moreover have "leq eq join x (foldl join (join s x) xs)"
    using leq_trans [OF w(3) w(1) end_wf upper_right] up Cons.prems w by blast
  ultimately show ?case using Cons.prems(3) up by auto
qed (auto intro: leq_refl)

lemma foldl_least:
  "ok s \<Longrightarrow> \<forall>x \<in> set xs. ok x \<Longrightarrow> ok z \<Longrightarrow> \<forall>y \<in> insert s (set xs). leq eq join y z \<Longrightarrow>
     leq eq join (foldl join s xs) z"
  by (induction xs arbitrary: s) (auto intro: least join_wf)

text \<open>Order and multiplicity of the updates do not matter.\<close>

lemma convergence:
  assumes "ok s" "\<forall>x \<in> set xs. ok x" "set xs = set ys"
  shows "eq (foldl join s xs) (foldl join s ys)"
proof (rule leq_antisym)
  have ys: "\<forall>x \<in> set ys. ok x" using assms by simp
  show w: "ok (foldl join s xs)" "ok (foldl join s ys)"
    using foldl_wf [OF assms(1,2)] foldl_wf [OF assms(1) ys] by auto
  show "leq eq join (foldl join s xs) (foldl join s ys)"
    using foldl_least [OF assms(1,2) w(2)] foldl_upper [OF assms(1) ys] assms(3) by simp
  show "leq eq join (foldl join s ys) (foldl join s xs)"
    using foldl_least [OF assms(1) ys w(1)] foldl_upper [OF assms(1,2)] assms(3) by simp
qed

text \<open>Reducing a batch first and joining the result is the same as joining every update.\<close>

lemma foldl_batch:
  assumes "ok s" "ok u" "\<forall>x \<in> set us. ok x"
  shows "eq (join s (foldl join u us)) (foldl join s (u # us))"
  using assms
proof (induction us arbitrary: s u)
  case Nil
  then show ?case by (auto intro: eq_refl join_wf)
next
  case (Cons v us)
  then have w: "ok v" "\<forall>x \<in> set us. ok x" by auto
  have "eq (join s (foldl join (join u v) us)) (foldl join s (join u v # us))"
    using Cons.IH [of s "join u v"] Cons.prems w by (simp add: join_wf)
  moreover have "eq (foldl join (join s (join u v)) us) (foldl join (join (join s u) v) us)"
    using Cons.prems w
  proof (induction us rule: rev_induct)
    case Nil
    then show ?case by (auto intro: eq_sym assoc join_wf)
  next
    case (snoc y us)
    then show ?case by (auto intro!: join_cong foldl_wf join_wf eq_refl)
  qed
  ultimately show ?case using Cons.prems w by (auto intro: trans_step foldl_wf join_wf)
qed

end

section \<open>The instances satisfy the contract\<close>

interpretation max_lattice: join_semilattice "\<lambda>_. True" "(=)" max_join
  by unfold_locales (auto simp: max_join_def maxv.expand)

interpretation min_lattice: join_semilattice "\<lambda>_. True" "(=)" min_join
  by unfold_locales (auto simp: min_join_def minv.expand)

interpretation any_lattice: join_semilattice "\<lambda>_. True" "(=)" any_join
proof unfold_locales
  fix x y z :: anyv
  show "any_join (any_join x y) z = any_join x (any_join y z)" by (cases x; cases y; cases z) simp
  show "any_join x y = any_join y x" by (cases x; cases y) auto
  show "any_join x x = x" by (cases x) simp
qed simp_all

interpretation all_lattice: join_semilattice "\<lambda>_. True" "(=)" all_join
proof unfold_locales
  fix x y z :: allv
  show "all_join (all_join x y) z = all_join x (all_join y z)" by (cases x; cases y; cases z) simp
  show "all_join x y = all_join y x" by (cases x; cases y) auto
  show "all_join x x = x" by (cases x) simp
qed simp_all

interpretation hashset_lattice: join_semilattice "\<lambda>_. True" "(=)" hashset_join
  by unfold_locales (auto simp: hashset_join_def)

interpretation btreeset_lattice: join_semilattice "\<lambda>_. True" "(=)" btreeset_join
  by unfold_locales (auto simp: btreeset_join_def)

interpretation unit_lattice: join_semilattice "\<lambda>_. True" "(=)" unit_join
  by unfold_locales (auto simp: unit_join_def)

text \<open>Registers whose values come from one history of writes: a stamp determines the value.\<close>

definition lww_from :: "(64 word \<Rightarrow> 64 word \<Rightarrow> 'a) \<Rightarrow> 'a lww \<Rightarrow> bool" where
  "lww_from history x \<longleftrightarrow> lww_value x = history (lww_ts x) (lww_replica x)"

text \<open>The register with the larger stamp wins; the stamps are ordered lexicographically.\<close>

definition lww_stamp :: "'a lww \<Rightarrow> 64 word \<times> 64 word" where
  "lww_stamp x = (lww_ts x, lww_replica x)"

lemma lww_join_stamp: "lww_join x y = (if lww_stamp x < lww_stamp y then y else x)"
  by (auto simp: lww_join_def lww_stamp_def less_prod_def dest: less_not_sym)

lemma lww_from_eq: "lww_from h x \<Longrightarrow> lww_from h y \<Longrightarrow> lww_stamp x = lww_stamp y \<Longrightarrow> x = y"
  by (simp add: lww_from_def lww_stamp_def)

interpretation lww_lattice: join_semilattice "lww_from history" "(=)" lww_join for history
proof unfold_locales
  fix x y z :: "'a lww"
  assume w: "lww_from history x" "lww_from history y"
  show "lww_from history (lww_join x y)" using w by (simp add: lww_join_stamp)
  show "lww_join x y = lww_join y x"
    using lww_from_eq [OF w] by (cases "lww_stamp x" "lww_stamp y" rule: linorder_cases) (auto simp: lww_join_stamp)
  show "lww_join (lww_join x y) z = lww_join x (lww_join y z)"
    by (simp add: lww_join_stamp)
  show "lww_join x x = x" by (simp add: lww_join_stamp)
qed simp_all

text \<open>An optional value, with \<open>None\<close> below everything.\<close>

context join_semilattice
begin

lemma option_join_valid: "pred_option ok x \<Longrightarrow> pred_option ok y \<Longrightarrow> pred_option ok (option_join join x y)"
  by (cases x; cases y) (simp_all add: join_wf)

lemma option_sym: "pred_option ok x \<Longrightarrow> pred_option ok y \<Longrightarrow> rel_option eq x y \<Longrightarrow> rel_option eq y x"
  by (cases x; cases y) (simp_all add: eq_sym)

lemma option_trans:
  "pred_option ok x \<Longrightarrow> pred_option ok y \<Longrightarrow> pred_option ok z \<Longrightarrow>
     rel_option eq x y \<Longrightarrow> rel_option eq y z \<Longrightarrow> rel_option eq x z"
  by (cases x; cases y; cases z; simp) (rule eq_trans)

lemma option_cong:
  "pred_option ok x \<Longrightarrow> pred_option ok x' \<Longrightarrow> pred_option ok y \<Longrightarrow> pred_option ok y' \<Longrightarrow>
     rel_option eq x x' \<Longrightarrow> rel_option eq y y' \<Longrightarrow> rel_option eq (option_join join x y) (option_join join x' y')"
  by (cases x; cases y; cases x'; cases y'; simp) (rule join_cong)

lemma option_refl: "pred_option ok x \<Longrightarrow> rel_option eq x x"
  by (cases x) (simp_all add: eq_refl)

lemma option_assoc:
  "pred_option ok x \<Longrightarrow> pred_option ok y \<Longrightarrow> pred_option ok z \<Longrightarrow>
     rel_option eq (option_join join (option_join join x y) z) (option_join join x (option_join join y z))"
  by (cases x; cases y; cases z) (simp_all add: assoc eq_refl join_wf)

lemma option_comm:
  "pred_option ok x \<Longrightarrow> pred_option ok y \<Longrightarrow> rel_option eq (option_join join x y) (option_join join y x)"
  by (cases x; cases y) (simp_all add: comm eq_refl)

lemma option_idem: "pred_option ok x \<Longrightarrow> rel_option eq (option_join join x x) x"
  by (cases x) (simp_all add: idem)

lemma option_semilattice: "join_semilattice (pred_option ok) (rel_option eq) (option_join join)"
  by unfold_locales (fact option_refl option_sym option_trans option_join_valid option_cong
      option_assoc option_comm option_idem)+

end

subsection \<open>Maps join pointwise\<close>

definition lm_wf :: "('v \<Rightarrow> bool) \<Rightarrow> ('k, 'v) lattice_map \<Rightarrow> bool" where
  "lm_wf ok m \<longleftrightarrow> distinct (map fst m) \<and> (\<forall>v \<in> snd ` set m. ok v)"

lemma lm_step_props:
  assumes "distinct (map fst out)"
  shows "distinct (map fst (lm_step join out (k, v)))"
    and "map_of (lm_step join out (k, v)) = (map_of out)(k := option_join join (map_of out k) (Some v))"
  using assms by (auto simp: lm_step_def distinct_update update_conv' split: option.splits)

lemma lm_join_lookup:
  assumes "distinct (map fst m1)" "distinct (map fst m2)"
  shows "distinct (map fst (lm_join join m1 m2)) \<and>
    map_of (lm_join join m1 m2) k = option_join join (map_of m1 k) (map_of m2 k)"
  using assms unfolding lm_join_def
proof (induction m2 arbitrary: m1)
  case Nil
  then show ?case by (cases "map_of m1 k") auto
next
  case (Cons x m2)
  obtain k' v where x: "x = (k', v)" by (cases x)
  note s = lm_step_props [OF Cons.prems(1), of join k' v]
  have "map_of m2 k' = None" using Cons.prems(2) by (auto simp: x map_of_eq_None_iff)
  then have "option_join join (option_join join (map_of m1 k') (Some v)) (map_of m2 k') =
      option_join join (map_of m1 k') (Some v)"
    by (cases "map_of m1 k'") auto
  with Cons.IH [OF s(1)] Cons.prems(2) s(2) \<open>map_of m2 k' = None\<close> show ?case by (auto simp: x)
qed

lemma lm_wf_lookup: "lm_wf ok m \<Longrightarrow> pred_option ok (map_of m k)"
  by (cases "map_of m k") (auto simp: lm_wf_def dest!: map_of_SomeD)

lemma lm_wf_iff: "lm_wf ok m \<longleftrightarrow> distinct (map fst m) \<and> (\<forall>k. pred_option ok (map_of m k))"
proof
  assume r: "distinct (map fst m) \<and> (\<forall>k. pred_option ok (map_of m k))"
  have "ok v" if "(k, v) \<in> set m" for k v
    using r that by (metis map_of_is_SomeI option.pred_inject(2))
  with r show "lm_wf ok m" by (auto simp: lm_wf_def)
qed (auto simp: lm_wf_def intro: lm_wf_lookup [unfolded lm_wf_def])

lemma length_dom: "distinct (map fst m) \<Longrightarrow> length m = card (dom (map_of m))"
  by (metis dom_map_of_conv_image_fst distinct_card length_map list.set_map)

lemma lm_eq_iff:
  assumes "lm_wf ok m1" "lm_wf ok m2"
  shows "lm_eq eq m1 m2 \<longleftrightarrow> (\<forall>k. rel_option eq (map_of m1 k) (map_of m2 k))"
proof -
  have d: "distinct (map fst m1)" "distinct (map fst m2)" using assms by (auto simp: lm_wf_def)
  note len = length_dom [OF d(1)] length_dom [OF d(2)]
  let ?all = "\<forall>(k, v) \<in> set m1. \<exists>w. map_of m2 k = Some w \<and> eq v w"
  have "lm_eq eq m1 m2 \<longleftrightarrow> length m1 = length m2 \<and> ?all"
    by (auto simp: lm_eq_def list_all_iff split: option.splits)
  also have "\<dots> \<longleftrightarrow> (\<forall>k. rel_option eq (map_of m1 k) (map_of m2 k))"
  proof
    assume a: "length m1 = length m2 \<and> ?all"
    have hit: "\<exists>w. map_of m2 k = Some w \<and> eq v w" if "map_of m1 k = Some v" for k v
      using a map_of_SomeD [OF that] by blast
    have "dom (map_of m1) \<subseteq> dom (map_of m2)" using hit by blast
    then have "dom (map_of m1) = dom (map_of m2)"
      by (rule card_subset_eq [OF finite_dom_map_of]) (use a len in simp)
    then have dom: "map_of m1 k = None \<longleftrightarrow> map_of m2 k = None" for k by (metis domIff)
    show "\<forall>k. rel_option eq (map_of m1 k) (map_of m2 k)"
    proof
      fix k
      show "rel_option eq (map_of m1 k) (map_of m2 k)"
      proof (cases "map_of m1 k")
        case None
        then show ?thesis using dom [of k] by simp
      next
        case (Some v)
        from hit [OF Some] Some show ?thesis by (elim exE conjE) simp
      qed
    qed
  next
    assume r: "\<forall>k. rel_option eq (map_of m1 k) (map_of m2 k)"
    have "map_of m1 k = None \<longleftrightarrow> map_of m2 k = None" for k
      using r [rule_format, of k] by (cases "map_of m1 k"; cases "map_of m2 k") simp_all
    then have "dom (map_of m1) = dom (map_of m2)" by (simp add: dom_def)
    then have "length m1 = length m2" using len by simp
    moreover have ?all
    proof clarify
      fix k v assume "(k, v) \<in> set m1"
      then have "map_of m1 k = Some v" using d(1) by simp
      then show "\<exists>w. map_of m2 k = Some w \<and> eq v w"
        using r [rule_format, of k] by (simp add: option_rel_Some1)
    qed
    ultimately show "length m1 = length m2 \<and> ?all" ..
  qed
  finally show ?thesis .
qed

context join_semilattice
begin

lemma map_join_lookup:
  "lm_wf ok m1 \<Longrightarrow> lm_wf ok m2 \<Longrightarrow>
     map_of (lm_join join m1 m2) k = option_join join (map_of m1 k) (map_of m2 k)"
  using lm_join_lookup [of m1 m2 join k] by (simp add: lm_wf_def)

lemma map_join_valid: "lm_wf ok m1 \<Longrightarrow> lm_wf ok m2 \<Longrightarrow> lm_wf ok (lm_join join m1 m2)"
  using lm_join_lookup [of m1 m2 join] unfolding lm_wf_iff by (simp add: option_join_valid)

lemmas map_facts = map_join_lookup map_join_valid lm_wf_lookup lm_eq_iff [where ok = ok]

lemma lattice_map_semilattice: "join_semilattice (lm_wf ok) (lm_eq eq) (lm_join join)"
proof (unfold_locales, goal_cases)
  case (3 x y z)
  then have "rel_option eq (map_of x k) (map_of z k)" for k
    using option_trans [of "map_of x k" "map_of y k" "map_of z k"] by (simp add: map_facts)
  then show ?case using 3 by (simp add: map_facts)
qed (simp_all add: map_facts option_refl option_sym option_cong option_assoc option_comm option_idem)

end

end
