(* ===== verification/Accum.thy ===== *)
theory Accum
  imports Semilattice
begin

text \<open>
  Model of \<open>hyperactor/src/accum.rs\<close>: accumulators with their reducers, the reduction of a
  batch of updates by a split port, and the counters and watermarks built on lattice maps.
  Serialization (\<open>wirevalue\<close> over serde) is a pair of parameters \<open>de\<close> and \<open>ser\<close>. Machine
  integers are 64-bit words and wrap, as in a release build; a debug build panics where a sum
  overflows.
\<close>

section \<open>Reducing a batch\<close>

datatype 'e reduce_error = EmptyUpdates | ReduceFailed 'e

fun try_fold :: "('b \<Rightarrow> 'a \<Rightarrow> ('e, 'b) result) \<Rightarrow> 'b \<Rightarrow> 'a list \<Rightarrow> ('e, 'b) result" where
  "try_fold f acc [] = Inr acc"
| "try_fold f acc (x # xs) = bind_result (f acc x) (\<lambda>acc1. try_fold f acc1 xs)"

definition reduce_erased :: "('w \<Rightarrow> ('e, 'u) result) \<Rightarrow> ('u \<Rightarrow> ('e, 'w) result)
    \<Rightarrow> ('u \<Rightarrow> 'u \<Rightarrow> ('e, 'u) result) \<Rightarrow> 'w \<Rightarrow> 'w \<Rightarrow> ('e, 'w) result" where
  "reduce_erased de ser reduce left right =
     bind_result (de left) (\<lambda>l. bind_result (de right) (\<lambda>r. bind_result (reduce l r) ser))"

text \<open>An error returns the updates with it.\<close>

definition reduce_updates :: "('w \<Rightarrow> 'w \<Rightarrow> ('e, 'w) result) \<Rightarrow> 'w list
    \<Rightarrow> ('e reduce_error \<times> 'w list, 'w) result" where
  "reduce_updates re updates =
     (case updates of
        [] \<Rightarrow> Inl (EmptyUpdates, updates)
      | [u] \<Rightarrow> Inr u
      | first # second # rest \<Rightarrow>
          (case re first second of
             Inl e \<Rightarrow> Inl (ReduceFailed e, updates)
           | Inr init \<Rightarrow>
               (case try_fold re init rest of
                  Inl e \<Rightarrow> Inl (ReduceFailed e, updates)
                | Inr reduced \<Rightarrow> Inr reduced)))"

lemma try_fold_append: "try_fold f acc (xs @ ys) = bind_result (try_fold f acc xs) (\<lambda>a. try_fold f a ys)"
proof (induction xs arbitrary: acc)
  case (Cons x xs)
  then show ?case by (cases "f acc x") simp_all
qed simp

section \<open>Accumulators\<close>

definition sum_reduce :: "64 word \<Rightarrow> 64 word \<Rightarrow> ('e, 64 word) result" where
  "sum_reduce left right = Inr (left + right)"

definition sum_accumulate :: "64 word \<Rightarrow> 64 word \<Rightarrow> ('e, 64 word) result" where
  "sum_accumulate state update = Inr (state + update)"

definition unit_reduce :: "unit \<Rightarrow> unit \<Rightarrow> ('e, unit) result" where
  "unit_reduce left right = Inr ()"

definition unit_accumulate :: "unit \<Rightarrow> unit \<Rightarrow> ('e, unit) result" where
  "unit_accumulate state update = Inr ()"

definition semilattice_reduce :: "('a \<Rightarrow> 'a \<Rightarrow> 'a) \<Rightarrow> 'a \<Rightarrow> 'a \<Rightarrow> ('e, 'a) result" where
  "semilattice_reduce join left right = Inr (join left right)"

definition semilattice_accumulate :: "('a \<Rightarrow> 'a \<Rightarrow> 'a) \<Rightarrow> 'a \<Rightarrow> 'a \<Rightarrow> ('e, 'a) result" where
  "semilattice_accumulate join state update = Inr (join state update)"

section \<open>Watermarks\<close>

type_synonym 't watermark = "(nat, 't lww) lattice_map"

text \<open>\<open>rank as u64\<close> is the identity on a 64-bit machine; \<open>of_nat\<close> wraps.\<close>

definition watermark_from :: "nat \<Rightarrow> 't \<Rightarrow> 64 word \<Rightarrow> 't watermark" where
  "watermark_from rank v timestamp = lm_insert rank (lww_new v timestamp (of_nat rank)) lm_new"

definition watermark_join :: "'t watermark \<Rightarrow> 't watermark \<Rightarrow> 't watermark" where
  "watermark_join = lm_join lww_join"

text \<open>\<open>None\<close> is the panic on an update that was never initialized.\<close>

definition watermark_get :: "'t :: linorder watermark \<Rightarrow> 't option" where
  "watermark_get m =
     (case map (\<lambda>(_, l). lww_value l) m of [] \<Rightarrow> None | v # vs \<Rightarrow> Some (foldl min v vs))"

definition watermark_get_rank :: "'t watermark \<Rightarrow> nat \<Rightarrow> 't option" where
  "watermark_get_rank m rank = map_option lww_value (lm_get m rank)"

definition watermark_num_ranks :: "'t watermark \<Rightarrow> nat" where
  "watermark_num_ranks m = lm_len m"

section \<open>Counters\<close>

type_synonym gcounter = "(nat, 64 word maxv) lattice_map"

definition entries_sum :: "gcounter \<Rightarrow> 64 word" where
  "entries_sum m = sum_list (map (\<lambda>(_, x). max_inner x) m)"

definition gcounter_get :: "gcounter \<Rightarrow> 64 word" where
  "gcounter_get m = entries_sum m"

definition gcounter_get_rank :: "gcounter \<Rightarrow> nat \<Rightarrow> 64 word option" where
  "gcounter_get_rank m rank = map_option max_inner (lm_get m rank)"

definition gcounter_from :: "nat \<Rightarrow> 64 word \<Rightarrow> gcounter" where
  "gcounter_from rank n = lm_insert rank (MaxV n) lm_new"

definition gcounter_join :: "gcounter \<Rightarrow> gcounter \<Rightarrow> gcounter" where
  "gcounter_join = lm_join max_join"

record pncounter =
  pn_p :: gcounter
  pn_n :: gcounter

text \<open>\<open>p as i64 - n as i64\<close>: the bits are kept, so the difference is the one of the words,
  read as signed.\<close>

definition pncounter_get :: "pncounter \<Rightarrow> int" where
  "pncounter_get c = sint (entries_sum (pn_p c) - entries_sum (pn_n c))"

definition pncounter_inc :: "nat \<Rightarrow> 64 word \<Rightarrow> pncounter" where
  "pncounter_inc rank delta = \<lparr>pn_p = lm_insert rank (MaxV delta) lm_new, pn_n = lm_new\<rparr>"

definition pncounter_dec :: "nat \<Rightarrow> 64 word \<Rightarrow> pncounter" where
  "pncounter_dec rank delta = \<lparr>pn_p = lm_new, pn_n = lm_insert rank (MaxV delta) lm_new\<rparr>"

definition pncounter_join :: "pncounter \<Rightarrow> pncounter \<Rightarrow> pncounter" where
  "pncounter_join x y = \<lparr>pn_p = lm_join max_join (pn_p x) (pn_p y), pn_n = lm_join max_join (pn_n x) (pn_n y)\<rparr>"

section \<open>The contract between an accumulator and its reducer\<close>

text \<open>
  A split port reduces updates before it passes them on, so accumulating a reduced update must
  be as good as accumulating both. \<open>seq\<close> is the equality of states.
\<close>

locale accumulator =
  fixes st_ok :: "'s \<Rightarrow> bool" and up_ok :: "'u \<Rightarrow> bool" and seq :: "'s \<Rightarrow> 's \<Rightarrow> bool"
    and accumulate :: "'s \<Rightarrow> 'u \<Rightarrow> ('e, 's) result" and reduce :: "'u \<Rightarrow> 'u \<Rightarrow> ('e, 'u) result"
  assumes st_refl: "st_ok s \<Longrightarrow> seq s s"
    and st_trans: "st_ok s \<Longrightarrow> st_ok t \<Longrightarrow> st_ok u \<Longrightarrow> seq s t \<Longrightarrow> seq t u \<Longrightarrow> seq s u"
    and acc_total: "st_ok s \<Longrightarrow> up_ok x \<Longrightarrow> \<exists>t. accumulate s x = Inr t \<and> st_ok t"
    and red_total: "up_ok x \<Longrightarrow> up_ok y \<Longrightarrow> \<exists>z. reduce x y = Inr z \<and> up_ok z"
    and acc_cong: "st_ok s \<Longrightarrow> st_ok t \<Longrightarrow> up_ok x \<Longrightarrow> seq s t \<Longrightarrow> accumulate s x = Inr s' \<Longrightarrow>
      accumulate t x = Inr t' \<Longrightarrow> seq s' t'"
    and acc_reduce: "st_ok s \<Longrightarrow> up_ok x \<Longrightarrow> up_ok y \<Longrightarrow> reduce x y = Inr z \<Longrightarrow>
      accumulate s z = Inr s1 \<Longrightarrow> try_fold accumulate s [x, y] = Inr s2 \<Longrightarrow> seq s1 s2"
begin

lemma fold_total:
  "st_ok s \<Longrightarrow> \<forall>x \<in> set xs. up_ok x \<Longrightarrow> \<exists>t. try_fold accumulate s xs = Inr t \<and> st_ok t"
proof (induction xs arbitrary: s)
  case (Cons x xs)
  obtain t where "accumulate s x = Inr t" "st_ok t" using acc_total [of s x] Cons.prems by auto
  with Cons.IH [of t] Cons.prems show ?case by auto
qed simp

lemma reduce_fold_total:
  "up_ok u \<Longrightarrow> \<forall>x \<in> set xs. up_ok x \<Longrightarrow> \<exists>z. try_fold reduce u xs = Inr z \<and> up_ok z"
proof (induction xs arbitrary: u)
  case (Cons x xs)
  obtain z where "reduce u x = Inr z" "up_ok z" using red_total [of u x] Cons.prems by auto
  with Cons.IH [of z] Cons.prems show ?case by auto
qed simp

lemma fold_cong:
  "st_ok s \<Longrightarrow> st_ok t \<Longrightarrow> \<forall>x \<in> set xs. up_ok x \<Longrightarrow> seq s t \<Longrightarrow> try_fold accumulate s xs = Inr s' \<Longrightarrow>
     try_fold accumulate t xs = Inr t' \<Longrightarrow> seq s' t'"
proof (induction xs arbitrary: s t)
  case (Cons x xs)
  obtain s1 t1 where 1: "accumulate s x = Inr s1" "st_ok s1" "accumulate t x = Inr t1" "st_ok t1"
    using acc_total [of s x] acc_total [of t x] Cons.prems by auto
  have "seq s1 t1" using acc_cong [OF Cons.prems(1,2) _ Cons.prems(4) 1(1,3)] Cons.prems(3) by simp
  with Cons.IH [OF 1(2,4)] Cons.prems 1 show ?case by simp
qed simp

text \<open>One reduced batch counts as all of its updates.\<close>

lemma batch:
  assumes "st_ok s" "up_ok u" "\<forall>x \<in> set us. up_ok x" "try_fold reduce u us = Inr z"
    "accumulate s z = Inr s1" "try_fold accumulate s (u # us) = Inr s2"
  shows "seq s1 s2"
  using assms
proof (induction us arbitrary: u s2)
  case Nil
  then show ?case using acc_total [of s u] by (auto intro: st_refl)
next
  case (Cons v us)
  have ok: "up_ok v" "\<forall>x \<in> set us. up_ok x" using Cons.prems(3) by auto
  obtain w where w: "reduce u v = Inr w" "up_ok w" using red_total [OF Cons.prems(2) ok(1)] by auto
  obtain sw where sw: "accumulate s w = Inr sw" "st_ok sw" using acc_total [OF Cons.prems(1) w(2)] by auto
  obtain s3 where s3: "try_fold accumulate sw us = Inr s3" "st_ok s3" using fold_total [OF sw(2) ok(2)] by auto
  obtain suv where suv: "try_fold accumulate s [u, v] = Inr suv" "st_ok suv"
    using fold_total [OF Cons.prems(1), of "[u, v]"] Cons.prems(2) ok(1) by auto
  have "try_fold reduce w us = Inr z" using Cons.prems(4) w(1) by simp
  from Cons.IH [OF Cons.prems(1) w(2) ok(2) this Cons.prems(5)] sw s3 have 1: "seq s1 s3" by simp
  have "seq sw suv" using acc_reduce [OF Cons.prems(1,2) ok(1) w(1) sw(1) suv(1)] .
  moreover have "try_fold accumulate suv us = Inr s2" using Cons.prems(6) suv(1) by auto
  ultimately have 2: "seq s3 s2" using fold_cong [OF sw(2) suv(2) ok(2) _ s3(1)] by blast
  have "st_ok s1" using Cons.prems(1,5) reduce_fold_total [OF Cons.prems(2,3)] acc_total Cons.prems(4) by force
  moreover have "st_ok s2" using fold_total [of s "u # v # us"] Cons.prems ok by auto
  ultimately show ?case using 1 2 s3(2) by (blast intro: st_trans)
qed

lemma acc_ok: "st_ok s \<Longrightarrow> up_ok x \<Longrightarrow> accumulate s x = Inr t \<Longrightarrow> st_ok t"
  using acc_total [of s x] by auto

lemma fold_ok: "st_ok s \<Longrightarrow> \<forall>x \<in> set xs. up_ok x \<Longrightarrow> try_fold accumulate s xs = Inr t \<Longrightarrow> st_ok t"
  using fold_total [of s xs] by auto

lemma reduce_fold_ok:
  "up_ok u \<Longrightarrow> \<forall>x \<in> set xs. up_ok x \<Longrightarrow> try_fold reduce u xs = Inr z \<Longrightarrow> up_ok z"
  using reduce_fold_total [of u xs] by auto

text \<open>Reduced batches, one after the other.\<close>

definition reduces_to :: "'u list \<Rightarrow> 'u \<Rightarrow> bool" where
  "reduces_to b z \<longleftrightarrow> b \<noteq> [] \<and> (\<forall>x \<in> set b. up_ok x) \<and> try_fold reduce (hd b) (tl b) = Inr z"

lemma reduces_to_ok: "reduces_to b z \<Longrightarrow> up_ok z"
  unfolding reduces_to_def by (cases b) (auto intro: reduce_fold_ok)

lemma reduces_to_elem: "reduces_to b z \<Longrightarrow> x \<in> set b \<Longrightarrow> up_ok x"
  by (simp add: reduces_to_def)

lemma batches_ok:
  "list_all2 reduces_to bs zs \<Longrightarrow> (\<forall>z \<in> set zs. up_ok z) \<and> (\<forall>x \<in> set (concat bs). up_ok x)"
  by (induction rule: list_all2_induct) (auto dest: reduces_to_ok reduces_to_elem)

lemma batches:
  assumes "st_ok s" "list_all2 reduces_to bs zs"
    "try_fold accumulate s zs = Inr s1" "try_fold accumulate s (concat bs) = Inr s2"
  shows "seq s1 s2"
  using assms
proof (induction bs arbitrary: zs s s1 s2)
  case Nil
  then show ?case by (simp add: st_refl)
next
  case (Cons b bs)
  from Cons.prems(2) obtain z zs' where z: "zs = z # zs'" "reduces_to b z" "list_all2 reduces_to bs zs'"
    by (auto simp: list_all2_Cons1)
  note ok = batches_ok [OF z(3)]
  obtain u us where b: "b = u # us" "up_ok u" "\<forall>x \<in> set us. up_ok x" "try_fold reduce u us = Inr z"
    using z(2) unfolding reduces_to_def by (cases b) auto
  obtain t where t: "accumulate s z = Inr t" "try_fold accumulate t zs' = Inr s1"
    using Cons.prems(3) z(1) by auto
  obtain t' where t': "try_fold accumulate s (u # us) = Inr t'" "try_fold accumulate t' (concat bs) = Inr s2"
    using Cons.prems(4) b(1) by (auto simp: try_fold_append)
  have tok: "st_ok t" using acc_ok [OF Cons.prems(1) reduces_to_ok [OF z(2)] t(1)] .
  have tok': "st_ok t'" using fold_ok [OF Cons.prems(1) _ t'(1)] b(2,3) by simp
  obtain s3 where s3: "try_fold accumulate t (concat bs) = Inr s3" "st_ok s3"
    using fold_total [OF tok, of "concat bs"] ok by blast
  have "seq t t'" using batch [OF Cons.prems(1) b(2,3,4) t(1) t'(1)] .
  then have "seq s3 s2" using fold_cong [OF tok tok' _ _ s3(1) t'(2)] ok by blast
  moreover have "seq s1 s3" using Cons.IH [OF tok z(3) t(2) s3(1)] .
  moreover have "st_ok s2" "st_ok s1" using fold_ok [OF tok' _ t'(2)] fold_ok [OF tok _ t(2)] ok by blast+
  ultimately show ?case using s3(2) by (blast intro: st_trans)
qed

end

section \<open>Reduction of serialized updates\<close>

lemma reduce_erased_fold:
  assumes ser: "\<forall>x. up_ok x \<longrightarrow> (\<exists>w. ser x = Inr w \<and> de w = Inr x)"
    and red: "\<forall>x y. up_ok x \<longrightarrow> up_ok y \<longrightarrow> (\<exists>z. reduce x y = Inr z \<and> up_ok z)"
    and "de u = Inr x" "up_ok x" "list_all2 (\<lambda>w y. de w = Inr y \<and> up_ok y) ws ys"
  shows "\<exists>w z. try_fold (reduce_erased de ser reduce) u ws = Inr w \<and> de w = Inr z \<and>
    try_fold reduce x ys = Inr z \<and> up_ok z"
  using assms(3-)
proof (induction ws arbitrary: u x ys)
  case Nil
  then show ?case by auto
next
  case (Cons v ws)
  then obtain y ys' where y: "ys = y # ys'" "de v = Inr y" "up_ok y"
    "list_all2 (\<lambda>w y. de w = Inr y \<and> up_ok y) ws ys'" by (auto simp: list_all2_Cons1)
  obtain z where z: "reduce x y = Inr z" "up_ok z" using red Cons.prems(2) y(3) by blast
  obtain w where w: "ser z = Inr w" "de w = Inr z" using ser z(2) by blast
  have "reduce_erased de ser reduce u v = Inr w"
    using Cons.prems(1) y(2) z(1) w(1) by (simp add: reduce_erased_def)
  with Cons.IH [OF w(2) z(2) y(4)] y(1) z(1) show ?case by simp
qed

lemma reduce_updates_fold:
  "reduce_updates re (u # us) =
     (case try_fold re u us of Inl e \<Rightarrow> Inl (ReduceFailed e, u # us) | Inr w \<Rightarrow> Inr w)"
  by (cases us) (auto simp: reduce_updates_def split: sum.splits)

lemma collect_de:
  assumes "\<forall>w \<in> set ws. \<exists>x. de w = Inr x \<and> up_ok x"
  shows "\<exists>xs. collect_result de ws = Inr xs \<and> list_all2 (\<lambda>w y. de w = Inr y \<and> up_ok y) ws xs"
proof -
  have "\<exists>xs. list_all2 (\<lambda>w y. de w = Inr y \<and> up_ok y) ws xs"
    using assms by (induction ws) (auto simp: list_all2_Cons1)
  then show ?thesis unfolding collect_result_Inr by (blast intro: list_all2_mono)
qed

end
