(* ===== verification/Accum_Props.thy ===== *)
theory Accum_Props
  imports Accum
begin

text \<open>
  The accumulators satisfy the contract that makes reduction in split ports transparent, and
  the counters and watermarks have the value their documentation gives, whatever the order and
  multiplicity of the updates.
\<close>

section \<open>Instances of the contracts\<close>

context join_semilattice
begin

lemma semilattice_accumulator:
  "accumulator ok ok eq (semilattice_accumulate join) (semilattice_reduce join)"
proof (unfold_locales, goal_cases)
  case (6 s x y z s1 s2)
  then show ?case
    using eq_sym [OF _ _ assoc, of s x y]
    by (auto simp: semilattice_accumulate_def semilattice_reduce_def join_wf)
qed (auto simp: semilattice_accumulate_def semilattice_reduce_def
    intro: eq_refl eq_trans join_wf join_cong)

end

interpretation gcounter_lattice: join_semilattice "lm_wf (\<lambda>_. True)" "lm_eq (=)" gcounter_join
  unfolding gcounter_join_def by (rule max_lattice.lattice_map_semilattice)

interpretation watermark_lattice:
  join_semilattice "lm_wf (lww_from history)" "lm_eq (=)" watermark_join for history
  unfolding watermark_join_def by (rule lww_lattice.lattice_map_semilattice)

definition pn_wf :: "pncounter \<Rightarrow> bool" where
  "pn_wf c \<longleftrightarrow> lm_wf (\<lambda>_. True) (pn_p c) \<and> lm_wf (\<lambda>_. True) (pn_n c)"

definition pn_eq :: "pncounter \<Rightarrow> pncounter \<Rightarrow> bool" where
  "pn_eq c d \<longleftrightarrow> lm_eq (=) (pn_p c) (pn_p d) \<and> lm_eq (=) (pn_n c) (pn_n d)"

interpretation pncounter_lattice: join_semilattice pn_wf pn_eq pncounter_join
proof unfold_locales
  note gl = gcounter_lattice.join_semilattice_axioms [unfolded gcounter_join_def]
  note defs = pn_wf_def pn_eq_def pncounter_join_def
  fix x x' y y' z :: pncounter
  show "pn_wf x \<Longrightarrow> pn_eq x x" by (simp add: defs gcounter_lattice.eq_refl)
  show "pn_wf x \<Longrightarrow> pn_wf y \<Longrightarrow> pn_eq x y \<Longrightarrow> pn_eq y x" by (simp add: defs gcounter_lattice.eq_sym)
  show "pn_wf x \<Longrightarrow> pn_wf y \<Longrightarrow> pn_wf z \<Longrightarrow> pn_eq x y \<Longrightarrow> pn_eq y z \<Longrightarrow> pn_eq x z"
    unfolding defs by (blast intro: gcounter_lattice.eq_trans)
  show "pn_wf x \<Longrightarrow> pn_wf y \<Longrightarrow> pn_wf (pncounter_join x y)"
    by (simp add: defs join_semilattice.join_wf [OF gl])
  show "pn_wf x \<Longrightarrow> pn_wf x' \<Longrightarrow> pn_wf y \<Longrightarrow> pn_wf y' \<Longrightarrow> pn_eq x x' \<Longrightarrow> pn_eq y y' \<Longrightarrow>
      pn_eq (pncounter_join x y) (pncounter_join x' y')"
    by (simp add: defs join_semilattice.join_cong [OF gl])
  show "pn_wf x \<Longrightarrow> pn_wf y \<Longrightarrow> pn_wf z \<Longrightarrow>
      pn_eq (pncounter_join (pncounter_join x y) z) (pncounter_join x (pncounter_join y z))"
    by (simp add: defs join_semilattice.assoc [OF gl])
  show "pn_wf x \<Longrightarrow> pn_wf y \<Longrightarrow> pn_eq (pncounter_join x y) (pncounter_join y x)"
    by (simp add: defs join_semilattice.comm [OF gl])
  show "pn_wf x \<Longrightarrow> pn_eq (pncounter_join x x) x"
    by (simp add: defs join_semilattice.idem [OF gl])
qed

interpretation sum_accumulator:
  accumulator "\<lambda>_. True" "\<lambda>_. True" "(=)" sum_accumulate sum_reduce
  by unfold_locales (auto simp: sum_accumulate_def sum_reduce_def ac_simps)

interpretation unit_accumulator:
  accumulator "\<lambda>_. True" "\<lambda>_. True" "(=)" unit_accumulate unit_reduce
  by unfold_locales (auto simp: unit_accumulate_def unit_reduce_def)

interpretation gcounter_accumulator: accumulator "lm_wf (\<lambda>_. True)" "lm_wf (\<lambda>_. True)" "lm_eq (=)"
    "semilattice_accumulate gcounter_join" "semilattice_reduce gcounter_join"
  by (rule gcounter_lattice.semilattice_accumulator)

interpretation pncounter_accumulator: accumulator pn_wf pn_wf pn_eq
    "semilattice_accumulate pncounter_join" "semilattice_reduce pncounter_join"
  by (rule pncounter_lattice.semilattice_accumulator)

interpretation watermark_accumulator:
  accumulator "lm_wf (lww_from history)" "lm_wf (lww_from history)" "lm_eq (=)"
    "semilattice_accumulate watermark_join" "semilattice_reduce watermark_join" for history
  by (rule watermark_lattice.semilattice_accumulator)

section \<open>Values of joined maps\<close>

text \<open>The value of a key after joining a list of one-entry updates.\<close>

lemma lm_join_single:
  "distinct (map fst m) \<Longrightarrow> distinct (map fst (lm_join join m (lm_insert r v lm_new))) \<and>
    map_of (lm_join join m (lm_insert r v lm_new)) k =
      (if k = r then option_join join (map_of m k) (Some v) else map_of m k)"
  using lm_join_lookup [of m "lm_insert r v lm_new" join k]
  by (cases "map_of m k") (auto simp: lm_insert_def lm_new_def)

text \<open>Folding such updates keeps at each key the fold of the values sent for it.\<close>

lemma fold_updates_lookup:
  assumes "distinct (map fst m)"
  shows "distinct (map fst (foldl (\<lambda>s (r, v). lm_join join s (lm_insert r v lm_new)) m us)) \<and>
    map_of (foldl (\<lambda>s (r, v). lm_join join s (lm_insert r v lm_new)) m us) k =
      foldl (option_join join) (map_of m k) (map (Some \<circ> snd) (filter (\<lambda>u. fst u = k) us))"
  using assms
proof (induction us arbitrary: m)
  case (Cons u us)
  obtain r v where u: "u = (r, v)" by (cases u)
  note s = lm_join_single [OF Cons.prems, of join r v]
  have "map_of (lm_join join m (lm_insert r v lm_new)) k =
      foldl (option_join join) (map_of m k) (map (Some \<circ> snd) (filter (\<lambda>u. fst u = k) [u]))"
    using s by (simp add: u)
  then show ?case using Cons.IH [of "lm_join join m (lm_insert r v lm_new)"] s by (simp add: u)
qed simp

lemma fold_option_join:
  "foldl (option_join join) (Some a) (map Some vs) = Some (foldl join a vs)"
  by (induction vs arbitrary: a) simp_all

lemma fold_option_join_None:
  "foldl (option_join join) None (map Some vs) = join_all join vs"
  by (cases vs) (simp_all add: join_all_def fold_option_join)

lemma max_fold: "max_inner (foldl max_join x vs) = foldl max (max_inner x) (map max_inner vs)"
  by (induction vs arbitrary: x) (auto simp: max_join_def max_def)

lemma foldl_max_Max: "foldl max x vs = Max (insert x (set vs))"
  for x :: "'a :: linorder"
proof (induction vs arbitrary: x)
  case (Cons v vs)
  have "Max (insert x (insert v (set vs))) = max x (Max (insert v (set vs)))" by simp
  also have "\<dots> = Max (insert (max x v) (set vs))"
    by (cases "vs = []") (simp_all add: max.assoc)
  finally show ?case using Cons by simp
qed simp

lemma gcounter_lookup:
  "map_of (foldl gcounter_join lm_new (map (\<lambda>(r, c). gcounter_from r c) us)) k =
     (if k \<in> fst ` set us then Some (MaxV (Max {c. (k, c) \<in> set us})) else None)"
proof -
  let ?cs = "map MaxV (map snd (filter (\<lambda>u. fst u = k) us))"
  have "foldl gcounter_join lm_new (map (\<lambda>(r, c). gcounter_from r c) us) =
      foldl (\<lambda>s (r, v). lm_join max_join s (lm_insert r v lm_new)) lm_new (map (\<lambda>(r, c). (r, MaxV c)) us)"
    unfolding foldl_map by (intro foldl_cong) (auto simp: gcounter_join_def gcounter_from_def)
  moreover have "map (Some \<circ> snd) (filter (\<lambda>u. fst u = k) (map (\<lambda>(r, c). (r, MaxV c)) us)) = map Some ?cs"
    by (induction us) auto
  ultimately have lk: "map_of (foldl gcounter_join lm_new (map (\<lambda>(r, c). gcounter_from r c) us)) k =
      join_all max_join ?cs"
    using fold_updates_lookup [of lm_new max_join "map (\<lambda>(r, c). (r, MaxV c)) us" k]
    by (simp add: lm_new_def fold_option_join_None del: map_map)
  have set: "set (map snd (filter (\<lambda>u. fst u = k) us)) = {c. (k, c) \<in> set us}"
    by (force simp: image_iff)
  show ?thesis
  proof (cases "map snd (filter (\<lambda>u. fst u = k) us)")
    case Nil
    then have "k \<notin> fst ` set us" by (auto simp: filter_empty_conv)
    then show ?thesis using lk Nil by (simp add: join_all_def del: map_map)
  next
    case (Cons c cs)
    then have "(k, c) \<in> set us" using set by auto
    then have k: "k \<in> fst ` set us" by force
    have "max_inner (foldl max_join (MaxV c) (map MaxV cs)) = Max {c. (k, c) \<in> set us}"
      unfolding max_fold by (simp add: foldl_max_Max o_def set [symmetric] Cons)
    then have "foldl max_join (MaxV c) (map MaxV cs) = MaxV (Max {c. (k, c) \<in> set us})"
      by (metis maxv.collapse)
    then show ?thesis unfolding lk using k Cons by (simp add: join_all_def del: map_map)
  qed
qed

lemma gcounter_distinct:
  "distinct (map fst (foldl gcounter_join lm_new (map (\<lambda>(r, c). gcounter_from r c) us)))"
  using gcounter_lattice.foldl_wf [of lm_new "map (\<lambda>(r, c). gcounter_from r c) us"]
  by (auto simp: lm_wf_def lm_new_def gcounter_from_def lm_insert_def split: prod.splits)

text \<open>The sum over the entries is the sum over the keys, whatever the iteration order.\<close>

lemma entries_sum_dom:
  assumes "distinct (map fst m)"
  shows "entries_sum m = (\<Sum>k \<in> fst ` set m. max_inner (the (map_of m k)))"
proof -
  have "entries_sum m = (\<Sum>(k, x) \<in> set m. max_inner x)"
    unfolding entries_sum_def using assms
    by (subst sum_list_distinct_conv_sum_set) (auto simp: distinct_map case_prod_beta)
  also have "\<dots> = (\<Sum>k \<in> fst ` set m. max_inner (the (map_of m k)))"
    using assms by (subst sum.reindex) (auto simp: distinct_map intro!: sum.cong)
  finally show ?thesis .
qed

lemma gcounter_sum:
  "entries_sum (foldl gcounter_join lm_new (map (\<lambda>(r, c). gcounter_from r c) us)) =
     (\<Sum>r \<in> fst ` set us. Max {c. (r, c) \<in> set us})"
proof -
  let ?m = "foldl gcounter_join lm_new (map (\<lambda>(r, c). gcounter_from r c) us)"
  have "k \<in> fst ` set ?m \<longleftrightarrow> k \<in> fst ` set us" for k
    using gcounter_lookup [of us k] map_of_eq_None_iff [of ?m k] by (metis option.distinct(1))
  then have "fst ` set ?m = fst ` set us" by blast
  then show ?thesis
    unfolding entries_sum_dom [OF gcounter_distinct] by (intro sum.cong) (auto simp: gcounter_lookup)
qed

lemma unat_sum: "unat (sum f A :: 64 word) = (\<Sum>x \<in> A. unat (f x)) mod 2 ^ 64"
proof (induction A rule: infinite_finite_induct)
  case (insert x A)
  then show ?case by (simp add: unat_word_ariths mod_add_right_eq)
qed simp_all

section \<open>Increment and decrement counters\<close>

datatype pn_op = Inc nat "64 word" | Dec nat "64 word"

fun pn_update :: "pn_op \<Rightarrow> pncounter" where
  "pn_update (Inc r d) = pncounter_inc r d"
| "pn_update (Dec r d) = pncounter_dec r d"

definition incs :: "pn_op list \<Rightarrow> (nat \<times> 64 word) list" where
  "incs ops = List.map_filter (\<lambda>op. case op of Inc r d \<Rightarrow> Some (r, d) | Dec _ _ \<Rightarrow> None) ops"

definition decs :: "pn_op list \<Rightarrow> (nat \<times> 64 word) list" where
  "decs ops = List.map_filter (\<lambda>op. case op of Dec r d \<Rightarrow> Some (r, d) | Inc _ _ \<Rightarrow> None) ops"

lemma pn_fold:
  "foldl pncounter_join c (map pn_update ops) =
     \<lparr>pn_p = foldl gcounter_join (pn_p c) (map (\<lambda>(r, d). gcounter_from r d) (incs ops)),
      pn_n = foldl gcounter_join (pn_n c) (map (\<lambda>(r, d). gcounter_from r d) (decs ops))\<rparr>"
proof (induction ops arbitrary: c)
  case (Cons op ops)
  then show ?case
    by (cases op) (simp_all add: incs_def decs_def map_filter_simps pncounter_join_def pncounter_inc_def
        pncounter_dec_def gcounter_join_def gcounter_from_def lm_join_def [of _ _ "[]"] lm_new_def)
qed (simp add: incs_def decs_def map_filter_simps)

text \<open>The largest amount each rank reported, summed over the ranks.\<close>

definition reported :: "(nat \<times> 64 word) list \<Rightarrow> nat" where
  "reported us = (\<Sum>r \<in> fst ` set us. unat (Max {c. (r, c) \<in> set us}))"

lemma entries_sum_reported:
  "entries_sum (foldl gcounter_join lm_new (map (\<lambda>(r, c). gcounter_from r c) us)) = of_nat (reported us)"
  unfolding gcounter_sum reported_def by simp

section \<open>Watermarks\<close>

definition is_latest :: "(nat \<times> 'v \<times> 64 word) list \<Rightarrow> nat \<Rightarrow> 'v \<Rightarrow> bool" where
  "is_latest us r v \<longleftrightarrow> (\<exists>t. (r, v, t) \<in> set us \<and> (\<forall>v' t'. (r, v', t') \<in> set us \<longrightarrow> t' \<le> t))"

lemma foldl_lww:
  "foldl lww_join x xs \<in> insert x (set xs) \<and>
     (\<forall>y \<in> insert x (set xs). lww_stamp y \<le> lww_stamp (foldl lww_join x xs))"
proof (induction xs arbitrary: x)
  case (Cons y xs)
  have "lww_join x y \<in> {x, y} \<and> lww_stamp x \<le> lww_stamp (lww_join x y) \<and> lww_stamp y \<le> lww_stamp (lww_join x y)"
    by (auto simp: lww_join_stamp)
  then show ?case using Cons.IH [of "lww_join x y"] by (auto intro: order_trans)
qed simp

abbreviation watermark_of :: "(nat \<times> 'v \<times> 64 word) list \<Rightarrow> 'v watermark" where
  "watermark_of us \<equiv> foldl watermark_join lm_new (map (\<lambda>(r, v, t). watermark_from r v t) us)"

lemma watermark_lookup:
  "distinct (map fst (watermark_of us)) \<and>
   map_of (watermark_of us) k =
     join_all lww_join (map (\<lambda>(r, v, t). lww_new v t (of_nat k)) (filter (\<lambda>u. fst u = k) us))"
proof -
  let ?us = "map (\<lambda>(r, v, t). (r, lww_new v t (of_nat r))) us"
  have "watermark_of us = foldl (\<lambda>s (r, v). lm_join lww_join s (lm_insert r v lm_new)) lm_new ?us"
    unfolding foldl_map by (intro foldl_cong) (auto simp: watermark_join_def watermark_from_def)
  moreover have "map (Some \<circ> snd) (filter (\<lambda>u. fst u = k) ?us) =
      map Some (map (\<lambda>(r, v, t). lww_new v t (of_nat k)) (filter (\<lambda>u. fst u = k) us))"
    by (induction us) auto
  ultimately show ?thesis
    using fold_updates_lookup [of lm_new lww_join ?us k]
    by (simp add: lm_new_def fold_option_join_None del: map_map)
qed

lemma watermark_entry:
  assumes "map_of (watermark_of us) k = Some l"
  shows "is_latest us k (lww_value l)"
proof -
  let ?f = "\<lambda>(r :: nat, v, t). lww_new v t (of_nat k)" and ?ws = "filter (\<lambda>u. fst u = k) us"
  from assms watermark_lookup [of us k] have j: "join_all lww_join (map ?f ?ws) = Some l" by simp
  then obtain w ws where ws: "map ?f ?ws = w # ws" "l = foldl lww_join w ws"
    by (auto simp: join_all_def split: list.splits)
  have l: "l \<in> set (map ?f ?ws)" "\<forall>y \<in> set (map ?f ?ws). lww_stamp y \<le> lww_stamp l"
    using foldl_lww [of w ws] unfolding ws by auto
  from l(1) obtain v t where vt: "(k, v, t) \<in> set us" "l = lww_new v t (of_nat k)" by auto
  have "t' \<le> t" if "(k, v', t') \<in> set us" for v' t'
  proof -
    have "lww_new v' t' (of_nat k) \<in> set (map ?f ?ws)" using that by force
    then have "lww_stamp (lww_new v' t' (of_nat k)) \<le> lww_stamp l" using l(2) by blast
    then show ?thesis by (auto simp: vt(2) lww_stamp_def lww_new_def less_eq_prod_def)
  qed
  with vt show ?thesis by (auto simp: is_latest_def lww_new_def)
qed

lemma watermark_rank:
  assumes "\<forall>(r, v, t) \<in> set us. \<forall>(r', v', t') \<in> set us. r = r' \<and> t = t' \<longrightarrow> v = v'"
  shows "watermark_get_rank (watermark_of us) k = Some v \<longleftrightarrow> is_latest us k v"
proof
  assume "watermark_get_rank (watermark_of us) k = Some v"
  then show "is_latest us k v" using watermark_entry by (auto simp: watermark_get_rank_def lm_get_def)
next
  assume v: "is_latest us k v"
  then have "filter (\<lambda>u. fst u = k) us \<noteq> []" by (force simp: is_latest_def filter_empty_conv)
  then obtain l where l: "map_of (watermark_of us) k = Some l"
    using watermark_lookup [of us k] by (auto simp: join_all_def neq_Nil_conv split: prod.splits)
  from v obtain t where t: "(k, v, t) \<in> set us" "\<forall>v' t'. (k, v', t') \<in> set us \<longrightarrow> t' \<le> t"
    unfolding is_latest_def by blast
  from watermark_entry [OF l] obtain t2 where t2: "(k, lww_value l, t2) \<in> set us"
    "\<forall>v' t'. (k, v', t') \<in> set us \<longrightarrow> t' \<le> t2" unfolding is_latest_def by blast
  have "t = t2" using t t2 by (meson order_antisym)
  then have "v = lww_value l" using assms t(1) t2(1) by fastforce
  then show "watermark_get_rank (watermark_of us) k = Some v"
    using l by (simp add: watermark_get_rank_def lm_get_def)
qed

lemma foldl_min_Min: "foldl min x vs = Min (insert x (set vs))"
  for x :: "'a :: linorder"
proof (induction vs arbitrary: x)
  case (Cons v vs)
  have "Min (insert x (insert v (set vs))) = min x (Min (insert v (set vs)))" by simp
  also have "\<dots> = Min (insert (min x v) (set vs))"
    by (cases "vs = []") (simp_all add: min.assoc)
  finally show ?case using Cons by simp
qed simp

lemma watermark_get_Min:
  "watermark_get m = (if m = [] then None else Some (Min (lww_value ` snd ` set m)))"
  by (cases m) (auto simp: watermark_get_def foldl_min_Min image_image case_prod_beta)

section \<open>Batches on the wire\<close>

text \<open>One batch: the serialized result decodes to the reduction of the decoded updates.\<close>

lemma reduce_wire_batch:
  assumes acc: "accumulator st_ok up_ok seq accumulate reduce"
    and ser: "\<forall>x. up_ok x \<longrightarrow> (\<exists>w. ser x = Inr w \<and> de w = Inr x)"
    and b: "b \<noteq> []" "\<forall>w \<in> set b. \<exists>x. de w = Inr x \<and> up_ok x"
  shows "\<exists>w z xs. reduce_updates (reduce_erased de ser reduce) b = Inr w \<and> de w = Inr z \<and>
    list_all2 (\<lambda>w y. de w = Inr y) b xs \<and> accumulator.reduces_to up_ok reduce xs z"
proof -
  obtain w v where wv: "b = w # v" using b(1) by (cases b) auto
  obtain x where x: "de w = Inr x" "up_ok x" using b(2) wv by auto
  obtain xs where xs: "list_all2 (\<lambda>w y. de w = Inr y \<and> up_ok y) v xs"
    using collect_de [of v de up_ok] b(2) wv by auto
  have red: "\<forall>x y. up_ok x \<longrightarrow> up_ok y \<longrightarrow> (\<exists>z. reduce x y = Inr z \<and> up_ok z)"
    using accumulator.red_total [OF acc] by blast
  from reduce_erased_fold [OF ser red x xs] obtain w' z where
    z: "try_fold (reduce_erased de ser reduce) w v = Inr w'" "de w' = Inr z" "try_fold reduce x xs = Inr z"
    by blast
  have ups: "list_all2 (\<lambda>w y. de w = Inr y) v xs" "\<forall>y \<in> set xs. up_ok y"
    using xs by (auto simp: list_all2_conv_all_nth in_set_conv_nth)
  have "reduce_updates (reduce_erased de ser reduce) b = Inr w'" using z(1) wv by (simp add: reduce_updates_fold)
  moreover have "list_all2 (\<lambda>w y. de w = Inr y) b (x # xs)" using x(1) ups(1) wv by simp
  moreover have "accumulator.reduces_to up_ok reduce (x # xs) z"
    using z(3) x(2) ups(2) by (simp add: accumulator.reduces_to_def [OF acc])
  ultimately show ?thesis using z(2) by blast
qed

lemma reduce_wire_batches:
  assumes acc: "accumulator st_ok up_ok seq accumulate reduce"
    and ser: "\<forall>x. up_ok x \<longrightarrow> (\<exists>w. ser x = Inr w \<and> de w = Inr x)"
    and "\<forall>b \<in> set bs. b \<noteq> [] \<and> (\<forall>w \<in> set b. \<exists>x. de w = Inr x \<and> up_ok x)"
  shows "\<exists>ws us xss. list_all2 (\<lambda>b w. reduce_updates (reduce_erased de ser reduce) b = Inr w) bs ws \<and>
    list_all2 (\<lambda>w u. de w = Inr u) ws us \<and> list_all2 (list_all2 (\<lambda>w y. de w = Inr y)) bs xss \<and>
    list_all2 (accumulator.reduces_to up_ok reduce) xss us"
  using assms(3)
proof (induction bs)
  case (Cons b bs)
  from Cons obtain ws us xss where
    l: "list_all2 (\<lambda>b w. reduce_updates (reduce_erased de ser reduce) b = Inr w) bs ws"
      "list_all2 (\<lambda>w u. de w = Inr u) ws us" "list_all2 (list_all2 (\<lambda>w y. de w = Inr y)) bs xss"
      "list_all2 (accumulator.reduces_to up_ok reduce) xss us" by auto
  obtain w z xs where w: "reduce_updates (reduce_erased de ser reduce) b = Inr w" "de w = Inr z"
    "list_all2 (\<lambda>w y. de w = Inr y) b xs" "accumulator.reduces_to up_ok reduce xs z"
    using reduce_wire_batch [OF acc ser, of b] Cons.prems by auto
  show ?case
    by (rule exI [of _ "w # ws"], rule exI [of _ "z # us"], rule exI [of _ "xs # xss"]) (simp add: l w)
qed simp

section \<open>Properties\<close>

text \<open>C19: A reducing split port is transparent: for every accumulator whose reducer satisfies the
  contract, and for updates that are sent serialized, reducing nonempty batches with
  \<open>reduce_updates\<close> and accumulating the results succeeds and leaves the same state as
  accumulating every single update. Serialization is assumed to round trip.\<close>

theorem split_port_reduction:
  assumes "accumulator st_ok up_ok seq accumulate reduce"
    and "\<forall>x. up_ok x \<longrightarrow> (\<exists>w. ser x = Inr w \<and> de w = Inr x)"
    and "st_ok s" and "\<forall>b \<in> set bs. b \<noteq> [] \<and> (\<forall>w \<in> set b. \<exists>x. de w = Inr x \<and> up_ok x)"
  shows "\<exists>ws us all s1 s2.
    collect_result (reduce_updates (reduce_erased de ser reduce)) bs = Inr ws \<and>
    collect_result de ws = Inr us \<and> collect_result de (concat bs) = Inr all \<and>
    try_fold accumulate s us = Inr s1 \<and> try_fold accumulate s all = Inr s2 \<and> seq s1 s2"
proof -
  note acc = assms(1)
  from reduce_wire_batches [OF acc assms(2,4)] obtain ws us xss where
    l: "list_all2 (\<lambda>b w. reduce_updates (reduce_erased de ser reduce) b = Inr w) bs ws"
      "list_all2 (\<lambda>w u. de w = Inr u) ws us"
      "list_all2 (list_all2 (\<lambda>w y. de w = Inr y)) bs xss"
      "list_all2 (accumulator.reduces_to up_ok reduce) xss us" by blast
  have c: "list_all2 (\<lambda>w y. de w = Inr y) (concat bs) (concat xss)"
    using l(3) by (induction rule: list_all2_induct) (auto intro: list_all2_appendI)
  note ok = accumulator.batches_ok [OF acc l(4)]
  obtain s1 s2 where s: "try_fold accumulate s us = Inr s1" "try_fold accumulate s (concat xss) = Inr s2"
    using accumulator.fold_total [OF acc assms(3)] ok by blast
  have "seq s1 s2" using accumulator.batches [OF acc assms(3) l(4) s] .
  then show ?thesis
    using l(1,2) c s unfolding collect_result_Inr [symmetric] by blast
qed

theorem split_port_reduction_witness:
  "\<exists>ws s1. collect_result (reduce_updates (reduce_erased Inr Inr sum_reduce)) [[1, 2], [3]] =
     (Inr ws :: (unit reduce_error \<times> 64 word list, _) result) \<and>
     try_fold sum_accumulate 0 ws = (Inr s1 :: (unit, _) result) \<and>
     try_fold sum_accumulate 0 [1, 2, 3] = (Inr s1 :: (unit, _) result)"
  using split_port_reduction [OF sum_accumulator.accumulator_axioms [where 'a = unit],
      where ser = Inr and de = Inr and s = 0 and bs = "[[1, 2], [3]]"]
  by (auto simp: collect_result_Inr list.rel_eq)

text \<open>The value of a grow-only counter after any sequence of updates is the sum over the ranks
  of the largest count each rank sent, modulo the width of the integer; so reordering and
  duplicating updates does not change it.\<close>

theorem gcounter_value:
  "unat (gcounter_get (foldl gcounter_join lm_new (map (\<lambda>(r, c). gcounter_from r c) us))) =
     (\<Sum>r \<in> fst ` set us. unat (Max {c. (r, c) \<in> set us})) mod 2 ^ 64"
  unfolding gcounter_get_def gcounter_sum by (rule unat_sum)

text \<open>C34: The value of an increment/decrement counter is the sum of the largest increments minus
  the sum of the largest decrements, exactly, whenever that difference fits a signed 64-bit
  integer; the two sums may themselves overflow.\<close>

theorem pncounter_value:
  assumes "- (2 ^ 63) \<le> int (reported (incs ops)) - int (reported (decs ops))"
    and "int (reported (incs ops)) - int (reported (decs ops)) < 2 ^ 63"
  shows "pncounter_get (foldl pncounter_join \<lparr>pn_p = lm_new, pn_n = lm_new\<rparr> (map pn_update ops)) =
    int (reported (incs ops)) - int (reported (decs ops))"
proof -
  define d where "d = int (reported (incs ops)) - int (reported (decs ops))"
  have "pncounter_get (foldl pncounter_join \<lparr>pn_p = lm_new, pn_n = lm_new\<rparr> (map pn_update ops)) =
      sint (word_of_int d :: 64 word)"
    by (simp add: pncounter_get_def pn_fold entries_sum_reported d_def)
  also have "\<dots> = signed_take_bit 63 d" by (simp add: signed_of_int)
  also have "\<dots> = d" using assms by (intro signed_take_bit_int_eq_self) (auto simp: d_def)
  finally show ?thesis by (simp add: d_def)
qed

theorem pncounter_value_witness:
  "pncounter_get (foldl pncounter_join \<lparr>pn_p = lm_new, pn_n = lm_new\<rparr>
     (map pn_update [Inc 0 5, Dec 1 7, Inc 0 3])) = - 2"
  using pncounter_value [of "[Inc 0 5, Dec 1 7, Inc 0 3]"]
  by (simp add: reported_def incs_def decs_def map_filter_simps disj_commute Collect_disj_eq)

text \<open>The watermark is the minimum over the ranks of the value with the largest timestamp each
  rank sent, whatever the order of the updates, provided that a rank sends one value per
  timestamp; and the value tracked for each rank is that latest one.\<close>

theorem watermark_value:
  fixes us :: "(nat \<times> 'v :: linorder \<times> 64 word) list"
  assumes "us \<noteq> []" "\<forall>(r, v, t) \<in> set us. \<forall>(r', v', t') \<in> set us. r = r' \<and> t = t' \<longrightarrow> v = v'"
  shows "watermark_get (watermark_of us) = Some (Min {v. \<exists>r. is_latest us r v}) \<and>
    (\<forall>r v. watermark_get_rank (watermark_of us) r = Some v \<longleftrightarrow> is_latest us r v)"
proof -
  let ?m = "watermark_of us"
  note rank = watermark_rank [OF assms(2)]
  have d: "distinct (map fst ?m)" using watermark_lookup by blast
  have "v \<in> lww_value ` snd ` set ?m \<longleftrightarrow> (\<exists>r. watermark_get_rank ?m r = Some v)" for v
    using d by (force simp: watermark_get_rank_def lm_get_def)
  then have set: "lww_value ` snd ` set ?m = {v. \<exists>r. is_latest us r v}" unfolding rank by blast
  obtain r v t where "(r, v, t) \<in> set us" using assms(1) by (cases us) auto
  then have "filter (\<lambda>u. fst u = r) us \<noteq> []" by (force simp: filter_empty_conv)
  then have "map_of ?m r \<noteq> None"
    using watermark_lookup [of us r] by (auto simp: join_all_def neq_Nil_conv split: prod.splits)
  then have "?m \<noteq> []" by auto
  then show ?thesis using rank set by (simp add: watermark_get_Min)
qed

theorem watermark_value_witness:
  "watermark_get (watermark_of [(0, 7 :: nat, 1), (1, 5, 1), (0, 3, 0)]) =
     Some (Min {v. \<exists>r. is_latest [(0, 7, 1), (1, 5, 1), (0, 3, 0)] r v})"
  using watermark_value [of "[(0, 7 :: nat, 1), (1, 5, 1), (0, 3, 0)]"] by simp

text \<open>The registers' join is not commutative when two writes share a timestamp and a replica
  but not the value, and \<open>bottom\<close> is not an identity for a write stamped with zeros.\<close>

theorem lww_collision:
  "\<exists>x y :: nat lww. lww_join x y \<noteq> lww_join y x \<and> lww_join (lww_bottom 0) x \<noteq> x"
  by (rule exI [of _ "lww_new 1 0 0"], rule exI [of _ "lww_new 2 0 0"])
    (simp add: lww_join_def lww_new_def lww_bottom_def)

end
