(* ===== verification/Extent.thy ===== *)
theory Extent
  imports Slice_Views Rle
begin

text \<open>
  Model of the extents, points and regions of \<open>ndslice/src/view.rs\<close>: an extent names the
  dimensions of a space and gives their sizes, a point is a row-major rank in an extent, and a
  region places the points of an extent in a base space by a slice. \<open>Panic\<close> of the error type
  stands for an \<open>unwrap\<close> or \<open>expect\<close> that fails.
\<close>

section \<open>Data\<close>

record extent =
  ext_labels :: "string list"
  ext_sizes :: "nat list"

datatype extent_error = ExtentDimMismatch nat nat | OverlappingLabel string

datatype point_error =
    PointDimMismatch nat nat
  | OutOfRangeIndex nat nat
  | OutOfRangeRank nat nat

record point =
  pt_rank :: nat
  pt_extent :: extent

record region =
  reg_labels :: "string list"
  reg_slice :: slice

datatype region_error =
    InvalidPoint
  | OutOfRangeBaseRank nat slice_error
  | RegionPanic

section \<open>Extents\<close>

definition extent_new :: "string list \<Rightarrow> nat list \<Rightarrow> (extent_error, extent) result" where
  "extent_new ls ns =
     (if length ls \<noteq> length ns then Inl (ExtentDimMismatch (length ls) (length ns))
      else Inr \<lparr>ext_labels = ls, ext_sizes = ns\<rparr>)"

definition ext_position :: "extent \<Rightarrow> string \<Rightarrow> nat option" where
  "ext_position e l = position (\<lambda>x. x = l) (ext_labels e)"

definition ext_size :: "extent \<Rightarrow> string \<Rightarrow> nat option" where
  "ext_size e l = map_option (\<lambda>pos. ext_sizes e ! pos) (ext_position e l)"

definition ext_num_ranks :: "extent \<Rightarrow> nat" where
  "ext_num_ranks e = prod_list (ext_sizes e)"

fun rank_loop :: "(nat \<times> nat) list \<Rightarrow> nat \<Rightarrow> nat \<Rightarrow> (point_error, nat) result" where
  "rank_loop [] stride res = Inr res"
| "rank_loop ((c, n) # ps) stride res =
     (if n \<le> c then Inl (OutOfRangeIndex n c) else rank_loop ps (stride * n) (res + c * stride))"

definition rank_of_coords :: "extent \<Rightarrow> nat list \<Rightarrow> (point_error, nat) result" where
  "rank_of_coords e cs =
     (if length cs \<noteq> length (ext_sizes e)
      then Inl (PointDimMismatch (length (ext_sizes e)) (length cs))
      else rank_loop (zip (rev cs) (rev (ext_sizes e))) 1 0)"

definition extent_point :: "extent \<Rightarrow> nat list \<Rightarrow> (point_error, point) result" where
  "extent_point e cs =
     bind_result (rank_of_coords e cs) (\<lambda>r. Inr \<lparr>pt_rank = r, pt_extent = e\<rparr>)"

definition point_of_rank :: "extent \<Rightarrow> nat \<Rightarrow> (point_error, point) result" where
  "point_of_rank e rank =
     (if ext_num_ranks e \<le> rank then Inl (OutOfRangeRank (ext_num_ranks e) rank)
      else Inr \<lparr>pt_rank = rank, pt_extent = e\<rparr>)"

definition extent_concat :: "extent \<Rightarrow> extent \<Rightarrow> (extent_error, extent) result" where
  "extent_concat e other =
     (case find (\<lambda>l. l \<in> set (ext_labels e)) (ext_labels other) of
        Some dup \<Rightarrow> Inl (OverlappingLabel dup)
      | None \<Rightarrow> extent_new (ext_labels e @ ext_labels other) (ext_sizes e @ ext_sizes other))"

definition to_slice :: "extent \<Rightarrow> slice" where
  "to_slice e = new_row_major (ext_sizes e)"

section \<open>Points\<close>

text \<open>\<open>CoordIter\<close>, drained; \<open>None\<close> is the division by zero of an empty dimension.\<close>

fun coord_iter :: "nat list \<Rightarrow> nat \<Rightarrow> nat \<Rightarrow> nat list option" where
  "coord_iter [] rank stride = Some []"
| "coord_iter (n # ns) rank stride =
     (if n = 0 \<or> stride div n = 0 then None
      else map_option ((#) (rank div (stride div n)))
             (coord_iter ns (rank mod (stride div n)) (stride div n)))"

definition point_coords :: "point \<Rightarrow> nat list option" where
  "point_coords p =
     coord_iter (ext_sizes (pt_extent p)) (pt_rank p) (prod_list (ext_sizes (pt_extent p)))"

definition point_coord :: "point \<Rightarrow> nat \<Rightarrow> nat option" where
  "point_coord p i =
     (case point_coords p of None \<Rightarrow> None | Some cs \<Rightarrow> if i < length cs then Some (cs ! i) else None)"

section \<open>Regions\<close>

definition region_new :: "string list \<Rightarrow> slice \<Rightarrow> region" where
  "region_new ls s = \<lparr>reg_labels = ls, reg_slice = s\<rparr>"

text \<open>\<open>None\<close> is the failing \<open>unwrap\<close> on a number of labels that is not the number of sizes.\<close>

definition region_extent :: "region \<Rightarrow> extent option" where
  "region_extent r = (case extent_new (reg_labels r) (sizes (reg_slice r)) of Inl _ \<Rightarrow> None | Inr e \<Rightarrow> Some e)"

definition point_of_base_rank :: "region \<Rightarrow> nat \<Rightarrow> (region_error, point) result" where
  "point_of_base_rank r rank =
     (case coordinates (reg_slice r) rank of
        Inl e \<Rightarrow> Inl (OutOfRangeBaseRank rank e)
      | Inr cs \<Rightarrow>
          (case region_extent r of
             None \<Rightarrow> Inl RegionPanic
           | Some e \<Rightarrow> (case extent_point e cs of Inl _ \<Rightarrow> Inl RegionPanic | Inr p \<Rightarrow> Inr p)))"

definition base_rank_of_point :: "region \<Rightarrow> point \<Rightarrow> (region_error, nat) result" where
  "base_rank_of_point r p =
     (case region_extent r of
        None \<Rightarrow> Inl RegionPanic
      | Some e \<Rightarrow>
          if pt_extent p \<noteq> e then Inl InvalidPoint
          else (case point_coords p of
                  None \<Rightarrow> Inl RegionPanic
                | Some cs \<Rightarrow> (case location (reg_slice r) cs of Inl _ \<Rightarrow> Inl RegionPanic | Inr v \<Rightarrow> Inr v)))"

definition region_inv :: "region \<Rightarrow> bool" where
  "region_inv r \<longleftrightarrow> slice_inv (reg_slice r) \<and> length (reg_labels r) = length (sizes (reg_slice r))"

section \<open>Facts\<close>

lemma rank_loop_ok:
  "length cs = length ns \<Longrightarrow> list_all2 (<) cs ns \<Longrightarrow> rank_loop (zip cs ns) st res = Inr (res + st * undigits ns cs)"
  by (induction cs ns arbitrary: st res rule: list_induct2) (auto simp: algebra_simps)

lemma rank_loop_error:
  "length cs = length ns \<Longrightarrow> \<not> list_all2 (<) cs ns \<Longrightarrow> \<exists>n c. rank_loop (zip cs ns) st res = Inl (OutOfRangeIndex n c)"
  by (induction cs ns arbitrary: st res rule: list_induct2) auto

lemma rank_of_coords_eq:
  "rank_of_coords e cs = Inr r \<longleftrightarrow> list_all2 (<) cs (ext_sizes e) \<and> r = ordinal (ext_sizes e) cs"
proof (cases "length cs = length (ext_sizes e) \<and> list_all2 (<) (rev cs) (rev (ext_sizes e))")
  case True
  then show ?thesis
    by (auto simp: rank_of_coords_def rank_loop_ok ordinal_def list_all2_rev)
next
  case False
  then show ?thesis
    using rank_loop_error [of "rev cs" "rev (ext_sizes e)" 1 0]
    by (auto simp: rank_of_coords_def list_all2_rev dest: list_all2_lengthD)
qed

lemma extent_point_eq:
  "extent_point e cs = Inr p \<longleftrightarrow> list_all2 (<) cs (ext_sizes e) \<and>
     p = \<lparr>pt_rank = ordinal (ext_sizes e) cs, pt_extent = e\<rparr>"
  by (auto simp: extent_point_def rank_of_coords_eq)

lemma undigits_append_single:
  "length xs = length ns \<Longrightarrow> undigits (ns @ [n]) (xs @ [x]) = undigits ns xs + prod_list ns * x"
  by (induction xs ns rule: list_induct2) (auto simp: algebra_simps)

lemma ordinal_Cons:
  "length cs = length ns \<Longrightarrow> ordinal (n # ns) (c # cs) = c * prod_list ns + ordinal ns cs"
  by (simp add: ordinal_def undigits_append_single)

lemma coord_iter_ordinal:
  "list_all2 (<) cs ns \<Longrightarrow> coord_iter ns (ordinal ns cs) (prod_list ns) = Some cs"
proof (induction cs ns rule: list_all2_induct)
  case (Cons c cs n ns)
  have lt: "ordinal ns cs < prod_list ns" using unrank_ordinal Cons.hyps by blast
  then have "0 < prod_list ns" by linarith
  moreover have "length cs = length ns" using Cons.hyps by (auto dest: list_all2_lengthD)
  ultimately show ?case using Cons lt by (auto simp: ordinal_Cons)
qed simp

lemma point_coords_ordinal:
  "list_all2 (<) cs (ext_sizes e) \<Longrightarrow>
     point_coords \<lparr>pt_rank = ordinal (ext_sizes e) cs, pt_extent = e\<rparr> = Some cs"
  by (simp add: point_coords_def coord_iter_ordinal)

definition full_extent :: "region \<Rightarrow> extent" where
  "full_extent r = \<lparr>ext_labels = reg_labels r, ext_sizes = sizes (reg_slice r)\<rparr>"

lemma region_extent_inv: "region_inv r \<Longrightarrow> region_extent r = Some (full_extent r)"
  by (simp add: region_extent_def region_inv_def extent_new_def full_extent_def)

lemma point_of_base_rank_nth:
  assumes "region_inv r" "k < slice_len (reg_slice r)"
  shows "point_of_base_rank r (ranks (reg_slice r) ! k) = Inr \<lparr>pt_rank = k, pt_extent = full_extent r\<rparr>"
proof -
  let ?s = "reg_slice r"
  have c: "coordinates ?s (ranks ?s ! k) = Inr (unrank (sizes ?s) k)"
    using assms by (simp add: coordinates_nth_ranks region_inv_def)
  have "extent_point (full_extent r) (unrank (sizes ?s) k) = Inr \<lparr>pt_rank = k, pt_extent = full_extent r\<rparr>"
    using assms(2) unrank_in_range [of k "sizes ?s"] ordinal_unrank [of k "sizes ?s"]
    by (simp add: extent_point_eq full_extent_def slice_len_def)
  then show ?thesis
    using c by (simp add: point_of_base_rank_def region_extent_inv [OF assms(1)])
qed

lemma base_rank_of_point_nth:
  assumes "region_inv r" "k < slice_len (reg_slice r)"
  shows "base_rank_of_point r \<lparr>pt_rank = k, pt_extent = full_extent r\<rparr> = Inr (ranks (reg_slice r) ! k)"
proof -
  let ?s = "reg_slice r"
  have lt: "list_all2 (<) (unrank (sizes ?s) k) (sizes ?s)"
    using assms(2) by (simp add: unrank_in_range slice_len_def)
  have "point_coords \<lparr>pt_rank = k, pt_extent = full_extent r\<rparr> = Some (unrank (sizes ?s) k)"
    using point_coords_ordinal [of "unrank (sizes ?s) k" "full_extent r"] lt assms(2)
    by (simp add: full_extent_def ordinal_unrank slice_len_def)
  moreover have "location ?s (unrank (sizes ?s) k) = Inr (ranks ?s ! k)"
    using assms(2) by (simp add: location_eq nth_ranks)
  ultimately show ?thesis by (simp add: base_rank_of_point_def region_extent_inv [OF assms(1)])
qed

section \<open>Properties\<close>



end
