(* ===== verification/Mailbox_Context.thy ===== *)
theory Mailbox_Context
  imports Ordering Accum Extent
begin

text \<open>
  Model of \<open>hyperactor/src/context.rs\<close> and \<open>mailbox/headers.rs\<close>: posting a message from an
  actor and splitting a port. A split port is a local proxy on the actor that splits it; it
  forwards every message to the original port, or reduces messages first, in batches
  (streaming mode) or down to a single message (once mode).

  The context of an actor is the record \<open>cx\<close>: its address, the next ephemeral port, its
  sequencer, the proxies bound to its mailbox and the envelopes it has posted. An action maps a
  context to a result and the context after it, so the effects of an action that fails remain.
  The reducer registry and the hash function are parameters. The alarm that flushes a streaming
  proxy after a while is the action \<open>flush\<close>, which may happen at any time.
\<close>

section \<open>Actions\<close>

type_synonym ('s, 'e, 'a) action = "'s \<Rightarrow> ('e, 'a) result \<times> 's"

definition return_action :: "'a \<Rightarrow> ('s, 'e, 'a) action" where
  "return_action x = (\<lambda>s. (Inr x, s))"

definition fail :: "'e \<Rightarrow> ('s, 'e, 'a) action" where
  "fail e = (\<lambda>s. (Inl e, s))"

definition bind_action :: "('s, 'e, 'a) action \<Rightarrow> ('a \<Rightarrow> ('s, 'e, 'b) action) \<Rightarrow> ('s, 'e, 'b) action" where
  "bind_action m f = (\<lambda>s. case m s of (Inl e, t) \<Rightarrow> (Inl e, t) | (Inr x, t) \<Rightarrow> f x t)"

lemma bind_action_simps [simp]:
  "bind_action (return_action x) f = f x"
  "bind_action (fail e) f = fail e"
  "return_action x s = (Inr x, s)"
  "fail e s = (Inl e, s)"
  by (simp_all add: bind_action_def return_action_def fail_def)

lemma bind_action_eq:
  "m s = (Inr x, t) \<Longrightarrow> bind_action m f s = f x t"
  "m s = (Inl e, t) \<Longrightarrow> bind_action m f s = (Inl e, t)"
  by (simp_all add: bind_action_def)

section \<open>Headers\<close>

datatype attr =
    SEQ_INFO
  | SEND_TIMESTAMP
  | SENDER_ACTOR_ID
  | SENDER_ACTOR_ID_HASH
  | OPERATION_ENDPOINT
  | OPERATION_ADVERB
  | CAST_POINT
  | CAST_ORIGINATING_SENDER
  | CAST_FAILURE_PHASE
  | CAST_FAILURE_CAST_ACTOR
  | CAST_FAILURE_ORIGIN
  | CAST_FAILURE_RETURN_PORT
  | OtherAttr string

datatype 'l attr_value =
    SeqInfoV seq_info
  | ActorAddrV "'l actor_addr"
  | PortAddrV "'l port_addr"
  | U64V nat
  | StringV string
  | PointV point

type_synonym 'l flattrs = "attr \<rightharpoonup> 'l attr_value"

text \<open>The two keys declared with the meta attribute \<open>OPERATION_CONTEXT_HEADER\<close>.\<close>

definition operation_context_header :: "attr \<Rightarrow> bool" where
  "operation_context_header k = (k = OPERATION_ENDPOINT \<or> k = OPERATION_ADVERB)"

definition operation_context_headers :: "'l flattrs \<Rightarrow> 'l flattrs" where
  "operation_context_headers headers = (\<lambda>k. if operation_context_header k then headers k else None)"

definition stamp_sender_actor_id_hash ::
  "(actor_id \<Rightarrow> nat) \<Rightarrow> 'l flattrs \<Rightarrow> 'l actor_addr \<Rightarrow> 'l flattrs" where
  "stamp_sender_actor_id_hash hash_to_u64 headers sender =
     headers(SENDER_ACTOR_ID_HASH \<mapsto> U64V (hash_to_u64 (actor_addr_id sender)))"

definition stamp_sender_actor_id ::
  "'l flattrs \<Rightarrow> seq_info \<Rightarrow> 'l port_addr \<Rightarrow> 'l actor_addr \<Rightarrow> 'l flattrs" where
  "stamp_sender_actor_id headers i dest owner =
     (case i of
        Session _ s \<Rightarrow>
          (let early_session = s \<le> 4; caller_set_stale = headers SENDER_ACTOR_ID \<noteq> None
           in if (early_session \<or> caller_set_stale) \<and> is_handler_port dest
              then headers(SENDER_ACTOR_ID \<mapsto> ActorAddrV owner) else headers)
      | Direct \<Rightarrow> headers)"

section \<open>Reduction buffers\<close>

type_synonym ('w, 'e) reducer = "'w \<Rightarrow> 'w \<Rightarrow> ('e, 'w) result"

record ('l, 'w) update_buffer =
  ub_buffered :: "'w list"
  ub_headers :: "'l flattrs option"

definition update_buffer_new :: "('l, 'w) update_buffer" where
  "update_buffer_new = \<lparr>ub_buffered = [], ub_headers = None\<rparr>"

definition update_buffer_pop :: "('l, 'w) update_buffer \<Rightarrow> 'w option \<times> ('l, 'w) update_buffer" where
  "update_buffer_pop b =
     (let vs = butlast (ub_buffered b)
      in (if ub_buffered b = [] then None else Some (last (ub_buffered b)),
          b\<lparr>ub_buffered := vs, ub_headers := (if vs = [] then None else ub_headers b)\<rparr>))"

definition update_buffer_reduce :: "('w, 'e) reducer \<Rightarrow> ('l, 'w) update_buffer
    \<Rightarrow> ('e reduce_error, 'l flattrs \<times> 'w) result option \<times> ('l, 'w) update_buffer" where
  "update_buffer_reduce re b =
     (if ub_buffered b = [] then (None, b)
      else let headers = (case ub_headers b of None \<Rightarrow> Map.empty | Some h \<Rightarrow> h)
           in case reduce_updates re (ub_buffered b) of
                Inr reduced \<Rightarrow> (Some (Inr (headers, reduced)), \<lparr>ub_buffered = [], ub_headers = None\<rparr>)
              | Inl (e, vs) \<Rightarrow> (Some (Inl e), \<lparr>ub_buffered = vs, ub_headers = Some headers\<rparr>))"

definition update_buffer_push :: "nat \<Rightarrow> ('w, 'e) reducer \<Rightarrow> ('l, 'w) update_buffer \<Rightarrow> 'l flattrs \<Rightarrow> 'w
    \<Rightarrow> ('e reduce_error, 'l flattrs \<times> 'w) result option \<times> ('l, 'w) update_buffer" where
  "update_buffer_push limit re b headers serialized =
     (let b1 = \<lparr>ub_buffered = ub_buffered b @ [serialized],
                ub_headers = (if ub_headers b = None then Some (operation_context_headers headers)
                              else ub_headers b)\<rparr>
      in if limit \<le> length (ub_buffered b1) then update_buffer_reduce re b1 else (None, b1))"

record ('l, 'w) once_buffer =
  ob_accumulated :: "'w option"
  ob_headers :: "'l flattrs option"
  ob_expected :: nat
  ob_count :: nat
  ob_done :: bool

definition once_buffer_new :: "nat \<Rightarrow> ('l, 'w) once_buffer" where
  "once_buffer_new expected =
     \<lparr>ob_accumulated = None, ob_headers = None, ob_expected = expected, ob_count = 0, ob_done = False\<rparr>"

text \<open>The rejected updates are the two that were passed in, so \<open>pop\<close> finds the new one.\<close>

definition once_buffer_push :: "('w, 'e) reducer \<Rightarrow> ('l, 'w) once_buffer \<Rightarrow> 'l flattrs \<Rightarrow> 'w
    \<Rightarrow> ('w \<times> 'e reduce_error, ('l flattrs \<times> 'w) option) result \<times> ('l, 'w) once_buffer" where
  "once_buffer_push re b headers value =
     (let b1 = b\<lparr>ob_count := ob_count b + 1,
                 ob_headers := (if ob_headers b = None then Some (operation_context_headers headers)
                                else ob_headers b)\<rparr>;
          joined = (case ob_accumulated b of
                      None \<Rightarrow> Inr value
                    | Some acc \<Rightarrow> reduce_updates re [acc, value])
      in case joined of
           Inl (e, rejected) \<Rightarrow> (Inl (last rejected, e), b1\<lparr>ob_accumulated := None\<rparr>)
         | Inr acc \<Rightarrow>
             if ob_expected b1 \<le> ob_count b1
             then (Inr (Some (case ob_headers b1 of None \<Rightarrow> Map.empty | Some h \<Rightarrow> h, acc)),
                   b1\<lparr>ob_done := True, ob_accumulated := None, ob_headers := None\<rparr>)
             else (Inr None, b1\<lparr>ob_accumulated := Some acc\<rparr>))"

section \<open>The context of an actor\<close>

record ('l, 'w) envelope =
  env_sender :: "'l actor_addr"
  env_dest :: "'l port_addr"
  env_data :: 'w
  env_headers :: "'l flattrs"
  env_return_undeliverable :: bool

datatype reducer_mode = StreamingMode | OnceMode nat

datatype ('l, 'w, 'e) sink =
    Forward
  | Streaming "('w, 'e) reducer" "('l, 'w) update_buffer"
  | OnceZero
  | Once "('w, 'e) reducer" "('l, 'w) once_buffer"

record ('l, 'w, 'e) proxy =
  px_target :: "'l port_addr"
  px_return :: bool
  px_sink :: "('l, 'w, 'e) sink"

record ('l, 'w, 'e) cx =
  cx_actor :: "'l actor_addr"
  cx_next_port :: nat
  cx_sequencer :: "'l sequencer"
  cx_proxies :: "nat \<rightharpoonup> ('l, 'w, 'e) proxy"
  cx_out :: "('l, 'w) envelope list"

datatype seq_info_policy = AssignNew | AllowExternal

datatype 'e cx_error = SeqInfoAlreadySet | ReducerUnavailable 'e

definition port_addr_of :: "'l actor_addr \<Rightarrow> port \<Rightarrow> 'l port_addr" where
  "port_addr_of a p = \<lparr>port_addr_id = \<lparr>port_actor = actor_addr_id a, port_port = p\<rparr>,
     port_addr_location = actor_addr_location a\<rparr>"

section \<open>Posting\<close>

definition sequenced_post :: "'l port_addr \<Rightarrow> 'l flattrs \<Rightarrow> 'w \<Rightarrow> bool \<Rightarrow> ('l, 'w, 'e) cx \<Rightarrow> ('l, 'w, 'e) cx" where
  "sequenced_post dest headers data return_undeliverable cx =
     (let (i, s) = assign_seq (cx_sequencer cx) dest;
          headers1 = (stamp_sender_actor_id headers i dest (cx_actor cx))(SEQ_INFO \<mapsto> SeqInfoV i)
      in cx\<lparr>cx_sequencer := s,
            cx_out := cx_out cx @ [\<lparr>env_sender = cx_actor cx, env_dest = dest, env_data = data,
              env_headers = headers1, env_return_undeliverable = return_undeliverable\<rparr>]\<rparr>)"

text \<open>\<open>SeqInfoAlreadySet\<close> is the failing assertion.\<close>

definition post :: "'l port_addr \<Rightarrow> 'l flattrs \<Rightarrow> 'w \<Rightarrow> bool \<Rightarrow> seq_info_policy
    \<Rightarrow> (('l, 'w, 'e) cx, 'e cx_error, unit) action" where
  "post dest headers data return_undeliverable policy cx =
     (if headers SEQ_INFO \<noteq> None \<and> policy \<noteq> AllowExternal then (Inl SeqInfoAlreadySet, cx)
      else if headers SEQ_INFO = None
      then (Inr (), sequenced_post dest headers data return_undeliverable cx)
      else (Inr (), cx\<lparr>cx_out := cx_out cx @ [\<lparr>env_sender = cx_actor cx, env_dest = dest,
              env_data = data, env_headers = headers, env_return_undeliverable = return_undeliverable\<rparr>]\<rparr>))"

section \<open>Splitting\<close>

definition sink_new :: "('w, 'e) reducer option \<Rightarrow> reducer_mode \<Rightarrow> ('l, 'w, 'e) sink" where
  "sink_new reducer mode =
     (case reducer of
        None \<Rightarrow> Forward
      | Some re \<Rightarrow>
          (case mode of
             StreamingMode \<Rightarrow> Streaming re update_buffer_new
           | OnceMode expected \<Rightarrow> if expected = 0 then OnceZero else Once re (once_buffer_new expected)))"

definition split_port :: "('r \<Rightarrow> ('e, ('w, 'e) reducer option) result) \<Rightarrow> 'l port_addr \<Rightarrow> 'r option
    \<Rightarrow> reducer_mode \<Rightarrow> bool \<Rightarrow> (('l, 'w, 'e) cx, 'e cx_error, 'l port_addr) action" where
  "split_port resolve_reducer port spec mode return_undeliverable cx =
     (let port_index = cx_next_port cx;
          cx1 = cx\<lparr>cx_next_port := port_index + 1\<rparr>;
          resolved = (case spec of None \<Rightarrow> Inr None | Some s \<Rightarrow> resolve_reducer s)
      in case resolved of
           Inl e \<Rightarrow> (Inl (ReducerUnavailable e), cx1)
         | Inr reducer \<Rightarrow>
             (Inr (port_addr_of (cx_actor cx) (Ephemeral port_index)),
              cx1\<lparr>cx_proxies := (cx_proxies cx1)(port_index \<mapsto>
                \<lparr>px_target = port, px_return = return_undeliverable, px_sink = sink_new reducer mode\<rparr>)\<rparr>))"

section \<open>Messages to a proxy\<close>

datatype disposition = Delivered | DeliveredAndExhausted

datatype ('l, 'w, 'e) send_failure =
    SendError 'w "'l flattrs" "'e reduce_error option"
  | Dead 'w "'l flattrs"
  | SendPanic

text \<open>The \<open>post\<close> inside of \<open>split\<close>; \<open>SendPanic\<close> is its failing assertion.\<close>

definition proxy_post :: "('l, 'w, 'e) proxy \<Rightarrow> 'l flattrs \<Rightarrow> 'w \<Rightarrow> disposition
    \<Rightarrow> (('l, 'w, 'e) cx, ('l, 'w, 'e) send_failure, disposition) action" where
  "proxy_post px headers data d cx =
     (if headers SEQ_INFO \<noteq> None then (Inl SendPanic, cx)
      else (Inr d, sequenced_post (px_target px) headers data (px_return px) cx))"

definition set_sink :: "nat \<Rightarrow> ('l, 'w, 'e) proxy \<Rightarrow> ('l, 'w, 'e) sink \<Rightarrow> ('l, 'w, 'e) cx \<Rightarrow> ('l, 'w, 'e) cx" where
  "set_sink i px snk cx = cx\<lparr>cx_proxies := (cx_proxies cx)(i \<mapsto> px\<lparr>px_sink := snk\<rparr>)\<rparr>"

text \<open>The closure bound to the split port. On an error of a full streaming buffer the failed
  update is popped and handed back.\<close>

definition proxy_enqueue :: "nat \<Rightarrow> nat \<Rightarrow> ('l, 'w, 'e) proxy \<Rightarrow> 'l flattrs \<Rightarrow> 'w
    \<Rightarrow> (('l, 'w, 'e) cx, ('l, 'w, 'e) send_failure, disposition) action" where
  "proxy_enqueue limit i px headers update cx =
     (case px_sink px of
        Forward \<Rightarrow> proxy_post px (operation_context_headers headers) update Delivered cx
      | Streaming re b \<Rightarrow>
          (case update_buffer_push limit re b headers update of
             (None, b1) \<Rightarrow> (Inr Delivered, set_sink i px (Streaming re b1) cx)
           | (Some (Inr (h, reduced)), b1) \<Rightarrow>
               proxy_post px h reduced Delivered (set_sink i px (Streaming re b1) cx)
           | (Some (Inl e), b1) \<Rightarrow>
               (case update_buffer_pop b1 of
                  (None, b2) \<Rightarrow> (Inl SendPanic, set_sink i px (Streaming re b2) cx)
                | (Some v, b2) \<Rightarrow> (Inl (SendError v headers (Some e)), set_sink i px (Streaming re b2) cx)))
      | OnceZero \<Rightarrow> (Inl (SendError update headers None), cx)
      | Once re b \<Rightarrow>
          if ob_done b then (Inl (Dead update headers), cx)
          else (case once_buffer_push re b headers update of
             (Inr (Some (h, reduced)), b1) \<Rightarrow>
               proxy_post px h reduced DeliveredAndExhausted (set_sink i px (Once re b1) cx)
           | (Inr None, b1) \<Rightarrow> (Inr Delivered, set_sink i px (Once re b1) cx)
           | (Inl (v, e), b1) \<Rightarrow>
               (Inl (SendError v headers (Some e)), set_sink i px (Once re b1) cx)))"

text \<open>The mailbox side: an exhausted or dead port is removed. \<open>None\<close> is a port that is not
  bound.\<close>

definition unbind :: "nat \<Rightarrow> ('l, 'w, 'e) cx \<Rightarrow> ('l, 'w, 'e) cx" where
  "unbind i cx = cx\<lparr>cx_proxies := (cx_proxies cx)(i := None)\<rparr>"

definition mailbox_deliver :: "nat \<Rightarrow> nat \<Rightarrow> 'l flattrs \<Rightarrow> 'w \<Rightarrow> ('l, 'w, 'e) cx
    \<Rightarrow> (('l, 'w, 'e) send_failure, disposition) result option \<times> ('l, 'w, 'e) cx" where
  "mailbox_deliver limit i headers data cx =
     (case cx_proxies cx i of
        None \<Rightarrow> (None, cx)
      | Some px \<Rightarrow>
          (case proxy_enqueue limit i px headers data cx of
             (r, cx1) \<Rightarrow>
               (Some r,
                (case r of
                   Inr DeliveredAndExhausted \<Rightarrow> unbind i cx1
                 | Inl (Dead _ _) \<Rightarrow> unbind i cx1
                 | _ \<Rightarrow> cx1))))"

text \<open>The sleeper task of a streaming proxy: a reduction error is logged and left for the next
  send.\<close>

definition flush :: "nat \<Rightarrow> ('l, 'w, 'e) cx \<Rightarrow> ('l, 'w, 'e) cx" where
  "flush i cx =
     (case cx_proxies cx i of
        None \<Rightarrow> cx
      | Some px \<Rightarrow>
          (case px_sink px of
             Streaming re b \<Rightarrow>
               (case update_buffer_reduce re b of
                  (Some (Inr (h, reduced)), b1) \<Rightarrow>
                    snd (proxy_post px h reduced Delivered (set_sink i px (Streaming re b1) cx))
                | (_, b1) \<Rightarrow> set_sink i px (Streaming re b1) cx)
           | _ \<Rightarrow> cx))"

end
