(* ===== verification/Split_Port_Props.thy ===== *)
theory Split_Port_Props
  imports Mailbox_Context
begin

text \<open>
  What a split port guarantees. In once mode with \<open>n\<close> expected messages the proxy posts exactly
  one message, the reduction of all \<open>n\<close> in arrival order, and is then unbound; in streaming mode
  the posted messages are reductions of consecutive batches of the accepted ones, none of which
  is lost or counted twice whatever the timing of the alarm and whatever reductions fail. A once
  proxy whose reduction fails, however, forgets what it had accumulated.
\<close>

section \<open>Single steps\<close>

lemma reduce_pair: "reduce_updates re [a, v] = (case re a v of Inl e \<Rightarrow> Inl (ReduceFailed e, [a, v]) | Inr x \<Rightarrow> Inr x)"
  by (simp add: reduce_updates_def split: sum.splits)

lemma no_seq_info [simp]: "operation_context_headers h SEQ_INFO = None"
  by (simp add: operation_context_headers_def operation_context_header_def)

lemma sequenced_post_simps [simp]:
  "cx_actor (sequenced_post d h w r cx) = cx_actor cx"
  "cx_next_port (sequenced_post d h w r cx) = cx_next_port cx"
  "cx_proxies (sequenced_post d h w r cx) = cx_proxies cx"
  "sequenced_post d h w r (cx\<lparr>cx_proxies := ps\<rparr>) = (sequenced_post d h w r cx)\<lparr>cx_proxies := ps\<rparr>"
  "sequenced_post d h w r (cx\<lparr>cx_next_port := n\<rparr>) = (sequenced_post d h w r cx)\<lparr>cx_next_port := n\<rparr>"
  by (simp_all add: sequenced_post_def Let_def split: prod.splits)

lemma set_sink_simps [simp]:
  "cx_actor (set_sink i px snk cx) = cx_actor cx" "cx_out (set_sink i px snk cx) = cx_out cx"
  "cx_proxies (set_sink i px snk cx) i = Some (px\<lparr>px_sink := snk\<rparr>)"
  "sequenced_post d h w r (set_sink i px snk cx) = set_sink i px snk (sequenced_post d h w r cx)"
  "unbind i (set_sink i px snk cx) = unbind i cx"
  "cx_proxies (unbind i cx) i = None" "cx_out (unbind i cx) = cx_out cx"
  by (simp_all add: set_sink_def unbind_def)

lemma sequenced_post_out:
  obtains e where "cx_out (sequenced_post d h w r cx) = cx_out cx @ [e]" "env_dest e = d" "env_data e = w"
    "env_sender e = cx_actor cx" "env_return_undeliverable e = r"
  by (rule that [of "\<lparr>env_sender = cx_actor cx, env_dest = d, env_data = w,
      env_headers = (stamp_sender_actor_id h (fst (assign_seq (cx_sequencer cx) d)) d (cx_actor cx))
        (SEQ_INFO \<mapsto> SeqInfoV (fst (assign_seq (cx_sequencer cx) d))),
      env_return_undeliverable = r\<rparr>"])
    (simp_all add: sequenced_post_def Let_def split: prod.splits)

section \<open>Once mode\<close>

fun deliver_all :: "nat \<Rightarrow> nat \<Rightarrow> ('l flattrs \<times> 'w) list \<Rightarrow> ('l, 'w, 'e) cx
    \<Rightarrow> (('l, 'w, 'e) send_failure, disposition) result option list \<times> ('l, 'w, 'e) cx" where
  "deliver_all limit i [] cx = ([], cx)"
| "deliver_all limit i ((h, w) # hws) cx =
     (let (r, cx1) = mailbox_deliver limit i h w cx; (rs, cx2) = deliver_all limit i hws cx1
      in (r # rs, cx2))"

lemma once_step:
  assumes "cx_proxies cx i = Some px" "px_sink px = Once re b" "\<not> ob_done b"
    and "ob_accumulated b = None \<or> (\<exists>a. ob_accumulated b = Some a \<and> re a w = Inr x)"
    and "ob_accumulated b = None \<longrightarrow> x = w"
    and "hh = (if ob_headers b = None then operation_context_headers h else the (ob_headers b))"
    and "hh SEQ_INFO = None"
  shows "Suc (ob_count b) < ob_expected b \<Longrightarrow> mailbox_deliver limit i h w cx =
      (Some (Inr Delivered), set_sink i px (Once re (b\<lparr>ob_count := Suc (ob_count b),
         ob_headers := Some hh, ob_accumulated := Some x\<rparr>)) cx)"
    and "ob_expected b \<le> Suc (ob_count b) \<Longrightarrow> mailbox_deliver limit i h w cx =
      (Some (Inr DeliveredAndExhausted),
       unbind i (sequenced_post (px_target px) hh x (px_return px) cx))"
proof -
  have joined: "(case ob_accumulated b of None \<Rightarrow> Inr w | Some acc \<Rightarrow> reduce_updates re [acc, w]) = Inr x"
    using assms(4,5) by (auto simp: reduce_pair)
  have hs: "(if ob_headers b = None then Some (operation_context_headers h) else ob_headers b) = Some hh"
    using assms(6) by auto
  note d = mailbox_deliver_def proxy_enqueue_def once_buffer_push_def Let_def joined hs
  show "Suc (ob_count b) < ob_expected b \<Longrightarrow> mailbox_deliver limit i h w cx =
      (Some (Inr Delivered), set_sink i px (Once re (b\<lparr>ob_count := Suc (ob_count b),
         ob_headers := Some hh, ob_accumulated := Some x\<rparr>)) cx)"
    using assms(1-3) by (simp add: d)
  show "ob_expected b \<le> Suc (ob_count b) \<Longrightarrow> mailbox_deliver limit i h w cx =
      (Some (Inr DeliveredAndExhausted),
       unbind i (sequenced_post (px_target px) hh x (px_return px) cx))"
    using assms(1-3,7) by (simp add: d proxy_post_def)
qed

lemma once_run:
  assumes "cx_proxies cx i = Some px" "px_sink px = Once re b" "\<not> ob_done b"
    and "ob_accumulated b = Some a" "ob_headers b = Some hh" "hh SEQ_INFO = None"
    and "ob_expected b = ob_count b + length hws" "hws \<noteq> []" "try_fold re a (map snd hws) = Inr z"
  shows "deliver_all limit i hws cx =
    (replicate (length hws - 1) (Some (Inr Delivered)) @ [Some (Inr DeliveredAndExhausted)],
     unbind i (sequenced_post (px_target px) hh z (px_return px) cx))"
  using assms
proof (induction hws arbitrary: cx px b a)
  case (Cons hw hws)
  obtain h w where hw: "hw = (h, w)" by (cases hw)
  obtain x where x: "re a w = Inr x" "try_fold re x (map snd hws) = Inr z"
    using Cons.prems(9) hw by auto
  show ?case
  proof (cases "hws = []")
    case True
    then show ?thesis
      using once_step(2) [OF Cons.prems(1-3), of w x hh h limit] Cons.prems x hw by (simp flip:)
  next
    case False
    define b' where "b' = b\<lparr>ob_count := Suc (ob_count b), ob_headers := Some hh, ob_accumulated := Some x\<rparr>"
    have s: "mailbox_deliver limit i h w cx = (Some (Inr Delivered), set_sink i px (Once re b') cx)"
      using once_step(1) [OF Cons.prems(1-3), of w x hh h limit] Cons.prems x False
      by (simp add: b'_def)
    have "deliver_all limit i hws (set_sink i px (Once re b') cx) =
      (replicate (length hws - 1) (Some (Inr Delivered)) @ [Some (Inr DeliveredAndExhausted)],
       unbind i (sequenced_post (px_target px) hh z (px_return px) cx))"
      using Cons.IH [of "set_sink i px (Once re b') cx" "px\<lparr>px_sink := Once re b'\<rparr>" b' x] Cons.prems x False
      by (simp add: b'_def)
    then show ?thesis using s hw False by (cases hws) simp_all
  qed
qed simp

section \<open>Streaming mode\<close>

datatype ('l, 'w) event = Push "'l flattrs" 'w | Alarm

text \<open>The updates the proxy accepts, and the context afterwards.\<close>

fun run_events :: "nat \<Rightarrow> nat \<Rightarrow> ('l, 'w) event list \<Rightarrow> ('l, 'w, 'e) cx \<Rightarrow> 'w list \<times> ('l, 'w, 'e) cx" where
  "run_events limit i [] cx = ([], cx)"
| "run_events limit i (Push h w # es) cx =
     (let (r, cx1) = mailbox_deliver limit i h w cx; (ws, cx2) = run_events limit i es cx1
      in (case r of Some (Inr _) \<Rightarrow> w # ws | _ \<Rightarrow> ws, cx2))"
| "run_events limit i (Alarm # es) cx = run_events limit i es (flush i cx)"

definition streaming :: "nat \<Rightarrow> 'l port_addr \<Rightarrow> ('w, 'e) reducer \<Rightarrow> 'w list \<Rightarrow> ('l, 'w, 'e) cx \<Rightarrow> bool" where
  "streaming i target re buffered cx \<longleftrightarrow>
     (\<exists>px b. cx_proxies cx i = Some px \<and> px_target px = target \<and> px_sink px = Streaming re b \<and>
        ub_buffered b = buffered \<and> (\<forall>h. ub_headers b = Some h \<longrightarrow> h SEQ_INFO = None))"

text \<open>One step: some accepted updates come in, zero or one batch goes out.\<close>

definition moves :: "nat \<Rightarrow> 'l port_addr \<Rightarrow> ('w, 'e) reducer \<Rightarrow> 'w list \<Rightarrow> ('l, 'w, 'e) cx
    \<Rightarrow> 'w list \<Rightarrow> ('l, 'w, 'e) cx \<Rightarrow> bool" where
  "moves i target re buffered cx accepted cx' \<longleftrightarrow>
     (\<exists>batches es rest. streaming i target re rest cx' \<and> cx_out cx' = cx_out cx @ es \<and>
        list_all2 (\<lambda>b e. b \<noteq> [] \<and> reduce_updates re b = Inr (env_data e) \<and> env_dest e = target) batches es \<and>
        buffered @ accepted = concat batches @ rest)"

lemma moves_idle:
  "streaming i target re (buffered @ accepted) cx' \<Longrightarrow> cx_out cx' = cx_out cx \<Longrightarrow>
     moves i target re buffered cx accepted cx'"
  unfolding moves_def by (rule exI [of _ "[]"], rule exI [of _ "[]"]) simp

lemma moves_post:
  assumes "streaming i target re [] cx'" "cx_out cx' = cx_out cx @ [e]" "env_dest e = target"
    "buffered @ accepted \<noteq> []" "reduce_updates re (buffered @ accepted) = Inr (env_data e)"
  shows "moves i target re buffered cx accepted cx'"
  unfolding moves_def
  by (rule exI [of _ "[buffered @ accepted]"], rule exI [of _ "[e]"]) (use assms in simp)

lemma moves_append:
  assumes "moves i target re buffered cx xs cx1"
    and "\<And>rest. streaming i target re rest cx1 \<Longrightarrow> moves i target re rest cx1 ys cx2"
  shows "moves i target re buffered cx (xs @ ys) cx2"
proof -
  let ?P = "\<lambda>b e. b \<noteq> [] \<and> reduce_updates re b = Inr (env_data e) \<and> env_dest e = target"
  obtain bs1 es1 r1 where 1: "streaming i target re r1 cx1" "cx_out cx1 = cx_out cx @ es1"
    "list_all2 ?P bs1 es1" "buffered @ xs = concat bs1 @ r1" using assms(1) unfolding moves_def by blast
  obtain bs2 es2 r2 where 2: "streaming i target re r2 cx2" "cx_out cx2 = cx_out cx1 @ es2"
    "list_all2 ?P bs2 es2" "r1 @ ys = concat bs2 @ r2" using assms(2) [OF 1(1)] unfolding moves_def by blast
  have "buffered @ xs @ ys = concat (bs1 @ bs2) @ r2" using 1(4) 2(4) by (metis append.assoc concat_append)
  moreover have "list_all2 ?P (bs1 @ bs2) (es1 @ es2)" using 1(3) 2(3) by (rule list_all2_appendI)
  moreover have "cx_out cx2 = cx_out cx @ es1 @ es2" using 1(2) 2(2) by simp
  ultimately show ?thesis unfolding moves_def using 2(1) by blast
qed

lemma proxy_post_moves:
  assumes "cx_proxies cx i = Some px" "px_target px = target" "px_sink px = Streaming re b"
    and "buffered @ accepted \<noteq> []" "reduce_updates re (buffered @ accepted) = Inr w" "h SEQ_INFO = None"
  shows "fst (proxy_post px h w d (set_sink i px (Streaming re \<lparr>ub_buffered = [], ub_headers = None\<rparr>) cx)) = Inr d"
    and "moves i target re buffered cx accepted
      (snd (proxy_post px h w d (set_sink i px (Streaming re \<lparr>ub_buffered = [], ub_headers = None\<rparr>) cx)))"
proof -
  let ?cx = "set_sink i px (Streaming re \<lparr>ub_buffered = [], ub_headers = None\<rparr>) cx"
  show "fst (proxy_post px h w d ?cx) = Inr d" using assms(6) by (simp add: proxy_post_def)
  obtain e where e: "cx_out (sequenced_post target h w (px_return px) ?cx) = cx_out ?cx @ [e]"
    "env_dest e = target" "env_data e = w" by (rule sequenced_post_out)
  show "moves i target re buffered cx accepted (snd (proxy_post px h w d ?cx))"
    using assms(2,4-6) e
    by (intro moves_post [of _ _ _ _ _ e]) (auto simp: proxy_post_def streaming_def set_sink_def)
qed

lemma flush_moves:
  assumes "streaming i target re buffered cx"
  shows "moves i target re buffered cx [] (flush i cx)"
proof -
  obtain px b where px: "cx_proxies cx i = Some px" "px_target px = target" "px_sink px = Streaming re b"
    "ub_buffered b = buffered" "\<forall>h. ub_headers b = Some h \<longrightarrow> h SEQ_INFO = None"
    using assms unfolding streaming_def by blast
  show ?thesis
  proof (cases "buffered = [] \<or> \<not> is_ok (reduce_updates re buffered)")
    case True
    then show ?thesis
      using px reduce_updates_fold [of re "hd buffered" "tl buffered"]
      by (intro moves_idle)
        (auto simp: flush_def update_buffer_reduce_def streaming_def set_sink_def is_ok_iff
          split: option.splits sum.splits)
  next
    case False
    then obtain w where w: "reduce_updates re buffered = Inr w" "buffered \<noteq> []" by (auto simp: is_ok_iff)
    have "(case ub_headers b of None \<Rightarrow> Map.empty | Some h \<Rightarrow> h) SEQ_INFO = None"
      using px(5) by (auto split: option.splits)
    then show ?thesis
      using proxy_post_moves(2) [OF px(1-3), of buffered "[]"] px w
      by (simp add: flush_def update_buffer_reduce_def Let_def)
  qed
qed

lemma push_moves:
  assumes "streaming i target re buffered cx" "mailbox_deliver limit i h w cx = (r, cx')"
  shows "moves i target re buffered cx (case r of Some (Inr _) \<Rightarrow> [w] | _ \<Rightarrow> []) cx'"
proof -
  obtain px b where px: "cx_proxies cx i = Some px" "px_target px = target" "px_sink px = Streaming re b"
    "ub_buffered b = buffered" "\<forall>h. ub_headers b = Some h \<longrightarrow> h SEQ_INFO = None"
    using assms(1) unfolding streaming_def by blast
  define hh where "hh = (if ub_headers b = None then operation_context_headers h else the (ub_headers b))"
  have hh: "hh SEQ_INFO = None" using px(5) by (auto simp: hh_def)
  have push: "update_buffer_push limit re b h w =
    (if limit \<le> Suc (length buffered)
     then update_buffer_reduce re \<lparr>ub_buffered = buffered @ [w], ub_headers = Some hh\<rparr>
     else (None, \<lparr>ub_buffered = buffered @ [w], ub_headers = Some hh\<rparr>))"
    using px(4) by (auto simp: update_buffer_push_def hh_def Let_def)
  consider "\<not> limit \<le> Suc (length buffered)"
    | e where "limit \<le> Suc (length buffered)" "reduce_updates re (buffered @ [w]) = Inl e"
    | z where "limit \<le> Suc (length buffered)" "reduce_updates re (buffered @ [w]) = Inr z"
    by (cases "reduce_updates re (buffered @ [w])") blast+
  then show ?thesis
  proof cases
    case 1
    then have "mailbox_deliver limit i h w cx = (Some (Inr Delivered),
        set_sink i px (Streaming re \<lparr>ub_buffered = buffered @ [w], ub_headers = Some hh\<rparr>) cx)"
      using px push by (simp add: mailbox_deliver_def proxy_enqueue_def)
    then show ?thesis
      using assms(2) px hh by (auto intro!: moves_idle simp: streaming_def set_sink_def)
  next
    case 2
    then obtain e1 where e1: "reduce_updates re (buffered @ [w]) = Inl (e1, buffered @ [w])"
      by (cases "buffered @ [w]") (auto simp: reduce_updates_fold split: sum.splits)
    then show ?thesis
      using assms(2) px push 2(1) hh
      by (auto intro!: moves_idle simp: mailbox_deliver_def proxy_enqueue_def update_buffer_reduce_def
          update_buffer_pop_def streaming_def set_sink_def Let_def)
  next
    case 3
    let ?cx = "set_sink i px (Streaming re \<lparr>ub_buffered = [], ub_headers = None\<rparr>) cx"
    note m = proxy_post_moves [of cx i px target re b buffered "[w]" z hh Delivered, OF px(1-3) _ 3(2) hh]
    have "proxy_enqueue limit i px h w cx = proxy_post px hh z Delivered ?cx"
      using px(3) push 3 by (simp add: proxy_enqueue_def update_buffer_reduce_def)
    moreover have "fst (proxy_post px hh z Delivered ?cx) = Inr Delivered" using m(1) by simp
    ultimately have "r = Some (Inr Delivered)" "cx' = snd (proxy_post px hh z Delivered ?cx)"
      using assms(2) px(1) by (auto simp: mailbox_deliver_def split: prod.splits)
    then show ?thesis using m(2) by simp
  qed
qed

lemma run_events_moves:
  "streaming i target re buffered cx \<Longrightarrow> run_events limit i es cx = (ws, cx') \<Longrightarrow>
     moves i target re buffered cx ws cx'"
proof (induction es arbitrary: buffered cx ws)
  case Nil
  then show ?case by (auto intro: moves_idle)
next
  case (Cons e es)
  show ?case
  proof (cases e)
    case (Push h w)
    obtain r cx1 where 1: "mailbox_deliver limit i h w cx = (r, cx1)" by fastforce
    obtain ws2 where 2: "run_events limit i es cx1 = (ws2, cx')" "ws = (case r of Some (Inr _) \<Rightarrow> [w] | _ \<Rightarrow> []) @ ws2"
      using Cons.prems(2) Push 1 by (auto split: prod.splits option.splits sum.splits)
    show ?thesis
      unfolding 2(2) by (rule moves_append [OF push_moves [OF Cons.prems(1) 1]]) (rule Cons.IH [OF _ 2(1)])
  next
    case Alarm
    have "run_events limit i es (flush i cx) = (ws, cx')" using Cons.prems(2) Alarm by simp
    then show ?thesis
      using moves_append [OF flush_moves [OF Cons.prems(1)], of ws cx'] Cons.IH by simp
  qed
qed

lemma split_streaming:
  assumes "resolve spec = Inr (Some re)"
    and "split_port resolve target (Some spec) StreamingMode ret cx = (p, cx1)"
  shows "streaming (cx_next_port cx) target re [] cx1" "cx_out cx1 = cx_out cx"
    "p = Inr (port_addr_of (cx_actor cx) (Ephemeral (cx_next_port cx)))"
  using assms by (auto simp: split_port_def sink_new_def streaming_def update_buffer_new_def Let_def)

section \<open>Properties\<close>

text \<open>C17: A once port split for \<open>n\<close> peers with a reducer turns the \<open>n\<close> messages it receives into
  exactly one message to the original port, the reduction of all of them in arrival order; every
  message is accepted, only the last one exhausts the proxy, which is then unbound.\<close>

theorem once_split_port:
  assumes "resolve spec = Inr (Some re)" "try_fold re w (map snd hws) = Inr z"
    and "split_port resolve target (Some spec) (OnceMode (Suc (length hws))) ret cx = (p, cx1)"
    and "deliver_all limit (cx_next_port cx) ((h, w) # hws) cx1 = (rs, cx2)"
  shows "p = Inr (port_addr_of (cx_actor cx) (Ephemeral (cx_next_port cx))) \<and>
    rs = replicate (length hws) (Some (Inr Delivered)) @ [Some (Inr DeliveredAndExhausted)] \<and>
    (\<exists>e. cx_out cx2 = cx_out cx @ [e] \<and> env_dest e = target \<and> env_data e = z) \<and>
    cx_proxies cx2 (cx_next_port cx) = None"
proof -
  let ?i = "cx_next_port cx"
  let ?b = "once_buffer_new (Suc (length hws))"
  let ?hh = "operation_context_headers h"
  define px where "px = \<lparr>px_target = target, px_return = ret, px_sink = Once re ?b\<rparr>"
  have p: "p = Inr (port_addr_of (cx_actor cx) (Ephemeral ?i))" and
    c1: "cx_proxies cx1 ?i = Some px" "cx_out cx1 = cx_out cx" "cx_actor cx1 = cx_actor cx"
    using assms(1,3) by (auto simp: split_port_def sink_new_def px_def Let_def)
  obtain e where e: "cx_out (sequenced_post target ?hh z ret cx1) = cx_out cx1 @ [e]"
    "env_dest e = target" "env_data e = z" by (rule sequenced_post_out)
  note step = once_step [OF c1(1), of re ?b w w ?hh h limit]
  have out: "deliver_all limit ?i ((h, w) # hws) cx1 =
    (replicate (length hws) (Some (Inr Delivered)) @ [Some (Inr DeliveredAndExhausted)],
     unbind ?i (sequenced_post target ?hh z ret cx1))"
  proof (cases "hws = []")
    case True
    then show ?thesis using step(2) assms(2) by (simp add: px_def once_buffer_new_def)
  next
    case False
    define b where "b = ?b\<lparr>ob_count := Suc 0, ob_headers := Some ?hh, ob_accumulated := Some w\<rparr>"
    have "mailbox_deliver limit ?i h w cx1 = (Some (Inr Delivered), set_sink ?i px (Once re b) cx1)"
      using step(1) False by (simp add: px_def once_buffer_new_def b_def)
    moreover have "deliver_all limit ?i hws (set_sink ?i px (Once re b) cx1) =
      (replicate (length hws - 1) (Some (Inr Delivered)) @ [Some (Inr DeliveredAndExhausted)],
       unbind ?i (sequenced_post target ?hh z ret cx1))"
      using once_run [of "set_sink ?i px (Once re b) cx1" ?i "px\<lparr>px_sink := Once re b\<rparr>" re b w ?hh hws z limit]
        assms(2) False by (simp add: b_def px_def once_buffer_new_def)
    ultimately show ?thesis using False by (cases hws) simp_all
  qed
  show ?thesis using out assms(4) p e c1(2) by auto
qed

definition example_actor :: "nat actor_addr" where
  "example_actor = \<lparr>actor_addr_id = \<lparr>actor_uid = Singleton ''a'', actor_proc = \<lparr>proc_uid = Singleton ''p''\<rparr>\<rparr>,
     actor_addr_location = 0\<rparr>"

definition example_cx :: "(nat, 'w, 'e) cx" where
  "example_cx = \<lparr>cx_actor = example_actor, cx_next_port = 7, cx_sequencer = sequencer_new 1,
     cx_proxies = Map.empty, cx_out = []\<rparr>"

definition example_target :: "nat port_addr" where
  "example_target = port_addr_of example_actor (Ephemeral 2)"

theorem once_split_port_witness:
  "\<exists>cx2 e. snd (deliver_all 5 7 [(Map.empty, 10), (Map.empty, 20), (Map.empty, 30)]
      (snd (split_port (\<lambda>_ :: unit. Inr (Some sum_reduce)) example_target (Some ()) (OnceMode 3) True
        (example_cx :: (nat, 64 word, unit) cx)))) = cx2 \<and>
      cx_out cx2 = [e] \<and> env_dest e = example_target \<and> env_data e = 60 \<and> cx_proxies cx2 7 = None"
proof -
  let ?cx = "example_cx :: (nat, 64 word, unit) cx"
  let ?hws = "[(Map.empty, 20), (Map.empty, 30)] :: (nat flattrs \<times> 64 word) list"
  obtain p cx1 where 1: "split_port (\<lambda>_ :: unit. Inr (Some sum_reduce)) example_target (Some ())
      (OnceMode (Suc (length ?hws))) True ?cx = (p, cx1)" by fastforce
  obtain rs cx2 where 2: "deliver_all 5 (cx_next_port ?cx) ((Map.empty, 10) # ?hws) cx1 = (rs, cx2)" by fastforce
  have "try_fold sum_reduce 10 (map snd ?hws) = (Inr 60 :: (unit, 64 word) result)" by (simp add: sum_reduce_def)
  note f = once_split_port [OF refl this 1 2]
  have n: "cx_next_port ?cx = 7" "cx_out ?cx = []" by (simp_all add: example_cx_def)
  have "Suc (length ?hws) = 3" by simp
  with 1 2 have "snd (deliver_all 5 7 [(Map.empty, 10), (Map.empty, 20), (Map.empty, 30)]
      (snd (split_port (\<lambda>_ :: unit. Inr (Some sum_reduce)) example_target (Some ()) (OnceMode 3) True ?cx))) = cx2"
    unfolding n by (simp del: deliver_all.simps add: numeral_3_eq_3)
  then show ?thesis using f unfolding n by (auto simp del: deliver_all.simps)
qed




end
