(* ===== verification/Cast.thy ===== *)
theory Cast
  imports Tile Value_Mesh Mailbox_Context
begin

text \<open>
  Model of \<open>hyperactor_cast/src/cast_actor.rs\<close> and of \<open>MaterializedTile\<close> in \<open>tile.rs\<close>:
  creating, using and destroying a casting domain. A domain is a region of ranks with one member
  actor per rank. The sender materializes it into subtrees and sends each nonterminal one to the
  \<open>CastActor\<close> on the proc of its root member, which installs a hop and forwards the setup to
  its own communication children; a cast message then travels the same tree, is delivered at
  every hop, and terminal tiles are delivered to directly.

  Handlers are actions on the actor state and the context of the actor. What is posted is on the
  wire: a \<open>MaterializedTile\<close> is serialized as its tile and the items of its ranks. The typehash
  of a message type, the hash of an actor id and the reducer registry are the parameters of the
  record \<open>runtime\<close>. Message types of the payload are \<open>wire\<close>; a multipart message is its body
  and the list of its typed parts. Timestamps, tracing and the test-only lineage are left out.
\<close>

section \<open>Materialized tiles\<close>

record 't materialized_tile =
  mt_tile :: tile
  mt_items :: "'t value_mesh"

definition from_value_mesh_with_tile :: "tile \<Rightarrow> 't value_mesh \<Rightarrow> 't materialized_tile" where
  "from_value_mesh_with_tile t items = \<lparr>mt_tile = t, mt_items = items\<rparr>"

definition item_at :: "'t materialized_tile \<Rightarrow> nat \<Rightarrow> 't option" where
  "item_at m rank =
     (if \<not> contains (tile_space (mt_tile m)) rank then None else get_by_base_rank (mt_items m) rank)"

definition root_item :: "'t materialized_tile \<Rightarrow> 't option" where
  "root_item m = item_at m (root_rank (mt_tile m))"

text \<open>\<open>None\<close> is the \<open>expect\<close> on a rank without an item.\<close>

definition tile_items :: "'t materialized_tile \<Rightarrow> 't list option" where
  "tile_items m =
     (case tile_ranks (mt_tile m) of Inl _ \<Rightarrow> None | Inr rs \<Rightarrow> those (map (item_at m) rs))"

definition subtile :: "'t materialized_tile \<Rightarrow> tile \<Rightarrow> 't materialized_tile" where
  "subtile m t = m\<lparr>mt_tile := t\<rparr>"

type_synonym 't wire_tile = "tile \<times> 't list"

definition mt_serialize :: "'t materialized_tile \<Rightarrow> 't wire_tile option" where
  "mt_serialize m = map_option (\<lambda>is. (mt_tile m, is)) (tile_items m)"

definition mt_deserialize :: "'t wire_tile \<Rightarrow> (value_mesh_error, 't materialized_tile) result" where
  "mt_deserialize w =
     (case w of (t, is) \<Rightarrow> map_sum id (from_value_mesh_with_tile t) (vm_new (tile_space t) is))"

section \<open>Messages\<close>

record ('l, 'r) port_ref_repr =
  pr_addr :: "'l port_addr"
  pr_reducer_spec :: "'r option"
  pr_return_undeliverable :: bool
  pr_unsplit :: bool

record ('l, 'r) once_port_ref_repr =
  op_addr :: "'l port_addr"
  op_reducer_spec :: "'r option"
  op_return_undeliverable :: bool
  op_unsplit :: bool

datatype ('l, 'r, 'b) part =
    PortPart "('l, 'r) port_ref_repr"
  | OncePortPart "('l, 'r) once_port_ref_repr"
  | RankPart "nat option"
  | OtherPart 'b

record ('l, 'r, 'b) multipart =
  mp_body :: 'b
  mp_parts :: "('l, 'r, 'b) part list"

record 'l cast_destination =
  cd_point :: point
  cd_base_rank :: nat
  cd_actor :: "'l actor_addr"

datatype 'l cast_route = ViaCastActor "'l actor_addr" | DirectTo "'l cast_destination"

record 'l cast_hop =
  hop_local :: "'l cast_destination"
  hop_next :: "'l cast_route list"

record 'l create_cast_domain =
  cc_domain :: uid
  cc_region :: region
  cc_policy :: tiling_policy
  cc_tile :: "'l actor_addr wire_tile"

record ('l, 'r, 'b) cast_message =
  cm_domain :: uid
  cm_sender :: "'l actor_addr"
  cm_session :: uuid
  cm_seqs :: "nat value_mesh"
  cm_headers :: "'l flattrs"
  cm_dest_port :: nat
  cm_data :: "('l, 'r, 'b) multipart"

record 'l destroy_cast_domain =
  dc_domain :: uid
  dc_origin :: "'l actor_addr"

datatype ('l, 'r, 'b) wire =
    WCreate "'l create_cast_domain"
  | WCast "('l, 'r, 'b) cast_message"
  | WDestroy "'l destroy_cast_domain"
  | WData "('l, 'r, 'b) multipart"
  | WReturned "'l flattrs option" "'l actor_addr" "'l port_addr" "'l flattrs" "('l, 'r, 'b) wire"

text \<open>\<open>CastPanic\<close> is a failing \<open>expect\<close> or assertion.\<close>

datatype 'e cast_error =
    CastPanic
  | PostError "'e cx_error"
  | NotInRegion region_error
  | TileWithoutMember
  | MissingSeq nat
  | MembersMismatch
  | EmptyTile
  | SelectFailed slice_error
  | MeshFailed value_mesh_error
  | NotASubset

record ('l, 'r, 'w, 'e) runtime =
  rt_typehash :: "string \<Rightarrow> nat"
  rt_hash :: "actor_id \<Rightarrow> nat"
  rt_resolve :: "'r \<Rightarrow> ('e, ('w, 'e) reducer option) result"

definition map_error :: "('e \<Rightarrow> 'f) \<Rightarrow> ('e, 'a) result \<Rightarrow> ('f, 'a) result" where
  "map_error f r = map_sum f id r"

definition lift_cx :: "(('l, 'w, 'e) cx, 'e cx_error, 'a) action \<Rightarrow> (('l, 'w, 'e) cx, 'e cast_error, 'a) action" where
  "lift_cx m = (\<lambda>cx. case m cx of (r, cx1) \<Rightarrow> (map_error PostError r, cx1))"

definition lift_result :: "('e, 'a) result \<Rightarrow> ('s, 'e, 'a) action" where
  "lift_result r = (\<lambda>s. (r, s))"

fun for_each :: "('a \<Rightarrow> ('s, 'e, 'b) action) \<Rightarrow> 'a list \<Rightarrow> ('s, 'e, 'b list) action" where
  "for_each f [] = return_action []"
| "for_each f (x # xs) =
     bind_action (f x) (\<lambda>y. bind_action (for_each f xs) (\<lambda>ys. return_action (y # ys)))"

section \<open>Routes\<close>

definition next_tiles :: "tiling_policy \<Rightarrow> 't materialized_tile \<Rightarrow> 't materialized_tile list option" where
  "next_tiles p m = map_option (map (subtile m)) (children p (mt_tile m))"

definition CAST_ACTOR_NAME :: string where
  "CAST_ACTOR_NAME = ''cast''"

definition cast_actor_ref_for_member :: "'l actor_addr \<Rightarrow> 'l actor_addr" where
  "cast_actor_ref_for_member member =
     \<lparr>actor_addr_id = \<lparr>actor_uid = Singleton CAST_ACTOR_NAME, actor_proc = actor_proc (actor_addr_id member)\<rparr>,
      actor_addr_location = actor_addr_location member\<rparr>"

definition dest_try_from_tile ::
  "region \<Rightarrow> 'l actor_addr materialized_tile \<Rightarrow> ('e cast_error, 'l cast_destination) result" where
  "dest_try_from_tile region m =
     bind_result (map_error NotInRegion (point_of_base_rank region (root_rank (mt_tile m)))) (\<lambda>point.
     bind_result (ok_or TileWithoutMember (root_item m)) (\<lambda>actor.
       Inr \<lparr>cd_point = point, cd_base_rank = root_rank (mt_tile m), cd_actor = actor\<rparr>))"

definition dest_seq :: "'l cast_destination \<Rightarrow> nat value_mesh \<Rightarrow> ('e cast_error, nat) result" where
  "dest_seq d seqs = ok_or (MissingSeq (cd_base_rank d)) (get_by_base_rank seqs (cd_base_rank d))"

definition route_try_from_tile :: "region \<Rightarrow> tiling_policy \<Rightarrow> 'l actor_addr materialized_tile
    \<Rightarrow> ('e cast_error, 'l cast_route) result" where
  "route_try_from_tile region p m =
     bind_result (dest_try_from_tile region m) (\<lambda>destination.
       case next_tiles p m of
         None \<Rightarrow> Inl CastPanic
       | Some ts \<Rightarrow>
           Inr (if ts = [] then DirectTo destination
                else ViaCastActor (cast_actor_ref_for_member (cd_actor destination))))"

section \<open>Posting\<close>

type_synonym ('l, 'r, 'b, 'e) cast_cx = "('l, ('l, 'r, 'b) wire, 'e) cx"
type_synonym ('l, 'r, 'b, 'e) cast_runtime = "('l, 'r, ('l, 'r, 'b) wire, 'e) runtime"
type_synonym ('l, 'r, 'b, 'e, 'a) cast_action = "(('l, 'r, 'b, 'e) cast_cx, 'e cast_error, 'a) action"

definition handler_port :: "('l, 'r, 'w, 'e) runtime \<Rightarrow> string \<Rightarrow> 'l actor_addr \<Rightarrow> 'l port_addr" where
  "handler_port rt type_name a = port_addr_of a (Handler (Instance (rt_typehash rt type_name) None))"

text \<open>\<open>actor_ref.port().post_with_headers(cx, headers, message)\<close>\<close>

definition post_to_actor :: "('l, 'r, 'b, 'e) cast_runtime \<Rightarrow> 'l actor_addr \<Rightarrow> string \<Rightarrow> 'l flattrs
    \<Rightarrow> ('l, 'r, 'b) wire \<Rightarrow> ('l, 'r, 'b, 'e, unit) cast_action" where
  "post_to_actor rt a type_name headers message =
     lift_cx (post (handler_port rt type_name a) headers message True AssignNew)"

section \<open>Splitting the ports of a message\<close>

definition split_port_part :: "('l, 'r, 'b, 'e) cast_runtime \<Rightarrow> ('l, 'r, 'b) part
    \<Rightarrow> ('l, 'r, 'b, 'e, ('l, 'r, 'b) part) cast_action" where
  "split_port_part rt part =
     (case part of
        PortPart port \<Rightarrow>
          if pr_unsplit port then return_action part
          else bind_action
            (lift_cx (split_port (rt_resolve rt) (pr_addr port) (pr_reducer_spec port) StreamingMode
              (pr_return_undeliverable port)))
            (\<lambda>split. return_action (PortPart (port\<lparr>pr_addr := split\<rparr>)))
      | _ \<Rightarrow> return_action part)"

definition split_once_port_part :: "('l, 'r, 'b, 'e) cast_runtime \<Rightarrow> nat \<Rightarrow> ('l, 'r, 'b) part
    \<Rightarrow> ('l, 'r, 'b, 'e, ('l, 'r, 'b) part) cast_action" where
  "split_once_port_part rt peer_count part =
     (case part of
        OncePortPart port \<Rightarrow>
          if op_unsplit port \<or> op_reducer_spec port = None then return_action part
          else bind_action
            (lift_cx (split_port (rt_resolve rt) (op_addr port) (op_reducer_spec port) (OnceMode peer_count) True))
            (\<lambda>split. return_action (OncePortPart (port\<lparr>op_addr := split\<rparr>)))
      | _ \<Rightarrow> return_action part)"

definition split_ports :: "('l, 'r, 'b, 'e) cast_runtime \<Rightarrow> ('l, 'r, 'b) multipart \<Rightarrow> nat \<Rightarrow> bool
    \<Rightarrow> ('l, 'r, 'b, 'e, ('l, 'r, 'b) multipart) cast_action" where
  "split_ports rt data num_next_hops deliver_here =
     bind_action (for_each (split_port_part rt) (mp_parts data)) (\<lambda>parts.
     bind_action (for_each (split_once_port_part rt (num_next_hops + (if deliver_here then 1 else 0))) parts) (\<lambda>parts.
       return_action (data\<lparr>mp_parts := parts\<rparr>)))"

section \<open>Delivery\<close>

record 'l cast_delivery =
  cv_sender :: "'l actor_addr"
  cv_session :: uuid
  cv_seq :: nat
  cv_headers :: "'l flattrs"
  cv_dest_port :: nat

definition delivery_try_from_message :: "('l, 'r, 'b) cast_message \<Rightarrow> 'l cast_destination
    \<Rightarrow> ('e cast_error, 'l cast_delivery) result" where
  "delivery_try_from_message message destination =
     bind_result (dest_seq destination (cm_seqs message)) (\<lambda>s.
       Inr \<lparr>cv_sender = cm_sender message, cv_session = cm_session message, cv_seq = s,
         cv_headers = cm_headers message, cv_dest_port = cm_dest_port message\<rparr>)"

definition stamp_rank :: "nat \<Rightarrow> ('l, 'r, 'b) part \<Rightarrow> ('l, 'r, 'b) part" where
  "stamp_rank rank part = (case part of RankPart _ \<Rightarrow> RankPart (Some rank) | _ \<Rightarrow> part)"

definition delivery_headers :: "('l, 'r, 'w, 'e) runtime \<Rightarrow> 'l cast_delivery \<Rightarrow> 'l cast_destination
    \<Rightarrow> 'l port_addr \<Rightarrow> 'l flattrs" where
  "delivery_headers rt delivery destination dest =
     (let i = Session (cv_session delivery) (cv_seq delivery);
          headers = (cv_headers delivery)(CAST_POINT \<mapsto> PointV (cd_point destination),
            CAST_ORIGINATING_SENDER \<mapsto> ActorAddrV (cv_sender delivery), SEQ_INFO \<mapsto> SeqInfoV i);
          headers = stamp_sender_actor_id_hash (rt_hash rt) headers (cv_sender delivery)
      in stamp_sender_actor_id headers i dest (cv_sender delivery))"

definition deliver_to_destination :: "('l, 'r, 'b, 'e) cast_runtime \<Rightarrow> 'l cast_delivery
    \<Rightarrow> 'l cast_destination \<Rightarrow> ('l, 'r, 'b) multipart \<Rightarrow> ('l, 'r, 'b, 'e, unit) cast_action" where
  "deliver_to_destination rt delivery destination data =
     (let rank = pt_rank (cd_point destination);
          data = data\<lparr>mp_parts := map (stamp_rank rank) (mp_parts data)\<rparr>;
          dest = port_addr_of (cd_actor destination) (Handler (Instance (cv_dest_port delivery) None))
      in lift_cx (post dest (delivery_headers rt delivery destination dest) (WData data) True AllowExternal))"

section \<open>The cast actor\<close>

text \<open>A map keyed by \<open>CastDomainId\<close> is keyed by the canonical representative of its uid.\<close>

type_synonym 'l cast_actor = "uid \<rightharpoonup> 'l cast_hop"

definition route_next_hop :: "('l, 'r, 'b, 'e) cast_runtime \<Rightarrow> ('l, 'r, 'b) cast_message
    \<Rightarrow> ('l, 'r, 'b) multipart \<Rightarrow> 'l cast_route \<Rightarrow> ('l, 'r, 'b, 'e, unit) cast_action" where
  "route_next_hop rt message data next_hop =
     (case next_hop of
        ViaCastActor a \<Rightarrow>
          post_to_actor rt a ''CastMessage'' (cm_headers message) (WCast (message\<lparr>cm_data := data\<rparr>))
      | DirectTo destination \<Rightarrow>
          bind_action (lift_result (delivery_try_from_message message destination)) (\<lambda>delivery.
            deliver_to_destination rt delivery destination data))"

definition route_cast_message :: "('l, 'r, 'b, 'e) cast_runtime \<Rightarrow> ('l, 'r, 'b) cast_message
    \<Rightarrow> 'l cast_hop \<Rightarrow> ('l, 'r, 'b, 'e, unit) cast_action" where
  "route_cast_message rt message domain =
     bind_action (split_ports rt (cm_data message) (length (hop_next domain)) True) (\<lambda>data.
     bind_action (lift_result (delivery_try_from_message message (hop_local domain))) (\<lambda>delivery.
     bind_action (deliver_to_destination rt delivery (hop_local domain) data) (\<lambda>_.
     bind_action (for_each (route_next_hop rt message data) (hop_next domain)) (\<lambda>_.
       return_action ()))))"

text \<open>The failure a returned message carries is annotated with the phase.\<close>

definition annotate_cast_failure :: "'l flattrs option \<Rightarrow> 'l actor_addr \<Rightarrow> string \<Rightarrow> 'l actor_addr
    \<Rightarrow> 'l port_addr \<Rightarrow> 'l flattrs option" where
  "annotate_cast_failure failure cast_actor phase origin return_port =
     map_option (\<lambda>attrs. attrs(CAST_FAILURE_PHASE \<mapsto> StringV phase,
       CAST_FAILURE_CAST_ACTOR \<mapsto> ActorAddrV cast_actor, CAST_FAILURE_ORIGIN \<mapsto> ActorAddrV origin,
       CAST_FAILURE_RETURN_PORT \<mapsto> PortAddrV return_port)) failure"

definition return_to_origin :: "('l, 'r, 'b, 'e) cast_runtime \<Rightarrow> 'l flattrs option \<Rightarrow> 'l actor_addr
    \<Rightarrow> 'l port_addr \<Rightarrow> 'l flattrs \<Rightarrow> ('l, 'r, 'b) wire \<Rightarrow> string \<Rightarrow> 'l actor_addr
    \<Rightarrow> ('l, 'r, 'b, 'e, unit) cast_action" where
  "return_to_origin rt failure sender dest headers data phase origin cx =
     (let return_port = handler_port rt ''Undeliverable'' origin;
          failure = annotate_cast_failure failure (cx_actor cx) phase origin return_port;
          headers = headers(CAST_ORIGINATING_SENDER \<mapsto> ActorAddrV origin)
      in post_to_actor rt origin ''Undeliverable'' Map.empty (WReturned failure sender dest headers data) cx)"

text \<open>\<open>return_cast_error_to_origin\<close>: the returned envelope has the headers of the message being
  handled and a new failure, which names no attributes yet.\<close>

definition return_cast_error_to_origin :: "('l, 'r, 'b, 'e) cast_runtime \<Rightarrow> 'l flattrs
    \<Rightarrow> ('l, 'r, 'b) cast_message \<Rightarrow> string \<Rightarrow> ('l, 'r, 'b, 'e, unit) cast_action" where
  "return_cast_error_to_origin rt headers message phase cx =
     return_to_origin rt (Some Map.empty) (cm_sender message) (handler_port rt ''CastMessage'' (cx_actor cx))
       headers (WCast message) phase (cm_sender message) cx"

text \<open>\<open>handle_undeliverable_message\<close> and \<open>handle_invalid_reference\<close> for a returned envelope.\<close>

definition return_delivery_failure_to_origin :: "('l, 'r, 'b, 'e) cast_runtime \<Rightarrow> 'l flattrs option
    \<Rightarrow> ('l, ('l, 'r, 'b) wire) envelope \<Rightarrow> ('l, 'r, 'b, 'e, unit) cast_action" where
  "return_delivery_failure_to_origin rt failure e =
     (case env_data e of
        WCast message \<Rightarrow>
          return_to_origin rt failure (env_sender e) (env_dest e) (env_headers e) (env_data e) ''forward'' (cm_sender message)
      | WDestroy message \<Rightarrow>
          return_to_origin rt failure (env_sender e) (env_dest e) (env_headers e) (env_data e) ''destroy'' (dc_origin message)
      | _ \<Rightarrow>
          (case env_headers e CAST_ORIGINATING_SENDER of
             Some (ActorAddrV sender) \<Rightarrow>
               return_to_origin rt failure (env_sender e) (env_dest e) (env_headers e) (env_data e) ''deliver_here'' sender
           | _ \<Rightarrow> return_action ()))"

definition handle_cast_message :: "('l, 'r, 'b, 'e) cast_runtime \<Rightarrow> 'l flattrs \<Rightarrow> ('l, 'r, 'b) cast_message
    \<Rightarrow> 'l cast_actor \<Rightarrow> ('l, 'r, 'b, 'e, 'l cast_actor) cast_action" where
  "handle_cast_message rt headers message installed_hops cx =
     (case installed_hops (uid_key (cm_domain message)) of
        None \<Rightarrow>
          bind_action (return_cast_error_to_origin rt headers message ''unknown_domain'')
            (\<lambda>_. return_action installed_hops) cx
      | Some domain \<Rightarrow>
          (case route_cast_message rt message domain cx of
             (Inr _, cx1) \<Rightarrow> (Inr installed_hops, cx1)
           | (Inl CastPanic, cx1) \<Rightarrow> (Inl CastPanic, cx1)
           | (Inl (PostError SeqInfoAlreadySet), cx1) \<Rightarrow> (Inl (PostError SeqInfoAlreadySet), cx1)
           | (Inl _, cx1) \<Rightarrow>
               bind_action (return_cast_error_to_origin rt headers message ''route'')
                 (\<lambda>_. return_action installed_hops) cx1))"

definition setup_next_tile :: "('l, 'r, 'b, 'e) cast_runtime \<Rightarrow> 'l create_cast_domain \<Rightarrow> 'l flattrs
    \<Rightarrow> 'l actor_addr materialized_tile \<Rightarrow> ('l, 'r, 'b, 'e, 'l cast_route) cast_action" where
  "setup_next_tile rt message headers next_tile =
     bind_action (lift_result (route_try_from_tile (cc_region message) (cc_policy message) next_tile)) (\<lambda>next_hop.
       case next_hop of
         DirectTo _ \<Rightarrow> return_action next_hop
       | ViaCastActor a \<Rightarrow>
           (case mt_serialize next_tile of
              None \<Rightarrow> fail CastPanic
            | Some w \<Rightarrow>
                bind_action (post_to_actor rt a ''CreateCastDomain'' headers (WCreate (message\<lparr>cc_tile := w\<rparr>)))
                  (\<lambda>_. return_action next_hop)))"

text \<open>Deserialization of the message comes before the handler; a tile that does not parse never
  reaches it.\<close>

definition handle_create :: "('l, 'r, 'b, 'e) cast_runtime \<Rightarrow> 'l create_cast_domain
    \<Rightarrow> 'l cast_actor \<Rightarrow> ('l, 'r, 'b, 'e, 'l cast_actor) cast_action" where
  "handle_create rt message installed_hops =
     bind_action (lift_result (map_error MeshFailed (mt_deserialize (cc_tile message)))) (\<lambda>tile.
       if installed_hops (uid_key (cc_domain message)) \<noteq> None then return_action installed_hops
       else case next_tiles (cc_policy message) tile of
         None \<Rightarrow> fail CastPanic
       | Some ts \<Rightarrow>
           bind_action (for_each (setup_next_tile rt message Map.empty) ts) (\<lambda>next_hops.
           bind_action (lift_result (dest_try_from_tile (cc_region message) tile)) (\<lambda>destination.
             return_action (installed_hops(uid_key (cc_domain message) \<mapsto>
               \<lparr>hop_local = destination, hop_next = next_hops\<rparr>)))))"

definition forward_destroy :: "('l, 'r, 'b, 'e) cast_runtime \<Rightarrow> 'l destroy_cast_domain \<Rightarrow> 'l cast_route
    \<Rightarrow> ('l, 'r, 'b, 'e, unit) cast_action" where
  "forward_destroy rt message next_hop =
     (case next_hop of
        DirectTo _ \<Rightarrow> return_action ()
      | ViaCastActor a \<Rightarrow> post_to_actor rt a ''DestroyCastDomain'' Map.empty (WDestroy message))"

definition handle_destroy :: "('l, 'r, 'b, 'e) cast_runtime \<Rightarrow> 'l destroy_cast_domain
    \<Rightarrow> 'l cast_actor \<Rightarrow> ('l, 'r, 'b, 'e, 'l cast_actor) cast_action" where
  "handle_destroy rt message installed_hops =
     (case installed_hops (uid_key (dc_domain message)) of
        None \<Rightarrow> return_action installed_hops
      | Some hop \<Rightarrow>
          bind_action (for_each (forward_destroy rt message) (hop_next hop)) (\<lambda>_.
            return_action (installed_hops(uid_key (dc_domain message) := None))))"

section \<open>The sender\<close>

record 'l cast_subtree =
  cs_route :: "'l cast_route"
  cs_region :: region

record 'l cast_domain_ref =
  dr_id :: uid
  dr_subtrees :: "'l cast_subtree list"
  dr_members :: "'l actor_addr value_mesh"

fun root_point_loop :: "slice \<Rightarrow> nat list \<Rightarrow> (slice_error, slice) result" where
  "root_point_loop s [] = Inr s"
| "root_point_loop s (dim # ds) = bind_result (slice_select s dim 0 1 1) (\<lambda>t. root_point_loop t ds)"

definition subtree_of_tile :: "region \<Rightarrow> tiling_policy \<Rightarrow> 'l actor_addr materialized_tile \<Rightarrow> tile
    \<Rightarrow> ('e cast_error, 'l cast_subtree) result" where
  "subtree_of_tile region p root_tile t =
     bind_result (route_try_from_tile region p (subtile root_tile t)) (\<lambda>route.
       Inr \<lparr>cs_route = route, cs_region = region_new (reg_labels region) (tile_space t)\<rparr>)"

definition setup_subtree :: "('l, 'r, 'b, 'e) cast_runtime \<Rightarrow> uid \<Rightarrow> region \<Rightarrow> tiling_policy \<Rightarrow> 'l flattrs
    \<Rightarrow> 'l actor_addr materialized_tile \<Rightarrow> 'l cast_subtree \<Rightarrow> ('l, 'r, 'b, 'e, unit) cast_action" where
  "setup_subtree rt d region p headers root_tile subtree =
     (case cs_route subtree of
        DirectTo _ \<Rightarrow> return_action ()
      | ViaCastActor a \<Rightarrow>
          (case mt_serialize (subtile root_tile (Tile (reg_slice (cs_region subtree)))) of
             None \<Rightarrow> fail CastPanic
           | Some w \<Rightarrow>
               post_to_actor rt a ''CreateCastDomain'' headers
                 (WCreate \<lparr>cc_domain = d, cc_region = region, cc_policy = p, cc_tile = w\<rparr>)))"

definition materialize_members :: "('l, 'r, 'b, 'e) cast_runtime \<Rightarrow> uid \<Rightarrow> 'l actor_addr value_mesh \<Rightarrow> region
    \<Rightarrow> tiling_policy \<Rightarrow> 'l flattrs \<Rightarrow> ('l, 'r, 'b, 'e, 'l cast_domain_ref) cast_action" where
  "materialize_members rt d member_mesh region p headers =
     (let root_tile = from_value_mesh_with_tile (Tile (reg_slice region)) member_mesh in
      if slice_len (reg_slice region) = 0 then fail EmptyTile
      else
        bind_action (lift_result (map_error SelectFailed
          (root_point_loop (reg_slice region) [0..<length (sizes (reg_slice region))]))) (\<lambda>root_point.
        case children p (Tile (reg_slice region)) of
          None \<Rightarrow> fail CastPanic
        | Some ts \<Rightarrow>
            bind_action (lift_result (collect_result (subtree_of_tile region p root_tile) (Tile root_point # ts)))
              (\<lambda>subtrees.
            bind_action (for_each (setup_subtree rt d region p headers root_tile) subtrees) (\<lambda>_.
              return_action \<lparr>dr_id = d, dr_subtrees = subtrees, dr_members = member_mesh\<rparr>))))"

text \<open>The members are the entries of a hash map.\<close>

definition materialize :: "('l, 'r, 'b, 'e) cast_runtime \<Rightarrow> uid \<Rightarrow> (nat \<times> 'l actor_addr) list \<Rightarrow> region
    \<Rightarrow> tiling_policy \<Rightarrow> 'l flattrs \<Rightarrow> ('l, 'r, 'b, 'e, 'l cast_domain_ref) cast_action" where
  "materialize rt d members region p headers =
     (case slice_iter (reg_slice region) of
        Inl _ \<Rightarrow> fail CastPanic
      | Inr rs \<Rightarrow>
          if length members \<noteq> num_ranks (reg_slice region) \<or> \<not> list_all (\<lambda>r. map_of members r \<noteq> None) rs
          then fail MembersMismatch
          else bind_action (lift_result (map_error MeshFailed
              (vm_new (reg_slice region) (map (\<lambda>r. the (map_of members r)) rs)))) (\<lambda>member_mesh.
            materialize_members rt d member_mesh region p headers))"

text \<open>\<open>members.subset(region)?\<close> fails unless the ranks of the region are a subset.\<close>

definition materialize_slice :: "('l, 'r, 'b, 'e) cast_runtime \<Rightarrow> uid \<Rightarrow> 'l cast_domain_ref \<Rightarrow> region
    \<Rightarrow> tiling_policy \<Rightarrow> ('l, 'r, 'b, 'e, 'l cast_domain_ref) cast_action" where
  "materialize_slice rt slice_id dr region p =
     (if \<not> is_subset (reg_slice region) (vm_region (dr_members dr)) then fail NotASubset
      else case sliced (dr_members dr) (reg_slice region) of
        None \<Rightarrow> fail CastPanic
      | Some m \<Rightarrow> materialize_members rt slice_id m region p Map.empty)"

definition vm_values :: "'v value_mesh \<Rightarrow> 'v list option" where
  "vm_values m = those (map (vm_get m) [0..<num_ranks (vm_region m)])"

definition seqs_for_cast :: "nat \<Rightarrow> 'l cast_domain_ref
    \<Rightarrow> ('l, 'r, 'b, 'e, uuid \<times> nat value_mesh) cast_action" where
  "seqs_for_cast max_locked dr cx =
     (case vm_values (dr_members dr) of
        None \<Rightarrow> (Inl CastPanic, cx)
      | Some members \<Rightarrow>
          (let (rs, s) = assign_seqs max_locked (cx_sequencer cx) (map for_handler members);
               cx1 = cx\<lparr>cx_sequencer := s\<rparr>
           in case from_ranges_with_default (vm_region (dr_members dr)) 0 rs of
                Inl e \<Rightarrow> (Inl (MeshFailed e), cx1)
              | Inr seqs \<Rightarrow> (Inr (session_id s, seqs), cx1)))"

definition cast_to_subtree :: "('l, 'r, 'b, 'e) cast_runtime \<Rightarrow> ('l, 'r, 'b) cast_message
    \<Rightarrow> 'l cast_subtree \<times> nat value_mesh \<Rightarrow> ('l, 'r, 'b, 'e, unit) cast_action" where
  "cast_to_subtree rt message sub =
     route_next_hop rt (message\<lparr>cm_seqs := snd sub\<rparr>) (cm_data message) (cs_route (fst sub))"

definition cast :: "('l, 'r, 'b, 'e) cast_runtime \<Rightarrow> nat \<Rightarrow> 'l cast_domain_ref \<Rightarrow> 'l flattrs
    \<Rightarrow> nat \<Rightarrow> ('l, 'r, 'b) multipart \<Rightarrow> ('l, 'r, 'b, 'e, unit) cast_action" where
  "cast rt max_locked dr headers dest_port data cx =
     bind_action (seqs_for_cast max_locked dr) (\<lambda>(sid, seqs).
       case those (map (\<lambda>subtree. sliced seqs (reg_slice (cs_region subtree))) (dr_subtrees dr)) of
         None \<Rightarrow> fail CastPanic
       | Some subtree_seqs \<Rightarrow>
           bind_action (split_ports rt data (length (dr_subtrees dr)) False) (\<lambda>data.
           bind_action (for_each (cast_to_subtree rt \<lparr>cm_domain = dr_id dr, cm_sender = cx_actor cx, cm_session = sid,
               cm_seqs = seqs, cm_headers = headers, cm_dest_port = dest_port, cm_data = data\<rparr>)
             (zip (dr_subtrees dr) subtree_seqs)) (\<lambda>_. return_action ()))) cx"

definition destroy_subtree :: "('l, 'r, 'b, 'e) cast_runtime \<Rightarrow> 'l destroy_cast_domain \<Rightarrow> 'l cast_subtree
    \<Rightarrow> ('l, 'r, 'b, 'e, unit) cast_action" where
  "destroy_subtree rt message subtree = forward_destroy rt message (cs_route subtree)"

definition destroy :: "('l, 'r, 'b, 'e) cast_runtime \<Rightarrow> 'l cast_domain_ref \<Rightarrow> ('l, 'r, 'b, 'e, unit) cast_action" where
  "destroy rt dr cx =
     bind_action (for_each (destroy_subtree rt \<lparr>dc_domain = dr_id dr, dc_origin = cx_actor cx\<rparr>) (dr_subtrees dr))
       (\<lambda>_. return_action ()) cx"

end
