(* ===== verification/Cast_Tree.thy ===== *)
theory Cast_Tree
  imports Tile_Props Mesh_Slicing Cast
begin

text \<open>
  The communication tree of a cast domain. Every tile of the tree is a box of the region: it
  keeps the strides and cuts an interval out of each dimension, so slicing a mesh over the
  region to a tile never fails. Tiles of the tree have distinct roots and one parent each, and
  the ranks of a tile are its root and the ranks of its children.
\<close>

section \<open>Boxes\<close>

definition box :: "slice \<Rightarrow> slice \<Rightarrow> bool" where
  "box s t \<longleftrightarrow> slice_inv t \<and> strides t = strides s \<and>
     (\<exists>lo. length lo = length (sizes s) \<and> offset t = offset s + dot lo (strides s) \<and>
        (\<forall>i < length (sizes s). lo ! i + sizes t ! i \<le> sizes s ! i))"

lemma box_refl: "slice_inv s \<Longrightarrow> box s s"
  unfolding box_def by (auto intro!: exI [of _ "replicate (length (sizes s)) 0"] simp: dot_zero)

lemma box_inv: "box s t \<Longrightarrow> slice_inv t"
  by (simp add: box_def)

lemma box_length: "box s t \<Longrightarrow> slice_inv s \<Longrightarrow> length (sizes t) = length (sizes s)"
  by (simp add: box_def slice_inv_def)

lemma box_trans:
  assumes "slice_inv s" "box s t" "box t u"
  shows "box s u"
proof -
  let ?n = "length (sizes s)"
  have n: "length (sizes t) = ?n" "length (strides s) = ?n" using assms by (auto simp: box_def slice_inv_def)
  obtain lo where lo: "length lo = ?n" "offset t = offset s + dot lo (strides s)"
    "\<forall>i < ?n. lo ! i + sizes t ! i \<le> sizes s ! i" using assms(2) unfolding box_def by blast
  obtain mo where mo: "length mo = ?n" "offset u = offset t + dot mo (strides t)"
    "\<forall>i < ?n. mo ! i + sizes u ! i \<le> sizes t ! i" using assms(3) n unfolding box_def by auto
  define no where "no = map2 (+) lo mo"
  have "dot no (strides s) = dot lo (strides s) + dot mo (strides s)"
    using lo(1) mo(1) n by (simp add: no_def dot_nth algebra_simps sum.distrib)
  moreover have "no ! i + sizes u ! i \<le> sizes s ! i" if "i < ?n" for i
  proof -
    have "lo ! i + sizes t ! i \<le> sizes s ! i" "mo ! i + sizes u ! i \<le> sizes t ! i" using lo(3) mo(3) that by auto
    moreover have "no ! i = lo ! i + mo ! i" using that lo(1) mo(1) by (simp add: no_def)
    ultimately show ?thesis by linarith
  qed
  ultimately show ?thesis
    using assms lo mo unfolding box_def by (auto intro!: exI [of _ no] simp: no_def)
qed

lemma select_box:
  assumes "slice_inv s" "dim < length (sizes s)" "lo < hi" "hi \<le> sizes s ! dim"
  shows "\<exists>t. slice_select s dim lo hi 1 = Inr t \<and> box s t \<and> sizes t = (sizes s)[dim := hi - lo]"
proof -
  let ?t = "\<lparr>offset = offset s + lo * strides s ! dim, sizes = (sizes s)[dim := hi - lo], strides = strides s\<rparr>"
  have t: "slice_select s dim lo hi 1 = Inr ?t" using slice_select_unit [OF assms] .
  let ?lo = "(replicate (length (sizes s)) 0)[dim := lo]"
  have "dot ?lo (strides s) = lo * strides s ! dim"
    using assms(1,2) dot_update [of dim "replicate (length (sizes s)) 0" "strides s" lo]
    by (simp add: slice_inv_def dot_zero)
  moreover have "\<forall>i < length (sizes s). ?lo ! i + sizes ?t ! i \<le> sizes s ! i"
  proof (intro allI impI)
    fix i
    assume "i < length (sizes s)"
    then show "?lo ! i + sizes ?t ! i \<le> sizes s ! i" using assms(3,4) by (cases "i = dim") simp_all
  qed
  ultimately have "box s ?t"
    using slice_select_inv [OF t assms(1)] unfolding box_def by (auto intro!: exI [of _ ?lo])
  with t show ?thesis by (intro exI [of _ ?t]) simp
qed

lemma select_tile_box:
  assumes "slice_inv s" "dim < length (sizes s)" "lo < hi" "hi \<le> sizes s ! dim" "select_tile s dim lo hi = Some t"
  shows "box s (tile_space t)"
  using select_box [OF assms(1-4)] assms(5) by (auto simp: select_tile_def)

lemma fix_dims_box:
  "slice_inv s \<Longrightarrow> \<forall>d \<in> fst ` set ds. d < length (sizes s) \<Longrightarrow> fix_dims s ds = Some t \<Longrightarrow> box s t"
proof (induction ds arbitrary: s)
  case Nil
  then show ?case by (simp add: box_refl)
next
  case (Cons e ds)
  obtain d n where e: "e = (d, n)" by (cases e)
  have d: "d < length (sizes s)" "1 \<le> sizes s ! d"
    using Cons.prems slice_inv_pos(2) [of s d] by (auto simp: e)
  obtain u where u: "slice_select s d 0 1 1 = Inr u" "box s u" "sizes u = (sizes s)[d := 1]"
    using select_box [OF Cons.prems(1) d(1) _ d(2)] by auto
  have "box u t" using Cons.IH [OF box_inv [OF u(2)]] Cons.prems u by (auto simp: e)
  then show ?case using box_trans [OF Cons.prems(1) u(2)] by blast
qed

section \<open>Boxes have relative ordinals\<close>

lemma row_major_le:
  assumes "\<forall>n \<in> set szs. 0 < n" "i < length szs"
  shows "row_major_strides szs ! i \<le> prod_list szs"
proof -
  have "row_major_strides szs ! i = prod_list (drop (Suc i) szs)" using assms(2) by (rule nth_row_major_strides)
  moreover have "prod_list szs = prod_list (take (Suc i) szs) * prod_list (drop (Suc i) szs)"
    by (metis append_take_drop_id prod_list.append)
  moreover have "0 < prod_list (take (Suc i) szs)"
  proof -
    have "\<forall>n \<in> set (take (Suc i) szs). 0 < n" using assms(1) set_take_subset by fastforce
    then have "0 \<notin> set (take (Suc i) szs)" by auto
    then show ?thesis using prod_list_zero_iff [of "take (Suc i) szs"] by (auto intro: gr_zeroI)
  qed
  ultimately show ?thesis by simp
qed

lemma box_relative:
  assumes "slice_inv s" "box s t" "slice_len s < usize_bound" "\<forall>n \<in> set (sizes s). n < usize_bound"
  shows "\<exists>u. relative_ordinal_slice t s = Inr u"
proof -
  let ?n = "length (sizes s)" and ?rm = "row_major_strides (sizes s)"
  obtain lo where lo: "length lo = ?n" "offset t = offset s + dot lo (strides s)"
    "\<forall>i < ?n. lo ! i + sizes t ! i \<le> sizes s ! i" using assms(2) unfolding box_def by blast
  have t: "slice_inv t" "strides t = strides s" "length (sizes t) = ?n" "length (strides s) = ?n"
    using assms(1,2) by (auto simp: box_def slice_inv_def)
  have pos: "0 < sizes t ! i" "0 < strides s ! i" if "i < ?n" for i
    using slice_inv_pos [of t i] t that by auto
  have lt: "lo ! i < sizes s ! i" if "i < ?n" for i using lo(3) pos [OF that] that by force
  have "in_range s lo" using lo(1) lt by (intro in_rangeI) auto
  then have c: "coordinates s (offset t) = Inr lo" using coordinates_complete [OF assms(1)] lo(2) by simp
  then have idx: "slice_index s (offset t) = Inr (ordinal (sizes s) lo)"
    using slice_index_eq [of s "offset t"] t(4) by simp
  have "relative_stride t s lo ?rm (i, sizes t ! i) = Inr (?rm ! i)" if i: "i < ?n" for i
  proof (cases "sizes t ! i = 1")
    case True
    then show ?thesis by (simp add: relative_stride_def)
  next
    case False
    have "lo ! i + sizes t ! i \<le> sizes s ! i" using lo(3) i by blast
    moreover have "sizes s ! i < usize_bound" using assms(4) i by simp
    ultimately have b: "sizes t ! i - 1 < usize_bound" "lo ! i + (sizes t ! i - 1) < usize_bound"
      "lo ! i + (sizes t ! i - 1) < sizes s ! i" using pos [OF i] by linarith+
    have r: "?rm ! i < usize_bound"
      using row_major_le [of "sizes s" i] assms(1,3) i by (simp add: slice_inv_def slice_len_def)
    have "strides t ! i = strides s ! i" "strides s ! i div strides s ! i = 1" using t(2) pos [OF i] by auto
    then show ?thesis
      using False b r pos [OF i] by (simp add: relative_stride_def Let_def checked_sub_def checked_mul_def checked_add_def)
  qed
  then have "collect_result (relative_stride t s lo ?rm) (enumerate 0 (sizes t)) = Inr ?rm"
    using t(3) by (simp add: collect_result_Inr list_all2_conv_all_nth nth_enumerate_eq)
  moreover have "\<exists>u. slice_new (ordinal (sizes s) lo) (sizes t) ?rm = Inr u"
  proof -
    have l: "layout (zip ?rm (sizes s))"
      using new_row_major_inv [of "sizes s"] assms(1) by (simp add: slice_inv_def new_row_major_def)
    have le: "sizes t ! i \<le> sizes s ! i" if "i < ?n" for i using lo(3) that by fastforce
    have "list_all2 (\<lambda>a b. fst b = fst a \<and> snd b \<le> snd a) (zip ?rm (sizes s)) (zip ?rm (sizes t))"
      using t(3) le by (simp add: list_all2_conv_all_nth)
    then have "layout (zip ?rm (sizes t))" using layout_shrink [OF l] by blast
    moreover have "\<forall>n \<in> set (sizes t). 0 < n" using t(1) by (simp add: slice_inv_def)
    ultimately show ?thesis using slice_new_iff [of "sizes t"] t(3) by (simp add: slice_inv_def)
  qed
  ultimately show ?thesis
    using c idx t(3) by (simp add: relative_ordinal_slice_def num_dim_def new_row_major_def)
qed

section \<open>Children are boxes\<close>

locale box_tiling = tiling nodes kids for nodes kids +
  assumes nodes_box: "slice_inv (tile_space t) \<Longrightarrow> nodes t = Some ns \<Longrightarrow> n \<in> set ns \<Longrightarrow>
    box (tile_space t) (tile_space (node_tile n))"
begin

lemma kids_box:
  "slice_inv (tile_space t) \<Longrightarrow> kids t = Some cs \<Longrightarrow> c \<in> set cs \<Longrightarrow> box (tile_space t) (tile_space c)"
proof (induction "sum_list (sizes (tile_space t))" arbitrary: t cs rule: less_induct)
  case less
  show ?case
  proof (cases "is_leaf t")
    case True
    then show ?thesis using less.prems(2,3) kids_leaf by simp
  next
    case False
    obtain ns where ns: "nodes t = Some ns" "good_split t ns"
      using nodes_split [OF less.prems(1) False] by blast
    obtain sibs a sp where a: "ns = sibs @ [a]" "\<forall>n \<in> set sibs. is_sibling n" "node_relation a = Anchor sp"
      using ns(2) by (auto simp: good_split_def)
    have box: "box (tile_space t) (tile_space (node_tile n))" if "n \<in> set ns" for n
      using nodes_box [OF less.prems(1) ns(1) that] .
    have ba: "box (tile_space t) (tile_space (node_tile a))" using box a(1) by simp
    obtain ds where ds: "kids (node_tile a) = Some ds" using kids_partition [OF box_inv [OF ba]] by blast
    have "cs = map node_tile sibs @ ds" using kids_split [OF _ a(2,3) ds] ns(1) a(1) less.prems(2) by simp
    then consider n where "n \<in> set sibs" "c = node_tile n" | "c \<in> set ds" using less.prems(3) by auto
    then show ?thesis
    proof cases
      case 1
      then show ?thesis using box a(1) by simp
    next
      case 2
      have "sum_list (sizes (tile_space (node_tile a))) < sum_list (sizes (tile_space t))"
        using anchor_less [OF ns(1) _ a(3)] a(1) by simp
      then have "box (tile_space (node_tile a)) (tile_space c)"
        using less.hyps box_inv [OF ba] ds 2 by blast
      then show ?thesis using box_trans [OF less.prems(1) ba] by blast
    qed
  qed
qed

end

lemma block_box:
  assumes "slice_inv (tile_space t)" "block_child_nodes t = Some ns" "n \<in> set ns"
  shows "box (tile_space t) (tile_space (node_tile n))"
proof -
  let ?s = "tile_space t"
  obtain dim where d: "first_non_singleton_dim ?s = Some dim"
    using assms(2,3) by (cases "first_non_singleton_dim ?s") (auto simp: block_child_nodes_def)
  note D = first_non_singleton_dim_Some [OF d]
  have "(\<exists>i \<in> {1..<sizes ?s ! dim}. select_tile ?s dim i (i + 1) = Some (node_tile n)) \<or>
      select_tile ?s dim 0 1 = Some (node_tile n)"
    using assms(2,3) d by (auto simp: block_child_nodes_def Let_def those_mem)
  then obtain i where "i < sizes ?s ! dim" "select_tile ?s dim i (i + 1) = Some (node_tile n)"
    using D by force
  then show ?thesis using select_tile_box [OF assms(1), of dim i "i + 1" "node_tile n"] D by simp
qed

lemma bisection_box:
  assumes "slice_inv (tile_space t)" "bisection_child_nodes t = Some ns" "n \<in> set ns"
  shows "box (tile_space t) (tile_space (node_tile n))"
proof -
  let ?s = "tile_space t"
  obtain dim where d: "first_non_singleton_dim ?s = Some dim"
    using assms(2,3) by (cases "first_non_singleton_dim ?s") (auto simp: bisection_child_nodes_def)
  note D = first_non_singleton_dim_Some [OF d]
  let ?n = "sizes ?s ! dim"
  have "select_tile ?s dim (?n div 2) ?n = Some (node_tile n) \<or> select_tile ?s dim 0 (?n div 2) = Some (node_tile n)"
    using assms(2,3) d
    by (cases "select_tile ?s dim (?n div 2) ?n"; cases "select_tile ?s dim 0 (?n div 2)")
      (auto simp: bisection_child_nodes_def Let_def)
  moreover have "?n div 2 < ?n" "0 < ?n div 2" using D by auto
  ultimately show ?thesis
    using select_tile_box [OF assms(1), of dim "?n div 2" ?n] select_tile_box [OF assms(1), of dim 0 "?n div 2"] D by auto
qed

lemma bounded_box:
  assumes "slice_inv (tile_space t)" "bounded_child_nodes f t = Some ns" "n \<in> set ns"
  shows "box (tile_space t) (tile_space (node_tile n))"
proof -
  let ?s = "tile_space t" and ?ad = "active_dimensions (tile_space t)"
  let ?gs = "allocate_groups_per_slab (effective_fanout t f) ?ad"
  have gs: "\<forall>g \<in> set ?gs. 0 < g" by (auto simp: allocate_groups_per_slab_def dest: allocate_pos)
  have less: "d < length (sizes ?s)" if "d \<in> fst ` set ?ad" for d using that by (rule active_dims_less)
  have "?ad \<noteq> []" using assms(2,3) by (auto simp: bounded_child_nodes_def)
  then have "Some n \<in> set (bounded_siblings t ?ad ?gs) \<or> root_point_tile t ?ad = Some (node_tile n)"
    using assms(2,3) by (auto simp: bounded_child_nodes_def Let_def those_mem)
  then consider d b e where "(d, b, e) \<in> set (slab_keys ?ad ?gs)" "frontier_tile t ?ad d b e = Some (node_tile n)"
    | "root_point_tile t ?ad = Some (node_tile n)"
    unfolding bounded_siblings_keys by fastforce
  then show ?thesis
  proof cases
    case 1
    let ?pre = "takeWhile (\<lambda>(d', _). d' \<noteq> d) ?ad"
    note k = slab_keys_mem [OF 1(1) gs]
    have sub: "\<forall>d' \<in> fst ` set ?pre. d' < length (sizes ?s)" using less set_takeWhileD by fastforce
    obtain w where w: "fix_dims ?s ?pre = Some w" "length (sizes w) = length (sizes ?s)"
      "\<forall>d'. sizes w ! d' = (if d' \<in> fst ` set ?pre then 1 else sizes ?s ! d')"
      using fix_dims_narrows [OF assms(1) sub] by blast
    have bw: "box ?s w" using fix_dims_box [OF assms(1) sub w(1)] .
    have "d \<notin> fst ` set ?pre" using set_takeWhileD by fastforce
    then have "sizes w ! d = sizes ?s ! d" "d < length (sizes w)" using w less k by (auto simp: rev_image_eqI)
    then have "box w (tile_space (node_tile n))"
      using select_tile_box [OF box_inv [OF bw], of d b e] 1(2) w(1) k
      by (simp add: frontier_tile_def anchor_prefix_def)
    then show ?thesis using box_trans [OF assms(1) bw] by blast
  next
    case 2
    then have "fix_dims ?s ?ad = Some (tile_space (node_tile n))" by (cases "node_tile n") (auto simp: root_point_tile_def)
    then show ?thesis using fix_dims_box [OF assms(1), of ?ad] less by blast
  qed
qed

interpretation box_policy: box_tiling "child_nodes p" "children p" for p
  by unfold_locales (cases p; auto simp: child_nodes_def dest: block_box bounded_box bisection_box)

section \<open>The tree\<close>

abbreviation tranks :: "tile \<Rightarrow> nat list" where
  "tranks t \<equiv> ranks (tile_space t)"

abbreviation tinv :: "tile \<Rightarrow> bool" where
  "tinv t \<equiv> slice_inv (tile_space t)"

lemma root_in_ranks: "tinv t \<Longrightarrow> root_rank t \<in> set (tranks t)"
  using policy.kids_partition [of t BlockPartitioning] by (metis add_mset_eq_singleton_iff
      set_mset_mset union_single_eq_member)

definition kids :: "tiling_policy \<Rightarrow> tile \<Rightarrow> tile list" where
  "kids p t = the (children p t)"

lemma kids_children: "tinv t \<Longrightarrow> children p t = Some (kids p t)"
  using policy.kids_partition [of t p] by (auto simp: kids_def)

lemma kids_mset:
  "tinv t \<Longrightarrow> mset (tranks t) = add_mset (root_rank t) (\<Sum>c\<leftarrow>kids p t. mset (tranks c))"
  using policy.kids_partition [of t p] by (auto simp: kids_def slices_of_def mset_concat comp_def)

lemma kid_inv: "tinv t \<Longrightarrow> c \<in> set (kids p t) \<Longrightarrow> tinv c"
  using policy.kids_shrink kids_children by blast

lemma kid_less: "tinv t \<Longrightarrow> c \<in> set (kids p t) \<Longrightarrow> slice_len (tile_space c) < slice_len (tile_space t)"
  using policy.kids_shrink kids_children by blast

lemma kid_box: "tinv t \<Longrightarrow> c \<in> set (kids p t) \<Longrightarrow> box (tile_space t) (tile_space c)"
  using box_policy.kids_box kids_children by blast

lemma kid_ranks:
  assumes "tinv t" "c \<in> set (kids p t)"
  shows "set (tranks c) \<subseteq> set (tranks t) - {root_rank t}"
proof -
  have d: "distinct (tranks t)" using ranks_props [OF assms(1)] by blast
  obtain xs ys where k: "kids p t = xs @ c # ys" using assms(2) by (meson split_list)
  have m: "mset (tranks t) = add_mset (root_rank t) (mset (tranks c) + ((\<Sum>c\<leftarrow>xs. mset (tranks c)) + (\<Sum>c\<leftarrow>ys. mset (tranks c))))"
    using kids_mset [OF assms(1), of p] by (simp add: k ac_simps)
  then have "set (tranks c) \<subseteq> set (tranks t)" by (metis mset_subset_eq_add_left set_mset_mono set_mset_mset
        add_mset_add_single subset_mset.add_increasing2 subset_mset.le_add_same_cancel1 subset_mset.order_trans
        subset_mset.zero_le union_mset_add_mset_left)
  moreover have "root_rank t \<notin> set (tranks c)"
  proof
    assume "root_rank t \<in> set (tranks c)"
    then have "1 < count (mset (tranks t)) (root_rank t)" using m by (simp add: count_mset_gt_0)
    then show False using d by (auto simp: distinct_count_atmost_1 split: if_splits)
  qed
  ultimately show ?thesis by blast
qed

lemma part_count: "d \<in> set ts \<Longrightarrow> r \<in> set (tranks d) \<Longrightarrow> 1 \<le> count (\<Sum>c\<leftarrow>ts. mset (tranks c)) r"
  by (induction ts) (auto simp: Suc_le_eq count_mset_gt_0)

lemma kids_disjoint:
  assumes "tinv t" "c \<in> set (kids p t)" "d \<in> set (kids p t)" "r \<in> set (tranks c)" "r \<in> set (tranks d)"
  shows "c = d"
proof (rule ccontr)
  assume "c \<noteq> d"
  have dist: "distinct (tranks t)" using ranks_props [OF assms(1)] by blast
  obtain xs ys where k: "kids p t = xs @ c # ys" using assms(2) by (meson split_list)
  then have "d \<in> set xs \<or> d \<in> set ys" using assms(3) \<open>c \<noteq> d\<close> by auto
  then have "1 \<le> count ((\<Sum>c\<leftarrow>xs. mset (tranks c)) + (\<Sum>c\<leftarrow>ys. mset (tranks c))) r"
    using part_count [of d xs r, OF _ assms(5)] part_count [of d ys r, OF _ assms(5)]
    unfolding count_union by linarith
  moreover have "1 \<le> count (mset (tranks c)) r" using assms(4) by (simp add: Suc_le_eq count_mset_gt_0)
  moreover have "mset (tranks t) = add_mset (root_rank t) (mset (tranks c) + ((\<Sum>c\<leftarrow>xs. mset (tranks c)) + (\<Sum>c\<leftarrow>ys. mset (tranks c))))"
    using kids_mset [OF assms(1), of p] by (simp add: k ac_simps)
  ultimately have "1 < count (mset (tranks t)) r" by (simp only: count_add_mset count_union split: if_splits) linarith
  then show False using dist by (auto simp: distinct_count_atmost_1 split: if_splits)
qed

lemma kids_leaf_iff: "tinv t \<Longrightarrow> kids p t = [] \<longleftrightarrow> tranks t = [root_rank t]"
proof
  assume t: "tinv t"
  show "tranks t = [root_rank t]" if "kids p t = []" using kids_mset [OF t, of p] that by simp
  assume l: "tranks t = [root_rank t]"
  show "kids p t = []"
  proof (rule ccontr)
    assume "kids p t \<noteq> []"
    then obtain c where "c \<in> set (kids p t)" by (meson list.set_sel(1))
    then have "set (tranks c) = {}" using kid_ranks [OF t] l by fastforce
    then show False using root_in_ranks kid_inv [OF t \<open>c \<in> set (kids p t)\<close>] by fastforce
  qed
qed

text \<open>The tiles of the tree below a tile.\<close>

inductive desc :: "tiling_policy \<Rightarrow> tile \<Rightarrow> tile \<Rightarrow> bool" for p where
  desc_refl: "desc p t t"
| desc_kid: "desc p t u \<Longrightarrow> c \<in> set (kids p u) \<Longrightarrow> desc p t c"

lemma desc_top: "c \<in> set (kids p t) \<Longrightarrow> desc p c u \<Longrightarrow> desc p t u"
  by (rotate_tac, induction rule: desc.induct) (auto intro: desc.intros)

lemma desc_top_cases:
  "desc p t u \<Longrightarrow> u = t \<or> (\<exists>c \<in> set (kids p t). desc p c u)"
  by (induction rule: desc.induct) (auto intro: desc.intros)

lemma desc_inv: "desc p t u \<Longrightarrow> tinv t \<Longrightarrow> tinv u"
  by (induction rule: desc.induct) (auto intro: kid_inv)

lemma desc_ranks: "desc p t u \<Longrightarrow> tinv t \<Longrightarrow> set (tranks u) \<subseteq> set (tranks t)"
proof (induction rule: desc.induct)
  case (desc_kid t u c)
  then show ?case using kid_ranks [OF desc_inv [OF desc_kid.hyps(1) desc_kid.prems]] by blast
qed simp

lemma desc_len: "desc p t u \<Longrightarrow> tinv t \<Longrightarrow> slice_len (tile_space u) \<le> slice_len (tile_space t)"
proof (induction rule: desc.induct)
  case (desc_kid t u c)
  then show ?case using kid_less [OF desc_inv [OF desc_kid.hyps(1) desc_kid.prems] desc_kid.hyps(2)] by simp
qed simp

lemma desc_root_inj:
  "tinv t \<Longrightarrow> desc p t a \<Longrightarrow> desc p t b \<Longrightarrow> root_rank a = root_rank b \<Longrightarrow> a = b"
proof (induction "slice_len (tile_space t)" arbitrary: t rule: less_induct)
  case less
  have below: "root_rank u \<in> set (tranks c) \<and> root_rank u \<noteq> root_rank t"
    if "c \<in> set (kids p t)" "desc p c u" for c u
  proof -
    have "tinv c" using kid_inv [OF less.prems(1) that(1)] .
    then have "root_rank u \<in> set (tranks c)" using desc_ranks [OF that(2)] root_in_ranks desc_inv [OF that(2)] by blast
    then show ?thesis using kid_ranks [OF less.prems(1) that(1)] by blast
  qed
  consider "a = t" "b = t" | c where "a = t" "c \<in> set (kids p t)" "desc p c b"
    | c where "b = t" "c \<in> set (kids p t)" "desc p c a"
    | c d where "c \<in> set (kids p t)" "desc p c a" "d \<in> set (kids p t)" "desc p d b"
    using desc_top_cases [OF less.prems(2)] desc_top_cases [OF less.prems(3)] by blast
  then show ?case
  proof cases
    case 4
    have "c = d" using kids_disjoint [OF less.prems(1) 4(1,3)] below [OF 4(1,2)] below [OF 4(3,4)] less.prems(4) by simp
    then show ?thesis
      using less.hyps [OF kid_less [OF less.prems(1) 4(1)] kid_inv [OF less.prems(1) 4(1)]] 4 less.prems(4) by blast
  qed (use below less.prems(4) in \<open>force+\<close>)
qed

lemma desc_parent_unique:
  "tinv t \<Longrightarrow> desc p t a \<Longrightarrow> desc p t b \<Longrightarrow> c \<in> set (kids p a) \<Longrightarrow> c \<in> set (kids p b) \<Longrightarrow> a = b"
proof (induction "slice_len (tile_space t)" arbitrary: t rule: less_induct)
  case less
  have r: "root_rank c \<in> set (tranks u)" if "desc p k u" "k \<in> set (kids p t)" "c \<in> set (kids p u)" for u k
    using that kid_ranks [OF desc_inv [OF that(1) kid_inv [OF less.prems(1) that(2)]] that(3)]
      root_in_ranks kid_inv desc_inv less.prems(1) by blast
  have not_top: "False" if k: "k \<in> set (kids p t)" "desc p k u" "c \<in> set (kids p u)" "c \<in> set (kids p t)" for k u
  proof -
    have u: "tinv u" using desc_inv [OF k(2) kid_inv [OF less.prems(1) k(1)]] .
    have "root_rank c \<in> set (tranks k)" using r [OF k(2,1,3)] desc_ranks [OF k(2) kid_inv [OF less.prems(1) k(1)]] by blast
    moreover have "root_rank c \<in> set (tranks c)" using root_in_ranks kid_inv [OF u k(3)] .
    ultimately have "c = k" using kids_disjoint [OF less.prems(1) k(4,1)] by blast
    then show False
      using kid_less [OF u k(3)] desc_len [OF k(2) kid_inv [OF less.prems(1) k(1)]] by simp
  qed
  consider "a = t" "b = t" | k where "a = t" "k \<in> set (kids p t)" "desc p k b"
    | k where "b = t" "k \<in> set (kids p t)" "desc p k a"
    | k l where "k \<in> set (kids p t)" "desc p k a" "l \<in> set (kids p t)" "desc p l b"
    using desc_top_cases [OF less.prems(2)] desc_top_cases [OF less.prems(3)] by blast
  then show ?case
  proof cases
    case 4
    have "root_rank c \<in> set (tranks k)" "root_rank c \<in> set (tranks l)"
      using r [OF 4(2,1) less.prems(4)] r [OF 4(4,3) less.prems(5)]
        desc_ranks [OF 4(2) kid_inv [OF less.prems(1) 4(1)]] desc_ranks [OF 4(4) kid_inv [OF less.prems(1) 4(3)]] by blast+
    then have "k = l" using kids_disjoint [OF less.prems(1) 4(1,3)] by blast
    then show ?thesis
      using less.hyps [OF kid_less [OF less.prems(1) 4(1)] kid_inv [OF less.prems(1) 4(1)]] 4 less.prems(4,5) by blast
  qed (use not_top less.prems(4,5) in \<open>blast+\<close>)
qed

end
