(* ===== verification/Cast_Routes.thy ===== *)
theory Cast_Routes
  imports Cast_Tree
begin

text \<open>
  What the steps of casting compute on a valid domain, given by its region and the function from
  base ranks to members: routes and destinations depend on the tile alone, the wire format of a
  materialized tile loses nothing, and the effect of each handler on the outgoing envelopes is
  spelled out.
\<close>

section \<open>Tiles with members\<close>

definition holds :: "(nat \<Rightarrow> 't) \<Rightarrow> 't materialized_tile \<Rightarrow> bool" where
  "holds M m \<longleftrightarrow> tinv (mt_tile m) \<and> (\<forall>r \<in> set (tranks (mt_tile m)). item_at m r = Some (M r))"

lemma those_map_eq: "(\<And>x. x \<in> set xs \<Longrightarrow> f x = Some (g x)) \<Longrightarrow> those (map f xs) = Some (map g xs)"
  by (rule those_map_Some)

definition wire_of :: "(nat \<Rightarrow> 't) \<Rightarrow> tile \<Rightarrow> 't wire_tile" where
  "wire_of M t = (t, map M (tranks t))"

definition mt_of :: "(nat \<Rightarrow> 't) \<Rightarrow> tile \<Rightarrow> 't materialized_tile" where
  "mt_of M t = \<lparr>mt_tile = t, mt_items = \<lparr>vm_region = tile_space t, vm_rep = Dense (map M (tranks t))\<rparr>\<rparr>"

lemma mt_tile_mt_of [simp]: "mt_tile (mt_of M t) = t"
  by (simp add: mt_of_def)

lemma mt_serialize_holds: "holds M m \<Longrightarrow> mt_serialize m = Some (wire_of M (mt_tile m))"
  by (auto simp: mt_serialize_def tile_items_def tile_ranks_def slice_iter_eq wire_of_def holds_def
      intro!: those_map_Some)

lemma mt_deserialize_wire: "mt_deserialize (wire_of M t) = Inr (mt_of M t)"
  by (simp add: mt_deserialize_def wire_of_def vm_new_def num_ranks_def mt_of_def from_value_mesh_with_tile_def)

lemma dense_get_by_base_rank:
  assumes "slice_inv s" "r \<in> set (ranks s)"
  shows "get_by_base_rank \<lparr>vm_region = s, vm_rep = Dense (map M (ranks s))\<rparr> r = Some (M r)"
proof -
  let ?m = "\<lparr>vm_region = s, vm_rep = Dense (map M (ranks s))\<rparr>"
  obtain k where k: "k < slice_len s" "ranks s ! k = r" using assms(2) by (auto simp: in_set_conv_nth)
  have "mesh_inv ?m" by (simp add: mesh_inv_def num_ranks_def)
  from get_by_base_rank_nth [OF this] assms(1) k show ?thesis
    by (auto simp: mesh_values_def)
qed

lemma holds_mt_of: "tinv t \<Longrightarrow> holds M (mt_of M t)"
  using ranks_props(2) [of "tile_space t"]
  by (auto simp: holds_def item_at_def mt_of_def dense_get_by_base_rank)

lemma holds_subtile:
  assumes "holds M m" "tinv t" "set (tranks t) \<subseteq> set (tranks (mt_tile m))"
  shows "holds M (subtile m t)"
proof -
  have "contains (tile_space (mt_tile m)) r" "contains (tile_space t) r" if "r \<in> set (tranks t)" for r
    using assms that ranks_props(2) unfolding holds_def by blast+
  moreover have "item_at m r = Some (M r)" if "r \<in> set (tranks t)" for r
    using assms(1,3) that by (auto simp: holds_def)
  ultimately show ?thesis using assms(2) by (auto simp: holds_def subtile_def item_at_def)
qed

lemma holds_kid: "holds M m \<Longrightarrow> c \<in> set (kids p (mt_tile m)) \<Longrightarrow> holds M (subtile m c)"
  using kid_inv [of "mt_tile m" c p] kid_ranks [of "mt_tile m" c p]
  by (intro holds_subtile) (auto simp: holds_def)

lemma root_item_holds: "holds M m \<Longrightarrow> root_item m = Some (M (root_rank (mt_tile m)))"
  using root_in_ranks by (auto simp: holds_def root_item_def)

lemma subtile_simps [simp]: "mt_tile (subtile m t) = t" "subtile (subtile m t) u = subtile m u"
  by (simp_all add: subtile_def)

section \<open>Routes\<close>

definition point_at :: "region \<Rightarrow> nat \<Rightarrow> point" where
  "point_at R r = (case point_of_base_rank R r of Inr p \<Rightarrow> p)"

definition dest_of :: "region \<Rightarrow> (nat \<Rightarrow> 'l actor_addr) \<Rightarrow> nat \<Rightarrow> 'l cast_destination" where
  "dest_of R M r = \<lparr>cd_point = point_at R r, cd_base_rank = r, cd_actor = M r\<rparr>"

definition route_of :: "region \<Rightarrow> (nat \<Rightarrow> 'l actor_addr) \<Rightarrow> tiling_policy \<Rightarrow> tile \<Rightarrow> 'l cast_route" where
  "route_of R M p t =
     (if kids p t = [] then DirectTo (dest_of R M (root_rank t))
      else ViaCastActor (cast_actor_ref_for_member (M (root_rank t))))"

lemma point_at_ok:
  assumes "region_inv R" "r \<in> set (ranks (reg_slice R))"
  shows "point_of_base_rank R r = Inr (point_at R r)"
proof -
  obtain k where "k < slice_len (reg_slice R)" "ranks (reg_slice R) ! k = r"
    using assms(2) by (auto simp: in_set_conv_nth)
  then show ?thesis using point_of_base_rank_nth [OF assms(1)] by (auto simp: point_at_def)
qed

lemma dest_try_ok:
  assumes "region_inv R" "holds M m" "set (tranks (mt_tile m)) \<subseteq> set (ranks (reg_slice R))"
  shows "dest_try_from_tile R m = Inr (dest_of R M (root_rank (mt_tile m)))"
proof -
  have "root_rank (mt_tile m) \<in> set (ranks (reg_slice R))"
    using assms(2,3) root_in_ranks by (auto simp: holds_def)
  then show ?thesis
    using point_at_ok [OF assms(1)] root_item_holds [OF assms(2)]
    by (simp add: dest_try_from_tile_def map_error_def dest_of_def)
qed

lemma next_tiles_ok: "holds M m \<Longrightarrow> next_tiles p m = Some (map (subtile m) (kids p (mt_tile m)))"
  by (simp add: next_tiles_def holds_def kids_children)

lemma route_try_ok:
  assumes "region_inv R" "holds M m" "set (tranks (mt_tile m)) \<subseteq> set (ranks (reg_slice R))"
  shows "route_try_from_tile R p m = Inr (route_of R M p (mt_tile m))"
  by (simp add: route_try_from_tile_def route_of_def dest_of_def dest_try_ok [OF assms] next_tiles_ok [OF assms(2)])

section \<open>Posting\<close>

definition headers_ok :: "'l flattrs \<Rightarrow> bool" where
  "headers_ok h \<longleftrightarrow> h SEQ_INFO = None"

text \<open>What a posted envelope has, apart from the stamps of the transport.\<close>

definition sends :: "'l actor_addr \<Rightarrow> ('l, 'w) envelope \<Rightarrow> 'l port_addr \<times> 'w \<Rightarrow> bool" where
  "sends a e x \<longleftrightarrow> env_sender e = a \<and> env_dest e = fst x \<and> env_data e = snd x"

definition appends :: "('l, 'w, 'e) cx \<Rightarrow> ('l port_addr \<times> 'w) list \<Rightarrow> ('l, 'w, 'e) cx \<Rightarrow> bool" where
  "appends cx xs cx' \<longleftrightarrow> cx_actor cx' = cx_actor cx \<and> cx_next_port cx' = cx_next_port cx \<and>
     cx_proxies cx' = cx_proxies cx \<and>
     (\<exists>es. cx_out cx' = cx_out cx @ es \<and> list_all2 (sends (cx_actor cx)) es xs)"

lemma appends_refl: "appends cx [] cx"
  by (simp add: appends_def)

lemma appends_trans: "appends cx xs cx1 \<Longrightarrow> appends cx1 ys cx2 \<Longrightarrow> appends cx (xs @ ys) cx2"
  unfolding appends_def by (auto intro: list_all2_appendI)

lemma sequenced_post_appends: "appends cx [(dest, w)] (sequenced_post dest h w r cx)"
  by (auto simp: appends_def sends_def sequenced_post_def Let_def split: prod.splits)

lemma post_to_actor_ok:
  "headers_ok h \<Longrightarrow> post_to_actor rt a ty h w cx = (Inr (), sequenced_post (handler_port rt ty a) h w True cx)"
  by (simp add: post_to_actor_def lift_cx_def post_def headers_ok_def map_error_def)

lemma headers_ok_empty [simp]: "headers_ok Map.empty"
  by (simp add: headers_ok_def)

section \<open>Loops\<close>

lemma for_each_appends:
  assumes "\<And>x cx. x \<in> set xs \<Longrightarrow> \<exists>cx'. f x cx = (Inr (g x), cx') \<and> appends cx (h x) cx'"
  shows "\<exists>cx'. for_each f xs cx = (Inr (map g xs), cx') \<and> appends cx (concat (map h xs)) cx'"
  using assms
proof (induction xs arbitrary: cx)
  case Nil
  then show ?case by (simp add: appends_refl)
next
  case (Cons x xs)
  obtain cx1 where 1: "f x cx = (Inr (g x), cx1)" "appends cx (h x) cx1" using Cons.prems by (meson list.set_intros(1))
  obtain cx2 where 2: "for_each f xs cx1 = (Inr (map g xs), cx2)" "appends cx1 (concat (map h xs)) cx2"
    using Cons.IH [of cx1] Cons.prems by auto
  have "for_each f (x # xs) cx = (Inr (map g (x # xs)), cx2)"
    using 1(1) 2(1) by (simp add: bind_action_eq(1))
  then show ?case using appends_trans [OF 1(2) 2(2)] by simp
qed

lemma concat_filter: "concat (map (\<lambda>x. if P x then [g x] else []) xs) = map g (filter P xs)"
  by (induction xs) auto

section \<open>Setup\<close>

definition create_msg :: "uid \<Rightarrow> region \<Rightarrow> (nat \<Rightarrow> 'l actor_addr) \<Rightarrow> tiling_policy \<Rightarrow> tile \<Rightarrow> 'l create_cast_domain" where
  "create_msg d R M p t = \<lparr>cc_domain = d, cc_region = R, cc_policy = p, cc_tile = wire_of M t\<rparr>"

definition cast_ref :: "(nat \<Rightarrow> 'l actor_addr) \<Rightarrow> tile \<Rightarrow> 'l actor_addr" where
  "cast_ref M t = cast_actor_ref_for_member (M (root_rank t))"

definition inner_kids :: "tiling_policy \<Rightarrow> tile \<Rightarrow> tile list" where
  "inner_kids p t = filter (\<lambda>c. kids p c \<noteq> []) (kids p t)"

definition hop_of :: "region \<Rightarrow> (nat \<Rightarrow> 'l actor_addr) \<Rightarrow> tiling_policy \<Rightarrow> tile \<Rightarrow> 'l cast_hop" where
  "hop_of R M p t = \<lparr>hop_local = dest_of R M (root_rank t), hop_next = map (route_of R M p) (kids p t)\<rparr>"

definition creates :: "('l, 'r, 'b, 'e) cast_runtime \<Rightarrow> uid \<Rightarrow> region \<Rightarrow> (nat \<Rightarrow> 'l actor_addr) \<Rightarrow> tiling_policy
    \<Rightarrow> tile list \<Rightarrow> ('l port_addr \<times> ('l, 'r, 'b) wire) list" where
  "creates rt d R M p ts =
     map (\<lambda>c. (handler_port rt ''CreateCastDomain'' (cast_ref M c), WCreate (create_msg d R M p c))) ts"

lemma creates_filter:
  "concat (map (\<lambda>c. if P c then creates rt d R M p [c] else []) cs) = creates rt d R M p (filter P cs)"
  by (induction cs) (simp_all add: creates_def)

lemma setup_next_tile_ok:
  assumes "region_inv R" "holds M m" "set (tranks (mt_tile m)) \<subseteq> set (ranks (reg_slice R))"
    and "cc_domain msg = d" "cc_region msg = R" "cc_policy msg = p" "headers_ok h"
  shows "\<exists>cx'. setup_next_tile rt msg h m cx = (Inr (route_of R M p (mt_tile m)), cx') \<and>
    appends cx (if kids p (mt_tile m) \<noteq> [] then creates rt d R M p [mt_tile m] else []) cx'"
proof (cases "kids p (mt_tile m) = []")
  case True
  then show ?thesis
    using assms(5,6)
    by (simp add: setup_next_tile_def lift_result_def bind_action_def route_try_ok [OF assms(1-3)] route_of_def
        appends_refl)
next
  case False
  have "msg\<lparr>cc_tile := wire_of M (mt_tile m)\<rparr> = create_msg d R M p (mt_tile m)"
    using assms(4-6) by (cases msg) (simp add: create_msg_def)
  then show ?thesis
    using assms(5,6) False mt_serialize_holds [OF assms(2)] sequenced_post_appends
    by (simp add: setup_next_tile_def lift_result_def bind_action_def route_try_ok [OF assms(1-3)] route_of_def
        post_to_actor_ok [OF assms(7)] creates_def cast_ref_def)
qed

lemma handle_create_ok:
  assumes "region_inv R" "tinv t" "set (tranks t) \<subseteq> set (ranks (reg_slice R))" "hops (uid_key d) = None"
  shows "\<exists>cx'. handle_create rt (create_msg d R M p t) hops cx =
      (Inr (hops(uid_key d \<mapsto> hop_of R M p t)), cx') \<and>
    appends cx (creates rt d R M p (inner_kids p t)) cx'"
proof -
  let ?m = "mt_of M t" and ?msg = "create_msg d R M p t"
  have h: "holds M ?m" using holds_mt_of [OF assms(2)] .
  have msg: "cc_domain ?msg = d" "cc_region ?msg = R" "cc_policy ?msg = p" by (simp_all add: create_msg_def)
  have "\<exists>cx'. setup_next_tile rt ?msg Map.empty (subtile ?m c) cx1 = (Inr (route_of R M p c), cx') \<and>
      appends cx1 (if kids p c \<noteq> [] then creates rt d R M p [c] else []) cx'" if "c \<in> set (kids p t)" for c cx1
  proof -
    have "set (tranks c) \<subseteq> set (ranks (reg_slice R))" using kid_ranks [OF assms(2) that] assms(3) by blast
    then show ?thesis
      using setup_next_tile_ok [OF assms(1) holds_kid [OF h, of c p], of ?msg d p Map.empty rt cx1] that msg
      by (cases "kids p c = []") simp_all
  qed
  then obtain cx' where cx': "for_each (\<lambda>c. setup_next_tile rt ?msg Map.empty (subtile ?m c)) (kids p t) cx =
      (Inr (map (route_of R M p) (kids p t)), cx')"
    "appends cx (concat (map (\<lambda>c. if kids p c \<noteq> [] then creates rt d R M p [c] else []) (kids p t))) cx'"
    using for_each_appends [of "kids p t" "\<lambda>c. setup_next_tile rt ?msg Map.empty (subtile ?m c)" "route_of R M p"
        "\<lambda>c. if kids p c \<noteq> [] then creates rt d R M p [c] else []" cx] by blast
  have fe: "for_each f (map g xs) = for_each (\<lambda>x. f (g x)) xs" for f :: "'x \<Rightarrow> ('s, 'f, 'y) action" and g :: "'z \<Rightarrow> 'x" and xs
    by (induction xs) simp_all
  have "mt_deserialize (cc_tile ?msg) = Inr ?m" by (simp add: create_msg_def mt_deserialize_wire)
  moreover have "next_tiles (cc_policy ?msg) ?m = Some (map (subtile ?m) (kids p t))"
    using next_tiles_ok [OF h, of p] msg by simp
  ultimately have "handle_create rt ?msg hops cx = (Inr (hops(uid_key d \<mapsto> hop_of R M p t)), cx')"
    using assms(4) cx'(1) msg
    by (simp add: handle_create_def lift_result_def map_error_def bind_action_def fe hop_of_def
        dest_try_ok [OF assms(1) h, simplified, OF assms(3)])
  moreover have "concat (map (\<lambda>c. if kids p c \<noteq> [] then creates rt d R M p [c] else []) (kids p t)) =
      creates rt d R M p (inner_kids p t)"
    unfolding inner_kids_def by (rule creates_filter)
  ultimately show ?thesis using cx'(2) by auto
qed

section \<open>Teardown\<close>

definition destroys :: "('l, 'r, 'b, 'e) cast_runtime \<Rightarrow> (nat \<Rightarrow> 'l actor_addr) \<Rightarrow> 'l destroy_cast_domain \<Rightarrow> tile list
    \<Rightarrow> ('l port_addr \<times> ('l, 'r, 'b) wire) list" where
  "destroys rt M dm ts = map (\<lambda>c. (handler_port rt ''DestroyCastDomain'' (cast_ref M c), WDestroy dm)) ts"

lemma forward_destroy_ok:
  "\<exists>cx'. forward_destroy rt dm (route_of R M p c) cx = (Inr (), cx') \<and>
     appends cx (if kids p c \<noteq> [] then destroys rt M dm [c] else []) cx'"
  using sequenced_post_appends
  by (auto simp: forward_destroy_def route_of_def post_to_actor_ok destroys_def cast_ref_def appends_refl)

lemma forward_destroys_ok:
  "\<exists>cx'. for_each (forward_destroy rt dm) (map (route_of R M p) cs) cx = (Inr (map (\<lambda>_. ()) cs), cx') \<and>
     appends cx (destroys rt M dm (filter (\<lambda>c. kids p c \<noteq> []) cs)) cx'"
proof -
  have fe: "for_each f (map g xs) = for_each (\<lambda>x. f (g x)) xs" for f :: "'x \<Rightarrow> ('s, 'f, 'y) action" and g :: "'z \<Rightarrow> 'x" and xs
    by (induction xs) simp_all
  have "concat (map (\<lambda>c. if kids p c \<noteq> [] then destroys rt M dm [c] else []) cs) =
      destroys rt M dm (filter (\<lambda>c. kids p c \<noteq> []) cs)"
    by (induction cs) (simp_all add: destroys_def)
  with for_each_appends [of cs "\<lambda>c. forward_destroy rt dm (route_of R M p c)" "\<lambda>_. ()"
        "\<lambda>c. if kids p c \<noteq> [] then destroys rt M dm [c] else []" cx, OF forward_destroy_ok]
  show ?thesis by (simp add: fe)
qed

lemma handle_destroy_ok:
  assumes "hops (uid_key (dc_domain dm)) = Some (hop_of R M p t)"
  shows "\<exists>cx'. handle_destroy rt dm hops cx = (Inr (hops(uid_key (dc_domain dm) := None)), cx') \<and>
    appends cx (destroys rt M dm (inner_kids p t)) cx'"
proof -
  obtain cx' where "for_each (forward_destroy rt dm) (map (route_of R M p) (kids p t)) cx =
      (Inr (map (\<lambda>_. ()) (kids p t)), cx')" "appends cx (destroys rt M dm (inner_kids p t)) cx'"
    using forward_destroys_ok [of rt dm R M p "kids p t" cx] by (auto simp: inner_kids_def)
  then show ?thesis
    using assms by (auto simp: handle_destroy_def hop_of_def bind_action_def)
qed

section \<open>Splitting\<close>

text \<open>The part of a message that splitting and stamping leave alone: everything but the addresses of
  the ports that may be split and the rank.\<close>

datatype ('l, 'r, 'b) skel =
    KPort "'l port_addr option" "'r option" bool bool
  | KOnce "'l port_addr option" "'r option" bool bool
  | KRank "nat option"
  | KOther 'b

definition skel :: "('l, 'r, 'b) part \<Rightarrow> ('l, 'r, 'b) skel" where
  "skel part = (case part of
     PortPart q \<Rightarrow> KPort (if pr_unsplit q then Some (pr_addr q) else None) (pr_reducer_spec q)
       (pr_return_undeliverable q) (pr_unsplit q)
   | OncePortPart q \<Rightarrow> KOnce (if op_unsplit q \<or> op_reducer_spec q = None then Some (op_addr q) else None)
       (op_reducer_spec q) (op_return_undeliverable q) (op_unsplit q)
   | RankPart r \<Rightarrow> KRank r
   | OtherPart b \<Rightarrow> KOther b)"

definition kstamp :: "nat \<Rightarrow> ('l, 'r, 'b) skel \<Rightarrow> ('l, 'r, 'b) skel" where
  "kstamp k x = (case x of KRank _ \<Rightarrow> KRank (Some k) | _ \<Rightarrow> x)"

lemma skel_stamp: "skel (stamp_rank k x) = kstamp k (skel x)"
  by (cases x) (auto simp: skel_def stamp_rank_def kstamp_def)

text \<open>Every reducer a part names can be built.\<close>

definition part_specs :: "('l, 'r, 'b) part \<Rightarrow> 'r set" where
  "part_specs part = (case part of
     PortPart q \<Rightarrow> set_option (pr_reducer_spec q) | OncePortPart q \<Rightarrow> set_option (op_reducer_spec q) | _ \<Rightarrow> {})"

definition resolvable :: "('l, 'r, 'b, 'e) cast_runtime \<Rightarrow> ('l, 'r, 'b) part list \<Rightarrow> bool" where
  "resolvable rt parts \<longleftrightarrow> (\<forall>x \<in> set parts. \<forall>sp \<in> part_specs x. is_ok (rt_resolve rt sp))"

definition quiet :: "('l, 'w, 'e) cx \<Rightarrow> ('l, 'w, 'e) cx \<Rightarrow> bool" where
  "quiet cx cx' \<longleftrightarrow> cx_actor cx' = cx_actor cx \<and> cx_out cx' = cx_out cx \<and> cx_sequencer cx' = cx_sequencer cx"

lemma split_port_quiet:
  assumes "\<forall>sp \<in> set_option spec. is_ok (resolve sp)"
  shows "\<exists>a cx'. split_port resolve port spec mode ret cx = (Inr a, cx') \<and> quiet cx cx'"
  using assms by (cases spec) (auto simp: split_port_def quiet_def is_ok_iff Let_def)

lemma split_port_part_ok:
  assumes "\<forall>sp \<in> part_specs x. is_ok (rt_resolve rt sp)"
  shows "\<exists>y cx'. split_port_part rt x cx = (Inr y, cx') \<and> quiet cx cx' \<and> skel y = skel x \<and> part_specs y = part_specs x"
proof (cases x)
  case (PortPart q)
  show ?thesis
  proof (cases "pr_unsplit q")
    case True
    then show ?thesis using PortPart by (simp add: split_port_part_def quiet_def)
  next
    case False
    obtain a cx' where 1: "split_port (rt_resolve rt) (pr_addr q) (pr_reducer_spec q) StreamingMode
        (pr_return_undeliverable q) cx = (Inr a, cx')" "quiet cx cx'"
      using split_port_quiet [of "pr_reducer_spec q" "rt_resolve rt" "pr_addr q" StreamingMode "pr_return_undeliverable q" cx]
        assms PortPart by (auto simp: part_specs_def)
    then have "split_port_part rt x cx = (Inr (PortPart (q\<lparr>pr_addr := a\<rparr>)), cx')"
      using PortPart False by (simp add: split_port_part_def bind_action_def lift_cx_def map_error_def)
    then show ?thesis using 1(2) PortPart False by (auto simp: skel_def part_specs_def)
  qed
qed (simp_all add: split_port_part_def quiet_def)

lemma split_once_port_part_ok:
  assumes "\<forall>sp \<in> part_specs x. is_ok (rt_resolve rt sp)"
  shows "\<exists>y cx'. split_once_port_part rt n x cx = (Inr y, cx') \<and> quiet cx cx' \<and> skel y = skel x \<and> part_specs y = part_specs x"
proof (cases x)
  case (OncePortPart q)
  show ?thesis
  proof (cases "op_unsplit q \<or> op_reducer_spec q = None")
    case True
    then show ?thesis using OncePortPart by (simp add: split_once_port_part_def quiet_def)
  next
    case False
    obtain a cx' where 1: "split_port (rt_resolve rt) (op_addr q) (op_reducer_spec q) (OnceMode n) True cx = (Inr a, cx')"
      "quiet cx cx'"
      using split_port_quiet [of "op_reducer_spec q" "rt_resolve rt" "op_addr q" "OnceMode n" True cx]
        assms OncePortPart by (auto simp: part_specs_def)
    then have "split_once_port_part rt n x cx = (Inr (OncePortPart (q\<lparr>op_addr := a\<rparr>)), cx')"
      using OncePortPart False by (auto simp: split_once_port_part_def bind_action_def lift_cx_def map_error_def)
    then show ?thesis using 1(2) OncePortPart False by (auto simp: skel_def part_specs_def)
  qed
qed (simp_all add: split_once_port_part_def quiet_def)

lemma for_each_split:
  assumes "\<And>x cx. \<forall>sp \<in> part_specs x. is_ok (rt_resolve rt sp) \<Longrightarrow>
      \<exists>y cx'. f x cx = (Inr y, cx') \<and> quiet cx cx' \<and> skel y = skel x \<and> part_specs y = part_specs x"
    and "resolvable rt xs"
  shows "\<exists>ys cx'. for_each f xs cx = (Inr ys, cx') \<and> quiet cx cx' \<and> map skel ys = map skel xs \<and> resolvable rt ys"
  using assms(2)
proof (induction xs arbitrary: cx)
  case Nil
  then show ?case by (simp add: quiet_def)
next
  case (Cons x xs)
  obtain y cx1 where 1: "f x cx = (Inr y, cx1)" "quiet cx cx1" "skel y = skel x" "part_specs y = part_specs x"
    using assms(1) [of x cx] Cons.prems by (auto simp: resolvable_def)
  obtain ys cx2 where 2: "for_each f xs cx1 = (Inr ys, cx2)" "quiet cx1 cx2" "map skel ys = map skel xs" "resolvable rt ys"
    using Cons.IH [of cx1] Cons.prems by (auto simp: resolvable_def)
  have "for_each f (x # xs) cx = (Inr (y # ys), cx2)" using 1(1) 2(1) by (simp add: bind_action_eq(1))
  then show ?case using 1 2 Cons.prems by (auto simp: resolvable_def quiet_def)
qed

definition same_data :: "('l, 'r, 'b) multipart \<Rightarrow> ('l, 'r, 'b) multipart \<Rightarrow> bool" where
  "same_data x y \<longleftrightarrow> mp_body x = mp_body y \<and> map skel (mp_parts x) = map skel (mp_parts y)"

lemma split_ports_ok:
  assumes "resolvable rt (mp_parts data)"
  shows "\<exists>data' cx'. split_ports rt data n here cx = (Inr data', cx') \<and> quiet cx cx' \<and>
    same_data data' data \<and> resolvable rt (mp_parts data')"
proof -
  let ?n = "n + (if here then 1 else 0)"
  obtain ys cx1 where 1: "for_each (split_port_part rt) (mp_parts data) cx = (Inr ys, cx1)" "quiet cx cx1"
    "map skel ys = map skel (mp_parts data)" "resolvable rt ys"
    using for_each_split [of rt "split_port_part rt", OF split_port_part_ok assms] by blast
  obtain zs cx2 where 2: "for_each (split_once_port_part rt ?n) ys cx1 = (Inr zs, cx2)" "quiet cx1 cx2"
    "map skel zs = map skel ys" "resolvable rt zs"
    using for_each_split [of rt "split_once_port_part rt ?n", OF split_once_port_part_ok 1(4)] by blast
  have "split_ports rt data n here cx = (Inr (data\<lparr>mp_parts := zs\<rparr>), cx2)"
    using 1(1) 2(1) unfolding split_ports_def by (simp add: bind_action_eq)
  then show ?thesis using 1 2 by (auto simp: quiet_def same_data_def)
qed

section \<open>Delivery\<close>

text \<open>What can be observed of an envelope: destination, headers, and the message up to split ports.\<close>

definition observe :: "('l, ('l, 'r, 'b) wire) envelope
    \<Rightarrow> 'l port_addr \<times> 'l flattrs \<times> ('b \<times> ('l, 'r, 'b) skel list) option" where
  "observe e = (env_dest e, env_headers e,
     case env_data e of WData x \<Rightarrow> Some (mp_body x, map skel (mp_parts x)) | _ \<Rightarrow> None)"

definition delivery_of :: "('l, 'r, 'b) cast_message \<Rightarrow> nat \<Rightarrow> 'l cast_delivery" where
  "delivery_of m r = \<lparr>cv_sender = cm_sender m, cv_session = cm_session m,
     cv_seq = the (get_by_base_rank (cm_seqs m) r), cv_headers = cm_headers m, cv_dest_port = cm_dest_port m\<rparr>"

text \<open>What the member at a base rank is to receive of a cast message, whatever its route.\<close>

definition delivered :: "('l, 'r, 'b, 'e) cast_runtime \<Rightarrow> region \<Rightarrow> (nat \<Rightarrow> 'l actor_addr)
    \<Rightarrow> ('l, 'r, 'b) cast_message \<Rightarrow> nat \<Rightarrow> 'l port_addr \<times> 'l flattrs \<times> ('b \<times> ('l, 'r, 'b) skel list) option" where
  "delivered rt R M m r =
     (let dest = port_addr_of (M r) (Handler (Instance (cm_dest_port m) None))
      in (dest, delivery_headers rt (delivery_of m r) (dest_of R M r) dest,
          Some (mp_body (cm_data m), map (kstamp (pt_rank (point_at R r)) \<circ> skel) (mp_parts (cm_data m)))))"

lemma delivered_same_data:
  "same_data data' (cm_data m) \<Longrightarrow> delivered rt R M (m\<lparr>cm_data := data'\<rparr>) r = delivered rt R M m r"
  by (simp add: delivered_def delivery_of_def same_data_def Let_def) (metis (no_types) map_map)

definition is_data :: "('l, 'r, 'b) wire \<Rightarrow> bool" where
  "is_data w = (case w of WData _ \<Rightarrow> True | _ \<Rightarrow> False)"

text \<open>The envelopes an action appends, given by predicates.\<close>

definition emits :: "('l, 'w, 'e) cx \<Rightarrow> (('l, 'w) envelope \<Rightarrow> bool) list \<Rightarrow> ('l, 'w, 'e) cx \<Rightarrow> bool" where
  "emits cx Qs cx' \<longleftrightarrow> cx_actor cx' = cx_actor cx \<and>
     (\<exists>es. cx_out cx' = cx_out cx @ es \<and> list_all2 (\<lambda>e Q. Q e) es Qs)"

lemma emits_refl: "emits cx [] cx"
  by (simp add: emits_def)

lemma emits_trans: "emits cx Ps cx1 \<Longrightarrow> emits cx1 Qs cx2 \<Longrightarrow> emits cx (Ps @ Qs) cx2"
  unfolding emits_def by (auto intro: list_all2_appendI)

lemma emits_quiet: "quiet cx cx1 \<Longrightarrow> emits cx1 Qs cx2 \<Longrightarrow> emits cx Qs cx2"
  by (simp add: emits_def quiet_def)

lemma appends_emits: "appends cx xs cx' \<Longrightarrow> emits cx (map (\<lambda>x e. sends (cx_actor cx) e x) xs) cx'"
  unfolding appends_def emits_def by (auto simp: list_all2_map2)

definition is_delivery :: "('l, 'r, 'b, 'e) cast_runtime \<Rightarrow> region \<Rightarrow> (nat \<Rightarrow> 'l actor_addr)
    \<Rightarrow> ('l, 'r, 'b) cast_message \<Rightarrow> nat \<Rightarrow> ('l, ('l, 'r, 'b) wire) envelope \<Rightarrow> bool" where
  "is_delivery rt R M m r e \<longleftrightarrow> is_data (env_data e) \<and> observe e = delivered rt R M m r"

definition is_forward :: "('l, 'r, 'b, 'e) cast_runtime \<Rightarrow> (nat \<Rightarrow> 'l actor_addr) \<Rightarrow> 'l actor_addr
    \<Rightarrow> ('l, 'r, 'b) cast_message \<Rightarrow> tile \<Rightarrow> ('l, ('l, 'r, 'b) wire) envelope \<Rightarrow> bool" where
  "is_forward rt M a m c e \<longleftrightarrow> sends a e (handler_port rt ''CastMessage'' (cast_ref M c), WCast m)"

lemma deliver_ok:
  assumes "get_by_base_rank (cm_seqs m) r \<noteq> None" "same_data data (cm_data m)"
  shows "\<exists>cx'. deliver_to_destination rt (delivery_of m r) (dest_of R M r) data cx = (Inr (), cx') \<and>
    emits cx [is_delivery rt R M m r] cx' \<and> cx_sequencer cx' = cx_sequencer cx"
proof -
  let ?dest = "port_addr_of (M r) (Handler (Instance (cm_dest_port m) None))"
  let ?delivery = "delivery_of m r"
  have d: "cv_dest_port ?delivery = cm_dest_port m" by (simp add: delivery_of_def)
  define headers where "headers = delivery_headers rt ?delivery (dest_of R M r) ?dest"
  have h: "headers SEQ_INFO \<noteq> None"
    by (simp add: headers_def delivery_headers_def Let_def stamp_sender_actor_id_hash_def stamp_sender_actor_id_def)
  define x where "x = data\<lparr>mp_parts := map (stamp_rank (pt_rank (point_at R r))) (mp_parts data)\<rparr>"
  define e where "e = \<lparr>env_sender = cx_actor cx, env_dest = ?dest, env_data = WData x, env_headers = headers,
      env_return_undeliverable = True\<rparr>"
  have "deliver_to_destination rt ?delivery (dest_of R M r) data cx = (Inr (), cx\<lparr>cx_out := cx_out cx @ [e]\<rparr>)"
  proof -
    have "deliver_to_destination rt ?delivery (dest_of R M r) data =
        lift_cx (post ?dest headers (WData x) True AllowExternal)"
      unfolding deliver_to_destination_def headers_def x_def by (simp add: dest_of_def d Let_def)
    then show ?thesis using h by (auto simp: lift_cx_def post_def map_error_def e_def)
  qed
  moreover have "map skel (mp_parts x) = map (kstamp (pt_rank (point_at R r)) \<circ> skel) (mp_parts (cm_data m))"
  proof -
    have "map skel (mp_parts x) = map (kstamp (pt_rank (point_at R r))) (map skel (mp_parts data))"
      by (simp add: x_def skel_stamp)
    also have "\<dots> = map (kstamp (pt_rank (point_at R r))) (map skel (mp_parts (cm_data m)))"
      using assms(2) by (simp only: same_data_def)
    finally show ?thesis by simp
  qed
  then have "is_delivery rt R M m r e"
    using assms(2) by (simp add: is_delivery_def is_data_def e_def observe_def delivered_def headers_def same_data_def x_def Let_def)
  ultimately show ?thesis by (auto simp: emits_def)
qed

lemma delivery_try_ok:
  "get_by_base_rank (cm_seqs m) r \<noteq> None \<Longrightarrow> delivery_try_from_message m (dest_of R M r) = Inr (delivery_of m r)"
  by (auto simp: delivery_try_from_message_def dest_seq_def dest_of_def delivery_of_def)

section \<open>Routing\<close>

text \<open>What a hop emits for a child tile: the delivery if it is terminal, else the message itself.\<close>

definition emission :: "('l, 'r, 'b, 'e) cast_runtime \<Rightarrow> region \<Rightarrow> (nat \<Rightarrow> 'l actor_addr) \<Rightarrow> tiling_policy
    \<Rightarrow> 'l actor_addr \<Rightarrow> ('l, 'r, 'b) cast_message \<Rightarrow> tile \<Rightarrow> ('l, ('l, 'r, 'b) wire) envelope \<Rightarrow> bool" where
  "emission rt R M p a m c =
     (if kids p c = [] then is_delivery rt R M m (root_rank c) else is_forward rt M a m c)"

definition castable :: "('l, 'r, 'b, 'e) cast_runtime \<Rightarrow> ('l, 'r, 'b) cast_message \<Rightarrow> nat set \<Rightarrow> bool" where
  "castable rt m A \<longleftrightarrow> headers_ok (cm_headers m) \<and> resolvable rt (mp_parts (cm_data m)) \<and>
     (\<forall>r \<in> A. get_by_base_rank (cm_seqs m) r \<noteq> None)"

lemma is_delivery_same_data:
  "same_data data' (cm_data m) \<Longrightarrow> is_delivery rt R M (m\<lparr>cm_data := data'\<rparr>) r = is_delivery rt R M m r"
  by (simp add: is_delivery_def delivered_same_data fun_eq_iff)

lemma route_next_hop_ok:
  assumes "headers_ok (cm_headers m)" "get_by_base_rank (cm_seqs m) (root_rank c) \<noteq> None"
    "same_data data (cm_data m)"
  shows "\<exists>cx'. route_next_hop rt m data (route_of R M p c) cx = (Inr (), cx') \<and>
    emits cx [emission rt R M p (cx_actor cx) (m\<lparr>cm_data := data\<rparr>) c] cx'"
proof (cases "kids p c = []")
  case True
  obtain cx' where "deliver_to_destination rt (delivery_of m (root_rank c)) (dest_of R M (root_rank c)) data cx = (Inr (), cx')"
    "emits cx [is_delivery rt R M m (root_rank c)] cx'" using deliver_ok [OF assms(2,3)] by blast
  then show ?thesis
    using True is_delivery_same_data [OF assms(3), of rt R M]
    by (simp add: route_next_hop_def route_of_def lift_result_def bind_action_def emission_def
        delivery_try_ok [OF assms(2)])
next
  case False
  then show ?thesis
    using appends_emits [OF sequenced_post_appends]
    by (simp add: route_next_hop_def route_of_def post_to_actor_ok [OF assms(1)] emission_def is_forward_def [abs_def]
        cast_ref_def)
qed

lemma for_each_emits:
  assumes "\<And>x cx. x \<in> set xs \<Longrightarrow> cx_actor cx = a \<Longrightarrow> \<exists>cx'. f x cx = (Inr (), cx') \<and> emits cx [h x] cx'"
    and "cx_actor cx = a"
  shows "\<exists>ys cx'. for_each f xs cx = (Inr ys, cx') \<and> emits cx (map h xs) cx'"
  using assms
proof (induction xs arbitrary: cx)
  case Nil
  then show ?case by (simp add: emits_refl)
next
  case (Cons x xs)
  obtain cx1 where 1: "f x cx = (Inr (), cx1)" "emits cx [h x] cx1"
    using Cons.prems(1) [of x cx] Cons.prems(2) by auto
  then have "cx_actor cx1 = a" using Cons.prems(2) by (simp add: emits_def)
  with Cons.IH [of cx1] Cons.prems(1) obtain ys cx2 where
    2: "for_each f xs cx1 = (Inr ys, cx2)" "emits cx1 (map h xs) cx2" by fastforce
  have "for_each f (x # xs) cx = (Inr (() # ys), cx2)" using 1(1) 2(1) by (simp add: bind_action_eq(1))
  then show ?case using emits_trans [OF 1(2) 2(2)] by simp
qed

lemma route_all_ok:
  assumes "headers_ok (cm_headers m)" "\<forall>c \<in> set cs. get_by_base_rank (cm_seqs m) (root_rank c) \<noteq> None"
    "same_data data (cm_data m)"
  shows "\<exists>ys cx'. for_each (route_next_hop rt m data) (map (route_of R M p) cs) cx = (Inr ys, cx') \<and>
    emits cx (map (emission rt R M p (cx_actor cx) (m\<lparr>cm_data := data\<rparr>)) cs) cx'"
proof -
  have fe: "for_each f (map g xs) = for_each (\<lambda>x. f (g x)) xs" for f :: "'x \<Rightarrow> ('s, 'f, 'y) action" and g :: "'z \<Rightarrow> 'x" and xs
    by (induction xs) simp_all
  have "\<exists>cx'. route_next_hop rt m data (route_of R M p c) cx1 = (Inr (), cx') \<and>
      emits cx1 [emission rt R M p (cx_actor cx) (m\<lparr>cm_data := data\<rparr>) c] cx'"
    if "c \<in> set cs" "cx_actor cx1 = cx_actor cx" for c and cx1 :: "('a, 'b, 'c, 'd) cast_cx"
    using route_next_hop_ok [OF assms(1) _ assms(3), of c rt R M p cx1] assms(2) that by auto
  then show ?thesis unfolding fe by (intro for_each_emits [of cs "cx_actor cx"]) simp_all
qed

lemma route_cast_message_ok:
  assumes "tinv t" "castable rt m (set (tranks t))"
  shows "\<exists>data cx'. route_cast_message rt m (hop_of R M p t) cx = (Inr (), cx') \<and>
    same_data data (cm_data m) \<and> resolvable rt (mp_parts data) \<and>
    emits cx (is_delivery rt R M m (root_rank t) #
      map (emission rt R M p (cx_actor cx) (m\<lparr>cm_data := data\<rparr>)) (kids p t)) cx'"
proof -
  have c: "headers_ok (cm_headers m)" "resolvable rt (mp_parts (cm_data m))"
    "\<forall>r \<in> set (tranks t). get_by_base_rank (cm_seqs m) r \<noteq> None" using assms(2) by (auto simp: castable_def)
  have root: "get_by_base_rank (cm_seqs m) (root_rank t) \<noteq> None" using c(3) root_in_ranks [OF assms(1)] by blast
  have "root_rank k \<in> set (tranks t)" if "k \<in> set (kids p t)" for k
    using kid_ranks [OF assms(1) that] root_in_ranks [OF kid_inv [OF assms(1) that]] by blast
  then have ks: "\<forall>k \<in> set (kids p t). get_by_base_rank (cm_seqs m) (root_rank k) \<noteq> None" using c(3) by blast
  obtain data cx1 where 1: "split_ports rt (cm_data m) (length (kids p t)) True cx = (Inr data, cx1)" "quiet cx cx1"
    "same_data data (cm_data m)" "resolvable rt (mp_parts data)" using split_ports_ok [OF c(2)] by blast
  obtain cx2 where 2: "deliver_to_destination rt (delivery_of m (root_rank t)) (dest_of R M (root_rank t)) data cx1 = (Inr (), cx2)"
    "emits cx1 [is_delivery rt R M m (root_rank t)] cx2" using deliver_ok [OF root 1(3)] by blast
  obtain ys cx3 where 3: "for_each (route_next_hop rt m data) (map (route_of R M p) (kids p t)) cx2 = (Inr ys, cx3)"
    "emits cx2 (map (emission rt R M p (cx_actor cx2) (m\<lparr>cm_data := data\<rparr>)) (kids p t)) cx3"
    using route_all_ok [OF c(1) ks 1(3)] by blast
  have "cx_actor cx2 = cx_actor cx" using 1(2) 2(2) by (simp add: emits_def quiet_def)
  then have "emits cx (is_delivery rt R M m (root_rank t) #
      map (emission rt R M p (cx_actor cx) (m\<lparr>cm_data := data\<rparr>)) (kids p t)) cx3"
    using emits_quiet [OF 1(2) emits_trans [OF 2(2) 3(2)]] by simp
  moreover have "route_cast_message rt m (hop_of R M p t) cx = (Inr (), cx3)"
    using 1(1) 2(1) 3(1)
    by (simp add: route_cast_message_def hop_of_def bind_action_def lift_result_def delivery_try_ok [OF root])
  ultimately show ?thesis using 1(3,4) by blast
qed

end
