(* ===== verification/Cast_Net.thy ===== *)
theory Cast_Net
  imports Cast_Routes
begin

text \<open>
  The cast actors of all procs as one system. The network holds the messages in flight between
  actors in the order they were posted; a step delivers a message that no earlier one on the same
  channel (same sender, same receiving actor) precedes, which is the ordering guarantee the cast
  layer relies on, and runs the handler of the receiving cast actor. What leaves the cast layer,
  deliveries and returned messages, goes to a log.

  An invariant over reachable configurations gives each tile of the communication tree a phase;
  it shows that setup always comes before casts and teardown after them, that no handler fails,
  and that what has been delivered together with what the messages in flight will still deliver
  never changes.
\<close>

section \<open>The network\<close>

record ('l, 'r, 'b, 'e) net =
  n_hops :: "'l actor_addr \<Rightarrow> 'l cast_actor"
  n_cx :: "'l actor_addr \<Rightarrow> ('l, 'r, 'b, 'e) cast_cx"
  n_flight :: "('l, ('l, 'r, 'b) wire) envelope list"
  n_log :: "('l, ('l, 'r, 'b) wire) envelope list"
  n_failed :: "'l actor_addr set"

definition dest_key :: "('l, 'w) envelope \<Rightarrow> 'l actor_addr" where
  "dest_key e = actor_addr_key (addr_actor (env_dest e))"

definition sender_key :: "('l, 'w) envelope \<Rightarrow> 'l actor_addr" where
  "sender_key e = actor_addr_key (env_sender e)"

definition same_channel :: "('l, 'w) envelope \<Rightarrow> ('l, 'w) envelope \<Rightarrow> bool" where
  "same_channel e e' \<longleftrightarrow> sender_key e = sender_key e' \<and> dest_key e = dest_key e'"

definition for_cast_actor :: "('l, ('l, 'r, 'b) wire) envelope \<Rightarrow> bool" where
  "for_cast_actor e =
     (case env_data e of WCreate _ \<Rightarrow> True | WCast _ \<Rightarrow> True | WDestroy _ \<Rightarrow> True | _ \<Rightarrow> False)"

text \<open>The handlers exported by \<open>CastActor\<close>.\<close>

definition handle :: "('l, 'r, 'b, 'e) cast_runtime \<Rightarrow> ('l, ('l, 'r, 'b) wire) envelope \<Rightarrow> 'l cast_actor
    \<Rightarrow> ('l, 'r, 'b, 'e, 'l cast_actor) cast_action" where
  "handle rt e hops =
     (case env_data e of
        WCreate m \<Rightarrow> handle_create rt m hops
      | WCast m \<Rightarrow> handle_cast_message rt (env_headers e) m hops
      | WDestroy m \<Rightarrow> handle_destroy rt m hops
      | _ \<Rightarrow> return_action hops)"

definition receive :: "('l, 'r, 'b, 'e) cast_runtime \<Rightarrow> ('l, ('l, 'r, 'b) wire) envelope
    \<Rightarrow> ('l, ('l, 'r, 'b) wire) envelope list \<Rightarrow> ('l, 'r, 'b, 'e) net \<Rightarrow> ('l, 'r, 'b, 'e) net" where
  "receive rt e rest n =
     (let a = dest_key e;
          (r, cx) = handle rt e (n_hops n a) ((n_cx n a)\<lparr>cx_out := []\<rparr>)
      in n\<lparr>n_hops := (n_hops n)(a := (case r of Inl _ \<Rightarrow> n_hops n a | Inr h \<Rightarrow> h)),
           n_cx := (n_cx n)(a := cx),
           n_flight := rest @ filter for_cast_actor (cx_out cx),
           n_log := n_log n @ filter (\<lambda>x. \<not> for_cast_actor x) (cx_out cx),
           n_failed := (case r of Inl _ \<Rightarrow> insert a (n_failed n) | Inr _ \<Rightarrow> n_failed n)\<rparr>)"

inductive step :: "('l, 'r, 'b, 'e) cast_runtime \<Rightarrow> ('l, 'r, 'b, 'e) net \<Rightarrow> ('l, 'r, 'b, 'e) net \<Rightarrow> bool" for rt where
  deliver: "n_flight n = xs @ e # ys \<Longrightarrow> \<forall>e' \<in> set xs. \<not> same_channel e' e \<Longrightarrow> step rt n (receive rt e (xs @ ys) n)"

inductive_cases step_cases: "step rt n n'"

section \<open>Domains\<close>

definition node_key :: "(nat \<Rightarrow> 'l actor_addr) \<Rightarrow> tile \<Rightarrow> 'l actor_addr" where
  "node_key M t = actor_addr_key (cast_ref M t)"

definition root_tile :: "region \<Rightarrow> tile" where
  "root_tile R = Tile (reg_slice R)"

text \<open>An edge of the tree whose lower tile is served by a cast actor.\<close>

definition edge :: "region \<Rightarrow> tiling_policy \<Rightarrow> tile \<Rightarrow> tile \<Rightarrow> bool" where
  "edge R p u t \<longleftrightarrow> desc p (root_tile R) u \<and> t \<in> set (inner_kids p u)"

definition domain_ok :: "region \<Rightarrow> (nat \<Rightarrow> 'l actor_addr) \<Rightarrow> bool" where
  "domain_ok R M \<longleftrightarrow> region_inv R \<and>
     inj_on (\<lambda>r. actor_addr_key (cast_actor_ref_for_member (M r))) (set (ranks (reg_slice R)))"

definition node_src :: "'l actor_addr \<Rightarrow> region \<Rightarrow> (nat \<Rightarrow> 'l actor_addr) \<Rightarrow> tile \<Rightarrow> 'l actor_addr" where
  "node_src ca R M t = (if t = root_tile R then ca else node_key M t)"

lemma root_tile_inv: "domain_ok R M \<Longrightarrow> tinv (root_tile R)"
  by (simp add: domain_ok_def region_inv_def root_tile_def)

lemma edge_facts:
  assumes "domain_ok R M" "edge R p u t"
  shows "tinv u" "tinv t" "t \<in> set (kids p u)" "kids p t \<noteq> []" "desc p (root_tile R) u" "desc p (root_tile R) t"
    "set (tranks t) \<subseteq> set (ranks (reg_slice R))" "t \<noteq> root_tile R"
proof -
  note r = root_tile_inv [OF assms(1)]
  show d: "desc p (root_tile R) u" and k: "t \<in> set (kids p u)" and "kids p t \<noteq> []"
    using assms(2) by (auto simp: edge_def inner_kids_def)
  show u: "tinv u" using desc_inv [OF d r] .
  show "tinv t" using kid_inv [OF u k] .
  show dt: "desc p (root_tile R) t" using desc_kid [OF d k] .
  show "set (tranks t) \<subseteq> set (ranks (reg_slice R))" using desc_ranks [OF dt r] by (simp add: root_tile_def)
  show "t \<noteq> root_tile R" using kid_less [OF u k] desc_len [OF d r] by auto
qed

lemma node_key_inj:
  assumes "domain_ok R M" "edge R p u t" "edge R p v w" "node_key M t = node_key M w"
  shows "t = w"
proof -
  note t = edge_facts [OF assms(1,2)] and w = edge_facts [OF assms(1,3)]
  have "root_rank t \<in> set (ranks (reg_slice R))" "root_rank w \<in> set (ranks (reg_slice R))"
    using root_in_ranks t(2,7) w(2,7) by blast+
  then have "root_rank t = root_rank w"
    using assms(1,4) by (auto simp: domain_ok_def node_key_def cast_ref_def dest: inj_onD)
  then show ?thesis using desc_root_inj [OF root_tile_inv [OF assms(1)] t(6) w(6)] by blast
qed

lemma edge_parent: "domain_ok R M \<Longrightarrow> edge R p u t \<Longrightarrow> edge R p v t \<Longrightarrow> u = v"
  using desc_parent_unique [OF root_tile_inv] edge_facts by metis

lemma edge_kid: "domain_ok R M \<Longrightarrow> edge R p u t \<Longrightarrow> c \<in> set (inner_kids p t) \<Longrightarrow> edge R p t c"
  unfolding edge_def [of R p t c] using edge_facts(6) by blast

section \<open>The invariant\<close>

datatype phase = Fresh | Pending | Live | Done

definition channel :: "(nat \<Rightarrow> 'l actor_addr) \<Rightarrow> ('l, 'w) envelope list \<Rightarrow> tile \<Rightarrow> 'w list" where
  "channel M es t = map env_data (filter (\<lambda>e. dest_key e = node_key M t) es)"

definition casts_ok :: "('l, 'r, 'b, 'e) cast_runtime \<Rightarrow> uid \<Rightarrow> tile \<Rightarrow> ('l, 'r, 'b) cast_message list \<Rightarrow> bool" where
  "casts_ok rt d t ms \<longleftrightarrow> (\<forall>m \<in> set ms. uid_key (cm_domain m) = uid_key d \<and> castable rt m (set (tranks t)))"

definition final :: "phase \<Rightarrow> 'l destroy_cast_domain \<Rightarrow> ('l, 'r, 'b) wire list" where
  "final ph dm = (if ph = Done then [WDestroy dm] else [])"

text \<open>The state of a tile's hop \<open>h\<close> and incoming channel \<open>c\<close>, by its phase and its parent's.\<close>

definition edge_ok :: "('l, 'r, 'b, 'e) cast_runtime \<Rightarrow> region \<Rightarrow> (nat \<Rightarrow> 'l actor_addr) \<Rightarrow> tiling_policy
    \<Rightarrow> 'l destroy_cast_domain \<Rightarrow> phase \<Rightarrow> phase \<Rightarrow> tile \<Rightarrow> 'l cast_hop option \<Rightarrow> ('l, 'r, 'b) wire list \<Rightarrow> bool" where
  "edge_ok rt R M p dm pu pt t h c =
     (case pt of
        Fresh \<Rightarrow> h = None \<and> c = [] \<and> (pu = Fresh \<or> pu = Pending)
      | Pending \<Rightarrow> h = None \<and> (pu = Live \<or> pu = Done) \<and>
          (\<exists>ms. c = WCreate (create_msg (dc_domain dm) R M p t) # map WCast ms @ final pu dm \<and>
             casts_ok rt (dc_domain dm) t ms)
      | Live \<Rightarrow> h = Some (hop_of R M p t) \<and> (pu = Live \<or> pu = Done) \<and>
          (\<exists>ms. c = map WCast ms @ final pu dm \<and> casts_ok rt (dc_domain dm) t ms)
      | Done \<Rightarrow> h = None \<and> c = [] \<and> pu = Done)"

definition senders_ok :: "'l actor_addr \<Rightarrow> region \<Rightarrow> (nat \<Rightarrow> 'l actor_addr) \<Rightarrow> tiling_policy
    \<Rightarrow> ('l, 'w) envelope list \<Rightarrow> bool" where
  "senders_ok ca R M p es \<longleftrightarrow>
     (\<forall>e \<in> set es. \<exists>u t. edge R p u t \<and> dest_key e = node_key M t \<and> sender_key e = node_src ca R M u)"

definition net_inv :: "('l, 'r, 'b, 'e) cast_runtime \<Rightarrow> 'l actor_addr \<Rightarrow> region \<Rightarrow> (nat \<Rightarrow> 'l actor_addr)
    \<Rightarrow> tiling_policy \<Rightarrow> 'l destroy_cast_domain \<Rightarrow> (tile \<Rightarrow> phase) \<Rightarrow> ('l, 'r, 'b, 'e) net \<Rightarrow> bool" where
  "net_inv rt ca R M p dm ph n \<longleftrightarrow>
     (\<forall>u t. edge R p u t \<longrightarrow> edge_ok rt R M p dm (ph u) (ph t) t
        (n_hops n (node_key M t) (uid_key (dc_domain dm))) (channel M (n_flight n) t)) \<and>
     senders_ok ca R M p (n_flight n) \<and>
     (\<forall>u t. edge R p u t \<longrightarrow> actor_addr_key (cx_actor (n_cx n (node_key M t))) = node_key M t) \<and>
     n_failed n = {} \<and> (\<forall>e \<in> set (n_log n). is_data (env_data e))"

section \<open>What is still to be delivered\<close>

definition tile_at :: "region \<Rightarrow> (nat \<Rightarrow> 'l actor_addr) \<Rightarrow> tiling_policy \<Rightarrow> 'l actor_addr \<Rightarrow> tile" where
  "tile_at R M p k = (THE t. (\<exists>u. edge R p u t) \<and> node_key M t = k)"

lemma tile_at_eq: "domain_ok R M \<Longrightarrow> edge R p u t \<Longrightarrow> tile_at R M p (node_key M t) = t"
  unfolding tile_at_def by (rule the_equality) (auto dest: node_key_inj)

definition due_of :: "('l, 'r, 'b, 'e) cast_runtime \<Rightarrow> region \<Rightarrow> (nat \<Rightarrow> 'l actor_addr) \<Rightarrow> ('l, 'r, 'b) wire \<Rightarrow> tile
    \<Rightarrow> ('l port_addr \<times> 'l flattrs \<times> ('b \<times> ('l, 'r, 'b) skel list) option) multiset" where
  "due_of rt R M x t = (case x of WCast m \<Rightarrow> image_mset (delivered rt R M m) (mset (tranks t)) | _ \<Rightarrow> {#})"

definition due :: "('l, 'r, 'b, 'e) cast_runtime \<Rightarrow> region \<Rightarrow> (nat \<Rightarrow> 'l actor_addr) \<Rightarrow> tiling_policy
    \<Rightarrow> ('l, ('l, 'r, 'b) wire) envelope \<Rightarrow> ('l port_addr \<times> 'l flattrs \<times> ('b \<times> ('l, 'r, 'b) skel list) option) multiset" where
  "due rt R M p e = due_of rt R M (env_data e) (tile_at R M p (dest_key e))"

definition total_due :: "('l, 'r, 'b, 'e) cast_runtime \<Rightarrow> region \<Rightarrow> (nat \<Rightarrow> 'l actor_addr) \<Rightarrow> tiling_policy
    \<Rightarrow> ('l, 'r, 'b, 'e) net \<Rightarrow> ('l port_addr \<times> 'l flattrs \<times> ('b \<times> ('l, 'r, 'b) skel list) option) multiset" where
  "total_due rt R M p n = image_mset observe (mset (n_log n)) + (\<Sum>e\<leftarrow>n_flight n. due rt R M p e)"

definition work :: "region \<Rightarrow> (nat \<Rightarrow> 'l actor_addr) \<Rightarrow> tiling_policy \<Rightarrow> ('l, 'r, 'b, 'e) net \<Rightarrow> nat" where
  "work R M p n = (\<Sum>e\<leftarrow>n_flight n. slice_len (tile_space (tile_at R M p (dest_key e))))"

section \<open>Channels\<close>

lemma channel_append [simp]: "channel M (xs @ ys) t = channel M xs t @ channel M ys t"
  by (simp add: channel_def)

lemma channel_Cons: "channel M (e # es) t = (if dest_key e = node_key M t then [env_data e] else []) @ channel M es t"
  by (simp add: channel_def)

lemma channel_Nil [simp]: "channel M [] t = []"
  by (simp add: channel_def)

lemma dest_key_handler_port:
  "sends a e (handler_port rt ty b, w) \<Longrightarrow> dest_key e = actor_addr_key b"
  by (cases b) (simp add: sends_def dest_key_def handler_port_def port_addr_of_def addr_actor_def)

lemma kids_distinct:
  assumes "tinv t"
  shows "distinct (kids p t)"
proof (rule ccontr)
  assume "\<not> distinct (kids p t)"
  then obtain xs ys zs c where k: "kids p t = xs @ c # ys @ c # zs"
    using not_distinct_decomp by fastforce
  have "1 \<le> count (mset (tranks c)) (root_rank c)"
    using root_in_ranks [OF kid_inv [OF assms, of c p]] k by (simp add: Suc_le_eq count_mset_gt_0)
  moreover have "mset (tranks t) = add_mset (root_rank t) (mset (tranks c) + mset (tranks c) +
      ((\<Sum>c\<leftarrow>xs. mset (tranks c)) + (\<Sum>c\<leftarrow>ys. mset (tranks c)) + (\<Sum>c\<leftarrow>zs. mset (tranks c))))"
    using kids_mset [OF assms, of p] by (simp add: k ac_simps)
  ultimately have "1 < count (mset (tranks t)) (root_rank c)"
    by (simp only: count_add_mset count_union split: if_splits) linarith
  then show False using ranks_props(1) [OF assms] by (auto simp: distinct_count_atmost_1 split: if_splits)
qed

text \<open>The messages one actor sends to the inner children of its tile.\<close>

definition fan_out :: "('l, 'r, 'b, 'e) cast_runtime \<Rightarrow> (nat \<Rightarrow> 'l actor_addr) \<Rightarrow> 'l actor_addr
    \<Rightarrow> (tile \<Rightarrow> 'w) \<Rightarrow> tile list \<Rightarrow> ('l, 'w) envelope list \<Rightarrow> bool" where
  "fan_out rt M a w cs fs \<longleftrightarrow>
     list_all2 (\<lambda>e c. \<exists>ty. sends a e (handler_port rt ty (cast_ref M c), w c)) fs cs"

lemma fan_out_dest: "fan_out rt M a w cs fs \<Longrightarrow> map dest_key fs = map (node_key M) cs"
  unfolding fan_out_def by (induction rule: list_all2_induct) (auto simp: node_key_def dest_key_handler_port)

lemma fan_out_channel:
  assumes "fan_out rt M a w cs fs" "distinct cs" "\<forall>c \<in> set cs. node_key M c = node_key M v \<longrightarrow> c = v"
  shows "channel M fs v = (if v \<in> set cs then [w v] else [])"
  using assms unfolding fan_out_def
proof (induction rule: list_all2_induct)
  case (Cons e es c cs)
  have e: "env_data e = w c" "dest_key e = node_key M c"
    using Cons.hyps by (auto simp: sends_def node_key_def dest_key_handler_port)
  show ?case
  proof (cases "c = v")
    case True
    then show ?thesis using Cons e by (simp add: channel_Cons)
  next
    case False
    then have "node_key M c \<noteq> node_key M v" using Cons.prems(2) by auto
    then show ?thesis using Cons e False by (simp add: channel_Cons)
  qed
qed simp

lemma fan_out_inner:
  assumes "domain_ok R M" "desc p (root_tile R) t" "edge R p u v" "fan_out rt M a w (inner_kids p t) fs"
  shows "channel M fs v = (if v \<in> set (inner_kids p t) then [w v] else [])"
proof (rule fan_out_channel [OF assms(4)])
  show "distinct (inner_kids p t)"
    using kids_distinct [OF desc_inv [OF assms(2) root_tile_inv [OF assms(1)]]] by (simp add: inner_kids_def)
  show "\<forall>c \<in> set (inner_kids p t). node_key M c = node_key M v \<longrightarrow> c = v"
    using node_key_inj [OF assms(1) _ assms(3)] assms(2) by (auto simp: edge_def)
qed

lemma fan_out_mem:
  "fan_out rt M a w cs fs \<Longrightarrow> e \<in> set fs \<Longrightarrow> \<exists>c \<in> set cs. \<exists>ty. sends a e (handler_port rt ty (cast_ref M c), w c)"
  unfolding fan_out_def by (induction rule: list_all2_induct) auto

lemma fan_out_senders:
  assumes "desc p (root_tile R) t" "fan_out rt M a w (inner_kids p t) fs" "actor_addr_key a = node_src ca R M t"
  shows "senders_ok ca R M p fs"
  unfolding senders_ok_def
proof
  fix e
  assume "e \<in> set fs"
  from fan_out_mem [OF assms(2) this] obtain c ty where c: "c \<in> set (inner_kids p t)"
    "sends a e (handler_port rt ty (cast_ref M c), w c)" by blast
  have "edge R p t c" using assms(1) c(1) by (simp add: edge_def)
  moreover have "dest_key e = node_key M c" unfolding node_key_def by (rule dest_key_handler_port [OF c(2)])
  moreover have "sender_key e = node_src ca R M t" using c(2) assms(3) by (simp add: sends_def sender_key_def)
  ultimately show "\<exists>u t. edge R p u t \<and> dest_key e = node_key M t \<and> sender_key e = node_src ca R M u" by blast
qed

lemma sender_of:
  assumes "domain_ok R M" "senders_ok ca R M p es" "e \<in> set es" "edge R p u t" "dest_key e = node_key M t"
  shows "sender_key e = node_src ca R M u"
proof -
  obtain u' t' where e: "edge R p u' t'" "dest_key e = node_key M t'" "sender_key e = node_src ca R M u'"
    using bspec [OF assms(2) [unfolded senders_ok_def] assms(3)] by blast
  have "t' = t" by (rule node_key_inj [OF assms(1) e(1) assms(4)]) (rule trans [OF e(2) [symmetric] assms(5)])
  then have "u' = u" using edge_parent [OF assms(1) _ assms(4)] e(1) by simp
  then show ?thesis using e(3) by simp
qed

lemma channel_head:
  assumes "domain_ok R M" "senders_ok ca R M p (xs @ e # ys)" "\<forall>e' \<in> set xs. \<not> same_channel e' e"
    "edge R p u t" "dest_key e = node_key M t"
  shows "channel M (xs @ e # ys) t = env_data e # channel M (xs @ ys) t"
proof -
  have e: "sender_key e = node_src ca R M u" by (rule sender_of [OF assms(1,2) _ assms(4,5)]) simp
  have "dest_key e' \<noteq> node_key M t" if e': "e' \<in> set xs" for e'
  proof
    assume d: "dest_key e' = node_key M t"
    have "sender_key e' = node_src ca R M u" by (rule sender_of [OF assms(1,2) _ assms(4) d]) (simp add: e')
    then have "same_channel e' e" using e d assms(5) by (simp add: same_channel_def)
    then show False using assms(3) e' by blast
  qed
  then have "channel M xs t = []" unfolding channel_def by (simp add: filter_empty_conv)
  then show ?thesis using assms(5) by (simp add: channel_Cons)
qed

section \<open>One handler\<close>

text \<open>How a tile moves from phase to phase: the message it takes, the message it sends to each inner
  child and what it delivers.\<close>

inductive advance :: "('l, 'r, 'b, 'e) cast_runtime \<Rightarrow> region \<Rightarrow> (nat \<Rightarrow> 'l actor_addr) \<Rightarrow> tiling_policy
    \<Rightarrow> 'l destroy_cast_domain \<Rightarrow> tile \<Rightarrow> phase \<Rightarrow> ('l, 'r, 'b) wire \<Rightarrow> phase \<Rightarrow> (tile \<Rightarrow> ('l, 'r, 'b) wire)
    \<Rightarrow> ('l port_addr \<times> 'l flattrs \<times> ('b \<times> ('l, 'r, 'b) skel list) option) multiset \<Rightarrow> bool"
  for rt R M p dm t where
  create: "advance rt R M p dm t Pending (WCreate (create_msg (dc_domain dm) R M p t)) Live
    (\<lambda>c. WCreate (create_msg (dc_domain dm) R M p c)) {#}"
| cast: "\<forall>c \<in> set (inner_kids p t). casts_ok rt (dc_domain dm) c [f c] \<and>
      (\<forall>r \<in> set (tranks c). delivered rt R M (f c) r = delivered rt R M m r) \<Longrightarrow>
    advance rt R M p dm t Live (WCast m) Live (\<lambda>c. WCast (f c))
      (image_mset (delivered rt R M m) (add_mset (root_rank t) (mset (map root_rank (filter (\<lambda>c. kids p c = []) (kids p t))))))"
| destroy: "advance rt R M p dm t Live (WDestroy dm) Done (\<lambda>_. WDestroy dm) {#}"

definition outcome :: "('l, 'r, 'b, 'e) cast_runtime \<Rightarrow> (nat \<Rightarrow> 'l actor_addr) \<Rightarrow> 'l actor_addr
    \<Rightarrow> (tile \<Rightarrow> ('l, 'r, 'b) wire)
    \<Rightarrow> ('l port_addr \<times> 'l flattrs \<times> ('b \<times> ('l, 'r, 'b) skel list) option) multiset
    \<Rightarrow> tile list \<Rightarrow> ('l, ('l, 'r, 'b) wire) envelope list \<Rightarrow> bool" where
  "outcome rt M a w D cs es \<longleftrightarrow> fan_out rt M a w cs (filter for_cast_actor es) \<and>
     (\<forall>e \<in> set es. \<not> for_cast_actor e \<longrightarrow> is_data (env_data e)) \<and>
     image_mset observe (mset (filter (\<lambda>e. \<not> for_cast_actor e) es)) = D"

lemma sends_for_cast_actor:
  "sends a e (q, WCreate x) \<Longrightarrow> for_cast_actor e" "sends a e (q, WCast y) \<Longrightarrow> for_cast_actor e"
  "sends a e (q, WDestroy z) \<Longrightarrow> for_cast_actor e"
  by (simp_all add: sends_def for_cast_actor_def)

lemma is_data_not_for: "is_data (env_data e) \<Longrightarrow> \<not> for_cast_actor e"
  by (simp add: is_data_def for_cast_actor_def split: wire.splits)

lemma outcome_forward:
  assumes "appends cx (map (\<lambda>c. (handler_port rt ty (cast_ref M c), w c)) cs) cx'" "cx_out cx = []"
    "\<And>c e q. sends (cx_actor cx) e (q, w c) \<Longrightarrow> for_cast_actor e"
  shows "cx_actor cx' = cx_actor cx \<and> outcome rt M (cx_actor cx) w {#} cs (cx_out cx')"
proof -
  have f: "fan_out rt M (cx_actor cx) w cs (cx_out cx')" "cx_actor cx' = cx_actor cx"
    using assms(1,2) by (auto simp: appends_def fan_out_def list_all2_map2 elim!: list_all2_mono)
  have "\<forall>e \<in> set (cx_out cx'). for_cast_actor e" using fan_out_mem [OF f(1)] assms(3) by blast
  then have "filter for_cast_actor (cx_out cx') = cx_out cx'" "filter (\<lambda>e. \<not> for_cast_actor e) (cx_out cx') = []"
    by (auto simp: filter_id_conv filter_empty_conv)
  then show ?thesis using f \<open>\<forall>e \<in> set (cx_out cx'). for_cast_actor e\<close> by (auto simp: outcome_def)
qed

lemma outcome_kids:
  assumes "list_all2 (\<lambda>e c. emission rt R M p a (g c) c e) es cs"
    "\<forall>c \<in> set cs. delivered rt R M (g c) (root_rank c) = delivered rt R M m (root_rank c)"
  shows "outcome rt M a (\<lambda>c. WCast (g c))
    (image_mset (delivered rt R M m) (mset (map root_rank (filter (\<lambda>c. kids p c = []) cs))))
    (filter (\<lambda>c. kids p c \<noteq> []) cs) es"
  using assms
proof (induction rule: list_all2_induct)
  case Nil
  then show ?case by (simp add: outcome_def fan_out_def)
next
  case (Cons e es c cs)
  then have IH: "outcome rt M a (\<lambda>c. WCast (g c))
    (image_mset (delivered rt R M m) (mset (map root_rank (filter (\<lambda>c. kids p c = []) cs))))
    (filter (\<lambda>c. kids p c \<noteq> []) cs) es" by simp
  show ?case
  proof (cases "kids p c = []")
    case True
    then have "is_delivery rt R M (g c) (root_rank c) e" using Cons.hyps(1) by (simp add: emission_def)
    then have d: "is_data (env_data e)" "observe e = delivered rt R M m (root_rank c)"
      using Cons.prems by (simp_all add: is_delivery_def)
    then show ?thesis using IH True is_data_not_for [OF d(1)] by (auto simp: outcome_def)
  next
    case False
    then have f: "sends a e (handler_port rt ''CastMessage'' (cast_ref M c), WCast (g c))"
      using Cons.hyps(1) by (simp add: emission_def is_forward_def)
    then show ?thesis using IH False sends_for_cast_actor(2) [OF f] by (auto simp: outcome_def fan_out_def)
  qed
qed

lemma outcome_route:
  assumes "emits cx (is_delivery rt R M m (root_rank t) #
      map (emission rt R M p (cx_actor cx) (m\<lparr>cm_data := data\<rparr>)) (kids p t)) cx'"
    "cx_out cx = []" "same_data data (cm_data m)"
  shows "cx_actor cx' = cx_actor cx \<and> outcome rt M (cx_actor cx) (\<lambda>_. WCast (m\<lparr>cm_data := data\<rparr>))
    (image_mset (delivered rt R M m) (add_mset (root_rank t) (mset (map root_rank (filter (\<lambda>c. kids p c = []) (kids p t))))))
    (inner_kids p t) (cx_out cx')"
proof -
  obtain e es where es: "cx_out cx' = e # es" "is_delivery rt R M m (root_rank t) e"
    "list_all2 (\<lambda>e Q. Q e) es (map (emission rt R M p (cx_actor cx) (m\<lparr>cm_data := data\<rparr>)) (kids p t))"
    using assms(1,2) by (auto simp: emits_def list_all2_Cons2)
  have d: "is_data (env_data e)" "observe e = delivered rt R M m (root_rank t)"
    using es(2) by (simp_all add: is_delivery_def)
  have "outcome rt M (cx_actor cx) (\<lambda>_. WCast (m\<lparr>cm_data := data\<rparr>))
      (image_mset (delivered rt R M m) (mset (map root_rank (filter (\<lambda>c. kids p c = []) (kids p t)))))
      (inner_kids p t) es"
    unfolding inner_kids_def using es(3) delivered_same_data [OF assms(3)]
    by (intro outcome_kids [where g = "\<lambda>_. m\<lparr>cm_data := data\<rparr>"]) (auto simp: list_all2_map2)
  then show ?thesis
    using d es(1) is_data_not_for [of e] assms(1) by (auto simp: outcome_def emits_def)
qed

lemma edge_ok_head:
  assumes "edge_ok rt R M p dm pu pt t h (x # rest)"
  obtains "pt = Pending" "x = WCreate (create_msg (dc_domain dm) R M p t)" "h = None"
  | m where "pt = Live" "x = WCast m" "casts_ok rt (dc_domain dm) t [m]" "h = Some (hop_of R M p t)"
  | "pt = Live" "x = WDestroy dm" "h = Some (hop_of R M p t)"
proof (cases pt)
  case Live
  then obtain ms where ms: "x # rest = map WCast ms @ final pu dm" "casts_ok rt (dc_domain dm) t ms"
    "h = Some (hop_of R M p t)" using assms by (auto simp: edge_ok_def)
  show ?thesis
  proof (cases ms)
    case Nil
    then show ?thesis using ms Live that(3) by (auto simp: final_def split: if_splits)
  next
    case (Cons m ms')
    then show ?thesis using ms Live that(2) by (auto simp: casts_ok_def)
  qed
qed (use assms that in \<open>auto simp: edge_ok_def\<close>)

definition hop_in :: "phase \<Rightarrow> 'l cast_hop \<Rightarrow> 'l cast_hop option" where
  "hop_in ph hop = (if ph = Live then Some hop else None)"

lemma handle_ok:
  assumes "domain_ok R M" "edge R p u t" "cx_out cx = []"
    "edge_ok rt R M p dm pu pt t (hops (uid_key (dc_domain dm))) (env_data e # rest)"
  shows "\<exists>pt' w D cx'. advance rt R M p dm t pt (env_data e) pt' w D \<and>
    handle rt e hops cx = (Inr (hops(uid_key (dc_domain dm) := hop_in pt' (hop_of R M p t))), cx') \<and>
    cx_actor cx' = cx_actor cx \<and> outcome rt M (cx_actor cx) w D (inner_kids p t) (cx_out cx')"
  using assms(4)
proof (cases rule: edge_ok_head)
  case 1
  note t = edge_facts [OF assms(1,2)]
  have "region_inv R" using assms(1) by (simp add: domain_ok_def)
  from handle_create_ok [OF this t(2,7), of hops "dc_domain dm" rt M p cx] 1(3) obtain cx' where
    h: "handle_create rt (create_msg (dc_domain dm) R M p t) hops cx =
      (Inr (hops(uid_key (dc_domain dm) \<mapsto> hop_of R M p t)), cx')"
    and a: "appends cx (creates rt (dc_domain dm) R M p (inner_kids p t)) cx'" by blast
  have "cx_actor cx' = cx_actor cx \<and> outcome rt M (cx_actor cx)
      (\<lambda>c. WCreate (create_msg (dc_domain dm) R M p c)) {#} (inner_kids p t) (cx_out cx')"
    by (rule outcome_forward [OF a [unfolded creates_def] assms(3)]) (rule sends_for_cast_actor(1))
  moreover have "handle rt e hops cx = (Inr (hops(uid_key (dc_domain dm) := hop_in Live (hop_of R M p t))), cx')"
    using h 1(2) by (simp add: handle_def hop_in_def)
  moreover have "advance rt R M p dm t pt (env_data e) Live (\<lambda>c. WCreate (create_msg (dc_domain dm) R M p c)) {#}"
    unfolding 1(1,2) by (rule advance.create)
  ultimately show ?thesis by blast
next
  case (2 m)
  have m: "uid_key (cm_domain m) = uid_key (dc_domain dm)" "castable rt m (set (tranks t))"
    using 2(3) by (auto simp: casts_ok_def)
  from route_cast_message_ok [OF edge_facts(2) [OF assms(1,2)] m(2), of R M p cx] obtain data cx' where
    r: "route_cast_message rt m (hop_of R M p t) cx = (Inr (), cx')"
    and d: "same_data data (cm_data m)" "resolvable rt (mp_parts data)"
    and em: "emits cx (is_delivery rt R M m (root_rank t) #
      map (emission rt R M p (cx_actor cx) (m\<lparr>cm_data := data\<rparr>)) (kids p t)) cx'" by blast
  have "handle rt e hops cx = (Inr (hops(uid_key (dc_domain dm) := hop_in Live (hop_of R M p t))), cx')"
  proof -
    have "hops (uid_key (cm_domain m)) = Some (hop_of R M p t)" using 2(4) by (simp only: m(1))
    then show ?thesis
      using r 2(2) fun_upd_idem [of hops, OF 2(4)] by (simp add: handle_def handle_cast_message_def hop_in_def)
  qed
  moreover have "advance rt R M p dm t pt (env_data e) Live (\<lambda>_. WCast (m\<lparr>cm_data := data\<rparr>))
      (image_mset (delivered rt R M m) (add_mset (root_rank t) (mset (map root_rank (filter (\<lambda>c. kids p c = []) (kids p t))))))"
    unfolding 2(1,2)
  proof (rule advance.cast, intro ballI conjI)
    fix c
    assume "c \<in> set (inner_kids p t)"
    then have "set (tranks c) \<subseteq> set (tranks t)"
      using kid_ranks [OF edge_facts(2) [OF assms(1,2)], of c p] by (auto simp: inner_kids_def)
    then show "casts_ok rt (dc_domain dm) c [m\<lparr>cm_data := data\<rparr>]"
      using 2(3) d(2) by (auto simp: casts_ok_def castable_def)
  qed (rule delivered_same_data [OF d(1)])
  ultimately show ?thesis using outcome_route [OF em assms(3) d(1)] by blast
next
  case 3
  from handle_destroy_ok [of hops dm R M p t rt cx] 3(3) obtain cx' where
    h: "handle_destroy rt dm hops cx = (Inr (hops(uid_key (dc_domain dm) := None)), cx')"
    and a: "appends cx (destroys rt M dm (inner_kids p t)) cx'" by blast
  have "cx_actor cx' = cx_actor cx \<and> outcome rt M (cx_actor cx) (\<lambda>_. WDestroy dm) {#} (inner_kids p t) (cx_out cx')"
    by (rule outcome_forward [OF a [unfolded destroys_def] assms(3)]) (rule sends_for_cast_actor(3))
  moreover have "handle rt e hops cx = (Inr (hops(uid_key (dc_domain dm) := hop_in Done (hop_of R M p t))), cx')"
    using h 3(2) by (simp add: handle_def hop_in_def)
  moreover have "advance rt R M p dm t pt (env_data e) Done (\<lambda>_. WDestroy dm) {#}"
    unfolding 3(1,2) by (rule advance.destroy)
  ultimately show ?thesis by blast
qed

section \<open>The invariant is kept\<close>

definition next_phase :: "tiling_policy \<Rightarrow> tile \<Rightarrow> phase \<Rightarrow> (tile \<Rightarrow> phase) \<Rightarrow> tile \<Rightarrow> phase" where
  "next_phase p t pt' ph v =
     (if v = t then pt' else if ph t = Pending \<and> v \<in> set (inner_kids p t) then Pending else ph v)"

lemma edge_ok_taken:
  assumes "advance rt R M p dm t pt x pt' w D" "edge_ok rt R M p dm pu pt t h (x # rest)"
  shows "edge_ok rt R M p dm pu pt' t (hop_in pt' (hop_of R M p t)) rest"
  using assms(1)
proof cases
  case create
  then show ?thesis using assms(2) by (auto simp: edge_ok_def hop_in_def)
next
  case (cast f m)
  obtain ms where ms: "WCast m # rest = map WCast ms @ final pu dm" "casts_ok rt (dc_domain dm) t ms" "pu = Live \<or> pu = Done"
    using assms(2) cast by (auto simp: edge_ok_def)
  then obtain ms' where "ms = m # ms'" by (cases ms) (auto simp: final_def split: if_splits)
  then show ?thesis using ms cast by (auto simp: edge_ok_def hop_in_def casts_ok_def)
next
  case destroy
  obtain ms where ms: "WDestroy dm # rest = map WCast ms @ final pu dm" using assms(2) destroy by (auto simp: edge_ok_def)
  then have "pu = Done" "rest = []" by (cases ms; auto simp: final_def split: if_splits)+
  then show ?thesis using destroy by (simp add: edge_ok_def hop_in_def)
qed

lemma edge_ok_child:
  assumes "advance rt R M p dm t pt x pt' w D" "edge_ok rt R M p dm pt pc c h ch" "c \<in> set (inner_kids p t)"
  shows "edge_ok rt R M p dm pt' (if pt = Pending then Pending else pc) c h (ch @ [w c])"
  using assms(1)
proof cases
  case create
  then show ?thesis using assms(2) by (cases pc) (auto simp: edge_ok_def casts_ok_def final_def)
next
  case (cast f m)
  have f: "casts_ok rt (dc_domain dm) c [f c]" using cast(6) assms(3) by blast
  show ?thesis
  proof (cases pc)
    case Pending
    then obtain ms where ms: "ch = WCreate (create_msg (dc_domain dm) R M p c) # map WCast ms"
      "casts_ok rt (dc_domain dm) c ms" "h = None" using assms(2) cast by (auto simp: edge_ok_def final_def)
    then show ?thesis using f cast Pending
      by (auto simp: edge_ok_def final_def casts_ok_def intro!: exI [of _ "ms @ [f c]"])
  next
    case Live
    then obtain ms where ms: "ch = map WCast ms" "casts_ok rt (dc_domain dm) c ms" "h = Some (hop_of R M p c)"
      using assms(2) cast by (auto simp: edge_ok_def final_def)
    then show ?thesis using f cast Live
      by (auto simp: edge_ok_def final_def casts_ok_def intro!: exI [of _ "ms @ [f c]"])
  qed (use assms(2) cast in \<open>auto simp: edge_ok_def\<close>)
next
  case destroy
  then show ?thesis using assms(2) by (cases pc) (auto simp: edge_ok_def final_def)
qed

lemma edge_ok_fresh_parent:
  "edge_ok rt R M p dm pu pv v h c \<Longrightarrow> pu = Fresh \<or> pu = Pending \<Longrightarrow> pv = Fresh"
  by (cases pv) (auto simp: edge_ok_def)

lemma edge_ok_pending_parent:
  "edge_ok rt R M p dm Fresh pv v h c \<Longrightarrow> edge_ok rt R M p dm Pending pv v h c"
  by (cases pv) (auto simp: edge_ok_def)

text \<open>The edges that do not lead to a tile, when the tile sends to its inner children.\<close>

lemma edges_emit:
  assumes "domain_ok R M" "desc p (root_tile R) t" "advance rt R M p dm t (ph t) x pt' w D"
    and old: "\<And>a v. edge R p a v \<Longrightarrow> edge_ok rt R M p dm (ph a) (ph v) v (h v) (ch v)"
    and av: "edge R p a v" "v \<noteq> t"
  shows "edge_ok rt R M p dm (next_phase p t pt' ph a) (next_phase p t pt' ph v) v (h v)
    (ch v @ (if v \<in> set (inner_kids p t) then [w v] else []))"
proof (cases "a = t")
  case True
  have v: "v \<in> set (inner_kids p t)" using av(1) True by (simp add: edge_def)
  from edge_ok_child [OF assms(3) old [OF av(1), unfolded True] this] v True av(2) show ?thesis
    by (auto simp: next_phase_def split: if_splits)
next
  case False
  have down: "edge R p t c" if "c \<in> set (inner_kids p t)" for c using assms(2) that by (simp add: edge_def)
  have v: "v \<notin> set (inner_kids p t)" using edge_parent [OF assms(1) av(1), of t] False down by blast
  have "edge_ok rt R M p dm (next_phase p t pt' ph a) (ph v) v (h v) (ch v)"
  proof (cases "ph t = Pending \<and> a \<in> set (inner_kids p t)")
    case True
    have "ph a = Fresh" using edge_ok_fresh_parent [OF old [OF down]] True by blast
    then show ?thesis using edge_ok_pending_parent old [OF av(1)] False True by (auto simp: next_phase_def)
  next
    case no: False
    then show ?thesis using old [OF av(1)] False by (auto simp: next_phase_def)
  qed
  then show ?thesis using v av(2) by (simp add: next_phase_def)
qed

lemma net_inv_edge:
  "net_inv rt ca R M p dm ph n \<Longrightarrow> edge R p u t \<Longrightarrow> edge_ok rt R M p dm (ph u) (ph t) t
     (n_hops n (node_key M t) (uid_key (dc_domain dm))) (channel M (n_flight n) t)"
  by (simp add: net_inv_def)

lemma edge_less: "domain_ok R M \<Longrightarrow> edge R p u t \<Longrightarrow> slice_len (tile_space t) < slice_len (tile_space u)"
  using kid_less edge_facts by meson

text \<open>What a step does to the network: the tile, the message it takes, the other messages in flight,
  the new phase, the message for each inner child, the deliveries and the envelopes sent.\<close>

inductive effect :: "('l, 'r, 'b, 'e) cast_runtime \<Rightarrow> region \<Rightarrow> (nat \<Rightarrow> 'l actor_addr) \<Rightarrow> tiling_policy
    \<Rightarrow> 'l destroy_cast_domain \<Rightarrow> (tile \<Rightarrow> phase) \<Rightarrow> ('l, 'r, 'b, 'e) net \<Rightarrow> tile \<Rightarrow> phase \<Rightarrow> ('l, 'r, 'b, 'e) net \<Rightarrow> bool"
  for rt R M p dm ph n t pt' where
  effect: "edge R p u t \<Longrightarrow> n_flight n = xs @ e # ys \<Longrightarrow> dest_key e = node_key M t \<Longrightarrow>
    channel M (n_flight n) t = env_data e # channel M (xs @ ys) t \<Longrightarrow>
    advance rt R M p dm t (ph t) (env_data e) pt' w D \<Longrightarrow>
    actor_addr_key (cx_actor cx') = node_key M t \<Longrightarrow>
    outcome rt M (cx_actor cx') w D (inner_kids p t) (cx_out cx') \<Longrightarrow>
    effect rt R M p dm ph n t pt' (n\<lparr>
        n_hops := (n_hops n)(node_key M t := (n_hops n (node_key M t))(uid_key (dc_domain dm) := hop_in pt' (hop_of R M p t))),
        n_cx := (n_cx n)(node_key M t := cx'),
        n_flight := (xs @ ys) @ filter for_cast_actor (cx_out cx'),
        n_log := n_log n @ filter (\<lambda>x. \<not> for_cast_actor x) (cx_out cx')\<rparr>)"

lemma step_effect:
  assumes "domain_ok R M" "net_inv rt ca R M p dm ph n" "step rt n n'"
  shows "\<exists>t pt'. effect rt R M p dm ph n t pt' n'"
  using assms(3)
proof (cases rule: step.cases)
  case (deliver xs e ys)
  have so: "senders_ok ca R M p (xs @ e # ys)" using assms(2) deliver(2) by (simp add: net_inv_def)
  then obtain u t where t: "edge R p u t" "dest_key e = node_key M t" unfolding senders_ok_def by auto
  have c: "channel M (n_flight n) t = env_data e # channel M (xs @ ys) t"
    unfolding deliver(2) by (rule channel_head [OF assms(1) so deliver(3) t])
  let ?cx = "(n_cx n (node_key M t))\<lparr>cx_out := []\<rparr>"
  have a: "actor_addr_key (cx_actor ?cx) = node_key M t" using assms(2) t(1) by (auto simp: net_inv_def)
  have out: "cx_out ?cx = []" by simp
  obtain pt' w D cx' where h: "advance rt R M p dm t (ph t) (env_data e) pt' w D"
    "handle rt e (n_hops n (node_key M t)) ?cx = (Inr ((n_hops n (node_key M t))(uid_key (dc_domain dm) := hop_in pt' (hop_of R M p t))), cx')"
    "cx_actor cx' = cx_actor ?cx" "outcome rt M (cx_actor ?cx) w D (inner_kids p t) (cx_out cx')"
    using handle_ok [OF assms(1) t(1) out, of rt dm "ph u" "ph t" "n_hops n (node_key M t)" e "channel M (xs @ ys) t"]
      net_inv_edge [OF assms(2) t(1)] unfolding c by blast
  have n': "n' = n\<lparr>
        n_hops := (n_hops n)(node_key M t := (n_hops n (node_key M t))(uid_key (dc_domain dm) := hop_in pt' (hop_of R M p t))),
        n_cx := (n_cx n)(node_key M t := cx'),
        n_flight := (xs @ ys) @ filter for_cast_actor (cx_out cx'),
        n_log := n_log n @ filter (\<lambda>x. \<not> for_cast_actor x) (cx_out cx')\<rparr>"
    unfolding deliver(1) receive_def Let_def t(2) h(2) by simp
  have "effect rt R M p dm ph n t pt' n'"
    unfolding n' by (rule effect.effect [where ph = ph, OF t(1) deliver(2) t(2) c h(1) a [folded h(3)] h(4) [folded h(3)]])
  then show ?thesis by blast
qed

lemma net_inv_effect:
  assumes "domain_ok R M" "net_inv rt ca R M p dm ph n" "effect rt R M p dm ph n t pt' n'"
  shows "net_inv rt ca R M p dm (next_phase p t pt' ph) n'"
  using assms(3)
proof cases
  case (effect u xs e ys w D cx')
  let ?ph = "next_phase p t pt' ph" and ?d = "uid_key (dc_domain dm)"
  note fan = effect(8) [unfolded outcome_def]
  note t = edge_facts [OF assms(1) effect(2)]
  have ch: "channel M (n_flight n') v = channel M (xs @ ys) v @ (if v \<in> set (inner_kids p t) then [w v] else [])"
    if "edge R p a v" for a v
    using fan_out_inner [OF assms(1) t(6) that, of rt "cx_actor cx'" w] fan by (simp add: effect(1))
  have hop: "n_hops n' (node_key M v) = n_hops n (node_key M v)" if "edge R p a v" "v \<noteq> t" for a v
    using node_key_inj [OF assms(1) that(1) effect(2)] that(2) by (auto simp: effect(1))
  have other: "channel M (n_flight n) v = channel M (xs @ ys) v" if "edge R p a v" "v \<noteq> t" for a v
    using node_key_inj [OF assms(1) that(1) effect(2)] that(2) effect(4) by (auto simp: effect(3) channel_Cons)
  have not_self: "t \<notin> set (inner_kids p t)"
    using kid_less [OF t(2)] by (auto simp: inner_kids_def)
  have "edge_ok rt R M p dm (?ph a) (?ph v) v (n_hops n' (node_key M v) ?d) (channel M (n_flight n') v)"
    if av: "edge R p a v" for a v
  proof -
    show ?thesis
    proof (cases "v = t")
      case True
      then have "a = u" using edge_parent [OF assms(1) av] effect(2) by simp
      have less: "slice_len (tile_space t) < slice_len (tile_space u)" using edge_less [OF assms(1) effect(2)] .
      have "u \<noteq> t" using less by auto
      moreover have "u \<notin> set (inner_kids p t)" using less kid_less [OF t(2), of u p] by (auto simp: inner_kids_def)
      ultimately have "?ph u = ph u" by (simp add: next_phase_def)
      moreover have "edge_ok rt R M p dm (ph u) pt' t (hop_in pt' (hop_of R M p t)) (channel M (xs @ ys) t)"
        using edge_ok_taken [OF effect(6)] net_inv_edge [OF assms(2) effect(2)] effect(5) by simp
      moreover have "n_hops n' (node_key M t) ?d = hop_in pt' (hop_of R M p t)" by (simp add: effect(1))
      moreover have "?ph t = pt'" by (simp add: next_phase_def)
      ultimately show ?thesis using True \<open>a = u\<close> ch [OF av] not_self by simp
    next
      case False
      show ?thesis
        using edges_emit [OF assms(1) t(6) effect(6) net_inv_edge [OF assms(2)] av False]
        unfolding ch [OF av] hop [OF av False] other [OF av False] .
    qed
  qed
  moreover have "senders_ok ca R M p (n_flight n')"
  proof -
    have "actor_addr_key (cx_actor cx') = node_src ca R M t" using effect(7) t(8) by (simp add: node_src_def)
    then have "senders_ok ca R M p (filter for_cast_actor (cx_out cx'))"
      using fan_out_senders [OF t(6)] fan by blast
    then show ?thesis using assms(2) by (auto simp: net_inv_def senders_ok_def effect(1,3))
  qed
  moreover have "actor_addr_key (cx_actor (n_cx n' (node_key M v))) = node_key M v" if "edge R p a v" for a v
    using that assms(2) effect(7) by (auto simp: net_inv_def effect(1))
  moreover have "n_failed n' = {}" using assms(2) by (simp add: net_inv_def effect(1))
  moreover have "\<forall>e \<in> set (n_log n'). is_data (env_data e)"
    using assms(2) fan by (auto simp: net_inv_def effect(1))
  ultimately show ?thesis unfolding net_inv_def by blast
qed

section \<open>What is due is delivered\<close>

lemma due_fan_out:
  assumes "domain_ok R M" "desc p (root_tile R) t" "fan_out rt M a w (inner_kids p t) fs"
  shows "(\<Sum>e\<leftarrow>fs. due rt' R M p e) =
    (\<Sum>c\<leftarrow>inner_kids p t. due_of rt' R M (w c) c)"
    "(\<Sum>e\<leftarrow>fs. slice_len (tile_space (tile_at R M p (dest_key e)))) = (\<Sum>c\<leftarrow>inner_kids p t. slice_len (tile_space c))"
proof -
  have at: "tile_at R M p (node_key M c) = c" if "c \<in> set (inner_kids p t)" for c
    using tile_at_eq [OF assms(1), of p t c] assms(2) that by (simp add: edge_def)
  have one: "list_all2 (\<lambda>e c. env_data e = w c \<and> tile_at R M p (dest_key e) = c) fs (inner_kids p t)"
    using assms(3) unfolding fan_out_def
    by (rule list.rel_mono_strong) (auto simp: sends_def node_key_def [symmetric] at dest_key_handler_port)
  show "(\<Sum>e\<leftarrow>fs. due rt' R M p e) =
    (\<Sum>c\<leftarrow>inner_kids p t. due_of rt' R M (w c) c)"
    using one by (induction rule: list_all2_induct) (auto simp: due_def)
  show "(\<Sum>e\<leftarrow>fs. slice_len (tile_space (tile_at R M p (dest_key e)))) = (\<Sum>c\<leftarrow>inner_kids p t. slice_len (tile_space c))"
    using one by (induction rule: list_all2_induct) auto
qed

lemma kids_split_mset:
  assumes "tinv t"
  shows "mset (tranks t) = add_mset (root_rank t) (mset (map root_rank (filter (\<lambda>c. kids p c = []) (kids p t)))) +
    (\<Sum>c\<leftarrow>inner_kids p t. mset (tranks c))"
proof -
  have split: "(\<Sum>c\<leftarrow>cs. mset (tranks c)) = mset (map root_rank (filter (\<lambda>c. kids p c = []) cs)) +
      (\<Sum>c\<leftarrow>filter (\<lambda>c. kids p c \<noteq> []) cs. mset (tranks c))" if "set cs \<subseteq> set (kids p t)" for cs
    using that
  proof (induction cs)
    case (Cons c cs)
    then have "tinv c" using kid_inv [OF assms, of c p] by simp
    then have "mset (tranks c) = {#root_rank c#}" if "kids p c = []" using kids_leaf_iff [of c p] that by simp
    then show ?case using Cons.IH Cons.prems by (cases "kids p c = []") (simp_all add: ac_simps)
  qed simp
  show ?thesis unfolding inner_kids_def kids_mset [OF assms, of p] split [OF subset_refl] by simp
qed

lemma inner_less:
  assumes "tinv t"
  shows "(\<Sum>c\<leftarrow>inner_kids p t. slice_len (tile_space c)) < slice_len (tile_space t)"
proof -
  have "size (\<Sum>c\<leftarrow>cs. mset (tranks c)) = (\<Sum>c\<leftarrow>cs. slice_len (tile_space c))" for cs
    by (induction cs) auto
  then show ?thesis using arg_cong [OF kids_split_mset [OF assms, of p], of size] by simp
qed

lemma image_sum_list: "image_mset f (\<Sum>c\<leftarrow>cs. g c) = (\<Sum>c\<leftarrow>cs. image_mset f (g c))"
  by (induction cs) auto

lemma due_of_inner:
  assumes "tinv t"
  shows "image_mset f (mset (tranks t)) =
    image_mset f (add_mset (root_rank t) (mset (map root_rank (filter (\<lambda>c. kids p c = []) (kids p t))))) +
    (\<Sum>c\<leftarrow>inner_kids p t. image_mset f (mset (tranks c)))"
  unfolding kids_split_mset [OF assms, of p] image_mset_union image_sum_list by (rule refl)

lemma due_of_cast:
  "\<forall>r \<in> set (tranks c). delivered rt R M (f c) r = delivered rt R M m r \<Longrightarrow>
    due_of rt R M (WCast (f c)) c = image_mset (delivered rt R M m) (mset (tranks c))"
  unfolding due_of_def wire.case by (rule image_mset_cong) simp

lemma due_of_none [simp]: "due_of rt R M (WCreate x) t = {#}" "due_of rt R M (WDestroy y) t = {#}"
  by (simp_all add: due_of_def)

lemma sum_list_cong: "(\<And>c. c \<in> set cs \<Longrightarrow> f c = g c) \<Longrightarrow> (\<Sum>c\<leftarrow>cs. f c) = (\<Sum>c\<leftarrow>cs. g c)"
  by (simp cong: map_cong)

lemma advance_due:
  assumes "tinv t" "advance rt R M p dm t pt x pt' w D"
  shows "due_of rt R M x t = D + (\<Sum>c\<leftarrow>inner_kids p t. due_of rt R M (w c) c)"
  using assms(2)
proof cases
  case (cast f m)
  have "(\<Sum>c\<leftarrow>inner_kids p t. due_of rt R M (w c) c) =
      (\<Sum>c\<leftarrow>inner_kids p t. image_mset (delivered rt R M m) (mset (tranks c)))"
    unfolding cast(4) using cast(6) by (intro sum_list_cong due_of_cast) blast
  then show ?thesis unfolding cast(2,5) due_of_def [of rt R M "WCast m"] wire.case due_of_inner [OF assms(1), of _ p]
    by (simp only:)
qed simp_all

lemma effect_measures:
  assumes "domain_ok R M" "effect rt R M p dm ph n t pt' n'"
  shows "total_due rt R M p n' = total_due rt R M p n" "work R M p n' < work R M p n"
proof -
  show "total_due rt R M p n' = total_due rt R M p n"
    using assms(2)
  proof cases
    case (effect u xs e ys w D cx')
    note t = edge_facts [OF assms(1) effect(2)]
    note fan = effect(8) [unfolded outcome_def]
    have "tile_at R M p (dest_key e) = t" using tile_at_eq [OF assms(1) effect(2)] by (simp only: effect(4))
    with advance_due [OF t(2) effect(6)]
    have "due rt R M p e = D + (\<Sum>e\<leftarrow>filter for_cast_actor (cx_out cx'). due rt R M p e)"
      using due_fan_out(1) [OF assms(1) t(6) conjunct1 [OF fan], of rt] by (simp add: due_def)
    moreover have "image_mset observe (mset (filter (\<lambda>x. \<not> for_cast_actor x) (cx_out cx'))) = D" using fan by blast
    ultimately show ?thesis by (simp add: total_due_def effect(1,3))
  qed
  show "work R M p n' < work R M p n"
    using assms(2)
  proof cases
    case (effect u xs e ys w D cx')
    note fan = effect(8) [unfolded outcome_def]
    have "tile_at R M p (dest_key e) = t" using tile_at_eq [OF assms(1) effect(2)] by (simp only: effect(4))
    then show ?thesis
      using due_fan_out(2) [OF assms(1) edge_facts(6) [OF assms(1) effect(2)] conjunct1 [OF fan]]
        inner_less [OF edge_facts(2) [OF assms(1) effect(2)], of p]
      by (simp add: work_def effect(1,3))
  qed
qed

lemma effect_root:
  assumes "domain_ok R M" "effect rt R M p dm ph n t pt' n'"
  shows "next_phase p t pt' ph (root_tile R) = ph (root_tile R)"
proof -
  obtain u where e: "edge R p u t" using assms(2) by cases
  have "root_tile R \<notin> set (inner_kids p t)" using edge_facts(8) [OF assms(1) edge_kid [OF assms(1) e]] by blast
  then show ?thesis using edge_facts(8) [OF assms(1) e] by (auto simp: next_phase_def)
qed

end
