(* ===== verification/Cast_Sender.thy ===== *)
theory Cast_Sender
  imports Cast_Net
begin

text \<open>
  The sender of a cast domain: what \<open>materialize\<close>, \<open>cast\<close> and \<open>destroy\<close> post for a valid
  domain, the sequence numbers a cast carries, and the sender's moves as steps of the network.
\<close>

lemma for_each_map: "for_each f (map g xs) = for_each (\<lambda>x. f (g x)) xs"
  by (induction xs) simp_all

section \<open>The root point\<close>

lemma root_point_fix: "fix_dims s (map (\<lambda>d. (d, n)) ds) = Some t \<Longrightarrow> root_point_loop s ds = Inr t"
  by (induction ds arbitrary: s) (auto split: sum.splits)

lemma fix_dims_offset: "fix_dims s ds = Some t \<Longrightarrow> offset t = offset s"
proof (induction s ds rule: fix_dims.induct)
  case (2 s dim n ds)
  then obtain u where u: "slice_select s dim 0 1 1 = Inr u" "fix_dims u ds = Some t" by (auto split: sum.splits)
  have "offset u = offset s" using u(1) by (auto simp: slice_select_def slice_new_def Let_def split: if_splits sum.splits)
  then show ?case using "2.IH" [OF u] by simp
qed simp

lemma root_point_ok:
  assumes "slice_inv s"
  shows "\<exists>t. root_point_loop s [0..<length (sizes s)] = Inr t \<and> box s t \<and> offset t = offset s \<and> ranks t = [offset s]"
proof -
  let ?ds = "map (\<lambda>d. (d, 0 :: nat)) [0..<length (sizes s)]"
  have ds: "\<forall>d \<in> fst ` set ?ds. d < length (sizes s)" by auto
  obtain t where t: "fix_dims s ?ds = Some t" "length (sizes t) = length (sizes s)"
    "\<forall>d. sizes t ! d = (if d \<in> fst ` set ?ds then 1 else sizes s ! d)"
    using fix_dims_narrows [OF assms ds] by blast
  have b: "box s t" using fix_dims_box [OF assms ds t(1)] .
  have "sizes t = replicate (length (sizes s)) 1"
    using t(2,3) by (intro nth_equalityI) (auto simp: image_iff)
  then have "slice_len t = 1" by (simp add: slice_len_def)
  then obtain r where r: "ranks t = [r]" by (metis One_nat_def length_0_conv length_Suc_conv length_ranks)
  have "offset t \<in> set (ranks t)" using root_in_ranks [of "Tile t"] box_inv [OF b] by (simp add: root_rank_def)
  then show ?thesis using r root_point_fix [OF t(1)] b fix_dims_offset [OF t(1)] by auto
qed

text \<open>The subtrees of a domain: the root point and the children of the root.\<close>

definition point_tile :: "region \<Rightarrow> tile" where
  "point_tile R = Tile (case root_point_loop (reg_slice R) [0..<length (sizes (reg_slice R))] of Inr t \<Rightarrow> t)"

definition subtrees :: "region \<Rightarrow> tiling_policy \<Rightarrow> tile list" where
  "subtrees R p = point_tile R # kids p (root_tile R)"

lemma point_tile_ok:
  assumes "region_inv R"
  shows "root_point_loop (reg_slice R) [0..<length (sizes (reg_slice R))] = Inr (tile_space (point_tile R))"
    "tinv (point_tile R)" "tranks (point_tile R) = [root_rank (root_tile R)]" "kids p (point_tile R) = []"
    "root_rank (point_tile R) = root_rank (root_tile R)" "box (reg_slice R) (tile_space (point_tile R))"
proof -
  have s: "slice_inv (reg_slice R)" using assms by (simp add: region_inv_def)
  obtain t where t: "root_point_loop (reg_slice R) [0..<length (sizes (reg_slice R))] = Inr t" "box (reg_slice R) t"
    "offset t = offset (reg_slice R)" "ranks t = [offset (reg_slice R)]"
    using root_point_ok [OF s] by blast
  then have P: "point_tile R = Tile t" by (simp add: point_tile_def)
  show "root_point_loop (reg_slice R) [0..<length (sizes (reg_slice R))] = Inr (tile_space (point_tile R))"
    "tinv (point_tile R)" "tranks (point_tile R) = [root_rank (root_tile R)]"
    "root_rank (point_tile R) = root_rank (root_tile R)" "box (reg_slice R) (tile_space (point_tile R))"
    using t box_inv [OF t(2)] by (simp_all add: P root_rank_def root_tile_def)
  then show "kids p (point_tile R) = []" using kids_leaf_iff [of "point_tile R" p] by simp
qed

lemma subtree_facts:
  assumes "region_inv R" "c \<in> set (subtrees R p)"
  shows "tinv c" "set (tranks c) \<subseteq> set (ranks (reg_slice R))" "box (reg_slice R) (tile_space c)"
proof -
  have r: "tinv (root_tile R)" "tile_space (root_tile R) = reg_slice R"
    using assms(1) by (simp_all add: region_inv_def root_tile_def)
  consider "c = point_tile R" | "c \<in> set (kids p (root_tile R))" using assms(2) by (auto simp: subtrees_def)
  then have "tinv c \<and> set (tranks c) \<subseteq> set (ranks (reg_slice R)) \<and> box (reg_slice R) (tile_space c)"
  proof cases
    case 1
    then show ?thesis using point_tile_ok [OF assms(1)] root_in_ranks [OF r(1)] r(2) by simp
  next
    case 2
    then show ?thesis using kid_inv [OF r(1) 2] kid_ranks [OF r(1) 2] kid_box [OF r(1) 2] r(2) by auto
  qed
  then show "tinv c" "set (tranks c) \<subseteq> set (ranks (reg_slice R))" "box (reg_slice R) (tile_space c)" by auto
qed

lemma subtrees_inner:
  assumes "region_inv R"
  shows "filter (\<lambda>c. kids p c \<noteq> []) (subtrees R p) = inner_kids p (root_tile R)"
    "mset (map root_rank (filter (\<lambda>c. kids p c = []) (subtrees R p))) =
      add_mset (root_rank (root_tile R)) (mset (map root_rank (filter (\<lambda>c. kids p c = []) (kids p (root_tile R)))))"
  using point_tile_ok(4) [OF assms, of p] point_tile_ok(5) [OF assms] by (simp_all add: subtrees_def inner_kids_def)

section \<open>Materializing\<close>

definition subtree_ref :: "region \<Rightarrow> (nat \<Rightarrow> 'l actor_addr) \<Rightarrow> tiling_policy \<Rightarrow> tile \<Rightarrow> 'l cast_subtree" where
  "subtree_ref R M p c = \<lparr>cs_route = route_of R M p c, cs_region = region_new (reg_labels R) (tile_space c)\<rparr>"

definition domain_ref :: "uid \<Rightarrow> region \<Rightarrow> (nat \<Rightarrow> 'l actor_addr) \<Rightarrow> tiling_policy \<Rightarrow> 'l actor_addr value_mesh
    \<Rightarrow> 'l cast_domain_ref" where
  "domain_ref d R M p mesh = \<lparr>dr_id = d, dr_subtrees = map (subtree_ref R M p) (subtrees R p), dr_members = mesh\<rparr>"

definition members_ok :: "region \<Rightarrow> (nat \<Rightarrow> 'l actor_addr) \<Rightarrow> 'l actor_addr value_mesh \<Rightarrow> bool" where
  "members_ok R M mesh \<longleftrightarrow> mesh_inv mesh \<and> vm_region mesh = reg_slice R \<and> mesh_values mesh = map M (ranks (reg_slice R))"

lemma in_ranksE: "r \<in> set (ranks s) \<Longrightarrow> \<exists>k < slice_len s. ranks s ! k = r"
  by (simp add: in_set_conv_nth)

lemma mesh_get_by_base_rank:
  assumes "mesh_inv m" "slice_inv (vm_region m)" "mesh_values m = map f (ranks (vm_region m))"
    "r \<in> set (ranks (vm_region m))"
  shows "get_by_base_rank m r = Some (f r)"
proof -
  obtain k where k: "k < slice_len (vm_region m)" "ranks (vm_region m) ! k = r" using in_ranksE [OF assms(4)] by blast
  then show ?thesis using get_by_base_rank_nth [OF assms(1,2) k(1)] assms(3) by simp
qed

lemma members_hold:
  assumes "region_inv R" "members_ok R M mesh"
  shows "holds M (from_value_mesh_with_tile (root_tile R) mesh)"
proof -
  have s: "slice_inv (reg_slice R)" using assms(1) by (simp add: region_inv_def)
  have m: "mesh_inv mesh" "vm_region mesh = reg_slice R" "mesh_values mesh = map M (ranks (reg_slice R))"
    using assms(2) by (simp_all add: members_ok_def)
  have g: "get_by_base_rank mesh r = Some (M r)" if "r \<in> set (ranks (reg_slice R))" for r
    by (rule mesh_get_by_base_rank [OF m(1)]) (simp_all add: m s that)
  have c: "contains (reg_slice R) r" if "r \<in> set (ranks (reg_slice R))" for r
    using that ranks_props(2) [OF s] by (simp only: mem_Collect_eq)
  show ?thesis unfolding holds_def from_value_mesh_with_tile_def root_tile_def item_at_def
    using s g c by simp
qed

lemma setup_subtree_ok:
  assumes "holds M m" "headers_ok h" "tinv c" "set (tranks c) \<subseteq> set (tranks (mt_tile m))"
  shows "\<exists>cx'. setup_subtree rt d R p h m (subtree_ref R M p c) cx = (Inr (), cx') \<and>
    appends cx (if kids p c \<noteq> [] then creates rt d R M p [c] else []) cx'"
proof (cases "kids p c = []")
  case True
  then show ?thesis by (simp add: setup_subtree_def subtree_ref_def route_of_def appends_refl)
next
  case False
  have c: "Tile (tile_space c) = c" by (cases c) simp
  have "mt_serialize (subtile m c) = Some (wire_of M c)"
    using mt_serialize_holds [OF holds_subtile [OF assms(1,3,4)]] by simp
  then show ?thesis
    using False sequenced_post_appends
    by (simp add: setup_subtree_def subtree_ref_def route_of_def region_new_def c post_to_actor_ok [OF assms(2)]
        creates_def create_msg_def cast_ref_def)
qed

lemma materialize_members_ok:
  assumes "region_inv R" "members_ok R M mesh" "headers_ok h"
  shows "\<exists>cx'. materialize_members rt d mesh R p h cx = (Inr (domain_ref d R M p mesh), cx') \<and>
    appends cx (creates rt d R M p (inner_kids p (root_tile R))) cx'"
proof -
  let ?m = "from_value_mesh_with_tile (root_tile R) mesh"
  note hm = members_hold [OF assms(1,2)]
  have r: "tinv (root_tile R)" "tile_space (root_tile R) = reg_slice R" "mt_tile ?m = root_tile R"
    using assms(1) by (simp_all add: region_inv_def root_tile_def from_value_mesh_with_tile_def)
  have len: "slice_len (reg_slice R) \<noteq> 0" using root_in_ranks [OF r(1)] r(2) by (metis length_0_conv length_ranks list.set(1) empty_iff)
  have sub: "subtree_of_tile R p ?m c = Inr (subtree_ref R M p c)" if "c \<in> set (subtrees R p)" for c
  proof -
    note f = subtree_facts [OF assms(1) that]
    have "holds M (subtile ?m c)" using holds_subtile [OF hm f(1)] f(2) r by simp
    then show ?thesis
      using route_try_ok [OF assms(1), of M "subtile ?m c" p] f(2) by (simp add: subtree_of_tile_def subtree_ref_def)
  qed
  have col: "collect_result (subtree_of_tile R p ?m) (subtrees R p) = Inr (map (subtree_ref R M p) (subtrees R p))"
    unfolding collect_result_Inr list_all2_map2 list_all2_same by (simp add: sub)
  have "\<exists>cx'. setup_subtree rt d R p h ?m (subtree_ref R M p c) cx1 = (Inr (), cx') \<and>
      appends cx1 (if kids p c \<noteq> [] then creates rt d R M p [c] else []) cx'" if "c \<in> set (subtrees R p)" for c cx1
    using subtree_facts [OF assms(1) that] r by (intro setup_subtree_ok [OF hm assms(3)]) simp_all
  then obtain cx' where cx': "for_each (\<lambda>c. setup_subtree rt d R p h ?m (subtree_ref R M p c)) (subtrees R p) cx =
      (Inr (map (\<lambda>_. ()) (subtrees R p)), cx')"
    "appends cx (concat (map (\<lambda>c. if kids p c \<noteq> [] then creates rt d R M p [c] else []) (subtrees R p))) cx'"
    using for_each_appends [of "subtrees R p" "\<lambda>c. setup_subtree rt d R p h ?m (subtree_ref R M p c)" "\<lambda>_. ()"
        "\<lambda>c. if kids p c \<noteq> [] then creates rt d R M p [c] else []" cx] by blast
  have "materialize_members rt d mesh R p h cx = (Inr (domain_ref d R M p mesh), cx')"
    using len point_tile_ok(1) [OF assms(1)] kids_children [OF r(1), of p] cx'(1)
    by (simp add: materialize_members_def Let_def root_tile_def [symmetric] lift_result_def map_error_def bind_action_def
        col subtrees_def [symmetric] for_each_map domain_ref_def del: collect_result.simps)
  then show ?thesis using cx'(2) unfolding creates_filter subtrees_inner(1) [OF assms(1)] by blast
qed

lemma materialize_ok:
  assumes "region_inv R" "length members = num_ranks (reg_slice R)"
    "\<forall>r \<in> set (ranks (reg_slice R)). map_of members r = Some (M r)"
  shows "\<exists>mesh. members_ok R M mesh \<and> (\<forall>cx. materialize rt d members R p h cx = materialize_members rt d mesh R p h cx)"
proof -
  let ?rs = "ranks (reg_slice R)"
  let ?mesh = "\<lparr>vm_region = reg_slice R, vm_rep = Dense (map M ?rs)\<rparr>"
  have new': "vm_new (reg_slice R) (map (\<lambda>r. the (map_of members r)) ?rs) = vm_new (reg_slice R) (map M ?rs)"
    using assms(3) by (intro arg_cong [of _ _ "vm_new (reg_slice R)"]) simp
  have all: "list_all (\<lambda>r. map_of members r \<noteq> None) ?rs" using assms(3) by (simp add: list_all_iff)
  have new: "vm_new (reg_slice R) (map M ?rs) = Inr ?mesh" by (simp add: vm_new_def num_ranks_def)
  have "materialize rt d members R p h cx = materialize_members rt d ?mesh R p h cx" for cx
    using all assms(2)
    by (simp add: materialize_def slice_iter_eq new' new lift_result_def map_error_def bind_action_def)
  moreover have "members_ok R M ?mesh" by (simp add: members_ok_def mesh_inv_def num_ranks_def mesh_values_def)
  ultimately show ?thesis by blast
qed

section \<open>Sequence numbers\<close>

definition last_seq :: "('l, 'w, 'e) cx \<Rightarrow> 'l actor_addr \<Rightarrow> nat" where
  "last_seq cx a = last_sent_to_actor (cx_sequencer cx) a"

lemma from_ranges_compressed:
  "from_ranges_with_default region dflt ranges = Inr m \<Longrightarrow> \<exists>t rs. vm_rep m = Compressed t rs"
  by (auto simp: from_ranges_with_default_def Let_def bind_result_def split: if_splits sum.splits prod.splits)

lemma tiles_from_ranges:
  assumes "0 < num_ranks region" "tiles 0 (num_ranks region) rs"
  shows "\<exists>m. from_ranges_with_default region dflt rs = Inr m \<and> mesh_inv m \<and> vm_region m = region \<and>
    mesh_values m = expand_runs rs"
proof -
  have w: "runs_wf rs" "\<forall>x \<in> set rs. snd (fst x) \<le> num_ranks region" using tiles_runs_wf [OF assms(2)] by auto
  then have "nonempty_runs rs" "sorted_wrt disjoint_runs rs"
    by (auto simp: runs_wf_def disjoint_runs_def elim: sorted_wrt_mono_rel [rotated])
  then obtain m where m: "from_ranges_with_default region dflt rs = Inr m" "mesh_inv m" "vm_region m = region"
    "\<forall>i < num_ranks region. mesh_values m ! i = (case run_lookup rs i of Some v \<Rightarrow> v | None \<Rightarrow> dflt)"
    using from_ranges_props [OF assms(1), of rs dflt] w by auto
  have "mesh_values m = expand_runs rs"
  proof (rule nth_equalityI)
    show "length (mesh_values m) = length (expand_runs rs)"
      using mesh_values_length [OF m(2)] m(3) tiles_length [OF assms(2)] by simp
    show "mesh_values m ! i = expand_runs rs ! i" if "i < length (mesh_values m)" for i
      using that mesh_values_length [OF m(2)] m(3,4) expand_lookup [OF assms(2)] by simp
  qed
  then show ?thesis using m by blast
qed

lemma number_keys_distinct:
  assumes "distinct ks" "i < length ks"
  shows "fst (number_keys m ks) ! i = or_default (m (ks ! i)) + 1"
proof -
  have "distinct (take (Suc i) ks)" "ks ! i \<in> set (take (Suc i) ks)"
    using assms by (auto simp: in_set_conv_nth intro!: exI [of _ i])
  then have "count (mset (take (Suc i) ks)) (ks ! i) = 1" by (simp add: distinct_count_atmost_1)
  then show ?thesis using number_keys_nth [OF assms(2)] by simp
qed

lemma seqs_for_cast_ok:
  assumes "0 < max_locked" "region_inv R" "members_ok R M mesh"
    "inj_on (\<lambda>r. for_handler (M r)) (set (ranks (reg_slice R)))" "dr_members dr = mesh"
  shows "\<exists>seqs s'. seqs_for_cast max_locked dr cx = (Inr (session_id (cx_sequencer cx), seqs), cx\<lparr>cx_sequencer := s'\<rparr>) \<and>
    vm_region seqs = reg_slice R \<and> mesh_inv seqs \<and> (\<exists>t rs. vm_rep seqs = Compressed t rs) \<and>
    (\<forall>r \<in> set (ranks (reg_slice R)). get_by_base_rank seqs r = Some (last_seq cx (M r) + 1)) \<and>
    session_id s' = session_id (cx_sequencer cx) \<and>
    (\<forall>r \<in> set (ranks (reg_slice R)). last_sent_to_actor s' (M r) = last_seq cx (M r) + 1)"
proof -
  let ?s = "cx_sequencer cx" and ?rs = "ranks (reg_slice R)"
  let ?keys = "map (\<lambda>r. for_handler (M r)) ?rs"
  have inv: "slice_inv (reg_slice R)" using assms(2) by (simp add: region_inv_def)
  have m: "mesh_inv mesh" "vm_region mesh = reg_slice R" "mesh_values mesh = map M ?rs"
    using assms(3) by (simp_all add: members_ok_def)
  have n: "num_ranks (reg_slice R) = length ?rs" by (simp add: num_ranks_def)
  have d: "distinct ?keys" using assms(4) ranks_props(1) [OF inv] by (simp add: distinct_map)
  have "those (map (vm_get mesh) [0..<length ?rs]) = Some (map (\<lambda>i. map M ?rs ! i) [0..<length ?rs])"
    by (rule those_map_Some) (simp add: vm_get_values [OF m(1)] m(2,3) n)
  then have vs: "vm_values (dr_members dr) = Some (map M ?rs)"
    using map_nth [of "map M ?rs"] by (simp add: vm_values_def assms(5) m(2) n)
  obtain rs s' where a: "assign_seqs max_locked ?s ?keys = (rs, s')" by fastforce
  note spec = assign_seqs_spec [OF assms(1) a]
  have "root_rank (root_tile R) \<in> set ?rs" using root_in_ranks [of "root_tile R"] inv by (simp add: root_tile_def)
  then have "0 < num_ranks (reg_slice R)" unfolding n by (rule length_pos_if_in_set)
  from tiles_from_ranges [OF this, of rs 0] spec(3) n obtain seqs where
    q: "from_ranges_with_default (reg_slice R) 0 rs = Inr seqs" "mesh_inv seqs" "vm_region seqs = reg_slice R"
      "mesh_values seqs = expand_runs rs" by auto
  have "mesh_values seqs = map (\<lambda>r. last_seq cx (M r) + 1) ?rs"
  proof (rule nth_equalityI)
    show "length (mesh_values seqs) = length (map (\<lambda>r. last_seq cx (M r) + 1) ?rs)"
      using mesh_values_length [OF q(2)] q(3) n by simp
    show "mesh_values seqs ! i = map (\<lambda>r. last_seq cx (M r) + 1) ?rs ! i" if "i < length (mesh_values seqs)" for i
      using that mesh_values_length [OF q(2)] number_keys_distinct [OF d, of i "last_seqs ?s"]
      by (simp add: q(3,4) n spec(1) last_seq_def last_sent_to_actor_def)
  qed
  then have g: "\<forall>r \<in> set ?rs. get_by_base_rank seqs r = Some (last_seq cx (M r) + 1)"
    using mesh_get_by_base_rank [OF q(2), of "\<lambda>r. last_seq cx (M r) + 1"] q(3) inv by simp
  have l: "last_sent_to_actor s' (M r) = last_seq cx (M r) + 1" if r: "r \<in> set ?rs" for r
  proof -
    have "count (mset ?keys) (for_handler (M r)) = 1"
      using d r by (simp only: distinct_count_atmost_1) auto
    then show ?thesis
      using number_keys_map [of "last_seqs ?s" ?keys "for_handler (M r)"]
      by (simp add: spec(2) last_sent_to_actor_def last_seq_def)
  qed
  have "seqs_for_cast max_locked dr cx = (Inr (session_id ?s, seqs), cx\<lparr>cx_sequencer := s'\<rparr>)"
    unfolding seqs_for_cast_def vs using a q(1) by (simp add: comp_def assms(5) m(2) spec(2))
  then show ?thesis using q(2,3) from_ranges_compressed [OF q(1)] g l spec(2) by auto
qed

section \<open>Casting and destroying\<close>

definition bounded :: "region \<Rightarrow> bool" where
  "bounded R \<longleftrightarrow> slice_len (reg_slice R) < usize_bound \<and> (\<forall>n \<in> set (sizes (reg_slice R)). n < usize_bound)"

definition cast_msg :: "uid \<Rightarrow> 'l actor_addr \<Rightarrow> uuid \<Rightarrow> nat value_mesh \<Rightarrow> 'l flattrs \<Rightarrow> nat \<Rightarrow> ('l, 'r, 'b) multipart
    \<Rightarrow> ('l, 'r, 'b) cast_message" where
  "cast_msg d a sid seqs h port data = \<lparr>cm_domain = d, cm_sender = a, cm_session = sid, cm_seqs = seqs,
     cm_headers = h, cm_dest_port = port, cm_data = data\<rparr>"

lemma delivered_cong:
  assumes "cm_sender m' = cm_sender m" "cm_session m' = cm_session m" "cm_headers m' = cm_headers m"
    "cm_dest_port m' = cm_dest_port m" "get_by_base_rank (cm_seqs m') r = get_by_base_rank (cm_seqs m) r"
    "same_data (cm_data m') (cm_data m)"
  shows "delivered rt R M m' r = delivered rt R M m r"
proof -
  have "delivery_of m' r = delivery_of m r" using assms by (simp add: delivery_of_def)
  moreover have "map (kstamp k \<circ> skel) (mp_parts (cm_data m')) = map (kstamp k \<circ> skel) (mp_parts (cm_data m))" for k
    using assms(6) by (metis map_map same_data_def)
  ultimately show ?thesis using assms by (simp add: delivered_def same_data_def Let_def)
qed

lemma slices_ok:
  assumes "region_inv R" "bounded R" "vm_region seqs = reg_slice R" "mesh_inv seqs" "vm_rep seqs = Compressed t rs"
  shows "\<exists>f. \<forall>c \<in> set (subtrees R p). sliced seqs (tile_space c) = Some (f c) \<and>
    (\<forall>r \<in> set (tranks c). get_by_base_rank (f c) r = get_by_base_rank seqs r)"
proof -
  have s: "slice_inv (reg_slice R)" using assms(1) by (simp add: region_inv_def)
  have "\<exists>m. sliced seqs (tile_space c) = Some m \<and>
      (\<forall>r \<in> set (tranks c). get_by_base_rank m r = get_by_base_rank seqs r)" if "c \<in> set (subtrees R p)" for c
  proof -
    note f = subtree_facts [OF assms(1) that]
    obtain u where "relative_ordinal_slice (tile_space c) (reg_slice R) = Inr u"
      using box_relative [OF s f(3)] assms(2) by (auto simp: bounded_def)
    then show ?thesis using sliced_compressed [OF assms(4,5) f(1), of u] s assms(3) by auto
  qed
  then show ?thesis by metis
qed

lemma for_each_emits_on:
  assumes "\<And>x cx. x \<in> set xs \<Longrightarrow> cx_actor cx = a \<Longrightarrow> \<exists>cx'. f x cx = (Inr (), cx') \<and> emits cx [h x] cx'" "cx_actor cx = a"
  shows "\<exists>ys es cx'. for_each f xs cx = (Inr ys, cx') \<and> cx_actor cx' = a \<and> cx_out cx' = cx_out cx @ es \<and>
    list_all2 (\<lambda>e x. h x e) es xs"
  using for_each_emits [of xs a f h cx, OF assms] assms(2) by (auto simp: emits_def list_all2_map2)

lemma cast_ok:
  assumes "0 < max_locked" "region_inv R" "bounded R" "members_ok R M mesh"
    "inj_on (\<lambda>r. for_handler (M r)) (set (ranks (reg_slice R)))" "headers_ok h" "resolvable rt (mp_parts data)"
  shows "\<exists>seqs g es cx'. cast rt max_locked (domain_ref d R M p mesh) h port data cx = (Inr (), cx') \<and>
    cx_actor cx' = cx_actor cx \<and> cx_out cx' = cx_out cx @ es \<and>
    (\<forall>r \<in> set (ranks (reg_slice R)). get_by_base_rank seqs r = Some (last_seq cx (M r) + 1)) \<and>
    (\<forall>c \<in> set (subtrees R p). casts_ok rt d c [g c] \<and> (\<forall>r \<in> set (tranks c). delivered rt R M (g c) r =
      delivered rt R M (cast_msg d (cx_actor cx) (session_id (cx_sequencer cx)) seqs h port data) r)) \<and>
    list_all2 (\<lambda>e c. emission rt R M p (cx_actor cx) (g c) c e) es (subtrees R p)"
proof -
  let ?a = "cx_actor cx" and ?sid = "session_id (cx_sequencer cx)" and ?dr = "domain_ref d R M p mesh"
  let ?cs = "subtrees R p"
  have dr: "dr_members ?dr = mesh" by (simp add: domain_ref_def)
  obtain seqs s' where q: "seqs_for_cast max_locked ?dr cx = (Inr (?sid, seqs), cx\<lparr>cx_sequencer := s'\<rparr>)"
    "vm_region seqs = reg_slice R" "mesh_inv seqs" "\<exists>t rs. vm_rep seqs = Compressed t rs"
    "\<forall>r \<in> set (ranks (reg_slice R)). get_by_base_rank seqs r = Some (last_seq cx (M r) + 1)"
    using seqs_for_cast_ok [OF assms(1,2,4,5) dr, of cx] by blast
  from q(4) obtain t rs where "vm_rep seqs = Compressed t rs" by blast
  from slices_ok [OF assms(2,3) q(2,3) this, of p] obtain f where
    f: "\<forall>c \<in> set ?cs. sliced seqs (tile_space c) = Some (f c) \<and>
      (\<forall>r \<in> set (tranks c). get_by_base_rank (f c) r = get_by_base_rank seqs r)" by blast
  let ?cx1 = "cx\<lparr>cx_sequencer := s'\<rparr>"
  obtain data' cx2 where sp: "split_ports rt data (length ?cs) False ?cx1 = (Inr data', cx2)" "quiet ?cx1 cx2"
    "same_data data' data" "resolvable rt (mp_parts data')" using split_ports_ok [OF assms(7)] by blast
  define g where "g = (\<lambda>c. cast_msg d ?a ?sid (f c) h port data')"
  have g: "headers_ok (cm_headers (g c))" "cm_seqs (g c) = f c" "cm_data (g c) = data'" "cm_domain (g c) = d" for c
    using assms(6) by (simp_all add: g_def cast_msg_def)
  have seq: "get_by_base_rank (f c) r \<noteq> None" if "c \<in> set ?cs" "r \<in> set (tranks c)" for c r
  proof -
    have "r \<in> set (ranks (reg_slice R))" using subtree_facts(2) [OF assms(2) that(1)] that(2) by blast
    moreover have "get_by_base_rank (f c) r = get_by_base_rank seqs r" using f that by blast
    ultimately show ?thesis using q(5) by simp
  qed
  have hop: "\<exists>cx'. route_next_hop rt (g c) data' (route_of R M p c) cx3 = (Inr (), cx') \<and>
      emits cx3 [emission rt R M p ?a (g c) c] cx'"
    if c: "c \<in> set ?cs" "cx_actor cx3 = ?a" for c and cx3 :: "('a, 'b, 'c, 'd) cast_cx"
  proof -
    have "root_rank c \<in> set (tranks c)" using root_in_ranks subtree_facts(1) [OF assms(2) c(1)] .
    then have r: "get_by_base_rank (cm_seqs (g c)) (root_rank c) \<noteq> None" unfolding g(2) by (rule seq [OF c(1)])
    have sd: "same_data data' (cm_data (g c))" by (simp add: g(3) same_data_def)
    have gg: "(g c)\<lparr>cm_data := data'\<rparr> = g c" by (simp add: g_def cast_msg_def)
    from route_next_hop_ok [OF g(1) r sd, of rt R M p cx3] show ?thesis by (simp add: gg c(2))
  qed
  have a2: "cx_actor cx2 = ?a" "cx_out cx2 = cx_out cx" using sp(2) by (simp_all add: quiet_def)
  obtain ys es cx' where fe: "for_each (\<lambda>c. route_next_hop rt (g c) data' (route_of R M p c)) ?cs cx2 = (Inr ys, cx')"
    "cx_actor cx' = ?a" "cx_out cx' = cx_out cx @ es"
    "list_all2 (\<lambda>e c. emission rt R M p ?a (g c) c e) es ?cs"
    using for_each_emits_on [of ?cs ?a "\<lambda>c. route_next_hop rt (g c) data' (route_of R M p c)"
        "\<lambda>c. emission rt R M p ?a (g c) c" cx2, OF hop a2(1)] a2(2) by auto
  have run: "cast rt max_locked ?dr h port data cx = (Inr (), cx')"
  proof -
    have th: "those (map (\<lambda>subtree. sliced seqs (reg_slice (cs_region subtree))) (dr_subtrees ?dr)) = Some (map f ?cs)"
      using f by (simp add: domain_ref_def comp_def subtree_ref_def region_new_def those_map_Some)
    have len: "length (dr_subtrees ?dr) = length ?cs" by (simp add: domain_ref_def)
    have z: "zip (dr_subtrees ?dr) (map f ?cs) = map (\<lambda>c. (subtree_ref R M p c, f c)) ?cs"
      by (simp add: domain_ref_def zip_map_map zip_same_conv_map)
    have step: "cast_to_subtree rt (cast_msg d ?a ?sid seqs h port data') (subtree_ref R M p c, f c) =
        route_next_hop rt (g c) data' (route_of R M p c)" for c
      by (simp add: cast_to_subtree_def subtree_ref_def g_def cast_msg_def)
    have m0: "\<lparr>cm_domain = dr_id ?dr, cm_sender = ?a, cm_session = ?sid, cm_seqs = seqs, cm_headers = h,
        cm_dest_port = port, cm_data = data'\<rparr> = cast_msg d ?a ?sid seqs h port data'"
      by (simp add: cast_msg_def domain_ref_def)
    show ?thesis
      unfolding cast_def
      by (simp add: bind_action_eq(1) [of "seqs_for_cast max_locked ?dr" cx, OF q(1)] th len z m0 for_each_map step
          bind_action_eq(1) [of "split_ports rt data (length ?cs) False" ?cx1, OF sp(1)]
          bind_action_eq(1) [of "for_each (\<lambda>c. route_next_hop rt (g c) data' (route_of R M p c)) ?cs" cx2, OF fe(1)])
  qed
  have "casts_ok rt d c [g c] \<and> (\<forall>r \<in> set (tranks c). delivered rt R M (g c) r =
      delivered rt R M (cast_msg d ?a ?sid seqs h port data) r)" if c: "c \<in> set ?cs" for c
  proof
    show "casts_ok rt d c [g c]"
      using seq [OF c] g sp(4) by (simp add: casts_ok_def castable_def)
    show "\<forall>r \<in> set (tranks c). delivered rt R M (g c) r = delivered rt R M (cast_msg d ?a ?sid seqs h port data) r"
      using f c sp(3) by (auto simp: g_def cast_msg_def intro!: delivered_cong)
  qed
  then show ?thesis using run fe(2,3,4) q(5) by blast
qed

lemma destroy_ok:
  assumes "region_inv R"
  shows "\<exists>cx'. destroy rt (domain_ref d R M p mesh) cx = (Inr (), cx') \<and>
    appends cx (destroys rt M \<lparr>dc_domain = d, dc_origin = cx_actor cx\<rparr> (inner_kids p (root_tile R))) cx'"
proof -
  let ?dm = "\<lparr>dc_domain = d, dc_origin = cx_actor cx\<rparr>"
  obtain cx' where cx': "for_each (forward_destroy rt ?dm) (map (route_of R M p) (subtrees R p)) cx =
      (Inr (map (\<lambda>_. ()) (subtrees R p)), cx')"
    "appends cx (destroys rt M ?dm (inner_kids p (root_tile R))) cx'"
    using forward_destroys_ok [of rt ?dm R M p "subtrees R p" cx] unfolding subtrees_inner(1) [OF assms] by blast
  have "destroy rt (domain_ref d R M p mesh) cx = (Inr (), cx')"
    using cx'(1)
    by (simp add: destroy_def domain_ref_def for_each_map destroy_subtree_def [abs_def] subtree_ref_def bind_action_def)
  then show ?thesis using cx'(2) by blast
qed

section \<open>The sender's counters\<close>

text \<open>An action leaves every counter but those of the cast actors alone.\<close>

definition cast_keys :: "'l seq_key set" where
  "cast_keys = range (\<lambda>a. for_handler (cast_actor_ref_for_member a))"

definition frames :: "(('l, 'w, 'e) cx, 'f, 'a) action \<Rightarrow> bool" where
  "frames f \<longleftrightarrow> (\<forall>cx. session_id (cx_sequencer (snd (f cx))) = session_id (cx_sequencer cx) \<and>
     (\<forall>k. k \<notin> cast_keys \<longrightarrow> last_seqs (cx_sequencer (snd (f cx))) k = last_seqs (cx_sequencer cx) k))"

lemma frames_same: "(\<And>cx. cx_sequencer (snd (f cx)) = cx_sequencer cx) \<Longrightarrow> frames f"
  by (simp add: frames_def)

lemma frames_return: "frames (return_action x)" "frames (fail e)" "frames (lift_result r)"
  by (simp_all add: frames_def lift_result_def)

lemma frames_bind:
  assumes "frames f" "\<And>x. frames (g x)"
  shows "frames (bind_action f g)"
  unfolding frames_def
proof
  fix cx
  show "session_id (cx_sequencer (snd (bind_action f g cx))) = session_id (cx_sequencer cx) \<and>
     (\<forall>k. k \<notin> cast_keys \<longrightarrow> last_seqs (cx_sequencer (snd (bind_action f g cx))) k = last_seqs (cx_sequencer cx) k)"
  proof (cases "f cx")
    case (Pair r cx1)
    have 1: "session_id (cx_sequencer cx1) = session_id (cx_sequencer cx)"
      "\<forall>k. k \<notin> cast_keys \<longrightarrow> last_seqs (cx_sequencer cx1) k = last_seqs (cx_sequencer cx) k"
      using assms(1) Pair unfolding frames_def by (metis snd_conv)+
    show ?thesis
    proof (cases r)
      case (Inr x)
      then show ?thesis using 1 Pair assms(2) [of x] unfolding frames_def by (simp add: bind_action_def)
    qed (simp add: bind_action_def Pair 1)
  qed
qed

lemma frames_for_each: "(\<And>x. x \<in> set xs \<Longrightarrow> frames (f x)) \<Longrightarrow> frames (for_each f xs)"
proof (induction xs)
  case Nil
  show ?case unfolding for_each.simps by (rule frames_return(1))
next
  case (Cons x xs)
  have "frames (f x)" "frames (for_each f xs)" using Cons by simp_all
  then show ?case unfolding for_each.simps by (intro frames_bind frames_return)
qed

lemma frames_post_to_actor: "frames (post_to_actor rt (cast_actor_ref_for_member a) ty h w)"
proof -
  have k: "seq_key (handler_port rt ty b) = Some (for_handler b)" for b
    by (cases b) (simp add: seq_key_def handler_port_def port_addr_of_def addr_port_def port_is_control_def
        is_handler_port_def port_is_handler_def addr_actor_def)
  have "for_handler (cast_actor_ref_for_member a) \<in> cast_keys" by (simp add: cast_keys_def)
  then show ?thesis
    by (auto simp: frames_def post_to_actor_def lift_cx_def post_def map_error_def sequenced_post_def assign_seq_def k Let_def)
qed

lemma frames_deliver: "frames (deliver_to_destination rt delivery dest data)"
proof (rule frames_same)
  fix cx
  have "delivery_headers rt delivery dest q SEQ_INFO = Some (SeqInfoV (Session (cv_session delivery) (cv_seq delivery)))" for q
    by (simp add: delivery_headers_def Let_def stamp_sender_actor_id_hash_def stamp_sender_actor_id_def)
  then show "cx_sequencer (snd (deliver_to_destination rt delivery dest data cx)) = cx_sequencer cx"
    by (simp add: deliver_to_destination_def lift_cx_def post_def Let_def)
qed

lemma frames_split_port: "frames (lift_cx (split_port resolve port spec mode ret))"
  by (rule frames_same) (auto simp: lift_cx_def split_port_def Let_def split: sum.splits)

lemma frames_split_ports: "frames (split_ports rt data n here)"
proof -
  have "frames (split_port_part rt x)" for x
    by (cases x) (auto simp: split_port_part_def intro!: frames_bind frames_return frames_split_port)
  moreover have "frames (split_once_port_part rt k x)" for k x
    by (cases x) (auto simp: split_once_port_part_def intro!: frames_bind frames_return frames_split_port)
  ultimately show ?thesis unfolding split_ports_def by (intro frames_bind frames_for_each frames_return) simp_all
qed

lemma frames_route: "frames (route_next_hop rt m data (route_of R M p c))"
  by (auto simp: route_next_hop_def route_of_def frames_post_to_actor intro!: frames_bind frames_return frames_deliver)

lemma frames_destroy: "frames (destroy rt (domain_ref d R M p mesh))"
proof -
  have "frames (for_each (destroy_subtree rt dm) (dr_subtrees (domain_ref d R M p mesh)))" for dm
    by (rule frames_for_each) (auto simp: domain_ref_def destroy_subtree_def subtree_ref_def forward_destroy_def
        route_of_def frames_post_to_actor intro: frames_return)
  then have "frames (bind_action (for_each (destroy_subtree rt dm) (dr_subtrees (domain_ref d R M p mesh))) (\<lambda>_. return_action ()))" for dm
    by (intro frames_bind frames_return)
  then show ?thesis unfolding frames_def destroy_def by blast
qed

lemma frames_bind_result:
  "(\<And>x. r = Inr x \<Longrightarrow> frames (g x)) \<Longrightarrow> frames (bind_action (lift_result r) g)"
  by (cases r) (auto simp: frames_def lift_result_def bind_action_def)

lemma route_try_via: "route_try_from_tile R p m = Inr (ViaCastActor a) \<Longrightarrow> \<exists>x. a = cast_actor_ref_for_member x"
  by (auto simp: route_try_from_tile_def bind_result_def split: sum.splits option.splits if_splits)

lemma frames_setup:
  assumes "subtree_of_tile R p m t = Inr sub"
  shows "frames (setup_subtree rt d R p h m sub)"
proof (cases "cs_route sub")
  case (ViaCastActor a)
  then obtain x where "a = cast_actor_ref_for_member x"
    using assms by (auto simp: subtree_of_tile_def bind_result_def split: sum.splits dest!: route_try_via)
  then show ?thesis using ViaCastActor
    by (auto simp: setup_subtree_def intro!: frames_return frames_post_to_actor split: option.splits)
qed (simp add: setup_subtree_def frames_return)

lemma collect_result_mem: "collect_result f xs = Inr ys \<Longrightarrow> y \<in> set ys \<Longrightarrow> \<exists>x. f x = Inr y"
  unfolding collect_result_Inr by (auto simp: list_all2_conv_all_nth in_set_conv_nth)

lemma frames_setups:
  assumes "collect_result (subtree_of_tile R p m) ts = Inr subs"
  shows "frames (for_each (setup_subtree rt d R p h m) subs)"
proof (rule frames_for_each)
  fix x
  assume "x \<in> set subs"
  from collect_result_mem [OF assms this] show "frames (setup_subtree rt d R p h m x)"
    by (elim exE) (rule frames_setup)
qed

lemma frames_materialize: "frames (materialize_members rt d mesh R p h)"
  unfolding materialize_members_def Let_def
  by (auto intro!: frames_bind_result frames_bind frames_return elim!: frames_setups
      split: option.splits simp del: collect_result.simps)

lemma frames_last_seq: "frames f \<Longrightarrow> for_handler a \<notin> cast_keys \<Longrightarrow> last_seq (snd (f cx)) a = last_seq cx a"
  by (simp add: frames_def last_seq_def last_sent_to_actor_def)

lemma frames_session: "frames f \<Longrightarrow> session_id (cx_sequencer (snd (f cx))) = session_id (cx_sequencer cx)"
  by (simp add: frames_def)

lemma cast_counts:
  assumes "0 < max_locked" "region_inv R" "members_ok R M mesh"
    "inj_on (\<lambda>r. for_handler (M r)) (set (ranks (reg_slice R)))" "for_handler (M r) \<notin> cast_keys"
    "r \<in> set (ranks (reg_slice R))"
  shows "last_seq (snd (cast rt max_locked (domain_ref d R M p mesh) h port data cx)) (M r) = last_seq cx (M r) + 1"
    "session_id (cx_sequencer (snd (cast rt max_locked (domain_ref d R M p mesh) h port data cx))) =
      session_id (cx_sequencer cx)"
proof -
  let ?dr = "domain_ref d R M p mesh"
  have dr: "dr_members ?dr = mesh" by (simp add: domain_ref_def)
  obtain seqs s' where q: "seqs_for_cast max_locked ?dr cx = (Inr (session_id (cx_sequencer cx), seqs), cx\<lparr>cx_sequencer := s'\<rparr>)"
    "session_id s' = session_id (cx_sequencer cx)"
    "\<forall>r \<in> set (ranks (reg_slice R)). last_sent_to_actor s' (M r) = last_seq cx (M r) + 1"
    using seqs_for_cast_ok [OF assms(1-4) dr, of cx] by blast
  define rest where "rest = (\<lambda>(sid, seqs). case those (map (\<lambda>subtree. sliced seqs (reg_slice (cs_region subtree))) (dr_subtrees ?dr)) of
         None \<Rightarrow> fail CastPanic
       | Some subtree_seqs \<Rightarrow>
           bind_action (split_ports rt data (length (dr_subtrees ?dr)) False) (\<lambda>data.
           bind_action (for_each (cast_to_subtree rt \<lparr>cm_domain = dr_id ?dr, cm_sender = cx_actor cx, cm_session = sid,
               cm_seqs = seqs, cm_headers = h, cm_dest_port = port, cm_data = data\<rparr>)
             (zip (dr_subtrees ?dr) subtree_seqs)) (\<lambda>_. return_action ())))"
  have sub: "frames (cast_to_subtree rt m x)" if "x \<in> set (zip (dr_subtrees ?dr) ss)" for m x ss
  proof -
    have "fst x \<in> set (dr_subtrees ?dr)" using that set_zip_leftD [of "fst x" "snd x"] by simp
    then obtain c where "fst x = subtree_ref R M p c" by (auto simp: domain_ref_def)
    then show ?thesis by (simp add: cast_to_subtree_def subtree_ref_def frames_route)
  qed
  have rest: "frames (rest x)" for x
    unfolding rest_def by (auto intro!: frames_bind frames_return frames_split_ports frames_for_each sub split: option.splits prod.splits)
  have run: "cast rt max_locked ?dr h port data cx = rest (session_id (cx_sequencer cx), seqs) (cx\<lparr>cx_sequencer := s'\<rparr>)"
    unfolding cast_def rest_def [symmetric] using q(1) by (simp add: bind_action_def)
  show "last_seq (snd (cast rt max_locked ?dr h port data cx)) (M r) = last_seq cx (M r) + 1"
    unfolding run frames_last_seq [OF rest assms(5)] using q(3) assms(6) by (simp add: last_seq_def)
  show "session_id (cx_sequencer (snd (cast rt max_locked ?dr h port data cx))) = session_id (cx_sequencer cx)"
    unfolding run frames_session [OF rest] by (simp add: q(2))
qed

end
