(* ===== verification/Cast_System.thy ===== *)
theory Cast_System
  imports Cast_Sender
begin

text \<open>
  A cast domain from its creation to its teardown: the sender materializes the domain, casts any
  number of messages and may destroy it, while the network delivers messages in any order that
  keeps the order of each channel.
\<close>

section \<open>The sender in the network\<close>

definition act :: "'l actor_addr \<Rightarrow> ('l, 'r, 'b, 'e, 'a) cast_action \<Rightarrow> ('l, 'r, 'b, 'e) net \<Rightarrow> ('l, 'r, 'b, 'e) net" where
  "act k f n =
     (let (r, cx) = f ((n_cx n k)\<lparr>cx_out := []\<rparr>)
      in n\<lparr>n_cx := (n_cx n)(k := cx),
           n_flight := n_flight n @ filter for_cast_actor (cx_out cx),
           n_log := n_log n @ filter (\<lambda>x. \<not> for_cast_actor x) (cx_out cx),
           n_failed := (case r of Inl _ \<Rightarrow> insert k (n_failed n) | Inr _ \<Rightarrow> n_failed n)\<rparr>)"

datatype ('l, 'r, 'b) command = Cast_Command "'l flattrs" nat "('l, 'r, 'b) multipart" | Destroy_Command

fun run_command :: "('l, 'r, 'b, 'e) cast_runtime \<Rightarrow> nat \<Rightarrow> 'l cast_domain_ref \<Rightarrow> ('l, 'r, 'b) command
    \<Rightarrow> ('l, 'r, 'b, 'e, unit) cast_action" where
  "run_command rt max_locked dr (Cast_Command h port data) = cast rt max_locked dr h port data"
| "run_command rt max_locked dr Destroy_Command = destroy rt dr"

text \<open>The commands the sender has run, interleaved with deliveries.\<close>

inductive exec :: "('l, 'r, 'b, 'e) cast_runtime \<Rightarrow> nat \<Rightarrow> 'l cast_domain_ref \<Rightarrow> 'l actor_addr
    \<Rightarrow> ('l, 'r, 'b, 'e) net \<Rightarrow> ('l, 'r, 'b) command list \<Rightarrow> ('l, 'r, 'b, 'e) net \<Rightarrow> bool"
  for rt max_locked dr k n0 where
  exec_start: "exec rt max_locked dr k n0 [] n0"
| exec_deliver: "exec rt max_locked dr k n0 cs n \<Longrightarrow> step rt n n' \<Longrightarrow> exec rt max_locked dr k n0 cs n'"
| exec_command: "exec rt max_locked dr k n0 cs n \<Longrightarrow>
    exec rt max_locked dr k n0 (cs @ [c]) (act k (run_command rt max_locked dr c) n)"

lemma net_inv_act:
  assumes "domain_ok R M" "net_inv rt k R M p dm ph n" "actor_addr_key (cx_actor (n_cx n k)) = k"
    "advance rt R M p dm (root_tile R) (ph (root_tile R)) x pt' w D"
    "f ((n_cx n k)\<lparr>cx_out := []\<rparr>) = (Inr y, cx')" "cx_actor cx' = cx_actor (n_cx n k)"
    "outcome rt M (cx_actor (n_cx n k)) w D (inner_kids p (root_tile R)) (cx_out cx')"
  shows "net_inv rt k R M p dm (next_phase p (root_tile R) pt' ph) (act k f n)"
    "total_due rt R M p (act k f n) = total_due rt R M p n + due_of rt R M x (root_tile R)"
proof -
  let ?t = "root_tile R" and ?fs = "filter for_cast_actor (cx_out cx')"
  let ?ph = "next_phase p ?t pt' ph" and ?d = "uid_key (dc_domain dm)"
  note fan = assms(7) [unfolded outcome_def]
  have n': "act k f n = n\<lparr>n_cx := (n_cx n)(k := cx'), n_flight := n_flight n @ ?fs,
      n_log := n_log n @ filter (\<lambda>x. \<not> for_cast_actor x) (cx_out cx')\<rparr>"
    unfolding act_def assms(5) by simp
  have r: "desc p ?t ?t" "tinv ?t" by (rule desc_refl) (rule root_tile_inv [OF assms(1)])
  have "edge_ok rt R M p dm (?ph a) (?ph v) v (n_hops (act k f n) (node_key M v) ?d) (channel M (n_flight (act k f n)) v)"
    if av: "edge R p a v" for a v
  proof -
    have "channel M (n_flight (act k f n)) v = channel M (n_flight n) v @ (if v \<in> set (inner_kids p ?t) then [w v] else [])"
      using fan_out_inner [OF assms(1) r(1) av, of rt "cx_actor (n_cx n k)" w ?fs] fan by (simp add: n')
    moreover have "v \<noteq> ?t" using edge_facts(8) [OF assms(1) av] .
    ultimately show ?thesis
      using edges_emit [OF assms(1) r(1) assms(4) net_inv_edge [OF assms(2)] av] by (simp add: n')
  qed
  moreover have "senders_ok k R M p (n_flight (act k f n))"
  proof -
    have "actor_addr_key (cx_actor (n_cx n k)) = node_src k R M ?t" using assms(3) by (simp add: node_src_def)
    then have "senders_ok k R M p ?fs" using fan_out_senders [OF r(1)] fan by blast
    then show ?thesis using assms(2) by (auto simp: net_inv_def senders_ok_def n')
  qed
  moreover have "actor_addr_key (cx_actor (n_cx (act k f n) (node_key M v))) = node_key M v" if "edge R p a v" for a v
    using that assms(2,3,6) by (auto simp: net_inv_def n')
  moreover have "n_failed (act k f n) = {}" using assms(2) by (simp add: net_inv_def n')
  moreover have "\<forall>e \<in> set (n_log (act k f n)). is_data (env_data e)" using assms(2) fan by (auto simp: net_inv_def n')
  ultimately show "net_inv rt k R M p dm ?ph (act k f n)" unfolding net_inv_def by blast
  have "(\<Sum>e\<leftarrow>?fs. due rt R M p e) = (\<Sum>c\<leftarrow>inner_kids p ?t. due_of rt R M (w c) c)"
    by (rule due_fan_out(1) [OF assms(1) r(1) conjunct1 [OF fan]])
  then show "total_due rt R M p (act k f n) = total_due rt R M p n + due_of rt R M x ?t"
    unfolding advance_due [OF r(2) assms(4)] using fan by (simp add: total_due_def n')
qed

section \<open>What is to be delivered\<close>

text \<open>What the member at base rank \<open>r\<close> is to receive of a cast with sequence number \<open>q\<close>.\<close>

definition cast_to_member :: "('l, 'r, 'b, 'e) cast_runtime \<Rightarrow> region \<Rightarrow> (nat \<Rightarrow> 'l actor_addr) \<Rightarrow> 'l actor_addr \<Rightarrow> uuid
    \<Rightarrow> 'l flattrs \<times> nat \<times> ('l, 'r, 'b) multipart \<Rightarrow> nat \<Rightarrow> nat
    \<Rightarrow> 'l port_addr \<times> 'l flattrs \<times> ('b \<times> ('l, 'r, 'b) skel list) option" where
  "cast_to_member rt R M a sid m q r =
     (case m of (h, port, data) \<Rightarrow>
        let dest = port_addr_of (M r) (Handler (Instance port None)) in
        (dest, delivery_headers rt \<lparr>cv_sender = a, cv_session = sid, cv_seq = q, cv_headers = h, cv_dest_port = port\<rparr>
           (dest_of R M r) dest,
         Some (mp_body data, map (kstamp (pt_rank (point_at R r)) \<circ> skel) (mp_parts data))))"

lemma delivered_cast_msg:
  "get_by_base_rank seqs r = Some q \<Longrightarrow>
    delivered rt R M (cast_msg d a sid seqs h port data) r = cast_to_member rt R M a sid (h, port, data) q r"
  by (simp add: delivered_def cast_to_member_def cast_msg_def delivery_of_def Let_def)

text \<open>What a list of casts is to deliver, when \<open>base r\<close> messages were sent to member \<open>r\<close> before.\<close>

definition all_due :: "('l, 'r, 'b, 'e) cast_runtime \<Rightarrow> region \<Rightarrow> (nat \<Rightarrow> 'l actor_addr) \<Rightarrow> 'l actor_addr \<Rightarrow> uuid
    \<Rightarrow> (nat \<Rightarrow> nat) \<Rightarrow> ('l flattrs \<times> nat \<times> ('l, 'r, 'b) multipart) list
    \<Rightarrow> ('l port_addr \<times> 'l flattrs \<times> ('b \<times> ('l, 'r, 'b) skel list) option) multiset" where
  "all_due rt R M a sid base ms =
     (\<Sum>(j, m)\<leftarrow>enumerate 1 ms. image_mset (\<lambda>r. cast_to_member rt R M a sid m (base r + j) r) (mset (ranks (reg_slice R))))"

fun casts_of :: "('l, 'r, 'b) command list \<Rightarrow> ('l flattrs \<times> nat \<times> ('l, 'r, 'b) multipart) list" where
  "casts_of [] = []"
| "casts_of (Cast_Command h port data # cs) = (h, port, data) # casts_of cs"
| "casts_of (Destroy_Command # cs) = casts_of cs"

lemma casts_of_append [simp]: "casts_of (xs @ ys) = casts_of xs @ casts_of ys"
  by (induction xs rule: casts_of.induct) simp_all

lemma all_due_snoc:
  "all_due rt R M a sid base (ms @ [m]) = all_due rt R M a sid base ms +
     image_mset (\<lambda>r. cast_to_member rt R M a sid m (base r + length ms + 1) r) (mset (ranks (reg_slice R)))"
  by (simp add: all_due_def enumerate_append_eq add.assoc)

section \<open>A domain and its sender\<close>

text \<open>The members of the domain are on different procs, so that no cast actor serves two tiles of it,
  and neither they nor the sender are cast actors.\<close>

definition domain_hyps :: "region \<Rightarrow> (nat \<Rightarrow> 'l actor_addr) \<Rightarrow> 'l actor_addr \<Rightarrow> bool" where
  "domain_hyps R M k \<longleftrightarrow> domain_ok R M \<and> bounded R \<and>
     inj_on (\<lambda>r. for_handler (M r)) (set (ranks (reg_slice R))) \<and>
     (\<forall>r \<in> set (ranks (reg_slice R)). for_handler (M r) \<notin> cast_keys) \<and>
     Actor k \<notin> cast_keys"

text \<open>Before the domain is created: nothing in flight, no routing state of the domain anywhere.\<close>

definition initial :: "uid \<Rightarrow> 'l actor_addr \<Rightarrow> ('l, 'r, 'b, 'e) net \<Rightarrow> bool" where
  "initial d k n \<longleftrightarrow> n_flight n = [] \<and> n_log n = [] \<and> n_failed n = {} \<and>
     (\<forall>a. n_hops n a (uid_key d) = None \<and> actor_addr_key (cx_actor (n_cx n (actor_addr_key a))) = actor_addr_key a) \<and>
     actor_addr_key (cx_actor (n_cx n k)) = k"

definition well_used :: "('l, 'r, 'b, 'e) cast_runtime \<Rightarrow> ('l, 'r, 'b) command list \<Rightarrow> bool" where
  "well_used rt cs \<longleftrightarrow> Destroy_Command \<notin> set (butlast cs) \<and>
     (\<forall>(h, port, data) \<in> set (casts_of cs). headers_ok h \<and> resolvable rt (mp_parts data))"

definition sys_inv :: "('l, 'r, 'b, 'e) cast_runtime \<Rightarrow> region \<Rightarrow> (nat \<Rightarrow> 'l actor_addr) \<Rightarrow> tiling_policy \<Rightarrow> uid \<Rightarrow> 'l actor_addr
    \<Rightarrow> ('l, 'r, 'b, 'e) cast_cx \<Rightarrow> ('l, 'r, 'b) command list \<Rightarrow> ('l, 'r, 'b, 'e) net \<Rightarrow> bool" where
  "sys_inv rt R M p d k cx0 cs n \<longleftrightarrow>
     (\<exists>ph. net_inv rt k R M p \<lparr>dc_domain = d, dc_origin = cx_actor cx0\<rparr> ph n \<and>
        ph (root_tile R) = (if Destroy_Command \<in> set cs then Done else Live)) \<and>
     cx_actor (n_cx n k) = cx_actor cx0 \<and>
     session_id (cx_sequencer (n_cx n k)) = session_id (cx_sequencer cx0) \<and>
     (\<forall>r \<in> set (ranks (reg_slice R)). last_seq (n_cx n k) (M r) = last_seq cx0 (M r) + length (casts_of cs)) \<and>
     total_due rt R M p n =
       all_due rt R M (cx_actor cx0) (session_id (cx_sequencer cx0)) (\<lambda>r. last_seq cx0 (M r)) (casts_of cs)"

lemma node_key_cast: "Actor (node_key M t) \<in> cast_keys"
  unfolding node_key_def cast_ref_def cast_keys_def for_handler_def by blast

lemma sys_inv_step:
  assumes "domain_hyps R M k" "sys_inv rt R M p d k cx0 cs n" "step rt n n'"
  shows "sys_inv rt R M p d k cx0 cs n'"
proof -
  let ?dm = "\<lparr>dc_domain = d, dc_origin = cx_actor cx0\<rparr>"
  have dom: "domain_ok R M" using assms(1) by (simp add: domain_hyps_def)
  obtain ph where ph: "net_inv rt k R M p ?dm ph n" "ph (root_tile R) = (if Destroy_Command \<in> set cs then Done else Live)"
    using assms(2) by (auto simp: sys_inv_def)
  obtain t pt' where e: "effect rt R M p ?dm ph n t pt' n'" using step_effect [OF dom ph(1) assms(3)] by blast
  have "n_cx n' k = n_cx n k"
    using e
  proof cases
    case (effect u xs e ys w D cx')
    have "k \<noteq> node_key M t" using node_key_cast [of M t] assms(1) by (auto simp: domain_hyps_def)
    then show ?thesis by (simp add: effect(1))
  qed
  moreover note net_inv_effect [OF dom ph(1) e] effect_root [OF dom e] effect_measures(1) [OF dom e] ph(2)
  ultimately show ?thesis using assms(2) unfolding sys_inv_def by metis
qed

lemma sys_inv_cast:
  assumes "0 < max_locked" "domain_hyps R M k" "actor_addr_key (cx_actor cx0) = k" "members_ok R M mesh"
    "sys_inv rt R M p d k cx0 cs n" "Destroy_Command \<notin> set cs" "headers_ok h" "resolvable rt (mp_parts data)"
  shows "sys_inv rt R M p d k cx0 (cs @ [Cast_Command h port data])
    (act k (cast rt max_locked (domain_ref d R M p mesh) h port data) n)"
proof -
  let ?dm = "\<lparr>dc_domain = d, dc_origin = cx_actor cx0\<rparr>" and ?dr = "domain_ref d R M p mesh"
  let ?cx = "(n_cx n k)\<lparr>cx_out := []\<rparr>" and ?root = "root_tile R" and ?sid = "session_id (cx_sequencer cx0)"
  let ?f = "cast rt max_locked ?dr h port data" and ?rs = "ranks (reg_slice R)"
  have dom: "domain_ok R M" "bounded R" "inj_on (\<lambda>r. for_handler (M r)) (set ?rs)" "region_inv R"
    using assms(2) by (simp_all add: domain_hyps_def domain_ok_def)
  obtain ph where ph: "net_inv rt k R M p ?dm ph n" "ph ?root = Live" using assms(5,6) by (auto simp: sys_inv_def)
  have a: "cx_actor (n_cx n k) = cx_actor cx0" "session_id (cx_sequencer (n_cx n k)) = ?sid"
    "\<forall>r \<in> set ?rs. last_seq (n_cx n k) (M r) = last_seq cx0 (M r) + length (casts_of cs)"
    using assms(5) by (auto simp: sys_inv_def)
  obtain seqs g es cx' where c: "?f ?cx = (Inr (), cx')" "cx_actor cx' = cx_actor ?cx" "cx_out cx' = cx_out ?cx @ es"
    "\<forall>r \<in> set ?rs. get_by_base_rank seqs r = Some (last_seq ?cx (M r) + 1)"
    "\<forall>c \<in> set (subtrees R p). casts_ok rt d c [g c] \<and> (\<forall>r \<in> set (tranks c). delivered rt R M (g c) r =
      delivered rt R M (cast_msg d (cx_actor ?cx) (session_id (cx_sequencer ?cx)) seqs h port data) r)"
    "list_all2 (\<lambda>e c. emission rt R M p (cx_actor ?cx) (g c) c e) es (subtrees R p)"
    using cast_ok [OF assms(1) dom(4,2) assms(4) dom(3) assms(7,8), of d p port ?cx] by blast
  define m where "m = cast_msg d (cx_actor cx0) ?sid seqs h port data"
  have g: "casts_ok rt d c [g c]" "\<forall>r \<in> set (tranks c). delivered rt R M (g c) r = delivered rt R M m r"
    if "c \<in> set (subtrees R p)" for c using c(5) that a(1,2) by (simp_all add: m_def)
  let ?D = "image_mset (delivered rt R M m)
    (add_mset (root_rank ?root) (mset (map root_rank (filter (\<lambda>c. kids p c = []) (kids p ?root)))))"
  have adv: "advance rt R M p ?dm ?root (ph ?root) (WCast m) Live (\<lambda>c. WCast (g c)) ?D"
    unfolding ph(2) using g by (intro advance.cast) (auto simp: inner_kids_def subtrees_def)
  have "delivered rt R M (g c) (root_rank c) = delivered rt R M m (root_rank c)" if "c \<in> set (subtrees R p)" for c
    using g(2) [OF that] root_in_ranks subtree_facts(1) [OF dom(4) that] by blast
  then have out: "outcome rt M (cx_actor (n_cx n k)) (\<lambda>c. WCast (g c)) ?D (inner_kids p ?root) (cx_out cx')"
    using outcome_kids [of rt R M p "cx_actor ?cx" g es "subtrees R p" m] c(3,6)
    unfolding subtrees_inner [OF dom(4)] by simp
  have act: "actor_addr_key (cx_actor (n_cx n k)) = k" "cx_actor cx' = cx_actor (n_cx n k)"
    using a(1) assms(3) c(2) by simp_all
  note inv = net_inv_act [where f = ?f and ph = ph, OF dom(1) ph(1) act(1) adv c(1) act(2) out]
  have cx': "n_cx (act k ?f n) k = snd (?f ?cx)" by (simp add: act_def c(1))
  have "due_of rt R M (WCast m) ?root =
      image_mset (\<lambda>r. cast_to_member rt R M (cx_actor cx0) ?sid (h, port, data) (last_seq cx0 (M r) + length (casts_of cs) + 1) r) (mset ?rs)"
    unfolding due_of_def wire.case root_tile_def tile.sel m_def
    using c(4) a(3) by (intro image_mset_cong delivered_cast_msg) (simp add: last_seq_def)
  then have "total_due rt R M p (act k ?f n) = all_due rt R M (cx_actor cx0) ?sid (\<lambda>r. last_seq cx0 (M r)) (casts_of (cs @ [Cast_Command h port data]))"
    using inv(2) assms(5) by (simp add: sys_inv_def all_due_snoc)
  moreover have "last_seq (n_cx (act k ?f n) k) (M r) = last_seq cx0 (M r) + length (casts_of (cs @ [Cast_Command h port data]))"
    if "r \<in> set ?rs" for r
    using cast_counts(1) [OF assms(1) dom(4) assms(4) dom(3) _ that, of rt d p h port data ?cx] a(3) that assms(2)
    by (simp add: cx' domain_hyps_def last_seq_def)
  moreover have "session_id (cx_sequencer (n_cx (act k ?f n) k)) = ?sid"
  proof -
    have r: "root_rank ?root \<in> set ?rs" using root_in_ranks [OF root_tile_inv [OF dom(1)]] by (simp add: root_tile_def)
    then show ?thesis
      using cast_counts(2) [OF assms(1) dom(4) assms(4) dom(3) _ r, of rt d p h port data ?cx] a(2) assms(2)
      by (simp add: cx' domain_hyps_def)
  qed
  moreover have "cx_actor (n_cx (act k ?f n) k) = cx_actor cx0" using c(1,2) a(1) by (simp add: cx')
  moreover have "next_phase p ?root Live ph ?root = Live" by (simp add: next_phase_def)
  ultimately show ?thesis using inv(1) assms(6) unfolding sys_inv_def by auto
qed

lemma frame_counts:
  assumes "frames f" "f ((n_cx n k)\<lparr>cx_out := []\<rparr>) = (Inr y, cx')" "for_handler a \<notin> cast_keys"
  shows "last_seq cx' a = last_seq (n_cx n k) a" "session_id (cx_sequencer cx') = session_id (cx_sequencer (n_cx n k))"
  using frames_last_seq [OF assms(1,3), of "(n_cx n k)\<lparr>cx_out := []\<rparr>"]
    frames_session [OF assms(1), of "(n_cx n k)\<lparr>cx_out := []\<rparr>"] assms(2)
  by (simp_all add: last_seq_def)

lemma root_rank_mem: "domain_ok R M \<Longrightarrow> root_rank (root_tile R) \<in> set (ranks (reg_slice R))"
  using root_in_ranks [OF root_tile_inv] by (simp add: root_tile_def)

lemma sys_inv_destroy:
  assumes "domain_hyps R M k" "actor_addr_key (cx_actor cx0) = k"
    "sys_inv rt R M p d k cx0 cs n" "Destroy_Command \<notin> set cs"
  shows "sys_inv rt R M p d k cx0 (cs @ [Destroy_Command]) (act k (destroy rt (domain_ref d R M p mesh)) n)"
proof -
  let ?dm = "\<lparr>dc_domain = d, dc_origin = cx_actor cx0\<rparr>"
  let ?cx = "(n_cx n k)\<lparr>cx_out := []\<rparr>" and ?root = "root_tile R" and ?sid = "session_id (cx_sequencer cx0)"
  let ?f = "destroy rt (domain_ref d R M p mesh)" and ?rs = "ranks (reg_slice R)"
  have dom: "domain_ok R M" "region_inv R" using assms(1) by (simp_all add: domain_hyps_def domain_ok_def)
  obtain ph where ph: "net_inv rt k R M p ?dm ph n" "ph ?root = Live" using assms(3,4) by (auto simp: sys_inv_def)
  have a: "cx_actor (n_cx n k) = cx_actor cx0" "session_id (cx_sequencer (n_cx n k)) = ?sid"
    "\<forall>r \<in> set ?rs. last_seq (n_cx n k) (M r) = last_seq cx0 (M r) + length (casts_of cs)"
    using assms(3) by (auto simp: sys_inv_def)
  obtain cx' where c: "?f ?cx = (Inr (), cx')"
    "appends ?cx (destroys rt M \<lparr>dc_domain = d, dc_origin = cx_actor ?cx\<rparr> (inner_kids p ?root)) cx'"
    using destroy_ok [OF dom(2), of rt d M p mesh ?cx] by blast
  have dm: "\<lparr>dc_domain = d, dc_origin = cx_actor ?cx\<rparr> = ?dm" by (simp add: a(1))
  have "cx_actor cx' = cx_actor ?cx \<and> outcome rt M (cx_actor ?cx) (\<lambda>_. WDestroy ?dm) {#} (inner_kids p ?root) (cx_out cx')"
    by (rule outcome_forward [OF c(2) [unfolded destroys_def dm]]) (simp, rule sends_for_cast_actor(3))
  then have o: "cx_actor cx' = cx_actor (n_cx n k)"
    "outcome rt M (cx_actor (n_cx n k)) (\<lambda>_. WDestroy ?dm) {#} (inner_kids p ?root) (cx_out cx')" by simp_all
  have adv: "advance rt R M p ?dm ?root (ph ?root) (WDestroy ?dm) Done (\<lambda>_. WDestroy ?dm) {#}"
    unfolding ph(2) by (rule advance.destroy)
  have k: "actor_addr_key (cx_actor (n_cx n k)) = k" using a(1) assms(2) by simp
  note inv = net_inv_act [where f = ?f and ph = ph, OF dom(1) ph(1) k adv c(1) o]
  have cx': "n_cx (act k ?f n) k = cx'" by (simp add: act_def c(1))
  note fc = frame_counts [where f = ?f and n = n and k = k, OF frames_destroy c(1)]
  have "last_seq cx' (M r) = last_seq cx0 (M r) + length (casts_of cs)" if "r \<in> set ?rs" for r
    using fc(1) [of "M r"] a(3) that assms(1) by (simp add: domain_hyps_def)
  moreover have "session_id (cx_sequencer cx') = ?sid"
    using fc(2) [of "M (root_rank ?root)"] a(2) assms(1) root_rank_mem [OF dom(1)] by (simp add: domain_hyps_def)
  moreover have "next_phase p ?root Done ph ?root = Done" by (simp add: next_phase_def)
  moreover have "total_due rt R M p (act k ?f n) = total_due rt R M p n" using inv(2) by simp
  ultimately show ?thesis using inv(1) assms(3) o(1) a(1) unfolding sys_inv_def cx' by auto
qed

lemma sys_inv_start:
  assumes "domain_hyps R M k" "initial d k n" "members_ok R M mesh" "headers_ok h"
  shows "sys_inv rt R M p d k (n_cx n k) [] (act k (materialize_members rt d mesh R p h) n)"
    "fst (materialize_members rt d mesh R p h ((n_cx n k)\<lparr>cx_out := []\<rparr>)) = Inr (domain_ref d R M p mesh)"
proof -
  let ?dm = "\<lparr>dc_domain = d, dc_origin = cx_actor (n_cx n k)\<rparr>"
  let ?cx = "(n_cx n k)\<lparr>cx_out := []\<rparr>" and ?root = "root_tile R" and ?sid = "session_id (cx_sequencer (n_cx n k))"
  let ?f = "materialize_members rt d mesh R p h" and ?rs = "ranks (reg_slice R)"
  have dom: "domain_ok R M" "region_inv R" using assms(1) by (simp_all add: domain_hyps_def domain_ok_def)
  obtain cx' where c: "?f ?cx = (Inr (domain_ref d R M p mesh), cx')"
    "appends ?cx (creates rt d R M p (inner_kids p ?root)) cx'"
    using materialize_members_ok [OF dom(2) assms(3,4), of rt d p ?cx] by blast
  then show "fst (?f ?cx) = Inr (domain_ref d R M p mesh)" by simp
  define ph where "ph = (\<lambda>t. if t = ?root then Pending else Fresh)"
  have "edge_ok rt R M p ?dm (ph u) (ph t) t (n_hops n (node_key M t) (uid_key d)) []" if "edge R p u t" for u t
    using edge_facts(8) [OF dom(1) that] assms(2) by (simp add: ph_def edge_ok_def initial_def)
  moreover have "actor_addr_key (cx_actor (n_cx n (node_key M t))) = node_key M t" for t
    using assms(2) unfolding initial_def node_key_def by blast
  ultimately have ph: "net_inv rt k R M p ?dm ph n" "ph ?root = Pending"
    using assms(2) by (auto simp: net_inv_def senders_ok_def initial_def ph_def)
  have "cx_actor cx' = cx_actor ?cx \<and> outcome rt M (cx_actor ?cx)
      (\<lambda>c. WCreate (create_msg d R M p c)) {#} (inner_kids p ?root) (cx_out cx')"
    by (rule outcome_forward [OF c(2) [unfolded creates_def]]) (simp, rule sends_for_cast_actor(1))
  then have o: "cx_actor cx' = cx_actor (n_cx n k)"
    "outcome rt M (cx_actor (n_cx n k)) (\<lambda>c. WCreate (create_msg d R M p c)) {#} (inner_kids p ?root) (cx_out cx')" by simp_all
  have adv: "advance rt R M p ?dm ?root (ph ?root) (WCreate (create_msg d R M p ?root)) Live
      (\<lambda>c. WCreate (create_msg d R M p c)) {#}"
    unfolding ph(2) using advance.create [of rt R M p ?dm ?root] by simp
  have k: "actor_addr_key (cx_actor (n_cx n k)) = k" using assms(2) by (simp add: initial_def)
  note inv = net_inv_act [where f = ?f and ph = ph, OF dom(1) ph(1) k adv c(1) o]
  have cx': "n_cx (act k ?f n) k = cx'" by (simp add: act_def c(1))
  note fc = frame_counts [where f = ?f and n = n and k = k, OF frames_materialize c(1)]
  have "last_seq cx' (M r) = last_seq (n_cx n k) (M r)" if "r \<in> set ?rs" for r
    using fc(1) [of "M r"] that assms(1) by (simp add: domain_hyps_def)
  moreover have "session_id (cx_sequencer cx') = ?sid"
    using fc(2) [of "M (root_rank ?root)"] assms(1) root_rank_mem [OF dom(1)] by (simp add: domain_hyps_def)
  moreover have "next_phase p ?root Live ph ?root = Live" by (simp add: next_phase_def)
  moreover have "total_due rt R M p (act k ?f n) = {#}" using inv(2) assms(2) by (simp add: total_due_def initial_def)
  ultimately show "sys_inv rt R M p d k (n_cx n k) [] (act k ?f n)"
    using inv(1) o(1) unfolding sys_inv_def cx' by (auto simp: all_due_def)
qed

section \<open>Executions\<close>

lemma well_used_snoc:
  assumes "well_used rt (cs @ [c])"
  shows "well_used rt cs" "Destroy_Command \<notin> set cs"
  using assms by (auto simp: well_used_def dest: in_set_butlastD)

lemma exec_inv:
  assumes "exec rt max_locked (domain_ref d R M p mesh) k n1 cs n" "0 < max_locked" "domain_hyps R M k"
    "actor_addr_key (cx_actor cx0) = k" "members_ok R M mesh" "sys_inv rt R M p d k cx0 [] n1" "well_used rt cs"
  shows "sys_inv rt R M p d k cx0 cs n"
  using assms(1,7)
proof (induction rule: exec.induct)
  case exec_start
  show ?case by (rule assms(6))
next
  case (exec_deliver cs n n')
  then show ?case using sys_inv_step [OF assms(3)] by blast
next
  case (exec_command cs n c)
  note w = well_used_snoc [OF exec_command.prems]
  note inv = exec_command.IH [OF w(1)]
  show ?case
  proof (cases c)
    case (Cast_Command h port data)
    then have "headers_ok h" "resolvable rt (mp_parts data)" using exec_command.prems by (auto simp: well_used_def)
    then show ?thesis
      using sys_inv_cast [OF assms(2-5) inv w(2)] by (simp add: Cast_Command)
  next
    case Destroy_Command
    then show ?thesis using sys_inv_destroy [OF assms(3,4) inv w(2)] by simp
  qed
qed

lemma sys_inv_log:
  assumes "sys_inv rt R M p d k cx0 cs n"
  shows "n_failed n = {}" "\<forall>e \<in> set (n_log n). is_data (env_data e)"
    "image_mset observe (mset (n_log n)) \<subseteq>#
      all_due rt R M (cx_actor cx0) (session_id (cx_sequencer cx0)) (\<lambda>r. last_seq cx0 (M r)) (casts_of cs)"
    "n_flight n = [] \<Longrightarrow> image_mset observe (mset (n_log n)) =
      all_due rt R M (cx_actor cx0) (session_id (cx_sequencer cx0)) (\<lambda>r. last_seq cx0 (M r)) (casts_of cs)"
proof -
  have t: "total_due rt R M p n =
      all_due rt R M (cx_actor cx0) (session_id (cx_sequencer cx0)) (\<lambda>r. last_seq cx0 (M r)) (casts_of cs)"
    using assms by (simp add: sys_inv_def)
  show "n_failed n = {}" "\<forall>e \<in> set (n_log n). is_data (env_data e)"
    using assms by (auto simp: sys_inv_def net_inv_def)
  show "image_mset observe (mset (n_log n)) \<subseteq>#
      all_due rt R M (cx_actor cx0) (session_id (cx_sequencer cx0)) (\<lambda>r. last_seq cx0 (M r)) (casts_of cs)"
    unfolding t [symmetric] total_due_def by simp
  show "image_mset observe (mset (n_log n)) =
      all_due rt R M (cx_actor cx0) (session_id (cx_sequencer cx0)) (\<lambda>r. last_seq cx0 (M r)) (casts_of cs)"
    if "n_flight n = []"
    unfolding t [symmetric] total_due_def by (simp add: that)
qed

section \<open>Rest\<close>

lemma quiet_phase:
  assumes "net_inv rt ca R M p dm ph n" "n_flight n = []" "ph (root_tile R) = x" "x = Live \<or> x = Done"
    "desc p (root_tile R) u"
  shows "kids p u \<noteq> [] \<Longrightarrow> ph u = x"
  using assms(5)
proof (induction "root_tile R" u rule: desc.induct)
  case desc_refl
  then show ?case using assms(3) by simp
next
  case (desc_kid u c)
  have "kids p u \<noteq> []" using desc_kid.hyps(3) by auto
  then have "ph u = x" by (rule desc_kid.hyps(2))
  moreover have "edge R p u c" using desc_kid by (simp add: edge_def inner_kids_def)
  ultimately have "edge_ok rt R M p dm x (ph c) c (n_hops n (node_key M c) (uid_key (dc_domain dm))) []"
    using net_inv_edge [OF assms(1), of u c] assms(2) by simp
  then show ?case using assms(4) by (cases "ph c") (auto simp: edge_ok_def final_def split: if_splits)
qed

lemma quiet_hops:
  assumes "domain_ok R M" "net_inv rt ca R M p dm ph n" "n_flight n = []" "ph (root_tile R) = x" "x = Live \<or> x = Done"
    "edge R p u t"
  shows "n_hops n (node_key M t) (uid_key (dc_domain dm)) = hop_in x (hop_of R M p t)"
proof -
  have "ph t = x" using quiet_phase [OF assms(2-5)] edge_facts [OF assms(1,6)] by blast
  then show ?thesis using net_inv_edge [OF assms(2,6)] assms(5) by (auto simp: edge_ok_def hop_in_def)
qed

text \<open>Only hops of the domain, at the cast actors of its tiles, ever change.\<close>

lemma effect_hops:
  assumes "effect rt R M p dm ph n t pt' n'" "n_hops n' a x \<noteq> n_hops n a x"
  shows "x = uid_key (dc_domain dm) \<and> (\<exists>u t. edge R p u t \<and> a = node_key M t)"
  using assms(1)
proof cases
  case (effect u xs e ys w D cx')
  have "a = node_key M t" "x = uid_key (dc_domain dm)"
    using assms(2) by (auto simp: effect(1) fun_upd_apply split: if_splits)
  then show ?thesis using effect(2) by blast
qed

lemma act_hops [simp]: "n_hops (act k f n) = n_hops n"
  by (simp add: act_def Let_def split: prod.splits)

end
