(* ===== verification/Cast_Failures.thy ===== *)
theory Cast_Failures
  imports Cast_System
begin

text \<open>
  Failures in the cast actor: routing a message may fail because a reducer cannot be built or a
  rank has no sequence number, but never in a way that stops the actor; the message goes back to
  the actor that cast it.
\<close>

section \<open>Errors of an action\<close>

definition errs :: "('e \<Rightarrow> bool) \<Rightarrow> ('s, 'e, 'a) action \<Rightarrow> bool" where
  "errs P f \<longleftrightarrow> (\<forall>s e t. f s = (Inl e, t) \<longrightarrow> P e)"

lemma errs_return [intro!]: "errs P (return_action x)"
  by (simp add: errs_def)

lemma errs_bind: "errs P f \<Longrightarrow> (\<And>x. errs P (g x)) \<Longrightarrow> errs P (bind_action f g)"
  unfolding errs_def bind_action_def by (auto split: prod.splits sum.splits)

lemma errs_for_each: "(\<And>x. x \<in> set xs \<Longrightarrow> errs P (f x)) \<Longrightarrow> errs P (for_each f xs)"
  by (induction xs) (auto intro!: errs_bind)

lemma errs_lift_result: "(\<And>e. r = Inl e \<Longrightarrow> P e) \<Longrightarrow> errs P (lift_result r)"
  by (simp add: errs_def lift_result_def)

text \<open>The errors after which the handler returns the message instead of failing.\<close>

definition returnable :: "'e cast_error \<Rightarrow> bool" where
  "returnable e \<longleftrightarrow> e \<noteq> CastPanic \<and> e \<noteq> PostError SeqInfoAlreadySet"

lemma errs_split_ports: "errs returnable (split_ports rt data n here)"
proof -
  have split: "errs returnable (lift_cx (split_port resolve port spec mode ret))" for resolve port spec mode ret
    by (auto simp: errs_def lift_cx_def split_port_def map_error_def returnable_def Let_def split: sum.splits)
  have "errs returnable (split_port_part rt x)" for x
    by (cases x) (auto simp: split_port_part_def intro!: errs_bind split)
  moreover have "errs returnable (split_once_port_part rt k x)" for k x
    by (cases x) (auto simp: split_once_port_part_def intro!: errs_bind split)
  ultimately show ?thesis unfolding split_ports_def by (intro errs_bind errs_for_each errs_return) simp_all
qed

lemma errs_delivery: "errs returnable (lift_result (delivery_try_from_message m dest))"
  by (rule errs_lift_result)
    (auto simp: delivery_try_from_message_def dest_seq_def ok_or_def bind_result_def returnable_def
      split: option.splits sum.splits)

lemma post_external: "\<exists>cx1. lift_cx (post a h w ret AllowExternal) cx = (Inr (), cx1)"
  by (cases "h SEQ_INFO = None") (simp_all add: post_def lift_cx_def map_error_def)

lemma errs_deliver: "errs returnable (deliver_to_destination rt delivery dest data)"
  unfolding errs_def deliver_to_destination_def Let_def
proof (intro allI impI)
  fix s e t
  let ?a = "port_addr_of (cd_actor dest) (Handler (Instance (cv_dest_port delivery) None))"
  assume e: "lift_cx (post ?a (delivery_headers rt delivery dest ?a)
    (WData (data\<lparr>mp_parts := map (stamp_rank (pt_rank (cd_point dest))) (mp_parts data)\<rparr>)) True AllowExternal) s = (Inl e, t)"
  obtain t' where "lift_cx (post ?a (delivery_headers rt delivery dest ?a)
    (WData (data\<lparr>mp_parts := map (stamp_rank (pt_rank (cd_point dest))) (mp_parts data)\<rparr>)) True AllowExternal) s = (Inr (), t')"
    by (rule exE [OF post_external]) (rule that)
  then show "returnable e" by (simp only: e prod.inject sum.distinct simp_thms)
qed

lemma errs_route: "headers_ok (cm_headers m) \<Longrightarrow> errs returnable (route_next_hop rt m data hop)"
proof (cases hop)
  case (ViaCastActor a)
  then show ?thesis if "headers_ok (cm_headers m)" using that by (simp add: route_next_hop_def errs_def post_to_actor_ok)
next
  case (DirectTo dest)
  then show ?thesis by (simp add: route_next_hop_def errs_bind errs_delivery errs_deliver)
qed

lemma errs_route_cast: "headers_ok (cm_headers m) \<Longrightarrow> errs returnable (route_cast_message rt m hop)"
  unfolding route_cast_message_def
  by (intro errs_bind errs_split_ports errs_delivery errs_deliver errs_for_each errs_route errs_return)

section \<open>Returned messages\<close>

definition is_return :: "('l, 'r, 'b, 'e) cast_runtime \<Rightarrow> ('l, 'r, 'b) cast_message \<Rightarrow> string
    \<Rightarrow> ('l, ('l, 'r, 'b) wire) envelope \<Rightarrow> bool" where
  "is_return rt m phase e \<longleftrightarrow> env_dest e = handler_port rt ''Undeliverable'' (cm_sender m) \<and>
     (\<exists>failure dest headers. env_data e = WReturned (Some failure) (cm_sender m) dest headers (WCast m) \<and>
        failure CAST_FAILURE_PHASE = Some (StringV phase) \<and>
        headers CAST_ORIGINATING_SENDER = Some (ActorAddrV (cm_sender m)))"

lemma return_cast_error_ok:
  "\<exists>cx' e. return_cast_error_to_origin rt hdrs m phase cx = (Inr (), cx') \<and> cx_out cx' = cx_out cx @ [e] \<and>
    is_return rt m phase e"
  unfolding return_cast_error_to_origin_def return_to_origin_def Let_def
  by (auto simp: post_to_actor_ok sequenced_post_def is_return_def annotate_cast_failure_def split: prod.splits)



definition fail_actor :: "unit actor_addr" where
  "fail_actor = \<lparr>actor_addr_id = \<lparr>actor_uid = Singleton ''cast'', actor_proc = \<lparr>proc_uid = Instance 1 None\<rparr>\<rparr>,
     actor_addr_location = ()\<rparr>"

definition fail_runtime :: "(unit, unit, unit, unit) cast_runtime" where
  "fail_runtime = \<lparr>rt_typehash = length, rt_hash = (\<lambda>_. 0), rt_resolve = (\<lambda>_. Inl ())\<rparr>"

definition fail_message :: "(unit, unit, unit) cast_message" where
  "fail_message = \<lparr>cm_domain = Instance 3 None, cm_sender = fail_actor, cm_session = 5,
     cm_seqs = \<lparr>vm_region = new_row_major [1], vm_rep = Dense [1]\<rparr>, cm_headers = Map.empty, cm_dest_port = 2,
     cm_data = \<lparr>mp_body = (), mp_parts = [PortPart \<lparr>pr_addr = port_addr_of fail_actor (Ephemeral 4),
       pr_reducer_spec = Some (), pr_return_undeliverable = True, pr_unsplit = False\<rparr>]\<rparr>\<rparr>"

definition fail_cx :: "(unit, unit, unit, unit) cast_cx" where
  "fail_cx = \<lparr>cx_actor = fail_actor, cx_next_port = 0, cx_sequencer = sequencer_new 5, cx_proxies = Map.empty, cx_out = []\<rparr>"

definition fail_hop :: "unit cast_hop" where
  "fail_hop = \<lparr>hop_local = \<lparr>cd_point = \<lparr>pt_rank = 0, pt_extent = \<lparr>ext_labels = [''x''], ext_sizes = [1]\<rparr>\<rparr>,
     cd_base_rank = 0, cd_actor = fail_actor\<rparr>, hop_next = []\<rparr>"

lemma fail_route: "\<exists>e cx1. route_cast_message fail_runtime fail_message fail_hop fail_cx = (Inl e, cx1)"
  by (simp add: route_cast_message_def split_ports_def fail_message_def split_port_part_def bind_action_def
      split_port_def lift_cx_def fail_runtime_def map_error_def Let_def)


end
