(* ===== verification/Cast_Props.thy ===== *)
theory Cast_Props
  imports Cast_System
begin

text \<open>
  The invariants the cast actor documents: domain coverage (every member gets every cast exactly
  once), setup ordering, route independence and the lifecycle of routing state, as theorems about
  all executions; termination of the deliveries; and containment of failures.
\<close>

section \<open>Progress\<close>

lemma step_enabled: "n_flight n \<noteq> [] \<Longrightarrow> \<exists>n'. step rt n n'"
  by (cases "n_flight n") (use deliver [of n "[]"] in auto)

lemma sys_inv_work:
  assumes "domain_hyps R M k" "sys_inv rt R M p d k cx0 cs n" "step rt n n'"
  shows "work R M p n' < work R M p n"
proof -
  have dom: "domain_ok R M" using assms(1) by (simp add: domain_hyps_def)
  obtain ph where "net_inv rt k R M p \<lparr>dc_domain = d, dc_origin = cx_actor cx0\<rparr> ph n" using assms(2) by (auto simp: sys_inv_def)
  from step_effect [OF dom this assms(3)] show ?thesis using effect_measures(2) [OF dom] by blast
qed

lemma sum_list_bound: "(\<And>e. e \<in> set es \<Longrightarrow> f e \<le> (b :: nat)) \<Longrightarrow> (\<Sum>e\<leftarrow>es. f e) \<le> length es * b"
  by (induction es) (auto intro: add_mono)

lemma work_bound:
  assumes "domain_hyps R M k" "sys_inv rt R M p d k cx0 cs n"
  shows "work R M p n \<le> length (n_flight n) * slice_len (reg_slice R)"
proof -
  have dom: "domain_ok R M" using assms(1) by (simp add: domain_hyps_def)
  have s: "senders_ok k R M p (n_flight n)" using assms(2) by (auto simp: sys_inv_def net_inv_def)
  have "slice_len (tile_space (tile_at R M p (dest_key e))) \<le> slice_len (reg_slice R)" if e: "e \<in> set (n_flight n)" for e
  proof -
    obtain u t where t: "edge R p u t" "dest_key e = node_key M t" using bspec [OF s [unfolded senders_ok_def] e] by blast
    have "tile_at R M p (dest_key e) = t" unfolding t(2) by (rule tile_at_eq [OF dom t(1)])
    moreover have "slice_len (tile_space t) \<le> slice_len (reg_slice R)"
      using desc_len [OF edge_facts(6) [OF dom t(1)] root_tile_inv [OF dom]] by (simp add: root_tile_def)
    ultimately show ?thesis by simp
  qed
  then show ?thesis unfolding work_def by (rule sum_list_bound)
qed

interpretation cast_net: settling "step rt" "\<lambda>n. domain_hyps R M k \<and> sys_inv rt R M p d k cx0 cs n"
    "\<lambda>n. n_flight n = []" "work R M p"
  for rt :: "('l, 'r, 'b, 'e) cast_runtime" and R M p d k cx0 cs
  by unfold_locales (auto dest: sys_inv_step sys_inv_work step_enabled)

section \<open>The life of a domain\<close>

text \<open>Everything a sender and the network can reach once the domain is created.\<close>

definition reaches :: "('l, 'r, 'b, 'e) cast_runtime \<Rightarrow> nat \<Rightarrow> uid \<Rightarrow> (nat \<times> 'l actor_addr) list \<Rightarrow> region \<Rightarrow> tiling_policy
    \<Rightarrow> 'l flattrs \<Rightarrow> 'l actor_addr \<Rightarrow> ('l, 'r, 'b, 'e) net \<Rightarrow> ('l, 'r, 'b) command list \<Rightarrow> ('l, 'r, 'b, 'e) net \<Rightarrow> bool" where
  "reaches rt max_locked d members R p h k n0 cs n \<longleftrightarrow>
     (\<exists>dr. fst (materialize rt d members R p h ((n_cx n0 k)\<lparr>cx_out := []\<rparr>)) = Inr dr \<and>
       exec rt max_locked dr k (act k (materialize rt d members R p h) n0) cs n)"

lemma life_inv:
  assumes "0 < max_locked" "domain_hyps R M k" "initial d k n0" "length members = num_ranks (reg_slice R)"
    "\<forall>r \<in> set (ranks (reg_slice R)). map_of members r = Some (M r)" "headers_ok h"
    "reaches rt max_locked d members R p h k n0 cs n" "well_used rt cs"
  shows "sys_inv rt R M p d k (n_cx n0 k) cs n"
proof -
  have r: "region_inv R" using assms(2) by (simp add: domain_hyps_def domain_ok_def)
  obtain mesh where m: "members_ok R M mesh"
    "\<forall>cx. materialize rt d members R p h cx = materialize_members rt d mesh R p h cx"
    using materialize_ok [OF r assms(4,5)] by blast
  then have eq: "materialize rt d members R p h = materialize_members rt d mesh R p h" by blast
  note start = sys_inv_start [OF assms(2,3) m(1) assms(6), of rt p]
  have "exec rt max_locked (domain_ref d R M p mesh) k (act k (materialize_members rt d mesh R p h) n0) cs n"
    using assms(7) start(2) by (auto simp: reaches_def eq)
  moreover have "actor_addr_key (cx_actor (n_cx n0 k)) = k" using assms(3) by (simp add: initial_def)
  ultimately show ?thesis using exec_inv [OF _ assms(1,2) _ m(1) start(1) assms(8)] by blast
qed

lemma materialize_succeeds:
  assumes "domain_hyps R M k" "initial d k n0" "length members = num_ranks (reg_slice R)"
    "\<forall>r \<in> set (ranks (reg_slice R)). map_of members r = Some (M r)" "headers_ok h"
  shows "reaches rt max_locked d members R p h k n0 [] (act k (materialize rt d members R p h) n0)"
proof -
  have r: "region_inv R" using assms(1) by (simp add: domain_hyps_def domain_ok_def)
  obtain mesh where m: "members_ok R M mesh"
    "\<forall>cx. materialize rt d members R p h cx = materialize_members rt d mesh R p h cx"
    using materialize_ok [OF r assms(3,4)] by blast
  then show ?thesis
    using sys_inv_start(2) [OF assms(1,2) m(1) assms(5), of rt p] exec_start unfolding reaches_def by metis
qed

lemma reaches_command:
  "reaches rt max_locked d members R p h k n0 cs n \<Longrightarrow>
    \<exists>dr. fst (materialize rt d members R p h ((n_cx n0 k)\<lparr>cx_out := []\<rparr>)) = Inr dr \<and>
      reaches rt max_locked d members R p h k n0 (cs @ [c]) (act k (run_command rt max_locked dr c) n)"
  unfolding reaches_def using exec_command by blast

lemma reaches_step: "reaches rt max_locked d members R p h k n0 cs n \<Longrightarrow> step rt n n' \<Longrightarrow>
    reaches rt max_locked d members R p h k n0 cs n'"
  unfolding reaches_def using exec_deliver by blast

lemma exec_hops:
  assumes "domain_hyps R M k" "0 < max_locked" "actor_addr_key (cx_actor cx0) = k" "members_ok R M mesh"
    "sys_inv rt R M p d k cx0 [] n1" "exec rt max_locked (domain_ref d R M p mesh) k n1 cs n" "well_used rt cs"
    "n_hops n a x \<noteq> n_hops n1 a x"
  shows "x = uid_key d \<and> (\<exists>u t. edge R p u t \<and> a = node_key M t)"
  using assms(6,7,8)
proof (induction rule: exec.induct)
  case (exec_deliver cs n n')
  show ?case
  proof (cases "n_hops n' a x = n_hops n a x")
    case True
    then show ?thesis using exec_deliver by simp
  next
    case False
    have dom: "domain_ok R M" using assms(1) by (simp add: domain_hyps_def)
    have "sys_inv rt R M p d k cx0 cs n"
      using exec_inv [OF exec_deliver.hyps(1) assms(2,1,3,4,5) exec_deliver.prems(1)] .
    then obtain ph where "net_inv rt k R M p \<lparr>dc_domain = d, dc_origin = cx_actor cx0\<rparr> ph n" by (auto simp: sys_inv_def)
    from step_effect [OF dom this exec_deliver.hyps(2)] obtain t pt' where
      "effect rt R M p \<lparr>dc_domain = d, dc_origin = cx_actor cx0\<rparr> ph n t pt' n'" by blast
    from effect_hops [OF this False] show ?thesis by simp
  qed
next
  case (exec_command cs n c)
  then show ?case using well_used_snoc(1) by fastforce
qed simp

lemma life_hops:
  assumes "0 < max_locked" "domain_hyps R M k" "initial d k n0" "length members = num_ranks (reg_slice R)"
    "\<forall>r \<in> set (ranks (reg_slice R)). map_of members r = Some (M r)" "headers_ok h"
    "reaches rt max_locked d members R p h k n0 cs n" "well_used rt cs" "n_hops n a x \<noteq> n_hops n0 a x"
  shows "x = uid_key d \<and> (\<exists>u t. edge R p u t \<and> a = node_key M t)"
proof -
  have r: "region_inv R" using assms(2) by (simp add: domain_hyps_def domain_ok_def)
  obtain mesh where m: "members_ok R M mesh"
    "\<forall>cx. materialize rt d members R p h cx = materialize_members rt d mesh R p h cx"
    using materialize_ok [OF r assms(4,5)] by blast
  then have eq: "materialize rt d members R p h = materialize_members rt d mesh R p h" by blast
  note start = sys_inv_start [OF assms(2,3) m(1) assms(6), of rt p]
  have e: "exec rt max_locked (domain_ref d R M p mesh) k (act k (materialize_members rt d mesh R p h) n0) cs n"
    using assms(7) start(2) by (auto simp: reaches_def eq)
  have "actor_addr_key (cx_actor (n_cx n0 k)) = k" using assms(3) by (simp add: initial_def)
  from exec_hops [OF assms(2,1) this m(1) start(1) e assms(8), of a x] assms(9) show ?thesis by simp
qed

lemma reaches_rest:
  assumes "0 < max_locked" "domain_hyps R M k" "initial d k n0" "length members = num_ranks (reg_slice R)"
    "\<forall>r \<in> set (ranks (reg_slice R)). map_of members r = Some (M r)" "headers_ok h"
    "reaches rt max_locked d members R p h k n0 cs n" "well_used rt cs"
  shows "\<exists>n'. reaches rt max_locked d members R p h k n0 cs n' \<and> n_flight n' = []"
proof -
  have "domain_hyps R M k \<and> sys_inv rt R M p d k (n_cx n0 k) cs n" using assms(2) life_inv [OF assms] by blast
  from cast_net.settles [OF this] obtain n' where n': "(step rt)\<^sup>*\<^sup>* n n'" "n_flight n' = []" by blast
  from n'(1) have "reaches rt max_locked d members R p h k n0 cs n'"
    using assms(7) by (induction rule: rtranclp_induct) (auto intro: reaches_step)
  then show ?thesis using n'(2) by blast
qed

section \<open>A small domain\<close>

definition ex_member :: "nat \<Rightarrow> unit actor_addr" where
  "ex_member r = \<lparr>actor_addr_id = \<lparr>actor_uid = Instance 7 None, actor_proc = \<lparr>proc_uid = Instance r None\<rparr>\<rparr>,
     actor_addr_location = ()\<rparr>"

definition ex_region :: region where
  "ex_region = \<lparr>reg_labels = [''x''], reg_slice = new_row_major [4]\<rparr>"

definition ex_runtime :: "(unit, unit, unit, unit) cast_runtime" where
  "ex_runtime = \<lparr>rt_typehash = length, rt_hash = (\<lambda>_. 0), rt_resolve = (\<lambda>_. Inr None)\<rparr>"

definition ex_net :: "(unit, unit, unit, unit) net" where
  "ex_net = \<lparr>n_hops = (\<lambda>_ _. None), n_cx = (\<lambda>a. \<lparr>cx_actor = a, cx_next_port = 0, cx_sequencer = sequencer_new 5,
     cx_proxies = Map.empty, cx_out = []\<rparr>), n_flight = [], n_log = [], n_failed = {}\<rparr>"

definition ex_list :: "(nat \<times> unit actor_addr) list" where
  "ex_list = map (\<lambda>r. (r, ex_member r)) [0..<4]"

lemma ex_slice: "slice_inv (new_row_major [4])" "ranks (new_row_major [4]) = [0, 1, 2, 3]"
proof -
  show "slice_inv (new_row_major [4])" by (rule new_row_major_inv) simp
  show "ranks (new_row_major [4]) = [0, 1, 2, 3]" by code_simp
qed

lemma ex_not_cast: "for_handler (ex_member r) \<notin> cast_keys"
  by (auto simp: cast_keys_def for_handler_def ex_member_def cast_actor_ref_for_member_def actor_addr_eq_def
      actor_id_eq_def)

lemma ex_hyps: "domain_hyps ex_region ex_member (actor_addr_key (ex_member 9))"
proof -
  have "inj_on (\<lambda>r. actor_addr_key (cast_actor_ref_for_member (ex_member r))) A"
    "inj_on (\<lambda>r. for_handler (ex_member r)) A" for A
    by (auto simp: inj_on_def for_handler_def ex_member_def cast_actor_ref_for_member_def actor_addr_eq_def
        actor_id_eq_def proc_id_eq_def)
  moreover have "bounded ex_region"
    by (simp add: bounded_def ex_region_def new_row_major_def slice_len_def usize_bound_def)
  moreover have "region_inv ex_region" using ex_slice(1) by (simp add: region_inv_def ex_region_def new_row_major_def)
  moreover have "Actor (actor_addr_key (ex_member 9)) \<notin> cast_keys" using ex_not_cast [of 9] by (simp add: for_handler_def)
  ultimately show ?thesis using ex_not_cast by (simp add: domain_hyps_def domain_ok_def)
qed

lemma actor_addr_key_idem: "actor_addr_eq (actor_addr_key a) a"
  by (simp add: actor_addr_eq_def actor_addr_key_def actor_id_eq_def actor_id_key_def proc_id_eq_def uid_key_def
      split: uid.splits)

lemma ex_initial: "initial d (actor_addr_key (ex_member 9)) ex_net"
  by (simp add: initial_def ex_net_def actor_addr_key_idem)

lemma ex_members: "length ex_list = num_ranks (reg_slice ex_region)"
  "\<forall>r \<in> set (ranks (reg_slice ex_region)). map_of ex_list r = Some (ex_member r)"
  by (simp add: ex_list_def ex_region_def num_ranks_def slice_len_def new_row_major_def)
    (simp add: ex_list_def ex_region_def ex_slice upt_rec numeral_2_eq_2 numeral_3_eq_3)

lemma ex_reaches:
  "\<exists>n. reaches ex_runtime 1 (Instance 3 None) ex_list ex_region Bisection Map.empty (actor_addr_key (ex_member 9)) ex_net [] n"
  using materialize_succeeds [OF ex_hyps ex_initial ex_members headers_ok_empty] by blast

lemma ex_well_used: "well_used ex_runtime []"
  by (simp add: well_used_def)

text \<open>One cast to the small domain, delivered to the end.\<close>

definition ex_casts :: "(unit, unit, unit) command list" where
  "ex_casts = [Cast_Command Map.empty 2 \<lparr>mp_body = (), mp_parts = []\<rparr>]"

lemma ex_casts_used: "well_used ex_runtime ex_casts"
  by (simp add: ex_casts_def well_used_def resolvable_def)

lemma ex_rest:
  "\<exists>n. reaches ex_runtime 1 (Instance 3 None) ex_list ex_region Bisection Map.empty (actor_addr_key (ex_member 9)) ex_net
     ex_casts n \<and> n_flight n = []"
proof -
  let ?reach = "reaches ex_runtime 1 (Instance 3 None) ex_list ex_region Bisection Map.empty (actor_addr_key (ex_member 9)) ex_net"
  obtain n1 where "?reach [] n1" using ex_reaches by blast
  from reaches_command [OF this] obtain n2 where "?reach ([] @ ex_casts) n2" unfolding ex_casts_def by blast
  then have n2: "?reach ex_casts n2" by simp
  show ?thesis by (rule reaches_rest [OF _ ex_hyps ex_initial ex_members headers_ok_empty n2 ex_casts_used]) simp
qed

section \<open>Properties\<close>

text \<open>C1: Domain coverage. A domain over members on distinct procs is materialized without an error,
  and whatever casts its sender then makes, however they interleave with the deliveries of the
  network (in any order that keeps each channel in order): no handler fails, nothing is ever
  returned to the sender, no member gets anything it should not get or gets it twice, and once no
  message is in flight every member has received every cast exactly once, with its own rank,
  point and sequence number and with the headers and the payload of the cast, whichever way the
  tree routed it.\<close>

theorem cast_exactly_once:
  assumes "0 < max_locked" "domain_hyps R M k" "initial d k n0" "length members = num_ranks (reg_slice R)"
    "\<forall>r \<in> set (ranks (reg_slice R)). map_of members r = Some (M r)" "headers_ok h"
  shows "(\<exists>n. reaches rt max_locked d members R p h k n0 [] n) \<and>
    (\<forall>cs n. reaches rt max_locked d members R p h k n0 cs n \<longrightarrow> well_used rt cs \<longrightarrow>
      n_failed n = {} \<and> (\<forall>e \<in> set (n_log n). is_data (env_data e)) \<and>
      image_mset observe (mset (n_log n)) \<subseteq>#
        all_due rt R M (cx_actor (n_cx n0 k)) (session_id (cx_sequencer (n_cx n0 k)))
          (\<lambda>r. last_seq (n_cx n0 k) (M r)) (casts_of cs) \<and>
      (n_flight n = [] \<longrightarrow> image_mset observe (mset (n_log n)) =
        all_due rt R M (cx_actor (n_cx n0 k)) (session_id (cx_sequencer (n_cx n0 k)))
          (\<lambda>r. last_seq (n_cx n0 k) (M r)) (casts_of cs)))"
proof (intro conjI allI impI)
  show "\<exists>n. reaches rt max_locked d members R p h k n0 [] n"
    using materialize_succeeds [OF assms(2-6)] by blast
  fix cs n
  assume "reaches rt max_locked d members R p h k n0 cs n" "well_used rt cs"
  note log = sys_inv_log [OF life_inv [OF assms this]]
  show "n_failed n = {}" "\<forall>e \<in> set (n_log n). is_data (env_data e)" using log(1,2) by simp_all
  show "image_mset observe (mset (n_log n)) \<subseteq># all_due rt R M (cx_actor (n_cx n0 k))
      (session_id (cx_sequencer (n_cx n0 k))) (\<lambda>r. last_seq (n_cx n0 k) (M r)) (casts_of cs)" by (rule log(3))
  assume "n_flight n = []"
  then show "image_mset observe (mset (n_log n)) = all_due rt R M (cx_actor (n_cx n0 k))
      (session_id (cx_sequencer (n_cx n0 k))) (\<lambda>r. last_seq (n_cx n0 k) (M r)) (casts_of cs)" by (rule log(4))
qed

theorem cast_exactly_once_witness:
  "\<exists>n. reaches ex_runtime 1 (Instance 3 None) ex_list ex_region Bisection Map.empty
      (actor_addr_key (ex_member 9)) ex_net ex_casts n \<and> n_flight n = [] \<and> n_failed n = {} \<and> size (mset (n_log n)) = 4"
proof -
  let ?k = "actor_addr_key (ex_member 9)"
  obtain n where n: "reaches ex_runtime 1 (Instance 3 None) ex_list ex_region Bisection Map.empty ?k ex_net ex_casts n"
    "n_flight n = []" using ex_rest by blast
  note t = cast_exactly_once [OF _ ex_hyps ex_initial ex_members headers_ok_empty,
      of 1 ex_runtime "Instance 3 None" Bisection]
  have "n_failed n = {}" "image_mset observe (mset (n_log n)) =
      all_due ex_runtime ex_region ex_member (cx_actor (n_cx ex_net ?k)) (session_id (cx_sequencer (n_cx ex_net ?k)))
        (\<lambda>r. last_seq (n_cx ex_net ?k) (ex_member r)) (casts_of ex_casts)"
    using t n ex_casts_used by simp_all
  from this(1) arg_cong [OF this(2), of size] n show ?thesis
    by (auto simp: all_due_def ex_region_def ex_slice ex_casts_def)
qed

text \<open>C7: Casting comes to rest. From every configuration the sender and the network can reach, any
  run of deliveries is finite, at most one per message in flight and rank of the domain, and the
  network can always go on to deliver until no message is in flight.\<close>

theorem cast_settles:
  assumes "0 < max_locked" "domain_hyps R M k" "initial d k n0" "length members = num_ranks (reg_slice R)"
    "\<forall>r \<in> set (ranks (reg_slice R)). map_of members r = Some (M r)" "headers_ok h"
    "reaches rt max_locked d members R p h k n0 cs n" "well_used rt cs"
  shows "(\<forall>j n'. (step rt ^^ j) n n' \<longrightarrow> j \<le> length (n_flight n) * num_ranks (reg_slice R)) \<and>
    (\<exists>n'. (step rt)\<^sup>*\<^sup>* n n' \<and> n_flight n' = [])"
proof -
  have inv: "domain_hyps R M k \<and> sys_inv rt R M p d k (n_cx n0 k) cs n" using assms(2) life_inv [OF assms] by blast
  have "work R M p n \<le> length (n_flight n) * num_ranks (reg_slice R)"
    using work_bound [OF conjunct1 [OF inv] conjunct2 [OF inv]] by (simp add: num_ranks_def)
  then show ?thesis using cast_net.run_bound [OF inv] cast_net.settles [OF inv] by (meson le_trans)
qed

theorem cast_settles_witness:
  "\<exists>n n'. reaches ex_runtime 1 (Instance 3 None) ex_list ex_region Bisection Map.empty
      (actor_addr_key (ex_member 9)) ex_net [] n \<and> (step ex_runtime)\<^sup>*\<^sup>* n n' \<and> n_flight n' = []"
proof -
  obtain n where n: "reaches ex_runtime 1 (Instance 3 None) ex_list ex_region Bisection Map.empty
      (actor_addr_key (ex_member 9)) ex_net [] n" using ex_reaches by blast
  from cast_settles [OF _ ex_hyps ex_initial ex_members headers_ok_empty n ex_well_used] n show ?thesis by auto
qed

text \<open>C9: The life of routing state. Creating, using and destroying a domain changes routing state of
  this domain only, and only on the cast actors of its own tiles; at rest each of these holds
  exactly the hop its tile determines while the domain lives, and nothing once the domain has
  been destroyed.\<close>

theorem cast_routing_state:
  assumes "0 < max_locked" "domain_hyps R M k" "initial d k n0" "length members = num_ranks (reg_slice R)"
    "\<forall>r \<in> set (ranks (reg_slice R)). map_of members r = Some (M r)" "headers_ok h"
    "reaches rt max_locked d members R p h k n0 cs n" "well_used rt cs"
  shows "(\<forall>a x. n_hops n a x \<noteq> n_hops n0 a x \<longrightarrow> x = uid_key d \<and> (\<exists>u t. edge R p u t \<and> a = node_key M t)) \<and>
    (n_flight n = [] \<longrightarrow> (\<forall>u t. edge R p u t \<longrightarrow>
      n_hops n (node_key M t) (uid_key d) = (if Destroy_Command \<in> set cs then None else Some (hop_of R M p t))))"
proof (intro conjI allI impI)
  show "x = uid_key d" "\<exists>u t. edge R p u t \<and> a = node_key M t" if "n_hops n a x \<noteq> n_hops n0 a x" for a x
    using life_hops [OF assms that] by simp_all
  fix u t
  assume quiet: "n_flight n = []" and e: "edge R p u t"
  have dom: "domain_ok R M" using assms(2) by (simp add: domain_hyps_def)
  obtain ph where "net_inv rt k R M p \<lparr>dc_domain = d, dc_origin = cx_actor (n_cx n0 k)\<rparr> ph n"
    "ph (root_tile R) = (if Destroy_Command \<in> set cs then Done else Live)"
    using life_inv [OF assms] by (auto simp: sys_inv_def)
  from quiet_hops [OF dom this(1) quiet this(2) _ e]
  show "n_hops n (node_key M t) (uid_key d) = (if Destroy_Command \<in> set cs then None else Some (hop_of R M p t))"
    by (simp add: hop_in_def)
qed

definition ex_tile :: tile where
  "ex_tile = hd (inner_kids Bisection (root_tile ex_region))"

lemma ex_edge: "edge ex_region Bisection (root_tile ex_region) ex_tile"
proof -
  have "inner_kids Bisection (root_tile ex_region) \<noteq> []" by code_simp
  then show ?thesis by (simp add: edge_def ex_tile_def desc_refl)
qed

theorem cast_routing_state_witness:
  "\<exists>n. reaches ex_runtime 1 (Instance 3 None) ex_list ex_region Bisection Map.empty
      (actor_addr_key (ex_member 9)) ex_net ex_casts n \<and>
    n_hops n (node_key ex_member ex_tile) (Instance 3 None) = Some (hop_of ex_region ex_member Bisection ex_tile)"
proof -
  obtain n where n: "reaches ex_runtime 1 (Instance 3 None) ex_list ex_region Bisection Map.empty
      (actor_addr_key (ex_member 9)) ex_net ex_casts n" "n_flight n = []" using ex_rest by blast
  have "uid_key (Instance 3 None) = Instance 3 None" by (simp add: uid_key_def)
  with cast_routing_state [OF _ ex_hyps ex_initial ex_members headers_ok_empty n(1) ex_casts_used] n ex_edge
  have "n_hops n (node_key ex_member ex_tile) (Instance 3 None) = Some (hop_of ex_region ex_member Bisection ex_tile)"
    by (simp add: ex_casts_def)
  then show ?thesis using n(1) by blast
qed

end
