(* ===== verification/Cast_Order.thy ===== *)
theory Cast_Order
  imports Cast_Props Sequenced_Props
begin

text \<open>
  Casting meets the ordering of messages: what the handler ports of an actor do with an arriving
  message (\<open>hyperactor/src/proc.rs\<close>, the enqueue function of a handler port), and the order in
  which a member of a domain handles the casts of a sender.
\<close>

section \<open>The work queue of an actor\<close>

text \<open>The enqueue function of a handler port: \<open>None\<close> is its error, with the message refused.\<close>

definition enqueue :: "bool \<Rightarrow> 'l flattrs \<Rightarrow> 'm \<Rightarrow> ('l, 'm) Sequenced.envelope option" where
  "enqueue buffering headers msg =
     (case (if buffering then headers SEQ_INFO else Some (SeqInfoV Direct)) of
        Some (SeqInfoV i) \<Rightarrow>
          if is_valid i
          then Some (Sequenced.envelope.make i (case headers SENDER_ACTOR_ID of Some (ActorAddrV a) \<Rightarrow> Some a | _ \<Rightarrow> None) msg)
          else None
      | _ \<Rightarrow> None)"

text \<open>The items of a list of arriving envelopes, as far as they are accepted.\<close>

definition work_queue :: "('l, 'w) Mailbox_Context.envelope list
    \<Rightarrow> ('l, ('l, 'w) Mailbox_Context.envelope) Sequenced.envelope list" where
  "work_queue es = List.map_filter (\<lambda>e. enqueue True (env_headers e) e) es"

definition seq_info_of :: "('l, 'w) Mailbox_Context.envelope \<Rightarrow> seq_info" where
  "seq_info_of e = (case env_headers e SEQ_INFO of Some (SeqInfoV i) \<Rightarrow> i | _ \<Rightarrow> Direct)"

definition sent_in :: "uuid \<Rightarrow> ('l, 'w) Mailbox_Context.envelope \<Rightarrow> bool" where
  "sent_in sid e = (case seq_info_of e of Session s _ \<Rightarrow> s = sid | Direct \<Rightarrow> False)"

definition seq_number :: "('l, 'w) Mailbox_Context.envelope \<Rightarrow> nat" where
  "seq_number e = (case seq_info_of e of Session _ q \<Rightarrow> q | Direct \<Rightarrow> 0)"

lemma enqueue_item:
  assumes "enqueue True (env_headers e) e = Some x"
  shows "env_seq_info x = seq_info_of e \<and> env_message x = e \<and> is_valid (seq_info_of e)"
  using assms
  by (auto simp: enqueue_def seq_info_of_def Sequenced.envelope.defs split: option.splits attr_value.splits if_splits)

lemma enqueue_session:
  "sent_in sid e \<Longrightarrow> seq_number e \<noteq> 0 \<Longrightarrow> \<exists>x. enqueue True (env_headers e) e = Some x"
  by (auto simp: enqueue_def sent_in_def seq_number_def seq_info_of_def is_valid_def
      split: option.splits attr_value.splits seq_info.splits)

lemma work_queue_items: "x \<in> set (work_queue es) \<Longrightarrow> env_seq_info x = seq_info_of (env_message x) \<and> is_valid (env_seq_info x)"
proof -
  assume "x \<in> set (work_queue es)"
  then obtain e where "enqueue True (env_headers e) e = Some x" by (auto simp: work_queue_def map_filter_def)
  from enqueue_item [OF this] show ?thesis by simp
qed

lemma work_queue_history:
  "(\<forall>e \<in> set es. sent_in sid e \<longrightarrow> seq_number e \<noteq> 0) \<Longrightarrow>
    session_history sid (work_queue es) = map (\<lambda>e. (seq_number e, e)) (filter (sent_in sid) es)"
proof (induction es)
  case (Cons e es)
  have head: "session_history sid (case enqueue True (env_headers e) e of None \<Rightarrow> [] | Some x \<Rightarrow> [x]) =
      (if sent_in sid e then [(seq_number e, e)] else [])"
  proof (cases "enqueue True (env_headers e) e")
    case None
    then have "\<not> sent_in sid e" using enqueue_session [of sid e] Cons.prems by auto
    then show ?thesis using None by (simp add: session_history_def)
  next
    case (Some x)
    from enqueue_item [OF Some] Some show ?thesis
      by (simp add: session_history_def sent_in_def seq_number_def split: seq_info.splits)
  qed
  have "work_queue (e # es) = (case enqueue True (env_headers e) e of None \<Rightarrow> [] | Some x \<Rightarrow> [x]) @ work_queue es"
    by (simp add: work_queue_def map_filter_simps split: option.splits)
  then have "session_history sid (work_queue (e # es)) =
      (if sent_in sid e then [(seq_number e, e)] else []) @ session_history sid (work_queue es)"
    using head by (simp add: session_history_def)
  then show ?case using Cons by simp
qed (simp add: work_queue_def session_history_def map_filter_simps)

section \<open>What one session releases\<close>

lemma session_history_tag:
  assumes "\<forall>x \<in> set xs. env_seq_info x = tag (env_message x)" "(u, m) \<in> set (session_history s xs)"
  shows "tag m = Session s u"
  using assms by (induction xs) (auto simp: session_history_def split: seq_info.splits if_splits)

lemma releases_tag:
  assumes "\<forall>x \<in> set (seen @ [e]). env_seq_info x = tag (env_message x)" "m \<in> set (releases seen e)"
  shows "(case tag m of Session s _ \<Rightarrow> s = sid | Direct \<Rightarrow> False) = of_session sid e"
proof (cases "env_seq_info e")
  case Direct
  then show ?thesis using assms by (simp add: releases_def of_session_def)
next
  case (Session s q)
  let ?h = "session_history s (seen @ [e])"
  have h: "?h = session_history s seen @ [(q, env_message e)]" using Session by (simp add: session_history_def)
  obtain u where u: "m = the (map_of ?h u)" "next_expected (session_history s seen) \<le> u" "u < next_expected ?h"
    using assms(2) Session by (auto simp: releases_def Let_def h)
  then have "1 \<le> u" using next_expected_props(1) [of "session_history s seen"] by simp
  then have "u \<in> fst ` set ?h" using u(3) by (rule next_expected_props(3))
  then obtain m' where "map_of ?h u = Some m'" by (metis map_of_eq_None_iff not_None_eq)
  then have "(u, m) \<in> set ?h" using u(1) by (simp add: map_of_SomeD)
  then have "tag m = Session s u" by (rule session_history_tag [OF assms(1)])
  then show ?thesis using Session by (simp add: of_session_def)
qed

lemma release_trace_tag:
  assumes "\<forall>x \<in> set (seen @ es). env_seq_info x = tag (env_message x)"
  shows "filter (\<lambda>m. case tag m of Session s _ \<Rightarrow> s = sid | Direct \<Rightarrow> False) (concat (map snd (release_trace seen es))) =
    concat (map snd (filter (\<lambda>(e, _). of_session sid e) (release_trace seen es)))"
  using assms
proof (induction es arbitrary: seen)
  case (Cons e es)
  have "\<forall>x \<in> set (seen @ [e]). env_seq_info x = tag (env_message x)" using Cons.prems by simp
  from releases_tag [OF this, of _ sid]
  have "filter (\<lambda>m. case tag m of Session s _ \<Rightarrow> s = sid | Direct \<Rightarrow> False) (releases seen e) =
      (if of_session sid e then releases seen e else [])"
    by (simp add: filter_id_conv filter_empty_conv)
  then show ?case using Cons by simp
qed simp

lemma map_of_same_mset:
  assumes "mset xs = mset ys" "distinct (map fst ys)"
  shows "map_of xs = map_of ys"
proof -
  have "mset (map fst xs) = mset (map fst ys)" using assms(1) by (metis mset_map)
  then have "distinct (map fst xs)" using assms(2) by (metis mset_eq_imp_distinct_iff)
  moreover have "set xs = set ys" using assms(1) by (rule mset_eq_setD)
  ultimately show ?thesis using assms(2) by (simp add: map_of_inject_set)
qed

text \<open>A session of which the numbers from 1 on have all arrived, each once, in whatever order and
  among whatever other messages, is handled in the order of its numbers.\<close>

lemma receive_session:
  assumes "mset (map (\<lambda>e. (seq_number e, g e)) (filter (sent_in sid) es)) = mset (enumerate 1 vs)"
  shows "\<exists>out bound. map g (filter (sent_in sid) out) = vs \<and>
    (\<forall>fuel > bound. \<exists>rcv. recv_all fuel (receiver_new (work_queue es) True) = Some (out, rcv) \<and> rx rcv = [])"
proof -
  let ?q = "work_queue es" and ?r = "receiver_new (work_queue es) True"
  let ?out = "concat (map snd (release_trace [] ?q))" and ?h = "session_history sid ?q"
  have keys: "mset (map seq_number (filter (sent_in sid) es)) = mset [1..<1 + length vs]"
    using arg_cong [OF assms, of "image_mset fst"] by (simp add: comp_def flip: mset_map del: upt_Suc)
  then have kset: "set (map seq_number (filter (sent_in sid) es)) = {1..<1 + length vs}"
    by (metis mset_eq_setD set_upt)
  then have h: "?h = map (\<lambda>e. (seq_number e, e)) (filter (sent_in sid) es)"
    by (intro work_queue_history) force
  have kh: "fst ` set ?h = {1..<1 + length vs}" unfolding kset [symmetric] h by (simp add: image_image)
  then have "next_expected ?h = 1 + length vs" by (intro next_expected_unique) auto
  then have out: "filter (sent_in sid) ?out = map (\<lambda>u. the (map_of ?h u)) [1..<1 + length vs]"
    using release_trace_tag [of "[]" ?q seq_info_of sid] session_releases [of sid "[]" ?q] work_queue_items [of _ es]
    by (simp add: sent_in_def [abs_def] session_history_def [of _ "[]"] del: upt_Suc)
  have "map g (filter (sent_in sid) ?out) = map (\<lambda>u. the (map_of (map (\<lambda>(q, e). (q, g e)) ?h) u)) [1..<1 + length vs]"
    unfolding out map_map
  proof (rule map_cong [OF refl])
    fix u
    assume "u \<in> set [1..<1 + length vs]"
    then have "u \<in> fst ` set ?h" unfolding kh by (simp del: upt_Suc)
    then obtain e where "map_of ?h u = Some e" by (metis map_of_eq_None_iff not_None_eq)
    then show "(g \<circ> (\<lambda>u. the (map_of ?h u))) u = the (map_of (map (\<lambda>(q, e). (q, g e)) ?h) u)"
      by (simp add: map_of_map)
  qed
  also have "map_of (map (\<lambda>(q, e). (q, g e)) ?h) = map_of (enumerate 1 vs)"
    using assms by (intro map_of_same_mset) (simp_all add: h comp_def)
  also have "map (\<lambda>u. the (map_of (enumerate 1 vs) u)) [1..<1 + length vs] = vs"
  proof (rule nth_equalityI)
    fix i
    assume "i < length (map (\<lambda>u. the (map_of (enumerate 1 vs) u)) [1..<1 + length vs])"
    then have i: "i < length vs" by (simp del: upt_Suc)
    have "map_of (zip [1..<1 + length vs] vs) ([1..<1 + length vs] ! i) = Some (vs ! i)"
      by (rule map_of_zip_nth) (use i in simp_all)
    then show "map (\<lambda>u. the (map_of (enumerate 1 vs) u)) [1..<1 + length vs] ! i = vs ! i"
      using i by (simp add: enumerate_eq_zip del: upt_Suc)
  qed (simp del: upt_Suc)
  finally have vs: "map g (filter (sent_in sid) ?out) = vs" .
  have "\<exists>rcv. recv_all fuel ?r = Some (?out, rcv) \<and> rx rcv = []" if "length ?out < fuel" for fuel
  proof -
    have r: "rx ?r = ?q" "ready ?r = []" by (simp_all add: receiver_new_def)
    then have up: "upcoming ?r [] = ?out" by (simp add: upcoming_def release_all_trace)
    show ?thesis using recv_all_ok [OF receiver_inv_new, of ?q fuel] work_queue_items that r(1) up by auto
  qed
  then show ?thesis using vs by blast
qed

section \<open>The casts of a sender at a member\<close>

text \<open>What a member is to handle of the casts of a sender, in order.\<close>

definition member_casts :: "('l, 'r, 'b, 'e) cast_runtime \<Rightarrow> region \<Rightarrow> (nat \<Rightarrow> 'l actor_addr) \<Rightarrow> 'l actor_addr \<Rightarrow> uuid
    \<Rightarrow> nat \<Rightarrow> ('l flattrs \<times> nat \<times> ('l, 'r, 'b) multipart) list \<Rightarrow> nat
    \<Rightarrow> ('l port_addr \<times> 'l flattrs \<times> ('b \<times> ('l, 'r, 'b) skel list) option) list" where
  "member_casts rt R M a sid base ms r = map (\<lambda>(j, m). cast_to_member rt R M a sid m (base + j) r) (enumerate 1 ms)"

lemma addr_actor_port [simp]: "addr_actor (port_addr_of a p) = a"
  by (simp add: addr_actor_def port_addr_of_def)

text \<open>The destination and the number of an observed envelope.\<close>

definition observed_key :: "'l port_addr \<times> 'l flattrs \<times> 'x \<Rightarrow> 'l actor_addr" where
  "observed_key ob = actor_addr_key (addr_actor (fst ob))"

definition observed_info :: "'l port_addr \<times> 'l flattrs \<times> 'x \<Rightarrow> seq_info" where
  "observed_info ob = (case fst (snd ob) SEQ_INFO of Some (SeqInfoV i) \<Rightarrow> i | _ \<Rightarrow> Direct)"

lemma observed [simp]: "observed_key (observe e) = dest_key e" "observed_info (observe e) = seq_info_of e"
  by (simp_all add: observed_key_def observed_info_def observe_def dest_key_def seq_info_of_def)

lemma observed_cast [simp]:
  "observed_key (cast_to_member rt R M a sid m q r) = actor_addr_key (M r)"
  "observed_info (cast_to_member rt R M a sid m q r) = Session sid q"
proof -
  obtain h port data where m: "m = (h, port, data)" by (cases m)
  show "observed_key (cast_to_member rt R M a sid m q r) = actor_addr_key (M r)"
    by (simp add: m cast_to_member_def Let_def observed_key_def)
  show "observed_info (cast_to_member rt R M a sid m q r) = Session sid q"
    by (simp add: m cast_to_member_def Let_def observed_info_def delivery_headers_def
        stamp_sender_actor_id_def stamp_sender_actor_id_hash_def)
qed

lemma filter_one: "distinct xs \<Longrightarrow> x \<in> set xs \<Longrightarrow> filter (\<lambda>y. y = x) xs = [x]"
  by (induction xs) (auto simp: filter_empty_conv)

lemma all_due_member:
  assumes "distinct (ranks (reg_slice R))" "r \<in> set (ranks (reg_slice R))"
    "inj_on (\<lambda>r. for_handler (M r)) (set (ranks (reg_slice R)))"
  shows "filter_mset (\<lambda>ob. observed_key ob = actor_addr_key (M r)) (all_due rt R M a sid base ms) =
    mset (member_casts rt R M a sid (base r) ms r)"
proof (induction ms rule: rev_induct)
  case (snoc m ms)
  have "filter (\<lambda>r'. actor_addr_key (M r') = actor_addr_key (M r)) (ranks (reg_slice R)) = [r]"
  proof -
    have "filter (\<lambda>r'. actor_addr_key (M r') = actor_addr_key (M r)) (ranks (reg_slice R)) =
        filter (\<lambda>r'. r' = r) (ranks (reg_slice R))"
      by (rule filter_cong [OF refl]) (use inj_onD [OF assms(3) _ _ assms(2)] in \<open>auto simp only: for_handler_def\<close>)
    then show ?thesis using filter_one [OF assms(1,2)] by simp
  qed
  then show ?case
    using snoc by (simp add: all_due_snoc member_casts_def enumerate_append_eq filter_mset_image_mset mset_filter [symmetric])
qed (simp add: all_due_def member_casts_def)

lemma numbered: "map seq_info_of old = map (Session sid) [1..<1 + base] \<Longrightarrow>
    map (\<lambda>e. (seq_number e, f e)) old = enumerate 1 (map f old)"
proof (rule nth_equalityI)
  assume old: "map seq_info_of old = map (Session sid) [1..<1 + base]"
  fix i
  assume "i < length (map (\<lambda>e. (seq_number e, f e)) old)"
  then have i: "i < length old" by simp
  moreover have "length old = base" using arg_cong [OF old, of length] by simp
  ultimately have "seq_info_of (old ! i) = Session sid (Suc i)"
    using arg_cong [OF old, of "\<lambda>xs. xs ! i"] by (simp del: upt_Suc)
  then show "map (\<lambda>e. (seq_number e, f e)) old ! i = enumerate 1 (map f old) ! i"
    using i by (simp add: seq_number_def nth_enumerate_eq)
qed simp

text \<open>C3: Casts are handled in order. At rest, whatever the order in which the messages of a sender
  reach a member of the domain (the casts over different paths of the tree, and what the sender
  sent to it before the domain was made), and whatever other senders send to it in between, the
  work queue of the member hands out the casts of this sender exactly in the order in which they
  were made, after all earlier messages, none lost and none twice.\<close>

theorem casts_in_order:
  assumes "0 < max_locked" "domain_hyps R M k" "initial d k n0" "length members = num_ranks (reg_slice R)"
    "\<forall>r \<in> set (ranks (reg_slice R)). map_of members r = Some (M r)" "headers_ok h"
    "reaches rt max_locked d members R p h k n0 cs n" "well_used rt cs" "n_flight n = []"
    "r \<in> set (ranks (reg_slice R))"
    "map seq_info_of old = map (Session (session_id (cx_sequencer (n_cx n0 k)))) [1..<1 + last_seq (n_cx n0 k) (M r)]"
    "mset (filter (sent_in (session_id (cx_sequencer (n_cx n0 k)))) arrivals) =
      mset old + filter_mset (\<lambda>e. dest_key e = actor_addr_key (M r)) (mset (n_log n))"
  shows "\<exists>out bound. map observe (filter (sent_in (session_id (cx_sequencer (n_cx n0 k)))) out) =
      map observe old @ member_casts rt R M (cx_actor (n_cx n0 k)) (session_id (cx_sequencer (n_cx n0 k)))
        (last_seq (n_cx n0 k) (M r)) (casts_of cs) r \<and>
    (\<forall>fuel > bound. \<exists>rcv. recv_all fuel (receiver_new (work_queue arrivals) True) = Some (out, rcv) \<and> rx rcv = [])"
proof (rule receive_session)
  let ?sid = "session_id (cx_sequencer (n_cx n0 k))" and ?b = "last_seq (n_cx n0 k) (M r)"
  let ?num = "\<lambda>e. (seq_number e, observe e)" and ?key = "\<lambda>ob. observed_key ob = actor_addr_key (M r)"
  let ?mc = "member_casts rt R M (cx_actor (n_cx n0 k)) ?sid ?b (casts_of cs) r"
  let ?tag = "\<lambda>ob. (case observed_info ob of Session _ q \<Rightarrow> q | Direct \<Rightarrow> 0, ob)"
  have dom: "domain_ok R M" "inj_on (\<lambda>r. for_handler (M r)) (set (ranks (reg_slice R)))"
    using assms(2) by (simp_all add: domain_hyps_def)
  have dist: "distinct (ranks (reg_slice R))"
    using dom(1) by (simp add: domain_ok_def region_inv_def ranks_props(1))
  have len: "length old = ?b" using arg_cong [OF assms(11), of length] by simp
  have log: "image_mset observe (mset (n_log n)) =
      all_due rt R M (cx_actor (n_cx n0 k)) ?sid (\<lambda>r. last_seq (n_cx n0 k) (M r)) (casts_of cs)"
    using sys_inv_log(4) [OF life_inv [OF assms(1-8)] assms(9)] .
  have "image_mset ?num (filter_mset (\<lambda>e. dest_key e = actor_addr_key (M r)) (mset (n_log n))) =
      image_mset ?tag (filter_mset ?key (image_mset observe (mset (n_log n))))"
    by (simp add: filter_mset_image_mset seq_number_def multiset.map_comp comp_def del: actor_addr_key_eq_iff)
  also have "\<dots> = mset (map ?tag ?mc)"
    unfolding log all_due_member [OF dist assms(10) dom(2)] by simp
  also have "map ?tag ?mc = enumerate (1 + ?b) ?mc"
    by (rule nth_equalityI) (simp_all add: member_casts_def nth_enumerate_eq)
  finally have "image_mset ?num (filter_mset (\<lambda>e. dest_key e = actor_addr_key (M r)) (mset (n_log n))) = mset (enumerate (1 + ?b) ?mc)" .
  moreover have "image_mset ?num (mset old) = mset (enumerate 1 (map observe old))"
    using arg_cong [OF numbered [OF assms(11), of observe], of mset] by (simp only: mset_map)
  ultimately show "mset (map ?num (filter (sent_in ?sid) arrivals)) = mset (enumerate 1 (map observe old @ ?mc))"
    by (simp only: mset_map assms(12) image_mset_union enumerate_append_eq mset_append length_map len)
qed

lemma log_session:
  assumes "sys_inv rt R M p d k cx0 cs n" "e \<in> set (n_log n)"
  shows "sent_in (session_id (cx_sequencer cx0)) e"
proof -
  have "observe e \<in># image_mset observe (mset (n_log n))" using assms(2) by simp
  then have "observe e \<in># all_due rt R M (cx_actor cx0) (session_id (cx_sequencer cx0)) (\<lambda>r. last_seq cx0 (M r)) (casts_of cs)"
    using sys_inv_log(3) [OF assms(1)] by (rule mset_subset_eqD [rotated])
  then obtain m q r where "observe e = cast_to_member rt R M (cx_actor cx0) (session_id (cx_sequencer cx0)) m q r"
    by (auto simp: all_due_def split: prod.splits)
  then have "seq_info_of e = Session (session_id (cx_sequencer cx0)) q" using observed(2) [of e] by simp
  then show ?thesis by (simp add: sent_in_def)
qed

theorem casts_in_order_witness:
  "\<exists>n out fuel rcv. reaches ex_runtime 1 (Instance 3 None) ex_list ex_region Bisection Map.empty
      (actor_addr_key (ex_member 9)) ex_net ex_casts n \<and> length (filter (sent_in 5) out) = 1 \<and>
    recv_all fuel (receiver_new (work_queue (filter (\<lambda>e. dest_key e = actor_addr_key (ex_member 0)) (n_log n))) True)
      = Some (out, rcv)"
proof -
  let ?k = "actor_addr_key (ex_member 9)" and ?q = "\<lambda>n. filter (\<lambda>e. dest_key e = actor_addr_key (ex_member 0)) (n_log n)"
  note hyps = ex_hyps ex_initial ex_members headers_ok_empty
  obtain n where n: "reaches ex_runtime 1 (Instance 3 None) ex_list ex_region Bisection Map.empty ?k ex_net ex_casts n"
    "n_flight n = []" using ex_rest by blast
  have cx: "session_id (cx_sequencer (n_cx ex_net ?k)) = 5" "last_seq (n_cx ex_net ?k) (ex_member 0) = 0"
    by (simp_all add: ex_net_def last_seq_def sequencer_new_def last_sent_to_actor_def)
  have "sys_inv ex_runtime ex_region ex_member Bisection (Instance 3 None) ?k (n_cx ex_net ?k) ex_casts n"
    by (rule life_inv [OF _ hyps n(1) ex_casts_used]) simp
  then have "\<forall>e \<in> set (n_log n). sent_in 5 e" using log_session cx(1) by metis
  then have arr: "mset (filter (sent_in 5) (?q n)) =
      mset [] + filter_mset (\<lambda>e. dest_key e = actor_addr_key (ex_member 0)) (mset (n_log n))"
    by (auto intro!: filter_mset_cong simp: filter_filter_mset)
  have "(0 :: nat) \<in> set (ranks (reg_slice ex_region))" by (simp add: ex_region_def ex_slice)
  from casts_in_order [OF _ hyps n(1) ex_casts_used n(2) this, unfolded cx, of "[]", OF _ _ arr]
  obtain out bound where out: "map observe (filter (sent_in 5) out) = member_casts ex_runtime ex_region ex_member
      (cx_actor (n_cx ex_net ?k)) 5 0 (casts_of ex_casts) 0"
    "\<forall>fuel > bound. \<exists>rcv. recv_all fuel (receiver_new (work_queue (?q n)) True) = Some (out, rcv) \<and> rx rcv = []" by auto
  from out(1) have "length (filter (sent_in 5) out) = 1"
    by (auto simp: member_casts_def ex_casts_def dest: arg_cong [of _ _ length])
  moreover obtain rcv where "recv_all (Suc bound) (receiver_new (work_queue (?q n)) True) = Some (out, rcv)"
    using out(2) lessI by blast
  ultimately show ?thesis using n(1) by blast
qed

end
