(* ===== verification/Framed.thy ===== *)
theory Framed
  imports Prelude "HOL-Library.Word"
begin

text \<open>
  Model of \<open>hyperactor/src/channel/net/framed.rs\<close>, of the link header in
  \<open>hyperactor/src/channel/net.rs\<close> and of the demultiplexer in \<open>channel/net/session.rs\<close>. A frame is
  a tag byte, a length in seven bytes, big end first, and a body. The reader and the writer of
  frames are state machines that keep what they have done so far when a read or a write returns
  less than was asked for, or when the future that drives them is dropped.

  The operating system is a schedule: for every read (or write) whether it fails, and how many
  bytes more than one it gives at most. An exhausted schedule is a future that is dropped.
\<close>

section \<open>Numbers in bytes\<close>

type_synonym byte = "8 word"

primrec to_be_bytes :: "nat \<Rightarrow> nat \<Rightarrow> byte list" where
  "to_be_bytes 0 n = []"
| "to_be_bytes (Suc k) n = word_of_nat (n div 256 ^ k) # to_be_bytes k n"

definition from_be_bytes :: "byte list \<Rightarrow> nat" where
  "from_be_bytes bs = foldl (\<lambda>n b. n * 256 + unat b) 0 bs"

lemma length_to_be_bytes [simp]: "length (to_be_bytes k n) = k"
  by (induction k) simp_all

lemma from_be_bytes_step:
  "foldl (\<lambda>n b. n * 256 + unat b) a (to_be_bytes k n) = a * 256 ^ k + n mod 256 ^ k"
proof (induction k arbitrary: a)
  case (Suc k)
  have "unat (word_of_nat (n div 256 ^ k) :: byte) = n div 256 ^ k mod 256" by (simp add: unat_of_nat)
  moreover have "n mod 256 ^ Suc k = 256 ^ k * (n div 256 ^ k mod 256) + n mod 256 ^ k"
    by (simp add: mod_mult2_eq mult.commute [of 256])
  ultimately show ?case by (simp only: to_be_bytes.simps foldl_Cons Suc.IH power_Suc) (simp add: algebra_simps)
qed simp

lemma from_to_be_bytes: "from_be_bytes (to_be_bytes k n) = n mod 256 ^ k"
  by (simp add: from_be_bytes_def from_be_bytes_step)

lemma from_be_bytes_zero [simp]: "from_be_bytes (0 # bs) = from_be_bytes bs"
  by (simp add: from_be_bytes_def)

section \<open>Reading\<close>

datatype readiness = Ready nat | Fails

datatype frame_reader_state = ReadLen "byte list" | ReadBody byte "byte list" nat

datatype read_outcome =
    GotFrame byte "byte list"
  | EndOfStream
  | UnexpectedEof
  | InvalidData
  | IoError
  | NotReady

definition reader_new :: frame_reader_state where
  "reader_new = ReadLen []"

text \<open>The number of bytes the reader asks for, if it has to read.\<close>

fun requested :: "frame_reader_state \<Rightarrow> nat" where
  "requested (ReadLen buf) = 8 - length buf"
| "requested (ReadBody tag buf len) = len - length buf"

text \<open>One call of \<open>next\<close>: the state, the bytes that have arrived, whether the peer has closed its
  side, and the schedule. It returns the outcome, the state and what is left of the bytes and of
  the schedule.\<close>

function frame_next :: "nat \<Rightarrow> frame_reader_state \<Rightarrow> byte list \<Rightarrow> bool \<Rightarrow> readiness list
    \<Rightarrow> read_outcome \<times> frame_reader_state \<times> byte list \<times> readiness list" where
  "frame_next max_len (ReadLen buf) bs eof sched =
     (if length buf < 8
      then (case sched of
              [] \<Rightarrow> (NotReady, ReadLen buf, bs, [])
            | Fails # rest \<Rightarrow> (IoError, ReadLen buf, bs, rest)
            | Ready n # rest \<Rightarrow>
                if bs = []
                then (if \<not> eof then NotReady else if buf = [] then EndOfStream else UnexpectedEof, ReadLen buf, bs, rest)
                else let k = min (8 - length buf) (Suc n)
                     in frame_next max_len (ReadLen (buf @ take k bs)) (drop k bs) eof rest)
      else let len = from_be_bytes (0 # tl buf)
           in if max_len < len then (InvalidData, ReadLen buf, bs, sched)
              else frame_next max_len (ReadBody (hd buf) [] len) bs eof sched)"
| "frame_next max_len (ReadBody tag buf len) bs eof sched =
     (if length buf < len
      then (case sched of
              [] \<Rightarrow> (NotReady, ReadBody tag buf len, bs, [])
            | Fails # rest \<Rightarrow> (IoError, ReadBody tag buf len, bs, rest)
            | Ready n # rest \<Rightarrow>
                if bs = []
                then (if \<not> eof then NotReady else UnexpectedEof, ReadBody tag buf len, bs, rest)
                else let k = min (len - length buf) (Suc n)
                     in frame_next max_len (ReadBody tag (buf @ take k bs) len) (drop k bs) eof rest)
      else (GotFrame tag buf, reader_new, bs, sched))"
  by pat_completeness auto

termination
  by (relation "measures [\<lambda>(max_len, st, bs, eof, sched). length sched,
        \<lambda>(max_len, st, bs, eof, sched). case st of ReadLen _ \<Rightarrow> 1 | ReadBody _ _ _ \<Rightarrow> 0]")
    auto

text \<open>The frames that calls of \<open>next\<close> give one after the other, and how that ends.\<close>

fun read_frames :: "nat \<Rightarrow> nat \<Rightarrow> frame_reader_state \<Rightarrow> byte list \<Rightarrow> bool \<Rightarrow> readiness list
    \<Rightarrow> (byte \<times> byte list) list \<times> read_outcome \<times> frame_reader_state \<times> byte list" where
  "read_frames 0 max_len st bs eof sched = ([], NotReady, st, bs)"
| "read_frames (Suc calls) max_len st bs eof sched =
     (case frame_next max_len st bs eof sched of
        (GotFrame tag body, st1, bs1, sched1) \<Rightarrow>
          (case read_frames calls max_len st1 bs1 eof sched1 of (fs, r) \<Rightarrow> ((tag, body) # fs, r))
      | (r, st1, bs1, sched1) \<Rightarrow> ([], r, st1, bs1))"

section \<open>Writing\<close>

record frame_write =
  fw_len_buf :: "byte list"
  fw_body :: "byte list"

text \<open>\<open>None\<close> is the error of a body that is too long.\<close>

definition frame_write_new :: "byte list \<Rightarrow> nat \<Rightarrow> byte \<Rightarrow> frame_write option" where
  "frame_write_new body max_len tag =
     (if max_len < length body \<or> 2 ^ 56 - 1 < length body then None
      else Some \<lparr>fw_len_buf = tag # tl (to_be_bytes 8 (length body)), fw_body = body\<rparr>)"

datatype write_outcome = Written | WriteError | WriteNotReady

text \<open>One call of \<open>send\<close>: the outcome, the bytes that went to the wire and the state. The last step
  flushes.\<close>

fun frame_write_send :: "readiness list \<Rightarrow> frame_write \<Rightarrow> write_outcome \<times> byte list \<times> frame_write" where
  "frame_write_send [] w = (WriteNotReady, [], w)"
| "frame_write_send (Fails # sched) w = (WriteError, [], w)"
| "frame_write_send (Ready n # sched) w =
     (if fw_len_buf w \<noteq> []
      then (case frame_write_send sched (w\<lparr>fw_len_buf := drop (Suc n) (fw_len_buf w)\<rparr>) of
              (r, out, w1) \<Rightarrow> (r, take (Suc n) (fw_len_buf w) @ out, w1))
      else if fw_body w \<noteq> []
      then (case frame_write_send sched (w\<lparr>fw_body := drop (Suc n) (fw_body w)\<rparr>) of
              (r, out, w1) \<Rightarrow> (r, take (Suc n) (fw_body w) @ out, w1))
      else (Written, [], w))"

section \<open>The wire format\<close>

definition encode_frame :: "byte \<times> byte list \<Rightarrow> byte list" where
  "encode_frame f = fst f # to_be_bytes 7 (length (snd f)) @ snd f"

definition frame_ok :: "nat \<Rightarrow> byte \<times> byte list \<Rightarrow> bool" where
  "frame_ok max_len f \<longleftrightarrow> length (snd f) \<le> max_len \<and> length (snd f) < 2 ^ 56"

lemma tl_to_be_bytes: "tl (to_be_bytes (Suc k) n) = to_be_bytes k n"
  by simp

lemma frame_write_new_ok:
  "frame_write_new body max_len tag =
     (if frame_ok max_len (tag, body) then Some \<lparr>fw_len_buf = tag # to_be_bytes 7 (length body), fw_body = body\<rparr> else None)"
  unfolding frame_write_new_def frame_ok_def using tl_to_be_bytes [of 7 "length body"] by auto

lemma frame_write_send_bytes:
  "frame_write_send sched w = (r, out, w1) \<Longrightarrow>
     out @ fw_len_buf w1 @ fw_body w1 = fw_len_buf w @ fw_body w \<and>
     (r = Written \<longrightarrow> fw_len_buf w1 = [] \<and> fw_body w1 = [])"
proof (induction sched w arbitrary: r out w1 rule: frame_write_send.induct)
  case (3 n sched w)
  consider "fw_len_buf w \<noteq> []" | "fw_len_buf w = []" "fw_body w \<noteq> []" | "fw_len_buf w = []" "fw_body w = []" by blast
  then show ?case
  proof cases
    case 1
    obtain r' out' w' where s: "frame_write_send sched (w\<lparr>fw_len_buf := drop (Suc n) (fw_len_buf w)\<rparr>) = (r', out', w')"
      by (metis prod_cases3)
    then have "r = r'" "w1 = w'" "out = take (Suc n) (fw_len_buf w) @ out'" using 3(3) 1 by simp_all
    with 3(1) [OF 1 s] show ?thesis by (simp add: append_take_drop_id flip: append_assoc) simp
  next
    case 2
    obtain r' out' w' where s: "frame_write_send sched (w\<lparr>fw_body := drop (Suc n) (fw_body w)\<rparr>) = (r', out', w')"
      by (metis prod_cases3)
    then have "r = r'" "w1 = w'" "out = take (Suc n) (fw_body w) @ out'" using 3(3) 2 by simp_all
    moreover have "\<not> fw_len_buf w \<noteq> []" using 2(1) by simp
    from 3(2) [OF this 2(2) s] have "out' @ fw_len_buf w' @ fw_body w' = drop (Suc n) (fw_body w)"
      "r' = Written \<longrightarrow> fw_len_buf w' = [] \<and> fw_body w' = []" using 2(1) by simp_all
    ultimately show ?thesis using 2(1) by (metis append_assoc append_take_drop_id self_append_conv2)
  next
    case 3
    then show ?thesis using 3 "3.prems" by simp
  qed
qed simp_all

lemma from_be_bytes_bound:
  "foldl (\<lambda>n b. n * 256 + unat b) a bs < (a + 1) * 256 ^ length (bs :: byte list)"
proof (induction bs arbitrary: a)
  case (Cons b bs)
  have "unat b < 256" using unsigned_less [of b, where ?'a = nat] by simp
  then have "a * 256 + unat b + 1 \<le> (a + 1) * 256" by simp
  from mult_right_mono [OF this, of "256 ^ length bs"]
  have "(a * 256 + unat b + 1) * 256 ^ length bs \<le> (a + 1) * 256 ^ length (b # bs)" by (simp only: mult.assoc length_Cons power_Suc)
  with Cons.IH [of "a * 256 + unat b"] show ?case by (simp only: foldl_Cons)
qed simp

lemma to_from_step:
  "to_be_bytes (length bs) (foldl (\<lambda>n b. n * 256 + unat b) a bs) = bs"
proof (induction bs arbitrary: a)
  case (Cons b bs)
  let ?n = "foldl (\<lambda>n b. n * 256 + unat b) (a * 256 + unat b) bs"
  have "?n = (a * 256 + unat b) * 256 ^ length bs + ?n mod 256 ^ length bs"
    using from_be_bytes_step [of "a * 256 + unat b" "length bs" ?n] unfolding Cons.IH [of "a * 256 + unat b"] .
  then have "?n div 256 ^ length bs = ((a * 256 + unat b) * 256 ^ length bs + ?n mod 256 ^ length bs) div 256 ^ length bs"
    by (rule arg_cong)
  also have "\<dots> = a * 256 + unat b" by simp
  finally have "?n div 256 ^ length bs = a * 256 + unat b" .
  moreover have "(word_of_nat (a * 256 + unat b) :: byte) = b"
  proof -
    have "(256 :: byte) = word_of_nat (2 ^ LENGTH(8))" by simp
    also have "\<dots> = 0" by (rule of_nat_2p)
    finally have "(256 :: byte) = 0" .
    then show ?thesis by (simp only: of_nat_add of_nat_mult of_nat_numeral mult_zero_right add_0 of_nat_unat ucast_id)
  qed
  ultimately show ?case using Cons.IH [of "a * 256 + unat b"] by simp
qed simp

lemma to_from_be_bytes: "to_be_bytes (length bs) (from_be_bytes bs) = bs" "from_be_bytes bs < 256 ^ length bs"
  using to_from_step [of bs 0] from_be_bytes_bound [of 0 bs] by (simp_all add: from_be_bytes_def)

section \<open>What a reader has taken from the wire\<close>

fun state_bytes :: "frame_reader_state \<Rightarrow> byte list" where
  "state_bytes (ReadLen buf) = buf"
| "state_bytes (ReadBody tag buf len) = tag # to_be_bytes 7 len @ buf"

fun state_ok :: "nat \<Rightarrow> frame_reader_state \<Rightarrow> bool" where
  "state_ok max_len (ReadLen buf) = (length buf \<le> 8)"
| "state_ok max_len (ReadBody tag buf len) = (length buf \<le> len \<and> len \<le> max_len \<and> len < 2 ^ 56)"

declare frame_next.simps [simp del]

lemma reader_new_ok [simp]: "state_ok max_len reader_new" "state_bytes reader_new = []"
  by (simp_all add: reader_new_def)

lemma header_bytes:
  assumes "length buf = 8"
  shows "hd buf # to_be_bytes 7 (from_be_bytes (tl buf)) = buf" "from_be_bytes (tl buf) < 2 ^ 56"
  using assms to_from_be_bytes [of "tl buf"] by (cases buf; simp)+

text \<open>No byte is lost or invented: what the reader held and what had arrived is the frame it
  returns, what it holds now and what is left.\<close>

definition outcome_bytes :: "read_outcome \<Rightarrow> byte list" where
  "outcome_bytes r = (case r of GotFrame tag body \<Rightarrow> encode_frame (tag, body) | _ \<Rightarrow> [])"

lemma frame_next_bytes:
  assumes "frame_next max_len st bs eof sched = (r, st', bs', sched')" "state_ok max_len st"
  shows "state_bytes st @ bs = outcome_bytes r @ state_bytes st' @ bs' \<and> state_ok max_len st' \<and>
    (\<forall>tag body. r = GotFrame tag body \<longrightarrow> frame_ok max_len (tag, body) \<and> st' = reader_new) \<and>
    (r = EndOfStream \<longrightarrow> eof \<and> st' = reader_new \<and> bs' = []) \<and>
    (r = UnexpectedEof \<longrightarrow> eof \<and> state_bytes st' \<noteq> [] \<and> bs' = []) \<and>
    (r = InvalidData \<longrightarrow> length (state_bytes st') = 8 \<and> max_len < from_be_bytes (tl (state_bytes st')))"
  using assms
proof (induction max_len st bs eof sched arbitrary: r st' bs' sched' rule: frame_next.induct)
  case (1 max_len buf bs eof sched)
  note eq = "1.prems"(1) [unfolded frame_next.simps(1) [of max_len buf bs eof sched]]
  show ?case
  proof (cases "length buf < 8")
    case True
    note IH = "1.IH"(1) [OF True]
    consider "sched = []" | rest where "sched = Fails # rest" | n rest where "sched = Ready n # rest"
      by (metis neq_Nil_conv readiness.exhaust)
    then show ?thesis
    proof cases
      case (3 n rest)
      show ?thesis
      proof (cases "bs = []")
        case True
        then show ?thesis using eq 3 \<open>length buf < 8\<close> "1.prems"(2)
            by (auto simp: outcome_bytes_def reader_new_def split: if_splits)
      next
        case False
        let ?k = "min (8 - length buf) (Suc n)"
        have "frame_next max_len (ReadLen (buf @ take ?k bs)) (drop ?k bs) eof rest = (r, st', bs', sched')"
          using eq 3 True False by (simp add: Let_def)
        from IH [OF 3 refl False refl this] show ?thesis using True by simp
      qed
    qed (use eq True in \<open>auto simp: outcome_bytes_def\<close>)
  next
    case False
    then have 8: "length buf = 8" using "1.prems"(2) by simp
    show ?thesis
    proof (cases "max_len < from_be_bytes (0 # tl buf)")
      case True
      then show ?thesis using eq False 8 by (auto simp: outcome_bytes_def)
    next
      case len: False
      then have "frame_next max_len (ReadBody (hd buf) [] (from_be_bytes (0 # tl buf))) bs eof sched = (r, st', bs', sched')"
        using eq False by simp
      moreover have "state_ok max_len (ReadBody (hd buf) [] (from_be_bytes (0 # tl buf)))"
        using len header_bytes(2) [OF 8] by simp
      ultimately show ?thesis
        using "1.IH"(2) [OF False refl len] header_bytes(1) [OF 8] by simp
    qed
  qed
next
  case (2 max_len tag buf len bs eof sched)
  note eq = "2.prems"(1) [unfolded frame_next.simps(2) [of max_len tag buf len bs eof sched]]
  show ?case
  proof (cases "length buf < len")
    case True
    note IH = "2.IH" [OF True]
    consider "sched = []" | rest where "sched = Fails # rest" | n rest where "sched = Ready n # rest"
      by (metis neq_Nil_conv readiness.exhaust)
    then show ?thesis
    proof cases
      case (3 n rest)
      show ?thesis
      proof (cases "bs = []")
        case True
        then show ?thesis using eq 3 \<open>length buf < len\<close> "2.prems"(2)
            by (auto simp: outcome_bytes_def split: if_splits)
      next
        case False
        let ?k = "min (len - length buf) (Suc n)"
        have "frame_next max_len (ReadBody tag (buf @ take ?k bs) len) (drop ?k bs) eof rest = (r, st', bs', sched')"
          using eq 3 True False by (simp add: Let_def)
        from IH [OF 3 refl False refl this] show ?thesis using True "2.prems"(2) by simp
      qed
    qed (use eq True "2.prems"(2) in \<open>auto simp: outcome_bytes_def\<close>)
  next
    case False
    then show ?thesis using eq "2.prems"(2) by (auto simp: outcome_bytes_def encode_frame_def frame_ok_def)
  qed
qed

text \<open>A reader that has taken a part of a frame from the wire goes on to return this frame, as soon as
  it is asked often enough.\<close>

lemma encode_body:
  assumes "frame_ok max_len f" "len < 2 ^ 56" "tag # to_be_bytes 7 len @ buf @ bs = encode_frame f @ rest"
  shows "tag = fst f" "len = length (snd f)" "buf @ bs = snd f @ rest"
proof -
  have e: "tag = fst f" "to_be_bytes 7 len = to_be_bytes 7 (length (snd f))" "buf @ bs = snd f @ rest"
    using assms(3) by (simp_all add: encode_frame_def)
  then show "tag = fst f" "buf @ bs = snd f @ rest" by simp_all
  show "len = length (snd f)"
    using arg_cong [OF e(2), of from_be_bytes] assms(1,2) by (simp add: from_to_be_bytes frame_ok_def)
qed

lemma frame_next_decodes:
  assumes "state_ok max_len st" "frame_ok max_len f" "state_bytes st @ bs = encode_frame f @ rest"
    "Fails \<notin> set sched" "length bs \<le> length sched + length rest"
  shows "\<exists>sched'. frame_next max_len st bs eof sched = (GotFrame (fst f) (snd f), reader_new, rest, sched') \<and>
    set sched' \<subseteq> set sched \<and> length sched + length rest \<le> length sched' + length bs"
  using assms
proof (induction max_len st bs eof sched rule: frame_next.induct)
  case (1 max_len buf bs eof sched)
  note eq = frame_next.simps(1) [of max_len buf bs eof sched]
  have len: "length buf + length bs = 8 + length (snd f) + length rest"
    using arg_cong [OF "1.prems"(3), of length] by (simp add: encode_frame_def)
  show ?case
  proof (cases "length buf < 8")
    case True
    then have "length rest < length bs" using len by simp
    then obtain n sched1 where s: "sched = Ready n # sched1" using "1.prems"(4,5)
      by (cases sched; cases "hd sched") auto
    have bs: "bs \<noteq> []" using \<open>length rest < length bs\<close> by auto
    let ?k = "min (8 - length buf) (Suc n)"
    have "state_ok max_len (ReadLen (buf @ take ?k bs))" using True by auto
    moreover have "state_bytes (ReadLen (buf @ take ?k bs)) @ drop ?k bs = encode_frame f @ rest" using "1.prems"(3) by simp
    moreover have "length (drop ?k bs) \<le> length sched1 + length rest" using "1.prems"(5) s len True by simp
    ultimately obtain sched' where
      "frame_next max_len (ReadLen (buf @ take ?k bs)) (drop ?k bs) eof sched1 = (GotFrame (fst f) (snd f), reader_new, rest, sched')"
      "set sched' \<subseteq> set sched1" "length sched1 + length rest \<le> length sched' + length (drop ?k bs)"
      using "1.IH"(1) [OF True s refl bs refl _ "1.prems"(2)] "1.prems"(4) s by (metis list.set_intros(2))
    then show ?thesis using eq s bs True len by (auto simp: Let_def)
  next
    case False
    then have 8: "length buf = 8" using "1.prems"(1) by simp
    have hb: "hd buf # to_be_bytes 7 (from_be_bytes (tl buf)) = buf" "from_be_bytes (tl buf) < 2 ^ 56"
      using header_bytes [OF 8] by simp_all
    then have "hd buf # to_be_bytes 7 (from_be_bytes (tl buf)) @ [] @ bs = encode_frame f @ rest"
      using "1.prems"(3) by (metis append.left_neutral append_Cons state_bytes.simps(1))
    note body = encode_body [OF "1.prems"(2) hb(2) this]
    have ok: "\<not> max_len < from_be_bytes (0 # tl buf)" using body(2) "1.prems"(2) by (simp add: frame_ok_def)
    have "state_ok max_len (ReadBody (hd buf) [] (from_be_bytes (0 # tl buf)))" using ok hb(2) by simp
    moreover have "state_bytes (ReadBody (hd buf) [] (from_be_bytes (0 # tl buf))) @ bs = encode_frame f @ rest"
      using hb(1) "1.prems"(3) by (metis append.right_neutral append_Cons from_be_bytes_zero state_bytes.simps)
    ultimately show ?thesis using "1.IH"(2) [OF False refl ok] "1.prems"(2,4,5) eq False ok by simp
  qed
next
  case (2 max_len tag buf len bs eof sched)
  note eq = frame_next.simps(2) [of max_len tag buf len bs eof sched]
  have "tag # to_be_bytes 7 len @ buf @ bs = encode_frame f @ rest" "len < 2 ^ 56" using "2.prems"(1,3) by simp_all
  note body = encode_body [OF "2.prems"(2) this(2,1)]
  have len: "length buf + length bs = len + length rest" using arg_cong [OF body(3), of length] body(2) by simp
  show ?case
  proof (cases "length buf < len")
    case True
    then have "length rest < length bs" using len by simp
    then obtain n sched1 where s: "sched = Ready n # sched1" using "2.prems"(4,5)
      by (cases sched; cases "hd sched") auto
    have bs: "bs \<noteq> []" using \<open>length rest < length bs\<close> by auto
    let ?k = "min (len - length buf) (Suc n)"
    have "state_ok max_len (ReadBody tag (buf @ take ?k bs) len)" using "2.prems"(1) True by auto
    moreover have "state_bytes (ReadBody tag (buf @ take ?k bs) len) @ drop ?k bs = encode_frame f @ rest" using "2.prems"(3) by simp
    moreover have "length (drop ?k bs) \<le> length sched1 + length rest" using "2.prems"(5) s len True by simp
    ultimately obtain sched' where
      "frame_next max_len (ReadBody tag (buf @ take ?k bs) len) (drop ?k bs) eof sched1 = (GotFrame (fst f) (snd f), reader_new, rest, sched')"
      "set sched' \<subseteq> set sched1" "length sched1 + length rest \<le> length sched' + length (drop ?k bs)"
      using "2.IH" [OF True s refl bs refl _ "2.prems"(2)] "2.prems"(4) s by (metis list.set_intros(2))
    then show ?thesis using eq s bs True len by (auto simp: Let_def)
  next
    case False
    then have "buf = snd f" "bs = rest" using body len "2.prems"(1) by auto
    then show ?thesis using eq False body by simp
  qed
qed

lemma encode_frame_inject:
  assumes "frame_ok max_len f" "frame_ok max_len g" "encode_frame f @ x = encode_frame g @ y"
  shows "f = g" "x = y"
proof -
  have "fst f # to_be_bytes 7 (length (snd f)) @ (snd f) @ x = encode_frame g @ y" using assms(3) by (simp add: encode_frame_def)
  from encode_body [OF assms(2) _ this] assms(1)
  have "fst f = fst g" "length (snd f) = length (snd g)" "snd f @ x = snd g @ y" by (simp_all add: frame_ok_def)
  then show "f = g" "x = y" by (simp_all add: prod_eq_iff)
qed

lemma read_frames_all:
  assumes "\<forall>f \<in> set fs. frame_ok max_len f" "Fails \<notin> set sched" "length (concat (map encode_frame fs)) < length sched"
    "length fs < calls"
  shows "read_frames calls max_len reader_new (concat (map encode_frame fs)) True sched = (fs, EndOfStream, reader_new, [])"
  using assms
proof (induction fs arbitrary: calls sched)
  case Nil
  then obtain n sched1 where "sched = Ready n # sched1" by (cases sched; cases "hd sched") auto
  moreover obtain c where "calls = Suc c" using Nil by (cases calls) auto
  ultimately show ?case by (simp add: reader_new_def frame_next.simps(1) [of max_len "[]" "[]" True])
next
  case (Cons f fs)
  obtain c where c: "calls = Suc c" using Cons.prems(4) by (cases calls) auto
  let ?bs = "encode_frame f @ concat (map encode_frame fs)"
  obtain sched' where s: "frame_next max_len reader_new ?bs True sched =
      (GotFrame (fst f) (snd f), reader_new, concat (map encode_frame fs), sched')" "set sched' \<subseteq> set sched"
    "length sched + length (concat (map encode_frame fs)) \<le> length sched' + length ?bs"
    using frame_next_decodes [of max_len reader_new f ?bs "concat (map encode_frame fs)" sched True] Cons.prems by auto
  have "Fails \<notin> set sched'" "length (concat (map encode_frame fs)) < length sched'" "length fs < c"
    using Cons.prems s(2,3) c by auto
  then show ?case using Cons.IH [of sched' c] Cons.prems(1) s(1) by (simp add: c)
qed

section \<open>Frames over the wire\<close>

text \<open>Sending may be dropped and taken up again: one schedule for each call of \<open>send\<close>.\<close>

fun send_all :: "readiness list list \<Rightarrow> frame_write \<Rightarrow> (byte list \<times> bool)" where
  "send_all [] w = ([], False)"
| "send_all (sched # scheds) w =
     (case frame_write_send sched w of
        (Written, out, w1) \<Rightarrow> (out, True)
      | (WriteError, out, w1) \<Rightarrow> (out, False)
      | (WriteNotReady, out, w1) \<Rightarrow> (case send_all scheds w1 of (out1, b) \<Rightarrow> (out @ out1, b)))"

lemma send_all_bytes: "send_all scheds w = (out, True) \<Longrightarrow> out = fw_len_buf w @ fw_body w"
proof (induction scheds arbitrary: w out)
  case (Cons sched scheds)
  obtain r out1 w1 where s: "frame_write_send sched w = (r, out1, w1)" by (metis prod_cases3)
  note b = frame_write_send_bytes [OF s]
  show ?case
  proof (cases r)
    case Written
    then show ?thesis using Cons.prems s b by auto
  next
    case WriteNotReady
    obtain out2 b2 where "send_all scheds w1 = (out2, b2)" by fastforce
    then show ?thesis using Cons.IH [of w1 out2] Cons.prems s b WriteNotReady by simp
  qed (use Cons.prems s in simp)
qed simp

text \<open>Calls of \<open>next\<close> that may be dropped, with the bytes that arrive before each of them.\<close>

fun poll_frames :: "nat \<Rightarrow> frame_reader_state \<Rightarrow> byte list \<Rightarrow> bool \<Rightarrow> (byte list \<times> readiness list) list
    \<Rightarrow> (byte \<times> byte list) list \<times> frame_reader_state \<times> byte list" where
  "poll_frames max_len st bs eof [] = ([], st, bs)"
| "poll_frames max_len st bs eof ((new, sched) # calls) =
     (case frame_next max_len st (bs @ new) eof sched of
        (r, st1, bs1, _) \<Rightarrow>
          (case poll_frames max_len st1 bs1 eof calls of
             (fs, r1) \<Rightarrow> ((case r of GotFrame tag body \<Rightarrow> [(tag, body)] | _ \<Rightarrow> []) @ fs, r1)))"

lemma poll_frames_bytes:
  "poll_frames max_len st bs eof calls = (got, st', bs') \<Longrightarrow> state_ok max_len st \<Longrightarrow>
    state_bytes st @ bs @ concat (map fst calls) = concat (map encode_frame got) @ state_bytes st' @ bs' \<and>
    (\<forall>f \<in> set got. frame_ok max_len f)"
proof (induction max_len st bs eof calls arbitrary: got rule: poll_frames.induct)
  case (2 max_len st bs eof new sched calls)
  obtain r st1 bs1 sched1 where n: "frame_next max_len st (bs @ new) eof sched = (r, st1, bs1, sched1)" by (metis prod_cases4)
  obtain fs where p: "poll_frames max_len st1 bs1 eof calls = (fs, st', bs')"
    and got: "got = (case r of GotFrame tag body \<Rightarrow> [(tag, body)] | _ \<Rightarrow> []) @ fs"
    using "2.prems"(1) n by (auto split: prod.splits)
  note b = frame_next_bytes [OF n "2.prems"(2)]
  from "2.IH" [OF n [symmetric] refl refl p] b
  have "state_bytes st1 @ bs1 @ concat (map fst calls) = concat (map encode_frame fs) @ state_bytes st' @ bs'"
    "\<forall>f \<in> set fs. frame_ok max_len f" by auto
  moreover have "state_bytes st @ bs @ new = outcome_bytes r @ state_bytes st1 @ bs1" using b by simp
  then have "state_bytes st @ bs @ concat (map fst ((new, sched) # calls)) =
      outcome_bytes r @ state_bytes st1 @ bs1 @ concat (map fst calls)" by (metis append_assoc concat.simps(2) fst_conv list.simps(9))
  ultimately show ?case using b by (cases r) (auto simp: got outcome_bytes_def)
qed simp

lemma frames_prefix:
  assumes "\<forall>f \<in> set fs. frame_ok max_len f" "\<forall>f \<in> set got. frame_ok max_len f"
    "concat (map encode_frame fs) = concat (map encode_frame got) @ tail"
  shows "\<exists>rest. fs = got @ rest \<and> tail = concat (map encode_frame rest)"
  using assms
proof (induction got arbitrary: fs)
  case (Cons g got)
  have "encode_frame g \<noteq> []" by (simp add: encode_frame_def)
  then obtain f fs' where fs: "fs = f # fs'" using Cons.prems(3) by (cases fs) auto
  from Cons.prems fs have "encode_frame f @ concat (map encode_frame fs') = encode_frame g @ concat (map encode_frame got) @ tail"
    by simp
  from encode_frame_inject [OF _ _ this, of max_len] Cons.prems(1,2) fs
  have "f = g" "concat (map encode_frame fs') = concat (map encode_frame got) @ tail" by simp_all
  with Cons.IH [of fs'] Cons.prems(1,2) fs show ?case by simp
qed simp

section \<open>The header of a link\<close>

datatype protocol_kind = Simplex | Duplex

record link_init =
  li_session_id :: nat
  li_stream_id :: byte
  li_kind :: protocol_kind

definition SIMPLEX_MAGIC :: "byte list" where
  "SIMPLEX_MAGIC = [0x53, 0x4D, 0x50, 0]"

definition DUPLEX_MAGIC :: "byte list" where
  "DUPLEX_MAGIC = [0x44, 0x50, 0x58, 0]"

definition LINK_INIT_SIZE :: nat where
  "LINK_INIT_SIZE = 4 + 8 + 1"

definition write_link_init :: "link_init \<Rightarrow> byte list" where
  "write_link_init l =
     (case li_kind l of Simplex \<Rightarrow> SIMPLEX_MAGIC | Duplex \<Rightarrow> DUPLEX_MAGIC) @ to_be_bytes 8 (li_session_id l) @ [li_stream_id l]"

datatype link_error = LinkEof | LinkInvalidData

text \<open>\<open>read_exact\<close> fails when the stream ends within the header.\<close>

definition read_link_init :: "byte list \<Rightarrow> link_error + link_init \<times> byte list" where
  "read_link_init bs =
     (if length bs < LINK_INIT_SIZE then Inl LinkEof
      else let buf = take LINK_INIT_SIZE bs;
               make = (\<lambda>k. Inr (\<lparr>li_session_id = from_be_bytes (take 8 (drop 4 buf)), li_stream_id = buf ! 12, li_kind = k\<rparr>,
                                drop LINK_INIT_SIZE bs))
           in if take 4 buf = SIMPLEX_MAGIC then make Simplex
              else if take 4 buf = DUPLEX_MAGIC then make Duplex
              else Inl LinkInvalidData)"

text \<open>\<open>prepare_accepted_stream\<close> after the handshake of the transport.\<close>

datatype prepare_error = LinkInitFailed link_error | KindMismatch

definition prepare_accepted_stream :: "protocol_kind option \<Rightarrow> byte list \<Rightarrow> prepare_error + link_init \<times> byte list" where
  "prepare_accepted_stream expected_kind bs =
     (case read_link_init bs of
        Inl e \<Rightarrow> Inl (LinkInitFailed e)
      | Inr (l, rest) \<Rightarrow>
          (case expected_kind of
             Some k \<Rightarrow> if li_kind l \<noteq> k then Inl KindMismatch else Inr (l, rest)
           | None \<Rightarrow> Inr (l, rest)))"

section \<open>Demultiplexing\<close>

record demux_state =
  dx_frames :: "(byte \<times> byte list) list"
  dx_buffered :: "(byte \<times> byte list) option"
  dx_eof :: bool

datatype demux_result = DemuxFrame "byte list" | DemuxEof | DemuxWait

text \<open>One critical section of \<open>next_tagged\<close>: the lock is held over it, and after \<open>DemuxWait\<close> the
  caller waits to be notified. The frames are those the frame reader still has to give before the
  end of the stream.\<close>

definition next_tagged :: "byte \<Rightarrow> demux_state \<Rightarrow> demux_result \<times> demux_state" where
  "next_tagged tag d =
     (if dx_eof d then (DemuxEof, d)
      else case dx_buffered d of
        Some (t, bytes) \<Rightarrow> if t = tag then (DemuxFrame bytes, d\<lparr>dx_buffered := None\<rparr>) else (DemuxWait, d)
      | None \<Rightarrow>
          (case dx_frames d of
             (t, bytes) # fs \<Rightarrow>
               if t = tag then (DemuxFrame bytes, d\<lparr>dx_frames := fs\<rparr>)
               else (DemuxWait, d\<lparr>dx_frames := fs, dx_buffered := Some (t, bytes)\<rparr>)
           | [] \<Rightarrow> (DemuxEof, d\<lparr>dx_eof := True\<rparr>)))"

fun demux_run :: "byte list \<Rightarrow> demux_state \<Rightarrow> (byte \<times> byte list) list \<times> demux_state" where
  "demux_run [] d = ([], d)"
| "demux_run (tag # tags) d =
     (case next_tagged tag d of
        (r, d1) \<Rightarrow>
          (case demux_run tags d1 of
             (out, d2) \<Rightarrow> ((case r of DemuxFrame bytes \<Rightarrow> [(tag, bytes)] | _ \<Rightarrow> []) @ out, d2)))"

definition demux_left :: "demux_state \<Rightarrow> (byte \<times> byte list) list" where
  "demux_left d = (case dx_buffered d of None \<Rightarrow> [] | Some f \<Rightarrow> [f]) @ dx_frames d"

definition demux_ok :: "demux_state \<Rightarrow> bool" where
  "demux_ok d \<longleftrightarrow> (dx_eof d \<longrightarrow> demux_left d = [])"

lemma next_tagged_left:
  assumes "next_tagged tag d = (r, d1)" "demux_ok d"
  shows "demux_left d = (case r of DemuxFrame bytes \<Rightarrow> [(tag, bytes)] | _ \<Rightarrow> []) @ demux_left d1" "demux_ok d1"
    "r = DemuxEof \<Longrightarrow> demux_left d1 = []"
  using assms by (auto simp: next_tagged_def demux_left_def demux_ok_def split: if_splits option.splits list.splits)

lemma demux_run_left:
  "demux_run tags d = (out, d1) \<Longrightarrow> demux_ok d \<Longrightarrow> demux_left d = out @ demux_left d1 \<and> demux_ok d1"
proof (induction tags arbitrary: d out)
  case (Cons tag tags)
  obtain r d2 where n: "next_tagged tag d = (r, d2)" by fastforce
  obtain out2 where "demux_run tags d2 = (out2, d1)" "out = (case r of DemuxFrame bytes \<Rightarrow> [(tag, bytes)] | _ \<Rightarrow> []) @ out2"
    using Cons.prems(1) n by (auto split: prod.splits)
  then show ?case using Cons.IH [of d2 out2] next_tagged_left [OF n Cons.prems(2)] by simp
qed simp

section \<open>Properties\<close>

text \<open>The bytes that writing a frame puts on the wire, if it is written to the end.\<close>

definition writes_frame :: "nat \<Rightarrow> byte \<times> byte list \<Rightarrow> byte list \<Rightarrow> bool" where
  "writes_frame max_len f out \<longleftrightarrow>
     (\<exists>w scheds. frame_write_new (snd f) max_len (fst f) = Some w \<and> send_all scheds w = (out, True))"

lemma writes_frame_bytes: "writes_frame max_len f out \<Longrightarrow> frame_ok max_len f \<and> out = encode_frame f"
  by (auto simp: writes_frame_def frame_write_new_ok encode_frame_def dest!: send_all_bytes split: if_splits)

lemma written_frames:
  "list_all2 (writes_frame max_len) fs outs \<Longrightarrow>
    (\<forall>f \<in> set fs. frame_ok max_len f) \<and> concat outs = concat (map encode_frame fs)"
  by (induction rule: list_all2_induct) (auto dest: writes_frame_bytes)

lemma to_be_bytes_small: "n < 256 \<Longrightarrow> to_be_bytes (Suc k) n = replicate k 0 @ [word_of_nat n]"
proof (induction k)
  case (Suc k)
  have "n < 256 ^ Suc k" using Suc.prems by (rule less_le_trans) (simp add: self_le_power)
  then show ?case using Suc by simp
qed simp

lemma writes_frame_example:
  "writes_frame 100 (7, [1, 2, 3]) [7, 0, 0, 0, 0, 0, 0, 3, 1, 2, 3]"
proof -
  have "frame_write_new [1, 2, 3] 100 7 = Some \<lparr>fw_len_buf = [7, 0, 0, 0, 0, 0, 0, 3], fw_body = [1, 2, 3]\<rparr>"
  proof -
    have "to_be_bytes 7 3 = to_be_bytes (Suc 6) 3" by (rule arg_cong2 [where f = to_be_bytes]) simp_all
    also have "\<dots> = replicate 6 0 @ [word_of_nat 3]" by (rule to_be_bytes_small) simp
    also have "\<dots> = [0, 0, 0, 0, 0, 0, 3]" by code_simp
    finally have "to_be_bytes 7 3 = [0, 0, 0, 0, 0, 0, 3]" .
    then show ?thesis by (simp add: frame_write_new_ok frame_ok_def flip: numeral_3_eq_3)
  qed
  moreover have "send_all [[Ready 1, Ready 9], [Ready 0, Ready 4, Ready 0]]
      \<lparr>fw_len_buf = [7, 0, 0, 0, 0, 0, 0, 3], fw_body = [1, 2, 3]\<rparr> = ([7, 0, 0, 0, 0, 0, 0, 3, 1, 2, 3], True)"
    by simp
  ultimately show ?thesis unfolding writes_frame_def fst_conv snd_conv by blast
qed

text \<open>C13: Frames survive the wire. Frames that were written to the end, however the writes were split
  up or dropped and taken up again, are read back exactly, in order, followed by the end of the
  stream, however many bytes each read returns.\<close>

theorem framed_roundtrip:
  assumes "list_all2 (writes_frame max_len) fs outs" "Fails \<notin> set sched" "length (concat outs) < length sched"
    "length fs < calls"
  shows "read_frames calls max_len reader_new (concat outs) True sched = (fs, EndOfStream, reader_new, [])"
  using written_frames [OF assms(1)] read_frames_all assms(2-4) by simp

theorem framed_roundtrip_witness:
  "read_frames 2 100 reader_new [7, 0, 0, 0, 0, 0, 0, 3, 1, 2, 3] True (replicate 12 (Ready 1)) =
    ([(7, [1, 2, 3])], EndOfStream, reader_new, [])"
  using framed_roundtrip [of 100 "[(7, [1, 2, 3])]" "[[7, 0, 0, 0, 0, 0, 0, 3, 1, 2, 3]]" "replicate 12 (Ready 1)" 2]
    writes_frame_example by simp

text \<open>C14: Cancellation safety of framing. Whatever part of the stream has arrived before each call, and
  wherever the calls of \<open>next\<close> are dropped or fail, the frames returned so far are the first ones
  that were written, and what the reader holds together with what it has not read are exactly the
  bytes of the others.\<close>

theorem frames_intact:
  assumes "list_all2 (writes_frame max_len) fs outs" "concat (map fst calls) @ later = concat outs"
    "poll_frames max_len reader_new [] eof calls = (got, st, bs)"
  shows "\<exists>rest. fs = got @ rest \<and> state_bytes st @ bs @ later = concat (map encode_frame rest)"
proof -
  have w: "\<forall>f \<in> set fs. frame_ok max_len f" "concat outs = concat (map encode_frame fs)"
    using written_frames [OF assms(1)] by simp_all
  have p: "concat (map fst calls) = concat (map encode_frame got) @ state_bytes st @ bs" "\<forall>f \<in> set got. frame_ok max_len f"
    using poll_frames_bytes [OF assms(3)] by simp_all
  have "concat (map encode_frame fs) = concat (map encode_frame got) @ state_bytes st @ bs @ later"
    using assms(2) w(2) p(1) by simp
  from frames_prefix [OF w(1) p(2) this] show ?thesis .
qed

theorem frames_intact_witness:
  "\<exists>rest. [(7, [1, 2, 3])] = fst (poll_frames 100 reader_new [] False [([7, 0, 0], [Ready 9]), ([0, 0, 0, 0, 3, 1], [Fails])]) @ rest"
proof -
  have l: "list_all2 (writes_frame 100) [(7, [1, 2, 3])] [[7, 0, 0, 0, 0, 0, 0, 3, 1, 2, 3]]"
    using writes_frame_example by simp
  obtain got st bs where g: "poll_frames 100 reader_new [] False [([7, 0, 0], [Ready 9]), ([0, 0, 0, 0, 3, 1], [Fails])] = (got, st, bs)"
    by (metis prod_cases3)
  from frames_intact [OF l _ g, of "[2, 3]"] show ?thesis unfolding g by auto
qed

text \<open>Link headers are read back exactly, every header that is accepted was written in this format,
  and a server accepts a link exactly when it is of the kind it serves.\<close>

lemma magic_simps [simp]: "length SIMPLEX_MAGIC = 4" "length DUPLEX_MAGIC = 4" "SIMPLEX_MAGIC \<noteq> DUPLEX_MAGIC" "DUPLEX_MAGIC \<noteq> SIMPLEX_MAGIC"
  by (simp_all add: SIMPLEX_MAGIC_def DUPLEX_MAGIC_def)

lemma link_init_read: "li_session_id l < 2 ^ 64 \<Longrightarrow> read_link_init (write_link_init l @ rest) = Inr (l, rest)"
proof -
  assume "li_session_id l < 2 ^ 64"
  then have "li_session_id l mod 256 ^ 8 = li_session_id l" by simp
  then show ?thesis
    by (cases "li_kind l")
      (simp_all add: read_link_init_def write_link_init_def LINK_INIT_SIZE_def Let_def nth_append from_to_be_bytes)
qed

lemma link_init_written:
  assumes "read_link_init bs = Inr (l, rest)"
  shows "bs = write_link_init l @ rest \<and> li_session_id l < 2 ^ 64"
proof -
  let ?id = "take 8 (drop 4 bs)"
  have len: "13 \<le> length bs" using assms by (simp add: read_link_init_def LINK_INIT_SIZE_def split: if_splits)
  have l: "li_session_id l = from_be_bytes ?id" "li_stream_id l = bs ! 12" "rest = drop 13 bs"
    "take 4 bs = (case li_kind l of Simplex \<Rightarrow> SIMPLEX_MAGIC | Duplex \<Rightarrow> DUPLEX_MAGIC)"
    using assms by (auto simp: read_link_init_def LINK_INIT_SIZE_def Let_def drop_take split: if_splits)
  have "to_be_bytes 8 (from_be_bytes ?id) = ?id" "from_be_bytes ?id < 256 ^ 8"
  proof -
    have "length ?id = 8" using len by simp
    then show "to_be_bytes 8 (from_be_bytes ?id) = ?id" "from_be_bytes ?id < 256 ^ 8"
      using to_from_be_bytes [of ?id] by (simp_all only:)
  qed
  moreover have "bs = take 4 bs @ ?id @ [bs ! 12] @ drop 13 bs"
  proof -
    have "drop 12 bs = bs ! 12 # drop 13 bs" using len by (simp add: Cons_nth_drop_Suc [symmetric])
    moreover have "drop 4 bs = ?id @ drop 12 bs" using append_take_drop_id [of 8 "drop 4 bs"] by simp
    ultimately have "drop 4 bs = ?id @ [bs ! 12] @ drop 13 bs" by simp
    then show ?thesis by (metis append_take_drop_id)
  qed
  ultimately show ?thesis by (simp add: write_link_init_def l)
qed

lemma prepare_accepted:
  "li_session_id l < 2 ^ 64 \<Longrightarrow> prepare_accepted_stream kind (write_link_init l @ rest) =
      (if kind = None \<or> kind = Some (li_kind l) then Inr (l, rest) else Inl KindMismatch)"
  by (auto simp: prepare_accepted_stream_def link_init_read split: option.splits)



end
