(* ===== verification/Channel_Session.thy ===== *)
theory Channel_Session
  imports Framed
begin

text \<open>
  Model of the session layer of a network channel: the buffers and the protocol loops of
  \<open>hyperactor/src/channel/net/session.rs\<close>, the sending task (\<open>spawn_inner\<close> in
  \<open>channel/net.rs\<close>) and the receiving task (\<open>dispatch_stream\<close> in \<open>channel/net/server.rs\<close>). The
  sender numbers its messages, keeps them until they are acknowledged and sends them again over a
  new connection; the receiver delivers the next number, ignores smaller ones and refuses larger
  ones.

  An operation that may panic (a failing assertion) returns \<open>None\<close> then. The sink that learns what
  became of a message is a number; the outcomes an operation reports are a list. The codec is a
  parameter. Clocks are not modelled: a deadline may pass at any time. Sequence numbers are \<open>nat\<close>;
  a 64-bit counter from 0 does not overflow.
\<close>

section \<open>Data\<close>

record ('m, 'b) codec =
  cd_serialize :: "nat \<times> 'm \<Rightarrow> 'b option"
  cd_deserialize :: "'b \<Rightarrow> (nat \<times> 'm) option"
  cd_frame_len :: "'b \<Rightarrow> nat"

datatype close_reason =
    SequenceMismatch string
  | OversizedFrame nat nat
  | OtherReason

text \<open>A sink that is dropped without an outcome counts as accepted for a receipt.\<close>

datatype 'm completion = Accepted | Rejected 'm close_reason | Dropped

type_synonym 'm completions = "(nat \<times> 'm completion) list"

record 'b queued_message =
  q_seq :: nat
  q_message :: 'b
  q_sink :: nat

record 'b outbox =
  ox_next_seq :: nat
  ox_deque :: "'b queued_message list"

record 'b unacked =
  ua_deque :: "'b queued_message list"
  ua_largest_acked :: "nat option"

record 'b deliveries =
  dl_outbox :: "'b outbox"
  dl_unacked :: "'b unacked"

datatype net_rx_response = Ack nat | Reject string | ClosedRx

datatype send_loop_error =
    SendIo
  | AppClosed
  | RejectedTx string
  | ServerClosed
  | DeliveryTimeout
  | OversizedTx nat nat

datatype recv_loop_error = RecvIo | Cancelled | SequenceError string

record next_seqs =
  nx_seq :: nat
  nx_ack :: nat

section \<open>The buffers of the sender\<close>

definition outbox_new :: "'b outbox" where
  "outbox_new = \<lparr>ox_next_seq = 0, ox_deque = []\<rparr>"

definition unacked_new :: "'b unacked" where
  "unacked_new = \<lparr>ua_deque = [], ua_largest_acked = None\<rparr>"

text \<open>The result is the outcome of the serialization, with its outbox and its completions.\<close>

definition outbox_push_back :: "('m, 'b) codec \<Rightarrow> 'm \<times> nat \<Rightarrow> 'b outbox \<Rightarrow> (bool \<times> 'b outbox \<times> 'm completions) option" where
  "outbox_push_back cd item ob =
     (if ox_deque ob \<noteq> [] \<and> \<not> q_seq (last (ox_deque ob)) < ox_next_seq ob then None
      else case cd_serialize cd (ox_next_seq ob, fst item) of
        None \<Rightarrow> Some (False, ob, [(snd item, Accepted)])
      | Some message \<Rightarrow>
          Some (True, ob\<lparr>ox_deque := ox_deque ob @ [\<lparr>q_seq = ox_next_seq ob, q_message = message, q_sink = snd item\<rparr>],
                         ox_next_seq := ox_next_seq ob + 1\<rparr>, []))"

definition outbox_requeue_unacked :: "'b queued_message list \<Rightarrow> 'b outbox \<Rightarrow> 'b outbox option" where
  "outbox_requeue_unacked unacked ob =
     (if unacked \<noteq> [] \<and> ox_deque ob \<noteq> [] \<and> \<not> q_seq (last unacked) < q_seq (hd (ox_deque ob)) then None
      else Some (ob\<lparr>ox_deque := unacked @ ox_deque ob\<rparr>))"

definition unacked_push_back :: "'b queued_message \<Rightarrow> 'b unacked \<Rightarrow> ('b unacked \<times> 'm completions) option" where
  "unacked_push_back message u =
     (if ua_deque u \<noteq> [] \<and> \<not> q_seq (last (ua_deque u)) < q_seq message then None
      else case ua_largest_acked u of
        Some largest \<Rightarrow>
          if q_seq message \<le> largest then Some (u, [(q_sink message, Accepted)])
          else Some (u\<lparr>ua_deque := ua_deque u @ [message]\<rparr>, [])
      | None \<Rightarrow> Some (u\<lparr>ua_deque := ua_deque u @ [message]\<rparr>, []))"

fun prune_loop :: "nat \<Rightarrow> 'b queued_message list \<Rightarrow> 'b queued_message list \<times> 'm completions" where
  "prune_loop acked [] = ([], [])"
| "prune_loop acked (msg # deque) =
     (if q_seq msg \<le> acked
      then (case prune_loop acked deque of (rest, done) \<Rightarrow> (rest, (q_sink msg, Accepted) # done))
      else (msg # deque, []))"

definition unacked_prune :: "nat \<Rightarrow> 'b unacked \<Rightarrow> ('b unacked \<times> 'm completions) option" where
  "unacked_prune acked u =
     (if \<not> (case ua_largest_acked u of None \<Rightarrow> 0 | Some l \<Rightarrow> l) \<le> acked then None
      else case prune_loop acked (ua_deque u) of
        (rest, done) \<Rightarrow> Some (\<lparr>ua_deque = rest, ua_largest_acked = Some acked\<rparr>, done))"

definition requeue_unacked :: "'b deliveries \<Rightarrow> 'b deliveries option" where
  "requeue_unacked d =
     (case outbox_requeue_unacked (ua_deque (dl_unacked d)) (dl_outbox d) of
        None \<Rightarrow> None
      | Some ob \<Rightarrow> Some \<lparr>dl_outbox = ob, dl_unacked = (dl_unacked d)\<lparr>ua_deque := []\<rparr>\<rparr>)"

definition try_return :: "('m, 'b) codec \<Rightarrow> close_reason \<Rightarrow> 'b queued_message \<Rightarrow> nat \<times> 'm completion" where
  "try_return cd reason q =
     (case cd_deserialize cd (q_message q) of
        Some (_, msg) \<Rightarrow> (q_sink q, Rejected msg reason)
      | None \<Rightarrow> (q_sink q, Accepted))"

section \<open>The sending task\<close>

text \<open>A write is begun, then its bytes reach the wire, then driving it returns.\<close>

datatype write_state = NoWrite | Writing | OnWire

datatype tx_phase =
    Lazy
  | Connecting
  | Connected nat write_state
  | ClosedTx close_reason

record ('m, 'b) tx =
  tx_deliveries :: "'b deliveries"
  tx_receiver :: "('m \<times> nat) list"
  tx_app_closed :: bool
  tx_phase :: tx_phase
  tx_done :: "'m completions"

definition tx_new :: "('m, 'b) tx" where
  "tx_new = \<lparr>tx_deliveries = \<lparr>dl_outbox = outbox_new, dl_unacked = unacked_new\<rparr>, tx_receiver = [],
     tx_app_closed = False, tx_phase = Lazy, tx_done = []\<rparr>"

text \<open>\<open>do_post\<close>: a message posted after the end is rejected at once.\<close>

definition do_post :: "'m \<Rightarrow> nat \<Rightarrow> ('m, 'b) tx \<Rightarrow> ('m, 'b) tx" where
  "do_post m sink t =
     (case tx_phase t of
        ClosedTx reason \<Rightarrow> t\<lparr>tx_done := tx_done t @ [(sink, Rejected m reason)]\<rparr>
      | _ \<Rightarrow> t\<lparr>tx_receiver := tx_receiver t @ [(m, sink)]\<rparr>)"

definition str_contains :: "string \<Rightarrow> string \<Rightarrow> bool" where
  "str_contains s pat = list_ex (\<lambda>i. take (length pat) (drop i s) = pat) [0..<Suc (length s)]"

definition is_terminal :: "send_loop_error \<Rightarrow> bool" where
  "is_terminal e \<longleftrightarrow> e \<noteq> SendIo"

definition classify_send_loop_error :: "send_loop_error \<Rightarrow> close_reason" where
  "classify_send_loop_error e =
     (case e of
        RejectedTx reason \<Rightarrow>
          if str_contains reason ''out-of-sequence message'' then SequenceMismatch reason else OtherReason
      | OversizedTx len max_len \<Rightarrow> OversizedFrame len max_len
      | _ \<Rightarrow> OtherReason)"

text \<open>The end of the task: everything that is still queued goes back to where it came from.\<close>

definition close_tx :: "('m, 'b) codec \<Rightarrow> close_reason \<Rightarrow> ('m, 'b) tx \<Rightarrow> ('m, 'b) tx" where
  "close_tx cd reason t =
     (let d = tx_deliveries t
      in t\<lparr>tx_deliveries := \<lparr>dl_outbox = (dl_outbox d)\<lparr>ox_deque := []\<rparr>, dl_unacked = (dl_unacked d)\<lparr>ua_deque := []\<rparr>\<rparr>,
           tx_receiver := [], tx_phase := ClosedTx reason,
           tx_done := tx_done t @ map (try_return cd reason) (ua_deque (dl_unacked d) @ ox_deque (dl_outbox d)) @
             map (\<lambda>(msg, sink). (sink, Rejected msg reason)) (tx_receiver t)\<rparr>)"

text \<open>What follows \<open>send_connected\<close>: \<open>None\<close> is the end of the stream.\<close>

definition after_send :: "('m, 'b) codec \<Rightarrow> send_loop_error option \<Rightarrow> ('m, 'b) tx \<Rightarrow> ('m, 'b) tx" where
  "after_send cd result t =
     (case result of
        None \<Rightarrow> t\<lparr>tx_phase := Connecting\<rparr>
      | Some e \<Rightarrow>
          if is_terminal e then close_tx cd (classify_send_loop_error e) t else t\<lparr>tx_phase := Connecting\<rparr>)"

definition set_deliveries :: "'b deliveries \<Rightarrow> 'm completions \<Rightarrow> ('m, 'b) tx \<Rightarrow> ('m, 'b) tx" where
  "set_deliveries d done t = t\<lparr>tx_deliveries := d, tx_done := tx_done t @ done\<rparr>"

text \<open>Before the first connection: wait for a message. If it cannot be serialized the task ends and
  drops what is queued.\<close>

definition lazy_connect :: "('m, 'b) codec \<Rightarrow> ('m, 'b) tx \<Rightarrow> ('m, 'b) tx option" where
  "lazy_connect cd t =
     (let d = tx_deliveries t
      in case tx_receiver t of
           [] \<Rightarrow> if tx_app_closed t then Some (t\<lparr>tx_phase := ClosedTx OtherReason\<rparr>) else Some t
         | item # rest \<Rightarrow>
             (case outbox_push_back cd item (dl_outbox d) of
                None \<Rightarrow> None
              | Some (True, ob, done) \<Rightarrow>
                  Some ((set_deliveries (d\<lparr>dl_outbox := ob\<rparr>) done t)\<lparr>tx_receiver := rest, tx_phase := Connecting\<rparr>)
              | Some (False, ob, done) \<Rightarrow>
                  Some ((set_deliveries (d\<lparr>dl_outbox := ob\<rparr>) (done @ map (\<lambda>(_, sink). (sink, Dropped)) rest) t)
                    \<lparr>tx_receiver := [], tx_phase := ClosedTx OtherReason\<rparr>)))"

definition connected :: "nat \<Rightarrow> ('m, 'b) tx \<Rightarrow> ('m, 'b) tx option" where
  "connected i t =
     (case requeue_unacked (tx_deliveries t) of
        None \<Rightarrow> None
      | Some d \<Rightarrow> Some (t\<lparr>tx_deliveries := d, tx_phase := Connected i NoWrite\<rparr>))"

text \<open>The branches of the loop of \<open>send_connected\<close>. Beginning a write checks the size of the frame.\<close>

definition begin_write :: "('m, 'b) codec \<Rightarrow> nat \<Rightarrow> nat \<Rightarrow> ('m, 'b) tx \<Rightarrow> ('m, 'b) tx option" where
  "begin_write cd max_len i t =
     (let d = tx_deliveries t; ob = dl_outbox d
      in case ox_deque ob of
           [] \<Rightarrow> None
         | msg # rest \<Rightarrow>
             if max_len < cd_frame_len cd (q_message msg)
             then let e = OversizedTx (cd_frame_len cd (q_message msg)) max_len
                  in Some (after_send cd (Some e)
                       (set_deliveries (d\<lparr>dl_outbox := ob\<lparr>ox_deque := rest\<rparr>\<rparr>) [try_return cd (classify_send_loop_error e) msg] t))
             else Some (t\<lparr>tx_phase := Connected i Writing\<rparr>))"

definition write_done :: "nat \<Rightarrow> ('m, 'b) tx \<Rightarrow> ('m, 'b) tx option" where
  "write_done i t =
     (let d = tx_deliveries t; ob = dl_outbox d
      in case ox_deque ob of
           [] \<Rightarrow> None
         | msg # rest \<Rightarrow>
             (case unacked_push_back msg (dl_unacked d) of
                None \<Rightarrow> None
              | Some (u, done) \<Rightarrow>
                  Some ((set_deliveries \<lparr>dl_outbox = ob\<lparr>ox_deque := rest\<rparr>, dl_unacked = u\<rparr> done t)
                    \<lparr>tx_phase := Connected i NoWrite\<rparr>)))"

definition on_response :: "('m, 'b) codec \<Rightarrow> net_rx_response \<Rightarrow> ('m, 'b) tx \<Rightarrow> ('m, 'b) tx option" where
  "on_response cd r t =
     (case r of
        Ack ack \<Rightarrow>
          (case unacked_prune ack (dl_unacked (tx_deliveries t)) of
             None \<Rightarrow> None
           | Some (u, done) \<Rightarrow> Some (set_deliveries ((tx_deliveries t)\<lparr>dl_unacked := u\<rparr>) done t))
      | Reject reason \<Rightarrow> Some (after_send cd (Some (RejectedTx reason)) t)
      | ClosedRx \<Rightarrow> Some (after_send cd (Some ServerClosed) t))"

definition accept_message :: "('m, 'b) codec \<Rightarrow> ('m, 'b) tx \<Rightarrow> ('m, 'b) tx option" where
  "accept_message cd t =
     (let d = tx_deliveries t
      in case tx_receiver t of
           [] \<Rightarrow> if tx_app_closed t then Some (after_send cd (Some AppClosed) t) else Some t
         | item # rest \<Rightarrow>
             (case outbox_push_back cd item (dl_outbox d) of
                None \<Rightarrow> None
              | Some (True, ob, done) \<Rightarrow> Some ((set_deliveries (d\<lparr>dl_outbox := ob\<rparr>) done t)\<lparr>tx_receiver := rest\<rparr>)
              | Some (False, ob, done) \<Rightarrow>
                  Some (after_send cd (Some SendIo)
                    ((set_deliveries (d\<lparr>dl_outbox := ob\<rparr>) done t)\<lparr>tx_receiver := rest\<rparr>))))"

section \<open>The receiving task\<close>

text \<open>One task for each session, with the connections handed to it. \<open>rx_pending\<close> is an
  acknowledgement being written, with the number it stands for.\<close>

record 'm rx =
  rx_next :: next_seqs
  rx_delivered :: "'m list"
  rx_conn :: "nat option"
  rx_waiting :: "nat list"
  rx_pending :: "(nat \<times> nat) option"
  rx_open :: bool

definition rx_new :: "'m rx" where
  "rx_new = \<lparr>rx_next = \<lparr>nx_seq = 0, nx_ack = 0\<rparr>, rx_delivered = [], rx_conn = None, rx_waiting = [],
     rx_pending = None, rx_open = True\<rparr>"

text \<open>\<open>elapsed\<close> says whether the interval between acknowledgements has passed.\<close>

definition ack_behind :: "nat \<Rightarrow> bool \<Rightarrow> next_seqs \<Rightarrow> bool" where
  "ack_behind interval elapsed next \<longleftrightarrow>
     nx_ack next + interval \<le> nx_seq next \<or> (nx_ack next < nx_seq next \<and> elapsed)"

text \<open>The acknowledgement is of \<open>next.seq - 1\<close>: \<open>None\<close> is the underflow.\<close>

definition begin_ack :: "nat \<Rightarrow> bool \<Rightarrow> 'm rx \<Rightarrow> 'm rx option" where
  "begin_ack interval elapsed r =
     (if rx_pending r = None \<and> ack_behind interval elapsed (rx_next r)
      then if nx_seq (rx_next r) = 0 then None
           else Some (r\<lparr>rx_pending := Some (nx_seq (rx_next r) - 1, nx_seq (rx_next r))\<rparr>)
      else Some r)"

definition ack_written :: "'m rx \<Rightarrow> 'm rx" where
  "ack_written r =
     (case rx_pending r of
        None \<Rightarrow> r
      | Some (_, acked_seq) \<Rightarrow> r\<lparr>rx_pending := None, rx_next := (rx_next r)\<lparr>nx_ack := acked_seq\<rparr>\<rparr>)"

text \<open>A frame from the wire: the state after it, or the error that ends the loop.\<close>

definition recv_frame :: "('m, 'b) codec \<Rightarrow> 'b \<Rightarrow> 'm rx \<Rightarrow> recv_loop_error + 'm rx" where
  "recv_frame cd b r =
     (case cd_deserialize cd b of
        None \<Rightarrow> Inl RecvIo
      | Some (seq, msg) \<Rightarrow>
          if seq < nx_seq (rx_next r) then Inr r
          else if nx_seq (rx_next r) < seq then Inl (SequenceError ''out-of-sequence message'')
          else Inr (r\<lparr>rx_delivered := rx_delivered r @ [msg], rx_next := (rx_next r)\<lparr>nx_seq := seq + 1\<rparr>\<rparr>))"

text \<open>What follows \<open>recv_connected\<close>: a last acknowledgement and a last response, either of which may
  fail to be written, and then the next connection or the end. The result of the loop is \<open>None\<close> at
  the end of the stream.\<close>

definition terminal_response :: "recv_loop_error option \<Rightarrow> net_rx_response list" where
  "terminal_response result =
     (case result of Some (SequenceError reason) \<Rightarrow> [Reject reason] | Some Cancelled \<Rightarrow> [ClosedRx] | _ \<Rightarrow> [])"

definition recoverable :: "recv_loop_error option \<Rightarrow> bool" where
  "recoverable result \<longleftrightarrow> result = None \<or> result = Some RecvIo"

definition final_ack :: "bool \<Rightarrow> 'm rx \<Rightarrow> net_rx_response list \<times> 'm rx" where
  "final_ack written r =
     (if nx_ack (rx_next r) < nx_seq (rx_next r) \<and> written
      then ([Ack (nx_seq (rx_next r) - 1)], r\<lparr>rx_next := (rx_next r)\<lparr>nx_ack := nx_seq (rx_next r)\<rparr>\<rparr>)
      else ([], r))"

definition after_recv :: "recv_loop_error option \<Rightarrow> bool \<Rightarrow> bool \<Rightarrow> 'm rx \<Rightarrow> net_rx_response list \<times> 'm rx" where
  "after_recv result ack_ok response_ok r =
     (case final_ack ack_ok r of
        (acks, r1) \<Rightarrow>
          (acks @ (if response_ok then terminal_response result else []),
           r1\<lparr>rx_conn := None, rx_pending := None, rx_open := recoverable result\<rparr>))"

definition next_connection :: "'m rx \<Rightarrow> 'm rx" where
  "next_connection r =
     (case rx_waiting r of
        [] \<Rightarrow> r
      | i # rest \<Rightarrow> r\<lparr>rx_conn := Some i, rx_waiting := rest\<rparr>)"

end
