(* ===== verification/Channel_Link.thy ===== *)
theory Channel_Link
  imports Channel_Session
begin

text \<open>
  A channel over a network that may fail: the sending task, the receiving task of its session and
  the connections between them. A connection keeps the order of what is written to it in each
  direction until it is cut; what has not arrived by then is lost, and so is what is written
  afterwards. Either side may see an error or the end of the stream at any time, connections may
  reach the receiving task late, in another order or not at all, and deadlines may pass at any
  time. A response is written as a whole or not at all.
\<close>

section \<open>Steps\<close>

record 'b conn =
  cn_out :: "'b list"
  cn_in :: "net_rx_response list"
  cn_cut :: bool

record ('m, 'b) link =
  lk_tx :: "('m, 'b) tx"
  lk_rx :: "'m rx"
  lk_conns :: "nat \<Rightarrow> 'b conn"
  lk_count :: nat
  lk_arriving :: "nat list"
  lk_posted :: "'m list"
  lk_failed :: bool

definition link_new :: "('m, 'b) link" where
  "link_new = \<lparr>lk_tx = tx_new, lk_rx = rx_new, lk_conns = (\<lambda>_. \<lparr>cn_out = [], cn_in = [], cn_cut = False\<rparr>),
     lk_count = 0, lk_arriving = [], lk_posted = [], lk_failed = False\<rparr>"

text \<open>A panic of the sending or of the receiving task is remembered.\<close>

definition set_tx :: "('m, 'b) tx option \<Rightarrow> ('m, 'b) link \<Rightarrow> ('m, 'b) link" where
  "set_tx t l = (case t of None \<Rightarrow> l\<lparr>lk_failed := True\<rparr> | Some t1 \<Rightarrow> l\<lparr>lk_tx := t1\<rparr>)"

definition set_rx :: "'m rx option \<Rightarrow> ('m, 'b) link \<Rightarrow> ('m, 'b) link" where
  "set_rx r l = (case r of None \<Rightarrow> l\<lparr>lk_failed := True\<rparr> | Some r1 \<Rightarrow> l\<lparr>lk_rx := r1\<rparr>)"

definition put_out :: "nat \<Rightarrow> 'b \<Rightarrow> ('m, 'b) link \<Rightarrow> ('m, 'b) link" where
  "put_out i b l =
     (let c = lk_conns l i
      in if cn_cut c then l else l\<lparr>lk_conns := (lk_conns l)(i := c\<lparr>cn_out := cn_out c @ [b]\<rparr>)\<rparr>)"

definition put_in :: "nat \<Rightarrow> net_rx_response list \<Rightarrow> ('m, 'b) link \<Rightarrow> ('m, 'b) link" where
  "put_in i rs l =
     (let c = lk_conns l i
      in if cn_cut c then l else l\<lparr>lk_conns := (lk_conns l)(i := c\<lparr>cn_in := cn_in c @ rs\<rparr>)\<rparr>)"

text \<open>The end of the loop of \<open>recv_connected\<close> on connection \<open>i\<close>.\<close>

definition end_recv :: "nat \<Rightarrow> recv_loop_error option \<Rightarrow> bool \<Rightarrow> bool \<Rightarrow> ('m, 'b) link \<Rightarrow> ('m, 'b) link" where
  "end_recv i result ack_ok response_ok l =
     (case after_recv result ack_ok response_ok (lk_rx l) of (rs, r) \<Rightarrow> put_in i rs (l\<lparr>lk_rx := r\<rparr>))"

text \<open>A run without faults: posting, dialling and the progress of both tasks.\<close>

inductive good_step :: "('m, 'b) codec \<Rightarrow> nat \<Rightarrow> nat \<Rightarrow> ('m, 'b) link \<Rightarrow> ('m, 'b) link \<Rightarrow> bool"
  for cd max_len interval where
  lazy: "tx_phase (lk_tx l) = Lazy \<Longrightarrow> tx_receiver (lk_tx l) \<noteq> [] \<or> tx_app_closed (lk_tx l) \<Longrightarrow>
    good_step cd max_len interval l (set_tx (lazy_connect cd (lk_tx l)) l)"
| dial: "tx_phase (lk_tx l) = Connecting \<Longrightarrow> i = lk_count l \<Longrightarrow>
    good_step cd max_len interval l (set_tx (connected i (lk_tx l))
      (l\<lparr>lk_conns := (lk_conns l)(i := \<lparr>cn_out = [], cn_in = [], cn_cut = False\<rparr>), lk_count := i + 1,
         lk_arriving := lk_arriving l @ [i]\<rparr>))"
| begin_write: "tx_phase (lk_tx l) = Connected i NoWrite \<Longrightarrow> ox_deque (dl_outbox (tx_deliveries (lk_tx l))) \<noteq> [] \<Longrightarrow>
    good_step cd max_len interval l (set_tx (begin_write cd max_len i (lk_tx l)) l)"
| on_wire: "tx_phase (lk_tx l) = Connected i Writing \<Longrightarrow> ox_deque (dl_outbox (tx_deliveries (lk_tx l))) = msg # rest \<Longrightarrow>
    good_step cd max_len interval l (put_out i (q_message msg) (l\<lparr>lk_tx := (lk_tx l)\<lparr>tx_phase := Connected i OnWire\<rparr>\<rparr>))"
| write_done: "tx_phase (lk_tx l) = Connected i OnWire \<Longrightarrow>
    good_step cd max_len interval l (set_tx (write_done i (lk_tx l)) l)"
| response: "tx_phase (lk_tx l) = Connected i ws \<Longrightarrow> cn_in (lk_conns l i) = r # rs \<Longrightarrow>
    good_step cd max_len interval l (set_tx (on_response cd r (lk_tx l))
      (l\<lparr>lk_conns := (lk_conns l)(i := (lk_conns l i)\<lparr>cn_in := rs\<rparr>)\<rparr>))"
| accept: "tx_phase (lk_tx l) = Connected i ws \<Longrightarrow> ox_deque (dl_outbox (tx_deliveries (lk_tx l))) = [] \<Longrightarrow>
    tx_receiver (lk_tx l) \<noteq> [] \<or> tx_app_closed (lk_tx l) \<Longrightarrow>
    good_step cd max_len interval l (set_tx (accept_message cd (lk_tx l)) l)"
| arrive: "i \<in> set (lk_arriving l) \<Longrightarrow> rx_open (lk_rx l) \<Longrightarrow>
    good_step cd max_len interval l (l\<lparr>lk_rx := (lk_rx l)\<lparr>rx_waiting := rx_waiting (lk_rx l) @ [i]\<rparr>,
      lk_arriving := remove1 i (lk_arriving l)\<rparr>)"
| take_conn: "rx_open (lk_rx l) \<Longrightarrow> rx_conn (lk_rx l) = None \<Longrightarrow> rx_waiting (lk_rx l) \<noteq> [] \<Longrightarrow>
    good_step cd max_len interval l (l\<lparr>lk_rx := next_connection (lk_rx l)\<rparr>)"
| begin_ack: "rx_conn (lk_rx l) = Some i \<Longrightarrow> rx_pending (lk_rx l) = None \<Longrightarrow> ack_behind interval elapsed (rx_next (lk_rx l)) \<Longrightarrow>
    good_step cd max_len interval l (set_rx (begin_ack interval elapsed (lk_rx l)) l)"
| ack_written: "rx_conn (lk_rx l) = Some i \<Longrightarrow> rx_pending (lk_rx l) = Some (v, s) \<Longrightarrow>
    good_step cd max_len interval l (put_in i [Ack v] (l\<lparr>lk_rx := ack_written (lk_rx l)\<rparr>))"
| receive: "rx_conn (lk_rx l) = Some i \<Longrightarrow> cn_out (lk_conns l i) = b # bs \<Longrightarrow> recv_frame cd b (lk_rx l) = Inr r \<Longrightarrow>
    good_step cd max_len interval l (l\<lparr>lk_rx := r, lk_conns := (lk_conns l)(i := (lk_conns l i)\<lparr>cn_out := bs\<rparr>)\<rparr>)"

text \<open>All steps: those of a good run, what the application does, and faults.\<close>

inductive link_step :: "('m, 'b) codec \<Rightarrow> nat \<Rightarrow> nat \<Rightarrow> ('m, 'b) link \<Rightarrow> ('m, 'b) link \<Rightarrow> bool"
  for cd max_len interval where
  good: "good_step cd max_len interval l l' \<Longrightarrow> link_step cd max_len interval l l'"
| post: "\<not> tx_app_closed (lk_tx l) \<Longrightarrow> link_step cd max_len interval l
    (l\<lparr>lk_tx := do_post m (length (lk_posted l)) (lk_tx l), lk_posted := lk_posted l @ [m]\<rparr>)"
| app_closed: "link_step cd max_len interval l (l\<lparr>lk_tx := (lk_tx l)\<lparr>tx_app_closed := True\<rparr>\<rparr>)"
| dial_fails: "tx_phase (lk_tx l) = Connecting \<Longrightarrow>
    link_step cd max_len interval l (l\<lparr>lk_tx := close_tx cd OtherReason (lk_tx l)\<rparr>)"
| send_ends: "tx_phase (lk_tx l) = Connected i ws \<Longrightarrow> result = None \<or> result = Some SendIo \<Longrightarrow>
    link_step cd max_len interval l (l\<lparr>lk_tx := after_send cd result (lk_tx l)\<rparr>)"
| timeout: "tx_phase (lk_tx l) = Connected i ws \<Longrightarrow> ua_deque (dl_unacked (tx_deliveries (lk_tx l))) \<noteq> [] \<Longrightarrow>
    link_step cd max_len interval l (l\<lparr>lk_tx := after_send cd (Some DeliveryTimeout) (lk_tx l)\<rparr>)"
| recv_fails: "rx_conn (lk_rx l) = Some i \<Longrightarrow> cn_out (lk_conns l i) = b # bs \<Longrightarrow> recv_frame cd b (lk_rx l) = Inl e \<Longrightarrow>
    link_step cd max_len interval l (end_recv i (Some e) ack_ok response_ok
      (l\<lparr>lk_conns := (lk_conns l)(i := (lk_conns l i)\<lparr>cn_out := bs\<rparr>)\<rparr>))"
| recv_ends: "rx_conn (lk_rx l) = Some i \<Longrightarrow> result \<in> {None, Some RecvIo, Some Cancelled} \<Longrightarrow>
    link_step cd max_len interval l (end_recv i result ack_ok response_ok l)"
| ack_fails: "rx_conn (lk_rx l) = Some i \<Longrightarrow> rx_pending (lk_rx l) = Some (v, s) \<Longrightarrow>
    link_step cd max_len interval l (end_recv i (Some RecvIo) ack_ok response_ok (put_in i [Ack v] l))"
| shutdown: "rx_conn (lk_rx l) = None \<Longrightarrow>
    link_step cd max_len interval l (l\<lparr>lk_rx := (lk_rx l)\<lparr>rx_open := False\<rparr>\<rparr>)"
| cut: "link_step cd max_len interval l (l\<lparr>lk_conns := (lk_conns l)(i :=
    \<lparr>cn_out = take a (cn_out (lk_conns l i)), cn_in = take b (cn_in (lk_conns l i)), cn_cut = True\<rparr>)\<rparr>)"

section \<open>Numbered messages\<close>

text \<open>The messages the sending task has numbered, of those it has taken from the application: the
  ones that can be serialized.\<close>

fun assign :: "('m, 'b) codec \<Rightarrow> nat \<Rightarrow> ('m \<times> nat) list \<Rightarrow> ('m \<times> nat) list" where
  "assign cd s [] = []"
| "assign cd s (x # xs) = (if cd_serialize cd (s, fst x) = None then assign cd s xs else x # assign cd (Suc s) xs)"

definition indexed :: "'m list \<Rightarrow> ('m \<times> nat) list" where
  "indexed ms = zip ms [0..<length ms]"

definition codec_ok :: "('m, 'b) codec \<Rightarrow> bool" where
  "codec_ok cd \<longleftrightarrow> (\<forall>f b. cd_serialize cd f = Some b \<longrightarrow> cd_deserialize cd b = Some f)"

definition frame_at :: "('m, 'b) codec \<Rightarrow> ('m \<times> nat) list \<Rightarrow> nat \<Rightarrow> 'b" where
  "frame_at cd A s = the (cd_serialize cd (s, fst (A ! s)))"

definition queued_at :: "('m, 'b) codec \<Rightarrow> ('m \<times> nat) list \<Rightarrow> nat \<Rightarrow> 'b queued_message" where
  "queued_at cd A s = \<lparr>q_seq = s, q_message = frame_at cd A s, q_sink = snd (A ! s)\<rparr>"

lemma queued_at_simps [simp]:
  "q_seq (queued_at cd A s) = s" "q_message (queued_at cd A s) = frame_at cd A s" "q_sink (queued_at cd A s) = snd (A ! s)"
  by (simp_all add: queued_at_def)

lemma assign_append: "assign cd s (xs @ ys) = assign cd s xs @ assign cd (s + length (assign cd s xs)) ys"
  by (induction cd s xs rule: assign.induct) auto

lemma assign_serializes: "i < length (assign cd s xs) \<Longrightarrow> cd_serialize cd (s + i, fst (assign cd s xs ! i)) \<noteq> None"
proof (induction cd s xs arbitrary: i rule: assign.induct)
  case (2 cd s x xs)
  show ?case
  proof (cases "cd_serialize cd (s, fst x) = None")
    case True
    then show ?thesis using 2(1) [OF True, of i] 2(3) by simp
  next
    case False
    then show ?thesis using 2(2) [OF False, of "i - 1"] 2(3) by (cases i) auto
  qed
qed simp

lemma assign_set: "set (assign cd s xs) \<subseteq> set xs"
  by (induction cd s xs rule: assign.induct) auto

lemma assign_distinct: "distinct (map snd xs) \<Longrightarrow> distinct (map snd (assign cd s xs))"
proof (induction cd s xs rule: assign.induct)
  case (2 cd s x xs)
  have "snd ` set (assign cd (Suc s) xs) \<subseteq> snd ` set xs" using assign_set by (rule image_mono)
  then show ?case using 2 by auto
qed simp

lemma indexed_simps [simp]:
  "length (indexed ms) = length ms" "i < length ms \<Longrightarrow> indexed ms ! i = (ms ! i, i)" "map snd (indexed ms) = [0..<length ms]"
  "indexed (ms @ [m]) = indexed ms @ [(m, length ms)]"
  by (simp_all add: indexed_def)

lemma frame_at_append [simp]: "s < length A \<Longrightarrow> frame_at cd (A @ B) s = frame_at cd A s"
  by (simp add: frame_at_def nth_append)

lemma queued_at_append [simp]: "s < length A \<Longrightarrow> queued_at cd (A @ B) s = queued_at cd A s"
  by (simp add: queued_at_def nth_append)

lemma assigned_frame:
  assumes "codec_ok cd" "A = assign cd 0 xs" "s < length A"
  shows "cd_serialize cd (s, fst (A ! s)) = Some (frame_at cd A s)" "cd_deserialize cd (frame_at cd A s) = Some (s, fst (A ! s))"
  using assms assign_serializes [of s cd 0 xs] by (auto simp: codec_ok_def frame_at_def)

section \<open>The invariant\<close>

text \<open>The positions of a channel: \<open>k\<close> messages have been taken from the application, the numbers
  below \<open>a\<close> are settled, those from \<open>a\<close> to \<open>u\<close> are written and not acknowledged, and those from
  \<open>u\<close> on are still to be written.\<close>

definition taken :: "('m, 'b) codec \<Rightarrow> nat \<Rightarrow> 'm list \<Rightarrow> ('m \<times> nat) list" where
  "taken cd k ms = assign cd 0 (take k (indexed ms))"

definition rx_inv :: "('m, 'b) codec \<Rightarrow> ('m \<times> nat) list \<Rightarrow> ('m, 'b) link \<Rightarrow> bool" where
  "rx_inv cd A l \<longleftrightarrow>
     nx_seq (rx_next (lk_rx l)) \<le> length A \<and> nx_ack (rx_next (lk_rx l)) \<le> nx_seq (rx_next (lk_rx l)) \<and>
     rx_delivered (lk_rx l) = map fst (take (nx_seq (rx_next (lk_rx l))) A) \<and>
     (\<forall>i \<in> set (rx_waiting (lk_rx l)) \<union> set (lk_arriving l) \<union> set_option (rx_conn (lk_rx l)). i < lk_count l) \<and>
     \<not> lk_failed l"

definition acks_of :: "net_rx_response list \<Rightarrow> nat list" where
  "acks_of rs = concat (map (\<lambda>r. case r of Ack v \<Rightarrow> [v] | _ \<Rightarrow> []) rs)"

definition conn_inv :: "('m, 'b) codec \<Rightarrow> ('m \<times> nat) list \<Rightarrow> nat \<Rightarrow> 'b conn \<Rightarrow> bool" where
  "conn_inv cd A n c \<longleftrightarrow>
     (\<exists>r w. cn_out c = map (frame_at cd A) [r..<w] \<and> r \<le> n \<and> r \<le> w \<and> w \<le> length A) \<and>
     sorted (acks_of (cn_in c)) \<and> (\<forall>v \<in> set (acks_of (cn_in c)). v < n) \<and> (\<forall>s. Reject s \<notin> set (cn_in c))"

definition largest :: "('m, 'b) link \<Rightarrow> nat option" where
  "largest l = ua_largest_acked (dl_unacked (tx_deliveries (lk_tx l)))"

text \<open>The sender while it runs: its buffers by their positions, where \<open>n\<close> numbers have been
  delivered, and its connection.\<close>

definition tx_nums :: "('m, 'b) codec \<Rightarrow> ('m \<times> nat) list \<Rightarrow> nat \<Rightarrow> nat \<Rightarrow> nat \<Rightarrow> 'b deliveries \<Rightarrow> bool" where
  "tx_nums cd A n a u d \<longleftrightarrow>
     ox_next_seq (dl_outbox d) = length A \<and> a \<le> u \<and> u \<le> length A \<and> a \<le> n \<and>
     ua_deque (dl_unacked d) = map (queued_at cd A) [a..<u] \<and> ox_deque (dl_outbox d) = map (queued_at cd A) [u..<length A] \<and>
     (\<forall>x. ua_largest_acked (dl_unacked d) = Some x \<longrightarrow> x < n \<and> (a < u \<longrightarrow> x < a))"

definition tx_conn :: "('m, 'b) codec \<Rightarrow> ('m \<times> nat) list \<Rightarrow> nat \<Rightarrow> nat option \<Rightarrow> nat \<Rightarrow> write_state \<Rightarrow> 'b conn \<Rightarrow> bool" where
  "tx_conn cd A n L u ws c \<longleftrightarrow>
     (ws \<noteq> NoWrite \<longrightarrow> u < length A) \<and> (\<forall>x. L = Some x \<longrightarrow> (\<forall>v \<in> set (acks_of (cn_in c)). x \<le> v)) \<and>
     (\<not> cn_cut c \<longrightarrow> (\<exists>r \<le> n. cn_out c = map (frame_at cd A) [r..<u + (if ws = OnWire then 1 else 0)] \<and>
        r \<le> u + (if ws = OnWire then 1 else 0)))"

definition pending_inv :: "('m, 'b) link \<Rightarrow> bool" where
  "pending_inv l \<longleftrightarrow>
     (\<forall>v s. rx_pending (lk_rx l) = Some (v, s) \<longrightarrow> rx_conn (lk_rx l) \<noteq> None \<and> s = Suc v \<and> v < nx_seq (rx_next (lk_rx l)) \<and>
        (\<forall>j. rx_conn (lk_rx l) = Some j \<longrightarrow> (\<forall>x \<in> set (acks_of (cn_in (lk_conns l j))). x \<le> v) \<and>
           (\<forall>ws x. tx_phase (lk_tx l) = Connected j ws \<longrightarrow> largest l = Some x \<longrightarrow> x \<le> v)))"

definition tx_inv :: "('m, 'b) codec \<Rightarrow> ('m \<times> nat) list \<Rightarrow> nat \<Rightarrow> nat \<Rightarrow> nat \<Rightarrow> ('m, 'b) link \<Rightarrow> bool" where
  "tx_inv cd A k a u l \<longleftrightarrow>
     tx_receiver (lk_tx l) = drop k (indexed (lk_posted l)) \<and>
     tx_nums cd A (nx_seq (rx_next (lk_rx l))) a u (tx_deliveries (lk_tx l)) \<and>
     (\<forall>i ws. tx_phase (lk_tx l) = Connected i ws \<longrightarrow> i < lk_count l \<and>
        tx_conn cd A (nx_seq (rx_next (lk_rx l))) (largest l) u ws (lk_conns l i)) \<and>
     (tx_phase (lk_tx l) = Lazy \<longrightarrow> A = [])"

text \<open>The outcomes reported while the sender runs, and in the end.\<close>

definition done_running :: "('m \<times> nat) list \<Rightarrow> nat \<Rightarrow> nat \<Rightarrow> 'm completions \<Rightarrow> bool" where
  "done_running A k a done \<longleftrightarrow> distinct (map fst done) \<and> snd ` set done \<subseteq> {Accepted} \<and>
     fst ` set done = (\<lambda>s. snd (A ! s)) ` {..<a} \<union> ({..<k} - snd ` set A)"

definition done_closed :: "('m \<times> nat) list \<Rightarrow> nat \<Rightarrow> nat \<Rightarrow> 'm list \<Rightarrow> 'm completions \<Rightarrow> bool" where
  "done_closed A k n ms done \<longleftrightarrow> distinct (map fst done) \<and> fst ` set done = {..<length ms} \<and>
     (\<forall>j. (j, Accepted) \<in> set done \<longrightarrow> j < k \<and> j \<notin> snd ` set A \<or> (\<exists>s < n. s < length A \<and> snd (A ! s) = j)) \<and>
     (\<forall>j m reason. (j, Rejected m reason) \<in> set done \<longrightarrow> m = ms ! j)"

definition base_inv :: "('m, 'b) codec \<Rightarrow> nat \<Rightarrow> ('m \<times> nat) list \<Rightarrow> ('m, 'b) link \<Rightarrow> bool" where
  "base_inv cd k A l \<longleftrightarrow> k \<le> length (lk_posted l) \<and> A = taken cd k (lk_posted l) \<and> rx_inv cd A l \<and>
     (\<forall>i. conn_inv cd A (nx_seq (rx_next (lk_rx l))) (lk_conns l i)) \<and> pending_inv l"

definition run_inv :: "('m, 'b) codec \<Rightarrow> nat \<Rightarrow> ('m \<times> nat) list \<Rightarrow> nat \<Rightarrow> nat \<Rightarrow> ('m, 'b) link \<Rightarrow> bool" where
  "run_inv cd k A a u l \<longleftrightarrow> base_inv cd k A l \<and> tx_inv cd A k a u l \<and> done_running A k a (tx_done (lk_tx l)) \<and>
     (\<forall>reason. tx_phase (lk_tx l) \<noteq> ClosedTx reason)"

definition end_inv :: "('m, 'b) codec \<Rightarrow> nat \<Rightarrow> ('m \<times> nat) list \<Rightarrow> ('m, 'b) link \<Rightarrow> bool" where
  "end_inv cd k A l \<longleftrightarrow> base_inv cd k A l \<and> tx_receiver (lk_tx l) = [] \<and> (\<exists>reason. tx_phase (lk_tx l) = ClosedTx reason) \<and>
     done_closed A k (nx_seq (rx_next (lk_rx l))) (lk_posted l) (tx_done (lk_tx l))"

definition link_inv :: "('m, 'b) codec \<Rightarrow> ('m, 'b) link \<Rightarrow> bool" where
  "link_inv cd l \<longleftrightarrow> (\<exists>k A. (\<exists>a u. run_inv cd k A a u l) \<or> end_inv cd k A l)"

lemma acks_of_simps [simp]:
  "acks_of [] = []" "acks_of (Ack v # rs) = v # acks_of rs" "acks_of (Reject s # rs) = acks_of rs"
  "acks_of (ClosedRx # rs) = acks_of rs" "acks_of (rs @ rs') = acks_of rs @ acks_of rs'"
  by (simp_all add: acks_of_def)

lemma taken_simps:
  assumes "k \<le> length ms"
  shows "taken cd k (ms @ [m]) = taken cd k ms" "distinct (map snd (taken cd k ms))" "snd ` set (taken cd k ms) \<subseteq> {..<k}"
proof -
  show "taken cd k (ms @ [m]) = taken cd k ms" using assms by (simp add: taken_def)
  have snds: "map snd (take k (indexed ms)) = [0..<k]" using assms by (simp add: take_map [symmetric])
  then show "distinct (map snd (taken cd k ms))" unfolding taken_def by (intro assign_distinct) simp
  have "snd ` set (taken cd k ms) \<subseteq> snd ` set (take k (indexed ms))"
    unfolding taken_def using assign_set by (rule image_mono)
  also have "\<dots> = set (map snd (take k (indexed ms)))" by simp
  finally show "snd ` set (taken cd k ms) \<subseteq> {..<k}" unfolding snds by auto
qed

lemma indexed_item: "x \<in> set (indexed ms) \<Longrightarrow> fst x = ms ! snd x"
  by (auto simp: indexed_def set_zip)

lemma taken_item: "s < length (taken cd k ms) \<Longrightarrow> fst (taken cd k ms ! s) = ms ! snd (taken cd k ms ! s)"
  by (rule indexed_item) (use assign_set [of cd 0 "take k (indexed ms)"] nth_mem in \<open>auto simp: taken_def dest!: in_set_takeD\<close>)

lemma taken_Suc:
  assumes "k < length ms"
  shows "taken cd (Suc k) ms =
    taken cd k ms @ (if cd_serialize cd (length (taken cd k ms), ms ! k) = None then [] else [(ms ! k, k)])"
  using assms by (simp add: taken_def take_Suc_conv_app_nth assign_append)

lemma link_inv_new: "link_inv cd link_new"
proof -
  have "run_inv cd 0 [] 0 0 link_new"
    by (simp add: run_inv_def base_inv_def taken_def rx_inv_def conn_inv_def pending_inv_def tx_inv_def tx_nums_def done_running_def
        link_new_def tx_new_def rx_new_def outbox_new_def unacked_new_def indexed_def)
  then show ?thesis unfolding link_inv_def by blast
qed

section \<open>The buffers by their positions\<close>

lemma push_back_ok:
  assumes "ox_deque ob = map (queued_at cd A) [u..<length A]" "ox_next_seq ob = length A" "u \<le> length A"
  shows "outbox_push_back cd (m, j) ob = (case cd_serialize cd (length A, m) of
      None \<Rightarrow> Some (False, ob, [(j, Accepted)])
    | Some b \<Rightarrow> Some (True, ob\<lparr>ox_deque := map (queued_at cd (A @ [(m, j)])) [u..<Suc (length A)],
        ox_next_seq := Suc (length A)\<rparr>, []))"
proof -
  have "q_seq (last (ox_deque ob)) < ox_next_seq ob" if "ox_deque ob \<noteq> []"
    using that assms by (simp add: last_map)
  moreover have "map (queued_at cd (A @ [(m, j)])) [u..<Suc (length A)] = ox_deque ob @ [\<lparr>q_seq = length A, q_message = b, q_sink = j\<rparr>]"
    if "cd_serialize cd (length A, m) = Some b" for b
    using that assms by (simp add: nth_append queued_at_def [of _ "A @ [(m, j)]"] frame_at_def queued_at_def [of _ A])
  ultimately show ?thesis using assms(2) by (auto simp: outbox_push_back_def split: option.splits)
qed

lemma requeue_ok:
  assumes "ua_deque (dl_unacked d) = map (queued_at cd A) [a..<u]" "ox_deque (dl_outbox d) = map (queued_at cd A) [u..<n]"
    "a \<le> u" "u \<le> n"
  shows "requeue_unacked d = Some \<lparr>dl_outbox = (dl_outbox d)\<lparr>ox_deque := map (queued_at cd A) [a..<n]\<rparr>,
    dl_unacked = (dl_unacked d)\<lparr>ua_deque := []\<rparr>\<rparr>"
proof -
  have "[a..<n] = [a..<u] @ [u..<n]" using assms(3,4) by (metis le_Suc_ex upt_add_eq_append)
  then have "map (queued_at cd A) [a..<n] = ua_deque (dl_unacked d) @ ox_deque (dl_outbox d)" using assms by simp
  moreover have "q_seq (last (ua_deque (dl_unacked d))) < q_seq (hd (ox_deque (dl_outbox d)))"
    if "ua_deque (dl_unacked d) \<noteq> []" "ox_deque (dl_outbox d) \<noteq> []"
    using that assms by (simp add: last_map hd_map)
  ultimately show ?thesis by (auto simp: requeue_unacked_def outbox_requeue_unacked_def)
qed

lemma unacked_push_back_ok:
  assumes "ua_deque ua = map (queued_at cd A) [a..<u]" "a \<le> u" "\<forall>x. ua_largest_acked ua = Some x \<longrightarrow> a < u \<longrightarrow> x < a"
  shows "unacked_push_back (queued_at cd A u) ua =
    (if \<exists>x. ua_largest_acked ua = Some x \<and> u \<le> x then Some (ua, [(snd (A ! u), Accepted)])
     else Some (ua\<lparr>ua_deque := map (queued_at cd A) [a..<Suc u]\<rparr>, []))"
proof -
  have "q_seq (last (ua_deque ua)) < u" if "ua_deque ua \<noteq> []" using that assms(1) by (simp add: last_map)
  then show ?thesis using assms by (auto simp: unacked_push_back_def split: option.splits)
qed

lemma prune_loop_ok:
  "a \<le> u \<Longrightarrow> prune_loop v (map (queued_at cd A) [a..<u]) =
    (map (queued_at cd A) [max a (min u (Suc v))..<u], map (\<lambda>s. (snd (A ! s), Accepted)) [a..<max a (min u (Suc v))])"
proof (induction "u - a" arbitrary: a)
  case (Suc n)
  then have "a < u" by simp
  then have l: "[a..<u] = a # [Suc a..<u]" by (simp add: upt_conv_Cons)
  show ?case
  proof (cases "a \<le> v")
    case True
    then have "max a (min u (Suc v)) = max (Suc a) (min u (Suc v))" using \<open>a < u\<close> by simp
    moreover have "[a..<max (Suc a) (min u (Suc v))] = a # [Suc a..<max (Suc a) (min u (Suc v))]" by (simp add: upt_conv_Cons)
    ultimately show ?thesis using Suc.hyps(1) [of "Suc a"] Suc.hyps(2) \<open>a < u\<close> True by (simp add: l)
  next
    case False
    then have "max a (min u (Suc v)) = a" by simp
    then show ?thesis using False by (simp add: l)
  qed
qed simp

section \<open>Steps of the sender\<close>

lemma tx_running:
  assumes "run_inv cd k A a u l"
  shows "k \<le> length (lk_posted l)" "A = taken cd k (lk_posted l)" "distinct (map snd A)" "snd ` set A \<subseteq> {..<k}"
proof -
  show 1: "k \<le> length (lk_posted l)" "A = taken cd k (lk_posted l)" using assms by (simp_all add: run_inv_def base_inv_def)
  show "distinct (map snd A)" "snd ` set A \<subseteq> {..<k}" unfolding 1(2) using taken_simps(2,3) [OF 1(1)] by simp_all
qed

lemma done_append:
  assumes "distinct (map snd A)" "snd ` set A \<subseteq> {..<k}" "done_running A k a done" "a \<le> b" "b \<le> length A"
  shows "done_running A k b (done @ map (\<lambda>s. (snd (A ! s), Accepted)) [a..<b])"
proof -
  have inj: "snd (A ! s) \<noteq> snd (A ! s')" if "s < length A" "s' < length A" "s \<noteq> s'" for s s'
    using assms(1) that by (metis distinct_conv_nth length_map nth_map)
  have "(\<lambda>s. snd (A ! s)) ` {..<a} \<union> (\<lambda>s. snd (A ! s)) ` {a..<b} = (\<lambda>s. snd (A ! s)) ` {..<b}"
    using assms(4) by (metis image_Un ivl_disj_un_one(2))
  moreover have "distinct (map (\<lambda>s. snd (A ! s)) [a..<b])"
    unfolding distinct_map using inj assms(5) by (auto simp: inj_on_def) (meson less_le_trans)
  moreover have "fst ` set done \<inter> (\<lambda>s. snd (A ! s)) ` {a..<b} = {}"
    using assms(3,5) inj by (auto simp: done_running_def)
  ultimately show ?thesis using assms(3) by (auto simp: done_running_def image_Un comp_def image_image)
qed

lemma frames_append: "w \<le> length A \<Longrightarrow> map (frame_at cd (A @ B)) [r..<w] = map (frame_at cd A) [r..<w]"
  by simp

lemma queue_append: "w \<le> length A \<Longrightarrow> map (queued_at cd (A @ B)) [r..<w] = map (queued_at cd A) [r..<w]"
  by simp

lemma conn_inv_append: "conn_inv cd A n c \<Longrightarrow> conn_inv cd (A @ B) n c"
  unfolding conn_inv_def by (metis frames_append le_trans length_append le_add1)

lemma conn_inv_new [simp]: "conn_inv cd A n \<lparr>cn_out = [], cn_in = [], cn_cut = False\<rparr>"
  unfolding conn_inv_def by (auto intro: exI [of _ 0])

lemma base_inv_grow:
  assumes "base_inv cd k A l" "k < length (lk_posted l)"
  shows "base_inv cd (Suc k) (taken cd (Suc k) (lk_posted l)) l"
proof -
  obtain B where "taken cd (Suc k) (lk_posted l) = A @ B"
    using taken_Suc [OF assms(2)] assms(1) by (auto simp: base_inv_def)
  moreover have "conn_inv cd (A @ B) (nx_seq (rx_next (lk_rx l))) (lk_conns l i)" for i
    by (rule conn_inv_append) (use assms(1) in \<open>auto simp: base_inv_def\<close>)
  ultimately show ?thesis using assms by (auto simp: base_inv_def rx_inv_def)
qed

text \<open>What the task does with the next message, on the level of positions.\<close>

lemma done_skip:
  assumes "distinct (map snd A)" "snd ` set A \<subseteq> {..<k}" "done_running A k a done" "a \<le> length A"
  shows "done_running A (Suc k) a (done @ [(k, Accepted)])"
proof -
  have "snd (A ! s) < k" if "s < a" for s using assms(2,4) that nth_mem [of s A] by fastforce
  then have "k \<notin> fst ` set done" using assms(3) by (auto simp: done_running_def)
  then show ?thesis using assms by (auto simp: done_running_def)
qed

lemma done_take:
  assumes "snd ` set A \<subseteq> {..<k}" "done_running A k a done" "a \<le> length A"
  shows "done_running (A @ [(m, k)]) (Suc k) a done"
proof -
  have "(\<lambda>s. snd ((A @ [(m, k)]) ! s)) ` {..<a} = (\<lambda>s. snd (A ! s)) ` {..<a}"
    using assms(3) by (intro image_cong) (simp_all add: nth_append)
  then show ?thesis using assms(1,2) by (auto simp: done_running_def)
qed

lemma nums_append: "tx_nums cd A n a u d \<Longrightarrow> map (queued_at cd (A @ B)) [a..<u] = ua_deque (dl_unacked d)"
  using queue_append [of u A cd B a] by (simp add: tx_nums_def)

lemma push_next:
  assumes "tx_nums cd A n a u d" "done_running A k a done" "A = taken cd k ms" "k < length ms"
  shows "\<exists>ok ob new. outbox_push_back cd (ms ! k, k) (dl_outbox d) = Some (ok, ob, new) \<and>
    tx_nums cd (taken cd (Suc k) ms) n a u (d\<lparr>dl_outbox := ob\<rparr>) \<and>
    done_running (taken cd (Suc k) ms) (Suc k) a (done @ new) \<and> (ok \<longrightarrow> taken cd (Suc k) ms = A @ [(ms ! k, k)]) \<and>
    (\<not> ok \<longrightarrow> taken cd (Suc k) ms = A \<and> new = [(k, Accepted)])"
proof -
  note nums = assms(1) [unfolded tx_nums_def]
  have A: "distinct (map snd A)" "snd ` set A \<subseteq> {..<k}" using taken_simps(2,3) [of k ms cd] assms(3,4) by simp_all
  have push: "outbox_push_back cd (ms ! k, k) (dl_outbox d) = (case cd_serialize cd (length A, ms ! k) of
      None \<Rightarrow> Some (False, dl_outbox d, [(k, Accepted)])
    | Some b \<Rightarrow> Some (True, (dl_outbox d)\<lparr>ox_deque := map (queued_at cd (A @ [(ms ! k, k)])) [u..<Suc (length A)],
        ox_next_seq := Suc (length A)\<rparr>, []))"
    by (rule push_back_ok) (use nums in simp_all)
  show ?thesis
  proof (cases "cd_serialize cd (length A, ms ! k)")
    case None
    then have "taken cd (Suc k) ms = A" using taken_Suc [OF assms(4), of cd] assms(3) by simp
    then show ?thesis using None push assms(1) done_skip [OF A assms(2)] nums by auto
  next
    case (Some b)
    let ?A = "A @ [(ms ! k, k)]"
    have A': "taken cd (Suc k) ms = ?A" using Some taken_Suc [OF assms(4), of cd] assms(3) by simp
    have "tx_nums cd ?A n a u (d\<lparr>dl_outbox := (dl_outbox d)\<lparr>ox_deque := map (queued_at cd ?A) [u..<Suc (length A)],
        ox_next_seq := Suc (length A)\<rparr>\<rparr>)"
      using nums nums_append [OF assms(1), of "[(ms ! k, k)]"] by (simp add: tx_nums_def del: upt_Suc map_append)
    then show ?thesis using Some push A' done_take [OF A(2) assms(2)] nums by auto
  qed
qed

lemma done_close:
  assumes A: "distinct (map snd A)" "snd ` set A \<subseteq> {..<k}" and run: "done_running A k a done"
    and le: "a \<le> length A" "a \<le> n" "k \<le> length ms"
    and extra: "mset (map fst extra) = mset (map (\<lambda>s. snd (A ! s)) [a..<length A] @ [k..<length ms])" "Accepted \<notin> snd ` set extra"
    and orig: "\<forall>j m reason. (j, Rejected m reason) \<in> set extra \<longrightarrow> m = ms ! j"
  shows "done_closed A k n ms (done @ extra)"
proof -
  have inj: "snd (A ! s) \<noteq> snd (A ! s')" if "s < length A" "s' < length A" "s \<noteq> s'" for s s'
    using A(1) that by (metis distinct_conv_nth length_map nth_map)
  have lt: "snd (A ! s) < k" if "s < length A" for s using A(2) that nth_mem [of s A] by fastforce
  have "set (map fst extra) = set (map (\<lambda>s. snd (A ! s)) [a..<length A] @ [k..<length ms])" using extra(1) by (rule mset_eq_setD)
  then have new: "fst ` set extra = (\<lambda>s. snd (A ! s)) ` {a..<length A} \<union> {k..<length ms}" by simp
  have "distinct (map (\<lambda>s. snd (A ! s)) [a..<length A] @ [k..<length ms])"
  proof -
    have "inj_on (\<lambda>s. snd (A ! s)) {a..<length A}" by (rule inj_onI) (metis inj atLeastLessThan_iff)
    moreover have "(\<lambda>s. snd (A ! s)) ` {a..<length A} \<inter> {k..<length ms} = {}" using lt by fastforce
    ultimately show ?thesis by (simp add: distinct_map)
  qed
  then have "distinct (map fst extra)" using extra(1) by (metis mset_eq_imp_distinct_iff)
  moreover have old: "fst ` set done = (\<lambda>s. snd (A ! s)) ` {..<a} \<union> ({..<k} - snd ` set A)" "distinct (map fst done)"
    using run by (simp_all add: done_running_def)
  moreover have "fst ` set done \<inter> fst ` set extra = {}"
  proof -
    have "(\<lambda>s. snd (A ! s)) ` {..<a} \<inter> (\<lambda>s. snd (A ! s)) ` {a..<length A} = {}" using inj le(1) by auto
    moreover have "(\<lambda>s. snd (A ! s)) ` {..<a} \<inter> {k..<length ms} = {}"
    proof -
      have "snd (A ! s) < k" if "s < a" for s using lt le(1) that by simp
      then show ?thesis by auto (metis leD)
    qed
    moreover have "(\<lambda>s. snd (A ! s)) ` {a..<length A} \<subseteq> snd ` set A" by auto
    ultimately show ?thesis unfolding old(1) new by auto
  qed
  moreover have "fst ` set done \<union> fst ` set extra = {..<length ms}"
  proof -
    have "(\<lambda>s. snd (A ! s)) ` {..<length A} = snd ` set A" by (auto simp: set_conv_nth image_image)
    moreover have "(\<lambda>s. snd (A ! s)) ` {..<a} \<union> (\<lambda>s. snd (A ! s)) ` {a..<length A} = (\<lambda>s. snd (A ! s)) ` {..<length A}"
      using le(1) by (metis image_Un ivl_disj_un_one(2))
    ultimately have "fst ` set done \<union> fst ` set extra = snd ` set A \<union> ({..<k} - snd ` set A) \<union> {k..<length ms}"
      unfolding old(1) new by auto
    then show ?thesis using A(2) le(3) by auto
  qed
  moreover have "j < k \<and> j \<notin> snd ` set A \<or> (\<exists>s < n. s < length A \<and> snd (A ! s) = j)" if "(j, Accepted) \<in> set (done @ extra)" for j
  proof -
    have "(j, Accepted) \<in> set done" using that extra(2) by force
    then have "j \<in> (\<lambda>s. snd (A ! s)) ` {..<a} \<union> ({..<k} - snd ` set A)" unfolding old(1) [symmetric] by force
    then show ?thesis
    proof
      assume "j \<in> (\<lambda>s. snd (A ! s)) ` {..<a}"
      then obtain s where "s < a" "j = snd (A ! s)" by auto
      then have "s < n" "s < length A" "snd (A ! s) = j" using le(1,2) by simp_all
      then show ?thesis by blast
    qed simp
  qed
  moreover have "m = ms ! j" if "(j, Rejected m reason) \<in> set (done @ extra)" for j m reason
  proof -
    have "(j, Rejected m reason) \<notin> set done" using run by (force simp: done_running_def)
    then show ?thesis using that orig by auto
  qed
  ultimately show ?thesis unfolding done_closed_def map_append distinct_append set_append image_Un set_map by blast
qed

lemma try_return_ok:
  assumes "codec_ok cd" "A = taken cd k ms" "s < length A"
  shows "try_return cd reason (queued_at cd A s) = (snd (A ! s), Rejected (fst (A ! s)) reason)"
  using assigned_frame(2) [of cd A "take k (indexed ms)" s] assms by (simp add: try_return_def taken_def)

text \<open>The end of the task, with the messages at the positions \<open>ss\<close> still queued.\<close>

lemma returned:
  assumes "codec_ok cd" "A = taken cd k ms" "\<forall>s \<in> set ss. s < length A"
  shows "map (try_return cd reason) (map (queued_at cd A) ss) = map (\<lambda>s. (snd (A ! s), Rejected (fst (A ! s)) reason)) ss"
  using assms try_return_ok [OF assms(1,2)] by simp

lemma base_inv_tx:
  "base_inv cd k A l \<Longrightarrow> pending_inv (l\<lparr>lk_tx := t\<rparr>) \<Longrightarrow> base_inv cd k A (l\<lparr>lk_tx := t\<rparr>)"
  by (auto simp: base_inv_def rx_inv_def)

lemma base_inv_closed:
  "base_inv cd k A l \<Longrightarrow> \<forall>i ws. tx_phase t \<noteq> Connected i ws \<Longrightarrow> base_inv cd k A (l\<lparr>lk_tx := t\<rparr>)"
  by (auto simp: base_inv_def rx_inv_def pending_inv_def largest_def)

lemma close_ok:
  assumes "codec_ok cd" "run_inv cd k A a u l"
  shows "end_inv cd k A (l\<lparr>lk_tx := close_tx cd reason (lk_tx l)\<rparr>)"
proof -
  note A = tx_running [OF assms(2)]
  let ?t = "lk_tx l" and ?n = "nx_seq (rx_next (lk_rx l))"
  have inv: "base_inv cd k A l" "tx_nums cd A ?n a u (tx_deliveries ?t)" "done_running A k a (tx_done ?t)"
    "tx_receiver ?t = drop k (indexed (lk_posted l))" using assms(2) by (simp_all add: run_inv_def tx_inv_def)
  note nums = inv(2) [unfolded tx_nums_def]
  let ?extra = "map (try_return cd reason) (map (queued_at cd A) ([a..<u] @ [u..<length A])) @
    map (\<lambda>(msg, sink). (sink, Rejected msg reason)) (drop k (indexed (lk_posted l)))"
  have "[a..<u] @ [u..<length A] = [a..<length A]" using nums by (metis le_Suc_ex upt_add_eq_append)
  moreover have "map (fst \<circ> (\<lambda>(msg, sink). (sink, Rejected msg reason))) (drop k (indexed (lk_posted l))) =
      map snd (drop k (indexed (lk_posted l)))" by (rule map_cong) auto
  then have "map (fst \<circ> (\<lambda>(msg, sink). (sink, Rejected msg reason))) (drop k (indexed (lk_posted l))) = [k..<length (lk_posted l)]"
    by (simp flip: drop_map)
  ultimately have "map fst ?extra = map (\<lambda>s. snd (A ! s)) [a..<length A] @ [k..<length (lk_posted l)]"
    using returned [OF assms(1) A(2), of "[a..<length A]" reason] by (simp add: comp_def)
  then have "mset (map fst ?extra) = mset (map (\<lambda>s. snd (A ! s)) [a..<length A] @ [k..<length (lk_posted l)])"
    by (rule arg_cong)
  moreover have "Accepted \<notin> snd ` set ?extra"
  proof -
    have "\<forall>s \<in> set ([a..<u] @ [u..<length A]). s < length A" using nums by auto
    from returned [OF assms(1) A(2) this, of reason] show ?thesis by (simp only:) auto
  qed
  moreover have "m = lk_posted l ! j" if "(j, Rejected m x) \<in> set ?extra" for j m x
  proof -
    have "\<forall>s \<in> set ([a..<u] @ [u..<length A]). s < length A" using nums by auto
    note ret = returned [OF assms(1) A(2) this, of reason]
    have item: "fst (A ! s) = lk_posted l ! snd (A ! s)" if "s < length A" for s using that A(2) taken_item by blast
    from that show ?thesis unfolding ret using item nums by (auto dest!: in_set_dropD indexed_item)
  qed
  ultimately have "done_closed A k ?n (lk_posted l) (tx_done ?t @ ?extra)"
    using done_close [OF A(3,4) inv(3)] nums A(1) by (meson le_trans)
  then show ?thesis using base_inv_closed [OF inv(1)] nums inv(4)
    by (simp add: end_inv_def close_tx_def Let_def)
qed

text \<open>The task takes the next message from the application.\<close>

lemma receiver_next:
  assumes "run_inv cd k A a u l" "tx_receiver (lk_tx l) = item # rest"
  shows "k < length (lk_posted l)" "item = (lk_posted l ! k, k)" "rest = drop (Suc k) (indexed (lk_posted l))"
proof -
  have r: "item # rest = drop k (indexed (lk_posted l))" using assms by (simp add: run_inv_def tx_inv_def)
  show k: "k < length (lk_posted l)" using arg_cong [OF r, of length] by simp
  have "drop k (indexed (lk_posted l)) = indexed (lk_posted l) ! k # drop (Suc k) (indexed (lk_posted l))"
    by (rule Cons_nth_drop_Suc [symmetric]) (simp add: k)
  then show "item = (lk_posted l ! k, k)" "rest = drop (Suc k) (indexed (lk_posted l))" using r k by simp_all
qed

lemma take_message:
  assumes run: "run_inv cd k A a u l" and r: "tx_receiver (lk_tx l) = item # rest"
    and ph: "ph = Connecting \<or> (\<exists>i ws. ph = Connected i ws) \<and> tx_phase (lk_tx l) = ph \<and> u = length A"
  defines "A' \<equiv> taken cd (Suc k) (lk_posted l)"
  shows "\<exists>ok ob new. outbox_push_back cd item (dl_outbox (tx_deliveries (lk_tx l))) = Some (ok, ob, new) \<and>
    run_inv cd (Suc k) A' a u (l\<lparr>lk_tx := (set_deliveries ((tx_deliveries (lk_tx l))\<lparr>dl_outbox := ob\<rparr>) new (lk_tx l))
        \<lparr>tx_receiver := rest, tx_phase := ph\<rparr>\<rparr>) \<and>
    (\<not> ok \<longrightarrow> A' = A \<and> new = [(k, Accepted)])"
proof -
  note nxt = receiver_next [OF run r]
  let ?t = "lk_tx l" and ?n = "nx_seq (rx_next (lk_rx l))"
  have inv: "base_inv cd k A l" "tx_nums cd A ?n a u (tx_deliveries ?t)" "done_running A k a (tx_done ?t)"
    using run by (simp_all add: run_inv_def tx_inv_def)
  obtain ok ob new where push: "outbox_push_back cd item (dl_outbox (tx_deliveries ?t)) = Some (ok, ob, new)"
    "tx_nums cd A' ?n a u ((tx_deliveries ?t)\<lparr>dl_outbox := ob\<rparr>)" "done_running A' (Suc k) a (tx_done ?t @ new)"
    "ok \<longrightarrow> A' = A @ [(lk_posted l ! k, k)]" "\<not> ok \<longrightarrow> A' = A \<and> new = [(k, Accepted)]"
    using push_next [OF inv(2,3) tx_running(2) [OF run] nxt(1)] nxt(2) unfolding A'_def by blast
  let ?l = "l\<lparr>lk_tx := (set_deliveries ((tx_deliveries ?t)\<lparr>dl_outbox := ob\<rparr>) new ?t)\<lparr>tx_receiver := rest, tx_phase := ph\<rparr>\<rparr>"
  have "base_inv cd (Suc k) A' ?l"
  proof -
    have "base_inv cd (Suc k) A' l" unfolding A'_def by (rule base_inv_grow [OF inv(1) nxt(1)])
    then show ?thesis using ph by (auto simp: base_inv_def rx_inv_def pending_inv_def set_deliveries_def largest_def)
  qed
  moreover have "tx_conn cd A' ?n (largest ?l) u ws (lk_conns l i)" if "ph = Connected i ws" for i ws
  proof -
    have old: "tx_conn cd A ?n (largest l) u ws (lk_conns l i)" "u = length A"
      using run ph that by (auto simp: run_inv_def tx_inv_def)
    moreover have "largest ?l = largest l" by (simp add: largest_def set_deliveries_def)
    moreover obtain B where "A' = A @ B" using push(4,5) by (cases ok) auto
    ultimately show ?thesis by (auto simp: tx_conn_def)
  qed
  moreover have "i < lk_count l" if "ph = Connected i ws" for i ws using run ph that by (auto simp: run_inv_def tx_inv_def)
  ultimately have "run_inv cd (Suc k) A' a u ?l"
    using push(2,3) ph nxt(3) by (auto simp: run_inv_def tx_inv_def set_deliveries_def)
  then show ?thesis using push(1,5) by blast
qed

lemma run_connecting:
  assumes "run_inv cd k A a u l"
  shows "run_inv cd k A a u (l\<lparr>lk_tx := (lk_tx l)\<lparr>tx_phase := Connecting\<rparr>\<rparr>)"
  using assms base_inv_closed [of cd k A l "(lk_tx l)\<lparr>tx_phase := Connecting\<rparr>"]
  by (simp add: run_inv_def tx_inv_def)

lemma run_link: "run_inv cd k A a u l \<Longrightarrow> link_inv cd l" "end_inv cd k A l \<Longrightarrow> link_inv cd l"
  unfolding link_inv_def by blast+

lemma after_send_inv:
  assumes "codec_ok cd" "run_inv cd k A a u l"
  shows "link_inv cd (l\<lparr>lk_tx := after_send cd result (lk_tx l)\<rparr>)"
  using run_link(2) [OF close_ok [OF assms]] run_link(1) [OF run_connecting [OF assms(2)]]
  by (simp add: after_send_def split: option.split)

lemma lazy_inv:
  assumes cd: "codec_ok cd" and run: "run_inv cd k A a u l" and ph: "tx_phase (lk_tx l) = Lazy"
  shows "link_inv cd (set_tx (lazy_connect cd (lk_tx l)) l)"
proof -
  let ?t = "lk_tx l"
  have A: "A = []" "a = 0" "done_running A k a (tx_done ?t)" "base_inv cd k A l" "k \<le> length (lk_posted l)"
    "tx_receiver ?t = drop k (indexed (lk_posted l))"
    using run ph by (auto simp: run_inv_def tx_inv_def tx_nums_def base_inv_def)
  have close: "end_inv cd k' A (l\<lparr>lk_tx := t\<rparr>)"
    if "base_inv cd k' A l" "done_running A k' a dn" "tx_receiver t = []" "tx_phase t = ClosedTx OtherReason"
      "tx_done t = dn @ extra" "map fst extra = [k'..<length (lk_posted l)]" "snd ` set extra \<subseteq> {Dropped}" for k' dn t extra
  proof -
    have "done_closed A k' (nx_seq (rx_next (lk_rx l))) (lk_posted l) (dn @ extra)"
      by (rule done_close [OF _ _ that(2)]) (use that A in \<open>force simp: base_inv_def\<close>)+
    then show ?thesis using that base_inv_closed [OF that(1), of t] by (simp add: end_inv_def)
  qed
  show ?thesis
  proof (cases "tx_receiver ?t")
    case Nil
    then have "k = length (lk_posted l)" using A(5,6) by simp
    then show ?thesis
      using Nil run close [OF A(4,3), of "?t\<lparr>tx_phase := ClosedTx OtherReason\<rparr>" "[]"] run_link
      by (auto simp: lazy_connect_def set_tx_def)
  next
    case (Cons item rest)
    note nxt = receiver_next [OF run Cons]
    obtain ok ob new where m: "outbox_push_back cd item (dl_outbox (tx_deliveries ?t)) = Some (ok, ob, new)"
      "run_inv cd (Suc k) (taken cd (Suc k) (lk_posted l)) a u
        (l\<lparr>lk_tx := (set_deliveries ((tx_deliveries ?t)\<lparr>dl_outbox := ob\<rparr>) new ?t)\<lparr>tx_receiver := rest, tx_phase := Connecting\<rparr>\<rparr>)"
      "\<not> ok \<longrightarrow> taken cd (Suc k) (lk_posted l) = A \<and> new = [(k, Accepted)]"
      using take_message [OF run Cons, of Connecting] by blast
    show ?thesis
    proof (cases ok)
      case True
      then show ?thesis using m(1) run_link(1) [OF m(2)] Cons by (simp add: lazy_connect_def set_tx_def)
    next
      case False
      let ?drop = "map (\<lambda>(_, sink). (sink, Dropped)) rest"
      let ?t1 = "(set_deliveries ((tx_deliveries ?t)\<lparr>dl_outbox := ob\<rparr>) (new @ ?drop) ?t)\<lparr>tx_receiver := [], tx_phase := ClosedTx OtherReason\<rparr>"
      have "map fst ?drop = map snd rest" by auto
      then have "map fst ?drop = [Suc k..<length (lk_posted l)]" using nxt(3) by (simp flip: drop_map)
      moreover have "base_inv cd (Suc k) A l" using base_inv_grow [OF A(4) nxt(1)] m(3) False by simp
      moreover have "done_running A (Suc k) a (tx_done ?t @ new)"
        using m(2,3) False by (simp add: run_inv_def set_deliveries_def)
      ultimately have "end_inv cd (Suc k) A (l\<lparr>lk_tx := ?t1\<rparr>)"
        by (intro close [where dn = "tx_done ?t @ new" and extra = ?drop]) (auto simp: set_deliveries_def)
      then show ?thesis using m(1) False Cons run_link(2) by (auto simp: lazy_connect_def set_tx_def)
    qed
  qed
qed

lemma accept_inv:
  assumes cd: "codec_ok cd" and run: "run_inv cd k A a u l" and ph: "tx_phase (lk_tx l) = Connected i ws"
    "ox_deque (dl_outbox (tx_deliveries (lk_tx l))) = []"
  shows "link_inv cd (set_tx (accept_message cd (lk_tx l)) l)"
proof -
  let ?t = "lk_tx l"
  have u: "u = length A" using run ph(2) by (auto simp: run_inv_def tx_inv_def tx_nums_def)
  show ?thesis
  proof (cases "tx_receiver ?t")
    case Nil
    then show ?thesis using after_send_inv [OF cd run] run_link(1) [OF run] by (simp add: accept_message_def set_tx_def)
  next
    case (Cons item rest)
    obtain ok ob new where m: "outbox_push_back cd item (dl_outbox (tx_deliveries ?t)) = Some (ok, ob, new)"
      "run_inv cd (Suc k) (taken cd (Suc k) (lk_posted l)) a u
        (l\<lparr>lk_tx := (set_deliveries ((tx_deliveries ?t)\<lparr>dl_outbox := ob\<rparr>) new ?t)\<lparr>tx_receiver := rest, tx_phase := Connected i ws\<rparr>\<rparr>)"
      using take_message [OF run Cons, of "Connected i ws"] ph(1) u by blast
    have "(set_deliveries d new ?t)\<lparr>tx_receiver := rest, tx_phase := Connected i ws\<rparr> = (set_deliveries d new ?t)\<lparr>tx_receiver := rest\<rparr>" for d
      using ph(1) by (simp add: set_deliveries_def)
    then have m2: "run_inv cd (Suc k) (taken cd (Suc k) (lk_posted l)) a u
        (l\<lparr>lk_tx := (set_deliveries ((tx_deliveries ?t)\<lparr>dl_outbox := ob\<rparr>) new ?t)\<lparr>tx_receiver := rest\<rparr>\<rparr>)" using m(2) by simp
    show ?thesis
      using m(1) Cons run_link(1) [OF m2] after_send_inv [OF cd m2, of "Some SendIo"]
      by (cases ok) (simp_all add: accept_message_def set_tx_def)
  qed
qed

lemma dial_inv:
  assumes run: "run_inv cd k A a u l" and ph: "tx_phase (lk_tx l) = Connecting"
  shows "link_inv cd (set_tx (connected (lk_count l) (lk_tx l))
    (l\<lparr>lk_conns := (lk_conns l)(lk_count l := \<lparr>cn_out = [], cn_in = [], cn_cut = False\<rparr>), lk_count := lk_count l + 1,
       lk_arriving := lk_arriving l @ [lk_count l]\<rparr>))"
proof -
  let ?t = "lk_tx l" and ?d = "tx_deliveries (lk_tx l)" and ?n = "nx_seq (rx_next (lk_rx l))" and ?i = "lk_count l"
  let ?d' = "\<lparr>dl_outbox = (dl_outbox ?d)\<lparr>ox_deque := map (queued_at cd A) [a..<length A]\<rparr>,
    dl_unacked = (dl_unacked ?d)\<lparr>ua_deque := []\<rparr>\<rparr>"
  let ?l = "l\<lparr>lk_conns := (lk_conns l)(?i := \<lparr>cn_out = [], cn_in = [], cn_cut = False\<rparr>), lk_count := ?i + 1,
    lk_arriving := lk_arriving l @ [?i], lk_tx := ?t\<lparr>tx_deliveries := ?d', tx_phase := Connected ?i NoWrite\<rparr>\<rparr>"
  have inv: "base_inv cd k A l" "tx_nums cd A ?n a u ?d" "done_running A k a (tx_done ?t)"
    "tx_receiver ?t = drop k (indexed (lk_posted l))" using run by (simp_all add: run_inv_def tx_inv_def)
  note nums = inv(2) [unfolded tx_nums_def]
  have "requeue_unacked ?d = Some ?d'" by (rule requeue_ok [where u = u]) (use nums in auto)
  moreover have "base_inv cd k A ?l"
  proof -
    have "?i \<noteq> j" if "rx_conn (lk_rx l) = Some j" for j using that inv(1) by (auto simp: base_inv_def rx_inv_def)
    then have "pending_inv ?l" using inv(1) by (fastforce simp: base_inv_def pending_inv_def)
    moreover have "rx_inv cd A ?l" using inv(1) by (auto simp: base_inv_def rx_inv_def less_SucI)
    moreover have "conn_inv cd A ?n (lk_conns ?l j)" for j using inv(1) by (auto simp: base_inv_def)
    ultimately show ?thesis using inv(1) by (simp add: base_inv_def)
  qed
  moreover have "tx_conn cd A ?n (largest ?l) a NoWrite (lk_conns ?l ?i)" using nums by (auto simp: tx_conn_def)
  then have "tx_inv cd A k a a ?l" using inv(4) nums by (auto simp: tx_inv_def tx_nums_def)
  ultimately show ?thesis using inv(3) run_link(1) [of cd k A a a ?l] by (simp add: set_tx_def connected_def run_inv_def)
qed

lemma begin_write_inv:
  assumes cd: "codec_ok cd" and run: "run_inv cd k A a u l" and ph: "tx_phase (lk_tx l) = Connected i NoWrite"
    "ox_deque (dl_outbox (tx_deliveries (lk_tx l))) \<noteq> []"
  shows "link_inv cd (set_tx (begin_write cd max_len i (lk_tx l)) l)"
proof -
  let ?t = "lk_tx l" and ?d = "tx_deliveries (lk_tx l)" and ?n = "nx_seq (rx_next (lk_rx l))"
  note A = tx_running [OF run]
  have inv: "base_inv cd k A l" "tx_nums cd A ?n a u ?d" "done_running A k a (tx_done ?t)"
    "tx_receiver ?t = drop k (indexed (lk_posted l))" "i < lk_count l" "tx_conn cd A ?n (largest l) u NoWrite (lk_conns l i)"
    using run ph(1) by (simp_all add: run_inv_def tx_inv_def)
  note nums = inv(2) [unfolded tx_nums_def]
  have u: "u < length A" using ph(2) nums by auto
  then have dq: "ox_deque (dl_outbox ?d) = queued_at cd A u # map (queued_at cd A) [Suc u..<length A]"
    using nums by (simp add: upt_conv_Cons)
  show ?thesis
  proof (cases "max_len < cd_frame_len cd (frame_at cd A u)")
    case False
    let ?l = "l\<lparr>lk_tx := ?t\<lparr>tx_phase := Connected i Writing\<rparr>\<rparr>"
    have "base_inv cd k A ?l" using inv(1) ph(1) by (auto simp: base_inv_def rx_inv_def pending_inv_def largest_def)
    moreover have "tx_conn cd A ?n (largest ?l) u Writing (lk_conns l i)" using inv(6) u by (simp add: tx_conn_def largest_def)
    ultimately have "run_inv cd k A a u ?l" using inv by (simp add: run_inv_def tx_inv_def)
    then show ?thesis using False dq run_link(1) by (simp add: begin_write_def set_tx_def Let_def)
  next
    case True
    define len where "len = cd_frame_len cd (frame_at cd A u)"
    let ?r = "OversizedFrame len max_len"
    let ?reject = "\<lambda>ss. map (try_return cd ?r) (map (queued_at cd A) ss)"
    let ?extra = "?reject [u] @ ?reject ([a..<u] @ [Suc u..<length A]) @
      map (\<lambda>(msg, sink). (sink, Rejected msg ?r)) (drop k (indexed (lk_posted l)))"
    have ret: "?reject ss = map (\<lambda>s. (snd (A ! s), Rejected (fst (A ! s)) ?r)) ss" if "\<forall>s \<in> set ss. s < length A" for ss
      by (rule returned [OF cd A(2) that])
    have r1: "?reject [u] = [(snd (A ! u), Rejected (fst (A ! u)) ?r)]" using ret [of "[u]"] u by simp
    have r2: "?reject ([a..<u] @ [Suc u..<length A]) = map (\<lambda>s. (snd (A ! s), Rejected (fst (A ! s)) ?r)) ([a..<u] @ [Suc u..<length A])"
      by (rule ret) (use u in auto)
    have fst3: "map fst (map (\<lambda>(msg, sink). (sink, Rejected msg ?r)) (drop k (indexed (lk_posted l)))) = [k..<length (lk_posted l)]"
    proof -
      have "map fst (map (\<lambda>(msg, sink). (sink, Rejected msg ?r)) (drop k (indexed (lk_posted l)))) = map snd (drop k (indexed (lk_posted l)))"
        by auto
      then show ?thesis by (simp flip: drop_map)
    qed
    have split: "[a..<length A] = [a..<u] @ u # [Suc u..<length A]"
    proof -
      have "[a..<length A] = [a..<u] @ [u..<length A]" using nums by (metis le_Suc_ex upt_add_eq_append)
      then show ?thesis using u by (simp add: upt_conv_Cons)
    qed
    define e2 where "e2 = ?reject ([a..<u] @ [Suc u..<length A])"
    have "map fst e2 = map (\<lambda>s. snd (A ! s)) ([a..<u] @ [Suc u..<length A])" unfolding e2_def r2 by simp
    then have "map fst ?extra = snd (A ! u) # map (\<lambda>s. snd (A ! s)) ([a..<u] @ [Suc u..<length A]) @ [k..<length (lk_posted l)]"
      unfolding e2_def [symmetric] r1 unfolding map_append fst3 by simp
    then have "mset (map fst ?extra) =
        mset (snd (A ! u) # map (\<lambda>s. snd (A ! s)) ([a..<u] @ [Suc u..<length A]) @ [k..<length (lk_posted l)])" by (rule arg_cong)
    also have "\<dots> = mset (map (\<lambda>s. snd (A ! s)) [a..<length A] @ [k..<length (lk_posted l)])" unfolding split by simp
    finally have "mset (map fst ?extra) = mset (map (\<lambda>s. snd (A ! s)) [a..<length A] @ [k..<length (lk_posted l)])" .
    moreover have "Accepted \<notin> snd ` set ?extra" unfolding r1 r2 by auto
    moreover have "m = lk_posted l ! j" if "(j, Rejected m x) \<in> set ?extra" for j m x
    proof -
      have item: "fst (A ! s) = lk_posted l ! snd (A ! s)" if "s < length A" for s using that A(2) taken_item by blast
      from that show ?thesis unfolding r1 r2 using item nums u by (auto dest!: in_set_dropD indexed_item)
    qed
    ultimately have "done_closed A k ?n (lk_posted l) (tx_done ?t @ ?extra)"
      using done_close [OF A(3,4) inv(3)] nums A(1) by (meson le_trans)
    moreover have "begin_write cd max_len i ?t = Some (?t\<lparr>tx_deliveries := \<lparr>dl_outbox = (dl_outbox ?d)\<lparr>ox_deque := []\<rparr>,
        dl_unacked = (dl_unacked ?d)\<lparr>ua_deque := []\<rparr>\<rparr>, tx_receiver := [], tx_phase := ClosedTx ?r, tx_done := tx_done ?t @ ?extra\<rparr>)"
      using True dq inv(4) nums by (simp add: begin_write_def Let_def after_send_def is_terminal_def classify_send_loop_error_def
          close_tx_def set_deliveries_def len_def)
    ultimately show ?thesis
      using base_inv_closed [OF inv(1)] run_link(2) [of cd k A] by (simp add: set_tx_def end_inv_def)
  qed
qed

declare upt_Suc [simp del]

lemma on_wire_inv:
  assumes run: "run_inv cd k A a u l" and ph: "tx_phase (lk_tx l) = Connected i Writing"
    "ox_deque (dl_outbox (tx_deliveries (lk_tx l))) = msg # rest"
  shows "link_inv cd (put_out i (q_message msg) (l\<lparr>lk_tx := (lk_tx l)\<lparr>tx_phase := Connected i OnWire\<rparr>\<rparr>))"
proof -
  let ?t = "lk_tx l" and ?d = "tx_deliveries (lk_tx l)" and ?n = "nx_seq (rx_next (lk_rx l))" and ?c = "lk_conns l i"
  have inv: "base_inv cd k A l" "tx_nums cd A ?n a u ?d" "done_running A k a (tx_done ?t)"
    "tx_receiver ?t = drop k (indexed (lk_posted l))" "i < lk_count l" "tx_conn cd A ?n (largest l) u Writing ?c"
    using run ph(1) by (simp_all add: run_inv_def tx_inv_def)
  have u: "u < length A" using inv(6) by (simp add: tx_conn_def)
  have msg: "q_message msg = frame_at cd A u" using inv(2) ph(2) u by (auto simp: tx_nums_def upt_conv_Cons)
  define c where "c = (if cn_cut ?c then ?c else ?c\<lparr>cn_out := cn_out ?c @ [frame_at cd A u]\<rparr>)"
  let ?l = "l\<lparr>lk_tx := ?t\<lparr>tx_phase := Connected i OnWire\<rparr>, lk_conns := (lk_conns l)(i := c)\<rparr>"
  have l: "put_out i (q_message msg) (l\<lparr>lk_tx := ?t\<lparr>tx_phase := Connected i OnWire\<rparr>\<rparr>) = ?l"
    by (simp add: put_out_def msg c_def Let_def)
  have c: "cn_in c = cn_in ?c" "cn_cut c = cn_cut ?c" by (simp_all add: c_def)
  have out: "\<exists>r \<le> ?n. cn_out c = map (frame_at cd A) [r..<Suc u] \<and> r \<le> Suc u" if "\<not> cn_cut c"
  proof -
    have up: "\<not> cn_cut ?c" using that c(2) by simp
    with inv(6) obtain r where r: "r \<le> ?n" "cn_out ?c = map (frame_at cd A) [r..<u]" "r \<le> u"
      by (auto simp: tx_conn_def)
    then have "cn_out c = map (frame_at cd A) [r..<Suc u]" using up by (simp add: c_def upt_Suc)
    then show ?thesis using r by auto
  qed
  have old: "conn_inv cd A ?n ?c" using inv(1) by (auto simp: base_inv_def)
  have "conn_inv cd A ?n c"
  proof (cases "cn_cut ?c")
    case False
    with out c(2) obtain r where "r \<le> ?n" "cn_out c = map (frame_at cd A) [r..<Suc u]" "r \<le> Suc u" by auto
    then have "\<exists>r w. cn_out c = map (frame_at cd A) [r..<w] \<and> r \<le> ?n \<and> r \<le> w \<and> w \<le> length A"
      using u by (metis Suc_leI)
    then show ?thesis using old c(1) by (simp add: conn_inv_def)
  qed (use old in \<open>simp add: c_def\<close>)
  then have "base_inv cd k A ?l"
    using inv(1) ph(1) c(1) by (auto simp: base_inv_def rx_inv_def pending_inv_def largest_def)
  moreover have "tx_conn cd A ?n (largest ?l) u OnWire c" using inv(6) u out c by (auto simp: tx_conn_def largest_def)
  ultimately have "run_inv cd k A a u ?l" using inv by (simp add: run_inv_def tx_inv_def)
  then show ?thesis using run_link(1) l by simp
qed

lemma write_done_inv:
  fixes l :: "('m, 'b) link"
  assumes run: "run_inv cd k A a u l" and ph: "tx_phase (lk_tx l) = Connected i OnWire"
  shows "link_inv cd (set_tx (write_done i (lk_tx l)) l)"
proof -
  let ?t = "lk_tx l" and ?d = "tx_deliveries (lk_tx l)" and ?n = "nx_seq (rx_next (lk_rx l))" and ?c = "lk_conns l i"
  note A = tx_running [OF run]
  have inv: "base_inv cd k A l" "tx_nums cd A ?n a u ?d" "done_running A k a (tx_done ?t)"
    "tx_receiver ?t = drop k (indexed (lk_posted l))" "i < lk_count l" "tx_conn cd A ?n (largest l) u OnWire ?c"
    using run ph(1) by (simp_all add: run_inv_def tx_inv_def)
  note nums = inv(2) [unfolded tx_nums_def]
  have u: "u < length A" using inv(6) by (simp add: tx_conn_def)
  then have dq: "ox_deque (dl_outbox ?d) = queued_at cd A u # map (queued_at cd A) [Suc u..<length A]"
    using nums by (simp add: upt_conv_Cons)
  let ?new = "\<lambda>ua dn. ?t\<lparr>tx_deliveries := \<lparr>dl_outbox = (dl_outbox ?d)\<lparr>ox_deque := map (queued_at cd A) [Suc u..<length A]\<rparr>,
    dl_unacked = ua\<rparr>, tx_done := tx_done ?t @ dn, tx_phase := Connected i NoWrite\<rparr>"
  have base: "base_inv cd k A (l\<lparr>lk_tx := ?new ua dn\<rparr>)" if "ua_largest_acked ua = largest l" for ua dn
    using inv(1) ph(1) that by (auto simp: base_inv_def rx_inv_def pending_inv_def largest_def)
  have conn: "tx_conn cd A ?n (largest l) (Suc u) NoWrite ?c" using inv(6) by (auto simp: tx_conn_def)
  have push: "unacked_push_back (queued_at cd A u) (dl_unacked ?d) =
    (if \<exists>x. largest l = Some x \<and> u \<le> x then Some (dl_unacked ?d, [(snd (A ! u), Accepted)])
     else Some ((dl_unacked ?d)\<lparr>ua_deque := map (queued_at cd A) [a..<Suc u]\<rparr>, [] :: 'm completions))"
    unfolding largest_def by (rule unacked_push_back_ok) (use nums in auto)
  show ?thesis
  proof (cases "\<exists>x. largest l = Some x \<and> u \<le> x")
    case True
    then have a: "a = u" "Suc u \<le> ?n" using nums by (auto simp: largest_def)
    have "done_running A k (Suc u) (tx_done ?t @ [(snd (A ! u), Accepted)])"
      using done_append [OF A(3,4) inv(3), of "Suc u"] u a(1) by (simp add: upt_Suc)
    moreover have "tx_inv cd A k (Suc u) (Suc u) (l\<lparr>lk_tx := ?new (dl_unacked ?d) [(snd (A ! u), Accepted)]\<rparr>)"
      using inv(4,5) conn nums a u by (auto simp: tx_inv_def tx_nums_def largest_def)
    ultimately have "run_inv cd k A (Suc u) (Suc u) (l\<lparr>lk_tx := ?new (dl_unacked ?d) [(snd (A ! u), Accepted)]\<rparr>)"
      using base [of "dl_unacked ?d"] by (simp add: run_inv_def largest_def)
    then show ?thesis using run_link(1) dq push True by (simp add: write_done_def set_tx_def set_deliveries_def Let_def)
  next
    case False
    let ?ua = "(dl_unacked ?d)\<lparr>ua_deque := map (queued_at cd A) [a..<Suc u]\<rparr>"
    have "tx_inv cd A k a (Suc u) (l\<lparr>lk_tx := ?new ?ua []\<rparr>)"
      using inv(4,5) conn nums u False by (force simp: tx_inv_def tx_nums_def largest_def)
    then have "run_inv cd k A a (Suc u) (l\<lparr>lk_tx := ?new ?ua []\<rparr>)"
      using base [of ?ua "[]"] inv(3) by (simp add: run_inv_def largest_def)
    then show ?thesis using run_link(1) dq push False by (simp add: write_done_def set_tx_def set_deliveries_def Let_def)
  qed
qed

lemma response_inv:
  fixes l :: "('m, 'b) link"
  assumes cd: "codec_ok cd" and run: "run_inv cd k A a u l" and ph: "tx_phase (lk_tx l) = Connected i ws"
    "cn_in (lk_conns l i) = r # rs"
  shows "link_inv cd (set_tx (on_response cd r (lk_tx l))
    (l\<lparr>lk_conns := (lk_conns l)(i := (lk_conns l i)\<lparr>cn_in := rs\<rparr>)\<rparr>))"
proof -
  let ?t = "lk_tx l" and ?d = "tx_deliveries (lk_tx l)" and ?n = "nx_seq (rx_next (lk_rx l))" and ?c = "lk_conns l i"
  let ?c' = "?c\<lparr>cn_in := rs\<rparr>" and ?l = "l\<lparr>lk_conns := (lk_conns l)(i := (lk_conns l i)\<lparr>cn_in := rs\<rparr>)\<rparr>"
  note A = tx_running [OF run]
  have inv: "base_inv cd k A l" "tx_nums cd A ?n a u ?d" "done_running A k a (tx_done ?t)"
    "tx_receiver ?t = drop k (indexed (lk_posted l))" "i < lk_count l" "tx_conn cd A ?n (largest l) u ws ?c"
    using run ph(1) by (simp_all add: run_inv_def tx_inv_def)
  note nums = inv(2) [unfolded tx_nums_def]
  have old: "conn_inv cd A ?n ?c" using inv(1) by (auto simp: base_inv_def)
  have acks: "set (acks_of rs) \<subseteq> set (acks_of (cn_in ?c))" using ph(2) by (cases r) auto
  have c': "conn_inv cd A ?n ?c'" using old ph(2) acks by (cases r) (auto simp: conn_inv_def)
  have base: "base_inv cd k A ?l" using inv(1) c' ph(1) acks by (fastforce simp: base_inv_def rx_inv_def pending_inv_def largest_def)
  have conn: "tx_conn cd A ?n (largest l) u ws ?c'" using inv(6) acks by (auto simp: tx_conn_def)
  have run': "run_inv cd k A a u ?l" using base inv conn run ph(1) by (auto simp: run_inv_def tx_inv_def largest_def)
  show ?thesis
  proof (cases r)
    case (Reject s)
    then show ?thesis using old ph(2) by (auto simp: conn_inv_def)
  next
    case ClosedRx
    then show ?thesis using after_send_inv [OF cd run', of "Some ServerClosed"] by (simp add: on_response_def set_tx_def)
  next
    case (Ack v)
    have v: "v < ?n" "sorted (v # acks_of rs)" "\<forall>x. largest l = Some x \<longrightarrow> x \<le> v"
      using old inv(6) ph(2) Ack by (auto simp: conn_inv_def tx_conn_def)
    let ?a = "max a (min u (Suc v))"
    let ?ua = "\<lparr>ua_deque = map (queued_at cd A) [?a..<u], ua_largest_acked = Some v\<rparr>"
    let ?dn = "map (\<lambda>s. (snd (A ! s), Accepted)) [a..<?a] :: 'm completions"
    have "prune_loop v (ua_deque (dl_unacked ?d)) = (map (queued_at cd A) [?a..<u], ?dn)"
      using nums by (simp add: prune_loop_ok)
    then have prune: "unacked_prune v (dl_unacked ?d) = Some (?ua, ?dn)"
      using v(3) by (auto simp: unacked_prune_def largest_def split: option.splits)
    let ?t' = "set_deliveries (?d\<lparr>dl_unacked := ?ua\<rparr>) ?dn ?t"
    have "base_inv cd k A (?l\<lparr>lk_tx := ?t'\<rparr>)"
    proof -
      have "v \<le> w" if "rx_pending (lk_rx l) = Some (w, s)" "rx_conn (lk_rx l) = Some i" for w s
        using inv(1) that ph Ack by (auto simp: base_inv_def pending_inv_def)
      then have "pending_inv (?l\<lparr>lk_tx := ?t'\<rparr>)"
        using base ph(1) by (auto simp: base_inv_def pending_inv_def largest_def set_deliveries_def)
      then show ?thesis by (rule base_inv_tx [OF base])
    qed
    moreover have "tx_nums cd A ?n ?a u (?d\<lparr>dl_unacked := ?ua\<rparr>)" using nums v(1) by (auto simp: tx_nums_def)
    moreover have "tx_conn cd A ?n (Some v) u ws ?c'" using conn v(2) by (auto simp: tx_conn_def)
    moreover have "done_running A k ?a (tx_done ?t @ ?dn)" by (rule done_append [OF A(3,4) inv(3)]) (use nums in auto)
    ultimately have "run_inv cd k A ?a u (?l\<lparr>lk_tx := ?t'\<rparr>)"
      using inv(4,5) ph(1) by (auto simp: run_inv_def tx_inv_def largest_def set_deliveries_def)
    then show ?thesis using run_link(1) prune Ack by (simp add: on_response_def set_tx_def)
  qed
qed

lemma post_inv:
  assumes "link_inv cd l"
  shows "link_inv cd (l\<lparr>lk_tx := do_post m (length (lk_posted l)) (lk_tx l), lk_posted := lk_posted l @ [m]\<rparr>)"
proof -
  let ?l = "l\<lparr>lk_tx := do_post m (length (lk_posted l)) (lk_tx l), lk_posted := lk_posted l @ [m]\<rparr>"
  have base: "base_inv cd k A ?l" if "base_inv cd k A l" for k A
  proof -
    have "tx_deliveries (do_post m j t) = tx_deliveries t" "tx_phase (do_post m j t) = tx_phase t" for j and t :: "('a, 'b) tx"
      by (simp_all add: do_post_def split: tx_phase.splits)
    moreover have "taken cd k (lk_posted l @ [m]) = taken cd k (lk_posted l)"
      by (rule taken_simps(1)) (use that in \<open>simp add: base_inv_def\<close>)
    ultimately show ?thesis using that unfolding base_inv_def rx_inv_def pending_inv_def largest_def by force
  qed
  from assms obtain k A where "(\<exists>a u. run_inv cd k A a u l) \<or> end_inv cd k A l" unfolding link_inv_def by blast
  then show ?thesis
  proof
    assume "\<exists>a u. run_inv cd k A a u l"
    then obtain a u where run: "run_inv cd k A a u l" by blast
    then have "k \<le> length (lk_posted l)" by (simp add: run_inv_def base_inv_def)
    then have "run_inv cd k A a u ?l" using run base [of k A]
      by (auto simp: run_inv_def tx_inv_def do_post_def largest_def split: tx_phase.splits)
    then show ?thesis by (rule run_link)
  next
    assume e: "end_inv cd k A l"
    then obtain reason where "tx_phase (lk_tx l) = ClosedTx reason" by (auto simp: end_inv_def)
    moreover have "j < length (lk_posted l)" if "(j, c) \<in> set (tx_done (lk_tx l))" for j c
    proof -
      have "fst ` set (tx_done (lk_tx l)) = {..<length (lk_posted l)}" using e by (simp add: end_inv_def done_closed_def)
      moreover have "j \<in> fst ` set (tx_done (lk_tx l))" using that by force
      ultimately show ?thesis by blast
    qed
    ultimately have "end_inv cd k A ?l" using e base [of k A]
      by (auto simp: end_inv_def do_post_def done_closed_def lessThan_Suc nth_append)
    then show ?thesis by (rule run_link)
  qed
qed

end
