(* ===== verification/Channel_Runs.thy ===== *)
theory Channel_Runs
  imports Channel_Link
begin

text \<open>
  The steps of the receiving task and of the network keep the invariant of the channel, and so do
  all runs.
\<close>

section \<open>Steps of the receiver and the network\<close>

definition largest_ok :: "('m, 'b) link \<Rightarrow> bool" where
  "largest_ok l \<longleftrightarrow> (\<forall>i ws x. tx_phase (lk_tx l) = Connected i ws \<longrightarrow> largest l = Some x \<longrightarrow> x < nx_seq (rx_next (lk_rx l)))"

lemma tx_nums_mono: "tx_nums cd A n a u d \<Longrightarrow> n \<le> n' \<Longrightarrow> tx_nums cd A n' a u d"
  by (auto simp: tx_nums_def)

lemma done_closed_mono: "done_closed A k n ms dn \<Longrightarrow> n \<le> n' \<Longrightarrow> done_closed A k n' ms dn"
  unfolding done_closed_def by (meson less_le_trans)

lemma rx_step:
  assumes inv: "link_inv cd l"
    and same: "lk_tx l' = lk_tx l" "lk_posted l' = lk_posted l" "lk_count l' = lk_count l"
      "nx_seq (rx_next (lk_rx l)) \<le> nx_seq (rx_next (lk_rx l'))"
    and base: "\<And>k A. base_inv cd k A l \<Longrightarrow> largest_ok l \<Longrightarrow> base_inv cd k A l'"
    and conn: "\<And>k A u i ws. base_inv cd k A l \<Longrightarrow> largest_ok l \<Longrightarrow> u \<le> length A \<Longrightarrow> tx_phase (lk_tx l) = Connected i ws \<Longrightarrow>
      tx_conn cd A (nx_seq (rx_next (lk_rx l))) (largest l) u ws (lk_conns l i) \<Longrightarrow>
      tx_conn cd A (nx_seq (rx_next (lk_rx l'))) (largest l) u ws (lk_conns l' i)"
  shows "link_inv cd l'"
proof -
  have large: "largest l' = largest l" using same(1) by (simp add: largest_def)
  from inv obtain k A where "(\<exists>a u. run_inv cd k A a u l) \<or> end_inv cd k A l" unfolding link_inv_def by blast
  then show ?thesis
  proof
    assume "\<exists>a u. run_inv cd k A a u l"
    then obtain a u where run: "run_inv cd k A a u l" by blast
    then have b: "base_inv cd k A l" and nums: "tx_nums cd A (nx_seq (rx_next (lk_rx l))) a u (tx_deliveries (lk_tx l))"
      by (simp_all add: run_inv_def tx_inv_def)
    have ok: "largest_ok l" using nums by (simp add: largest_ok_def largest_def tx_nums_def)
    have "tx_inv cd A k a u l'"
      using run conn [OF b ok] tx_nums_mono [OF nums same(4)] nums large same(1,2,3)
      by (simp add: run_inv_def tx_inv_def tx_nums_def)
    then have "run_inv cd k A a u l'" using run base [OF b ok] same(1) by (simp add: run_inv_def)
    then show ?thesis by (rule run_link)
  next
    assume e: "end_inv cd k A l"
    then have "base_inv cd k A l" "largest_ok l" by (auto simp: end_inv_def largest_ok_def)
    moreover have "done_closed A k (nx_seq (rx_next (lk_rx l'))) (lk_posted l) (tx_done (lk_tx l))"
      using done_closed_mono [OF _ same(4)] e unfolding end_inv_def by blast
    ultimately have "end_inv cd k A l'" using e base same(1,2) by (simp add: end_inv_def)
    then show ?thesis by (rule run_link)
  qed
qed

text \<open>Steps that neither deliver nor touch a connection.\<close>

lemma rx_only:
  assumes "link_inv cd l" "nx_seq (rx_next (lk_rx l')) = nx_seq (rx_next (lk_rx l))"
    "lk_tx l' = lk_tx l" "lk_posted l' = lk_posted l" "lk_count l' = lk_count l" "lk_conns l' = lk_conns l"
    "\<And>k A. base_inv cd k A l \<Longrightarrow> largest_ok l \<Longrightarrow> base_inv cd k A l'"
  shows "link_inv cd l'"
  by (rule rx_step [OF assms(1)]) (use assms in auto)

lemma arrive_inv:
  assumes "link_inv cd l" "i \<in> set (lk_arriving l)"
  shows "link_inv cd (l\<lparr>lk_rx := (lk_rx l)\<lparr>rx_waiting := rx_waiting (lk_rx l) @ [i]\<rparr>, lk_arriving := remove1 i (lk_arriving l)\<rparr>)"
  by (rule rx_only [OF assms(1)])
    (use assms(2) set_remove1_subset [of i "lk_arriving l"] in \<open>auto simp: base_inv_def rx_inv_def pending_inv_def largest_def\<close>)

lemma take_conn_inv:
  assumes "link_inv cd l" "rx_conn (lk_rx l) = None"
  shows "link_inv cd (l\<lparr>lk_rx := next_connection (lk_rx l)\<rparr>)"
  by (rule rx_only [OF assms(1)])
    (use assms(2) in \<open>auto simp: base_inv_def rx_inv_def pending_inv_def next_connection_def largest_def split: list.splits\<close>)

lemma shutdown_inv:
  assumes "link_inv cd l"
  shows "link_inv cd (l\<lparr>lk_rx := (lk_rx l)\<lparr>rx_open := False\<rparr>\<rparr>)"
  by (rule rx_only [OF assms]) (auto simp: base_inv_def rx_inv_def pending_inv_def largest_def)

lemma begin_ack_inv:
  assumes "link_inv cd l" "rx_conn (lk_rx l) = Some i" "0 < interval"
  shows "link_inv cd (set_rx (begin_ack interval elapsed (lk_rx l)) l)"
proof (cases "rx_pending (lk_rx l) = None \<and> ack_behind interval elapsed (rx_next (lk_rx l))")
  case True
  let ?n = "nx_seq (rx_next (lk_rx l))"
  have n: "0 < ?n" using True assms(3) by (auto simp: ack_behind_def)
  have "set_rx (begin_ack interval elapsed (lk_rx l)) l = l\<lparr>lk_rx := (lk_rx l)\<lparr>rx_pending := Some (?n - 1, ?n)\<rparr>\<rparr>"
    using True n by (simp add: begin_ack_def set_rx_def)
  moreover have "link_inv cd (l\<lparr>lk_rx := (lk_rx l)\<lparr>rx_pending := Some (?n - 1, ?n)\<rparr>\<rparr>)"
  proof (rule rx_only [OF assms(1)])
    fix k A
    assume b: "base_inv cd k A l" "largest_ok l"
    have "pending_inv (l\<lparr>lk_rx := (lk_rx l)\<lparr>rx_pending := Some (?n - 1, ?n)\<rparr>\<rparr>)"
    proof -
      have "conn_inv cd A ?n (lk_conns l i)" using b(1) by (auto simp: base_inv_def)
      then have "x \<le> ?n - 1" if "x \<in> set (acks_of (cn_in (lk_conns l i)))" for x
        using that by (fastforce simp: conn_inv_def)
      moreover have "x \<le> ?n - 1" if "tx_phase (lk_tx l) = Connected i ws" "largest l = Some x" for ws x
        using b(2) that by (fastforce simp: largest_ok_def)
      ultimately show ?thesis using assms(2) n by (auto simp: pending_inv_def largest_def)
    qed
    then show "base_inv cd k A (l\<lparr>lk_rx := (lk_rx l)\<lparr>rx_pending := Some (?n - 1, ?n)\<rparr>\<rparr>)"
      using b(1) by (auto simp: base_inv_def rx_inv_def)
  qed simp_all
  ultimately show ?thesis by simp
qed (use assms in \<open>auto simp: begin_ack_def set_rx_def\<close>)

text \<open>Responses written on the connection the task serves: acknowledgements of numbers that are
  delivered, not smaller than what the sender has seen there.\<close>

lemma put_in_simps [simp]:
  "lk_tx (put_in i rs l) = lk_tx l" "lk_rx (put_in i rs l) = lk_rx l" "lk_posted (put_in i rs l) = lk_posted l"
  "lk_count (put_in i rs l) = lk_count l" "lk_arriving (put_in i rs l) = lk_arriving l" "lk_failed (put_in i rs l) = lk_failed l"
  "lk_conns (put_in i rs l) j = (if j = i \<and> \<not> cn_cut (lk_conns l i) then (lk_conns l i)\<lparr>cn_in := cn_in (lk_conns l i) @ rs\<rparr> else lk_conns l j)"
  by (simp_all add: put_in_def Let_def)

lemma largest_put_in [simp]: "largest (put_in i rs l) = largest l" "largest (l\<lparr>lk_rx := r\<rparr>) = largest l"
  by (simp_all add: largest_def)

definition answer_ok :: "nat \<Rightarrow> nat \<Rightarrow> net_rx_response list \<Rightarrow> ('m, 'b) link \<Rightarrow> bool" where
  "answer_ok i v rs l \<longleftrightarrow> (\<forall>s. Reject s \<notin> set rs) \<and> set (acks_of rs) \<subseteq> {v} \<and> sorted (acks_of rs) \<and>
     (acks_of rs \<noteq> [] \<longrightarrow> v < nx_seq (rx_next (lk_rx l)) \<and> (\<forall>x \<in> set (acks_of (cn_in (lk_conns l i))). x \<le> v) \<and>
       (\<forall>ws x. tx_phase (lk_tx l) = Connected i ws \<longrightarrow> largest l = Some x \<longrightarrow> x \<le> v))"

lemma put_in_conn_inv:
  assumes "conn_inv cd A (nx_seq (rx_next (lk_rx l))) (lk_conns l j)" "answer_ok i v rs l"
  shows "conn_inv cd A (nx_seq (rx_next (lk_rx l))) (lk_conns (put_in i rs l) j)"
proof (cases "j = i \<and> acks_of rs \<noteq> []")
  case True
  then show ?thesis using assms by (auto simp: conn_inv_def answer_ok_def sorted_append)
qed (use assms in \<open>auto simp: conn_inv_def answer_ok_def\<close>)

lemma put_in_tx_conn:
  assumes "tx_conn cd A n (largest l) u ws (lk_conns l j)" "answer_ok i v rs l" "tx_phase (lk_tx l) = Connected j ws"
  shows "tx_conn cd A n (largest l) u ws (lk_conns (put_in i rs l) j)"
proof (cases "j = i \<and> acks_of rs \<noteq> []")
  case True
  then have "\<forall>x. largest l = Some x \<longrightarrow> (\<forall>w \<in> set (acks_of rs). x \<le> w)" using assms(2,3) by (auto simp: answer_ok_def)
  then show ?thesis using assms(1) True by (auto simp: tx_conn_def)
qed (use assms(1) in \<open>auto simp: tx_conn_def\<close>)

lemma put_in_inv:
  assumes "link_inv cd l" "nx_seq (rx_next r) = nx_seq (rx_next (lk_rx l))"
    and ok: "\<And>k A. base_inv cd k A l \<Longrightarrow> largest_ok l \<Longrightarrow> answer_ok i v rs l"
    and rx: "\<And>k A. base_inv cd k A l \<Longrightarrow> largest_ok l \<Longrightarrow> rx_inv cd A (l\<lparr>lk_rx := r\<rparr>) \<and> pending_inv (put_in i rs (l\<lparr>lk_rx := r\<rparr>))"
  shows "link_inv cd (put_in i rs (l\<lparr>lk_rx := r\<rparr>))"
proof (rule rx_step [OF assms(1)])
  fix k A
  assume b: "base_inv cd k A l" "largest_ok l"
  have "conn_inv cd A (nx_seq (rx_next (lk_rx l))) (lk_conns (put_in i rs (l\<lparr>lk_rx := r\<rparr>)) j)" for j
    using put_in_conn_inv [OF _ ok [OF b], of cd A j] b(1) by (auto simp: base_inv_def)
  then show "base_inv cd k A (put_in i rs (l\<lparr>lk_rx := r\<rparr>))"
    using b(1) rx [OF b] assms(2) unfolding base_inv_def rx_inv_def by auto
next
  fix k A u j ws
  assume b: "base_inv cd k A l" "largest_ok l" and "tx_phase (lk_tx l) = Connected j ws"
    "tx_conn cd A (nx_seq (rx_next (lk_rx l))) (largest l) u ws (lk_conns l j)"
  then have "tx_conn cd A (nx_seq (rx_next (lk_rx l))) (largest l) u ws (lk_conns (put_in i rs l) j)"
    using put_in_tx_conn [OF _ ok [OF b]] by blast
  moreover have "lk_conns (put_in i rs (l\<lparr>lk_rx := r\<rparr>)) = lk_conns (put_in i rs l)" by (rule ext) simp
  ultimately show "tx_conn cd A (nx_seq (rx_next (lk_rx (put_in i rs (l\<lparr>lk_rx := r\<rparr>))))) (largest l) u ws (lk_conns (put_in i rs (l\<lparr>lk_rx := r\<rparr>)) j)"
    using assms(2) by (simp del: put_in_simps(7))
qed (use assms(2) in simp_all)

text \<open>The pending acknowledgement.\<close>

lemma pending_response:
  assumes "rx_conn (lk_rx l) = Some i" "rx_pending (lk_rx l) = Some (v, s)" "base_inv cd k A l"
  shows "answer_ok i v [Ack v] l" "s = Suc v" "v < nx_seq (rx_next (lk_rx l))"
proof -
  have p: "pending_inv l" using assms(3) by (simp add: base_inv_def)
  then show "s = Suc v" "v < nx_seq (rx_next (lk_rx l))" using assms(1,2) unfolding pending_inv_def by blast+
  then show "answer_ok i v [Ack v] l" using p assms(1,2) unfolding pending_inv_def answer_ok_def by simp
qed

lemma ack_written_inv:
  assumes "link_inv cd l" "rx_conn (lk_rx l) = Some i" "rx_pending (lk_rx l) = Some (v, s)"
  shows "link_inv cd (put_in i [Ack v] (l\<lparr>lk_rx := ack_written (lk_rx l)\<rparr>))"
proof (rule put_in_inv [OF assms(1)])
  fix k A
  assume b: "base_inv cd k A l"
  note p = pending_response [OF assms(2,3) b]
  show "answer_ok i v [Ack v] l" by (rule p)
  show "rx_inv cd A (l\<lparr>lk_rx := ack_written (lk_rx l)\<rparr>) \<and> pending_inv (put_in i [Ack v] (l\<lparr>lk_rx := ack_written (lk_rx l)\<rparr>))"
    using b p(2,3) assms(3) by (auto simp: ack_written_def base_inv_def rx_inv_def pending_inv_def)
qed (use assms(3) in \<open>simp add: ack_written_def\<close>)

lemma ack_half_inv:
  assumes "link_inv cd l" "rx_conn (lk_rx l) = Some i" "rx_pending (lk_rx l) = Some (v, s)"
  shows "link_inv cd (put_in i [Ack v] l)"
proof -
  have "link_inv cd (put_in i [Ack v] (l\<lparr>lk_rx := lk_rx l\<rparr>))"
  proof (rule put_in_inv [OF assms(1)])
    fix k A
    assume b: "base_inv cd k A l"
    show "answer_ok i v [Ack v] l" by (rule pending_response [OF assms(2,3) b])
    then show "rx_inv cd A (l\<lparr>lk_rx := lk_rx l\<rparr>) \<and> pending_inv (put_in i [Ack v] (l\<lparr>lk_rx := lk_rx l\<rparr>))"
      using b assms(2,3) by (auto simp: base_inv_def pending_inv_def)
  qed simp
  then show ?thesis by simp
qed

lemma end_recv_inv:
  assumes "link_inv cd l" "result \<in> {None, Some RecvIo, Some Cancelled}"
  shows "link_inv cd (end_recv i result ack_ok response_ok l)"
proof -
  let ?n = "nx_seq (rx_next (lk_rx l))"
  obtain rs r where r: "after_recv result ack_ok response_ok (lk_rx l) = (rs, r)" by fastforce
  have rx: "nx_seq (rx_next r) = ?n" "nx_ack (rx_next r) \<in> {nx_ack (rx_next (lk_rx l)), ?n}" "rx_conn r = None" "rx_pending r = None"
    "rx_waiting r = rx_waiting (lk_rx l)" "rx_delivered r = rx_delivered (lk_rx l)"
    and rs: "set rs \<subseteq> {Ack (?n - 1), ClosedRx}" "length (acks_of rs) \<le> 1" "acks_of rs \<noteq> [] \<Longrightarrow> 0 < ?n"
    using r assms(2) by (auto simp: after_recv_def final_ack_def terminal_response_def split: if_splits)
  have "set (acks_of rs) \<subseteq> {?n - 1}" using rs(1) by (induction rs) auto
  moreover have "sorted (acks_of rs)" using rs(2) by (cases "acks_of rs") auto
  ultimately have acks: "set (acks_of rs) \<subseteq> {?n - 1}" "sorted (acks_of rs)" by simp_all
  have "link_inv cd (put_in i rs (l\<lparr>lk_rx := r\<rparr>))"
  proof (rule put_in_inv [OF assms(1) rx(1)])
    fix k A
    assume b: "base_inv cd k A l" "largest_ok l"
    then have "conn_inv cd A ?n (lk_conns l i)" by (auto simp: base_inv_def)
    then have "\<forall>x \<in> set (acks_of (cn_in (lk_conns l i))). x \<le> ?n - 1" by (fastforce simp: conn_inv_def)
    moreover have "x \<le> ?n - 1" if "tx_phase (lk_tx l) = Connected i ws" "largest l = Some x" for ws x
      using b(2) that by (fastforce simp: largest_ok_def)
    ultimately show "answer_ok i (?n - 1) rs l" using acks rs(1,3) by (auto simp: answer_ok_def)
    show "rx_inv cd A (l\<lparr>lk_rx := r\<rparr>) \<and> pending_inv (put_in i rs (l\<lparr>lk_rx := r\<rparr>))"
      using b(1) rx by (auto simp: base_inv_def rx_inv_def pending_inv_def)
  qed
  then show ?thesis using r by (simp add: end_recv_def)
qed

text \<open>A frame at the head of a connection.\<close>

lemma head_frame:
  assumes "codec_ok cd" "A = taken cd k ms" "map (frame_at cd A) [r..<w] = b # bs" "w \<le> length A"
  shows "cd_deserialize cd b = Some (r, fst (A ! r))" "r < w" "bs = map (frame_at cd A) [Suc r..<w]" "r < length A"
proof -
  show r: "r < w" using assms(3) by (cases "r < w") auto
  then show "bs = map (frame_at cd A) [Suc r..<w]" using assms(3) by (simp add: upt_conv_Cons)
  show "r < length A" using r assms(4) by simp
  then show "cd_deserialize cd b = Some (r, fst (A ! r))"
    using assigned_frame(2) [of cd A "take k (indexed ms)" r] assms(1-3) r by (simp add: taken_def upt_conv_Cons)
qed

lemma head_conn:
  assumes "codec_ok cd" "base_inv cd k A l" "cn_out (lk_conns l i) = b # bs"
  obtains r w where "cd_deserialize cd b = Some (r, fst (A ! r))" "r \<le> nx_seq (rx_next (lk_rx l))" "r < length A"
    "bs = map (frame_at cd A) [Suc r..<w]" "Suc r \<le> w" "w \<le> length A"
proof -
  have c: "conn_inv cd A (nx_seq (rx_next (lk_rx l))) (lk_conns l i)" "A = taken cd k (lk_posted l)"
    using assms(2) by (auto simp: base_inv_def)
  obtain r w where rw: "map (frame_at cd A) [r..<w] = b # bs" "r \<le> nx_seq (rx_next (lk_rx l))" "w \<le> length A"
    using c(1) assms(3) unfolding conn_inv_def by metis
  show ?thesis using that [of r w] head_frame [OF assms(1) c(2) rw(1,3)] rw(2,3) by simp
qed

lemma recv_never_fails:
  assumes "codec_ok cd" "link_inv cd l" "cn_out (lk_conns l i) = b # bs"
  shows "recv_frame cd b (lk_rx l) \<noteq> Inl e"
proof -
  obtain k A where "base_inv cd k A l" using assms(2) by (auto simp: link_inv_def run_inv_def end_inv_def)
  then obtain r where "cd_deserialize cd b = Some (r, fst (A ! r))" "r \<le> nx_seq (rx_next (lk_rx l))"
    using head_conn [OF assms(1) _ assms(3)] by metis
  then show ?thesis by (simp add: recv_frame_def)
qed

lemma receive_inv:
  assumes cd: "codec_ok cd" and inv: "link_inv cd l" and conn: "rx_conn (lk_rx l) = Some i"
    and out: "cn_out (lk_conns l i) = b # bs" and recv: "recv_frame cd b (lk_rx l) = Inr r"
  shows "link_inv cd (l\<lparr>lk_rx := r, lk_conns := (lk_conns l)(i := (lk_conns l i)\<lparr>cn_out := bs\<rparr>)\<rparr>)"
proof -
  let ?n = "nx_seq (rx_next (lk_rx l))" and ?c = "(lk_conns l i)\<lparr>cn_out := bs\<rparr>"
  let ?l = "l\<lparr>lk_rx := r, lk_conns := (lk_conns l)(i := ?c)\<rparr>"
  have r: "rx_conn r = rx_conn (lk_rx l)" "rx_pending r = rx_pending (lk_rx l)" "rx_waiting r = rx_waiting (lk_rx l)"
    "nx_ack (rx_next r) = nx_ack (rx_next (lk_rx l))" "?n \<le> nx_seq (rx_next r)"
    using recv by (auto simp: recv_frame_def split: option.splits if_splits)
  have after: "Suc s \<le> nx_seq (rx_next r)"
    "nx_seq (rx_next r) \<le> length A" "rx_delivered r = map fst (take (nx_seq (rx_next r)) A)"
    if "cd_deserialize cd b = Some (s, fst (A ! s))" "s \<le> ?n" "s < length A" "?n \<le> length A"
      "rx_delivered (lk_rx l) = map fst (take ?n A)" for s A
  proof -
    have "r = (if s < ?n then lk_rx l else (lk_rx l)\<lparr>rx_delivered := rx_delivered (lk_rx l) @ [fst (A ! s)],
        rx_next := (rx_next (lk_rx l))\<lparr>nx_seq := s + 1\<rparr>\<rparr>)"
      using recv that(1,2) by (auto simp: recv_frame_def)
    then show "Suc s \<le> nx_seq (rx_next r)" "nx_seq (rx_next r) \<le> length A" "rx_delivered r = map fst (take (nx_seq (rx_next r)) A)"
      using that by (auto simp: take_Suc_conv_app_nth)
  qed
  show ?thesis
  proof (rule rx_step [OF inv])
    fix k A
    assume b: "base_inv cd k A l"
    obtain s w where h: "cd_deserialize cd b = Some (s, fst (A ! s))" "s \<le> ?n" "s < length A"
      "bs = map (frame_at cd A) [Suc s..<w]" "Suc s \<le> w" "w \<le> length A" using head_conn [OF cd b out] .
    have n: "?n \<le> length A" "rx_delivered (lk_rx l) = map fst (take ?n A)" using b unfolding base_inv_def rx_inv_def by blast+
    note a = after [OF h(1-3) n]
    have "conn_inv cd A (nx_seq (rx_next r)) (if j = i then ?c else lk_conns l j)" for j
    proof -
      have old: "conn_inv cd A ?n (lk_conns l j)" using b by (auto simp: base_inv_def)
      show ?thesis
      proof (cases "j = i")
        case True
        have "\<exists>s w. bs = map (frame_at cd A) [s..<w] \<and> s \<le> nx_seq (rx_next r) \<and> s \<le> w \<and> w \<le> length A"
          using h(4-6) a(1) by blast
        then show ?thesis using old True r(5) by (auto simp: conn_inv_def)
      next
        case False
        then show ?thesis using old r(5) unfolding conn_inv_def by (auto intro: order_trans less_le_trans)
      qed
    qed
    moreover have "rx_inv cd A ?l" using b a(2,3) r by (auto simp: base_inv_def rx_inv_def)
    moreover have "pending_inv ?l" using b r by (fastforce simp: base_inv_def pending_inv_def largest_def)
    ultimately show "base_inv cd k A ?l" using b by (auto simp: base_inv_def)
  next
    fix k A u j ws
    assume b: "base_inv cd k A l" and u: "u \<le> length A" and c: "tx_conn cd A ?n (largest l) u ws (lk_conns l j)"
    let ?u = "u + (if ws = OnWire then 1 else 0)"
    have "\<exists>s \<le> nx_seq (rx_next r). cn_out (lk_conns ?l j) = map (frame_at cd A) [s..<?u] \<and> s \<le> ?u"
      if up: "\<not> cn_cut (lk_conns l j)"
    proof -
      from c up obtain s where s: "s \<le> ?n" "cn_out (lk_conns l j) = map (frame_at cd A) [s..<?u]" "s \<le> ?u"
        unfolding tx_conn_def by blast
      show ?thesis
      proof (cases "j = i")
        case True
        then have m: "map (frame_at cd A) [s..<?u] = b # bs" using s(2) out by simp
        have A: "A = taken cd k (lk_posted l)" "?n \<le> length A" "rx_delivered (lk_rx l) = map fst (take ?n A)"
          using b unfolding base_inv_def rx_inv_def by blast+
        have "?u \<le> length A" using c u by (auto simp: tx_conn_def)
        note h = head_frame [OF cd A(1) m this]
        show ?thesis using True h(2,3) after(1) [OF h(1) s(1) h(4) A(2,3)] by auto
      next
        case False
        have "s \<le> nx_seq (rx_next r)" using s(1) r(5) by (rule le_trans)
        moreover have "cn_out (lk_conns ?l j) = map (frame_at cd A) [s..<?u]" using s(2) False by simp
        ultimately show ?thesis using s(3) by blast
      qed
    qed
    then show "tx_conn cd A (nx_seq (rx_next (lk_rx ?l))) (largest l) u ws (lk_conns ?l j)"
      using c by (auto simp: tx_conn_def)
  qed (use r(5) in simp_all)
qed

lemma acks_of_take: "set (acks_of (take m rs)) \<subseteq> set (acks_of rs)" "sorted (acks_of rs) \<Longrightarrow> sorted (acks_of (take m rs))"
proof -
  have "acks_of rs = acks_of (take m rs) @ acks_of (drop m rs)" by (metis acks_of_simps(5) append_take_drop_id)
  then show "set (acks_of (take m rs)) \<subseteq> set (acks_of rs)" "sorted (acks_of rs) \<Longrightarrow> sorted (acks_of (take m rs))"
    by (simp_all add: sorted_append)
qed

lemma cut_inv:
  assumes "link_inv cd l"
  shows "link_inv cd (l\<lparr>lk_conns := (lk_conns l)(i :=
    \<lparr>cn_out = take x (cn_out (lk_conns l i)), cn_in = take y (cn_in (lk_conns l i)), cn_cut = True\<rparr>)\<rparr>)"
proof (rule rx_step [OF assms])
  let ?c = "\<lparr>cn_out = take x (cn_out (lk_conns l i)), cn_in = take y (cn_in (lk_conns l i)), cn_cut = True\<rparr>"
  let ?n = "nx_seq (rx_next (lk_rx l))" and ?l = "l\<lparr>lk_conns := (lk_conns l)(i := ?c)\<rparr>"
  fix k A
  assume b: "base_inv cd k A l"
  then have old: "conn_inv cd A ?n (lk_conns l i)" by (auto simp: base_inv_def)
  have "conn_inv cd A ?n ?c"
  proof -
    obtain r w where "cn_out (lk_conns l i) = map (frame_at cd A) [r..<w]" "r \<le> ?n" "r \<le> w" "w \<le> length A"
      using old unfolding conn_inv_def by blast
    then have "cn_out ?c = map (frame_at cd A) [r..<min w (r + x)]" "r \<le> ?n" "r \<le> min w (r + x)" "min w (r + x) \<le> length A"
      by (auto simp: take_map min_def)
    then have "\<exists>r w. cn_out ?c = map (frame_at cd A) [r..<w] \<and> r \<le> ?n \<and> r \<le> w \<and> w \<le> length A" by blast
    then show ?thesis
      using old acks_of_take(1) [of y "cn_in (lk_conns l i)"] acks_of_take(2) [of "cn_in (lk_conns l i)" y] by (auto simp: conn_inv_def dest: in_set_takeD)
  qed
  then have "conn_inv cd A ?n (lk_conns ?l j)" for j using b by (auto simp: base_inv_def)
  moreover have "pending_inv ?l"
    using b acks_of_take(1) [of y "cn_in (lk_conns l i)"] by (fastforce simp: base_inv_def pending_inv_def largest_def)
  ultimately show "base_inv cd k A ?l" using b by (auto simp: base_inv_def rx_inv_def)
next
  fix A u j ws
  assume "tx_conn cd A (nx_seq (rx_next (lk_rx l))) (largest l) u ws (lk_conns l j)"
  then show "tx_conn cd A (nx_seq (rx_next (lk_rx (l\<lparr>lk_conns := (lk_conns l)(i :=
      \<lparr>cn_out = take x (cn_out (lk_conns l i)), cn_in = take y (cn_in (lk_conns l i)), cn_cut = True\<rparr>)\<rparr>)))) (largest l) u ws
    (lk_conns (l\<lparr>lk_conns := (lk_conns l)(i :=
      \<lparr>cn_out = take x (cn_out (lk_conns l i)), cn_in = take y (cn_in (lk_conns l i)), cn_cut = True\<rparr>)\<rparr>) j)"
    using acks_of_take(1) [of y "cn_in (lk_conns l i)"] by (auto simp: tx_conn_def)
qed simp_all

lemma app_closed_inv:
  assumes "link_inv cd l"
  shows "link_inv cd (l\<lparr>lk_tx := (lk_tx l)\<lparr>tx_app_closed := True\<rparr>\<rparr>)"
proof -
  let ?l = "l\<lparr>lk_tx := (lk_tx l)\<lparr>tx_app_closed := True\<rparr>\<rparr>"
  have "base_inv cd k A ?l = base_inv cd k A l" for k A
    by (auto simp: base_inv_def rx_inv_def pending_inv_def largest_def)
  moreover have "tx_inv cd A k a u ?l = tx_inv cd A k a u l" for k A a u by (simp add: tx_inv_def largest_def)
  ultimately show ?thesis using assms by (simp add: link_inv_def run_inv_def end_inv_def)
qed

section \<open>Runs\<close>

lemma running:
  assumes "link_inv cd l" "\<And>reason. tx_phase (lk_tx l) \<noteq> ClosedTx reason"
  shows "\<exists>k A a u. run_inv cd k A a u l"
  using assms unfolding link_inv_def end_inv_def by blast

lemma good_step_inv:
  assumes "good_step cd max_len interval l l'" "link_inv cd l" "codec_ok cd" "0 < interval"
  shows "link_inv cd l'"
proof -
  have run: "\<exists>k A a u. run_inv cd k A a u l" if "tx_phase (lk_tx l) = p" "\<And>reason. p \<noteq> ClosedTx reason" for p
    using running [OF assms(2)] that by blast
  from assms(1) show ?thesis
  proof cases
    case lazy
    then show ?thesis using run [of Lazy] lazy_inv [OF assms(3)] by auto
  next
    case dial
    then show ?thesis using run [of Connecting] dial_inv by auto
  next
    case begin_write
    then show ?thesis using run begin_write_inv [OF assms(3)] by blast
  next
    case on_wire
    then show ?thesis using run on_wire_inv by blast
  next
    case write_done
    then show ?thesis using run write_done_inv by blast
  next
    case response
    then show ?thesis using run response_inv [OF assms(3)] by blast
  next
    case accept
    then show ?thesis using run accept_inv [OF assms(3)] by blast
  next
    case arrive
    then show ?thesis using arrive_inv [OF assms(2)] by blast
  next
    case take_conn
    then show ?thesis using take_conn_inv [OF assms(2)] by blast
  next
    case begin_ack
    then show ?thesis using begin_ack_inv [OF assms(2) _ assms(4)] by blast
  next
    case ack_written
    then show ?thesis using ack_written_inv [OF assms(2)] by blast
  next
    case receive
    then show ?thesis using receive_inv [OF assms(3,2)] by blast
  qed
qed

lemma link_step_inv:
  assumes "link_step cd max_len interval l l'" "link_inv cd l" "codec_ok cd" "0 < interval"
  shows "link_inv cd l'"
proof -
  have run: "\<exists>k A a u. run_inv cd k A a u l" if "tx_phase (lk_tx l) = p" "\<And>reason. p \<noteq> ClosedTx reason" for p
    using running [OF assms(2)] that by blast
  from assms(1) show ?thesis
  proof cases
    case good
    then show ?thesis using good_step_inv assms(2-4) by blast
  next
    case post
    then show ?thesis using post_inv [OF assms(2)] by blast
  next
    case app_closed
    then show ?thesis using app_closed_inv [OF assms(2)] by blast
  next
    case dial_fails
    then show ?thesis using run [of Connecting] close_ok [OF assms(3)] run_link(2) by blast
  next
    case send_ends
    then show ?thesis using run after_send_inv [OF assms(3)] by blast
  next
    case timeout
    then show ?thesis using run after_send_inv [OF assms(3)] by blast
  next
    case recv_fails
    then show ?thesis using recv_never_fails [OF assms(3,2)] by blast
  next
    case recv_ends
    then show ?thesis using end_recv_inv [OF assms(2)] by blast
  next
    case (ack_fails i v s)
    then show ?thesis using end_recv_inv [OF ack_half_inv [OF assms(2)]] by blast
  next
    case shutdown
    then show ?thesis using shutdown_inv [OF assms(2)] by blast
  next
    case cut
    then show ?thesis using cut_inv [OF assms(2)] by blast
  qed
qed

text \<open>The states a channel can reach.\<close>

definition link_run :: "('m, 'b) codec \<Rightarrow> nat \<Rightarrow> nat \<Rightarrow> ('m, 'b) link \<Rightarrow> bool" where
  "link_run cd max_len interval = (link_step cd max_len interval)\<^sup>*\<^sup>* link_new"

lemma link_run_inv:
  assumes "link_run cd max_len interval l" "codec_ok cd" "0 < interval"
  shows "link_inv cd l"
  using assms(1) unfolding link_run_def
  by (induction rule: rtranclp_induct) (use link_inv_new link_step_inv assms(2,3) in \<open>blast+\<close>)

end
