(* ===== verification/Channel_Props.thy ===== *)
theory Channel_Props
  imports Channel_Runs
begin

text \<open>
  What a channel promises: messages are delivered in order, exactly once, whatever the network
  does; every message has one outcome when the sender ends; and a channel whose network has
  recovered delivers everything.
\<close>

section \<open>Scripted runs\<close>

text \<open>The steps by name, so that a run can be computed.\<close>

datatype 'm act =
    APost 'm | ALazy | ADial | ABeginWrite | AOnWire | AWriteDone | AResponse | AArrive nat | ATakeConn
  | ABeginAck | AAckWritten | AReceive | ASendEnds | ATimeout | ARecvEnds | ACut nat nat nat

definition phase_conn :: "('m, 'b) link \<Rightarrow> (nat \<times> write_state) option" where
  "phase_conn l = (case tx_phase (lk_tx l) of Connected i ws \<Rightarrow> Some (i, ws) | _ \<Rightarrow> None)"

fun act_step :: "('m, 'b) codec \<Rightarrow> nat \<Rightarrow> nat \<Rightarrow> 'm act \<Rightarrow> ('m, 'b) link \<Rightarrow> ('m, 'b) link option" where
  "act_step cd max_len interval (APost m) l =
     (if tx_app_closed (lk_tx l) then None
      else Some (l\<lparr>lk_tx := do_post m (length (lk_posted l)) (lk_tx l), lk_posted := lk_posted l @ [m]\<rparr>))"
| "act_step cd max_len interval ALazy l =
     (if tx_phase (lk_tx l) = Lazy \<and> (tx_receiver (lk_tx l) \<noteq> [] \<or> tx_app_closed (lk_tx l))
      then Some (set_tx (lazy_connect cd (lk_tx l)) l) else None)"
| "act_step cd max_len interval ADial l =
     (if tx_phase (lk_tx l) = Connecting
      then Some (set_tx (connected (lk_count l) (lk_tx l))
        (l\<lparr>lk_conns := (lk_conns l)(lk_count l := \<lparr>cn_out = [], cn_in = [], cn_cut = False\<rparr>), lk_count := lk_count l + 1,
           lk_arriving := lk_arriving l @ [lk_count l]\<rparr>)) else None)"
| "act_step cd max_len interval ABeginWrite l =
     (case phase_conn l of
        Some (i, NoWrite) \<Rightarrow> if ox_deque (dl_outbox (tx_deliveries (lk_tx l))) = [] then None
          else Some (set_tx (begin_write cd max_len i (lk_tx l)) l)
      | _ \<Rightarrow> None)"
| "act_step cd max_len interval AOnWire l =
     (case (phase_conn l, ox_deque (dl_outbox (tx_deliveries (lk_tx l)))) of
        (Some (i, Writing), msg # _) \<Rightarrow> Some (put_out i (q_message msg) (l\<lparr>lk_tx := (lk_tx l)\<lparr>tx_phase := Connected i OnWire\<rparr>\<rparr>))
      | _ \<Rightarrow> None)"
| "act_step cd max_len interval AWriteDone l =
     (case phase_conn l of Some (i, OnWire) \<Rightarrow> Some (set_tx (write_done i (lk_tx l)) l) | _ \<Rightarrow> None)"
| "act_step cd max_len interval AResponse l =
     (case phase_conn l of
        Some (i, ws) \<Rightarrow>
          (case cn_in (lk_conns l i) of
             r # rs \<Rightarrow> Some (set_tx (on_response cd r (lk_tx l)) (l\<lparr>lk_conns := (lk_conns l)(i := (lk_conns l i)\<lparr>cn_in := rs\<rparr>)\<rparr>))
           | [] \<Rightarrow> None)
      | None \<Rightarrow> None)"
| "act_step cd max_len interval (AArrive i) l =
     (if i \<in> set (lk_arriving l) \<and> rx_open (lk_rx l)
      then Some (l\<lparr>lk_rx := (lk_rx l)\<lparr>rx_waiting := rx_waiting (lk_rx l) @ [i]\<rparr>, lk_arriving := remove1 i (lk_arriving l)\<rparr>)
      else None)"
| "act_step cd max_len interval ATakeConn l =
     (if rx_open (lk_rx l) \<and> rx_conn (lk_rx l) = None \<and> rx_waiting (lk_rx l) \<noteq> []
      then Some (l\<lparr>lk_rx := next_connection (lk_rx l)\<rparr>) else None)"
| "act_step cd max_len interval ABeginAck l =
     (if rx_conn (lk_rx l) \<noteq> None \<and> rx_pending (lk_rx l) = None \<and> ack_behind interval True (rx_next (lk_rx l))
      then Some (set_rx (begin_ack interval True (lk_rx l)) l) else None)"
| "act_step cd max_len interval AAckWritten l =
     (case (rx_conn (lk_rx l), rx_pending (lk_rx l)) of
        (Some i, Some (v, s)) \<Rightarrow> Some (put_in i [Ack v] (l\<lparr>lk_rx := ack_written (lk_rx l)\<rparr>))
      | _ \<Rightarrow> None)"
| "act_step cd max_len interval AReceive l =
     (case rx_conn (lk_rx l) of
        Some i \<Rightarrow>
          (case cn_out (lk_conns l i) of
             b # bs \<Rightarrow>
               (case recv_frame cd b (lk_rx l) of
                  Inr r \<Rightarrow> Some (l\<lparr>lk_rx := r, lk_conns := (lk_conns l)(i := (lk_conns l i)\<lparr>cn_out := bs\<rparr>)\<rparr>)
                | Inl _ \<Rightarrow> None)
           | [] \<Rightarrow> None)
      | None \<Rightarrow> None)"
| "act_step cd max_len interval ASendEnds l =
     (case phase_conn l of Some _ \<Rightarrow> Some (l\<lparr>lk_tx := after_send cd None (lk_tx l)\<rparr>) | None \<Rightarrow> None)"
| "act_step cd max_len interval ATimeout l =
     (case phase_conn l of
        Some _ \<Rightarrow> if ua_deque (dl_unacked (tx_deliveries (lk_tx l))) = [] then None
          else Some (l\<lparr>lk_tx := after_send cd (Some DeliveryTimeout) (lk_tx l)\<rparr>)
      | None \<Rightarrow> None)"
| "act_step cd max_len interval ARecvEnds l =
     (case rx_conn (lk_rx l) of Some i \<Rightarrow> Some (end_recv i None False False l) | None \<Rightarrow> None)"
| "act_step cd max_len interval (ACut i a b) l =
     Some (l\<lparr>lk_conns := (lk_conns l)(i :=
       \<lparr>cn_out = take a (cn_out (lk_conns l i)), cn_in = take b (cn_in (lk_conns l i)), cn_cut = True\<rparr>)\<rparr>)"

fun run_acts :: "('m, 'b) codec \<Rightarrow> nat \<Rightarrow> nat \<Rightarrow> 'm act list \<Rightarrow> ('m, 'b) link \<Rightarrow> ('m, 'b) link option" where
  "run_acts cd max_len interval [] l = Some l"
| "run_acts cd max_len interval (x # xs) l =
     (case act_step cd max_len interval x l of None \<Rightarrow> None | Some l1 \<Rightarrow> run_acts cd max_len interval xs l1)"

lemma phase_conn_Some: "phase_conn l = Some (i, ws) \<longleftrightarrow> tx_phase (lk_tx l) = Connected i ws"
  by (simp add: phase_conn_def split: tx_phase.splits)

lemma act_step_link:
  assumes "act_step cd max_len interval x l = Some l'"
  shows "link_step cd max_len interval l l'"
proof (cases "x = ADial")
  case True
  then show ?thesis
    using assms link_step.good [OF good_step.dial [OF _ refl, of l cd max_len interval]] by (auto split: if_splits)
next
  case False
  with assms show ?thesis
    by (cases x) (auto simp: phase_conn_Some split: if_splits option.splits prod.splits write_state.splits list.splits sum.splits
        intro: good_step.intros link_step.intros)
qed

lemma run_acts_link:
  assumes "run_acts cd max_len interval xs l = Some l'"
  shows "(link_step cd max_len interval)\<^sup>*\<^sup>* l l'"
  using assms
proof (induction xs arbitrary: l)
  case (Cons x xs)
  then obtain l1 where "act_step cd max_len interval x l = Some l1" "run_acts cd max_len interval xs l1 = Some l'"
    by (auto split: option.splits)
  then show ?case using Cons.IH act_step_link by (meson converse_rtranclp_into_rtranclp)
qed simp

definition ex_codec :: "(nat, nat \<times> nat) codec" where
  "ex_codec = \<lparr>cd_serialize = Some, cd_deserialize = Some, cd_frame_len = (\<lambda>_. 1)\<rparr>"

lemma ex_codec_ok: "codec_ok ex_codec"
  by (simp add: codec_ok_def ex_codec_def)

text \<open>A message is delivered and acknowledged, and the acknowledgement is lost with its connection.\<close>

definition ex_lost_ack :: "nat act list" where
  "ex_lost_ack = [APost 7, ALazy, ADial, ABeginWrite, AOnWire, AWriteDone, AArrive 0, ATakeConn, AReceive, ABeginAck, AAckWritten,
     ACut 0 0 0, ASendEnds, ARecvEnds, ADial, ABeginWrite, AOnWire, AWriteDone, AArrive 1, ATakeConn, AReceive]"

named_theorems link_eval \<open>unfolding rules to compute a run\<close>

lemmas [link_eval] = link_new_def tx_new_def rx_new_def outbox_new_def unacked_new_def ex_codec_def phase_conn_def
  do_post_def lazy_connect_def outbox_push_back_def set_deliveries_def set_tx_def connected_def requeue_unacked_def
  outbox_requeue_unacked_def begin_write_def put_out_def write_done_def unacked_push_back_def unacked_prune_def on_response_def
  next_connection_def recv_frame_def begin_ack_def ack_behind_def set_rx_def put_in_def ack_written_def after_send_def
  is_terminal_def classify_send_loop_error_def close_tx_def try_return_def end_recv_def after_recv_def final_ack_def
  terminal_response_def recoverable_def Let_def

definition ex_lost :: "(nat, nat \<times> nat) link" where
  "ex_lost = \<lparr>lk_tx = \<lparr>tx_deliveries = \<lparr>dl_outbox = \<lparr>ox_next_seq = 1, ox_deque = []\<rparr>,
         dl_unacked = \<lparr>ua_deque = [\<lparr>q_seq = 0, q_message = (0, 7), q_sink = 0\<rparr>], ua_largest_acked = None\<rparr>\<rparr>,
       tx_receiver = [], tx_app_closed = False, tx_phase = Connected 1 NoWrite, tx_done = []\<rparr>,
     lk_rx = \<lparr>rx_next = \<lparr>nx_seq = 1, nx_ack = 1\<rparr>, rx_delivered = [7], rx_conn = Some 1, rx_waiting = [], rx_pending = None,
       rx_open = True\<rparr>,
     lk_conns = (\<lambda>_. \<lparr>cn_out = [], cn_in = [], cn_cut = False\<rparr>)(0 := \<lparr>cn_out = [], cn_in = [], cn_cut = True\<rparr>),
     lk_count = 2, lk_arriving = [], lk_posted = [7], lk_failed = False\<rparr>"

lemma ex_lost_run: "run_acts ex_codec 100 1 ex_lost_ack link_new = Some ex_lost"
  by (simp add: ex_lost_ack_def link_eval ex_lost_def fun_upd_twist fun_eq_iff)

lemma ex_lost_reached: "link_run ex_codec 100 1 ex_lost"
  unfolding link_run_def by (rule run_acts_link [OF ex_lost_run])

lemma ex_lost_rests: "\<not> good_step ex_codec 100 1 ex_lost l"
  by (auto simp: ex_lost_def ack_behind_def elim!: good_step.cases)

section \<open>Exactly once\<close>

lemma base_reached:
  assumes "link_inv cd l"
  obtains k A where "base_inv cd k A l" "distinct (map fst (tx_done (lk_tx l)))"
    "\<forall>j. (j, Accepted) \<in> set (tx_done (lk_tx l)) \<longrightarrow>
       j < k \<and> j \<notin> snd ` set A \<or> (\<exists>s < nx_seq (rx_next (lk_rx l)). s < length A \<and> snd (A ! s) = j)"
proof -
  from assms obtain k A where "(\<exists>a u. run_inv cd k A a u l) \<or> end_inv cd k A l" unfolding link_inv_def by blast
  then show ?thesis
  proof
    assume "\<exists>a u. run_inv cd k A a u l"
    then obtain a u where run: "base_inv cd k A l" "done_running A k a (tx_done (lk_tx l))"
      "tx_nums cd A (nx_seq (rx_next (lk_rx l))) a u (tx_deliveries (lk_tx l))" by (auto simp: run_inv_def tx_inv_def)
    have a: "a \<le> nx_seq (rx_next (lk_rx l))" "a \<le> length A" using run(3) by (simp_all add: tx_nums_def)
    have "j < k \<and> j \<notin> snd ` set A \<or> (\<exists>s < nx_seq (rx_next (lk_rx l)). s < length A \<and> snd (A ! s) = j)"
      if "(j, Accepted) \<in> set (tx_done (lk_tx l))" for j
    proof -
      have "j \<in> fst ` set (tx_done (lk_tx l))" using that by force
      then have "j \<in> (\<lambda>s. snd (A ! s)) ` {..<a} \<or> j < k \<and> j \<notin> snd ` set A" using run(2) by (simp add: done_running_def)
      then show ?thesis
      proof
        assume "j \<in> (\<lambda>s. snd (A ! s)) ` {..<a}"
        then obtain s where "s < a" "snd (A ! s) = j" by auto
        then show ?thesis using a less_le_trans by blast
      qed simp
    qed
    moreover have "distinct (map fst (tx_done (lk_tx l)))" using run(2) by (simp add: done_running_def)
    ultimately show ?thesis using that [OF run(1)] by blast
  next
    assume "end_inv cd k A l"
    then show ?thesis using that unfolding end_inv_def done_closed_def by blast
  qed
qed

text \<open>C2: Messages are delivered in order and exactly once. Whatever the network does to the connections
  and whenever deadlines pass, neither task panics, and what the receiver has delivered are, in
  the order they were posted, the first messages of those that can be serialized, each once. A
  message is reported accepted only if it has been delivered or cannot be serialized, and no
  message is reported twice.\<close>

theorem channel_exactly_once:
  fixes l :: "('m, 'b) link"
  assumes "codec_ok cd" "0 < interval" "link_run cd max_len interval l"
  shows "\<not> lk_failed l \<and> distinct (map fst (tx_done (lk_tx l))) \<and>
    (\<exists>k n. k \<le> length (lk_posted l) \<and> rx_delivered (lk_rx l) = map fst (take n (taken cd k (lk_posted l))) \<and>
      (\<forall>j. (j, Accepted) \<in> set (tx_done (lk_tx l)) \<longrightarrow>
         j \<in> snd ` set (take n (taken cd k (lk_posted l))) \<or> j < k \<and> j \<notin> snd ` set (taken cd k (lk_posted l))))"
proof -
  obtain k A where b: "base_inv cd k A l" "distinct (map fst (tx_done (lk_tx l)))"
    and acc: "\<forall>j. (j, Accepted) \<in> set (tx_done (lk_tx l)) \<longrightarrow>
       j < k \<and> j \<notin> snd ` set A \<or> (\<exists>s < nx_seq (rx_next (lk_rx l)). s < length A \<and> snd (A ! s) = j)"
    using base_reached [OF link_run_inv [OF assms(3,1,2)]] .
  let ?n = "nx_seq (rx_next (lk_rx l))"
  have A: "k \<le> length (lk_posted l)" "A = taken cd k (lk_posted l)" "rx_delivered (lk_rx l) = map fst (take ?n A)" "\<not> lk_failed l"
    using b(1) unfolding base_inv_def rx_inv_def by blast+
  have "snd (A ! s) \<in> snd ` set (take ?n A)" if "s < ?n" "s < length A" for s
    using that nth_mem [of s "take ?n A"] by simp
  then have "j \<in> snd ` set (take ?n A) \<or> j < k \<and> j \<notin> snd ` set A" if "(j, Accepted) \<in> set (tx_done (lk_tx l))" for j
    using spec [OF acc, of j] that by metis
  with A(1,3) have "k \<le> length (lk_posted l) \<and> rx_delivered (lk_rx l) = map fst (take ?n (taken cd k (lk_posted l))) \<and>
      (\<forall>j. (j, Accepted) \<in> set (tx_done (lk_tx l)) \<longrightarrow>
         j \<in> snd ` set (take ?n (taken cd k (lk_posted l))) \<or> j < k \<and> j \<notin> snd ` set (taken cd k (lk_posted l)))"
    unfolding A(2) by simp
  then show ?thesis by (intro conjI exI [of _ k] exI [of _ ?n]) (use A(4) b(2) in simp_all)
qed

theorem channel_exactly_once_witness:
  "link_run ex_codec 100 1 ex_lost \<and> rx_delivered (lk_rx ex_lost) = [7] \<and> \<not> lk_failed ex_lost"
  using channel_exactly_once [OF ex_codec_ok _ ex_lost_reached] ex_lost_reached by (simp add: ex_lost_def)

text \<open>C10: The end of a channel settles every message. When the sending task has ended, every message that was
  posted, before or after, has exactly one outcome, and a message that is returned is returned
  with the content it was posted with.\<close>

theorem channel_close_settles:
  assumes "codec_ok cd" "0 < interval" "link_run cd max_len interval l" "tx_phase (lk_tx l) = ClosedTx reason"
  shows "mset (map fst (tx_done (lk_tx l))) = mset [0..<length (lk_posted l)] \<and>
    (\<forall>j m why. (j, Rejected m why) \<in> set (tx_done (lk_tx l)) \<longrightarrow> m = lk_posted l ! j)"
proof -
  obtain k A where "end_inv cd k A l"
    using link_run_inv [OF assms(3,1,2)] assms(4) by (auto simp: link_inv_def run_inv_def)
  then have d: "done_closed A k (nx_seq (rx_next (lk_rx l))) (lk_posted l) (tx_done (lk_tx l))" by (simp add: end_inv_def)
  then have "mset (map fst (tx_done (lk_tx l))) = mset [0..<length (lk_posted l)]"
    by (intro set_eq_iff_mset_eq_distinct [THEN iffD1]) (auto simp: done_closed_def atLeast0LessThan)
  then show ?thesis using d by (simp add: done_closed_def)
qed

text \<open>Two messages, the second posted after the channel has timed out.\<close>

definition ex_closed :: "(nat, nat \<times> nat) link" where
  "ex_closed = ex_lost\<lparr>lk_tx := \<lparr>tx_deliveries = \<lparr>dl_outbox = \<lparr>ox_next_seq = 1, ox_deque = []\<rparr>,
         dl_unacked = \<lparr>ua_deque = [], ua_largest_acked = None\<rparr>\<rparr>,
       tx_receiver = [], tx_app_closed = False, tx_phase = ClosedTx OtherReason,
       tx_done = [(0, Rejected 7 OtherReason), (1, Rejected 8 OtherReason)]\<rparr>, lk_posted := [7, 8]\<rparr>"

lemma ex_closed_reached: "link_run ex_codec 100 1 ex_closed"
proof -
  have "run_acts ex_codec 100 1 [ATimeout, APost 8] ex_lost = Some ex_closed"
    by (simp add: link_eval ex_closed_def ex_lost_def)
  from run_acts_link [OF this] show ?thesis using ex_lost_reached unfolding link_run_def by simp
qed

theorem channel_close_settles_witness: "link_run ex_codec 100 1 ex_closed \<and> mset (map fst (tx_done (lk_tx ex_closed))) = {#0, 1#}"
proof -
  have "tx_phase (lk_tx ex_closed) = ClosedTx OtherReason" "length (lk_posted ex_closed) = 2" by (simp_all add: ex_closed_def)
  with channel_close_settles [OF ex_codec_ok _ ex_closed_reached] ex_closed_reached show ?thesis by (simp add: upt_rec)
qed

text \<open>A lost acknowledgement is not repeated. There is a run in which the message is delivered, the
  acknowledgement is lost with its connection, and the sender sends the message again over a new
  one: the receiver ignores it, neither task has anything left to do, and when the delivery
  timeout passes the sender returns the message as undelivered.\<close>

theorem lost_ack_not_repeated:
  "\<exists>l l'. link_run ex_codec 100 1 l \<and> (\<nexists>l1. good_step ex_codec 100 1 l l1) \<and> rx_delivered (lk_rx l) = [7] \<and>
    link_step ex_codec 100 1 l l' \<and> tx_done (lk_tx l') = [(0, Rejected 7 OtherReason)]"
proof -
  have "act_step ex_codec 100 1 ATimeout ex_lost = Some (ex_lost\<lparr>lk_tx := after_send ex_codec (Some DeliveryTimeout) (lk_tx ex_lost)\<rparr>)"
    by (simp add: ex_lost_def phase_conn_def)
  from act_step_link [OF this] have "link_step ex_codec 100 1 ex_lost
    (ex_lost\<lparr>lk_tx := after_send ex_codec (Some DeliveryTimeout) (lk_tx ex_lost)\<rparr>)" .
  moreover have "tx_done (after_send ex_codec (Some DeliveryTimeout) (lk_tx ex_lost)) = [(0, Rejected 7 OtherReason)]"
    by (simp add: ex_lost_def link_eval)
  moreover have "rx_delivered (lk_rx ex_lost) = [7]" by (simp add: ex_lost_def)
  ultimately show ?thesis using ex_lost_reached ex_lost_rests
    by (intro exI [of _ ex_lost] exI [of _ "ex_lost\<lparr>lk_tx := after_send ex_codec (Some DeliveryTimeout) (lk_tx ex_lost)\<rparr>"]) simp
qed

end
