(* ===== verification/Channel_Liveness.thy ===== *)
theory Channel_Liveness
  imports Channel_Props
begin

text \<open>
  A channel without further faults: its steps come to an end, and then every message has been
  delivered.
\<close>

section \<open>Healthy channels\<close>

text \<open>Messages that can be sent under every number.\<close>

definition fits :: "('m, 'b) codec \<Rightarrow> nat \<Rightarrow> 'm \<Rightarrow> bool" where
  "fits cd max_len m \<longleftrightarrow> (\<forall>s. \<exists>b. cd_serialize cd (s, m) = Some b \<and> cd_frame_len cd b \<le> max_len)"

text \<open>The sender is about to connect and the receiver waits for a connection, or they share one that
  works.\<close>

definition idle_rx :: "('m, 'b) link \<Rightarrow> bool" where
  "idle_rx l \<longleftrightarrow> lk_arriving l = [] \<and> rx_waiting (lk_rx l) = [] \<and> rx_conn (lk_rx l) = None"

definition shared_conn :: "nat \<Rightarrow> ('m, 'b) link \<Rightarrow> bool" where
  "shared_conn i l \<longleftrightarrow> \<not> cn_cut (lk_conns l i) \<and> set (cn_in (lk_conns l i)) \<subseteq> range Ack \<and>
     lk_arriving l @ rx_waiting (lk_rx l) @ (case rx_conn (lk_rx l) of None \<Rightarrow> [] | Some j \<Rightarrow> [j]) = [i]"

definition healthy :: "('m, 'b) link \<Rightarrow> bool" where
  "healthy l \<longleftrightarrow> rx_open (lk_rx l) \<and> \<not> tx_app_closed (lk_tx l) \<and>
     (\<forall>v s. rx_pending (lk_rx l) = Some (v, s) \<longrightarrow> nx_ack (rx_next (lk_rx l)) < s) \<and>
     (case tx_phase (lk_tx l) of
        Lazy \<Rightarrow> idle_rx l
      | Connecting \<Rightarrow> idle_rx l
      | Connected i ws \<Rightarrow> shared_conn i l
      | ClosedTx reason \<Rightarrow> False)"

definition live_inv :: "('m, 'b) codec \<Rightarrow> nat \<Rightarrow> nat \<Rightarrow> ('m, 'b) link \<Rightarrow> bool" where
  "live_inv cd max_len interval l \<longleftrightarrow> codec_ok cd \<and> 0 < interval \<and> link_inv cd l \<and> healthy l \<and> (\<forall>m \<in> set (lk_posted l). fits cd max_len m)"

text \<open>What is left to do.\<close>

fun write_credit :: "write_state \<Rightarrow> nat" where
  "write_credit NoWrite = 0"
| "write_credit Writing = 1"
| "write_credit OnWire = 6"

definition tx_work :: "('m, 'b) link \<Rightarrow> nat" where
  "tx_work l =
     (let d = tx_deliveries (lk_tx l); waiting = length (ox_deque (dl_outbox d)); sent = length (ua_deque (dl_unacked d))
      in case tx_phase (lk_tx l) of
           Lazy \<Rightarrow> 8 * (waiting + sent) + 5
         | Connecting \<Rightarrow> 8 * (waiting + sent) + 4
         | Connected i ws \<Rightarrow> 8 * waiting - write_credit ws + 4 * length (cn_out (lk_conns l i)) + length (cn_in (lk_conns l i))
         | ClosedTx reason \<Rightarrow> 0)"

definition rx_work :: "('m, 'b) link \<Rightarrow> nat" where
  "rx_work l = 2 * length (lk_arriving l) + length (rx_waiting (lk_rx l)) +
     (3 * (nx_seq (rx_next (lk_rx l)) - nx_ack (rx_next (lk_rx l))) - (if rx_pending (lk_rx l) = None then 0 else 1))"

definition work_left :: "('m, 'b) link \<Rightarrow> nat" where
  "work_left l = 9 * length (tx_receiver (lk_tx l)) + tx_work l + rx_work l"

text \<open>What the receiver has acknowledged has reached the sender or is on its way.\<close>

definition acks_ok :: "('m, 'b) link \<Rightarrow> bool" where
  "acks_ok l \<longleftrightarrow> nx_ack (rx_next (lk_rx l)) = 0 \<or>
     (\<exists>v \<in> set_option (largest l) \<union> (case tx_phase (lk_tx l) of Connected i ws \<Rightarrow> set (acks_of (cn_in (lk_conns l i))) | _ \<Rightarrow> {}).
        nx_ack (rx_next (lk_rx l)) \<le> Suc v)"

text \<open>What a step achieves.\<close>

definition progress :: "('m, 'b) link \<Rightarrow> ('m, 'b) link \<Rightarrow> bool" where
  "progress l l' \<longleftrightarrow> healthy l' \<and> work_left l' < work_left l \<and> (acks_ok l \<longrightarrow> acks_ok l') \<and> lk_posted l' = lk_posted l"

lemmas live_defs = progress_def healthy_def work_left_def tx_work_def rx_work_def acks_ok_def idle_rx_def shared_conn_def Let_def

lemma not_failed: "link_inv cd l \<Longrightarrow> \<not> lk_failed l"
  by (auto simp: link_inv_def run_inv_def end_inv_def base_inv_def rx_inv_def)

lemma set_tx_Some: "\<not> lk_failed (set_tx t l) \<Longrightarrow> \<exists>t1. t = Some t1"
  by (cases t) (auto simp: set_tx_def)

section \<open>Steps of the receiver\<close>

lemma arrive_live:
  assumes "healthy l" "i \<in> set (lk_arriving l)"
  shows "progress l (l\<lparr>lk_rx := (lk_rx l)\<lparr>rx_waiting := rx_waiting (lk_rx l) @ [i]\<rparr>, lk_arriving := remove1 i (lk_arriving l)\<rparr>)"
proof -
  obtain j ws where ph: "tx_phase (lk_tx l) = Connected j ws" "shared_conn j l"
    using assms by (auto simp: healthy_def idle_rx_def split: tx_phase.splits)
  then have "lk_arriving l = [j]" "rx_waiting (lk_rx l) = []" "rx_conn (lk_rx l) = None" "i = j"
    using assms(2) by (auto simp: shared_conn_def append_eq_Cons_conv split: option.splits)
  then show ?thesis using assms(1) ph by (auto simp: live_defs largest_def)
qed

lemma take_conn_live:
  assumes "healthy l" "rx_waiting (lk_rx l) \<noteq> []" "rx_conn (lk_rx l) = None"
  shows "progress l (l\<lparr>lk_rx := next_connection (lk_rx l)\<rparr>)"
proof -
  obtain j ws where ph: "tx_phase (lk_tx l) = Connected j ws" "shared_conn j l"
    using assms by (auto simp: healthy_def idle_rx_def split: tx_phase.splits)
  then have "lk_arriving l = []" "rx_waiting (lk_rx l) = [j]"
    using assms(2,3) by (auto simp: shared_conn_def append_eq_Cons_conv)
  then show ?thesis using assms(1,3) ph by (auto simp: live_defs largest_def next_connection_def)
qed

lemma served:
  assumes "healthy l" "rx_conn (lk_rx l) = Some i"
  obtains ws where "tx_phase (lk_tx l) = Connected i ws" "lk_arriving l = []" "rx_waiting (lk_rx l) = []"
    "\<not> cn_cut (lk_conns l i)" "set (cn_in (lk_conns l i)) \<subseteq> range Ack"
  using assms by (auto simp: healthy_def idle_rx_def shared_conn_def append_eq_Cons_conv split: tx_phase.splits)

lemma begin_ack_live:
  assumes "healthy l" "rx_conn (lk_rx l) = Some i" "rx_pending (lk_rx l) = None" "0 < interval"
    "ack_behind interval elapsed (rx_next (lk_rx l))"
  shows "progress l (set_rx (begin_ack interval elapsed (lk_rx l)) l)"
proof -
  let ?n = "nx_seq (rx_next (lk_rx l))"
  have n: "nx_ack (rx_next (lk_rx l)) < ?n" using assms(4,5) by (auto simp: ack_behind_def)
  then have "set_rx (begin_ack interval elapsed (lk_rx l)) l = l\<lparr>lk_rx := (lk_rx l)\<lparr>rx_pending := Some (?n - 1, ?n)\<rparr>\<rparr>"
    using assms(3,5) by (simp add: begin_ack_def set_rx_def)
  then show ?thesis using assms(1,3) n
    by (auto simp: live_defs largest_def split: tx_phase.splits)
qed

lemma ack_written_live:
  assumes "healthy l" "rx_conn (lk_rx l) = Some i" "rx_pending (lk_rx l) = Some (v, s)" "pending_inv l"
  shows "progress l (put_in i [Ack v] (l\<lparr>lk_rx := ack_written (lk_rx l)\<rparr>))"
proof -
  obtain ws where ph: "tx_phase (lk_tx l) = Connected i ws" "lk_arriving l = []" "rx_waiting (lk_rx l) = []"
    "\<not> cn_cut (lk_conns l i)" "set (cn_in (lk_conns l i)) \<subseteq> range Ack" using served [OF assms(1,2)] .
  have s: "s = Suc v" "v < nx_seq (rx_next (lk_rx l))" using assms(3,4) unfolding pending_inv_def by blast+
  have "nx_ack (rx_next (lk_rx l)) < s" "rx_open (lk_rx l)" "\<not> tx_app_closed (lk_tx l)" using assms(1,3) by (auto simp: healthy_def)
  then show ?thesis using ph s assms(2,3) by (auto simp: live_defs ack_written_def largest_def)
qed

lemma receive_live:
  assumes "healthy l" "rx_conn (lk_rx l) = Some i" "cn_out (lk_conns l i) = b # bs" "recv_frame cd b (lk_rx l) = Inr r"
    "nx_ack (rx_next (lk_rx l)) \<le> nx_seq (rx_next (lk_rx l))"
  shows "progress l (l\<lparr>lk_rx := r, lk_conns := (lk_conns l)(i := (lk_conns l i)\<lparr>cn_out := bs\<rparr>)\<rparr>)"
proof -
  obtain ws where ph: "tx_phase (lk_tx l) = Connected i ws" "lk_arriving l = []" "rx_waiting (lk_rx l) = []"
    "\<not> cn_cut (lk_conns l i)" "set (cn_in (lk_conns l i)) \<subseteq> range Ack" using served [OF assms(1,2)] .
  have r: "nx_seq (rx_next r) \<le> Suc (nx_seq (rx_next (lk_rx l)))" "nx_ack (rx_next r) = nx_ack (rx_next (lk_rx l))"
    "rx_pending r = rx_pending (lk_rx l)" "rx_conn r = Some i" "rx_waiting r = []" "rx_open r = rx_open (lk_rx l)"
    using assms(2,4) ph(3) by (auto simp: recv_frame_def split: option.splits if_splits)
  show ?thesis using assms(1,3,5) ph r by (auto simp: live_defs largest_def)
qed

section \<open>Steps of the sender\<close>

lemma live_run:
  assumes "live_inv cd max_len interval l"
  obtains k A a u where "run_inv cd k A a u l"
proof -
  have "tx_phase (lk_tx l) \<noteq> ClosedTx reason" for reason using assms by (auto simp: live_inv_def healthy_def)
  then show ?thesis using that running [of cd l] assms by (auto simp: live_inv_def)
qed

lemma next_fits:
  assumes "live_inv cd max_len interval l" "tx_receiver (lk_tx l) = item # rest"
  obtains b where "cd_serialize cd (s, fst item) = Some b"
proof -
  obtain k A a u where run: "run_inv cd k A a u l" using live_run [OF assms(1)] .
  have "fst item \<in> set (lk_posted l)" using receiver_next(1,2) [OF run assms(2)] by simp
  then show ?thesis using assms(1) that by (auto simp: live_inv_def fits_def)
qed

text \<open>The buffers while a message is being written, and the size of the next one.\<close>

lemma writing_nonempty:
  assumes "link_inv cd l" "tx_phase (lk_tx l) = Connected i ws" "ws \<noteq> NoWrite"
  shows "ox_deque (dl_outbox (tx_deliveries (lk_tx l))) \<noteq> []"
proof -
  obtain k A a u where "run_inv cd k A a u l" using running [OF assms(1)] assms(2) by fastforce
  then have "u < length A" "ox_deque (dl_outbox (tx_deliveries (lk_tx l))) = map (queued_at cd A) [u..<length A]"
    using assms(2,3) by (auto simp: run_inv_def tx_inv_def tx_conn_def tx_nums_def)
  then show ?thesis by auto
qed

lemma queued_fits:
  assumes "live_inv cd max_len interval l" "ox_deque (dl_outbox (tx_deliveries (lk_tx l))) = msg # rest"
  shows "cd_frame_len cd (q_message msg) \<le> max_len"
proof -
  obtain k A a u where run: "run_inv cd k A a u l" using live_run [OF assms(1)] .
  have A: "A = taken cd k (lk_posted l)" and dq: "map (queued_at cd A) [u..<length A] = msg # rest"
    using tx_running(2) [OF run] run assms(2) by (auto simp: run_inv_def tx_inv_def tx_nums_def)
  have u: "u < length A" using dq by (cases "u < length A") auto
  then have msg: "q_message msg = frame_at cd A u" using dq by (auto simp: upt_conv_Cons)
  have "A ! u \<in> set (indexed (lk_posted l))"
    using nth_mem [OF u] assign_set [of cd 0 "take k (indexed (lk_posted l))"] by (auto simp: A taken_def dest: in_set_takeD)
  then have "fst (A ! u) \<in> set (lk_posted l)" unfolding indexed_def by (metis prod.collapse set_zip_leftD)
  then obtain b where "cd_serialize cd (u, fst (A ! u)) = Some b" "cd_frame_len cd b \<le> max_len"
    using assms(1) by (auto simp: live_inv_def fits_def)
  then show ?thesis using msg by (simp add: frame_at_def)
qed

lemma lazy_live:
  assumes live: "live_inv cd max_len interval l" and ph: "tx_phase (lk_tx l) = Lazy" "tx_receiver (lk_tx l) = item # rest"
    and ok: "\<not> lk_failed (set_tx (lazy_connect cd (lk_tx l)) l)"
  shows "progress l (set_tx (lazy_connect cd (lk_tx l)) l)"
proof -
  let ?d = "tx_deliveries (lk_tx l)"
  obtain b where b: "cd_serialize cd (ox_next_seq (dl_outbox ?d), fst item) = Some b" using next_fits [OF live ph(2)] .
  have "healthy l" using live by (simp add: live_inv_def)
  then show ?thesis using ok ph b
    by (auto simp: lazy_connect_def outbox_push_back_def set_tx_def set_deliveries_def live_defs largest_def split: if_splits)
qed

lemma accept_live:
  assumes live: "live_inv cd max_len interval l" and ph: "tx_phase (lk_tx l) = Connected i ws" "tx_receiver (lk_tx l) = item # rest"
    "ox_deque (dl_outbox (tx_deliveries (lk_tx l))) = []"
  shows "progress l (set_tx (accept_message cd (lk_tx l)) l)"
proof -
  let ?d = "tx_deliveries (lk_tx l)"
  obtain b where b: "cd_serialize cd (ox_next_seq (dl_outbox ?d), fst item) = Some b" using next_fits [OF live ph(2)] .
  have h: "healthy l" "ws = NoWrite" using live writing_nonempty [OF _ ph(1)] ph(3) by (auto simp: live_inv_def)
  show ?thesis using h ph b
    by (auto simp: accept_message_def outbox_push_back_def set_tx_def set_deliveries_def live_defs largest_def)
qed

lemma dial_live:
  assumes "healthy l" "tx_phase (lk_tx l) = Connecting"
    and ok: "\<not> lk_failed (set_tx (connected (lk_count l) (lk_tx l))
      (l\<lparr>lk_conns := (lk_conns l)(lk_count l := \<lparr>cn_out = [], cn_in = [], cn_cut = False\<rparr>), lk_count := lk_count l + 1,
         lk_arriving := lk_arriving l @ [lk_count l]\<rparr>))"
  shows "progress l (set_tx (connected (lk_count l) (lk_tx l))
    (l\<lparr>lk_conns := (lk_conns l)(lk_count l := \<lparr>cn_out = [], cn_in = [], cn_cut = False\<rparr>), lk_count := lk_count l + 1,
       lk_arriving := lk_arriving l @ [lk_count l]\<rparr>))"
  using assms
  by (auto simp: connected_def requeue_unacked_def outbox_requeue_unacked_def set_tx_def live_defs largest_def split: if_splits option.splits)

lemma begin_write_live:
  assumes live: "live_inv cd max_len interval l" and ph: "tx_phase (lk_tx l) = Connected i NoWrite"
    "ox_deque (dl_outbox (tx_deliveries (lk_tx l))) = msg # rest"
  shows "progress l (set_tx (begin_write cd max_len i (lk_tx l)) l)"
proof -
  have "healthy l" using live by (simp add: live_inv_def)
  then show ?thesis using queued_fits [OF live ph(2)] ph
    by (auto simp: begin_write_def set_tx_def live_defs largest_def)
qed

lemma on_wire_live:
  assumes "healthy l" "tx_phase (lk_tx l) = Connected i Writing" "ox_deque (dl_outbox (tx_deliveries (lk_tx l))) = msg # rest"
  shows "progress l (put_out i (q_message msg) (l\<lparr>lk_tx := (lk_tx l)\<lparr>tx_phase := Connected i OnWire\<rparr>\<rparr>))"
  using assms by (auto simp: put_out_def live_defs largest_def)

lemma write_done_live:
  fixes l :: "('m, 'b) link"
  assumes "healthy l" "tx_phase (lk_tx l) = Connected i OnWire" "ox_deque (dl_outbox (tx_deliveries (lk_tx l))) = msg # rest"
    "\<not> lk_failed (set_tx (write_done i (lk_tx l)) l)"
  shows "progress l (set_tx (write_done i (lk_tx l)) l)"
proof -
  obtain ua and dn :: "'m completions" where p: "unacked_push_back msg (dl_unacked (tx_deliveries (lk_tx l))) = Some (ua, dn)"
    using assms(3,4) by (auto simp: write_done_def set_tx_def Let_def split: option.splits)
  then have "ua_largest_acked ua = ua_largest_acked (dl_unacked (tx_deliveries (lk_tx l)))"
    by (auto simp: unacked_push_back_def split: if_splits option.splits)
  then show ?thesis using p assms
    by (auto simp: write_done_def set_tx_def set_deliveries_def live_defs largest_def)
qed

lemma response_live:
  fixes l :: "('m, 'b) link"
  assumes "healthy l" "tx_phase (lk_tx l) = Connected i ws" "cn_in (lk_conns l i) = r # rs"
    "\<not> lk_failed (set_tx (on_response cd r (lk_tx l)) (l\<lparr>lk_conns := (lk_conns l)(i := (lk_conns l i)\<lparr>cn_in := rs\<rparr>)\<rparr>))"
  shows "progress l (set_tx (on_response cd r (lk_tx l)) (l\<lparr>lk_conns := (lk_conns l)(i := (lk_conns l i)\<lparr>cn_in := rs\<rparr>)\<rparr>))"
proof -
  obtain v where v: "r = Ack v" using assms(1-3) by (auto simp: healthy_def shared_conn_def)
  then obtain ua and dn :: "'m completions" where p: "unacked_prune v (dl_unacked (tx_deliveries (lk_tx l))) = Some (ua, dn)"
    using assms(4) by (auto simp: on_response_def set_tx_def split: option.splits)
  have la: "ua_largest_acked ua = Some v" "\<forall>x. largest l = Some x \<longrightarrow> x \<le> v"
    using p by (auto simp: unacked_prune_def largest_def split: if_splits prod.splits)
  show ?thesis using assms(1-3) v p la
    by (auto simp: on_response_def set_tx_def set_deliveries_def live_defs largest_def)
qed

section \<open>Coming to rest\<close>

lemma good_progress:
  assumes "good_step cd max_len interval l l'" "live_inv cd max_len interval l"
  shows "progress l l'"
proof -
  have h: "healthy l" "codec_ok cd" "0 < interval" "link_inv cd l" using assms(2) by (simp_all add: live_inv_def)
  have ok: "\<not> lk_failed l'" using not_failed good_step_inv [OF assms(1) h(4,2,3)] by blast
  have up: "\<not> tx_app_closed (lk_tx l)" using h(1) by (simp add: healthy_def)
  obtain k A where b: "base_inv cd k A l" using h(4) by (auto simp: link_inv_def run_inv_def end_inv_def)
  have rx: "nx_ack (rx_next (lk_rx l)) \<le> nx_seq (rx_next (lk_rx l))" "pending_inv l"
    using b unfolding base_inv_def rx_inv_def by blast+
  from assms(1) show ?thesis
  proof cases
    case lazy
    then obtain item rest where "tx_receiver (lk_tx l) = item # rest" using up by (auto simp: neq_Nil_conv)
    then show ?thesis using lazy lazy_live [OF assms(2)] ok by metis
  next
    case (dial i)
    then show ?thesis using dial_live [OF h(1)] ok by auto
  next
    case (begin_write i)
    then obtain msg rest where "ox_deque (dl_outbox (tx_deliveries (lk_tx l))) = msg # rest" by (auto simp: neq_Nil_conv)
    then show ?thesis using begin_write begin_write_live [OF assms(2)] by metis
  next
    case on_wire
    then show ?thesis using on_wire_live [OF h(1)] by metis
  next
    case (write_done i)
    then obtain msg rest where "ox_deque (dl_outbox (tx_deliveries (lk_tx l))) = msg # rest"
      using writing_nonempty [OF h(4)] by (metis neq_Nil_conv write_state.distinct(3))
    then show ?thesis using write_done write_done_live [OF h(1)] ok by metis
  next
    case response
    then show ?thesis using response_live [OF h(1)] ok by metis
  next
    case accept
    then obtain item rest where "tx_receiver (lk_tx l) = item # rest" using up by (auto simp: neq_Nil_conv)
    then show ?thesis using accept accept_live [OF assms(2)] by metis
  next
    case arrive
    then show ?thesis using arrive_live [OF h(1)] by metis
  next
    case take_conn
    then show ?thesis using take_conn_live [OF h(1)] by metis
  next
    case begin_ack
    then show ?thesis using begin_ack_live [OF h(1) _ _ h(3)] by metis
  next
    case ack_written
    then show ?thesis using ack_written_live [OF h(1) _ _ rx(2)] by metis
  next
    case receive
    then show ?thesis using receive_live [OF h(1) _ _ _ rx(1)] by metis
  qed
qed

lemma live_step:
  assumes "live_inv cd max_len interval l" "good_step cd max_len interval l l'"
  shows "live_inv cd max_len interval l'" "work_left l' < work_left l"
  using good_progress [OF assms(2,1)] good_step_inv [OF assms(2)] assms(1) by (auto simp: live_inv_def progress_def)

interpretation channel: settling "good_step cd max_len interval" "live_inv cd max_len interval"
    "\<lambda>l. \<nexists>l'. good_step cd max_len interval l l'" work_left
  for cd :: "('m, 'b) codec" and max_len interval
  by unfold_locales (auto dest: live_step)

text \<open>A channel at rest has delivered everything.\<close>

lemma rest_sender:
  assumes "\<And>l'. \<not> good_step cd max_len interval l l'" "live_inv cd max_len interval l"
  shows "tx_phase (lk_tx l) = Lazy \<or> (\<exists>i. tx_phase (lk_tx l) = Connected i NoWrite \<and> cn_in (lk_conns l i) = [] \<and>
    ox_deque (dl_outbox (tx_deliveries (lk_tx l))) = [])" "tx_receiver (lk_tx l) = []"
proof -
  have h: "healthy l" "link_inv cd l" using assms(2) by (simp_all add: live_inv_def)
  have no: "good_step cd max_len interval l l' \<Longrightarrow> False" for l' using assms(1) by blast
  show "tx_phase (lk_tx l) = Lazy \<or> (\<exists>i. tx_phase (lk_tx l) = Connected i NoWrite \<and> cn_in (lk_conns l i) = [] \<and>
    ox_deque (dl_outbox (tx_deliveries (lk_tx l))) = [])"
  proof (cases "tx_phase (lk_tx l)")
    case Connecting
    then show ?thesis using no [OF good_step.dial [OF _ refl]] by simp
  next
    case (Connected i ws)
    have "cn_in (lk_conns l i) = []" using no [OF good_step.response [OF Connected]] by (metis neq_Nil_conv)
    moreover have "ws = NoWrite"
    proof (rule ccontr)
      assume ws: "ws \<noteq> NoWrite"
      then obtain msg rest where "ox_deque (dl_outbox (tx_deliveries (lk_tx l))) = msg # rest"
        using writing_nonempty [OF h(2) Connected] by (metis neq_Nil_conv)
      then show False using ws Connected no [OF good_step.on_wire] no [OF good_step.write_done] by (cases ws) auto
    qed
    moreover have "ox_deque (dl_outbox (tx_deliveries (lk_tx l))) = []"
      using no [OF good_step.begin_write] Connected calculation(2) by blast
    ultimately show ?thesis using Connected by simp
  qed (use h(1) in \<open>auto simp: healthy_def\<close>)
  then show "tx_receiver (lk_tx l) = []" using no [OF good_step.lazy] no [OF good_step.accept] by blast
qed

lemma rest_receiver:
  assumes "\<And>l'. \<not> good_step cd max_len interval l l'" "healthy l" "tx_phase (lk_tx l) = Connected i ws"
    "nx_ack (rx_next (lk_rx l)) \<le> nx_seq (rx_next (lk_rx l))" "\<forall>b bs e. cn_out (lk_conns l i) = b # bs \<longrightarrow> recv_frame cd b (lk_rx l) \<noteq> Inl e"
  shows "cn_out (lk_conns l i) = []" "nx_ack (rx_next (lk_rx l)) = nx_seq (rx_next (lk_rx l))"
proof -
  have no: "good_step cd max_len interval l l' \<Longrightarrow> False" for l' using assms(1) by blast
  have s: "shared_conn i l" "rx_open (lk_rx l)" using assms(2,3) by (simp_all add: healthy_def)
  have "lk_arriving l = []" using no [OF good_step.arrive] s(2) by (metis list.set_intros(1) neq_Nil_conv)
  moreover have "rx_waiting (lk_rx l) = []" if "rx_conn (lk_rx l) = None"
    using no [OF good_step.take_conn [OF s(2) that]] by blast
  ultimately have c: "rx_conn (lk_rx l) = Some i" using s(1) by (cases "rx_conn (lk_rx l)") (auto simp: shared_conn_def append_eq_Cons_conv)
  show "cn_out (lk_conns l i) = []"
  proof (cases "cn_out (lk_conns l i)")
    case (Cons b bs)
    then obtain r where "recv_frame cd b (lk_rx l) = Inr r" using assms(5) by (cases "recv_frame cd b (lk_rx l)") auto
    then show ?thesis using no [OF good_step.receive [OF c Cons]] by blast
  qed
  have "rx_pending (lk_rx l) = None" using no [OF good_step.ack_written [OF c]] by (metis option.exhaust prod.exhaust)
  then have "\<not> ack_behind interval True (rx_next (lk_rx l))" using no [OF good_step.begin_ack [OF c]] by blast
  then show "nx_ack (rx_next (lk_rx l)) = nx_seq (rx_next (lk_rx l))" using assms(4) by (auto simp: ack_behind_def)
qed

lemma taken_all:
  assumes "\<forall>m \<in> set ms. \<forall>s. cd_serialize cd (s, m) \<noteq> None"
  shows "taken cd (length ms) ms = indexed ms"
proof -
  have "assign cd s xs = xs" if "\<forall>x \<in> set xs. \<forall>s. cd_serialize cd (s, fst x) \<noteq> None" for s xs
    using that by (induction cd s xs rule: assign.induct) (auto, metis option.distinct(1))
  moreover have "\<forall>x \<in> set (indexed ms). fst x \<in> set ms" unfolding indexed_def by (metis prod.collapse set_zip_leftD)
  ultimately show ?thesis using assms by (simp add: taken_def)
qed

lemma all_accepted:
  assumes "fst ` set xs = {..<n}" "distinct (map fst xs)" "snd ` set xs \<subseteq> {Accepted}"
  shows "mset xs = mset (map (\<lambda>j. (j, Accepted)) [0..<n])"
proof -
  have "(\<lambda>j. (j, Accepted)) ` fst ` set xs = set xs" using assms(3) by (force simp: image_image)
  then have "set xs = set (map (\<lambda>j. (j, Accepted)) [0..<n])" using assms(1) by (simp add: atLeast0LessThan)
  moreover have "distinct xs" "distinct (map (\<lambda>j. (j, Accepted)) [0..<n])"
    using assms(2) by (auto simp: distinct_map inj_on_def)
  ultimately show ?thesis by (metis set_eq_iff_mset_eq_distinct)
qed

lemma rest_delivered:
  fixes l :: "('m, 'b) link"
  assumes "\<And>l'. \<not> good_step cd max_len interval l l'" "live_inv cd max_len interval l"
  shows "rx_delivered (lk_rx l) = lk_posted l"
    and "acks_ok l \<Longrightarrow> mset (tx_done (lk_tx l)) = mset (map (\<lambda>j. (j, Accepted)) [0..<length (lk_posted l)])"
proof -
  let ?n = "nx_seq (rx_next (lk_rx l))" and ?d = "tx_deliveries (lk_tx l)"
  have h: "healthy l" "codec_ok cd" "link_inv cd l" using assms(2) by (simp_all add: live_inv_def)
  obtain k A a u where run: "run_inv cd k A a u l" using live_run [OF assms(2)] .
  note tx = rest_sender [OF assms]
  have nums: "tx_nums cd A ?n a u ?d" and b: "base_inv cd k A l" and dn: "done_running A k a (tx_done (lk_tx l))"
    and rc: "tx_receiver (lk_tx l) = drop k (indexed (lk_posted l))" using run by (simp_all add: run_inv_def tx_inv_def)
  have rx: "?n \<le> length A" "nx_ack (rx_next (lk_rx l)) \<le> ?n" "rx_delivered (lk_rx l) = map fst (take ?n A)"
    using b unfolding base_inv_def rx_inv_def by blast+
  have k: "k = length (lk_posted l)" using tx_running(1) [OF run] rc tx(2) by simp
  have ser: "\<forall>m \<in> set (lk_posted l). \<forall>s. cd_serialize cd (s, m) \<noteq> None"
    using assms(2) unfolding live_inv_def fits_def by (metis option.distinct(1))
  have A: "A = indexed (lk_posted l)" using tx_running(2) [OF run] taken_all [OF ser] k by simp
  have n: "?n = length A" and end_conn: "A \<noteq> [] \<Longrightarrow> \<exists>i. tx_phase (lk_tx l) = Connected i NoWrite \<and> cn_in (lk_conns l i) = [] \<and>
      nx_ack (rx_next (lk_rx l)) = ?n \<and> u = length A"
  proof -
    have lazy: "A = []" if "tx_phase (lk_tx l) = Lazy" using run that by (simp add: run_inv_def tx_inv_def)
    have conn: "nx_ack (rx_next (lk_rx l)) = ?n \<and> u = length A \<and> ?n = length A"
      if ph: "tx_phase (lk_tx l) = Connected i NoWrite" "ox_deque (dl_outbox ?d) = []" for i
    proof -
      have "\<forall>x xs e. cn_out (lk_conns l i) = x # xs \<longrightarrow> recv_frame cd x (lk_rx l) \<noteq> Inl e"
        using recv_never_fails [OF h(2,3)] by blast
      note rest = rest_receiver [OF assms(1) h(1) ph(1) rx(2) this]
      have u: "u = length A" using ph(2) nums by (auto simp: tx_nums_def)
      have "\<not> cn_cut (lk_conns l i)" using h(1) ph(1) by (simp add: healthy_def shared_conn_def)
      then have "u \<le> ?n" using run ph(1) rest(1) by (auto simp: run_inv_def tx_inv_def tx_conn_def)
      then show ?thesis using rest(2) u rx(1) by auto
    qed
    show "?n = length A" using tx(1) lazy conn rx(1) by auto
    show "\<exists>i. tx_phase (lk_tx l) = Connected i NoWrite \<and> cn_in (lk_conns l i) = [] \<and> nx_ack (rx_next (lk_rx l)) = ?n \<and> u = length A" if "A \<noteq> []"
      using tx(1) lazy conn that by blast
  qed
  show "rx_delivered (lk_rx l) = lk_posted l" using rx(3) n A by (simp add: indexed_def)
  show "mset (tx_done (lk_tx l)) = mset (map (\<lambda>j. (j, Accepted)) [0..<length (lk_posted l)])" if acks: "acks_ok l"
  proof -
    have "a = length A"
    proof (cases "A = []")
      case False
      then obtain x where x: "largest l = Some x" "?n \<le> Suc x" and u: "u = length A"
        using end_conn acks n by (auto simp: acks_ok_def)
      then have "\<not> a < u" using nums n by (auto simp: tx_nums_def largest_def)
      then show ?thesis using u nums by (auto simp: tx_nums_def)
    qed (use nums in \<open>auto simp: tx_nums_def\<close>)
    then have "fst ` set (tx_done (lk_tx l)) = {..<length (lk_posted l)}" "distinct (map fst (tx_done (lk_tx l)))"
      "snd ` set (tx_done (lk_tx l)) \<subseteq> {Accepted}"
      using dn k A by (auto simp: done_running_def set_conv_nth image_iff)
    then show ?thesis by (rule all_accepted)
  qed
qed

section \<open>Recovery\<close>

text \<open>C5: A channel recovers. From every state a channel can reach through any faults in which the sender
  is about to connect and the receiver waits for a connection, and from then on without faults,
  the steps come to an end, they can always be continued to an end, and in the end every message
  posted has been delivered, in order.\<close>

theorem channel_recovers:
  assumes "codec_ok cd" "0 < interval" "link_run cd max_len interval l" "\<forall>m \<in> set (lk_posted l). fits cd max_len m"
    "tx_phase (lk_tx l) \<in> {Lazy, Connecting}" "\<not> tx_app_closed (lk_tx l)"
    "rx_open (lk_rx l)" "rx_conn (lk_rx l) = None" "rx_waiting (lk_rx l) = []" "lk_arriving l = []"
  shows "(\<forall>j l'. (good_step cd max_len interval ^^ j) l l' \<longrightarrow> j \<le> work_left l) \<and>
    (\<exists>l'. (good_step cd max_len interval)\<^sup>*\<^sup>* l l' \<and> (\<nexists>l''. good_step cd max_len interval l' l'')) \<and>
    (\<forall>l'. (good_step cd max_len interval)\<^sup>*\<^sup>* l l' \<longrightarrow> (\<nexists>l''. good_step cd max_len interval l' l'') \<longrightarrow>
       rx_delivered (lk_rx l') = lk_posted l)"
proof -
  have inv: "link_inv cd l" by (rule link_run_inv [OF assms(3,1,2)])
  then obtain k A where "base_inv cd k A l" by (auto simp: link_inv_def run_inv_def end_inv_def)
  then have "rx_pending (lk_rx l) = None" using assms(8) by (cases "rx_pending (lk_rx l)") (auto simp: base_inv_def pending_inv_def)
  then have live: "live_inv cd max_len interval l" using inv assms by (auto simp: live_inv_def healthy_def idle_rx_def)
  have run: "live_inv cd max_len interval l' \<and> lk_posted l' = lk_posted l" if "(good_step cd max_len interval)\<^sup>*\<^sup>* l l'" for l'
    using that
  proof (induction rule: rtranclp_induct)
    case (step l1 l2)
    then show ?case using live_step(1) good_progress by (metis progress_def)
  qed (use live in simp)
  have "rx_delivered (lk_rx l') = lk_posted l"
    if "(good_step cd max_len interval)\<^sup>*\<^sup>* l l'" "\<nexists>l''. good_step cd max_len interval l' l''" for l'
    using rest_delivered(1) [of cd max_len interval l'] run [OF that(1)] that(2) by auto
  then show ?thesis using channel.run_bound [OF live] channel.settles [OF live] by blast
qed

text \<open>The run whose acknowledgement was lost, before the sender connects again, with another message.\<close>

definition ex_broken :: "(nat, nat \<times> nat) link" where
  "ex_broken = \<lparr>lk_tx = \<lparr>tx_deliveries = \<lparr>dl_outbox = \<lparr>ox_next_seq = 1, ox_deque = []\<rparr>,
         dl_unacked = \<lparr>ua_deque = [\<lparr>q_seq = 0, q_message = (0, 7), q_sink = 0\<rparr>], ua_largest_acked = None\<rparr>\<rparr>,
       tx_receiver = [(8, 1)], tx_app_closed = False, tx_phase = Connecting, tx_done = []\<rparr>,
     lk_rx = \<lparr>rx_next = \<lparr>nx_seq = 1, nx_ack = 1\<rparr>, rx_delivered = [7], rx_conn = None, rx_waiting = [], rx_pending = None,
       rx_open = True\<rparr>,
     lk_conns = (\<lambda>_. \<lparr>cn_out = [], cn_in = [], cn_cut = False\<rparr>)(0 := \<lparr>cn_out = [], cn_in = [], cn_cut = True\<rparr>),
     lk_count = 1, lk_arriving = [], lk_posted = [7, 8], lk_failed = False\<rparr>"

lemma ex_broken_reached: "link_run ex_codec 100 1 ex_broken"
proof -
  have "run_acts ex_codec 100 1 (take 14 ex_lost_ack @ [APost 8]) link_new = Some ex_broken"
    by (simp add: ex_lost_ack_def link_eval ex_broken_def fun_eq_iff)
  from run_acts_link [OF this] show ?thesis unfolding link_run_def .
qed

lemma ex_fits: "fits ex_codec 100 m"
  by (simp add: fits_def ex_codec_def)

theorem channel_recovers_witness: "\<exists>l'. (good_step ex_codec 100 1)\<^sup>*\<^sup>* ex_broken l' \<and> rx_delivered (lk_rx l') = [7, 8]"
proof -
  have "tx_phase (lk_tx ex_broken) \<in> {Lazy, Connecting}" "\<not> tx_app_closed (lk_tx ex_broken)" "rx_open (lk_rx ex_broken)"
    "rx_conn (lk_rx ex_broken) = None" "rx_waiting (lk_rx ex_broken) = []" "lk_arriving ex_broken = []" "lk_posted ex_broken = [7, 8]"
    by (simp_all add: ex_broken_def)
  then show ?thesis using channel_recovers [OF ex_codec_ok _ ex_broken_reached] ex_fits by (metis zero_less_one)
qed

text \<open>Runs in which nothing fails: messages are posted and both tasks go on.\<close>

definition quiet_step :: "('m, 'b) codec \<Rightarrow> nat \<Rightarrow> nat \<Rightarrow> ('m, 'b) link \<Rightarrow> ('m, 'b) link \<Rightarrow> bool" where
  "quiet_step cd max_len interval l l' \<longleftrightarrow> good_step cd max_len interval l l' \<or>
     (\<exists>m. l' = l\<lparr>lk_tx := do_post m (length (lk_posted l)) (lk_tx l), lk_posted := lk_posted l @ [m]\<rparr>)"

lemma quiet_inv:
  assumes "codec_ok cd" "0 < interval" "(quiet_step cd max_len interval)\<^sup>*\<^sup>* link_new l" "\<forall>m \<in> set (lk_posted l). fits cd max_len m"
  shows "live_inv cd max_len interval l \<and> acks_ok l"
  using assms(3,4)
proof (induction rule: rtranclp_induct)
  case base
  show ?case using assms(1,2) link_inv_new
    by (simp add: live_inv_def healthy_def idle_rx_def acks_ok_def link_new_def tx_new_def rx_new_def)
next
  case (step l1 l2)
  show ?case
  proof (cases "good_step cd max_len interval l1 l2")
    case False
    then obtain m where l2: "l2 = l1\<lparr>lk_tx := do_post m (length (lk_posted l1)) (lk_tx l1), lk_posted := lk_posted l1 @ [m]\<rparr>"
      using step.hyps(2) by (auto simp: quiet_step_def)
    then have live: "live_inv cd max_len interval l1" "acks_ok l1" using step by simp_all
    then have "link_inv cd l2" unfolding l2 by (intro post_inv) (simp add: live_inv_def)
    moreover have "healthy l2" "acks_ok l2" using live
      by (auto simp: l2 live_inv_def healthy_def idle_rx_def shared_conn_def acks_ok_def largest_def do_post_def split: tx_phase.splits)
    ultimately show ?thesis using live(1) step.prems by (simp add: live_inv_def)
  next
    case True
    have "lk_posted l2 = lk_posted l1" using True by (auto simp: set_tx_def set_rx_def put_out_def put_in_def Let_def
        elim!: good_step.cases split: option.splits)
    then show ?thesis using step good_progress [OF True] live_step(1) [OF _ True] by (simp add: progress_def)
  qed
qed

text \<open>C8: Without faults every message is delivered and accepted. However posting and the steps of both
  tasks interleave, the tasks come to rest once posting stops; then the receiver has delivered
  exactly the messages posted, in order, and each has been reported accepted once.\<close>

theorem channel_delivers:
  assumes "codec_ok cd" "0 < interval" "(quiet_step cd max_len interval)\<^sup>*\<^sup>* link_new l" "\<forall>m \<in> set (lk_posted l). fits cd max_len m"
  shows "(\<forall>j l'. (good_step cd max_len interval ^^ j) l l' \<longrightarrow> j \<le> work_left l) \<and>
    ((\<nexists>l'. good_step cd max_len interval l l') \<longrightarrow> rx_delivered (lk_rx l) = lk_posted l \<and>
       mset (tx_done (lk_tx l)) = mset (map (\<lambda>j. (j, Accepted)) [0..<length (lk_posted l)]))"
proof -
  have live: "live_inv cd max_len interval l" "acks_ok l" using quiet_inv [OF assms] by simp_all
  show ?thesis using channel.run_bound [OF live(1)] rest_delivered [OF _ live(1)] live(2) by blast
qed

definition ex_quiet_acts :: "nat act list" where
  "ex_quiet_acts = [APost 7, ALazy, ADial, ABeginWrite, AOnWire, AWriteDone, AArrive 0, ATakeConn, AReceive, ABeginAck, AAckWritten,
     AResponse]"

definition ex_quiet :: "(nat, nat \<times> nat) link" where
  "ex_quiet = \<lparr>lk_tx = \<lparr>tx_deliveries = \<lparr>dl_outbox = \<lparr>ox_next_seq = 1, ox_deque = []\<rparr>,
         dl_unacked = \<lparr>ua_deque = [], ua_largest_acked = Some 0\<rparr>\<rparr>,
       tx_receiver = [], tx_app_closed = False, tx_phase = Connected 0 NoWrite, tx_done = [(0, Accepted)]\<rparr>,
     lk_rx = \<lparr>rx_next = \<lparr>nx_seq = 1, nx_ack = 1\<rparr>, rx_delivered = [7], rx_conn = Some 0, rx_waiting = [], rx_pending = None,
       rx_open = True\<rparr>,
     lk_conns = (\<lambda>_. \<lparr>cn_out = [], cn_in = [], cn_cut = False\<rparr>),
     lk_count = 1, lk_arriving = [], lk_posted = [7], lk_failed = False\<rparr>"

definition is_fault :: "'m act \<Rightarrow> bool" where
  "is_fault x = (case x of ASendEnds \<Rightarrow> True | ATimeout \<Rightarrow> True | ARecvEnds \<Rightarrow> True | ACut _ _ _ \<Rightarrow> True | _ \<Rightarrow> False)"

lemma act_step_quiet:
  assumes "act_step cd max_len interval x l = Some l'" "\<not> is_fault x"
  shows "quiet_step cd max_len interval l l'"
proof (cases "x = ADial")
  case True
  then show ?thesis
    using assms good_step.dial [OF _ refl, of l cd max_len interval] by (auto simp: quiet_step_def split: if_splits)
next
  case False
  with assms show ?thesis
    by (cases x) (auto simp: quiet_step_def is_fault_def phase_conn_Some
        split: if_splits option.splits prod.splits write_state.splits list.splits sum.splits intro: good_step.intros)
qed

lemma run_acts_quiet:
  assumes "run_acts cd max_len interval xs l = Some l'" "\<forall>x \<in> set xs. \<not> is_fault x"
  shows "(quiet_step cd max_len interval)\<^sup>*\<^sup>* l l'"
  using assms
proof (induction xs arbitrary: l)
  case (Cons x xs)
  then obtain l1 where "act_step cd max_len interval x l = Some l1" "run_acts cd max_len interval xs l1 = Some l'"
    by (auto split: option.splits)
  then show ?case using Cons act_step_quiet by (metis converse_rtranclp_into_rtranclp list.set_intros)
qed simp

lemma ex_quiet_reached: "(quiet_step ex_codec 100 1)\<^sup>*\<^sup>* link_new ex_quiet"
proof -
  have "run_acts ex_codec 100 1 ex_quiet_acts link_new = Some ex_quiet"
    by (simp add: ex_quiet_acts_def link_eval ex_quiet_def fun_eq_iff)
  then show ?thesis by (rule run_acts_quiet) (simp add: ex_quiet_acts_def is_fault_def)
qed

lemma ex_quiet_rests: "\<not> good_step ex_codec 100 1 ex_quiet l"
  by (auto simp: ex_quiet_def ack_behind_def elim!: good_step.cases)

theorem channel_delivers_witness: "rx_delivered (lk_rx ex_quiet) = [7] \<and> mset (tx_done (lk_tx ex_quiet)) = {#(0, Accepted)#}"
proof -
  have "lk_posted ex_quiet = [7]" by (simp add: ex_quiet_def)
  then show ?thesis using channel_delivers [OF ex_codec_ok _ ex_quiet_reached] ex_fits ex_quiet_rests by (simp add: upt_rec)
qed

end
