(* ===== verification/Ack_Watermark.thy ===== *)
theory Ack_Watermark
  imports Prelude
begin

text \<open>
  Model of \<open>AckWatermark\<close> in \<open>hyperactor/src/channel/net/session.rs\<close>: the streams of a
  multi-stream session record the numbers they receive, in any order, and share the decision what
  to acknowledge. A \<open>BTreeSet\<close> is a strictly ascending list; whether the time between
  acknowledgements has passed is an argument of \<open>poll\<close>.
\<close>

record ack_watermark =
  aw_received :: "nat list"
  aw_highest_contiguous :: "nat option"
  aw_ack_msg_interval :: nat
  aw_last_reported :: "nat option"
  aw_last_committed :: "nat option"
  aw_msgs_since_report :: nat

definition ack_watermark_new :: "nat \<Rightarrow> ack_watermark" where
  "ack_watermark_new interval = \<lparr>aw_received = [], aw_highest_contiguous = None, aw_ack_msg_interval = interval,
     aw_last_reported = None, aw_last_committed = None, aw_msgs_since_report = 0\<rparr>"

text \<open>The loop that takes the numbers off the front that extend the run.\<close>

fun drain_contiguous :: "nat \<Rightarrow> nat list \<Rightarrow> nat \<times> nat list" where
  "drain_contiguous cur [] = (cur, [])"
| "drain_contiguous cur (x # xs) = (if x = cur + 1 then drain_contiguous (cur + 1) xs else (cur, x # xs))"

definition aw_next_expected :: "ack_watermark \<Rightarrow> nat" where
  "aw_next_expected w = (case aw_highest_contiguous w of None \<Rightarrow> 0 | Some h \<Rightarrow> h + 1)"

definition aw_record :: "nat \<Rightarrow> ack_watermark \<Rightarrow> nat option \<times> ack_watermark" where
  "aw_record seq w =
     (let w1 =
        (if seq = aw_next_expected w
         then (case drain_contiguous seq (aw_received w) of
                 (cur, rest) \<Rightarrow> w\<lparr>aw_received := rest, aw_highest_contiguous := Some cur,
                   aw_msgs_since_report := aw_msgs_since_report w + 1\<rparr>)
         else if aw_next_expected w < seq
         then (if seq \<in> set (aw_received w) then w
               else w\<lparr>aw_received := insort seq (aw_received w), aw_msgs_since_report := aw_msgs_since_report w + 1\<rparr>)
         else w)
      in (aw_highest_contiguous w1, w1))"

definition aw_poll :: "bool \<Rightarrow> ack_watermark \<Rightarrow> nat option \<times> ack_watermark" where
  "aw_poll time_due w =
     (if aw_msgs_since_report w = 0 then (None, w)
      else if \<not> aw_ack_msg_interval w \<le> aw_msgs_since_report w \<and> \<not> time_due then (None, w)
      else case aw_highest_contiguous w of
        None \<Rightarrow> (None, w)
      | Some watermark \<Rightarrow>
          if (case aw_last_reported w of None \<Rightarrow> False | Some r \<Rightarrow> watermark \<le> r) then (None, w)
          else (Some watermark, w\<lparr>aw_last_reported := Some watermark, aw_msgs_since_report := 0\<rparr>))"

definition aw_commit :: "nat \<Rightarrow> ack_watermark \<Rightarrow> ack_watermark" where
  "aw_commit seq w =
     (if (case aw_last_committed w of None \<Rightarrow> True | Some c \<Rightarrow> c < seq) then w\<lparr>aw_last_committed := Some seq\<rparr> else w)"

text \<open>The larger of the last number received ahead and the end of the run.\<close>

definition max_seen :: "ack_watermark \<Rightarrow> nat option" where
  "max_seen w =
     (if aw_received w = [] then aw_highest_contiguous w
      else Some (case aw_highest_contiguous w of None \<Rightarrow> last (aw_received w) | Some h \<Rightarrow> max (last (aw_received w)) h))"

definition highest_uncommitted :: "ack_watermark \<Rightarrow> nat option" where
  "highest_uncommitted w =
     (case max_seen w of
        None \<Rightarrow> None
      | Some m \<Rightarrow> if (case aw_last_committed w of None \<Rightarrow> False | Some c \<Rightarrow> m \<le> c) then None else Some m)"

section \<open>The invariant\<close>

text \<open>\<open>R\<close> are the numbers recorded so far.\<close>

definition wm_inv :: "nat set \<Rightarrow> ack_watermark \<Rightarrow> bool" where
  "wm_inv R w \<longleftrightarrow> sorted_wrt (<) (aw_received w) \<and> {..<aw_next_expected w} \<subseteq> R \<and> aw_next_expected w \<notin> R \<and>
     set (aw_received w) = R - {..<aw_next_expected w} \<and> (\<forall>r. aw_last_reported w = Some r \<longrightarrow> r < aw_next_expected w)"

lemma drain_contiguous_spec:
  assumes "drain_contiguous cur xs = (c, rest)" "sorted_wrt (<) xs" "\<forall>x \<in> set xs. cur < x"
  shows "sorted_wrt (<) rest \<and> cur \<le> c \<and> {cur<..c} \<subseteq> set xs \<and> Suc c \<notin> set xs \<and> set rest = set xs - {..c}"
  using assms
proof (induction cur xs rule: drain_contiguous.induct)
  case (2 cur x xs)
  show ?case
  proof (cases "x = cur + 1")
    case True
    then have "sorted_wrt (<) rest \<and> Suc cur \<le> c \<and> {Suc cur<..c} \<subseteq> set xs \<and> Suc c \<notin> set xs \<and> set rest = set xs - {..c}"
      using 2 by auto
    moreover from this have "y \<in> set (x # xs)" if "cur < y" "y \<le> c" for y using that True by (cases "y = Suc cur") auto
    then have "{cur<..c} \<subseteq> set (x # xs)" by (metis greaterThanAtMost_iff subsetI)
    ultimately show ?thesis using True by auto
  next
    case False
    then have c: "c = cur" "rest = x # xs" using "2.prems"(1) by auto
    have "Suc cur < x" using False "2.prems"(3) by auto
    then show ?thesis using c "2.prems"(2) by fastforce
  qed
qed auto

lemma insort_strict: "sorted_wrt (<) xs \<Longrightarrow> x \<notin> set xs \<Longrightarrow> sorted_wrt (<) (insort x xs)" for x :: nat
  by (simp add: strict_sorted_iff sorted_insort distinct_insort)

lemma aw_record_inv:
  assumes "wm_inv R w"
  shows "wm_inv (insert seq R) (snd (aw_record seq w))"
proof -
  have w: "sorted_wrt (<) (aw_received w)" "{..<aw_next_expected w} \<subseteq> R" "aw_next_expected w \<notin> R"
    "set (aw_received w) = R - {..<aw_next_expected w}" "\<forall>r. aw_last_reported w = Some r \<longrightarrow> r < aw_next_expected w"
    using assms by (simp_all add: wm_inv_def)
  consider "seq = aw_next_expected w" | "aw_next_expected w < seq" | "seq < aw_next_expected w" by linarith
  then show ?thesis
  proof cases
    case 1
    obtain c rest where d: "drain_contiguous seq (aw_received w) = (c, rest)" by fastforce
    have "\<forall>x \<in> set (aw_received w). seq < x" using w(3,4) 1 by (metis DiffD1 DiffD2 lessThan_iff linorder_neqE_nat)
    from drain_contiguous_spec [OF d w(1) this]
    have s: "sorted_wrt (<) rest" "seq \<le> c" "{seq<..c} \<subseteq> set (aw_received w)" "Suc c \<notin> set (aw_received w)"
      "set rest = set (aw_received w) - {..c}" by simp_all
    let ?w = "w\<lparr>aw_received := rest, aw_highest_contiguous := Some c, aw_msgs_since_report := aw_msgs_since_report w + 1\<rparr>"
    have n: "aw_next_expected ?w = Suc c" by (simp add: aw_next_expected_def)
    have "{..<Suc c} \<subseteq> insert seq R"
    proof
      fix x
      assume "x \<in> {..<Suc c}"
      then have "x < seq \<or> x = seq \<or> x \<in> {seq<..c}" by auto
      moreover have "x \<in> R" if "x < seq" using w(2) 1 that by blast
      moreover have "x \<in> R" if "x \<in> {seq<..c}" using w(4) s(3) that by blast
      ultimately show "x \<in> insert seq R" by blast
    qed
    moreover have "Suc c \<notin> insert seq R"
    proof -
      have "Suc c \<notin> R - {..<aw_next_expected w}" using s(4) w(4) by blast
      then show ?thesis using s(2) 1 by simp
    qed
    moreover have "set rest = insert seq R - {..<Suc c}"
    proof -
      have "set rest = R - {..<seq} - {..c}" using s(5) w(4) 1 by blast
      moreover have "{..<seq} \<subseteq> {..c}" "seq \<in> {..c}" using s(2) by auto
      ultimately show ?thesis by (auto simp: lessThan_Suc_atMost)
    qed
    moreover have "\<forall>r. aw_last_reported w = Some r \<longrightarrow> r < Suc c" using w(5) s(2) 1 by (meson less_SucI less_le_trans)
    ultimately have "wm_inv (insert seq R) ?w" using s(1) n by (simp add: wm_inv_def)
    then show ?thesis using 1 d by (simp add: aw_record_def)
  next
    case 2
    show ?thesis
    proof (cases "seq \<in> set (aw_received w)")
      case True
      then have "insert seq R = R" using w(4) by auto
      then show ?thesis using assms 2 True by (simp add: aw_record_def)
    next
      case False
      let ?w = "w\<lparr>aw_received := insort seq (aw_received w), aw_msgs_since_report := aw_msgs_since_report w + 1\<rparr>"
      have n: "aw_next_expected ?w = aw_next_expected w" by (simp add: aw_next_expected_def)
      have "sorted_wrt (<) (insort seq (aw_received w))" by (rule insort_strict [OF w(1) False])
      moreover have "set (insort seq (aw_received w)) = insert seq R - {..<aw_next_expected w}"
        unfolding set_insort_key w(4) using 2 by auto
      moreover have "{..<aw_next_expected w} \<subseteq> insert seq R" "aw_next_expected w \<notin> insert seq R" using w(2,3) 2 by auto
      ultimately have "wm_inv (insert seq R) ?w" using w(5) unfolding wm_inv_def n by simp
      then show ?thesis using 2 False by (simp add: aw_record_def)
    qed
  next
    case 3
    then have "seq \<in> R" using w(2) by auto
    then show ?thesis using assms 3 by (simp add: aw_record_def insert_absorb)
  qed
qed

lemma aw_poll_inv:
  assumes "wm_inv R w" "aw_poll time_due w = (v, w1)"
  shows "wm_inv R w1" "v = Some x \<Longrightarrow> {..x} \<subseteq> R \<and> aw_last_reported w1 = Some x \<and> (\<forall>r. aw_last_reported w = Some r \<longrightarrow> r < x)"
    "v = None \<Longrightarrow> w1 = w"
proof -
  consider "v = None" "w1 = w"
    | h where "v = Some h" "aw_highest_contiguous w = Some h" "w1 = w\<lparr>aw_last_reported := Some h, aw_msgs_since_report := 0\<rparr>"
      "\<forall>r. aw_last_reported w = Some r \<longrightarrow> r < h"
  proof (cases "aw_msgs_since_report w = 0 \<or> \<not> aw_ack_msg_interval w \<le> aw_msgs_since_report w \<and> \<not> time_due")
    case False
    show ?thesis
    proof (cases "aw_highest_contiguous w")
      case None
      then show ?thesis using False assms(2) that(1) by (auto simp: aw_poll_def)
    next
      case (Some h)
      show ?thesis
      proof (cases "\<forall>r. aw_last_reported w = Some r \<longrightarrow> r < h")
        case True
        then have "\<not> (case aw_last_reported w of None \<Rightarrow> False | Some r \<Rightarrow> h \<le> r)" by (auto split: option.splits)
        then have "aw_poll time_due w = (Some h, w\<lparr>aw_last_reported := Some h, aw_msgs_since_report := 0\<rparr>)"
          using False Some by (auto simp: aw_poll_def)
        then show ?thesis using assms(2) that(2) [OF _ Some _ True] by simp
      next
        case not_new: False
        then have "case aw_last_reported w of None \<Rightarrow> False | Some r \<Rightarrow> h \<le> r" by auto
        then have "aw_poll time_due w = (None, w)" using Some by (auto simp: aw_poll_def)
        then show ?thesis using assms(2) that(1) by simp
      qed
    qed
  next
    case True
    then show ?thesis using assms(2) that(1) by (simp add: aw_poll_def split: if_splits)
  qed
  then have "wm_inv R w1 \<and> (v = Some x \<longrightarrow> {..x} \<subseteq> R \<and> aw_last_reported w1 = Some x \<and> (\<forall>r. aw_last_reported w = Some r \<longrightarrow> r < x)) \<and>
    (v = None \<longrightarrow> w1 = w)"
  proof cases
    case (2 h)
    have n: "aw_next_expected w1 = aw_next_expected w" "aw_next_expected w = Suc h" using 2 by (simp_all add: aw_next_expected_def)
    have "aw_received w1 = aw_received w" "aw_last_reported w1 = Some h" using 2(3) by simp_all
    then have "wm_inv R w1" using assms(1) unfolding wm_inv_def n by simp
    moreover have "{..h} \<subseteq> R" using assms(1) by (simp add: wm_inv_def n(2) lessThan_Suc_atMost)
    ultimately show ?thesis using 2(1,4) \<open>aw_last_reported w1 = Some h\<close> by auto
  qed (use assms(1) in simp)
  then show "wm_inv R w1" "v = Some x \<Longrightarrow> {..x} \<subseteq> R \<and> aw_last_reported w1 = Some x \<and> (\<forall>r. aw_last_reported w = Some r \<longrightarrow> r < x)"
    "v = None \<Longrightarrow> w1 = w" by blast+
qed

lemma aw_commit_inv: "wm_inv R w \<Longrightarrow> wm_inv R (aw_commit seq w)"
  by (simp add: aw_commit_def wm_inv_def aw_next_expected_def)

lemma max_seen_inv:
  assumes "wm_inv R w"
  shows "max_seen w = (if R = {} then None else Some (Max R))"
proof -
  have w: "sorted_wrt (<) (aw_received w)" "{..<aw_next_expected w} \<subseteq> R" "aw_next_expected w \<notin> R"
    "set (aw_received w) = R - {..<aw_next_expected w}" using assms by (simp_all add: wm_inv_def)
  have R: "R = {..<aw_next_expected w} \<union> set (aw_received w)" using w(2,4) by auto
  have fin: "finite R" unfolding R by simp
  show ?thesis
  proof (cases "aw_received w = []")
    case True
    then have "R = {..<aw_next_expected w}" using R by simp
    moreover have "Max {..<Suc h} = h" "{..<Suc h} \<noteq> {}" for h :: nat by (rule Max_eqI) auto
    ultimately show ?thesis using True by (cases "aw_highest_contiguous w") (simp_all add: max_seen_def aw_next_expected_def)
  next
    case False
    let ?x = "last (aw_received w)"
    have x: "?x \<in> R" "\<not> ?x < aw_next_expected w" using False w(4) last_in_set [of "aw_received w"] by auto
    have "sorted (aw_received w)" using w(1) by (simp add: strict_sorted_iff)
    then have "y \<le> ?x" if "y \<in> set (aw_received w)" for y
      using that False by (metis append_butlast_last_id sorted_append list.set_intros(1) set_append UnE set_ConsD empty_iff empty_set order_refl)
    then have "y \<le> ?x" if "y \<in> R" for y using that x(2) R by auto
    then have "Max R = ?x" using x(1) fin by (intro Max_eqI) auto
    then show ?thesis using False x by (auto simp: max_seen_def aw_next_expected_def split: option.splits)
  qed
qed

section \<open>Runs\<close>

datatype aw_op = Record nat | Poll bool | Commit nat

fun aw_run :: "aw_op list \<Rightarrow> ack_watermark \<Rightarrow> nat list \<times> ack_watermark" where
  "aw_run [] w = ([], w)"
| "aw_run (Record seq # ops) w = aw_run ops (snd (aw_record seq w))"
| "aw_run (Poll time_due # ops) w =
     (case aw_poll time_due w of (v, w1) \<Rightarrow> (case aw_run ops w1 of (vs, w2) \<Rightarrow> ((case v of None \<Rightarrow> [] | Some x \<Rightarrow> [x]) @ vs, w2)))"
| "aw_run (Commit seq # ops) w = aw_run ops (aw_commit seq w)"

definition recorded :: "aw_op list \<Rightarrow> nat set" where
  "recorded ops = {seq. Record seq \<in> set ops}"

lemma recorded_simps [simp]:
  "recorded [] = {}" "recorded (Record seq # ops) = insert seq (recorded ops)" "recorded (Poll b # ops) = recorded ops"
  "recorded (Commit seq # ops) = recorded ops"
  by (auto simp: recorded_def)

lemma aw_run_inv:
  assumes "aw_run ops w = (vs, w')" "wm_inv R w"
  shows "wm_inv (R \<union> recorded ops) w' \<and> sorted_wrt (<) vs \<and>
    (\<forall>v \<in> set vs. {..v} \<subseteq> R \<union> recorded ops \<and> (\<forall>r. aw_last_reported w = Some r \<longrightarrow> r < v))"
  using assms
proof (induction ops w arbitrary: vs R rule: aw_run.induct)
  case (2 seq ops w)
  have "aw_last_reported (snd (aw_record seq w)) = aw_last_reported w" by (simp add: aw_record_def Let_def split: prod.splits)
  then show ?case using "2.IH" [of vs "insert seq R"] "2.prems" aw_record_inv [OF "2.prems"(2), of seq] by simp
next
  case (3 time_due ops w)
  obtain v w1 where p: "aw_poll time_due w = (v, w1)" by fastforce
  obtain vs1 where r: "aw_run ops w1 = (vs1, w')" "vs = (case v of None \<Rightarrow> [] | Some x \<Rightarrow> [x]) @ vs1"
    using "3.prems"(1) p by (auto split: prod.splits)
  note q = aw_poll_inv [OF "3.prems"(2) p]
  have ih: "wm_inv (R \<union> recorded ops) w'" "sorted_wrt (<) vs1"
    "\<forall>v \<in> set vs1. {..v} \<subseteq> R \<union> recorded ops \<and> (\<forall>r. aw_last_reported w1 = Some r \<longrightarrow> r < v)"
    using "3.IH" [OF p [symmetric] r(1) q(1)] by simp_all
  show ?case
  proof (cases v)
    case None
    then show ?thesis using ih r(2) q(3) by simp
  next
    case (Some x)
    have new: "{..x} \<subseteq> R" "\<forall>r. aw_last_reported w = Some r \<longrightarrow> r < x" "\<forall>v \<in> set vs1. x < v"
      using q(2) [OF Some] ih(3) by simp_all
    have "\<forall>v \<in> set vs1. \<forall>r. aw_last_reported w = Some r \<longrightarrow> r < v" using new(2,3) less_trans by blast
    then show ?thesis using ih r(2) Some new by auto
  qed
next
  case (4 seq ops w)
  have "aw_last_reported (aw_commit seq w) = aw_last_reported w" by (simp add: aw_commit_def)
  then show ?case using "4.IH" [of vs R] "4.prems" aw_commit_inv [OF "4.prems"(2), of seq] by simp
qed simp

text \<open>C23: The acknowledgement watermark is exact. However the streams interleave their records, polls and
  commits, the watermark is the largest number up to which everything has been received, the
  acknowledgements handed out are strictly increasing and each covers only numbers that were
  received, and what is reported at the end of a connection is the largest number received at
  all.\<close>

theorem ack_watermark_exact:
  assumes "aw_run ops (ack_watermark_new interval) = (acks, w)"
  shows "(\<forall>h. aw_highest_contiguous w = Some h \<longleftrightarrow> {..h} \<subseteq> recorded ops \<and> Suc h \<notin> recorded ops) \<and>
    sorted_wrt (<) acks \<and> (\<forall>v \<in> set acks. {..v} \<subseteq> recorded ops) \<and>
    max_seen w = (if recorded ops = {} then None else Some (Max (recorded ops)))"
proof -
  have "wm_inv {} (ack_watermark_new interval)" by (simp add: wm_inv_def ack_watermark_new_def aw_next_expected_def)
  note r = aw_run_inv [OF assms this]
  then have inv: "wm_inv (recorded ops) w" "sorted_wrt (<) acks" "\<forall>v \<in> set acks. {..v} \<subseteq> recorded ops" by simp_all
  have n: "{..<aw_next_expected w} \<subseteq> recorded ops" "aw_next_expected w \<notin> recorded ops" using inv(1) by (simp_all add: wm_inv_def)
  have "aw_highest_contiguous w = Some h \<longleftrightarrow> {..h} \<subseteq> recorded ops \<and> Suc h \<notin> recorded ops" for h
  proof
    assume "aw_highest_contiguous w = Some h"
    then show "{..h} \<subseteq> recorded ops \<and> Suc h \<notin> recorded ops" using n by (simp add: aw_next_expected_def lessThan_Suc_atMost)
  next
    assume h: "{..h} \<subseteq> recorded ops \<and> Suc h \<notin> recorded ops"
    then have "\<not> aw_next_expected w \<le> h" using n(2) by blast
    moreover have "\<not> Suc h < aw_next_expected w" using h n(1) by blast
    ultimately have "aw_next_expected w = Suc h" by simp
    then show "aw_highest_contiguous w = Some h" by (simp add: aw_next_expected_def split: option.splits)
  qed
  then show ?thesis using inv max_seen_inv [OF inv(1)] by blast
qed

theorem ack_watermark_exact_witness:
  "fst (aw_run [Record 1, Poll True, Record 0, Poll True, Record 4, Poll True] (ack_watermark_new 10)) = [1] \<and>
    max_seen (snd (aw_run [Record 1, Poll True, Record 0, Poll True, Record 4, Poll True] (ack_watermark_new 10))) = Some 4"
proof -
  let ?ops = "[Record 1, Poll True, Record 0, Poll True, Record 4, Poll True]"
  obtain acks w where r: "aw_run ?ops (ack_watermark_new 10) = (acks, w)" by fastforce
  have "acks = [1]" using r by (auto simp: ack_watermark_new_def aw_record_def aw_poll_def aw_next_expected_def)
  moreover have "max_seen w = Some 4" using ack_watermark_exact [OF r] by simp
  ultimately show ?thesis using r by simp
qed

end
