(* ===== verification/Multi_Stream.thy ===== *)
theory Multi_Stream
  imports Channel_Link Ack_Watermark
begin

text \<open>
  Model of a multi-stream session: the dispatcher and the writers of \<open>spawn_unordered\<close> in
  \<open>hyperactor/src/channel/net.rs\<close>, and on the receiving side \<open>multi_stream_recv_connected\<close>
  (\<open>channel/net/session.rs\<close>) in \<open>dispatch_multi_stream\<close> (\<open>channel/net/server.rs\<close>). The dispatcher
  numbers the messages and puts them into a bounded queue, each writer takes the next one from it,
  serializes it and writes it to its own connection, and the receivers deliver what arrives in any
  order and share one acknowledgement watermark. Nothing is sent twice.

  The network is the one of the single-stream channel. An operation of a task that cannot be done
  in a state is \<open>None\<close>. A message the receiver has delivered is kept with its number.
\<close>

section \<open>The sending side\<close>

record 'm pending_message =
  pm_seq :: nat
  pm_message :: 'm
  pm_sink :: nat

text \<open>A writer: dialling, connected, driving a write (before and after its bytes are on the wire),
  or finished.\<close>

datatype 'b writer =
    Dialing
  | Up nat
  | Sending nat "'b queued_message"
  | Sent nat "'b queued_message"
  | Finished

record ('m, 'b) mtx =
  mt_receiver :: "('m \<times> nat) list"
  mt_app_closed :: bool
  mt_next_seq :: nat
  mt_queue :: "'m pending_message list"
  mt_queue_open :: bool
  mt_unacked :: "(nat \<times> 'b queued_message) list"
  mt_writers :: "'b writer list"
  mt_closed :: bool
  mt_done :: "'m completions"

text \<open>The stream numbers of a session, from 1 on: \<open>i as u8\<close> keeps the low byte.\<close>

definition stream_ids :: "nat \<Rightarrow> 8 word list" where
  "stream_ids num_streams = map of_nat [1..<num_streams + 1]"

definition mtx_new :: "nat \<Rightarrow> ('m, 'b) mtx" where
  "mtx_new num_streams = \<lparr>mt_receiver = [], mt_app_closed = False, mt_next_seq = 0, mt_queue = [], mt_queue_open = True,
     mt_unacked = [], mt_writers = replicate num_streams Dialing, mt_closed = False, mt_done = []\<rparr>"

definition multi_post :: "'m \<Rightarrow> nat \<Rightarrow> ('m, 'b) mtx \<Rightarrow> ('m, 'b) mtx" where
  "multi_post m sink t =
     (if mt_closed t then t\<lparr>mt_done := mt_done t @ [(sink, Rejected m OtherReason)]\<rparr>
      else t\<lparr>mt_receiver := mt_receiver t @ [(m, sink)]\<rparr>)"

text \<open>The dispatcher: the queue has eight places for each stream, and its receiving end is held by
  the dispatcher itself, so that putting a message into it never fails.\<close>

definition dispatch :: "('m, 'b) mtx \<Rightarrow> ('m, 'b) mtx option" where
  "dispatch t =
     (case mt_receiver t of
        [] \<Rightarrow> None
      | (m, sink) # rest \<Rightarrow>
          if length (mt_queue t) < length (mt_writers t) * 8
          then Some (t\<lparr>mt_receiver := rest, mt_next_seq := mt_next_seq t + 1,
                 mt_queue := mt_queue t @ [\<lparr>pm_seq = mt_next_seq t, pm_message = m, pm_sink = sink\<rparr>]\<rparr>)
          else None)"

definition close_queue :: "('m, 'b) mtx \<Rightarrow> ('m, 'b) mtx option" where
  "close_queue t =
     (if mt_queue_open t \<and> mt_receiver t = [] \<and> mt_app_closed t then Some (t\<lparr>mt_queue_open := False\<rparr>) else None)"

text \<open>After the writers have ended.\<close>

definition finish :: "('m, 'b) mtx \<Rightarrow> ('m, 'b) mtx option" where
  "finish t =
     (if \<not> mt_queue_open t \<and> \<not> mt_closed t \<and> set (mt_writers t) \<subseteq> {Finished}
      then Some (t\<lparr>mt_queue := [], mt_unacked := [], mt_closed := True,
             mt_done := mt_done t @ map (\<lambda>p. (pm_sink p, Accepted)) (mt_queue t) @ map (\<lambda>(_, q). (q_sink q, Accepted)) (mt_unacked t)\<rparr>)
      else None)"

definition writer_at :: "nat \<Rightarrow> ('m, 'b) mtx \<Rightarrow> 'b writer option" where
  "writer_at i t = (if i < length (mt_writers t) then Some (mt_writers t ! i) else None)"

definition set_writer :: "nat \<Rightarrow> 'b writer \<Rightarrow> ('m, 'b) mtx \<Rightarrow> ('m, 'b) mtx" where
  "set_writer i w t = t\<lparr>mt_writers := (mt_writers t)[i := w]\<rparr>"

text \<open>A writer takes a message and begins to write it.\<close>

definition pull :: "('m, 'b) codec \<Rightarrow> nat \<Rightarrow> ('m, 'b) mtx \<Rightarrow> ('m, 'b) mtx option" where
  "pull cd i t =
     (case (writer_at i t, mt_queue t) of
        (Some (Up c), p # rest) \<Rightarrow>
          (case cd_serialize cd (pm_seq p, pm_message p) of
             None \<Rightarrow> Some (t\<lparr>mt_queue := rest, mt_done := mt_done t @ [(pm_sink p, Accepted)]\<rparr>)
           | Some b \<Rightarrow>
               Some (set_writer i (Sending c \<lparr>q_seq = pm_seq p, q_message = b, q_sink = pm_sink p\<rparr>) (t\<lparr>mt_queue := rest\<rparr>)))
      | _ \<Rightarrow> None)"

text \<open>The write has been driven to its end.\<close>

fun unacked_insert :: "nat \<Rightarrow> 'v \<Rightarrow> (nat \<times> 'v) list \<Rightarrow> (nat \<times> 'v) list" where
  "unacked_insert k v [] = [(k, v)]"
| "unacked_insert k v ((k1, v1) # xs) =
     (if k < k1 then (k, v) # (k1, v1) # xs else if k = k1 then (k, v) # xs else (k1, v1) # unacked_insert k v xs)"

definition written :: "nat \<Rightarrow> ('m, 'b) mtx \<Rightarrow> ('m, 'b) mtx option" where
  "written i t =
     (case writer_at i t of
        Some (Sent c q) \<Rightarrow> Some (set_writer i (Up c) (t\<lparr>mt_unacked := unacked_insert (q_seq q) q (mt_unacked t)\<rparr>))
      | _ \<Rightarrow> None)"

text \<open>A write that fails: the message is dropped with its sink.\<close>

definition write_fails :: "nat \<Rightarrow> ('m, 'b) mtx \<Rightarrow> ('m, 'b) mtx option" where
  "write_fails i t =
     (case writer_at i t of
        Some (Sending c q) \<Rightarrow> Some (set_writer i Dialing (t\<lparr>mt_done := mt_done t @ [(q_sink q, Dropped)]\<rparr>))
      | Some (Sent c q) \<Rightarrow> Some (set_writer i Dialing (t\<lparr>mt_done := mt_done t @ [(q_sink q, Dropped)]\<rparr>))
      | _ \<Rightarrow> None)"

text \<open>A response of the peer.\<close>

definition multi_response :: "nat \<Rightarrow> net_rx_response \<Rightarrow> ('m, 'b) mtx \<Rightarrow> ('m, 'b) mtx" where
  "multi_response i r t =
     (case r of
        Ack ack \<Rightarrow>
          t\<lparr>mt_unacked := filter (\<lambda>(k, _). ack + 1 \<le> k) (mt_unacked t),
            mt_done := mt_done t @ map (\<lambda>(_, q). (q_sink q, Accepted)) (filter (\<lambda>(k, _). \<not> ack + 1 \<le> k) (mt_unacked t))\<rparr>
      | Reject _ \<Rightarrow> set_writer i Finished t
      | ClosedRx \<Rightarrow> set_writer i Finished t)"

text \<open>The end of the stream, or the end of the queue.\<close>

definition writer_ends :: "nat \<Rightarrow> ('m, 'b) mtx \<Rightarrow> ('m, 'b) mtx" where
  "writer_ends i t = set_writer i (if mt_queue_open t then Dialing else Finished) t"

section \<open>The receiving side\<close>

record mstream =
  st_conn :: "nat option"
  st_waiting :: "nat list"
  st_pending :: "nat option"
  st_open :: bool

record 'm mrx =
  mr_watermark :: ack_watermark
  mr_delivered :: "(nat \<times> 'm) list"
  mr_streams :: "mstream list"

definition mrx_new :: "nat \<Rightarrow> nat \<Rightarrow> 'm mrx" where
  "mrx_new num_streams interval = \<lparr>mr_watermark = ack_watermark_new interval, mr_delivered = [],
     mr_streams = replicate num_streams \<lparr>st_conn = None, st_waiting = [], st_pending = None, st_open = False\<rparr>\<rparr>"

definition set_stream :: "nat \<Rightarrow> mstream \<Rightarrow> 'm mrx \<Rightarrow> 'm mrx" where
  "set_stream j s r = r\<lparr>mr_streams := (mr_streams r)[j := s]\<rparr>"

definition multi_begin_ack :: "nat \<Rightarrow> bool \<Rightarrow> 'm mrx \<Rightarrow> 'm mrx" where
  "multi_begin_ack j time_due r =
     (let s = mr_streams r ! j
      in if st_pending s \<noteq> None then r
         else case aw_poll time_due (mr_watermark r) of
           (v, w) \<Rightarrow> set_stream j (s\<lparr>st_pending := v\<rparr>) (r\<lparr>mr_watermark := w\<rparr>))"

definition multi_ack_written :: "nat \<Rightarrow> nat \<Rightarrow> 'm mrx \<Rightarrow> 'm mrx" where
  "multi_ack_written j v r = set_stream j ((mr_streams r ! j)\<lparr>st_pending := None\<rparr>) (r\<lparr>mr_watermark := aw_commit v (mr_watermark r)\<rparr>)"

text \<open>A frame: \<open>deliver_ok\<close> says whether the application still takes messages.\<close>

definition multi_recv_frame :: "('m, 'b) codec \<Rightarrow> 'b \<Rightarrow> bool \<Rightarrow> 'm mrx \<Rightarrow> recv_loop_error option \<times> 'm mrx" where
  "multi_recv_frame cd b deliver_ok r =
     (case cd_deserialize cd b of
        None \<Rightarrow> (Some RecvIo, r)
      | Some (seq, msg) \<Rightarrow>
          let r1 = r\<lparr>mr_watermark := snd (aw_record seq (mr_watermark r))\<rparr>
          in if deliver_ok then (None, r1\<lparr>mr_delivered := mr_delivered r1 @ [(seq, msg)]\<rparr>) else (Some RecvIo, r1))"

text \<open>What follows \<open>multi_stream_recv_connected\<close>. A stream whose task ends drops the connections
  handed to it; the next connection begins a new one.\<close>

definition multi_after_recv :: "nat \<Rightarrow> recv_loop_error option \<Rightarrow> bool \<Rightarrow> bool \<Rightarrow> 'm mrx \<Rightarrow> net_rx_response list \<times> 'm mrx" where
  "multi_after_recv j result ack_ok response_ok r =
     (let (acks, w) =
        (case highest_uncommitted (mr_watermark r) of
           None \<Rightarrow> ([], mr_watermark r)
         | Some v \<Rightarrow> if ack_ok then ([Ack v], aw_commit v (mr_watermark r)) else ([], mr_watermark r))
      in (acks @ (if response_ok then terminal_response result else []),
          set_stream j ((mr_streams r ! j)\<lparr>st_conn := None, st_waiting := (if recoverable result then st_waiting (mr_streams r ! j) else []),
            st_pending := None, st_open := recoverable result\<rparr>) (r\<lparr>mr_watermark := w\<rparr>)))"

section \<open>Both sides and the network\<close>

text \<open>Connections are numbered; \<open>ml_arriving\<close> are those the receiving side has not seen yet, with
  their streams.\<close>

record ('m, 'b) multi_link =
  ml_tx :: "('m, 'b) mtx"
  ml_rx :: "'m mrx"
  ml_conns :: "'b conn list"
  ml_arriving :: "(nat \<times> nat) list"
  ml_posted :: "'m list"

definition multi_new :: "nat \<Rightarrow> nat \<Rightarrow> ('m, 'b) multi_link" where
  "multi_new num_streams interval = \<lparr>ml_tx = mtx_new num_streams, ml_rx = mrx_new num_streams interval, ml_conns = [], ml_arriving = [],
     ml_posted = []\<rparr>"

definition send_out :: "nat \<Rightarrow> 'b \<Rightarrow> 'b conn list \<Rightarrow> 'b conn list" where
  "send_out c b cs = (if c < length cs \<and> \<not> cn_cut (cs ! c) then cs[c := (cs ! c)\<lparr>cn_out := cn_out (cs ! c) @ [b]\<rparr>] else cs)"

definition send_in :: "nat \<Rightarrow> net_rx_response list \<Rightarrow> 'b conn list \<Rightarrow> 'b conn list" where
  "send_in c rs cs = (if c < length cs \<and> \<not> cn_cut (cs ! c) then cs[c := (cs ! c)\<lparr>cn_in := cn_in (cs ! c) @ rs\<rparr>] else cs)"

text \<open>The steps. \<open>i\<close> is a writer, \<open>j\<close> a stream of the receiving side.\<close>

datatype 'm mact =
    MPost 'm | MAppClosed | MDispatch | MCloseQueue | MFinish
  | MDial nat | MDialFails nat | MPull nat | MOnWire nat | MWritten nat | MWriteFails nat | MResponse nat
  | MEof nat | MIoError nat | MDrained nat
  | MArrive nat | MTake nat | MCancelled nat | MBeginAck nat bool | MAckWritten nat | MReceive nat bool bool bool
  | MRecvEnds nat "recv_loop_error option" bool bool | MCut nat nat nat

definition with_tx :: "('m, 'b) mtx option \<Rightarrow> ('m, 'b) multi_link \<Rightarrow> ('m, 'b) multi_link option" where
  "with_tx t l = map_option (\<lambda>t1. l\<lparr>ml_tx := t1\<rparr>) t"

definition stream_at :: "nat \<Rightarrow> ('m, 'b) multi_link \<Rightarrow> mstream option" where
  "stream_at j l = (if j < length (mr_streams (ml_rx l)) then Some (mr_streams (ml_rx l) ! j) else None)"

definition recv_over :: "nat \<Rightarrow> nat \<Rightarrow> recv_loop_error option \<Rightarrow> bool \<Rightarrow> bool \<Rightarrow> ('m, 'b) multi_link \<Rightarrow> ('m, 'b) multi_link" where
  "recv_over j c result ack_ok response_ok l =
     (case multi_after_recv j result ack_ok response_ok (ml_rx l) of
        (rs, r) \<Rightarrow> l\<lparr>ml_rx := r, ml_conns := send_in c rs (ml_conns l)\<rparr>)"

fun multi_act :: "('m, 'b) codec \<Rightarrow> 'm mact \<Rightarrow> ('m, 'b) multi_link \<Rightarrow> ('m, 'b) multi_link option" where
  "multi_act cd (MPost m) l =
     (if mt_app_closed (ml_tx l) then None
      else Some (l\<lparr>ml_tx := multi_post m (length (ml_posted l)) (ml_tx l), ml_posted := ml_posted l @ [m]\<rparr>))"
| "multi_act cd MAppClosed l = Some (l\<lparr>ml_tx := (ml_tx l)\<lparr>mt_app_closed := True\<rparr>\<rparr>)"
| "multi_act cd MDispatch l = with_tx (dispatch (ml_tx l)) l"
| "multi_act cd MCloseQueue l = with_tx (close_queue (ml_tx l)) l"
| "multi_act cd MFinish l = with_tx (finish (ml_tx l)) l"
| "multi_act cd (MDial i) l =
     (if writer_at i (ml_tx l) = Some Dialing
      then Some (l\<lparr>ml_tx := set_writer i (Up (length (ml_conns l))) (ml_tx l),
             ml_conns := ml_conns l @ [\<lparr>cn_out = [], cn_in = [], cn_cut = False\<rparr>],
             ml_arriving := ml_arriving l @ [(i, length (ml_conns l))]\<rparr>)
      else None)"
| "multi_act cd (MDialFails i) l =
     (if writer_at i (ml_tx l) = Some Dialing then Some (l\<lparr>ml_tx := set_writer i Finished (ml_tx l)\<rparr>) else None)"
| "multi_act cd (MPull i) l = with_tx (pull cd i (ml_tx l)) l"
| "multi_act cd (MOnWire i) l =
     (case writer_at i (ml_tx l) of
        Some (Sending c q) \<Rightarrow> Some (l\<lparr>ml_tx := set_writer i (Sent c q) (ml_tx l), ml_conns := send_out c (q_message q) (ml_conns l)\<rparr>)
      | _ \<Rightarrow> None)"
| "multi_act cd (MWritten i) l = with_tx (written i (ml_tx l)) l"
| "multi_act cd (MWriteFails i) l = with_tx (write_fails i (ml_tx l)) l"
| "multi_act cd (MResponse i) l =
     (case writer_at i (ml_tx l) of
        Some (Up c) \<Rightarrow>
          if c < length (ml_conns l)
          then (case cn_in (ml_conns l ! c) of
                  r # rs \<Rightarrow> Some (l\<lparr>ml_tx := multi_response i r (ml_tx l), ml_conns := (ml_conns l)[c := (ml_conns l ! c)\<lparr>cn_in := rs\<rparr>]\<rparr>)
                | [] \<Rightarrow> None)
          else None
      | _ \<Rightarrow> None)"
| "multi_act cd (MEof i) l =
     (case writer_at i (ml_tx l) of Some (Up c) \<Rightarrow> Some (l\<lparr>ml_tx := writer_ends i (ml_tx l)\<rparr>) | _ \<Rightarrow> None)"
| "multi_act cd (MIoError i) l =
     (case writer_at i (ml_tx l) of Some (Up c) \<Rightarrow> Some (l\<lparr>ml_tx := set_writer i Dialing (ml_tx l)\<rparr>) | _ \<Rightarrow> None)"
| "multi_act cd (MDrained i) l =
     (case writer_at i (ml_tx l) of
        Some (Up c) \<Rightarrow>
          if mt_queue (ml_tx l) = [] \<and> \<not> mt_queue_open (ml_tx l) then Some (l\<lparr>ml_tx := writer_ends i (ml_tx l)\<rparr>) else None
      | _ \<Rightarrow> None)"
| "multi_act cd (MArrive k) l =
     (if k < length (ml_arriving l)
      then (case ml_arriving l ! k of
              (j, c) \<Rightarrow>
                (case stream_at j l of
                   Some s \<Rightarrow> Some (l\<lparr>ml_rx := set_stream j (s\<lparr>st_waiting := st_waiting s @ [c], st_open := True\<rparr>) (ml_rx l),
                     ml_arriving := take k (ml_arriving l) @ drop (Suc k) (ml_arriving l)\<rparr>)
                 | None \<Rightarrow> None))
      else None)"
| "multi_act cd (MTake j) l =
     (case stream_at j l of
        Some s \<Rightarrow>
          (case (st_open s, st_conn s, st_waiting s) of
             (True, None, c # rest) \<Rightarrow> Some (l\<lparr>ml_rx := set_stream j (s\<lparr>st_conn := Some c, st_waiting := rest\<rparr>) (ml_rx l)\<rparr>)
           | _ \<Rightarrow> None)
      | None \<Rightarrow> None)"
| "multi_act cd (MCancelled j) l =
     (case stream_at j l of
        Some s \<Rightarrow>
          (case (st_open s, st_conn s) of
             (True, None) \<Rightarrow> Some (l\<lparr>ml_rx := set_stream j (s\<lparr>st_waiting := [], st_open := False\<rparr>) (ml_rx l)\<rparr>)
           | _ \<Rightarrow> None)
      | None \<Rightarrow> None)"
| "multi_act cd (MBeginAck j time_due) l =
     (case stream_at j l of
        Some s \<Rightarrow> if st_conn s \<noteq> None then Some (l\<lparr>ml_rx := multi_begin_ack j time_due (ml_rx l)\<rparr>) else None
      | None \<Rightarrow> None)"
| "multi_act cd (MAckWritten j) l =
     (case stream_at j l of
        Some s \<Rightarrow>
          (case (st_conn s, st_pending s) of
             (Some c, Some v) \<Rightarrow> Some (l\<lparr>ml_rx := multi_ack_written j v (ml_rx l), ml_conns := send_in c [Ack v] (ml_conns l)\<rparr>)
           | _ \<Rightarrow> None)
      | None \<Rightarrow> None)"
| "multi_act cd (MReceive j deliver_ok ack_ok response_ok) l =
     (case stream_at j l of
        Some s \<Rightarrow>
          (case st_conn s of
             Some c \<Rightarrow>
               if c < length (ml_conns l)
               then (case cn_out (ml_conns l ! c) of
                       b # bs \<Rightarrow>
                         (let l1 = l\<lparr>ml_rx := snd (multi_recv_frame cd b deliver_ok (ml_rx l)),
                                     ml_conns := (ml_conns l)[c := (ml_conns l ! c)\<lparr>cn_out := bs\<rparr>]\<rparr>
                          in case fst (multi_recv_frame cd b deliver_ok (ml_rx l)) of
                               None \<Rightarrow> Some l1
                             | Some e \<Rightarrow> Some (recv_over j c (Some e) ack_ok response_ok l1))
                     | [] \<Rightarrow> None)
               else None
           | None \<Rightarrow> None)
      | None \<Rightarrow> None)"
| "multi_act cd (MRecvEnds j result ack_ok response_ok) l =
     (case stream_at j l of
        Some s \<Rightarrow>
          (case st_conn s of
             Some c \<Rightarrow> if result \<in> {None, Some RecvIo, Some Cancelled} then Some (recv_over j c result ack_ok response_ok l) else None
           | None \<Rightarrow> None)
      | None \<Rightarrow> None)"
| "multi_act cd (MCut c a b) l =
     (if c < length (ml_conns l)
      then Some (l\<lparr>ml_conns := (ml_conns l)[c :=
             \<lparr>cn_out = take a (cn_out (ml_conns l ! c)), cn_in = take b (cn_in (ml_conns l ! c)), cn_cut = True\<rparr>]\<rparr>)
      else None)"

definition multi_step :: "('m, 'b) codec \<Rightarrow> ('m, 'b) multi_link \<Rightarrow> ('m, 'b) multi_link \<Rightarrow> bool" where
  "multi_step cd l l' \<longleftrightarrow> (\<exists>a. multi_act cd a l = Some l')"

definition multi_run :: "('m, 'b) codec \<Rightarrow> nat \<Rightarrow> nat \<Rightarrow> ('m, 'b) multi_link \<Rightarrow> bool" where
  "multi_run cd num_streams interval = (multi_step cd)\<^sup>*\<^sup>* (multi_new num_streams interval)"

section \<open>Where messages are\<close>

definition numbered :: "'m list \<Rightarrow> (nat \<times> 'm) list" where
  "numbered ms = zip [0..<length ms] ms"

definition decoded :: "('m, 'b) codec \<Rightarrow> 'b \<Rightarrow> (nat \<times> 'm) list" where
  "decoded cd b = (case cd_deserialize cd b of None \<Rightarrow> [] | Some x \<Rightarrow> [x])"

fun hand_items :: "('m, 'b) codec \<Rightarrow> 'b writer \<Rightarrow> (nat \<times> 'm) list" where
  "hand_items cd (Sending c q) = decoded cd (q_message q)"
| "hand_items cd w = []"

fun hand :: "'b writer \<Rightarrow> 'b queued_message list" where
  "hand (Sending c q) = [q]"
| "hand (Sent c q) = [q]"
| "hand w = []"

definition wire_items :: "('m, 'b) codec \<Rightarrow> 'b conn \<Rightarrow> (nat \<times> 'm) list" where
  "wire_items cd c = concat (map (decoded cd) (cn_out c))"

text \<open>The messages that may still be delivered or have been, the numbers the sender holds, and the
  sinks without and with an outcome.\<close>

definition moving :: "('m, 'b) codec \<Rightarrow> ('m, 'b) multi_link \<Rightarrow> (nat \<times> 'm) multiset" where
  "moving cd l = mset (map (\<lambda>p. (pm_seq p, pm_message p)) (mt_queue (ml_tx l))) +
     mset (concat (map (hand_items cd) (mt_writers (ml_tx l)))) + mset (concat (map (wire_items cd) (ml_conns l))) +
     mset (mr_delivered (ml_rx l))"

definition held :: "('m, 'b) mtx \<Rightarrow> nat multiset" where
  "held t = mset (map pm_seq (mt_queue t)) + mset (map q_seq (concat (map hand (mt_writers t)))) + mset (map fst (mt_unacked t))"

definition sinks :: "('m, 'b) mtx \<Rightarrow> nat multiset" where
  "sinks t = mset (map snd (mt_receiver t)) + mset (map pm_sink (mt_queue t)) + mset (map q_sink (concat (map hand (mt_writers t)))) +
     mset (map (q_sink \<circ> snd) (mt_unacked t)) + mset (map fst (mt_done t))"

definition multi_inv :: "('m, 'b) codec \<Rightarrow> ('m, 'b) multi_link \<Rightarrow> bool" where
  "multi_inv cd l \<longleftrightarrow> mt_next_seq (ml_tx l) \<le> length (ml_posted l) \<and>
     mt_receiver (ml_tx l) = drop (mt_next_seq (ml_tx l)) (indexed (ml_posted l)) \<and>
     moving cd l \<subseteq># mset (numbered (take (mt_next_seq (ml_tx l)) (ml_posted l))) \<and>
     held (ml_tx l) \<subseteq># mset [0..<mt_next_seq (ml_tx l)] \<and> sinks (ml_tx l) = mset [0..<length (ml_posted l)] \<and>
     snd ` set (mt_done (ml_tx l)) \<subseteq> {Accepted, Dropped} \<and>
     (mt_closed (ml_tx l) \<longrightarrow> \<not> mt_queue_open (ml_tx l) \<and> mt_queue (ml_tx l) = [] \<and> mt_unacked (ml_tx l) = [] \<and>
        set (mt_writers (ml_tx l)) \<subseteq> {Finished}) \<and>
     (\<not> mt_queue_open (ml_tx l) \<longrightarrow> mt_app_closed (ml_tx l) \<and> mt_receiver (ml_tx l) = [])"

end
