(* ===== verification/Multi_Props.thy ===== *)
theory Multi_Props
  imports Multi_Stream
begin

text \<open>
  What a multi-stream session keeps: every message is delivered at most once and has at most one
  outcome; and what it does not promise.
\<close>

section \<open>Lists of places\<close>

lemma concat_update:
  assumes "i < length xs"
  shows "mset (concat (map f (xs[i := y]))) + mset (f (xs ! i)) = mset (concat (map f xs)) + mset (f y)"
proof -
  have "xs = take i xs @ xs ! i # drop (Suc i) xs" "xs[i := y] = take i xs @ y # drop (Suc i) xs"
    using assms by (simp_all add: id_take_nth_drop upd_conv_take_nth_drop)
  then have "concat (map f xs) = concat (map f (take i xs)) @ f (xs ! i) @ concat (map f (drop (Suc i) xs))"
    "concat (map f (xs[i := y])) = concat (map f (take i xs)) @ f y @ concat (map f (drop (Suc i) xs))"
    by (metis concat.simps(2) concat_append list.simps(9) map_append)+
  then show ?thesis by simp
qed

lemma update_add:
  "i < length xs \<Longrightarrow> f (xs ! i) = [] \<Longrightarrow> mset (concat (map f (xs[i := y]))) = mset (concat (map f xs)) + mset (f y)"
  using concat_update [of i xs f y] by simp

lemma update_del:
  "i < length xs \<Longrightarrow> f y = [] \<Longrightarrow> mset (concat (map f xs)) = mset (concat (map f (xs[i := y]))) + mset (f (xs ! i))"
  using concat_update [of i xs f y] by simp

lemma update_same:
  "i < length xs \<Longrightarrow> f y = f (xs ! i) \<Longrightarrow> mset (concat (map f (xs[i := y]))) = mset (concat (map f xs))"
  using concat_update [of i xs f y] by simp

lemma wire_send_out: "mset (concat (map (wire_items cd) (send_out c b cs))) \<subseteq># mset (concat (map (wire_items cd) cs)) + mset (decoded cd b)"
proof (cases "c < length cs \<and> \<not> cn_cut (cs ! c)")
  case True
  let ?y = "(cs ! c)\<lparr>cn_out := cn_out (cs ! c) @ [b]\<rparr>"
  have "wire_items cd ?y = wire_items cd (cs ! c) @ decoded cd b" by (simp add: wire_items_def)
  then have "mset (concat (map (wire_items cd) (cs[c := ?y]))) = mset (concat (map (wire_items cd) cs)) + mset (decoded cd b)"
    using concat_update [of c cs "wire_items cd" ?y] True by simp
  then show ?thesis using True by (simp add: send_out_def)
qed (auto simp: send_out_def)

lemma wire_send_in [simp]: "mset (concat (map (wire_items cd) (send_in c rs cs))) = mset (concat (map (wire_items cd) cs))"
  by (simp add: send_in_def update_same wire_items_def)

lemma wire_receive:
  assumes "c < length cs" "cn_out (cs ! c) = b # bs"
  shows "mset (concat (map (wire_items cd) cs)) = mset (concat (map (wire_items cd) (cs[c := (cs ! c)\<lparr>cn_out := bs\<rparr>]))) + mset (decoded cd b)"
  using concat_update [of c cs "wire_items cd" "(cs ! c)\<lparr>cn_out := bs\<rparr>"] assms by (simp add: wire_items_def)

lemma wire_cut:
  assumes "c < length cs" "cn_out y = take a (cn_out (cs ! c))"
  shows "mset (concat (map (wire_items cd) (cs[c := y]))) \<subseteq># mset (concat (map (wire_items cd) cs))"
proof -
  have "wire_items cd (cs ! c) = wire_items cd y @ concat (map (decoded cd) (drop a (cn_out (cs ! c))))"
    unfolding wire_items_def assms(2) by (metis append_take_drop_id concat_append map_append)
  then have "mset (concat (map (wire_items cd) cs)) = mset (concat (map (wire_items cd) (cs[c := y]))) +
      mset (concat (map (decoded cd) (drop a (cn_out (cs ! c)))))"
    using concat_update [OF assms(1), of "wire_items cd" y] by simp
  then show ?thesis by simp
qed

lemma hand_map: "map f (concat (map hand ws)) = concat (map (map f \<circ> hand) ws)"
  by (simp add: map_concat)

lemma mset_distinct_sub: "mset xs \<subseteq># mset ys \<Longrightarrow> distinct ys \<Longrightarrow> distinct xs"
  by (metis distinct_append mset_append mset_eq_imp_distinct_iff ex_mset subset_mset.add_diff_inverse)

section \<open>The invariant\<close>

lemma multi_inv_new: "multi_inv cd (multi_new num_streams interval)"
proof -
  have "concat (map f (replicate num_streams x)) = []" if "f x = []" for f :: "'x \<Rightarrow> 'y list" and x using that by (induction num_streams) auto
  then show ?thesis
    by (simp add: multi_inv_def multi_new_def mtx_new_def mrx_new_def moving_def held_def sinks_def numbered_def indexed_def)
qed

lemma inv_rx:
  assumes "multi_inv cd l" "ml_tx l' = ml_tx l" "ml_posted l' = ml_posted l" "moving cd l' \<subseteq># moving cd l"
  shows "multi_inv cd l'"
proof -
  have "moving cd l \<subseteq># mset (numbered (take (mt_next_seq (ml_tx l)) (ml_posted l)))" using assms(1) by (simp add: multi_inv_def)
  then have "moving cd l' \<subseteq># mset (numbered (take (mt_next_seq (ml_tx l)) (ml_posted l)))" using assms(4) by (rule subset_mset.order_trans [rotated])
  then show ?thesis using assms(1) unfolding multi_inv_def assms(2,3) by blast
qed

lemma moving_cong:
  assumes "mt_queue (ml_tx l') = mt_queue (ml_tx l)" "mt_writers (ml_tx l') = mt_writers (ml_tx l)" "mr_delivered (ml_rx l') = mr_delivered (ml_rx l)"
    "mset (concat (map (wire_items cd) (ml_conns l'))) \<subseteq># mset (concat (map (wire_items cd) (ml_conns l)))"
  shows "moving cd l' \<subseteq># moving cd l"
  using assms by (simp add: moving_def)

lemma recv_over_fields:
  "ml_tx (recv_over j c result a b l) = ml_tx l" "ml_posted (recv_over j c result a b l) = ml_posted l"
  "mr_delivered (ml_rx (recv_over j c result a b l)) = mr_delivered (ml_rx l)"
  "mset (concat (map (wire_items cd) (ml_conns (recv_over j c result a b l)))) = mset (concat (map (wire_items cd) (ml_conns l)))"
  by (simp_all add: recv_over_def multi_after_recv_def set_stream_def Let_def split: prod.splits option.splits if_splits)

lemma recv_over_inv: "multi_inv cd l \<Longrightarrow> multi_inv cd (recv_over j c result a b l)"
  by (rule inv_rx) (auto simp: recv_over_fields intro!: moving_cong)

lemma receive_multi_inv:
  assumes inv: "multi_inv cd l" and c: "c < length (ml_conns l)" "cn_out (ml_conns l ! c) = b # bs"
  shows "multi_inv cd (l\<lparr>ml_rx := snd (multi_recv_frame cd b deliver_ok (ml_rx l)), ml_conns := (ml_conns l)[c := (ml_conns l ! c)\<lparr>cn_out := bs\<rparr>]\<rparr>)"
proof (rule inv_rx [OF inv])
  have "mset (mr_delivered (snd (multi_recv_frame cd b deliver_ok (ml_rx l)))) \<subseteq># mset (mr_delivered (ml_rx l)) + mset (decoded cd b)"
    by (auto simp: multi_recv_frame_def decoded_def Let_def split: option.splits)
  then show "moving cd (l\<lparr>ml_rx := snd (multi_recv_frame cd b deliver_ok (ml_rx l)), ml_conns := (ml_conns l)[c := (ml_conns l ! c)\<lparr>cn_out := bs\<rparr>]\<rparr>) \<subseteq># moving cd l"
    unfolding moving_def using wire_receive [OF c, of cd] by (simp add: subset_mset.add_mono union_assoc union_commute)
qed simp_all

lemma rx_acts_inv:
  assumes "multi_inv cd l" "multi_act cd a l = Some l'"
    "a \<in> range MArrive \<union> range MTake \<union> range MCancelled \<union> range (\<lambda>(j, b). MBeginAck j b) \<union> range MAckWritten \<union> range (\<lambda>(j, x, y, z). MReceive j x y z) \<union>
      range (\<lambda>(j, r, x, y). MRecvEnds j r x y) \<union> range (\<lambda>(c, x, y). MCut c x y)"
  shows "multi_inv cd l'"
proof (cases "\<exists>j x y z. a = MReceive j x y z")
  case True
  then obtain j x y z where a: "a = MReceive j x y z" by blast
  then show ?thesis using assms(2) receive_multi_inv [OF assms(1), of _ _ _ x]
    by (auto simp: Let_def intro!: recv_over_inv split: option.splits if_splits list.splits)
next
  case False
  show ?thesis using assms(3)
  proof (elim UnE imageE)
    fix k
    assume "a = MArrive k"
    then show ?thesis using assms(2)
      by (intro inv_rx [OF assms(1)] moving_cong) (auto simp: set_stream_def split: if_splits prod.splits option.splits)
  next
    fix j
    assume "a = MTake j"
    then show ?thesis using assms(2)
      by (intro inv_rx [OF assms(1)] moving_cong) (auto simp: set_stream_def split: prod.splits option.splits bool.splits list.splits)
  next
    fix j
    assume "a = MCancelled j"
    then show ?thesis using assms(2)
      by (intro inv_rx [OF assms(1)] moving_cong) (auto simp: set_stream_def split: prod.splits option.splits bool.splits)
  next
    fix p :: "nat \<times> bool"
    assume "a = (case p of (j, b) \<Rightarrow> MBeginAck j b)"
    then show ?thesis using assms(2)
      by (intro inv_rx [OF assms(1)] moving_cong) (auto simp: set_stream_def multi_begin_ack_def Let_def split: prod.splits option.splits if_splits)
  next
    fix j
    assume "a = MAckWritten j"
    then show ?thesis using assms(2)
      by (intro inv_rx [OF assms(1)] moving_cong) (auto simp: set_stream_def multi_ack_written_def split: prod.splits option.splits)
  next
    fix p :: "nat \<times> recv_loop_error option \<times> bool \<times> bool"
    assume "a = (case p of (j, r, x, y) \<Rightarrow> MRecvEnds j r x y)"
    then show ?thesis using assms(2) recv_over_inv [OF assms(1)] by (auto split: prod.splits option.splits if_splits)
  next
    fix p :: "nat \<times> nat \<times> nat"
    assume "a = (case p of (c, x, y) \<Rightarrow> MCut c x y)"
    then show ?thesis using assms(2)
      by (intro inv_rx [OF assms(1)] moving_cong) (auto simp: wire_cut split: prod.splits if_splits)
  qed (use False in \<open>auto split: prod.splits\<close>)
qed

text \<open>Steps of a writer.\<close>

lemma inv_tx:
  assumes inv: "multi_inv cd l" and "ml_posted l' = ml_posted l" "mt_next_seq (ml_tx l') = mt_next_seq (ml_tx l)"
    "mt_receiver (ml_tx l') = mt_receiver (ml_tx l)" "mt_app_closed (ml_tx l') = mt_app_closed (ml_tx l)"
    "mt_queue_open (ml_tx l') = mt_queue_open (ml_tx l)" "\<not> mt_closed (ml_tx l')"
    "moving cd l' \<subseteq># moving cd l" "held (ml_tx l') \<subseteq># held (ml_tx l)" "sinks (ml_tx l') = sinks (ml_tx l)"
    "snd ` set (mt_done (ml_tx l')) \<subseteq> {Accepted, Dropped}"
  shows "multi_inv cd l'"
proof -
  note i = inv [unfolded multi_inv_def]
  have "moving cd l' \<subseteq># mset (numbered (take (mt_next_seq (ml_tx l)) (ml_posted l)))"
    using i assms(8) by (meson subset_mset.order_trans)
  moreover have "held (ml_tx l') \<subseteq># mset [0..<mt_next_seq (ml_tx l)]" using i assms(9) by (meson subset_mset.order_trans)
  ultimately show ?thesis using i assms(7,11) unfolding multi_inv_def assms(2-6,10) by blast
qed

lemma writer_open:
  assumes "multi_inv cd l" "writer_at i (ml_tx l) = Some w" "w \<noteq> Finished"
  shows "\<not> mt_closed (ml_tx l)" "i < length (mt_writers (ml_tx l))" "mt_writers (ml_tx l) ! i = w"
proof -
  show w: "i < length (mt_writers (ml_tx l))" "mt_writers (ml_tx l) ! i = w" using assms(2) by (auto simp: writer_at_def split: if_splits)
  then have "w \<in> set (mt_writers (ml_tx l))" by auto
  then show "\<not> mt_closed (ml_tx l)" using assms(1,3) unfolding multi_inv_def by blast
qed

text \<open>A writer that holds nothing before and after.\<close>

lemma set_writer_idle:
  assumes inv: "multi_inv cd l" and w: "writer_at i (ml_tx l) = Some w" "w \<noteq> Finished" "hand w = []" "hand w' = []"
    and wire: "mset (concat (map (wire_items cd) cs)) \<subseteq># mset (concat (map (wire_items cd) (ml_conns l)))"
  shows "multi_inv cd (l\<lparr>ml_tx := set_writer i w' (ml_tx l), ml_conns := cs, ml_arriving := xs\<rparr>)"
proof (rule inv_tx [OF inv])
  note o = writer_open [OF inv w(1,2)]
  have items: "hand_items cd w = []" "hand_items cd w' = []" using w(3,4) by (cases w; cases w'; simp)+
  have "mset (concat (map (hand_items cd) ((mt_writers (ml_tx l))[i := w']))) = mset (concat (map (hand_items cd) (mt_writers (ml_tx l))))"
    using o items by (intro update_same) simp_all
  then show "moving cd (l\<lparr>ml_tx := set_writer i w' (ml_tx l), ml_conns := cs, ml_arriving := xs\<rparr>) \<subseteq># moving cd l"
    using wire by (simp add: moving_def set_writer_def)
  have hands: "mset (map f (concat (map hand ((mt_writers (ml_tx l))[i := w'])))) = mset (map f (concat (map hand (mt_writers (ml_tx l)))))"
    for f :: "'b queued_message \<Rightarrow> nat"
    unfolding hand_map using o w(3,4) by (intro update_same) simp_all
  show "held (ml_tx (l\<lparr>ml_tx := set_writer i w' (ml_tx l), ml_conns := cs, ml_arriving := xs\<rparr>)) \<subseteq># held (ml_tx l)"
    using hands [of q_seq] by (simp add: held_def set_writer_def)
  show "sinks (ml_tx (l\<lparr>ml_tx := set_writer i w' (ml_tx l), ml_conns := cs, ml_arriving := xs\<rparr>)) = sinks (ml_tx l)"
    using hands [of q_sink] by (simp add: sinks_def set_writer_def)
qed (use inv writer_open [OF inv w(1,2)] in \<open>auto simp: multi_inv_def set_writer_def\<close>)

lemma pull_inv:
  assumes inv: "multi_inv cd l" and cd: "codec_ok cd" and p: "pull cd i (ml_tx l) = Some t"
  shows "multi_inv cd (l\<lparr>ml_tx := t\<rparr>)"
proof -
  let ?t = "ml_tx l"
  obtain c p rest where u: "writer_at i ?t = Some (Up c)" "mt_queue ?t = p # rest"
    using p by (auto simp: pull_def split: option.splits writer.splits list.splits)
  note o = writer_open [OF inv u(1)]
  show ?thesis
  proof (cases "cd_serialize cd (pm_seq p, pm_message p)")
    case None
    then have t: "t = ?t\<lparr>mt_queue := rest, mt_done := mt_done ?t @ [(pm_sink p, Accepted)]\<rparr>" using p u by (simp add: pull_def)
    show ?thesis by (rule inv_tx [OF inv]) (use inv o(1) u in \<open>auto simp: t moving_def held_def sinks_def multi_inv_def\<close>)
  next
    case (Some b)
    let ?q = "\<lparr>q_seq = pm_seq p, q_message = b, q_sink = pm_sink p\<rparr>"
    have t: "t = set_writer i (Sending c ?q) (?t\<lparr>mt_queue := rest\<rparr>)" using p u Some by (simp add: pull_def)
    have "hand_items cd (Sending c ?q) = [(pm_seq p, pm_message p)]" using cd Some by (simp add: decoded_def codec_ok_def)
    then have items: "mset (concat (map (hand_items cd) ((mt_writers ?t)[i := Sending c ?q]))) =
        mset (concat (map (hand_items cd) (mt_writers ?t))) + {#(pm_seq p, pm_message p)#}"
      using update_add [of i "mt_writers ?t" "hand_items cd" "Sending c ?q"] o by simp
    have hands: "mset (map f (concat (map hand ((mt_writers ?t)[i := Sending c ?q])))) = mset (map f (concat (map hand (mt_writers ?t)))) + {#f ?q#}"
      for f :: "'b queued_message \<Rightarrow> nat"
      unfolding hand_map using update_add [of i "mt_writers ?t" "map f \<circ> hand" "Sending c ?q"] o by simp
    show ?thesis
    proof (rule inv_tx [OF inv])
      show "moving cd (l\<lparr>ml_tx := t\<rparr>) \<subseteq># moving cd l" using items u(2) by (simp add: t moving_def set_writer_def)
      show "held (ml_tx (l\<lparr>ml_tx := t\<rparr>)) \<subseteq># held ?t" using hands [of q_seq] u(2) by (simp add: t held_def set_writer_def)
      show "sinks (ml_tx (l\<lparr>ml_tx := t\<rparr>)) = sinks ?t" using hands [of q_sink] u(2) by (simp add: t sinks_def set_writer_def)
    qed (use inv o(1) in \<open>auto simp: t set_writer_def multi_inv_def\<close>)
  qed
qed

lemma on_wire_multi_inv:
  assumes inv: "multi_inv cd l" and w: "writer_at i (ml_tx l) = Some (Sending c q)"
  shows "multi_inv cd (l\<lparr>ml_tx := set_writer i (Sent c q) (ml_tx l), ml_conns := send_out c (q_message q) (ml_conns l)\<rparr>)"
proof -
  let ?t = "ml_tx l"
  have o: "\<not> mt_closed ?t" "i < length (mt_writers ?t)" "mt_writers ?t ! i = Sending c q" using writer_open [OF inv w] by simp_all
  have items: "mset (concat (map (hand_items cd) (mt_writers ?t))) =
      mset (concat (map (hand_items cd) ((mt_writers ?t)[i := Sent c q]))) + mset (decoded cd (q_message q))"
    using update_del [of i "mt_writers ?t" "hand_items cd" "Sent c q"] o by simp
  have hands: "mset (map f (concat (map hand ((mt_writers ?t)[i := Sent c q])))) = mset (map f (concat (map hand (mt_writers ?t))))"
    for f :: "'b queued_message \<Rightarrow> nat"
    unfolding hand_map using update_same [of i "mt_writers ?t" "map f \<circ> hand" "Sent c q"] o by simp
  let ?l = "l\<lparr>ml_tx := set_writer i (Sent c q) ?t, ml_conns := send_out c (q_message q) (ml_conns l)\<rparr>"
  show ?thesis
  proof (rule inv_tx [OF inv])
    show "moving cd ?l \<subseteq># moving cd l"
      using items wire_send_out [of cd c "q_message q" "ml_conns l"]
      by (simp add: moving_def set_writer_def subset_mset.add_mono union_assoc union_commute)
    show "held (ml_tx ?l) \<subseteq># held ?t" using hands [of q_seq] by (simp add: held_def set_writer_def)
    show "sinks (ml_tx ?l) = sinks ?t" using hands [of q_sink] by (simp add: sinks_def set_writer_def)
  qed (use inv o(1) in \<open>auto simp: set_writer_def multi_inv_def\<close>)
qed

lemma unacked_insert_mset: "k \<notin> fst ` set xs \<Longrightarrow> mset (unacked_insert k v xs) = add_mset (k, v) (mset xs)"
  by (induction k v xs rule: unacked_insert.induct) auto

text \<open>A write that has ended, in one way or the other.\<close>

lemma hand_taken:
  assumes "i < length ws" "hand (ws ! i) = [q]" "hand w' = []"
  shows "mset (map f (concat (map hand ws))) = add_mset (f q) (mset (map f (concat (map hand (ws[i := w'])))))"
  unfolding hand_map using update_del [of i ws "map f \<circ> hand" w'] assms by simp

lemma items_taken:
  assumes "i < length ws" "hand_items cd w' = []"
  shows "mset (concat (map (hand_items cd) (ws[i := w']))) \<subseteq># mset (concat (map (hand_items cd) ws))"
  using update_del [of i ws "hand_items cd" w'] assms by simp

lemma written_inv:
  assumes inv: "multi_inv cd l" and w: "written i (ml_tx l) = Some t"
  shows "multi_inv cd (l\<lparr>ml_tx := t\<rparr>)"
proof -
  let ?t = "ml_tx l"
  obtain c q where u: "writer_at i ?t = Some (Sent c q)" using w by (auto simp: written_def split: option.splits writer.splits)
  then have t: "t = set_writer i (Up c) (?t\<lparr>mt_unacked := unacked_insert (q_seq q) q (mt_unacked ?t)\<rparr>)" using w by (simp add: written_def)
  have o: "\<not> mt_closed ?t" "i < length (mt_writers ?t)" "mt_writers ?t ! i = Sent c q" using writer_open [OF inv u] by simp_all
  have hands: "mset (map f (concat (map hand (mt_writers ?t)))) = add_mset (f q) (mset (map f (concat (map hand ((mt_writers ?t)[i := Up c])))))"
    for f :: "'b queued_message \<Rightarrow> nat" by (rule hand_taken) (use o in simp_all)
  have "held ?t \<subseteq># mset [0..<mt_next_seq ?t]" using inv by (simp add: multi_inv_def)
  then have "count (held ?t) (q_seq q) \<le> 1" by (metis count_mset_0_iff distinct_count_atmost_1 distinct_upt mset_subset_eq_count le_zero_eq nat_le_linear)
  then have fresh: "q_seq q \<notin> fst ` set (mt_unacked ?t)"
    using hands [of q_seq] by (auto simp: held_def count_eq_zero_iff simp flip: set_mset_mset)
  show ?thesis
  proof (rule inv_tx [OF inv])
    show "moving cd (l\<lparr>ml_tx := t\<rparr>) \<subseteq># moving cd l"
      using items_taken [OF o(2), of cd "Up c"] by (simp add: t moving_def set_writer_def)
    show "held (ml_tx (l\<lparr>ml_tx := t\<rparr>)) \<subseteq># held ?t"
      using hands [of q_seq] unacked_insert_mset [OF fresh, of q] by (simp add: t held_def set_writer_def)
    show "sinks (ml_tx (l\<lparr>ml_tx := t\<rparr>)) = sinks ?t"
      using hands [of q_sink] unacked_insert_mset [OF fresh, of q] by (simp add: t sinks_def set_writer_def)
  qed (use inv o(1) in \<open>auto simp: t set_writer_def multi_inv_def\<close>)
qed

lemma write_fails_inv:
  assumes inv: "multi_inv cd l" and w: "write_fails i (ml_tx l) = Some t"
  shows "multi_inv cd (l\<lparr>ml_tx := t\<rparr>)"
proof -
  let ?t = "ml_tx l"
  obtain w q where u: "writer_at i ?t = Some w" "hand w = [q]"
    and t: "t = set_writer i Dialing (?t\<lparr>mt_done := mt_done ?t @ [(q_sink q, Dropped)]\<rparr>)"
    using w by (fastforce simp: write_fails_def split: option.splits writer.splits)
  have "w \<noteq> Finished" using u(2) by auto
  note o = writer_open [OF inv u(1) this]
  have hands: "mset (map f (concat (map hand (mt_writers ?t)))) = add_mset (f q) (mset (map f (concat (map hand ((mt_writers ?t)[i := Dialing])))))"
    for f :: "'b queued_message \<Rightarrow> nat" by (rule hand_taken) (use o u in simp_all)
  show ?thesis
  proof (rule inv_tx [OF inv])
    show "moving cd (l\<lparr>ml_tx := t\<rparr>) \<subseteq># moving cd l"
      using items_taken [OF o(2), of cd Dialing] by (simp add: t moving_def set_writer_def)
    show "held (ml_tx (l\<lparr>ml_tx := t\<rparr>)) \<subseteq># held ?t" using hands [of q_seq] by (simp add: t held_def set_writer_def)
    show "sinks (ml_tx (l\<lparr>ml_tx := t\<rparr>)) = sinks ?t" using hands [of q_sink] by (simp add: t sinks_def set_writer_def)
  qed (use inv o(1) in \<open>auto simp: t set_writer_def multi_inv_def\<close>)
qed

lemma outcome_sinks: "fst \<circ> (\<lambda>(_, q). (q_sink q, Accepted)) = q_sink \<circ> snd" "fst \<circ> (\<lambda>p. (pm_sink p, Accepted)) = pm_sink"
  by auto

lemma split_mset: "mset (map f xs) = mset (map f (filter P xs)) + mset (map f (filter (\<lambda>x. \<not> P x) xs))"
  by (induction xs) auto

lemma response_multi_inv:
  assumes inv: "multi_inv cd l" and w: "writer_at i (ml_tx l) = Some (Up c)" and c: "c < length (ml_conns l)" "cn_in (ml_conns l ! c) = r # rs"
  shows "multi_inv cd (l\<lparr>ml_tx := multi_response i r (ml_tx l), ml_conns := (ml_conns l)[c := (ml_conns l ! c)\<lparr>cn_in := rs\<rparr>]\<rparr>)"
proof -
  let ?cs = "(ml_conns l)[c := (ml_conns l ! c)\<lparr>cn_in := rs\<rparr>]" and ?t = "ml_tx l"
  have wire: "mset (concat (map (wire_items cd) ?cs)) \<subseteq># mset (concat (map (wire_items cd) (ml_conns l)))"
    using update_same [OF c(1), of "wire_items cd" "(ml_conns l ! c)\<lparr>cn_in := rs\<rparr>"] by (simp add: wire_items_def)
  have fin: "multi_inv cd (l\<lparr>ml_tx := set_writer i Finished ?t, ml_conns := ?cs\<rparr>)"
    using set_writer_idle [OF inv w _ _ _ wire, of Finished "ml_arriving l"] by simp
  show ?thesis
  proof (cases r)
    case (Ack ack)
    let ?P = "\<lambda>(k, _ :: 'b queued_message). ack + 1 \<le> k"
    have parts: "mset (map f (mt_unacked ?t)) = mset (map f (filter ?P (mt_unacked ?t))) + mset (map f (filter (\<lambda>x. \<not> ?P x) (mt_unacked ?t)))"
      for f :: "nat \<times> 'b queued_message \<Rightarrow> nat" by (rule split_mset)
    let ?l = "l\<lparr>ml_tx := multi_response i r ?t, ml_conns := ?cs\<rparr>"
    have t: "ml_tx ?l = ?t\<lparr>mt_unacked := filter ?P (mt_unacked ?t),
      mt_done := mt_done ?t @ map (\<lambda>(_, q). (q_sink q, Accepted)) (filter (\<lambda>x. \<not> ?P x) (mt_unacked ?t))\<rparr>"
      by (simp add: Ack multi_response_def case_prod_unfold)
    show ?thesis
    proof (rule inv_tx [OF inv])
      show "moving cd ?l \<subseteq># moving cd l" using wire unfolding moving_def t by simp
      show "held (ml_tx ?l) \<subseteq># held ?t" unfolding held_def t using parts [of fst] by simp
      show "sinks (ml_tx ?l) = sinks ?t" unfolding sinks_def t using parts [of "q_sink \<circ> snd"] by (simp add: outcome_sinks)
    qed (use inv writer_open [OF inv w] in \<open>auto simp: t multi_inv_def\<close>)
  qed (use fin in \<open>simp_all add: multi_response_def\<close>)
qed

text \<open>Steps of the application and the dispatcher.\<close>

lemma numbered_Suc: "n < length ms \<Longrightarrow> numbered (take (Suc n) ms) = numbered (take n ms) @ [(n, ms ! n)]"
  by (simp add: numbered_def take_Suc_conv_app_nth)

lemma post_multi_inv:
  assumes inv: "multi_inv cd l" and "\<not> mt_app_closed (ml_tx l)"
  shows "multi_inv cd (l\<lparr>ml_tx := multi_post m (length (ml_posted l)) (ml_tx l), ml_posted := ml_posted l @ [m]\<rparr>)"
proof -
  let ?t = "ml_tx l" and ?n = "mt_next_seq (ml_tx l)"
  let ?l = "l\<lparr>ml_tx := multi_post m (length (ml_posted l)) (ml_tx l), ml_posted := ml_posted l @ [m]\<rparr>"
  note i = inv [unfolded multi_inv_def]
  have o: "mt_queue_open ?t" "\<not> mt_closed ?t" using i assms(2) by blast+
  then have t: "ml_tx ?l = ?t\<lparr>mt_receiver := mt_receiver ?t @ [(m, length (ml_posted l))]\<rparr>" by (simp add: multi_post_def)
  have "moving cd ?l = moving cd l" "held (ml_tx ?l) = held ?t" unfolding moving_def held_def t by simp_all
  moreover have "sinks (ml_tx ?l) = add_mset (length (ml_posted l)) (sinks ?t)" unfolding sinks_def t by simp
  moreover have "take ?n (ml_posted l @ [m]) = take ?n (ml_posted l)" using i by simp
  ultimately show ?thesis using i o unfolding multi_inv_def t by simp
qed

lemma dispatch_inv:
  assumes inv: "multi_inv cd l" and d: "dispatch (ml_tx l) = Some t"
  shows "multi_inv cd (l\<lparr>ml_tx := t\<rparr>)"
proof -
  let ?t = "ml_tx l" and ?n = "mt_next_seq (ml_tx l)"
  note i = inv [unfolded multi_inv_def]
  obtain m sink rest where r: "mt_receiver ?t = (m, sink) # rest" using d by (auto simp: dispatch_def split: list.splits)
  then have rd: "drop ?n (indexed (ml_posted l)) = (m, sink) # rest" using i by simp
  then have n: "?n < length (ml_posted l)" by (metis drop_all indexed_simps(1) list.distinct(1) not_le)
  then have "drop ?n (indexed (ml_posted l)) = (ml_posted l ! ?n, ?n) # drop (Suc ?n) (indexed (ml_posted l))"
    using Cons_nth_drop_Suc [of ?n "indexed (ml_posted l)"] by simp
  then have m: "m = ml_posted l ! ?n" "sink = ?n" "rest = drop (Suc ?n) (indexed (ml_posted l))" using rd by simp_all
  have t: "t = ?t\<lparr>mt_receiver := rest, mt_next_seq := ?n + 1, mt_queue := mt_queue ?t @ [\<lparr>pm_seq = ?n, pm_message = m, pm_sink = sink\<rparr>]\<rparr>"
    using d r by (auto simp: dispatch_def split: if_splits)
  have o: "mt_queue_open ?t" "\<not> mt_closed ?t" using i r by fastforce+
  have "moving cd (l\<lparr>ml_tx := t\<rparr>) = add_mset (?n, m) (moving cd l)" by (simp add: moving_def t)
  then have "moving cd (l\<lparr>ml_tx := t\<rparr>) \<subseteq># mset (numbered (take (Suc ?n) (ml_posted l)))" using i m(1) numbered_Suc [OF n] by simp
  moreover have "held t = add_mset ?n (held ?t)" by (simp add: held_def t)
  then have "held t \<subseteq># mset [0..<Suc ?n]" using i by simp
  moreover have "sinks t = sinks ?t" using r by (simp add: sinks_def t)
  ultimately show ?thesis using i n o m(3) unfolding multi_inv_def by (simp add: t)
qed

lemma finish_inv:
  assumes inv: "multi_inv cd l" and f: "finish (ml_tx l) = Some t"
  shows "multi_inv cd (l\<lparr>ml_tx := t\<rparr>)"
proof -
  let ?t = "ml_tx l"
  note i = inv [unfolded multi_inv_def]
  have c: "\<not> mt_queue_open ?t" "set (mt_writers ?t) \<subseteq> {Finished}" using f by (auto simp: finish_def split: if_splits)
  have t: "t = ?t\<lparr>mt_queue := [], mt_unacked := [], mt_closed := True, mt_done := mt_done ?t @
      map (\<lambda>p. (pm_sink p, Accepted)) (mt_queue ?t) @ map (\<lambda>(_, q). (q_sink q, Accepted)) (mt_unacked ?t)\<rparr>"
    using f by (auto simp: finish_def split: if_splits)
  have hand: "concat (map hand (mt_writers ?t)) = []" using c(2) by auto
  have "moving cd (l\<lparr>ml_tx := t\<rparr>) \<subseteq># moving cd l" by (simp add: moving_def t)
  then have "moving cd (l\<lparr>ml_tx := t\<rparr>) \<subseteq># mset (numbered (take (mt_next_seq ?t) (ml_posted l)))"
    using i by (meson subset_mset.order_trans)
  moreover have "held t = {#}" using hand by (simp add: held_def t)
  moreover have "sinks t = sinks ?t" using hand by (simp add: sinks_def t outcome_sinks)
  moreover have "snd ` set (mt_done t) \<subseteq> {Accepted, Dropped}" using i by (auto simp: t)
  moreover have fields: "mt_next_seq t = mt_next_seq ?t" "mt_receiver t = mt_receiver ?t" "mt_queue_open t = mt_queue_open ?t"
    "mt_app_closed t = mt_app_closed ?t" "mt_writers t = mt_writers ?t" "mt_queue t = []" "mt_unacked t = []" by (simp_all add: t)
  moreover have "sinks ?t = mset [0..<length (ml_posted l)]" "mt_next_seq ?t \<le> length (ml_posted l)" "mt_app_closed ?t"
    "mt_receiver ?t = []" "drop (mt_next_seq ?t) (indexed (ml_posted l)) = []"
    using i c(1) by (metis (no_types))+
  ultimately show ?thesis using c unfolding multi_inv_def by simp
qed

lemma multi_act_inv:
  assumes inv: "multi_inv cd l" and cd: "codec_ok cd" and a: "multi_act cd a l = Some l'"
  shows "multi_inv cd l'"
proof -
  have same: "l\<lparr>ml_tx := t, ml_conns := ml_conns l, ml_arriving := ml_arriving l\<rparr> = l\<lparr>ml_tx := t\<rparr>" for t by simp
  have idle: "multi_inv cd (l\<lparr>ml_tx := set_writer i w' (ml_tx l)\<rparr>)"
    if "writer_at i (ml_tx l) = Some w" "w \<noteq> Finished" "hand w = []" "hand w' = []" for i w w'
    using set_writer_idle [OF inv that, of "ml_conns l" "ml_arriving l"] by simp
  show ?thesis
  proof (cases a)
    case (MPost m)
    then show ?thesis using a post_multi_inv [OF inv, of m] by (auto split: if_splits)
  next
    case MAppClosed
    have eqs: "moving cd l' = moving cd l" "held (ml_tx l') = held (ml_tx l)" "sinks (ml_tx l') = sinks (ml_tx l)"
      using a MAppClosed by (auto simp: moving_def held_def sinks_def)
    have fields: "mt_next_seq (ml_tx l') = mt_next_seq (ml_tx l)" "mt_receiver (ml_tx l') = mt_receiver (ml_tx l)" "ml_posted l' = ml_posted l"
      "mt_done (ml_tx l') = mt_done (ml_tx l)" "mt_closed (ml_tx l') = mt_closed (ml_tx l)" "mt_queue_open (ml_tx l') = mt_queue_open (ml_tx l)"
      "mt_queue (ml_tx l') = mt_queue (ml_tx l)" "mt_unacked (ml_tx l') = mt_unacked (ml_tx l)" "mt_writers (ml_tx l') = mt_writers (ml_tx l)" using a MAppClosed by auto
    have "mt_app_closed (ml_tx l')" using a MAppClosed by auto
    then show ?thesis using inv unfolding multi_inv_def eqs fields by blast
  next
    case MDispatch
    then show ?thesis using a dispatch_inv [OF inv] by (auto simp: with_tx_def)
  next
    case MCloseQueue
    then obtain t where t: "close_queue (ml_tx l) = Some t" "l' = l\<lparr>ml_tx := t\<rparr>" using a by (auto simp: with_tx_def)
    then have "t = (ml_tx l)\<lparr>mt_queue_open := False\<rparr>" "mt_receiver (ml_tx l) = []" "mt_app_closed (ml_tx l)"
      by (auto simp: close_queue_def split: if_splits)
    moreover have "moving cd l' = moving cd l" "held (ml_tx l') = held (ml_tx l)" "sinks (ml_tx l') = sinks (ml_tx l)"
      using t calculation by (simp_all add: moving_def held_def sinks_def)
    ultimately show ?thesis using inv t(2) by (auto simp: multi_inv_def)
  next
    case MFinish
    then show ?thesis using a finish_inv [OF inv] by (auto simp: with_tx_def)
  next
    case (MDial i)
    then show ?thesis using a set_writer_idle [OF inv, of i Dialing "Up (length (ml_conns l))"] by (auto simp: wire_items_def split: if_splits)
  next
    case (MDialFails i)
    then show ?thesis using a idle [of i Dialing Finished] by (auto split: if_splits)
  next
    case (MPull i)
    then show ?thesis using a pull_inv [OF inv cd] by (auto simp: with_tx_def)
  next
    case (MOnWire i)
    then show ?thesis using a on_wire_multi_inv [OF inv] by (auto split: option.splits writer.splits)
  next
    case (MWritten i)
    then show ?thesis using a written_inv [OF inv] by (auto simp: with_tx_def)
  next
    case (MWriteFails i)
    then show ?thesis using a write_fails_inv [OF inv] by (auto simp: with_tx_def)
  next
    case (MResponse i)
    then show ?thesis using a response_multi_inv [OF inv] by (auto split: option.splits writer.splits if_splits list.splits)
  next
    case (MEof i)
    then show ?thesis using a idle by (auto simp: writer_ends_def split: option.splits writer.splits)
  next
    case (MIoError i)
    then show ?thesis using a idle by (auto split: option.splits writer.splits)
  next
    case (MDrained i)
    then show ?thesis using a idle by (auto simp: writer_ends_def split: option.splits writer.splits if_splits)
  qed (rule rx_acts_inv [OF inv a]; force simp: image_iff)+
qed

lemma multi_run_inv:
  assumes "multi_run cd num_streams interval l" "codec_ok cd"
  shows "multi_inv cd l"
  using assms(1) unfolding multi_run_def
proof (induction rule: rtranclp_induct)
  case base
  show ?case by (rule multi_inv_new)
next
  case (step l1 l2)
  then show ?case using multi_act_inv assms(2) by (auto simp: multi_step_def)
qed

section \<open>Runs\<close>

fun multi_acts :: "('m, 'b) codec \<Rightarrow> 'm mact list \<Rightarrow> ('m, 'b) multi_link \<Rightarrow> ('m, 'b) multi_link option" where
  "multi_acts cd [] l = Some l"
| "multi_acts cd (a # as) l = (case multi_act cd a l of None \<Rightarrow> None | Some l1 \<Rightarrow> multi_acts cd as l1)"

lemma multi_acts_run: "multi_acts cd as l = Some l' \<Longrightarrow> (multi_step cd)\<^sup>*\<^sup>* l l'"
proof (induction as arbitrary: l)
  case (Cons a as)
  then obtain l1 where "multi_act cd a l = Some l1" "multi_acts cd as l1 = Some l'" by (auto split: option.splits)
  then show ?case using Cons.IH by (metis converse_rtranclp_into_rtranclp multi_step_def)
qed simp

text \<open>Messages are natural numbers and frames are numbered messages.\<close>

definition pair_codec :: "(nat, nat \<times> nat) codec" where
  "pair_codec = \<lparr>cd_serialize = Some, cd_deserialize = Some, cd_frame_len = (\<lambda>_. 1)\<rparr>"

lemma pair_codec_ok: "codec_ok pair_codec"
  by (simp add: codec_ok_def pair_codec_def)

named_theorems multi_eval \<open>unfolding rules to compute a run of a multi-stream session\<close>

lemmas [multi_eval] = multi_new_def mtx_new_def mrx_new_def pair_codec_def multi_post_def dispatch_def close_queue_def finish_def with_tx_def
  writer_at_def set_writer_def stream_at_def set_stream_def pull_def written_def write_fails_def multi_response_def writer_ends_def
  multi_begin_ack_def multi_ack_written_def multi_recv_frame_def multi_after_recv_def recv_over_def send_out_def send_in_def
  ack_watermark_new_def aw_record_def aw_poll_def aw_commit_def aw_next_expected_def max_seen_def highest_uncommitted_def
  terminal_response_def recoverable_def Let_def

text \<open>Two messages over two streams, the second delivered first.\<close>

definition ex_swapped :: "nat mact list" where
  "ex_swapped = [MPost 7, MPost 8, MDispatch, MDispatch, MDial 0, MDial 1, MPull 0, MPull 1, MOnWire 1, MOnWire 0, MWritten 0, MWritten 1,
     MArrive 1, MTake 1, MReceive 1 True True True, MArrive 0, MTake 0, MReceive 0 True True True]"

definition ex_swapped_end :: "(nat, nat \<times> nat) multi_link" where
  "ex_swapped_end = the (multi_acts pair_codec ex_swapped (multi_new 2 10))"

lemma ex_swapped_run: "multi_acts pair_codec ex_swapped (multi_new 2 10) = Some ex_swapped_end"
  "mr_delivered (ml_rx ex_swapped_end) = [(1, 8), (0, 7)]"
  unfolding ex_swapped_end_def by (simp_all add: ex_swapped_def multi_eval numeral_2_eq_2)

lemma ex_swapped_reached: "multi_run pair_codec 2 10 ex_swapped_end"
  unfolding multi_run_def by (rule multi_acts_run [OF ex_swapped_run(1)])

text \<open>C12: A multi-stream session delivers at most once. However the writers, the connections and the
  receivers interleave, and whatever is lost, the receiving side delivers no number twice, the
  message delivered under a number is the one posted at that place, and no message has two
  outcomes or is returned.\<close>

theorem multi_stream_at_most_once:
  assumes "codec_ok cd" "multi_run cd num_streams interval l"
  shows "distinct (map fst (mr_delivered (ml_rx l))) \<and>
    (\<forall>(s, m) \<in> set (mr_delivered (ml_rx l)). s < length (ml_posted l) \<and> m = ml_posted l ! s) \<and>
    distinct (map fst (mt_done (ml_tx l))) \<and> snd ` set (mt_done (ml_tx l)) \<subseteq> {Accepted, Dropped}"
proof -
  have inv: "multi_inv cd l" by (rule multi_run_inv [OF assms(2,1)])
  let ?N = "numbered (take (mt_next_seq (ml_tx l)) (ml_posted l))"
  have "mset (mr_delivered (ml_rx l)) \<subseteq># moving cd l" by (simp add: moving_def)
  then have sub: "mset (mr_delivered (ml_rx l)) \<subseteq># mset ?N" using inv unfolding multi_inv_def by (meson subset_mset.order_trans)
  have "mset (map fst (mr_delivered (ml_rx l))) \<subseteq># mset (map fst ?N)" using image_mset_subseteq_mono [OF sub] by (metis mset_map)
  moreover have "distinct (map fst ?N)" by (simp add: numbered_def)
  ultimately have d: "distinct (map fst (mr_delivered (ml_rx l)))" by (rule mset_distinct_sub)
  have "s < length (ml_posted l) \<and> m = ml_posted l ! s" if "(s, m) \<in> set (mr_delivered (ml_rx l))" for s m
  proof -
    have "(s, m) \<in> set ?N" using sub that mset_subset_eqD [OF sub, of "(s, m)"] by simp
    then show ?thesis by (auto simp: numbered_def set_zip)
  qed
  moreover have "distinct (map fst (mt_done (ml_tx l)))"
  proof (rule mset_distinct_sub)
    show "mset (map fst (mt_done (ml_tx l))) \<subseteq># mset [0..<length (ml_posted l)]"
      using inv unfolding multi_inv_def sinks_def by (metis mset_subset_eq_add_right)
  qed simp
  ultimately show ?thesis using d inv by (auto simp: multi_inv_def)
qed

theorem multi_stream_at_most_once_witness:
  "multi_run pair_codec 2 10 ex_swapped_end \<and> distinct (map fst (mr_delivered (ml_rx ex_swapped_end))) \<and>
    mr_delivered (ml_rx ex_swapped_end) = [(1, 8), (0, 7)]"
  using multi_stream_at_most_once [OF pair_codec_ok ex_swapped_reached] ex_swapped_reached ex_swapped_run(2) by simp

text \<open>The end of a multi-stream session settles every message: when the dispatcher has ended, every
  message posted has exactly one outcome.\<close>

theorem multi_stream_close_settles:
  assumes "codec_ok cd" "multi_run cd num_streams interval l" "mt_closed (ml_tx l)"
  shows "mset (map fst (mt_done (ml_tx l))) = mset [0..<length (ml_posted l)]"
proof -
  note i = multi_run_inv [OF assms(2,1), unfolded multi_inv_def]
  have "set (mt_writers (ml_tx l)) \<subseteq> {Finished}" using i assms(3) by blast
  then have "concat (map hand (mt_writers (ml_tx l))) = []" by auto
  moreover have "mt_queue (ml_tx l) = []" "mt_unacked (ml_tx l) = []" "mt_receiver (ml_tx l) = []" using i assms(3) by blast+
  ultimately have "sinks (ml_tx l) = mset (map fst (mt_done (ml_tx l)))" by (simp add: sinks_def)
  then show ?thesis using i by metis
qed

definition ex_ended :: "(nat, nat \<times> nat) multi_link" where
  "ex_ended = the (multi_acts pair_codec (ex_swapped @ [MAppClosed, MCloseQueue, MDrained 0, MDrained 1, MFinish]) (multi_new 2 10))"

lemma ex_ended_run:
  "multi_acts pair_codec (ex_swapped @ [MAppClosed, MCloseQueue, MDrained 0, MDrained 1, MFinish]) (multi_new 2 10) = Some ex_ended"
  "mt_closed (ml_tx ex_ended)" "ml_posted ex_ended = [7, 8]"
  unfolding ex_ended_def by (simp_all add: ex_swapped_def multi_eval numeral_2_eq_2)

theorem multi_stream_close_settles_witness: "mset (map fst (mt_done (ml_tx ex_ended))) = {#0, 1#}"
proof -
  have "multi_run pair_codec 2 10 ex_ended" unfolding multi_run_def by (rule multi_acts_run [OF ex_ended_run(1)])
  from multi_stream_close_settles [OF pair_codec_ok this ex_ended_run(2)] show ?thesis by (simp add: ex_ended_run(3) upt_rec)
qed

definition ex_gap :: "nat mact list" where
  "ex_gap = [MPost 7, MPost 8, MDispatch, MDispatch, MDial 0, MDial 1, MPull 0, MPull 1, MOnWire 0, MWritten 0, MCut 0 0 0, MOnWire 1, MWritten 1,
     MArrive 1, MTake 1, MReceive 1 True True True, MRecvEnds 1 (Some RecvIo) True True, MResponse 1]"

text \<open>C35: A lost message is reported accepted. There is a run of a session that goes on, in which the first
  message is lost with its connection, nothing of it is left anywhere, and the acknowledgement
  that a receiver writes when its own connection fails makes the sender report it accepted.\<close>

theorem lost_message_accepted:
  "\<exists>l. multi_run pair_codec 2 10 l \<and> \<not> mt_closed (ml_tx l) \<and> ml_posted l = [7, 8] \<and> (0, Accepted) \<in> set (mt_done (ml_tx l)) \<and>
    moving pair_codec l = {#(1, 8)#}"
proof -
  obtain l where l: "multi_acts pair_codec ex_gap (multi_new 2 10) = Some l" by (simp add: ex_gap_def multi_eval numeral_2_eq_2)
  have "\<not> mt_closed (ml_tx l)" "ml_posted l = [7, 8]" "(0, Accepted) \<in> set (mt_done (ml_tx l))" "moving pair_codec l = {#(1, 8)#}"
    using l by (auto simp: ex_gap_def multi_eval numeral_2_eq_2 moving_def wire_items_def decoded_def)
  then show ?thesis using multi_acts_run [OF l] unfolding multi_run_def by blast
qed

text \<open>C36: A session without writers keeps messages for ever. Once all writers have ended (each has been told
  that the server is closed), as long as the application keeps the channel no message gets an
  outcome, whatever is posted, and the channel is never reported closed.\<close>

theorem writers_gone:
  assumes "set (mt_writers (ml_tx l)) \<subseteq> {Finished}" "mt_queue_open (ml_tx l)" "\<not> mt_closed (ml_tx l)" "\<not> mt_app_closed (ml_tx l)"
    "(\<lambda>l l'. multi_step cd l l' \<and> \<not> mt_app_closed (ml_tx l'))\<^sup>*\<^sup>* l l'"
  shows "mt_done (ml_tx l') = mt_done (ml_tx l) \<and> \<not> mt_closed (ml_tx l')"
proof -
  have keep: "set (mt_writers (ml_tx l2)) \<subseteq> {Finished} \<and> mt_queue_open (ml_tx l2) \<and> \<not> mt_closed (ml_tx l2) \<and> mt_done (ml_tx l2) = mt_done (ml_tx l1)"
    if l1: "set (mt_writers (ml_tx l1)) \<subseteq> {Finished}" "mt_queue_open (ml_tx l1)" "\<not> mt_closed (ml_tx l1)" "\<not> mt_app_closed (ml_tx l1)"
      and a: "multi_act cd a l1 = Some l2" for a l1 l2
  proof -
    have w: "writer_at i (ml_tx l1) = Some w \<Longrightarrow> w = Finished" for i w
    proof -
      assume "writer_at i (ml_tx l1) = Some w"
      then have "i < length (mt_writers (ml_tx l1))" "w = mt_writers (ml_tx l1) ! i" by (auto simp: writer_at_def split: if_splits)
      then have "w \<in> set (mt_writers (ml_tx l1))" by simp
      then show "w = Finished" using l1(1) by blast
    qed
    show ?thesis using a l1 w
      by (cases a) (auto simp: with_tx_def multi_post_def dispatch_def close_queue_def finish_def pull_def written_def write_fails_def recv_over_fields Let_def
          split: if_splits option.splits writer.splits list.splits prod.splits bool.splits)
  qed
  have "set (mt_writers (ml_tx l')) \<subseteq> {Finished} \<and> mt_queue_open (ml_tx l') \<and> \<not> mt_closed (ml_tx l') \<and> mt_done (ml_tx l') = mt_done (ml_tx l) \<and>
    \<not> mt_app_closed (ml_tx l')"
    using assms(5)
  proof (induction rule: rtranclp_induct)
    case (step l1 l2)
    then obtain a where "multi_act cd a l1 = Some l2" by (auto simp: multi_step_def)
    then show ?case using step.IH step.hyps(2) keep by metis
  qed (use assms in simp)
  then show ?thesis by simp
qed

definition ex_refused :: "nat mact list" where
  "ex_refused = [MDial 0, MDial 1, MArrive 0, MArrive 0, MTake 0, MTake 1, MRecvEnds 0 (Some Cancelled) True True,
     MRecvEnds 1 (Some Cancelled) True True, MResponse 0, MResponse 1]"

theorem writers_gone_witness:
  "\<exists>l l'. multi_run pair_codec 2 10 l \<and> multi_acts pair_codec [MPost 7, MDispatch] l = Some l' \<and>
    mt_writers (ml_tx l) = [Finished, Finished] \<and> length (mt_queue (ml_tx l')) = 1 \<and> mt_done (ml_tx l') = [] \<and> \<not> mt_closed (ml_tx l')"
proof -
  obtain l where l: "multi_acts pair_codec ex_refused (multi_new 2 10) = Some l" by (simp add: ex_refused_def multi_eval numeral_2_eq_2)
  then have f: "mt_writers (ml_tx l) = [Finished, Finished]" "mt_queue_open (ml_tx l)" "\<not> mt_closed (ml_tx l)" "\<not> mt_app_closed (ml_tx l)"
    "mt_done (ml_tx l) = []" "mt_receiver (ml_tx l) = []" "mt_queue (ml_tx l) = []"
    by (auto simp: ex_refused_def multi_eval numeral_2_eq_2)
  obtain l1 where l1: "multi_act pair_codec (MPost 7) l = Some l1" "\<not> mt_app_closed (ml_tx l1)" "mt_receiver (ml_tx l1) = [(7, length (ml_posted l))]"
    "mt_queue (ml_tx l1) = []" "mt_writers (ml_tx l1) = [Finished, Finished]"
    using f by (simp add: multi_post_def)
  obtain l' where l': "multi_act pair_codec MDispatch l1 = Some l'" "\<not> mt_app_closed (ml_tx l')" "length (mt_queue (ml_tx l')) = 1"
    using l1 by (simp add: with_tx_def dispatch_def)
  have "(\<lambda>l l'. multi_step pair_codec l l' \<and> \<not> mt_app_closed (ml_tx l'))\<^sup>*\<^sup>* l l'"
  proof (rule converse_rtranclp_into_rtranclp [of _ l l1], goal_cases)
    case 1
    show ?case using l1(1,2) unfolding multi_step_def by blast
  next
    case 2
    show ?case by (rule r_into_rtranclp) (use l'(1,2) multi_step_def in blast)
  qed
  from writers_gone [OF _ f(2-4) this] f have "mt_done (ml_tx l') = []" "\<not> mt_closed (ml_tx l')" by simp_all
  moreover have "multi_acts pair_codec [MPost 7, MDispatch] l = Some l'" using l1(1) l'(1) by (simp only: multi_acts.simps option.case)
  moreover have "multi_run pair_codec 2 10 l" using multi_acts_run [OF l] by (simp add: multi_run_def)
  ultimately show ?thesis using f(1) l'(3) by blast
qed

lemma len8_pow: "2 ^ LENGTH(8) = (256::nat)"
  by simp

lemma u8_of_nat_eq: "(of_nat a :: 8 word) = of_nat b \<longleftrightarrow> a mod 256 = b mod 256"
  by (metis unat_of_nat len8_pow word_unat_eq_iff)

text \<open>C37: The streams of a session have numbers of their own exactly up to 255 streams. No two links share a
  number and none has number 0, the number of a single-stream session, if and only if there are at
  most 255 of them.\<close>

theorem stream_ids_exact:
  "0 \<notin> set (stream_ids num_streams) \<and> distinct (stream_ids num_streams) \<longleftrightarrow> num_streams \<le> 255"
proof (cases "num_streams \<le> 255")
  case True
  have "inj_on (of_nat :: nat \<Rightarrow> 8 word) {1..<num_streams + 1}" using True by (auto simp: inj_on_def u8_of_nat_eq)
  moreover have "(of_nat i :: 8 word) \<noteq> 0" if "0 < i" "i \<le> num_streams" for i using that True u8_of_nat_eq [of i 0] by auto
  ultimately show ?thesis using True by (auto simp: stream_ids_def distinct_map simp del: upt_Suc)
next
  case False
  then have "256 < num_streams + 1" by linarith
  then have "256 \<in> set [1..<num_streams + 1]" by (simp del: upt_Suc)
  moreover have "(of_nat 256 :: 8 word) = 0" using u8_of_nat_eq [of 256 0] by simp
  ultimately have "0 \<in> set (stream_ids num_streams)" unfolding stream_ids_def by (metis image_eqI list.set_map)
  then show ?thesis using False by simp
qed
end
