(* ===== verification/Id_Syntax.thy ===== *)
theory Id_Syntax
  imports Addr
begin

text \<open>
  The written form of identities: labels (\<open>Label\<close> in \<open>hyperactor/src/id.rs\<close>), the lexer
  and the recursive-descent parser of \<open>hyperactor/src/parse/lex.rs\<close> and \<open>parse/id.rs\<close>,
  and the \<open>Display\<close> and \<open>FromStr\<close> instances of \<open>id.rs\<close> and \<open>port.rs\<close>. A string is its
  list of bytes. The parser reads its input at an offset and looks one token ahead, as in the
  code; an error keeps the parts of its message and its span.
\<close>

section \<open>Characters\<close>

definition is_ascii_lowercase :: "char \<Rightarrow> bool" where
  "is_ascii_lowercase c = (c \<in> set ''abcdefghijklmnopqrstuvwxyz'')"

definition decimal_alphabet :: string where
  "decimal_alphabet = ''0123456789''"

definition is_ascii_digit :: "char \<Rightarrow> bool" where
  "is_ascii_digit c = (c \<in> set decimal_alphabet)"

definition is_ascii_uppercase :: "char \<Rightarrow> bool" where
  "is_ascii_uppercase c = (c \<in> set ''ABCDEFGHIJKLMNOPQRSTUVWXYZ'')"

definition to_ascii_lowercase :: "char \<Rightarrow> char" where
  "to_ascii_lowercase c = (if is_ascii_uppercase c then char_of (of_char c + 32 :: nat) else c)"

section \<open>Labels\<close>

datatype label_error = Empty | TooLong | InvalidStart | InvalidEnd | InvalidChar char

definition label_char :: "char \<Rightarrow> bool" where
  "label_char c = (is_ascii_lowercase c \<or> is_ascii_digit c \<or> c = CHR ''-'' \<or> c = CHR ''_'')"

fun check_chars :: "string \<Rightarrow> (label_error, unit) result" where
  "check_chars [] = Inr ()"
| "check_chars (ch # s) = (if \<not> label_char ch then Inl (InvalidChar ch) else check_chars s)"

definition label_new :: "string \<Rightarrow> (label_error, label) result" where
  "label_new s =
     (if s = [] then Inl Empty
      else if 63 < length s then Inl TooLong
      else if \<not> is_ascii_lowercase (hd s) then Inl InvalidStart
      else if \<not> is_ascii_lowercase (last s) \<and> \<not> is_ascii_digit (last s) then Inl InvalidEnd
      else bind_result (check_chars s) (\<lambda>_. Inr s))"

definition trim_end_matches :: "('a \<Rightarrow> bool) \<Rightarrow> 'a list \<Rightarrow> 'a list" where
  "trim_end_matches f s = rev (dropWhile f (rev s))"

definition label_strip :: "string \<Rightarrow> label" where
  "label_strip s =
     (let lowered = filter label_char (map to_ascii_lowercase s);
          end_ok = (\<lambda>c. is_ascii_lowercase c \<or> is_ascii_digit c);
          trimmed = trim_end_matches (\<lambda>c. \<not> end_ok c) (dropWhile (\<lambda>c. \<not> is_ascii_lowercase c) lowered)
      in if trimmed = [] then ''nil''
         else let truncated = (if 63 < length trimmed then trim_end_matches (\<lambda>c. \<not> end_ok c) (take 63 trimmed) else trimmed)
              in if truncated = [] then ''nil'' else truncated)"

section \<open>Numbers\<close>

text \<open>The digits of a number, the last one first.\<close>

definition base58_flickr :: string where
  "base58_flickr = ''123456789abcdefghijkmnopqrstuvwxyzABCDEFGHJKLMNPQRSTUVWXYZ''"

fun base58_digits :: "nat \<Rightarrow> string" where
  "base58_digits uid = (if 0 < uid then base58_flickr ! (uid mod 58) # base58_digits (uid div 58) else [])"

declare base58_digits.simps [simp del]

definition encode_base58_uid :: "nat \<Rightarrow> string" where
  "encode_base58_uid uid = (if uid = 0 then ''1'' else rev (base58_digits uid))"

fun index_of :: "'a \<Rightarrow> 'a list \<Rightarrow> nat option" where
  "index_of x [] = None"
| "index_of x (y # ys) = (if x = y then Some 0 else map_option Suc (index_of x ys))"

definition next_digit :: "nat \<Rightarrow> nat \<Rightarrow> nat \<Rightarrow> nat option" where
  "next_digit base acc d = Option.bind (checked_mul acc base) (\<lambda>v. checked_add v d)"

fun decode_base58_loop :: "nat \<Rightarrow> string \<Rightarrow> nat option" where
  "decode_base58_loop uid [] = Some uid"
| "decode_base58_loop uid (ch # s) =
     Option.bind (index_of ch base58_flickr) (\<lambda>digit. Option.bind (next_digit 58 uid digit) (\<lambda>u. decode_base58_loop u s))"

definition decode_base58_uid :: "string \<Rightarrow> nat option" where
  "decode_base58_uid s = (if s = [] then None else decode_base58_loop 0 s)"

text \<open>\<open>Display\<close> and \<open>FromStr\<close> of \<open>u64\<close>, which reads a leading plus sign.\<close>

fun decimal_digits :: "nat \<Rightarrow> string" where
  "decimal_digits n = (if 0 < n then decimal_alphabet ! (n mod 10) # decimal_digits (n div 10) else [])"

declare decimal_digits.simps [simp del]

definition u64_display :: "nat \<Rightarrow> string" where
  "u64_display n = (if n = 0 then ''0'' else rev (decimal_digits n))"

fun u64_loop :: "nat \<Rightarrow> string \<Rightarrow> nat option" where
  "u64_loop n [] = Some n"
| "u64_loop n (ch # s) =
     Option.bind (index_of ch decimal_alphabet) (\<lambda>digit. Option.bind (next_digit 10 n digit) (\<lambda>v. u64_loop v s))"

definition u64_from_str :: "string \<Rightarrow> nat option" where
  "u64_from_str s =
     (case s of [] \<Rightarrow> None
      | c # cs \<Rightarrow> if c = CHR ''+'' then (if cs = [] then None else u64_loop 0 cs) else u64_loop 0 s)"

section \<open>Tokens\<close>

datatype token_kind = Text | Dot | Colon | At | Bang | LessThan | GreaterThan | Eof

record text_span =
  span_start :: nat
  span_end :: nat

record token =
  tk_kind :: token_kind
  tk_text :: string
  tk_span :: text_span

definition token_eof :: "nat \<Rightarrow> token" where
  "token_eof pos = \<lparr>tk_kind = Eof, tk_text = [], tk_span = \<lparr>span_start = pos, span_end = pos\<rparr>\<rparr>"

definition delimiter :: "char \<Rightarrow> token_kind option" where
  "delimiter c =
     (if c = CHR ''.'' then Some Dot else if c = CHR '':'' then Some Colon else if c = CHR ''@'' then Some At
      else if c = CHR ''!'' then Some Bang else if c = CHR ''<'' then Some LessThan else if c = CHR ''>'' then Some GreaterThan
      else None)"

text \<open>A token and the offset behind it.\<close>

definition lexer_next :: "string \<Rightarrow> nat \<Rightarrow> (token \<times> nat) option" where
  "lexer_next input start =
     (case drop start input of
        [] \<Rightarrow> None
      | first # rest \<Rightarrow>
          (case delimiter first of
             Some k \<Rightarrow> Some (\<lparr>tk_kind = k, tk_text = [first], tk_span = \<lparr>span_start = start, span_end = start + 1\<rparr>\<rparr>, start + 1)
           | None \<Rightarrow>
               let len = length (takeWhile (\<lambda>c. delimiter c = None) (first # rest))
               in Some (\<lparr>tk_kind = Text, tk_text = take len (first # rest), tk_span = \<lparr>span_start = start, span_end = start + len\<rparr>\<rparr>,
                    start + len)))"

section \<open>Errors\<close>

text \<open>What an error message says it found: the text of a token or the end of the input.\<close>

datatype found = FoundText string | FoundEnd

definition describe :: "token \<Rightarrow> found" where
  "describe t = (if tk_kind t = Eof then FoundEnd else FoundText (tk_text t))"

text \<open>What is wrong with a network location, see \<open>ChannelAddr::from_zmq_url\<close>.\<close>

datatype location_error =
    NoScheme
  | AliasNotTcp string
  | NotUrlForm string
  | InvalidAddressFormat string
  | InvalidUrlPort string
  | InvalidFd string
  | ResolutionFailed string
  | InvalidEndpoint string
  | InvalidSocketAddr string
  | UnsupportedScheme string

datatype parse_error_kind =
    Expected string found
  | TrailingInput found
  | InvalidLabel label_error
  | InvalidBase58Uid string
  | InvalidPort string
  | InvalidLocation location_error

record parse_error =
  pe_span :: text_span
  pe_kind :: parse_error_kind

definition err_expected :: "token \<Rightarrow> string \<Rightarrow> parse_error" where
  "err_expected t expected = \<lparr>pe_span = tk_span t, pe_kind = Expected expected (describe t)\<rparr>"

definition trailing_input :: "token \<Rightarrow> parse_error" where
  "trailing_input t = \<lparr>pe_span = tk_span t, pe_kind = TrailingInput (describe t)\<rparr>"

definition invalid_port :: "token \<Rightarrow> parse_error" where
  "invalid_port t = \<lparr>pe_span = tk_span t, pe_kind = InvalidPort (tk_text t)\<rparr>"

definition invalid_label :: "text_span \<Rightarrow> label_error \<Rightarrow> parse_error" where
  "invalid_label s e = \<lparr>pe_span = s, pe_kind = InvalidLabel e\<rparr>"

definition invalid_base58_uid :: "token \<Rightarrow> parse_error" where
  "invalid_base58_uid t = \<lparr>pe_span = tk_span t, pe_kind = InvalidBase58Uid (tk_text t)\<rparr>"

text \<open>\<open>TokenKind::expected\<close>.\<close>

definition kind_expected :: "token_kind \<Rightarrow> string" where
  "kind_expected k = (case k of Text \<Rightarrow> ''text'' | Dot \<Rightarrow> ''.'' | Colon \<Rightarrow> '':'' | At \<Rightarrow> ''@'' | Bang \<Rightarrow> ''!''
     | LessThan \<Rightarrow> ''<'' | GreaterThan \<Rightarrow> ''>'' | Eof \<Rightarrow> ''end of input'')"

section \<open>The parser\<close>

record parser =
  ps_input :: string
  ps_offset :: nat
  ps_lookahead :: token

type_synonym 'a parsed = "(parse_error, 'a \<times> parser) result"

definition next_or_eof :: "string \<Rightarrow> nat \<Rightarrow> token \<times> nat" where
  "next_or_eof input offset = (case lexer_next input offset of None \<Rightarrow> (token_eof (length input), offset) | Some r \<Rightarrow> r)"

definition parser_new :: "string \<Rightarrow> parser" where
  "parser_new input = (case next_or_eof input 0 of (t, offset) \<Rightarrow> \<lparr>ps_input = input, ps_offset = offset, ps_lookahead = t\<rparr>)"

definition peek :: "parser \<Rightarrow> token_kind" where
  "peek p = tk_kind (ps_lookahead p)"

definition bump :: "parser \<Rightarrow> token \<times> parser" where
  "bump p = (case next_or_eof (ps_input p) (ps_offset p) of (t, offset) \<Rightarrow> (ps_lookahead p, p\<lparr>ps_offset := offset, ps_lookahead := t\<rparr>))"

definition expect_kind :: "token_kind \<Rightarrow> parser \<Rightarrow> token parsed" where
  "expect_kind k p = (if peek p = k then Inr (bump p) else Inl (err_expected (ps_lookahead p) (kind_expected k)))"

definition expect_text :: "string \<Rightarrow> parser \<Rightarrow> token parsed" where
  "expect_text expected p = (if peek p = Text then Inr (bump p) else Inl (err_expected (ps_lookahead p) expected))"

definition finish_parse :: "'a \<times> parser \<Rightarrow> (parse_error, 'a) result" where
  "finish_parse r = (case r of (x, p) \<Rightarrow> if peek p = Eof then Inr x else Inl (trailing_input (ps_lookahead p)))"

definition parser_rest :: "parser \<Rightarrow> string" where
  "parser_rest p = drop (span_start (tk_span (ps_lookahead p))) (ps_input p)"

definition rest_span :: "parser \<Rightarrow> text_span" where
  "rest_span p = \<lparr>span_start = span_start (tk_span (ps_lookahead p)), span_end = length (ps_input p)\<rparr>"

definition parser_truncate :: "nat \<Rightarrow> parser \<Rightarrow> parser" where
  "parser_truncate e p =
     (let start = span_start (tk_span (ps_lookahead p)); input = take e (ps_input p)
      in case next_or_eof input start of (t, offset) \<Rightarrow> \<lparr>ps_input = input, ps_offset = offset, ps_lookahead = t\<rparr>)"

text \<open>Components.\<close>

definition parse_label :: "token \<Rightarrow> (parse_error, label) result" where
  "parse_label t = (case label_new (tk_text t) of Inl e \<Rightarrow> Inl (invalid_label (tk_span t) e) | Inr l \<Rightarrow> Inr l)"

definition parse_base58_uid :: "token \<Rightarrow> (parse_error, nat) result" where
  "parse_base58_uid t = ok_or (invalid_base58_uid t) (decode_base58_uid (tk_text t))"

definition parse_id_component_from_first_text :: "token \<Rightarrow> parser \<Rightarrow> uid parsed" where
  "parse_id_component_from_first_text l p =
     (if peek p = LessThan
      then bind_result (expect_text ''uid text'' (snd (bump p))) (\<lambda>(u, p).
           bind_result (expect_kind GreaterThan p) (\<lambda>(_, p).
           bind_result (parse_label l) (\<lambda>l.
           bind_result (parse_base58_uid u) (\<lambda>u. Inr (Instance u (Some l), p)))))
      else bind_result (parse_label l) (\<lambda>l. Inr (Singleton l, p)))"

definition parse_id_component :: "parser \<Rightarrow> uid parsed" where
  "parse_id_component p =
     (case peek p of
        Text \<Rightarrow> (case bump p of (l, p) \<Rightarrow> parse_id_component_from_first_text l p)
      | LessThan \<Rightarrow>
          bind_result (expect_text ''uid text'' (snd (bump p))) (\<lambda>(u, p).
          bind_result (expect_kind GreaterThan p) (\<lambda>(_, p).
          bind_result (parse_base58_uid u) (\<lambda>u. Inr (Instance u None, p))))
      | _ \<Rightarrow> Inl (err_expected (fst (bump p)) ''label or <''))"

definition parse_uid :: "parser \<Rightarrow> uid parsed" where
  "parse_uid p = parse_id_component p"

definition parse_handler_port :: "uid \<Rightarrow> token \<Rightarrow> (parse_error, port) result" where
  "parse_handler_port u t = (case u of Instance _ _ \<Rightarrow> Inr (Handler u) | Singleton _ \<Rightarrow> Inl (invalid_port t))"

definition parse_port :: "parser \<Rightarrow> port parsed" where
  "parse_port p =
     (case peek p of
        Text \<Rightarrow>
          (case bump p of (t, p) \<Rightarrow>
             if list_all is_ascii_digit (tk_text t)
             then bind_result (ok_or (invalid_port t) (u64_from_str (tk_text t))) (\<lambda>n. Inr (Ephemeral n, p))
             else bind_result (parse_id_component_from_first_text t p) (\<lambda>(u, p).
                  bind_result (parse_handler_port u t) (\<lambda>x. Inr (x, p))))
      | LessThan \<Rightarrow>
          bind_result (parse_id_component p) (\<lambda>(u, q).
          bind_result (parse_handler_port u (ps_lookahead p)) (\<lambda>x. Inr (x, q)))
      | _ \<Rightarrow> Inl (err_expected (ps_lookahead p) ''port''))"

definition control_port_from_str :: "string \<Rightarrow> control_port option" where
  "control_port_from_str s =
     (if s = ''introspect'' then Some Introspect else if s = ''signal'' then Some Signal else if s = ''status'' then Some Status else None)"

definition parse_control_port :: "parser \<Rightarrow> port parsed" where
  "parse_control_port p =
     bind_result (expect_text ''control port'' p) (\<lambda>(t, p).
     bind_result (ok_or (invalid_port t) (control_port_from_str (tk_text t))) (\<lambda>c. Inr (Control c, p)))"

text \<open>Identities.\<close>

datatype ident = IdProc proc_id | IdActor actor_id | IdPort port_id

definition parse_proc_id_with_parser :: "parser \<Rightarrow> proc_id parsed" where
  "parse_proc_id_with_parser p = bind_result (parse_uid p) (\<lambda>(u, p). Inr (proc_id_new u None, p))"

definition parse_actor_id_with_parser :: "parser \<Rightarrow> actor_id parsed" where
  "parse_actor_id_with_parser p =
     bind_result (parse_uid p) (\<lambda>(a, p).
     bind_result (expect_kind Dot p) (\<lambda>(_, p).
     bind_result (parse_proc_id_with_parser p) (\<lambda>(pr, p). Inr (actor_id_new a pr None, p))))"

definition port_id_new :: "actor_id \<Rightarrow> port \<Rightarrow> port_id" where
  "port_id_new a x = \<lparr>port_actor = a, port_port = x\<rparr>"

definition parse_port_id_with_parser :: "parser \<Rightarrow> port_id parsed" where
  "parse_port_id_with_parser p =
     bind_result (parse_actor_id_with_parser p) (\<lambda>(a, p).
     bind_result
       (case peek p of
          Colon \<Rightarrow> parse_port (snd (bump p))
        | Bang \<Rightarrow> parse_control_port (snd (bump p))
        | _ \<Rightarrow> Inl (err_expected (ps_lookahead p) '': or !'')) (\<lambda>(x, p).
     Inr (port_id_new a x, p)))"

definition parse_id_with_parser :: "parser \<Rightarrow> ident parsed" where
  "parse_id_with_parser p =
     bind_result (parse_uid p) (\<lambda>(first, p).
     case peek p of
       Dot \<Rightarrow>
         bind_result (parse_proc_id_with_parser (snd (bump p))) (\<lambda>(pr, p).
         case peek p of
           Colon \<Rightarrow> bind_result (parse_port (snd (bump p))) (\<lambda>(x, p). Inr (IdPort (port_id_new (actor_id_new first pr None) x), p))
         | Bang \<Rightarrow> bind_result (parse_control_port (snd (bump p))) (\<lambda>(x, p). Inr (IdPort (port_id_new (actor_id_new first pr None) x), p))
         | _ \<Rightarrow> Inr (IdActor (actor_id_new first pr None), p))
     | _ \<Rightarrow> Inr (IdProc (proc_id_new first None), p))"

definition parse_uid_str :: "string \<Rightarrow> (parse_error, uid) result" where
  "parse_uid_str input = bind_result (parse_uid (parser_new input)) finish_parse"

definition parse_id :: "string \<Rightarrow> (parse_error, ident) result" where
  "parse_id input = bind_result (parse_id_with_parser (parser_new input)) finish_parse"

definition parse_proc_id :: "string \<Rightarrow> (parse_error, proc_id) result" where
  "parse_proc_id input = bind_result (parse_proc_id_with_parser (parser_new input)) finish_parse"

definition parse_actor_id :: "string \<Rightarrow> (parse_error, actor_id) result" where
  "parse_actor_id input = bind_result (parse_actor_id_with_parser (parser_new input)) finish_parse"

definition parse_port_id :: "string \<Rightarrow> (parse_error, port_id) result" where
  "parse_port_id input = bind_result (parse_port_id_with_parser (parser_new input)) finish_parse"

section \<open>Display\<close>

definition uid_display :: "uid \<Rightarrow> string" where
  "uid_display u = (case u of
     Singleton l \<Rightarrow> l
   | Instance n (Some l) \<Rightarrow> l @ ''<'' @ encode_base58_uid n @ ''>''
   | Instance n None \<Rightarrow> ''<'' @ encode_base58_uid n @ ''>'')"

definition proc_id_display :: "proc_id \<Rightarrow> string" where
  "proc_id_display p = uid_display (proc_uid p)"

definition actor_id_display :: "actor_id \<Rightarrow> string" where
  "actor_id_display a = uid_display (actor_uid a) @ ''.'' @ proc_id_display (actor_proc a)"

definition control_port_display :: "control_port \<Rightarrow> string" where
  "control_port_display c = (case c of Introspect \<Rightarrow> ''introspect'' | Signal \<Rightarrow> ''signal'' | Status \<Rightarrow> ''status'')"

definition port_display :: "port \<Rightarrow> string" where
  "port_display x = (case x of Ephemeral n \<Rightarrow> u64_display n | Handler u \<Rightarrow> uid_display u | Control c \<Rightarrow> control_port_display c)"

definition port_id_display :: "port_id \<Rightarrow> string" where
  "port_id_display x = (case port_port x of
     Control c \<Rightarrow> actor_id_display (port_actor x) @ ''!'' @ control_port_display c
   | _ \<Rightarrow> actor_id_display (port_actor x) @ '':'' @ port_display (port_port x))"

definition id_display :: "ident \<Rightarrow> string" where
  "id_display i = (case i of IdProc p \<Rightarrow> proc_id_display p | IdActor a \<Rightarrow> actor_id_display a | IdPort x \<Rightarrow> port_id_display x)"

end
