(* ===== verification/Id_Props.thy ===== *)
theory Id_Props
  imports Id_Syntax
begin

text \<open>
  Printing and parsing of identities: positional numbers as a locale with the base-58 and the
  decimal digits as its instances, what the lexer does on a piece of the input, the round trip of
  every identity, and that parsing yields well-formed identities only.
\<close>

section \<open>Positional numbers\<close>

locale positional =
  fixes base :: nat and digit :: "nat \<Rightarrow> char" and digit_value :: "char \<Rightarrow> nat option"
    and digits :: "nat \<Rightarrow> string" and decode :: "nat \<Rightarrow> string \<Rightarrow> nat option"
  assumes base: "1 < base"
    and digit_value: "d < base \<Longrightarrow> digit_value (digit d) = Some d"
    and digits: "digits n = (if 0 < n then digit (n mod base) # digits (n div base) else [])"
    and decode_Nil: "decode acc [] = Some acc"
    and decode_Cons: "decode acc (c # s) =
      Option.bind (digit_value c) (\<lambda>d. Option.bind (next_digit base acc d) (\<lambda>v. decode v s))"
begin

lemma decode_prefix:
  assumes "n < usize_bound"
  shows "decode 0 (rev (digits n) @ s) = decode n s"
  using assms
proof (induction n arbitrary: s rule: less_induct)
  case (less n)
  show ?case
  proof (cases "n = 0")
    case False
    then have d: "n div base < n" using base by simp
    then have "n div base < usize_bound" using less.prems by linarith
    with less.IH [OF d] have "decode 0 (rev (digits (n div base)) @ digit (n mod base) # s) = decode (n div base) (digit (n mod base) # s)"
      by blast
    moreover have "next_digit base (n div base) (n mod base) = Some n"
      using less.prems order_le_less_trans [OF div_times_less_eq_dividend less.prems] by (simp add: next_digit_def checked_mul_def checked_add_def)
    moreover have "n mod base < base" using base by simp
    ultimately show ?thesis using False by (simp add: digits [of n] decode_Cons digit_value)
  qed (simp add: digits [of 0])
qed

lemma decode_digits: "n < usize_bound \<Longrightarrow> decode 0 (rev (digits n)) = Some n"
  using decode_prefix [of n "[]"] by (simp add: decode_Nil)

lemma decode_bound: "decode acc s = Some v \<Longrightarrow> acc < usize_bound \<Longrightarrow> v < usize_bound"
proof (induction s arbitrary: acc)
  case (Cons c s)
  then obtain d u where "next_digit base acc d = Some u" "decode u s = Some v" by (auto simp: decode_Cons bind_eq_Some_conv)
  moreover from this(1) have "u < usize_bound" by (auto simp: next_digit_def checked_add_def bind_eq_Some_conv split: if_splits)
  ultimately show ?case using Cons.IH by blast
qed (simp add: decode_Nil)

lemma digits_chars: "c \<in> set (digits n) \<Longrightarrow> \<exists>d < base. c = digit d"
proof (induction n rule: less_induct)
  case (less n)
  show ?case
  proof (cases "n = 0")
    case False
    then have "n div base < n" "n mod base < base" using base by simp_all
    then show ?thesis using less False digits [of n] by auto
  qed (use less digits [of 0] in simp)
qed

lemma digits_Nil: "digits n = [] \<longleftrightarrow> n = 0"
  using digits [of n] by auto

end

lemma index_of_nth: "distinct xs \<Longrightarrow> i < length xs \<Longrightarrow> index_of (xs ! i) xs = Some i"
  by (induction xs arbitrary: i) (auto simp: nth_Cons split: nat.splits)

interpretation base58: positional 58 "\<lambda>d. base58_flickr ! d" "\<lambda>c. index_of c base58_flickr" base58_digits decode_base58_loop
proof
  have "distinct base58_flickr" "length base58_flickr = 58" by (simp_all add: base58_flickr_def)
  then show "index_of (base58_flickr ! d) base58_flickr = Some d" if "d < 58" for d using that by (simp add: index_of_nth)
  show "base58_digits n = (if 0 < n then base58_flickr ! (n mod 58) # base58_digits (n div 58) else [])" for n
    by (rule base58_digits.simps)
qed simp_all

interpretation decimal: positional 10 "\<lambda>d. decimal_alphabet ! d" "\<lambda>c. index_of c decimal_alphabet" decimal_digits u64_loop
proof
  have "distinct decimal_alphabet" "length decimal_alphabet = 10" by (simp_all add: decimal_alphabet_def)
  then show "index_of (decimal_alphabet ! d) decimal_alphabet = Some d" if "d < 10" for d using that by (simp add: index_of_nth)
  show "decimal_digits n = (if 0 < n then decimal_alphabet ! (n mod 10) # decimal_digits (n div 10) else [])" for n
    by (rule decimal_digits.simps)
qed simp_all

lemma index_of_hd: "xs \<noteq> [] \<Longrightarrow> index_of (xs ! 0) xs = Some 0"
  by (cases xs) simp_all

lemma decode_encode_base58: "n < usize_bound \<Longrightarrow> decode_base58_uid (encode_base58_uid n) = Some n"
  using base58.decode_digits [of n] base58.digits_Nil [of n]
  by (auto simp: decode_base58_uid_def encode_base58_uid_def base58_flickr_def next_digit_def checked_mul_def checked_add_def usize_bound_def)

lemma decode_base58_bound: "decode_base58_uid s = Some n \<Longrightarrow> n < usize_bound"
  using base58.decode_bound [of 0 s n] by (auto simp: decode_base58_uid_def usize_bound_def split: if_splits)

lemma base58_chars: "c \<in> set (encode_base58_uid n) \<Longrightarrow> c \<in> set base58_flickr"
proof (cases "n = 0")
  case False
  assume "c \<in> set (encode_base58_uid n)"
  then obtain d where "d < 58" "c = base58_flickr ! d" using base58.digits_chars [of c n] False by (auto simp: encode_base58_uid_def)
  moreover have "length base58_flickr = 58" by (simp add: base58_flickr_def)
  ultimately show ?thesis by simp
qed (simp add: encode_base58_uid_def base58_flickr_def)

lemma encode_base58_nonempty: "encode_base58_uid n \<noteq> []"
  using base58.digits_Nil [of n] by (simp add: encode_base58_uid_def)

lemma u64_chars: "c \<in> set (u64_display n) \<Longrightarrow> is_ascii_digit c"
proof (cases "n = 0")
  case False
  assume "c \<in> set (u64_display n)"
  then obtain d where "d < 10" "c = decimal_alphabet ! d" using decimal.digits_chars [of c n] False by (auto simp: u64_display_def)
  moreover have "length decimal_alphabet = 10" by (simp add: decimal_alphabet_def)
  ultimately show ?thesis by (simp add: is_ascii_digit_def)
qed (simp add: u64_display_def is_ascii_digit_def decimal_alphabet_def)

lemma u64_nonempty: "u64_display n \<noteq> []"
  using decimal.digits_Nil [of n] by (simp add: u64_display_def)

lemma u64_roundtrip:
  assumes "n < usize_bound"
  shows "u64_from_str (u64_display n) = Some n"
proof -
  have "hd (u64_display n) \<noteq> CHR ''+''" using u64_chars [of "hd (u64_display n)" n] u64_nonempty by (auto simp: is_ascii_digit_def decimal_alphabet_def)
  moreover have "u64_loop 0 (u64_display n) = Some n"
    using decimal.decode_digits [OF assms] by (simp add: u64_display_def decimal_alphabet_def next_digit_def checked_mul_def checked_add_def usize_bound_def)
  ultimately show ?thesis using u64_nonempty [of n] by (cases "u64_display n") (simp_all add: u64_from_str_def)
qed

section \<open>Labels\<close>

definition label_ok :: "label \<Rightarrow> bool" where
  "label_ok l \<longleftrightarrow> l \<noteq> [] \<and> length l \<le> 63 \<and> is_ascii_lowercase (hd l) \<and> (is_ascii_lowercase (last l) \<or> is_ascii_digit (last l)) \<and>
     list_all label_char l"

lemma check_chars_ok: "check_chars s = Inr u \<longleftrightarrow> list_all label_char s"
  by (induction s) auto

lemma label_new_ok: "label_new s = Inr l \<longleftrightarrow> l = s \<and> label_ok s"
  using check_chars_ok [of s "()"] by (cases "check_chars s") (auto simp: label_new_def label_ok_def)

lemma trim_end_id: "s \<noteq> [] \<Longrightarrow> \<not> f (last s) \<Longrightarrow> trim_end_matches f s = s"
  by (cases s rule: rev_cases) (simp_all add: trim_end_matches_def)

lemma trim_end_prefix: "\<exists>t. s = trim_end_matches f s @ t"
  by (metis rev_append rev_rev_ident takeWhile_dropWhile_id trim_end_matches_def)

lemma trim_end_last: "trim_end_matches f s \<noteq> [] \<Longrightarrow> \<not> f (last (trim_end_matches f s))"
  using hd_dropWhile [of f "rev s"] by (simp add: trim_end_matches_def last_rev)

lemma not_uppercase: "label_char c \<Longrightarrow> \<not> is_ascii_uppercase c"
proof -
  have "list_all (\<lambda>c. \<not> label_char c) ''ABCDEFGHIJKLMNOPQRSTUVWXYZ''" by code_simp
  then show "label_char c \<Longrightarrow> \<not> is_ascii_uppercase c" by (auto simp only: is_ascii_uppercase_def list_all_iff)
qed

theorem label_strip_ok: "label_ok (label_strip s) \<and> (label_ok s \<longrightarrow> label_strip s = s)"
proof -
  let ?e = "\<lambda>c. \<not> (is_ascii_lowercase c \<or> is_ascii_digit c)"
  define lo where "lo = filter label_char (map to_ascii_lowercase s)"
  define st where "st = dropWhile (\<lambda>c. \<not> is_ascii_lowercase c) lo"
  define tr where "tr = trim_end_matches ?e st"
  define tu where "tu = (if 63 < length tr then trim_end_matches ?e (take 63 tr) else tr)"
  have r: "label_strip s = (if tr = [] then ''nil'' else if tu = [] then ''nil'' else tu)"
    by (simp add: label_strip_def Let_def lo_def st_def tr_def tu_def)
  have nil: "label_ok ''nil''" by (simp add: label_ok_def label_char_def is_ascii_lowercase_def)
  have "label_ok tu" if n: "tr \<noteq> []" "tu \<noteq> []"
  proof -
    obtain t1 where t1: "st = tr @ t1" using trim_end_prefix tr_def by metis
    have "\<exists>t. tr = tu @ t \<and> length tu \<le> 63"
    proof (cases "63 < length tr")
      case True
      then have "tu = trim_end_matches ?e (take 63 tr)" by (simp add: tu_def)
      then obtain t where t: "take 63 tr = tu @ t" using trim_end_prefix by metis
      have "tr = (tu @ t) @ drop 63 tr" using append_take_drop_id [of 63 tr] unfolding t by (rule sym)
      moreover have "length tu \<le> 63" using arg_cong [OF t, of length] by simp
      ultimately show ?thesis by auto
    qed (simp add: tu_def)
    then obtain t2 where t2: "tr = tu @ t2" "length tu \<le> 63" by blast
    have "is_ascii_lowercase (hd st)" using hd_dropWhile [of "\<lambda>c. \<not> is_ascii_lowercase c" lo] n t1 unfolding st_def by (metis (no_types) Nil_is_append_conv)
    then have "is_ascii_lowercase (hd tu)" using t1 t2(1) n by simp
    moreover have "\<not> ?e (last tu)"
    proof (cases "63 < length tr")
      case True
      then show ?thesis using trim_end_last [of ?e "take 63 tr"] n(2) by (simp add: tu_def)
    next
      case False
      then show ?thesis using trim_end_last [of ?e st] n(1) by (simp add: tu_def tr_def)
    qed
    moreover have "set tu \<subseteq> set lo" 
    proof
      fix c
      assume "c \<in> set tu"
      then have "c \<in> set st" using t1 t2(1) by simp
      then show "c \<in> set lo" unfolding st_def by (rule set_dropWhileD)
    qed
    then have "list_all label_char tu" by (auto simp: lo_def list_all_iff)
    ultimately show ?thesis using n using t2(2) by (simp add: label_ok_def)
  qed
  moreover have "label_strip s = s" if l: "label_ok s"
  proof -
    have "to_ascii_lowercase c = c" if "c \<in> set s" for c
      using l that not_uppercase [of c] by (auto simp: label_ok_def list_all_iff to_ascii_lowercase_def)
    then have "lo = s" using l by (simp add: lo_def label_ok_def list_all_iff map_idI)
    then have "st = s" using l by (cases s) (simp_all add: st_def label_ok_def)
    then have "tr = s" using l trim_end_id [of s ?e] by (simp add: tr_def label_ok_def)
    then show ?thesis using l by (simp add: r tu_def label_ok_def)
  qed
  ultimately show ?thesis using r nil by (cases "tr = [] \<or> tu = []") auto
qed

section \<open>Reading a piece of the input\<close>

text \<open>The parser between two tokens: \<open>pre\<close> is read, \<open>s\<close> is not.\<close>

definition reading :: "string \<Rightarrow> string \<Rightarrow> parser" where
  "reading pre s = (case next_or_eof (pre @ s) (length pre) of (t, offset) \<Rightarrow> \<lparr>ps_input = pre @ s, ps_offset = offset, ps_lookahead = t\<rparr>)"

text \<open>The token at the front of the rest, its text and what follows.\<close>

definition token_len :: "string \<Rightarrow> nat" where
  "token_len s = (case s of [] \<Rightarrow> 0 | c # _ \<Rightarrow> (case delimiter c of Some _ \<Rightarrow> 1 | None \<Rightarrow> length (takeWhile (\<lambda>c. delimiter c = None) s)))"

definition front_kind :: "string \<Rightarrow> token_kind" where
  "front_kind s = (case s of [] \<Rightarrow> Eof | c # _ \<Rightarrow> (case delimiter c of Some k \<Rightarrow> k | None \<Rightarrow> Text))"

definition front_token :: "string \<Rightarrow> string \<Rightarrow> token" where
  "front_token pre s = \<lparr>tk_kind = front_kind s, tk_text = take (token_len s) s,
     tk_span = \<lparr>span_start = length pre, span_end = length pre + token_len s\<rparr>\<rparr>"

lemma next_or_eof_front: "next_or_eof (pre @ s) (length pre) = (front_token pre s, length pre + token_len s)"
  by (cases s) (auto simp: next_or_eof_def lexer_next_def token_eof_def front_token_def front_kind_def token_len_def Let_def split: option.splits)

lemma reading_fields: "ps_input (reading pre s) = pre @ s" "ps_offset (reading pre s) = length pre + token_len s"
  "ps_lookahead (reading pre s) = front_token pre s"
  by (simp_all add: reading_def next_or_eof_front)

lemma parser_new_reading: "parser_new input = reading [] input"
  by (simp add: parser_new_def reading_def)

lemma peek_reading: "peek (reading pre s) = front_kind s"
  by (simp add: peek_def reading_fields front_token_def)

lemma token_len_le: "token_len s \<le> length s"
  by (auto simp: token_len_def length_takeWhile_le split: list.splits option.splits)

lemma bump_reading: "bump (reading pre s) = (front_token pre s, reading (pre @ take (token_len s) s) (drop (token_len s) s))"
proof -
  let ?a = "take (token_len s) s" and ?b = "drop (token_len s) s"
  have "pre @ s = (pre @ ?a) @ ?b" "length pre + token_len s = length (pre @ ?a)" using token_len_le [of s] by simp_all
  then have "next_or_eof (pre @ s) (length pre + token_len s) = (front_token (pre @ ?a) ?b, length (pre @ ?a) + token_len ?b)"
    using next_or_eof_front by metis
  then show ?thesis using token_len_le [of s] by (simp add: bump_def reading_def next_or_eof_front)
qed

text \<open>Text without delimiters, and what may follow it.\<close>

definition plain :: "string \<Rightarrow> bool" where
  "plain x \<longleftrightarrow> x \<noteq> [] \<and> list_all (\<lambda>c. delimiter c = None) x"

definition boundary :: "string \<Rightarrow> bool" where
  "boundary s \<longleftrightarrow> front_kind s \<noteq> Text"

lemma boundary_simps [simp]: "boundary []" "boundary (CHR ''.'' # s)" "boundary (CHR '':'' # s)" "boundary (CHR ''@'' # s)"
  "boundary (CHR ''!'' # s)" "boundary (CHR ''<'' # s)" "boundary (CHR ''>'' # s)"
  by (simp_all add: boundary_def front_kind_def delimiter_def)

lemma front_kind_simps [simp]: "front_kind [] = Eof" "front_kind (CHR ''.'' # s) = Dot" "front_kind (CHR '':'' # s) = Colon"
  "front_kind (CHR ''@'' # s) = At" "front_kind (CHR ''!'' # s) = Bang" "front_kind (CHR ''<'' # s) = LessThan"
  "front_kind (CHR ''>'' # s) = GreaterThan"
  by (simp_all add: front_kind_def delimiter_def)

lemma token_len_simps [simp]: "token_len [] = 0" "token_len (CHR ''.'' # s) = 1" "token_len (CHR '':'' # s) = 1"
  "token_len (CHR ''@'' # s) = 1" "token_len (CHR ''!'' # s) = 1" "token_len (CHR ''<'' # s) = 1" "token_len (CHR ''>'' # s) = 1"
  by (simp_all add: token_len_def delimiter_def)

lemma plain_front:
  assumes "plain x" "boundary s"
  shows "front_kind (x @ s) = Text" "token_len (x @ s) = length x"
proof -
  obtain c y where x: "x = c # y" "delimiter c = None" using assms(1) by (cases x) (auto simp: plain_def)
  then show "front_kind (x @ s) = Text" by (simp add: front_kind_def)
  have "takeWhile (\<lambda>c. delimiter c = None) s = []" using assms(2) by (cases s) (auto simp: boundary_def front_kind_def split: option.splits)
  moreover have "takeWhile (\<lambda>c. delimiter c = None) (x @ s) = x @ takeWhile (\<lambda>c. delimiter c = None) s"
    using assms(1) by (intro takeWhile_append2) (auto simp: plain_def list_all_iff)
  moreover have "token_len (x @ s) = length (takeWhile (\<lambda>c. delimiter c = None) (x @ s))" using x by (simp add: token_len_def)
  ultimately show "token_len (x @ s) = length x" by simp
qed

lemma bump_plain: "plain x \<Longrightarrow> boundary s \<Longrightarrow> bump (reading pre (x @ s)) = (front_token pre (x @ s), reading (pre @ x) s)"
  "plain x \<Longrightarrow> boundary s \<Longrightarrow> tk_text (front_token pre (x @ s)) = x"
  by (simp_all add: bump_reading plain_front front_token_def)

lemma label_char_plain: "label_char c \<Longrightarrow> delimiter c = None"
  by (auto simp: label_char_def delimiter_def is_ascii_lowercase_def is_ascii_digit_def decimal_alphabet_def)

lemma label_plain: "label_ok l \<Longrightarrow> plain l"
  using label_char_plain by (auto simp: label_ok_def plain_def list_all_iff)

lemma base58_plain: "plain (encode_base58_uid n)"
proof -
  have "list_all (\<lambda>c. delimiter c = None) base58_flickr" by code_simp
  then show ?thesis using base58_chars [of _ n] encode_base58_nonempty [of n] by (auto simp: plain_def list_all_iff)
qed

lemma u64_plain: "plain (u64_display n)"
proof -
  have "list_all (\<lambda>c. delimiter c = None) decimal_alphabet" by code_simp
  then show ?thesis using u64_chars [of _ n] u64_nonempty [of n] by (auto simp: plain_def list_all_iff is_ascii_digit_def)
qed

section \<open>Round trips\<close>

definition uid_ok :: "uid \<Rightarrow> bool" where
  "uid_ok u = (case u of Singleton l \<Rightarrow> label_ok l | Instance n l \<Rightarrow> n < usize_bound \<and> (case l of None \<Rightarrow> True | Some x \<Rightarrow> label_ok x))"

definition port_ok :: "port \<Rightarrow> bool" where
  "port_ok x = (case x of Ephemeral n \<Rightarrow> n < usize_bound | Handler u \<Rightarrow> uid_ok u \<and> instance_value u \<noteq> None | Control _ \<Rightarrow> True)"

definition proc_id_ok :: "proc_id \<Rightarrow> bool" where
  "proc_id_ok p = uid_ok (proc_uid p)"

definition actor_id_ok :: "actor_id \<Rightarrow> bool" where
  "actor_id_ok a = (uid_ok (actor_uid a) \<and> proc_id_ok (actor_proc a))"

definition port_id_ok :: "port_id \<Rightarrow> bool" where
  "port_id_ok x = (actor_id_ok (port_actor x) \<and> port_ok (port_port x))"

definition id_ok :: "ident \<Rightarrow> bool" where
  "id_ok i = (case i of IdProc p \<Rightarrow> proc_id_ok p | IdActor a \<Rightarrow> actor_id_ok a | IdPort x \<Rightarrow> port_id_ok x)"

text \<open>What may follow an identity that is written in front of other text.\<close>

definition id_end :: "string \<Rightarrow> bool" where
  "id_end s \<longleftrightarrow> boundary s \<and> front_kind s \<noteq> LessThan"

lemma id_end_simps [simp]: "id_end []" "id_end (CHR ''.'' # s)" "id_end (CHR '':'' # s)" "id_end (CHR ''@'' # s)" "id_end (CHR ''!'' # s)"
  by (simp_all add: id_end_def)

lemma with_label_None [simp]: "with_label u None = u"
  by (simp add: with_label_def split: uid.splits)

lemma parse_label_ok: "label_ok l \<Longrightarrow> tk_text t = l \<Longrightarrow> parse_label t = Inr l"
  using label_new_ok [of l l] by (simp add: parse_label_def)

lemma expect_delimiter:
  "expect_kind Dot (reading pre (CHR ''.'' # s)) = Inr (front_token pre (CHR ''.'' # s), reading (pre @ ''.'') s)"
  "expect_kind At (reading pre (CHR ''@'' # s)) = Inr (front_token pre (CHR ''@'' # s), reading (pre @ ''@'') s)"
  "expect_kind GreaterThan (reading pre (CHR ''>'' # s)) = Inr (front_token pre (CHR ''>'' # s), reading (pre @ ''>'') s)"
  by (simp_all add: bump_reading peek_reading expect_kind_def)

lemma expect_plain:
  "plain x \<Longrightarrow> boundary s \<Longrightarrow> expect_text e (reading pre (x @ s)) = Inr (front_token pre (x @ s), reading (pre @ x) s)"
  by (simp add: expect_text_def peek_reading plain_front bump_plain)

lemma parse_base58_display:
  "n < usize_bound \<Longrightarrow> parse_base58_uid (front_token pre (encode_base58_uid n @ CHR ''>'' # s)) = Inr n"
  by (simp add: parse_base58_uid_def bump_plain base58_plain decode_encode_base58 ok_or_def)

lemmas bracketed = bump_reading expect_plain [OF base58_plain] expect_delimiter parse_base58_display

lemma from_first_text:
  assumes "label_ok (tk_text t)"
  shows "n < usize_bound \<Longrightarrow> parse_id_component_from_first_text t (reading pre (CHR ''<'' # encode_base58_uid n @ CHR ''>'' # s)) =
      Inr (Instance n (Some (tk_text t)), reading (pre @ CHR ''<'' # encode_base58_uid n @ ''>'') s)"
    "id_end s \<Longrightarrow> parse_id_component_from_first_text t (reading pre s) = Inr (Singleton (tk_text t), reading pre s)"
  using assms by (simp_all add: parse_id_component_from_first_text_def peek_reading bracketed id_end_def parse_label_ok del: bind_result_eq_Inr)

lemma parse_uid_display:
  assumes "uid_ok u" "id_end s"
  shows "parse_uid (reading pre (uid_display u @ s)) = Inr (u, reading (pre @ uid_display u) s)"
proof (cases u)
  case (Singleton l)
  then show ?thesis using assms
    by (simp add: parse_uid_def parse_id_component_def uid_ok_def uid_display_def peek_reading label_plain plain_front bump_plain id_end_def
        from_first_text [unfolded id_end_def])
next
  case (Instance n x)
  show ?thesis
  proof (cases x)
    case None
    then show ?thesis using assms Instance
      by (simp add: parse_uid_def parse_id_component_def uid_ok_def uid_display_def peek_reading bracketed del: bind_result_eq_Inr)
  next
    case (Some l)
    then show ?thesis using assms Instance
      by (simp add: parse_uid_def parse_id_component_def uid_ok_def uid_display_def peek_reading label_plain plain_front bump_plain from_first_text
          del: bind_result_eq_Inr)
  qed
qed

lemma parse_proc_display:
  assumes "proc_id_ok p" "id_end s"
  shows "parse_proc_id_with_parser (reading pre (proc_id_display p @ s)) = Inr (p, reading (pre @ proc_id_display p) s)"
  using assms by (simp add: parse_proc_id_with_parser_def proc_id_ok_def proc_id_display_def proc_id_new_def parse_uid_display del: bind_result_eq_Inr)

lemma parse_actor_display:
  assumes "actor_id_ok a" "id_end s"
  shows "parse_actor_id_with_parser (reading pre (actor_id_display a @ s)) = Inr (a, reading (pre @ actor_id_display a) s)"
  using assms
  by (simp add: parse_actor_id_with_parser_def actor_id_ok_def actor_id_display_def actor_id_new_def parse_uid_display parse_proc_display
      expect_delimiter del: bind_result_eq_Inr)

lemma lowercase_not_digit: "is_ascii_lowercase c \<Longrightarrow> \<not> is_ascii_digit c"
proof -
  have "list_all (\<lambda>c. \<not> is_ascii_digit c) ''abcdefghijklmnopqrstuvwxyz''" by code_simp
  then show "is_ascii_lowercase c \<Longrightarrow> \<not> is_ascii_digit c" unfolding is_ascii_lowercase_def list_all_iff by blast
qed

lemma handler_text: "label_ok l \<Longrightarrow> \<not> list_all is_ascii_digit l"
  using lowercase_not_digit [of "hd l"] by (cases l) (auto simp: label_ok_def)

lemma parse_port_display:
  assumes "port_ok x" "\<not> port_is_control x" "id_end s"
  shows "parse_port (reading pre (port_display x @ s)) = Inr (x, reading (pre @ port_display x) s)"
proof (cases x)
  case (Ephemeral n)
  then show ?thesis using assms u64_chars
    by (simp add: parse_port_def port_ok_def port_display_def peek_reading plain_front bump_plain u64_plain id_end_def list_all_iff u64_roundtrip
        ok_or_def del: bind_result_eq_Inr)
next
  case (Handler u)
  then obtain n l where u: "u = Instance n l" using assms by (cases u) (auto simp: port_ok_def instance_value_def)
  show ?thesis
  proof (cases l)
    case None
    then show ?thesis using assms Handler u
      by (simp add: parse_port_def parse_id_component_def parse_handler_port_def port_ok_def uid_ok_def port_display_def uid_display_def peek_reading bracketed
          del: bind_result_eq_Inr)
  next
    case (Some x)
    then show ?thesis using assms Handler u
      by (simp add: parse_port_def parse_handler_port_def port_ok_def uid_ok_def port_display_def uid_display_def peek_reading label_plain plain_front
          bump_plain handler_text from_first_text del: bind_result_eq_Inr)
  qed
qed (use assms in \<open>simp add: port_is_control_def\<close>)

lemma control_plain: "plain (control_port_display c)"
  by (cases c) (simp_all add: plain_def control_port_display_def delimiter_def)

lemma parse_control_display:
  assumes "id_end s"
  shows "parse_control_port (reading pre (control_port_display c @ s)) = Inr (Control c, reading (pre @ control_port_display c) s)"
proof -
  have "control_port_from_str (control_port_display c) = Some c" by (cases c) (simp_all add: control_port_from_str_def control_port_display_def)
  then show ?thesis using assms
    by (simp add: parse_control_port_def expect_plain [OF control_plain] bump_plain [OF control_plain] id_end_def ok_or_def del: bind_result_eq_Inr)
qed

lemma parse_port_id_display:
  assumes "port_id_ok x" "id_end s"
  shows "parse_port_id_with_parser (reading pre (port_id_display x @ s)) = Inr (x, reading (pre @ port_id_display x) s)"
  using assms
  by (cases "port_port x")
    (simp_all add: parse_port_id_with_parser_def port_id_ok_def port_id_display_def port_id_new_def parse_actor_display bump_reading peek_reading
      parse_port_display parse_control_display port_is_control_def del: bind_result_eq_Inr)

lemma parse_id_display:
  assumes "id_ok i" "id_end s" "front_kind s \<notin> {Dot, Colon, Bang}"
  shows "parse_id_with_parser (reading pre (id_display i @ s)) = Inr (i, reading (pre @ id_display i) s)"
proof (cases i)
  case (IdProc p)
  then show ?thesis using assms
    by (simp add: parse_id_with_parser_def id_ok_def id_display_def proc_id_ok_def proc_id_display_def proc_id_new_def parse_uid_display
        peek_reading del: bind_result_eq_Inr split: token_kind.splits)
next
  case (IdActor a)
  then show ?thesis using assms
    by (simp add: parse_id_with_parser_def id_ok_def id_display_def actor_id_ok_def actor_id_display_def actor_id_new_def parse_uid_display
        parse_proc_display bump_reading peek_reading del: bind_result_eq_Inr split: token_kind.splits)
next
  case (IdPort x)
  then show ?thesis using assms
    by (cases "port_port x")
      (simp_all add: parse_id_with_parser_def id_ok_def id_display_def port_id_ok_def port_id_display_def port_id_new_def actor_id_ok_def
        actor_id_display_def actor_id_new_def parse_uid_display parse_proc_display parse_port_display parse_control_display port_is_control_def
        bump_reading peek_reading del: bind_result_eq_Inr)
qed

lemma parse_whole:
  assumes "\<And>s. id_end s \<Longrightarrow> front_kind s \<notin> {Dot, Colon, Bang} \<Longrightarrow> f (reading [] (d @ s)) = Inr (x, reading d s)"
  shows "bind_result (f (parser_new d)) finish_parse = Inr x"
  using assms [of "[]"] by (simp add: parser_new_reading finish_parse_def peek_reading del: bind_result_eq_Inr)

section \<open>Parsing yields well-formed identities\<close>

lemma parse_base58_bound: "parse_base58_uid t = Inr n \<Longrightarrow> n < usize_bound"
  using decode_base58_bound [of "tk_text t" n] by (auto simp: parse_base58_uid_def ok_or_def split: option.splits)

lemma parse_label_valid: "parse_label t = Inr l \<Longrightarrow> label_ok l"
  using label_new_ok [of "tk_text t" l] by (auto simp: parse_label_def split: sum.splits)

lemma from_first_text_valid: "parse_id_component_from_first_text t p = Inr (u, q) \<Longrightarrow> uid_ok u"
  by (auto simp: parse_id_component_from_first_text_def uid_ok_def parse_base58_bound parse_label_valid split: if_splits prod.splits)

lemma parse_uid_valid: "parse_uid p = Inr (u, q) \<Longrightarrow> uid_ok u"
  by (auto simp: parse_uid_def parse_id_component_def parse_base58_bound uid_ok_def dest: from_first_text_valid
      split: token_kind.splits prod.splits)

lemma u64_loop_bound: "u64_from_str s = Some n \<Longrightarrow> n < usize_bound"
  using decimal.decode_bound [of 0] by (auto simp: u64_from_str_def usize_bound_def simp del: u64_loop.simps split: list.splits if_splits)

lemma handler_port_valid: "parse_handler_port u t = Inr x \<Longrightarrow> uid_ok u \<Longrightarrow> port_ok x"
  by (auto simp: parse_handler_port_def port_ok_def instance_value_def split: uid.splits)

lemma parse_port_valid: "parse_port p = Inr (x, q) \<Longrightarrow> port_ok x"
  by (auto simp: parse_port_def ok_or_def port_ok_def dest: from_first_text_valid u64_loop_bound parse_uid_valid [unfolded parse_uid_def]
      dest!: handler_port_valid split: token_kind.splits prod.splits if_splits option.splits)

lemma parse_control_valid: "parse_control_port p = Inr (x, q) \<Longrightarrow> port_ok x"
  by (auto simp: parse_control_port_def port_ok_def split: prod.splits)

lemma parse_proc_valid: "parse_proc_id_with_parser p = Inr (i, q) \<Longrightarrow> proc_id_ok i"
  by (auto simp: parse_proc_id_with_parser_def proc_id_new_def proc_id_ok_def dest: parse_uid_valid split: prod.splits)

lemma parse_id_valid:
  assumes "parse_id_with_parser p = Inr (i, q)"
  shows "id_ok i"
proof -
  obtain u p1 where u: "parse_uid p = Inr (u, p1)" using assms by (auto simp: parse_id_with_parser_def)
  then have uok: "uid_ok u" by (rule parse_uid_valid)
  show ?thesis
  proof (cases "peek p1 = Dot")
    case False
    then have "i = IdProc (proc_id_new u None)" using assms u by (cases "peek p1") (auto simp: parse_id_with_parser_def)
    then show ?thesis using uok by (simp add: id_ok_def proc_id_ok_def proc_id_new_def)
  next
    case True
    then obtain pr p2 where pr: "parse_proc_id_with_parser (snd (bump p1)) = Inr (pr, p2)"
      using assms u by (auto simp: parse_id_with_parser_def)
    then have "actor_id_ok (actor_id_new u pr None)" using uok parse_proc_valid by (auto simp: actor_id_ok_def actor_id_new_def)
    then show ?thesis using assms u pr True parse_port_valid parse_control_valid
      by (cases "peek p2") (auto simp: parse_id_with_parser_def id_ok_def port_id_ok_def port_id_new_def)
  qed
qed

text \<open>Printing and parsing of identities. Every well-formed identity (a label follows the grammar, an
  instance number and an ephemeral port fit into 64 bits, a handler port is named by an instance)
  is read back from its printed form, labels of instances included, by the parser of its kind and
  by the parser of all kinds.\<close>

theorem id_roundtrip:
  assumes "id_ok i"
  shows "parse_id (id_display i) = Inr i \<and>
    (case i of IdProc p \<Rightarrow> parse_proc_id (proc_id_display p) = Inr p
     | IdActor a \<Rightarrow> parse_actor_id (actor_id_display a) = Inr a
     | IdPort x \<Rightarrow> parse_port_id (port_id_display x) = Inr x)"
proof -
  have "parse_id (id_display i) = Inr i" unfolding parse_id_def
    by (rule parse_whole) (use parse_id_display [OF assms, where pre = "[]"] in simp)
  moreover have "parse_proc_id (proc_id_display p) = Inr p" if "i = IdProc p" for p unfolding parse_proc_id_def
    by (rule parse_whole) (use parse_proc_display [of p _ "[]"] assms that in \<open>simp add: id_ok_def\<close>)
  moreover have "parse_actor_id (actor_id_display a) = Inr a" if "i = IdActor a" for a unfolding parse_actor_id_def
    by (rule parse_whole) (use parse_actor_display [of a _ "[]"] assms that in \<open>simp add: id_ok_def\<close>)
  moreover have "parse_port_id (port_id_display x) = Inr x" if "i = IdPort x" for x unfolding parse_port_id_def
    by (rule parse_whole) (use parse_port_id_display [of x _ "[]"] assms that in \<open>simp add: id_ok_def\<close>)
  ultimately show ?thesis by (cases i) simp_all
qed

definition ex_port_id :: port_id where
  "ex_port_id = \<lparr>port_actor = \<lparr>actor_uid = Instance 57 (Some ''worker''), actor_proc = \<lparr>proc_uid = Singleton ''local''\<rparr>\<rparr>,
     port_port = Handler (Instance 58 None)\<rparr>"

lemma ex_port_id_ok: "id_ok (IdPort ex_port_id)"
  by (simp add: ex_port_id_def id_ok_def port_id_ok_def actor_id_ok_def proc_id_ok_def port_ok_def uid_ok_def instance_value_def usize_bound_def
      label_ok_def label_char_def is_ascii_lowercase_def)

lemma ex_port_id_display: "port_id_display ex_port_id = ''worker<Z>.local:<21>''"
  by code_simp

theorem id_roundtrip_witness: "parse_port_id ''worker<Z>.local:<21>'' = Inr ex_port_id"
  using id_roundtrip [OF ex_port_id_ok] ex_port_id_display by simp

text \<open>C21: Whatever string is parsed, an identity that comes out is well-formed and prints to a string that is
  read back as the same identity.\<close>

theorem parsed_id_ok:
  assumes "parse_id s = Inr i"
  shows "id_ok i \<and> parse_id (id_display i) = Inr i"
proof -
  obtain q where "parse_id_with_parser (parser_new s) = Inr (i, q)"
    using assms by (auto simp: parse_id_def finish_parse_def split: prod.splits if_splits)
  then have "id_ok i" by (rule parse_id_valid)
  moreover from this have "parse_id (id_display i) = Inr i" unfolding parse_id_def
    by (intro parse_whole) (use parse_id_display [where pre = "[]"] in simp)
  ultimately show ?thesis by blast
qed

theorem parsed_id_ok_witness: "parse_id ''worker<Z>.local:<21>'' = Inr (IdPort ex_port_id) \<and> id_ok (IdPort ex_port_id)"
proof -
  have "parse_id (id_display (IdPort ex_port_id)) = Inr (IdPort ex_port_id)" unfolding parse_id_def
    by (rule parse_whole) (use parse_id_display [OF ex_port_id_ok, where pre = "[]"] in simp)
  then have "parse_id ''worker<Z>.local:<21>'' = Inr (IdPort ex_port_id)" using ex_port_id_display by (simp add: id_display_def)
  with parsed_id_ok [OF this] show ?thesis by simp
qed

end
