(* ===== verification/Addr_Syntax.thy ===== *)
theory Addr_Syntax
  imports Id_Props
begin

text \<open>
  The written form of addresses: \<open>ChannelAddr::from_zmq_url\<close> and \<open>to_zmq_url\<close> of
  \<open>hyperactor/src/channel.rs\<close>, the locations with their via hops and the addresses of
  \<open>hyperactor/src/addr.rs\<close>, the parser of \<open>hyperactor/src/parse/addr.rs\<close> and the \<open>FromStr\<close>
  instances with the error values they compute when that parser fails.

  What a URL means depends on the system: \<open>net_env\<close> holds the conversions of IP addresses, the
  resolver, the sockets handed in by number and the random name of a new socket. An IPv6 address
  has no scope here.
\<close>

section \<open>Strings\<close>

fun split_once :: "string \<Rightarrow> string \<Rightarrow> (string \<times> string) option" where
  "split_once pat [] = (if pat = [] then Some ([], []) else None)"
| "split_once pat (c # cs) =
     (if take (length pat) (c # cs) = pat then Some ([], drop (length pat) (c # cs))
      else map_option (\<lambda>(a, b). (c # a, b)) (split_once pat cs))"

definition rsplit_once :: "char \<Rightarrow> string \<Rightarrow> (string \<times> string) option" where
  "rsplit_once c s = (case split_once [c] (rev s) of None \<Rightarrow> None | Some (a, b) \<Rightarrow> Some (rev b, rev a))"

definition starts_with :: "string \<Rightarrow> string \<Rightarrow> bool" where
  "starts_with pat s = (take (length pat) s = pat)"

definition is_ascii_alphabetic :: "char \<Rightarrow> bool" where
  "is_ascii_alphabetic c = (is_ascii_lowercase c \<or> is_ascii_uppercase c)"

section \<open>Channel addresses\<close>

datatype unix_addr = Pathname string | AbstractName string | Unnamed | Unbound

datatype 'ip channel_addr =
    Tcp 'ip nat
  | MetaTls string nat
  | Tls string nat
  | Quic string nat
  | MetaQuic string nat
  | Local nat
  | Unix unix_addr
  | Alias "'ip channel_addr" "'ip channel_addr"

record 'ip net_env =
  ne_ip_parse :: "string \<Rightarrow> 'ip option"
  ne_ip_display :: "'ip \<Rightarrow> string"
  ne_is_ipv6 :: "'ip \<Rightarrow> bool"
  ne_unspecified :: 'ip
  ne_resolve :: "string \<Rightarrow> nat \<Rightarrow> ('ip \<times> nat) option"
  ne_fd_port :: "string \<Rightarrow> nat option"
  ne_random_name :: string
  ne_socket_ok :: "string \<Rightarrow> bool"

text \<open>\<open>Display\<close> of \<open>std::net::SocketAddr\<close> and of the Unix addresses.\<close>

definition socket_addr_display :: "'ip net_env \<Rightarrow> 'ip \<Rightarrow> nat \<Rightarrow> string" where
  "socket_addr_display env ip port =
     (if ne_is_ipv6 env ip then ''['' @ ne_ip_display env ip @ '']:'' @ u64_display port
      else ne_ip_display env ip @ '':'' @ u64_display port)"

definition unix_display :: "unix_addr \<Rightarrow> string" where
  "unix_display a = (case a of
     Pathname path \<Rightarrow> path
   | AbstractName name \<Rightarrow> if starts_with ''@'' name then name else ''@'' @ name
   | Unnamed \<Rightarrow> ''(unnamed)''
   | Unbound \<Rightarrow> ''(unbound)'')"

fun to_zmq_url :: "'ip net_env \<Rightarrow> 'ip channel_addr \<Rightarrow> string" where
  "to_zmq_url env (Tcp ip port) = ''tcp://'' @ socket_addr_display env ip port"
| "to_zmq_url env (MetaTls h port) = ''metatls://'' @ h @ '':'' @ u64_display port"
| "to_zmq_url env (Tls h port) = ''tls://'' @ h @ '':'' @ u64_display port"
| "to_zmq_url env (Quic h port) = ''quic://'' @ h @ '':'' @ u64_display port"
| "to_zmq_url env (MetaQuic h port) = ''metaquic://'' @ h @ '':'' @ u64_display port"
| "to_zmq_url env (Local index) = ''inproc://'' @ u64_display index"
| "to_zmq_url env (Unix a) = ''ipc://'' @ unix_display a"
| "to_zmq_url env (Alias dial_to bind_to) = to_zmq_url env dial_to @ ''@'' @ to_zmq_url env bind_to"

definition strip_brackets :: "string \<Rightarrow> string" where
  "strip_brackets host = (if host \<noteq> [] \<and> hd host = CHR ''['' \<and> last host = CHR '']'' then butlast (tl host) else host)"

definition normalize_host :: "'ip net_env \<Rightarrow> string \<Rightarrow> string" where
  "normalize_host env host = (case ne_ip_parse env (strip_brackets host) of Some ip \<Rightarrow> ne_ip_display env ip | None \<Rightarrow> host)"

definition resolve_hostname_to_socket_addr :: "'ip net_env \<Rightarrow> string \<Rightarrow> nat \<Rightarrow> (location_error, 'ip \<times> nat) result" where
  "resolve_hostname_to_socket_addr env host port =
     (let host_clean = strip_brackets host
      in case ne_ip_parse env host_clean of
           Some ip \<Rightarrow> Inr (ip, port)
         | None \<Rightarrow> ok_or (ResolutionFailed host_clean) (ne_resolve env host_clean port))"

definition u16_from_str :: "string \<Rightarrow> nat option" where
  "u16_from_str s = (case u64_from_str s of None \<Rightarrow> None | Some n \<Rightarrow> if n < 2 ^ 16 then Some n else None)"

definition parse_host_port_or_fd :: "'ip net_env \<Rightarrow> string \<Rightarrow> (location_error, string \<times> nat) result" where
  "parse_host_port_or_fd env address =
     (case rsplit_once (CHR '':'') address of
        None \<Rightarrow> Inl (InvalidAddressFormat address)
      | Some (host, port_str) \<Rightarrow>
          if starts_with ''fd'' port_str
          then bind_result (ok_or (InvalidFd port_str) (ne_fd_port env (drop 2 port_str))) (\<lambda>port. Inr (host, port))
          else bind_result (ok_or (InvalidUrlPort port_str) (u16_from_str port_str)) (\<lambda>port. Inr (host, port)))"

definition from_abstract_name :: "'ip net_env \<Rightarrow> string \<Rightarrow> (location_error, unix_addr) result" where
  "from_abstract_name env name =
     (let n = (if starts_with ''@'' name then tl name else name)
      in if ne_socket_ok env n then Inr (AbstractName n) else Inl (InvalidSocketAddr name))"

definition unix_from_str :: "'ip net_env \<Rightarrow> string \<Rightarrow> (location_error, unix_addr) result" where
  "unix_from_str env s =
     (if s = [] then from_abstract_name env (ne_random_name env)
      else if starts_with ''@'' s then from_abstract_name env (tl s)
      else if ne_socket_ok env s then Inr (Pathname s) else Inl (InvalidSocketAddr s))"

text \<open>The URL without an alias.\<close>

definition parse_scheme :: "'ip net_env \<Rightarrow> string \<Rightarrow> (location_error, 'ip channel_addr) result" where
  "parse_scheme env url =
     (case split_once ''://'' url of
        None \<Rightarrow> Inl (NotUrlForm url)
      | Some (scheme, address) \<Rightarrow>
          if scheme = ''tcp''
          then bind_result (parse_host_port_or_fd env address) (\<lambda>(host, port).
               bind_result (if host = ''*'' then Inr (ne_unspecified env, port) else resolve_hostname_to_socket_addr env host port) (\<lambda>(ip, p).
               Inr (Tcp ip p)))
          else if scheme = ''inproc''
          then bind_result (ok_or (InvalidEndpoint address) (u64_from_str address)) (\<lambda>port. Inr (Local port))
          else if scheme = ''ipc''
          then bind_result (unix_from_str env address) (\<lambda>a. Inr (Unix a))
          else if scheme \<in> {''metatls'', ''tls'', ''quic'', ''metaquic''}
          then bind_result (parse_host_port_or_fd env address) (\<lambda>(host, port).
               let h = normalize_host env (if host = ''*'' then ne_ip_display env (ne_unspecified env) else host)
               in Inr (if scheme = ''metatls'' then MetaTls h port else if scheme = ''metaquic'' then MetaQuic h port
                       else if scheme = ''quic'' then Quic h port else Tls h port))
          else Inl (UnsupportedScheme scheme))"

lemma split_once_eq: "split_once pat s = Some (a, b) \<Longrightarrow> s = a @ pat @ b"
proof (induction pat s arbitrary: a b rule: split_once.induct)
  case (2 pat c cs)
  show ?case
  proof (cases "take (length pat) (c # cs) = pat")
    case True
    then have "a = []" "b = drop (length pat) (c # cs)" using "2.prems" by auto
    then show ?thesis using True by (metis append_Nil append_take_drop_id)
  next
    case False
    then show ?thesis using 2 by auto
  qed
qed (auto split: if_splits)

function from_zmq_url :: "'ip net_env \<Rightarrow> string \<Rightarrow> (location_error, 'ip channel_addr) result" where
  "from_zmq_url env address =
     (case split_once ''@'' address of
        Some (dial_to_str, bind_to_str) \<Rightarrow>
          if starts_with ''tcp://'' dial_to_str
          then (if \<not> starts_with ''tcp://'' bind_to_str then Inl (AliasNotTcp bind_to_str)
                else case from_zmq_url env dial_to_str of
                  Inl e \<Rightarrow> Inl e
                | Inr dial_to \<Rightarrow>
                    (case from_zmq_url env bind_to_str of Inl e \<Rightarrow> Inl e | Inr bind_to \<Rightarrow> Inr (Alias dial_to bind_to)))
          else parse_scheme env address
      | None \<Rightarrow> parse_scheme env address)"
  by pat_completeness auto
termination
  by (relation "measure (\<lambda>(_, s). length s)") (auto dest!: split_once_eq)

declare from_zmq_url.simps [simp del]

section \<open>Locations\<close>

datatype 'ip addr_location = Addr "'ip channel_addr" | Via uid "'ip addr_location"

fun location_addr :: "'ip addr_location \<Rightarrow> 'ip channel_addr" where
  "location_addr (Addr a) = a"
| "location_addr (Via _ inner) = location_addr inner"

definition with_via :: "'ip addr_location \<Rightarrow> uid \<Rightarrow> 'ip addr_location" where
  "with_via l u = Via u l"

fun append_via :: "'ip addr_location \<Rightarrow> uid \<Rightarrow> 'ip addr_location" where
  "append_via (Addr a) u = with_via (Addr a) u"
| "append_via (Via outer inner) u = Via outer (append_via inner u)"

definition pop_via :: "'ip addr_location \<Rightarrow> ('ip addr_location, uid \<times> 'ip addr_location) result" where
  "pop_via l = (case l of Via u inner \<Rightarrow> Inr (u, inner) | Addr a \<Rightarrow> Inl (Addr a))"

fun location_display :: "'ip net_env \<Rightarrow> 'ip addr_location \<Rightarrow> string" where
  "location_display env (Addr a) = to_zmq_url env a"
| "location_display env (Via u inner) = uid_display u @ ''.'' @ location_display env inner"

definition missing_location :: "token \<Rightarrow> parse_error" where
  "missing_location t = \<lparr>pe_span = tk_span t, pe_kind = Expected ''location'' FoundEnd\<rparr>"

definition invalid_location :: "text_span \<Rightarrow> location_error \<Rightarrow> parse_error" where
  "invalid_location s e = \<lparr>pe_span = s, pe_kind = InvalidLocation e\<rparr>"

definition find_url_scheme_start :: "string \<Rightarrow> nat option" where
  "find_url_scheme_start s =
     (case split_once ''://'' s of
        None \<Rightarrow> None
      | Some (before, _) \<Rightarrow> Some (length before - length (takeWhile is_ascii_alphabetic (rev before))))"

text \<open>The loop over the via hops ends: every component uses up a token.\<close>

definition to_read :: "parser \<Rightarrow> nat" where
  "to_read p = (Suc (length (ps_input p)) - ps_offset p) + (if peek p = Eof then 0 else 1)"

lemma bump_to_read:
  assumes "peek p \<noteq> Eof"
  shows "to_read (snd (bump p)) < to_read p" "ps_input (snd (bump p)) = ps_input p"
proof -
  have "ps_offset p < offset \<and> offset \<le> length (ps_input p)" if "lexer_next (ps_input p) (ps_offset p) = Some (t, offset)" for t offset
  proof -
    have "drop (ps_offset p) (ps_input p) \<noteq> []"
    proof
      assume d: "drop (ps_offset p) (ps_input p) = []"
      show False using that unfolding lexer_next_def d by simp
    qed
    then obtain first rest where d: "drop (ps_offset p) (ps_input p) = first # rest" by (meson neq_Nil_conv)
    then have "length (ps_input p) - ps_offset p = Suc (length rest)" by (metis length_Cons length_drop)
    moreover have "offset = ps_offset p + 1 \<or> offset = ps_offset p + length (takeWhile (\<lambda>c. delimiter c = None) (first # rest)) \<and> delimiter first = None"
      using that d by (auto simp: lexer_next_def Let_def split: option.splits)
    moreover have "length (takeWhile (\<lambda>c. delimiter c = None) (first # rest)) \<le> Suc (length rest)" using length_takeWhile_le by fastforce
    ultimately show ?thesis by auto
  qed
  then show "to_read (snd (bump p)) < to_read p"
    using assms by (fastforce simp: to_read_def bump_def next_or_eof_def peek_def token_eof_def split: option.splits prod.splits)
  show "ps_input (snd (bump p)) = ps_input p" by (simp add: bump_def split: prod.splits)
qed

lemma expect_to_read:
  "expect_kind k p = Inr (t, q) \<Longrightarrow> k \<noteq> Eof \<Longrightarrow> to_read q < to_read p"
  "expect_text e p = Inr (t, q) \<Longrightarrow> to_read q < to_read p"
  using bump_to_read [of p] by (auto simp: expect_kind_def expect_text_def split: if_splits)

lemma parse_uid_to_read: "parse_uid p = Inr (u, q) \<Longrightarrow> to_read q < to_read p"
  using bump_to_read [of p] bump_to_read [of "snd (bump p)"]
  by (fastforce simp: parse_uid_def parse_id_component_def parse_id_component_from_first_text_def
      dest: expect_to_read split: token_kind.splits prod.splits if_splits)

function parse_vias :: "parser \<Rightarrow> uid list parsed" where
  "parse_vias p =
     (if peek p = Eof then Inr ([], p)
      else case parse_uid p of
        Inl e \<Rightarrow> Inl e
      | Inr (u, p1) \<Rightarrow>
          (case expect_kind Dot p1 of
             Inl e \<Rightarrow> Inl e
           | Inr (_, p2) \<Rightarrow> (case parse_vias p2 of Inl e \<Rightarrow> Inl e | Inr (us, p3) \<Rightarrow> Inr (u # us, p3))))"
  by pat_completeness auto
termination
  by (relation "measure to_read") (use parse_uid_to_read expect_to_read(1) in \<open>fastforce+\<close>)

declare parse_vias.simps [simp del]

definition parse_location_body :: "'ip net_env \<Rightarrow> parser \<Rightarrow> token \<Rightarrow> (parse_error, 'ip addr_location) result" where
  "parse_location_body env p anchor =
     (let rest = parser_rest p; rest_start = span_start (rest_span p)
      in if rest = [] then Inl (missing_location anchor)
         else case find_url_scheme_start rest of
           None \<Rightarrow> Inl (invalid_location (rest_span p) NoScheme)
         | Some url_offset \<Rightarrow>
             (case from_zmq_url env (drop url_offset rest) of
                Inl e \<Rightarrow> Inl (invalid_location \<lparr>span_start = rest_start + url_offset, span_end = rest_start + length rest\<rparr> e)
              | Inr addr \<Rightarrow>
                  bind_result (parse_vias (parser_truncate (rest_start + url_offset) p)) (\<lambda>(uids, _). Inr (foldr Via uids (Addr addr)))))"

definition parse_location :: "'ip net_env \<Rightarrow> parser \<Rightarrow> (parse_error, 'ip addr_location) result" where
  "parse_location env p = bind_result (expect_kind At p) (\<lambda>(at, p). parse_location_body env p at)"

definition parse_location_str :: "'ip net_env \<Rightarrow> string \<Rightarrow> (parse_error, 'ip addr_location) result" where
  "parse_location_str env input = parse_location_body env (parser_new input) (token_eof 0)"

section \<open>Addresses\<close>

record 'l proc_addr =
  proc_addr_id :: proc_id
  proc_addr_location :: 'l

datatype 'l address = AddrProc "'l proc_addr" | AddrActor "'l actor_addr" | AddrPort "'l port_addr"

definition id_addr :: "ident \<Rightarrow> 'l \<Rightarrow> 'l address" where
  "id_addr i l = (case i of
     IdProc p \<Rightarrow> AddrProc \<lparr>proc_addr_id = p, proc_addr_location = l\<rparr>
   | IdActor a \<Rightarrow> AddrActor \<lparr>actor_addr_id = a, actor_addr_location = l\<rparr>
   | IdPort x \<Rightarrow> AddrPort \<lparr>port_addr_id = x, port_addr_location = l\<rparr>)"

definition parse_proc_addr :: "'ip net_env \<Rightarrow> string \<Rightarrow> (parse_error, 'ip addr_location proc_addr) result" where
  "parse_proc_addr env input =
     bind_result (parse_proc_id_with_parser (parser_new input)) (\<lambda>(i, p).
     bind_result (parse_location env p) (\<lambda>l. Inr \<lparr>proc_addr_id = i, proc_addr_location = l\<rparr>))"

definition parse_actor_addr :: "'ip net_env \<Rightarrow> string \<Rightarrow> (parse_error, 'ip addr_location actor_addr) result" where
  "parse_actor_addr env input =
     bind_result (parse_actor_id_with_parser (parser_new input)) (\<lambda>(i, p).
     bind_result (parse_location env p) (\<lambda>l. Inr \<lparr>actor_addr_id = i, actor_addr_location = l\<rparr>))"

definition parse_port_addr :: "'ip net_env \<Rightarrow> string \<Rightarrow> (parse_error, 'ip addr_location port_addr) result" where
  "parse_port_addr env input =
     bind_result (parse_port_id_with_parser (parser_new input)) (\<lambda>(i, p).
     bind_result (parse_location env p) (\<lambda>l. Inr \<lparr>port_addr_id = i, port_addr_location = l\<rparr>))"

definition parse_addr :: "'ip net_env \<Rightarrow> string \<Rightarrow> (parse_error, 'ip addr_location address) result" where
  "parse_addr env input =
     bind_result (parse_id_with_parser (parser_new input)) (\<lambda>(i, p).
     bind_result (parse_location env p) (\<lambda>l. Inr (id_addr i l)))"

definition proc_addr_display :: "'ip net_env \<Rightarrow> 'ip addr_location proc_addr \<Rightarrow> string" where
  "proc_addr_display env a = proc_id_display (proc_addr_id a) @ ''@'' @ location_display env (proc_addr_location a)"

definition actor_addr_display :: "'ip net_env \<Rightarrow> 'ip addr_location actor_addr \<Rightarrow> string" where
  "actor_addr_display env a = actor_id_display (actor_addr_id a) @ ''@'' @ location_display env (actor_addr_location a)"

definition port_addr_display :: "'ip net_env \<Rightarrow> 'ip addr_location port_addr \<Rightarrow> string" where
  "port_addr_display env a = port_id_display (port_addr_id a) @ ''@'' @ location_display env (port_addr_location a)"

definition addr_display :: "'ip net_env \<Rightarrow> 'ip addr_location address \<Rightarrow> string" where
  "addr_display env a = (case a of
     AddrProc p \<Rightarrow> proc_addr_display env p | AddrActor x \<Rightarrow> actor_addr_display env x | AddrPort x \<Rightarrow> port_addr_display env x)"

section \<open>\<open>FromStr\<close> and its errors\<close>

datatype uid_parse_error = InvalidSyntax parse_error | UidInvalidLabel label_error | InvalidBase58 string

datatype id_parse_error =
    InvalidProcId uid_parse_error
  | InvalidActorIdFormat
  | InvalidActorUid uid_parse_error
  | InvalidActorProcUid uid_parse_error
  | InvalidPortIdFormat
  | IdInvalidPort string

definition legacy_parse_id_component :: "string \<Rightarrow> (uid_parse_error, uid) result" where
  "legacy_parse_id_component s =
     (let number = (\<lambda>t. ok_or (InvalidBase58 t) (decode_base58_uid t));
          checked = (\<lambda>t. case label_new t of Inl e \<Rightarrow> Inl (UidInvalidLabel e) | Inr l \<Rightarrow> Inr l)
      in if 2 \<le> length s \<and> hd s = CHR ''<'' \<and> last s = CHR ''>''
         then bind_result (number (butlast (tl s))) (\<lambda>n. Inr (Instance n None))
         else case split_once ''<'' s of
           Some (before, behind) \<Rightarrow>
             if last s = CHR ''>''
             then bind_result (checked before) (\<lambda>l. bind_result (number (butlast behind)) (\<lambda>n. Inr (Instance n (Some l))))
             else bind_result (checked s) (\<lambda>l. Inr (Singleton l))
         | None \<Rightarrow> bind_result (checked s) (\<lambda>l. Inr (Singleton l)))"

definition legacy_parse_actor_id :: "string \<Rightarrow> id_parse_error" where
  "legacy_parse_actor_id s =
     (case split_once ''.'' s of
        None \<Rightarrow> InvalidActorIdFormat
      | Some (actor_part, proc_part) \<Rightarrow>
          (case legacy_parse_id_component actor_part of
             Inl e \<Rightarrow> InvalidActorUid e
           | Inr _ \<Rightarrow> (case legacy_parse_id_component proc_part of Inl e \<Rightarrow> InvalidActorProcUid e | Inr _ \<Rightarrow> InvalidActorIdFormat)))"

definition legacy_port_parse_error :: "string \<Rightarrow> id_parse_error" where
  "legacy_port_parse_error s =
     (case split_once '':'' s of
        None \<Rightarrow> InvalidPortIdFormat
      | Some (actor_part, port_part) \<Rightarrow> if is_ok (parse_actor_id actor_part) then IdInvalidPort port_part else InvalidPortIdFormat)"

definition proc_id_from_str :: "string \<Rightarrow> (id_parse_error, proc_id) result" where
  "proc_id_from_str s = (case parse_proc_id s of Inl e \<Rightarrow> Inl (InvalidProcId (InvalidSyntax e)) | Inr i \<Rightarrow> Inr i)"

definition actor_id_from_str :: "string \<Rightarrow> (id_parse_error, actor_id) result" where
  "actor_id_from_str s = (case parse_actor_id s of Inl _ \<Rightarrow> Inl (legacy_parse_actor_id s) | Inr i \<Rightarrow> Inr i)"

definition port_id_from_str :: "string \<Rightarrow> (id_parse_error, port_id) result" where
  "port_id_from_str s = (case parse_port_id s of Inl _ \<Rightarrow> Inl (legacy_port_parse_error s) | Inr i \<Rightarrow> Inr i)"

text \<open>The error of an address is computed by parsing its parts again. \<open>unwrap_err\<close> panics on a
  success: \<open>None\<close>. The system may answer differently the second time.\<close>

datatype addr_parse_error = MissingSeparator | InvalidId id_parse_error | AddrInvalidLocation parse_error

definition location_err :: "'ip net_env \<Rightarrow> string \<Rightarrow> addr_parse_error option" where
  "location_err env location_text =
     (case parse_location_str env (if location_text = [] then ''@'' else location_text) of
        Inl e \<Rightarrow> Some (AddrInvalidLocation e)
      | Inr _ \<Rightarrow> None)"

definition legacy_parse_ref :: "'ip net_env \<Rightarrow> (string \<Rightarrow> (id_parse_error, 'i) result) \<Rightarrow> string \<Rightarrow> addr_parse_error option" where
  "legacy_parse_ref env from_str s =
     (case split_once ''@'' s of
        None \<Rightarrow> Some MissingSeparator
      | Some (id_text, location_text) \<Rightarrow>
          (case from_str id_text of Inl e \<Rightarrow> Some (InvalidId e) | Inr _ \<Rightarrow> location_err env location_text))"

definition legacy_parse_reference :: "'ip net_env \<Rightarrow> string \<Rightarrow> addr_parse_error option" where
  "legacy_parse_reference env s =
     (case split_once ''@'' s of
        None \<Rightarrow> Some MissingSeparator
      | Some (id_text, location_text) \<Rightarrow>
          (case (port_id_from_str id_text, actor_id_from_str id_text, proc_id_from_str id_text) of
             (Inl port_err, Inl actor_err, Inl proc_err) \<Rightarrow>
               Some (InvalidId (if CHR '':'' \<in> set id_text then port_err else if CHR ''.'' \<in> set id_text then actor_err else proc_err))
           | _ \<Rightarrow> location_err env location_text))"

datatype 'a from_str = Parsed 'a | Refused addr_parse_error | Panicked

definition or_error :: "(parse_error, 'a) result \<Rightarrow> addr_parse_error option \<Rightarrow> 'a from_str" where
  "or_error r e = (case r of Inr x \<Rightarrow> Parsed x | Inl _ \<Rightarrow> (case e of Some err \<Rightarrow> Refused err | None \<Rightarrow> Panicked))"

definition proc_addr_from_str :: "'ip net_env \<Rightarrow> 'ip net_env \<Rightarrow> string \<Rightarrow> 'ip addr_location proc_addr from_str" where
  "proc_addr_from_str env env2 s = or_error (parse_proc_addr env s) (legacy_parse_ref env2 proc_id_from_str s)"

definition actor_addr_from_str :: "'ip net_env \<Rightarrow> 'ip net_env \<Rightarrow> string \<Rightarrow> 'ip addr_location actor_addr from_str" where
  "actor_addr_from_str env env2 s = or_error (parse_actor_addr env s) (legacy_parse_ref env2 actor_id_from_str s)"

definition port_addr_from_str :: "'ip net_env \<Rightarrow> 'ip net_env \<Rightarrow> string \<Rightarrow> 'ip addr_location port_addr from_str" where
  "port_addr_from_str env env2 s = or_error (parse_port_addr env s) (legacy_parse_ref env2 port_id_from_str s)"

definition addr_from_str :: "'ip net_env \<Rightarrow> 'ip net_env \<Rightarrow> string \<Rightarrow> 'ip addr_location address from_str" where
  "addr_from_str env env2 s = or_error (parse_addr env s) (legacy_parse_reference env2 s)"

end
