(* ===== verification/Addr_Text.thy ===== *)
theory Addr_Text
  imports Addr_Syntax
begin

text \<open>
  Printing and parsing of addresses: the URLs of channel addresses, locations with any number of
  via hops, the round trip of every address, and that computing the error of a string that is
  not an address does not panic as long as the system answers the same way twice.
\<close>

section \<open>URLs\<close>

text \<open>What is assumed of the conversions of IP addresses.\<close>

definition net_env_ok :: "'ip net_env \<Rightarrow> bool" where
  "net_env_ok env \<longleftrightarrow> (\<forall>ip. ne_ip_parse env (ne_ip_display env ip) = Some ip \<and> ne_ip_display env ip \<noteq> [] \<and>
     set (ne_ip_display env ip) \<subseteq> set ''0123456789abcdef.:'')"

fun channel_addr_ok :: "'ip net_env \<Rightarrow> 'ip channel_addr \<Rightarrow> bool" where
  "channel_addr_ok env (Tcp ip port) = (port < 2 ^ 16)"
| "channel_addr_ok env (MetaTls h port) = (port < 2 ^ 16 \<and> normalize_host env h = h \<and> h \<noteq> ''*'')"
| "channel_addr_ok env (Tls h port) = (port < 2 ^ 16 \<and> normalize_host env h = h \<and> h \<noteq> ''*'')"
| "channel_addr_ok env (Quic h port) = (port < 2 ^ 16 \<and> normalize_host env h = h \<and> h \<noteq> ''*'')"
| "channel_addr_ok env (MetaQuic h port) = (port < 2 ^ 16 \<and> normalize_host env h = h \<and> h \<noteq> ''*'')"
| "channel_addr_ok env (Local index) = (index < usize_bound)"
| "channel_addr_ok env (Unix a) = (case a of
     Pathname path \<Rightarrow> path \<noteq> [] \<and> \<not> starts_with ''@'' path \<and> ne_socket_ok env path
   | AbstractName name \<Rightarrow> \<not> starts_with ''@'' name \<and> ne_socket_ok env name
   | _ \<Rightarrow> False)"
| "channel_addr_ok env (Alias dial_to bind_to) = (channel_addr_ok env dial_to \<and> channel_addr_ok env bind_to \<and>
     (case dial_to of Tcp _ _ \<Rightarrow> True | _ \<Rightarrow> False) \<and> (case bind_to of Tcp _ _ \<Rightarrow> True | Alias _ _ \<Rightarrow> True | _ \<Rightarrow> False))"

lemma split_once_char: "c \<notin> set a \<Longrightarrow> split_once [c] (a @ c # b) = Some (a, b)"
  by (induction a) auto

lemma split_once_char_None: "split_once [c] s = None \<longleftrightarrow> c \<notin> set s"
  by (induction s) auto

lemma rsplit_once_char: "c \<notin> set b \<Longrightarrow> rsplit_once c (a @ c # b) = Some (a, b)"
  using split_once_char [of c "rev b" "rev a"] by (simp add: rsplit_once_def)

lemma split_once_scheme: "CHR '':'' \<notin> set a \<Longrightarrow> split_once ''://'' (a @ ''://'' @ b) = Some (a, b)"
  by (induction a) auto

lemma colon_not_digit: "CHR '':'' \<notin> set (u64_display n)" "CHR ''@'' \<notin> set (u64_display n)"
  using u64_chars by (auto simp: is_ascii_digit_def decimal_alphabet_def)

lemma u16_roundtrip: "port < 2 ^ 16 \<Longrightarrow> u16_from_str (u64_display port) = Some port"
  using u64_roundtrip [of port] by (simp add: u16_from_str_def usize_bound_def)

lemma parse_host_port:
  assumes "port < 2 ^ 16"
  shows "parse_host_port_or_fd env (h @ CHR '':'' # u64_display port) = Inr (h, port)"
proof -
  have "\<not> starts_with ''fd'' (u64_display port)"
    using u64_chars [of "hd (u64_display port)" port] u64_nonempty [of port]
    by (cases "u64_display port") (auto simp: starts_with_def is_ascii_digit_def decimal_alphabet_def)
  then show ?thesis using u16_roundtrip [OF assms] rsplit_once_char [OF colon_not_digit(1)]
    by (simp add: parse_host_port_or_fd_def ok_or_def del: bind_result_eq_Inr)
qed

lemma ip_chars: "net_env_ok env \<Longrightarrow> c \<in> set (ne_ip_display env ip) \<Longrightarrow> c \<notin> set ''[]@*''"
  by (auto simp: net_env_ok_def)

lemma resolve_display:
  assumes "net_env_ok env"
  shows "resolve_hostname_to_socket_addr env (ne_ip_display env ip) port = Inr (ip, port)"
    "resolve_hostname_to_socket_addr env (CHR ''['' # ne_ip_display env ip @ '']'') port = Inr (ip, port)"
    "ne_ip_display env ip \<noteq> ''*''"
proof -
  have ne: "ne_ip_display env ip \<noteq> []" and p: "ne_ip_parse env (ne_ip_display env ip) = Some ip" using assms by (auto simp: net_env_ok_def)
  have "hd (ne_ip_display env ip) \<noteq> CHR ''[''" using ip_chars [OF assms, of "hd (ne_ip_display env ip)" ip] ne by auto
  then show "resolve_hostname_to_socket_addr env (ne_ip_display env ip) port = Inr (ip, port)"
    using p by (simp add: resolve_hostname_to_socket_addr_def strip_brackets_def)
  show "resolve_hostname_to_socket_addr env (CHR ''['' # ne_ip_display env ip @ '']'') port = Inr (ip, port)"
    using p by (simp add: resolve_hostname_to_socket_addr_def strip_brackets_def butlast_append)
  show "ne_ip_display env ip \<noteq> ''*''" using ip_chars [OF assms, of "CHR ''*''" ip] by auto
qed

lemma parse_scheme_tcp:
  assumes "net_env_ok env" "port < 2 ^ 16"
  shows "parse_scheme env (''tcp://'' @ socket_addr_display env ip port) = Inr (Tcp ip port)"
proof -
  have s: "split_once ''://'' (''tcp://'' @ t) = Some (''tcp'', t)" for t using split_once_scheme [of "''tcp''" t] by simp
  show ?thesis
    unfolding parse_scheme_def s
    using parse_host_port [OF assms(2), of env "ne_ip_display env ip"] parse_host_port [OF assms(2), of env "CHR ''['' # ne_ip_display env ip @ '']''"]
      resolve_display(1,2) [OF assms(1), of ip port] resolve_display(3) [OF assms(1), of ip]
    by (simp add: socket_addr_display_def del: bind_result_eq_Inr)
qed

lemma parse_scheme_ok:
  assumes "net_env_ok env" "channel_addr_ok env a" "\<And>d b. a \<noteq> Alias d b"
  shows "parse_scheme env (to_zmq_url env a) = Inr a"
proof -
  have s: "split_once ''://'' (''metatls://'' @ t) = Some (''metatls'', t)" "split_once ''://'' (''tls://'' @ t) = Some (''tls'', t)"
    "split_once ''://'' (''quic://'' @ t) = Some (''quic'', t)" "split_once ''://'' (''metaquic://'' @ t) = Some (''metaquic'', t)"
    "split_once ''://'' (''inproc://'' @ t) = Some (''inproc'', t)" "split_once ''://'' (''ipc://'' @ t) = Some (''ipc'', t)" for t by simp_all
  show ?thesis
  proof (cases a)
    case (Tcp ip port)
    then show ?thesis using assms parse_scheme_tcp by simp
  next
    case (Unix u)
    then show ?thesis using assms(2) unfolding parse_scheme_def
      by (cases u) (auto simp: unix_display_def unix_from_str_def from_abstract_name_def starts_with_def simp del: bind_result_eq_Inr)
  qed (use assms u64_roundtrip in \<open>auto simp: parse_scheme_def s parse_host_port ok_or_def Let_def simp del: bind_result_eq_Inr\<close>)
qed

lemma tcp_no_at: "net_env_ok env \<Longrightarrow> CHR ''@'' \<notin> set (to_zmq_url env (Tcp ip port))"
  using ip_chars [of env "CHR ''@''" ip] colon_not_digit(2) [of port] by (auto simp: socket_addr_display_def)

lemma tcp_prefix: "(case a of Tcp _ _ \<Rightarrow> True | Alias _ _ \<Rightarrow> True | _ \<Rightarrow> False) \<Longrightarrow> channel_addr_ok env a \<Longrightarrow> starts_with ''tcp://'' (to_zmq_url env a)"
  by (induction a) (auto simp: starts_with_def split: channel_addr.splits)

lemma not_alias:
  assumes "\<not> starts_with ''tcp://'' url"
  shows "from_zmq_url env url = parse_scheme env url"
proof (cases "split_once ''@'' url")
  case (Some xy)
  then obtain x y where xy: "split_once ''@'' url = Some (x, y)" by (cases xy) simp
  then have "url = x @ ''@'' @ y" by (rule split_once_eq)
  then have "\<not> starts_with ''tcp://'' x" using assms by (auto simp: starts_with_def)
  then show ?thesis using xy by (subst from_zmq_url.simps) simp
qed (subst from_zmq_url.simps, simp)

lemma other_roundtrip:
  assumes "net_env_ok env" "channel_addr_ok env a" "\<And>d b. a \<noteq> Alias d b" "\<And>ip port. a \<noteq> Tcp ip port"
  shows "from_zmq_url env (to_zmq_url env a) = Inr a"
proof -
  have "\<not> starts_with ''tcp://'' (to_zmq_url env a)" using assms(3,4) by (cases a) (auto simp: starts_with_def)
  then show ?thesis using not_alias parse_scheme_ok [OF assms(1-3)] by metis
qed

lemma zmq_roundtrip:
  assumes "net_env_ok env" "channel_addr_ok env a"
  shows "from_zmq_url env (to_zmq_url env a) = Inr a"
  using assms(2)
proof (induction a)
  case (Alias d b)
  obtain ip port where d: "d = Tcp ip port" using Alias.prems by (auto split: channel_addr.splits)
  have "split_once ''@'' (to_zmq_url env d @ ''@'' @ to_zmq_url env b) = Some (to_zmq_url env d, to_zmq_url env b)"
    using split_once_char [OF tcp_no_at [OF assms(1)]] d by simp
  then show ?case using Alias tcp_prefix [of d env] tcp_prefix [of b env]
    by (subst from_zmq_url.simps) (auto simp: d split: channel_addr.splits)
next
  case (Tcp ip port)
  then show ?case using assms(1) tcp_no_at [OF assms(1), of ip port] parse_scheme_tcp [OF assms(1)]
    by (subst from_zmq_url.simps) (simp add: split_once_char_None [THEN iffD2])
qed (rule other_roundtrip [OF assms(1)]; simp)+

section \<open>Locations\<close>

definition vias :: "uid list \<Rightarrow> string" where
  "vias us = concat (map (\<lambda>u. uid_display u @ ''.'') us)"

fun location_ok :: "'ip net_env \<Rightarrow> 'ip addr_location \<Rightarrow> bool" where
  "location_ok env (Addr a) = channel_addr_ok env a"
| "location_ok env (Via u l) = (uid_ok u \<and> location_ok env l)"

lemma location_form:
  assumes "location_ok env l"
  obtains us a where "l = foldr Via us (Addr a)" "list_all uid_ok us" "channel_addr_ok env a"
    "location_display env l = vias us @ to_zmq_url env a"
proof -
  have "\<exists>us a. l = foldr Via us (Addr a) \<and> list_all uid_ok us \<and> channel_addr_ok env a \<and> location_display env l = vias us @ to_zmq_url env a"
    using assms
  proof (induction l)
    case (Addr a)
    then show ?case by (intro exI [of _ "[]"] exI [of _ a]) (simp add: vias_def)
  next
    case (Via u l)
    then obtain us a where "l = foldr Via us (Addr a)" "list_all uid_ok us" "channel_addr_ok env a"
      "location_display env l = vias us @ to_zmq_url env a" by auto
    then show ?case using Via.prems by (intro exI [of _ "u # us"] exI [of _ a]) (simp add: vias_def)
  qed
  then show thesis using that by blast
qed

text \<open>The scheme of a URL.\<close>

fun scheme_of :: "'ip channel_addr \<Rightarrow> string" where
  "scheme_of (Tcp _ _) = ''tcp''"
| "scheme_of (MetaTls _ _) = ''metatls''"
| "scheme_of (Tls _ _) = ''tls''"
| "scheme_of (Quic _ _) = ''quic''"
| "scheme_of (MetaQuic _ _) = ''metaquic''"
| "scheme_of (Local _) = ''inproc''"
| "scheme_of (Unix _) = ''ipc''"
| "scheme_of (Alias dial_to _) = scheme_of dial_to"

lemma url_scheme: "\<exists>tail. to_zmq_url env a = scheme_of a @ ''://'' @ tail"
  by (induction a) auto

lemma scheme_chars: "list_all is_ascii_alphabetic (scheme_of a) \<and> CHR '':'' \<notin> set (scheme_of a)"
  by (induction a) (auto simp: is_ascii_alphabetic_def is_ascii_lowercase_def)

lemma uid_no_colon:
  assumes "uid_ok u"
  shows "CHR '':'' \<notin> set (uid_display u)"
proof -
  have l: "CHR '':'' \<notin> set l" if "label_ok l" for l using label_plain [OF that] by (auto simp: plain_def list_all_iff delimiter_def)
  have "CHR '':'' \<notin> set (encode_base58_uid n)" for n using base58_plain [of n] by (auto simp: plain_def list_all_iff delimiter_def)
  then show ?thesis using l assms by (auto simp: uid_ok_def uid_display_def split: uid.splits option.splits)
qed

lemma find_url:
  assumes "list_all uid_ok us" "channel_addr_ok env a"
  shows "find_url_scheme_start (vias us @ to_zmq_url env a) = Some (length (vias us))"
proof -
  obtain scheme u where s: "to_zmq_url env a = scheme @ ''://'' @ u" "list_all is_ascii_alphabetic scheme" "CHR '':'' \<notin> set scheme"
    using url_scheme [of env a] scheme_chars [of a] by blast
  have "CHR '':'' \<notin> set (vias us)" using assms(1) uid_no_colon by (auto simp: vias_def list_all_iff)
  then have split: "split_once ''://'' (vias us @ to_zmq_url env a) = Some (vias us @ scheme, u)"
    using split_once_scheme [of "vias us @ scheme" u] s by simp
  have "takeWhile is_ascii_alphabetic (rev (vias us)) = []"
  proof (cases us rule: rev_cases)
    case (snoc vs v)
    then show ?thesis by (simp add: vias_def is_ascii_alphabetic_def is_ascii_lowercase_def is_ascii_uppercase_def)
  qed (simp add: vias_def)
  then have "takeWhile is_ascii_alphabetic (rev (vias us @ scheme)) = rev scheme"
    using s(2) takeWhile_append2 [of "rev scheme" is_ascii_alphabetic "rev (vias us)"] by (simp add: list_all_iff)
  then show ?thesis using split by (simp add: find_url_scheme_start_def)
qed

lemma truncate_reading: "parser_truncate (length pre + length v) (reading pre (v @ w)) = reading pre v"
proof -
  have "take (length pre + length v) (pre @ v @ w) = pre @ v" by simp
  then show ?thesis unfolding parser_truncate_def reading_fields Let_def by (simp add: front_token_def reading_def)
qed

lemma uid_front: "uid_ok u \<Longrightarrow> front_kind (uid_display u @ s) \<noteq> Eof"
proof -
  assume "uid_ok u"
  then have "uid_display u \<noteq> []" by (auto simp: uid_ok_def uid_display_def label_ok_def split: uid.splits option.splits)
  then obtain c x where c: "uid_display u = c # x" by (meson neq_Nil_conv)
  have "delimiter c \<noteq> Some Eof" by (simp add: delimiter_def)
  then show ?thesis using c by (auto simp: front_kind_def split: option.splits)
qed

lemma parse_vias_display:
  assumes "list_all uid_ok us"
  shows "parse_vias (reading pre (vias us)) = Inr (us, reading (pre @ vias us) [])"
  using assms
proof (induction us arbitrary: pre)
  case Nil
  then show ?case by (subst parse_vias.simps) (simp add: vias_def peek_reading)
next
  case (Cons u us)
  have v: "vias (u # us) = uid_display u @ CHR ''.'' # vias us" by (simp add: vias_def)
  have "peek (reading pre (vias (u # us))) \<noteq> Eof" using Cons.prems uid_front by (simp add: peek_reading v)
  moreover have "parse_uid (reading pre (vias (u # us))) = Inr (u, reading (pre @ uid_display u) (CHR ''.'' # vias us))"
    using Cons.prems parse_uid_display by (simp add: v)
  ultimately show ?case using Cons by (subst parse_vias.simps) (simp add: expect_delimiter v)
qed

lemma rest_reading: "parser_rest (reading pre s) = s" "span_start (rest_span (reading pre s)) = length pre"
  by (simp_all add: parser_rest_def rest_span_def reading_fields front_token_def)

lemma parse_location_display:
  assumes "net_env_ok env" "location_ok env l"
  shows "parse_location env (reading pre (CHR ''@'' # location_display env l)) = Inr l"
proof -
  obtain us a where l: "l = foldr Via us (Addr a)" "list_all uid_ok us" "channel_addr_ok env a"
    "location_display env l = vias us @ to_zmq_url env a" using location_form [OF assms(2)] by blast
  have "vias us @ to_zmq_url env a \<noteq> []" using url_scheme [of env a] by auto
  then have "parse_location_body env (reading (pre @ ''@'') (vias us @ to_zmq_url env a)) at = Inr l" for at
    using zmq_roundtrip [OF assms(1) l(3)] truncate_reading [of "pre @ ''@''" "vias us" "to_zmq_url env a"] l(1)
    by (simp add: parse_location_body_def Let_def rest_reading find_url [OF l(2,3)] parse_vias_display [OF l(2)] del: bind_result_eq_Inr)
  then show ?thesis by (simp add: parse_location_def expect_delimiter l(4) del: bind_result_eq_Inr)
qed

definition addr_ok :: "'ip net_env \<Rightarrow> 'ip addr_location address \<Rightarrow> bool" where
  "addr_ok env a = (case a of
     AddrProc p \<Rightarrow> proc_id_ok (proc_addr_id p) \<and> location_ok env (proc_addr_location p)
   | AddrActor x \<Rightarrow> actor_id_ok (actor_addr_id x) \<and> location_ok env (actor_addr_location x)
   | AddrPort x \<Rightarrow> port_id_ok (port_addr_id x) \<and> location_ok env (port_addr_location x))"

lemma addr_form:
  assumes "addr_ok env a"
  obtains i l where "a = id_addr i l" "id_ok i" "location_ok env l" "addr_display env a = id_display i @ CHR ''@'' # location_display env l"
proof (cases a)
  case (AddrProc p)
  then show thesis using that [of "IdProc (proc_addr_id p)" "proc_addr_location p"] assms
    by (simp add: addr_ok_def id_addr_def id_ok_def addr_display_def proc_addr_display_def id_display_def)
next
  case (AddrActor x)
  then show thesis using that [of "IdActor (actor_addr_id x)" "actor_addr_location x"] assms
    by (simp add: addr_ok_def id_addr_def id_ok_def addr_display_def actor_addr_display_def id_display_def)
next
  case (AddrPort x)
  then show thesis using that [of "IdPort (port_addr_id x)" "port_addr_location x"] assms
    by (simp add: addr_ok_def id_addr_def id_ok_def addr_display_def port_addr_display_def id_display_def)
qed

text \<open>C20: Printing and parsing of addresses. Every well-formed address, with any number of via hops and on
  every transport, is read back from its printed form: the location is split off at the URL, the
  hops are read in order, and the identity is the one that was printed.\<close>

theorem addr_roundtrip:
  assumes "net_env_ok env" "addr_ok env a"
  shows "parse_addr env (addr_display env a) = Inr a \<and> addr_from_str env env2 (addr_display env a) = Parsed a"
proof -
  obtain i l where a: "a = id_addr i l" "id_ok i" "location_ok env l" "addr_display env a = id_display i @ CHR ''@'' # location_display env l"
    using addr_form [OF assms(2)] by blast
  have "parse_addr env (addr_display env a) = Inr a"
    using parse_location_display [OF assms(1) a(3)] parse_id_display [OF a(2), of "CHR ''@'' # location_display env l" "[]"]
    unfolding a(4) by (simp add: parse_addr_def parser_new_reading a(1) del: bind_result_eq_Inr)
  then show ?thesis by (simp add: addr_from_str_def or_error_def)
qed

text \<open>A system with one IP address.\<close>

definition ex_env :: "unit net_env" where
  "ex_env = \<lparr>ne_ip_parse = (\<lambda>s. if s = ''::1'' then Some () else None), ne_ip_display = (\<lambda>_. ''::1''), ne_is_ipv6 = (\<lambda>_. True),
     ne_unspecified = (), ne_resolve = (\<lambda>_ _. None), ne_fd_port = (\<lambda>_. None), ne_random_name = ''x'', ne_socket_ok = (\<lambda>_. True)\<rparr>"

definition ex_addr :: "unit addr_location address" where
  "ex_addr = AddrPort \<lparr>port_addr_id = ex_port_id, port_addr_location = Via (Instance 1 (Some ''host'')) (Via (Singleton ''tcp'') (Addr (Tcp () 2345)))\<rparr>"

lemma ex_addr_ok: "net_env_ok ex_env" "addr_ok ex_env ex_addr"
  using ex_port_id_ok by (simp_all add: net_env_ok_def ex_env_def ex_addr_def addr_ok_def id_ok_def uid_ok_def usize_bound_def label_ok_def
      label_char_def is_ascii_lowercase_def)

lemma ex_addr_display: "addr_display ex_env ex_addr = ''worker<Z>.local:<21>@host<2>.tcp.tcp://[::1]:2345''"
proof -
  have "u64_display 2345 = ''2345''" by (simp add: u64_display_def decimal_digits.simps decimal_alphabet_def)
  moreover have "uid_display (Instance 1 (Some ''host'')) = ''host<2>''" by code_simp
  ultimately show ?thesis using ex_port_id_display
    by (simp add: addr_display_def port_addr_display_def ex_addr_def socket_addr_display_def ex_env_def) (simp add: uid_display_def)
qed

theorem addr_roundtrip_witness: "parse_addr ex_env ''worker<Z>.local:<21>@host<2>.tcp.tcp://[::1]:2345'' = Inr ex_addr"
  using addr_roundtrip [OF ex_addr_ok] unfolding ex_addr_display by blast

end
