(* ===== verification/Addr_Errors.thy ===== *)
theory Addr_Errors
  imports Addr_Text
begin

text \<open>
  The errors of addresses. When the parser of addresses fails, \<open>FromStr\<close> parses the identity and
  the location again on their own and takes the error of one of them. The parts cannot both
  succeed: a component parser does the same at another place of the input and with an \<open>@\<close> behind
  the part it reads.
\<close>

section \<open>Parsing a part at another place\<close>

text \<open>\<open>f\<close> succeeds on a part \<open>s\<close> only if \<open>g\<close> does with the same result on \<open>s\<close> at another place
  with \<open>e\<close> behind it.\<close>

definition part_end :: "string \<Rightarrow> string \<Rightarrow> bool" where
  "part_end e s \<longleftrightarrow> e = [] \<or> front_kind e = At \<and> CHR ''@'' \<notin> set s"

definition follows_at :: "token_kind set \<Rightarrow> string \<Rightarrow> (parser \<Rightarrow> 'a parsed) \<Rightarrow> (parser \<Rightarrow> 'a parsed) \<Rightarrow> bool" where
  "follows_at K e f g \<longleftrightarrow> (\<forall>pre pre2 s x q. part_end e s \<and> front_kind s \<in> K \<and> f (reading pre s) = Inr (x, q) \<longrightarrow>
     (\<exists>a b. s = a @ b \<and> q = reading (pre @ a) b \<and> g (reading pre2 (s @ e)) = Inr (x, reading (pre2 @ a) (b @ e))))"

abbreviation follows :: "string \<Rightarrow> (parser \<Rightarrow> 'a parsed) \<Rightarrow> (parser \<Rightarrow> 'a parsed) \<Rightarrow> bool" where
  "follows \<equiv> follows_at UNIV"

lemma part_end_sub: "part_end e (a @ b) \<Longrightarrow> part_end e b"
  by (auto simp: part_end_def)

lemma front_extend:
  assumes "part_end e s" "s \<noteq> []"
  shows "front_kind (s @ e) = front_kind s" "token_len (s @ e) = token_len s"
proof -
  obtain c y where s: "s = c # y" using assms(2) by (meson neq_Nil_conv)
  show "front_kind (s @ e) = front_kind s" by (simp add: s front_kind_def)
  have "takeWhile (\<lambda>c. delimiter c = None) e = []" if "e \<noteq> []"
    using assms(1) that by (cases e) (auto simp: part_end_def front_kind_def split: option.splits)
  then have "length (takeWhile (\<lambda>c. delimiter c = None) (s @ e)) = length (takeWhile (\<lambda>c. delimiter c = None) s)"
    by (cases "e = []") (auto simp: takeWhile_append takeWhile_eq_all_conv [THEN iffD2])
  then show "token_len (s @ e) = token_len s" by (auto simp: s token_len_def split: option.splits if_splits)
qed

lemma follows_pure: "follows_at K e (\<lambda>p. Inr (x, p)) (\<lambda>p. Inr (x, p))"
  unfolding follows_at_def
proof (intro allI impI, elim conjE)
  fix pre pre2 s y q
  assume "Inr (x, reading pre s) = (Inr (y, q) :: 'a parsed)"
  then show "\<exists>a b. s = a @ b \<and> q = reading (pre @ a) b \<and> Inr (x, reading pre2 (s @ e)) = (Inr (y, reading (pre2 @ a) (b @ e)) :: 'a parsed)"
    by (intro exI [of _ "[]"] exI [of _ s]) auto
qed

lemma follows_fail: "follows_at K e (\<lambda>p. Inl (f p)) g"
  by (simp add: follows_at_def)

lemma follows_bind:
  assumes "follows_at K e f f'" "\<And>x. follows e (g x) (g' x)"
  shows "follows_at K e (\<lambda>p. bind_result (f p) (\<lambda>(x, p). g x p)) (\<lambda>p. bind_result (f' p) (\<lambda>(x, p). g' x p))"
  unfolding follows_at_def
proof (intro allI impI, elim conjE)
  fix pre pre2 s x q
  assume e: "part_end e s" "front_kind s \<in> K" and r: "bind_result (f (reading pre s)) (\<lambda>(x, p). g x p) = Inr (x, q)"
  then obtain y p where y: "f (reading pre s) = Inr (y, p)" "g y p = Inr (x, q)" by auto
  obtain a b where ab: "s = a @ b" "p = reading (pre @ a) b" "f' (reading pre2 (s @ e)) = Inr (y, reading (pre2 @ a) (b @ e))"
    using assms(1) e y(1) unfolding follows_at_def by blast
  have "part_end e b" using e(1) ab(1) part_end_sub by blast
  then obtain a2 b2 where "b = a2 @ b2" "q = reading ((pre @ a) @ a2) b2" "g' y (reading (pre2 @ a) (b @ e)) = Inr (x, reading ((pre2 @ a) @ a2) (b2 @ e))"
    using assms(2) [of y] y(2) ab(2) unfolding follows_at_def by blast
  then show "\<exists>a b. s = a @ b \<and> q = reading (pre @ a) b \<and>
      bind_result (f' (reading pre2 (s @ e))) (\<lambda>(x, p). g' x p) = Inr (x, reading (pre2 @ a) (b @ e))"
    using ab by (intro exI [of _ "a @ a2"] exI [of _ b2]) (simp del: bind_result_eq_Inr)
qed

lemma follows_const:
  assumes "\<And>x. r = Inr x \<Longrightarrow> \<exists>y. r' = Inr y \<and> follows_at K e (g x) (g' y)"
  shows "follows_at K e (\<lambda>p. bind_result r (\<lambda>x. g x p)) (\<lambda>p. bind_result r' (\<lambda>x. g' x p))"
proof (cases r)
  case (Inr x)
  then obtain y where "r' = Inr y" "follows_at K e (g x) (g' y)" using assms by blast
  then show ?thesis using Inr by (simp del: bind_result_eq_Inr)
qed (simp add: follows_at_def)

text \<open>A parser that looks at the next token. At the end of the part it sees the end of the input or
  an \<open>@\<close>.\<close>

lemma follows_peek:
  assumes "\<And>k. follows_at {k} e (f k) (g k)" "follows_at {Eof} e (f Eof) (g At)"
  shows "follows_at K e (\<lambda>p. f (peek p) p) (\<lambda>p. g (peek p) p)"
  unfolding follows_at_def
proof (intro allI impI, elim conjE)
  fix pre pre2 s x q
  assume e: "part_end e s" "front_kind s \<in> K" and r: "f (peek (reading pre s)) (reading pre s) = Inr (x, q)"
  have "follows_at {front_kind s} e (f (front_kind s)) (g (front_kind (s @ e)))"
  proof (cases "s = []")
    case True
    then show ?thesis using assms e(1) by (auto simp: part_end_def)
  next
    case False
    then show ?thesis using assms(1) front_extend(1) [OF e(1) False] by simp
  qed
  then show "\<exists>a b. s = a @ b \<and> q = reading (pre @ a) b \<and> g (peek (reading pre2 (s @ e))) (reading pre2 (s @ e)) = Inr (x, reading (pre2 @ a) (b @ e))"
    using e(1) r unfolding follows_at_def peek_reading by blast
qed

definition same_token :: "token \<Rightarrow> token \<Rightarrow> bool" where
  "same_token t u \<longleftrightarrow> tk_kind t = tk_kind u \<and> tk_text t = tk_text u"

lemma follows_bump:
  assumes "\<And>t u. same_token t u \<Longrightarrow> follows e (f t) (g u)" "Eof \<notin> K"
  shows "follows_at K e (\<lambda>p. case bump p of (t, p) \<Rightarrow> f t p) (\<lambda>p. case bump p of (t, p) \<Rightarrow> g t p)"
  unfolding follows_at_def
proof (intro allI impI, elim conjE)
  fix pre pre2 s x q
  assume e: "part_end e s" "front_kind s \<in> K" and r: "(case bump (reading pre s) of (t, p) \<Rightarrow> f t p) = Inr (x, q)"
  let ?a = "take (token_len s) s" and ?b = "drop (token_len s) s"
  have ne: "s \<noteq> []" using e(2) assms(2) by auto
  have "same_token (front_token pre s) (front_token pre2 (s @ e))"
    using front_extend [OF e(1) ne] token_len_le [of s] by (simp add: same_token_def front_token_def)
  then have fg: "follows e (f (front_token pre s)) (g (front_token pre2 (s @ e)))" by (rule assms(1))
  have b: "part_end e ?b" using e(1) part_end_sub [of e ?a ?b] by simp
  have "f (front_token pre s) (reading (pre @ ?a) ?b) = Inr (x, q)" using r by (simp add: bump_reading)
  then obtain a b where ab: "?b = a @ b" "q = reading ((pre @ ?a) @ a) b"
    "g (front_token pre2 (s @ e)) (reading (pre2 @ ?a) (?b @ e)) = Inr (x, reading ((pre2 @ ?a) @ a) (b @ e))"
    using fg b unfolding follows_at_def by blast
  have "bump (reading pre2 (s @ e)) = (front_token pre2 (s @ e), reading (pre2 @ ?a) (?b @ e))"
    using front_extend [OF e(1) ne] token_len_le [of s] by (simp add: bump_reading)
  moreover have "s = (?a @ a) @ b" using ab(1) by (metis append_assoc append_take_drop_id)
  ultimately show "\<exists>a b. s = a @ b \<and> q = reading (pre @ a) b \<and>
      (case bump (reading pre2 (s @ e)) of (t, p) \<Rightarrow> g t p) = Inr (x, reading (pre2 @ a) (b @ e))"
    using ab by (intro exI [of _ "?a @ a"] exI [of _ b]) simp
qed

lemma follows_token:
  assumes "\<And>t u. same_token t u \<Longrightarrow> follows e (f t) (g u)" "k \<notin> {Eof, At}"
  shows "follows e (\<lambda>p. if peek p = k then (case bump p of (t, p) \<Rightarrow> f t p) else Inl (h p)) (\<lambda>p. if peek p = k then (case bump p of (t, p) \<Rightarrow> g t p) else Inl (h' p))"
proof (rule follows_peek [where f = "\<lambda>l p. if l = k then (case bump p of (t, p) \<Rightarrow> f t p) else Inl (h p)"
      and g = "\<lambda>l p. if l = k then (case bump p of (t, p) \<Rightarrow> g t p) else Inl (h' p)"])
  show "follows_at {l} e (\<lambda>p. if l = k then (case bump p of (t, p) \<Rightarrow> f t p) else Inl (h p)) (\<lambda>p. if l = k then (case bump p of (t, p) \<Rightarrow> g t p) else Inl (h' p))" for l
    using follows_bump [OF assms(1), where K = "{l}"] assms(2) by (cases "l = k") (auto simp: follows_fail)
  show "follows_at {Eof} e (\<lambda>p. if Eof = k then (case bump p of (t, p) \<Rightarrow> f t p) else Inl (h p)) (\<lambda>p. if At = k then (case bump p of (t, p) \<Rightarrow> g t p) else Inl (h' p))"
    using assms(2) by (auto simp: follows_fail)
qed

lemma expect_bind:
  "bind_result (expect_text m p) f = (if peek p = Text then f (bump p) else Inl (err_expected (ps_lookahead p) m))"
  "bind_result (expect_kind k p) f = (if peek p = k then f (bump p) else Inl (err_expected (ps_lookahead p) (kind_expected k)))"
  by (simp_all add: expect_text_def expect_kind_def del: bind_result_eq_Inr)

lemma follows_expect_text:
  "(\<And>t u. same_token t u \<Longrightarrow> follows e (f t) (g u)) \<Longrightarrow>
    follows e (\<lambda>p. bind_result (expect_text m p) (\<lambda>(t, p). f t p)) (\<lambda>p. bind_result (expect_text m p) (\<lambda>(t, p). g t p))"
  unfolding expect_bind by (rule follows_token) auto

lemma follows_expect_kind:
  "follows e f g \<Longrightarrow> k \<notin> {Eof, At} \<Longrightarrow>
    follows e (\<lambda>p. bind_result (expect_kind k p) (\<lambda>(_, p). f p)) (\<lambda>p. bind_result (expect_kind k p) (\<lambda>(_, p). g p))"
  unfolding expect_bind by (rule follows_token) auto

lemma follows_after_bump:
  assumes "follows e f g" "Eof \<notin> K"
  shows "follows_at K e (\<lambda>p. f (snd (bump p))) (\<lambda>p. g (snd (bump p)))"
  using follows_bump [of e "\<lambda>_. f" "\<lambda>_. g" K] assms by (simp add: case_prod_beta)

lemma same_label: "same_token t u \<Longrightarrow> parse_label t = Inr x \<Longrightarrow> parse_label u = Inr x"
  by (auto simp: same_token_def parse_label_def split: sum.splits)

lemma same_number: "same_token t u \<Longrightarrow> parse_base58_uid t = Inr x \<Longrightarrow> parse_base58_uid u = Inr x"
  by (auto simp: same_token_def parse_base58_uid_def ok_or_def split: option.splits)

lemma follows_weaken: "follows e f g \<Longrightarrow> follows_at K e f g"
  unfolding follows_at_def by blast

lemma follows_bracketed:
  assumes "\<And>t u. same_token t u \<Longrightarrow> follows e (f t) (g u)" "Eof \<notin> K"
  shows "follows_at K e
    (\<lambda>p. bind_result (expect_text m (snd (bump p))) (\<lambda>(u, p). bind_result (expect_kind GreaterThan p) (\<lambda>(_, p). f u p)))
    (\<lambda>p. bind_result (expect_text m (snd (bump p))) (\<lambda>(u, p). bind_result (expect_kind GreaterThan p) (\<lambda>(_, p). g u p)))"
  by (rule follows_after_bump [where f = "\<lambda>p. bind_result (expect_text m p) (\<lambda>(u, p). bind_result (expect_kind GreaterThan p) (\<lambda>(_, p). f u p))"
        and g = "\<lambda>p. bind_result (expect_text m p) (\<lambda>(u, p). bind_result (expect_kind GreaterThan p) (\<lambda>(_, p). g u p))"])
    (intro follows_expect_text follows_expect_kind, use assms in auto)

lemma follows_first_text:
  assumes "same_token t u"
  shows "follows e (parse_id_component_from_first_text t) (parse_id_component_from_first_text u)"
proof -
  define f where "f l n = (\<lambda>p :: parser. bind_result (parse_label l) (\<lambda>l. bind_result (parse_base58_uid n) (\<lambda>n. Inr (Instance n (Some l), p))))"
    for l n :: token
  define h where "h l k p = (if k = LessThan
      then bind_result (expect_text ''uid text'' (snd (bump p))) (\<lambda>(n, p). bind_result (expect_kind GreaterThan p) (\<lambda>(_, p). f l n p))
      else bind_result (parse_label l) (\<lambda>l. Inr (Singleton l, p)))" for l :: token and k and p :: parser
  have eq: "parse_id_component_from_first_text l = (\<lambda>p. h l (peek p) p)" for l
    by (auto simp add: parse_id_component_from_first_text_def h_def f_def fun_eq_iff)
  have f: "follows e (f t n) (f u n')" if "same_token n n'" for n n' unfolding f_def
  proof (rule follows_const)
    fix l
    assume "parse_label t = Inr l"
    moreover have "follows e (\<lambda>p. bind_result (parse_base58_uid n) (\<lambda>n. Inr (Instance n (Some l), p))) (\<lambda>p. bind_result (parse_base58_uid n') (\<lambda>n. Inr (Instance n (Some l), p)))"
      by (rule follows_const, intro exI conjI, erule same_number [OF that], rule follows_pure)
    ultimately show "\<exists>y. parse_label u = Inr y \<and> follows e (\<lambda>p. bind_result (parse_base58_uid n) (\<lambda>n. Inr (Instance n (Some l), p)))
        (\<lambda>p. bind_result (parse_base58_uid n') (\<lambda>n. Inr (Instance n (Some y), p)))" 
      by (intro exI conjI) (rule same_label [OF assms])
  qed
  have "follows_at {k} e (h t k) (h u k')" if "k = LessThan \<longleftrightarrow> k' = LessThan" for k k'
  proof (cases "k = LessThan")
    case True
    then have "h t k = (\<lambda>p. bind_result (expect_text ''uid text'' (snd (bump p))) (\<lambda>(n, p). bind_result (expect_kind GreaterThan p) (\<lambda>(_, p). f t n p)))"
      "h u k' = (\<lambda>p. bind_result (expect_text ''uid text'' (snd (bump p))) (\<lambda>(n, p). bind_result (expect_kind GreaterThan p) (\<lambda>(_, p). f u n p)))"
      using that by (simp_all add: h_def fun_eq_iff)
    then show ?thesis using follows_bracketed [of e "f t" "f u" "{k}"] f True by simp
  next
    case False
    then have "h t k = (\<lambda>p. bind_result (parse_label t) (\<lambda>l. Inr (Singleton l, p)))" "h u k' = (\<lambda>p. bind_result (parse_label u) (\<lambda>l. Inr (Singleton l, p)))"
      using that by (simp_all add: h_def fun_eq_iff)
    moreover have "follows_at {k} e (\<lambda>p. bind_result (parse_label t) (\<lambda>l. Inr (Singleton l, p))) (\<lambda>p. bind_result (parse_label u) (\<lambda>l. Inr (Singleton l, p)))"
      by (rule follows_const, intro exI conjI, erule same_label [OF assms], rule follows_pure)
    ultimately show ?thesis by simp
  qed
  then show ?thesis unfolding eq by (intro follows_peek [where f = "h t" and g = "h u"]) simp_all
qed

lemma follows_uid: "follows e parse_uid parse_uid"
proof -
  define h where "h k = (case k of
      Text \<Rightarrow> (\<lambda>p. case bump p of (l, p) \<Rightarrow> parse_id_component_from_first_text l p)
    | LessThan \<Rightarrow> (\<lambda>p. bind_result (expect_text ''uid text'' (snd (bump p))) (\<lambda>(u, p).
          bind_result (expect_kind GreaterThan p) (\<lambda>(_, p). bind_result (parse_base58_uid u) (\<lambda>u. Inr (Instance u None, p)))))
    | _ \<Rightarrow> (\<lambda>p. Inl (err_expected (fst (bump p)) ''label or <'')))" for k
  have eq: "parse_uid = (\<lambda>p. h (peek p) p)"
    by (rule ext) (simp add: parse_uid_def parse_id_component_def h_def split: token_kind.split)
  have n: "follows e (\<lambda>p. bind_result (parse_base58_uid t) (\<lambda>u. Inr (Instance u None, p))) (\<lambda>p. bind_result (parse_base58_uid u) (\<lambda>u. Inr (Instance u None, p)))"
    if "same_token t u" for t u by (rule follows_const, intro exI conjI, erule same_number [OF that], rule follows_pure)
  have "follows_at {k} e (h k) (h k)" for k
    by (cases k) (simp_all add: h_def follows_fail follows_bump follows_first_text follows_bracketed n)
  then show ?thesis unfolding eq by (intro follows_peek [where f = h and g = h]) (simp_all add: h_def follows_fail)
qed

lemma follows_handler: "follows e (\<lambda>p. bind_result (parse_handler_port u t) (\<lambda>x. Inr (x, p))) (\<lambda>p. bind_result (parse_handler_port u t') (\<lambda>x. Inr (x, p)))"
proof (rule follows_const, intro exI conjI)
  show "parse_handler_port u t = Inr x \<Longrightarrow> parse_handler_port u t' = Inr x" for x by (auto simp: parse_handler_port_def split: uid.splits)
qed (rule follows_pure)

lemma follows_port: "follows e parse_port parse_port"
proof -
  define d where "d t = (\<lambda>p. if list_all is_ascii_digit (tk_text t)
      then bind_result (ok_or (invalid_port t) (u64_from_str (tk_text t))) (\<lambda>n. Inr (Ephemeral n, p))
      else bind_result (parse_id_component_from_first_text t p) (\<lambda>(u, p). bind_result (parse_handler_port u t) (\<lambda>x. Inr (x, p))))" for t
  define h where "h k = (case k of
      Text \<Rightarrow> (\<lambda>p. case bump p of (t, p) \<Rightarrow> d t p)
    | LessThan \<Rightarrow> (\<lambda>p. bind_result (parse_uid p) (\<lambda>(u, q). bind_result (parse_handler_port u (ps_lookahead p)) (\<lambda>x. Inr (x, q))))
    | _ \<Rightarrow> (\<lambda>p. Inl (err_expected (ps_lookahead p) ''port'')))" for k
  have eq: "parse_port = (\<lambda>p. h (peek p) p)"
    by (rule ext) (simp add: parse_port_def h_def d_def parse_uid_def split: token_kind.split)
  have d: "follows e (d t) (d u)" if "same_token t u" for t u
  proof (cases "list_all is_ascii_digit (tk_text t)")
    case True
    have "follows e (\<lambda>p. bind_result (ok_or (invalid_port t) (u64_from_str (tk_text t))) (\<lambda>n. Inr (Ephemeral n, p)))
      (\<lambda>p. bind_result (ok_or (invalid_port u) (u64_from_str (tk_text u))) (\<lambda>n. Inr (Ephemeral n, p)))"
    proof (rule follows_const, intro exI conjI)
      show "ok_or (invalid_port t) (u64_from_str (tk_text t)) = Inr x \<Longrightarrow> ok_or (invalid_port u) (u64_from_str (tk_text u)) = Inr x" for x
        using that by (auto simp: same_token_def ok_or_def split: option.splits)
    qed (rule follows_pure)
    then show ?thesis using True that by (simp add: d_def same_token_def)
  next
    case False
    then show ?thesis using that follows_bind [OF follows_first_text [OF that] follows_handler] by (simp add: d_def same_token_def)
  qed
  have "follows_at {LessThan} e (h LessThan) (h LessThan)" unfolding follows_at_def
  proof (intro allI impI, elim conjE)
    fix pre pre2 s x q
    assume e: "part_end e s" and r: "h LessThan (reading pre s) = Inr (x, q)"
    then obtain u p where u: "parse_uid (reading pre s) = Inr (u, p)" "parse_handler_port u (ps_lookahead (reading pre s)) = Inr x" "q = p"
      by (auto simp: h_def)
    then obtain a b where "s = a @ b" "p = reading (pre @ a) b" "parse_uid (reading pre2 (s @ e)) = Inr (u, reading (pre2 @ a) (b @ e))"
      using follows_uid e unfolding follows_at_def by blast
    moreover have "parse_handler_port u t = Inr x" for t using u(2) by (auto simp: parse_handler_port_def split: uid.splits)
    ultimately show "\<exists>a b. s = a @ b \<and> q = reading (pre @ a) b \<and> h LessThan (reading pre2 (s @ e)) = Inr (x, reading (pre2 @ a) (b @ e))"
      using u(3) by (auto simp: h_def)
  qed
  then have "follows_at {k} e (h k) (h k)" for k
    by (cases k) (simp_all add: h_def follows_fail follows_bump d)
  then show ?thesis unfolding eq by (intro follows_peek [where f = h and g = h]) (simp_all add: h_def follows_fail)
qed

lemma follows_control: "follows e parse_control_port parse_control_port"
proof -
  have "follows e (\<lambda>p. bind_result (ok_or (invalid_port t) (control_port_from_str (tk_text t))) (\<lambda>c. Inr (Control c, p)))
      (\<lambda>p. bind_result (ok_or (invalid_port u) (control_port_from_str (tk_text u))) (\<lambda>c. Inr (Control c, p)))" if "same_token t u" for t u
  proof (rule follows_const, intro exI conjI)
    show "ok_or (invalid_port t) (control_port_from_str (tk_text t)) = Inr x \<Longrightarrow> ok_or (invalid_port u) (control_port_from_str (tk_text u)) = Inr x" for x
      using that by (auto simp: same_token_def ok_or_def split: option.splits)
  qed (rule follows_pure)
  from follows_expect_text [OF this] show ?thesis by (simp add: parse_control_port_def [abs_def])
qed

lemma follows_proc: "follows e parse_proc_id_with_parser parse_proc_id_with_parser"
  using follows_bind [OF follows_uid follows_pure] by (simp add: parse_proc_id_with_parser_def [abs_def])

lemma follows_actor: "follows e parse_actor_id_with_parser parse_actor_id_with_parser"
proof -
  have "follows e (\<lambda>p. bind_result (expect_kind Dot p) (\<lambda>(_, p). bind_result (parse_proc_id_with_parser p) (\<lambda>(pr, p). Inr (actor_id_new a pr None, p))))
      (\<lambda>p. bind_result (expect_kind Dot p) (\<lambda>(_, p). bind_result (parse_proc_id_with_parser p) (\<lambda>(pr, p). Inr (actor_id_new a pr None, p))))" for a
    by (rule follows_expect_kind) (use follows_bind [OF follows_proc follows_pure] in simp_all)
  from follows_bind [OF follows_uid this] show ?thesis by (simp add: parse_actor_id_with_parser_def [abs_def])
qed

text \<open>A port behind a separator.\<close>

lemma follows_port_part:
  "follows e (\<lambda>p. case peek p of Colon \<Rightarrow> parse_port (snd (bump p)) | Bang \<Rightarrow> parse_control_port (snd (bump p)) | _ \<Rightarrow> Inl (err_expected (ps_lookahead p) m))
    (\<lambda>p. case peek p of Colon \<Rightarrow> parse_port (snd (bump p)) | Bang \<Rightarrow> parse_control_port (snd (bump p)) | _ \<Rightarrow> Inl (err_expected (ps_lookahead p) m))"
proof -
  define h where "h k = (case k of Colon \<Rightarrow> (\<lambda>p. parse_port (snd (bump p))) | Bang \<Rightarrow> (\<lambda>p. parse_control_port (snd (bump p)))
    | _ \<Rightarrow> (\<lambda>p. Inl (err_expected (ps_lookahead p) m)))" for k
  have eq: "(\<lambda>p. case peek p of Colon \<Rightarrow> parse_port (snd (bump p)) | Bang \<Rightarrow> parse_control_port (snd (bump p)) | _ \<Rightarrow> Inl (err_expected (ps_lookahead p) m)) =
      (\<lambda>p. h (peek p) p)" by (rule ext) (simp add: h_def split: token_kind.split)
  have "follows_at {k} e (h k) (h k)" for k
    by (cases k) (simp_all add: h_def follows_fail follows_after_bump follows_port follows_control)
  then show ?thesis unfolding eq by (intro follows_peek [where f = h and g = h]) (simp_all add: h_def follows_fail)
qed

lemma follows_port_id: "follows e parse_port_id_with_parser parse_port_id_with_parser"
  using follows_bind [OF follows_actor follows_bind [OF follows_port_part follows_pure]] by (simp add: parse_port_id_with_parser_def [abs_def])

lemma parse_vias_Nil: "parse_vias p = Inr ([], q) \<longleftrightarrow> peek p = Eof \<and> q = p"
  by (subst parse_vias.simps) (auto split: sum.split)

lemma parse_vias_Cons: "parse_vias p = Inr (u # us, q) \<longleftrightarrow> peek p \<noteq> Eof \<and>
    (\<exists>p1 t p2. parse_uid p = Inr (u, p1) \<and> expect_kind Dot p1 = Inr (t, p2) \<and> parse_vias p2 = Inr (us, q))"
  by (subst parse_vias.simps) (auto split: sum.split)

lemma follows_vias: "follows [] parse_vias parse_vias"
proof -
  have "\<exists>a b. s = a @ b \<and> q = reading (pre @ a) b \<and> parse_vias (reading pre2 s) = Inr (us, reading (pre2 @ a) b)"
    if "parse_vias (reading pre s) = Inr (us, q)" for us pre pre2 s q
    using that
  proof (induction us arbitrary: pre pre2 s)
    case Nil
    then show ?case by (intro exI [of _ "[]"] exI [of _ s]) (simp add: parse_vias_Nil peek_reading)
  next
    case (Cons u us)
    have e: "part_end [] t" for t by (simp add: part_end_def)
    obtain p1 t p2 where 1: "peek (reading pre s) \<noteq> Eof" "parse_uid (reading pre s) = Inr (u, p1)" "expect_kind Dot p1 = Inr (t, p2)"
      "parse_vias p2 = Inr (us, q)" using Cons.prems by (auto simp: parse_vias_Cons)
    have "\<exists>a b. s = a @ b \<and> p1 = reading (pre @ a) b \<and> parse_uid (reading pre2 (s @ [])) = Inr (u, reading (pre2 @ a) (b @ []))"
      using follows_uid [of "[]"] e 1(2) unfolding follows_at_def by blast
    then obtain a b where ab: "s = a @ b" "p1 = reading (pre @ a) b" "parse_uid (reading pre2 s) = Inr (u, reading (pre2 @ a) b)" by auto
    have "front_kind b = Dot" using 1(3) ab(2) by (auto simp: expect_kind_def peek_reading split: if_splits)
    then obtain c where c: "b = CHR ''.'' # c" by (cases b) (auto simp: front_kind_def delimiter_def split: if_splits)
    have "p2 = reading (pre @ a @ ''.'') c" using 1(3) ab(2) c by (simp add: expect_delimiter)
    then obtain a2 b2 where 2: "c = a2 @ b2" "q = reading ((pre @ a @ ''.'') @ a2) b2"
      "parse_vias (reading (pre2 @ a @ ''.'') c) = Inr (us, reading ((pre2 @ a @ ''.'') @ a2) b2)"
      using Cons.IH 1(4) by blast
    have "parse_vias (reading pre2 s) = Inr (u # us, reading ((pre2 @ a @ ''.'') @ a2) b2)"
      using 1(1) ab(3) 2(3) c by (auto simp: parse_vias_Cons peek_reading expect_delimiter)
    then show ?case using ab(1) c 2 by (intro exI [of _ "a @ ''.'' @ a2"] exI [of _ b2]) simp
  qed
  then have "\<exists>a b. s = a @ b \<and> q = reading (pre @ a) b \<and> parse_vias (reading pre2 (s @ [])) = Inr (us, reading (pre2 @ a) (b @ []))"
    if "parse_vias (reading pre s) = Inr (us, q)" for us pre pre2 s q using that by simp
  then show ?thesis unfolding follows_at_def by blast
qed

section \<open>Errors of addresses\<close>

lemma front_Eof: "front_kind s = Eof \<Longrightarrow> s = []"
  by (cases s) (auto simp: front_kind_def delimiter_def split: option.splits if_splits)

lemma id_part:
  assumes f: "\<And>e. follows e f f" and i: "bind_result (f (parser_new s)) finish_parse = Inr i" and "CHR ''@'' \<notin> set s"
  shows "f (parser_new (s @ CHR ''@'' # loc)) = Inr (i, reading s (CHR ''@'' # loc))"
proof -
  obtain q where q: "f (reading [] s) = Inr (i, q)" "peek q = Eof"
    using i by (auto simp: finish_parse_def parser_new_reading split: if_splits)
  have "part_end (CHR ''@'' # loc) s" using assms(3) by (simp add: part_end_def)
  then obtain a b where "s = a @ b" "q = reading ([] @ a) b" "f (reading [] (s @ CHR ''@'' # loc)) = Inr (i, reading ([] @ a) (b @ CHR ''@'' # loc))"
    using f [of "CHR ''@'' # loc"] q(1) unfolding follows_at_def by blast
  moreover from this(2) have "b = []" using q(2) front_Eof by (simp add: peek_reading)
  ultimately show ?thesis by (simp add: parser_new_reading)
qed

lemma find_url_le: "find_url_scheme_start s = Some off \<Longrightarrow> off \<le> length s"
  by (auto simp: find_url_scheme_start_def dest!: split_once_eq split: option.splits)

lemma location_same:
  assumes "parse_location_body env (reading pre s) t = Inr l"
  shows "parse_location_body env (reading pre2 s) t2 = Inr l"
proof -
  obtain off addr us q where 1: "s \<noteq> []" "find_url_scheme_start s = Some off" "from_zmq_url env (drop off s) = Inr addr"
    "parse_vias (parser_truncate (length pre + off) (reading pre s)) = Inr (us, q)" "l = foldr Via us (Addr addr)"
    using assms by (auto simp: parse_location_body_def rest_reading Let_def split: if_splits option.splits sum.splits)
  have cut: "parser_truncate (length pr + off) (reading pr s) = reading pr (take off s)" for pr
    using truncate_reading [of pr "take off s" "drop off s"] find_url_le [OF 1(2)] by (simp add: min_absorb2)
  have "part_end [] (take off s)" by (simp add: part_end_def)
  then have "\<exists>q. parse_vias (reading pre2 (take off s @ [])) = Inr (us, q)"
    using follows_vias 1(4) unfolding follows_at_def cut by blast
  then show ?thesis using 1 by (auto simp: parse_location_body_def rest_reading Let_def cut)
qed

lemma empty_location: "\<not> is_ok (parse_location_str env ''@'')"
  by (simp add: parse_location_str_def parse_location_body_def parser_new_reading rest_reading Let_def find_url_scheme_start_def)

lemma location_err_None:
  assumes "location_err env loc = None"
  shows "\<exists>l. parse_location env (reading s (CHR ''@'' # loc)) = Inr l"
proof -
  have ne: "loc \<noteq> []" using assms empty_location [of env] by (auto simp: location_err_def is_ok_def split: sum.splits)
  then obtain l where "parse_location_body env (reading [] loc) (token_eof 0) = Inr l"
    using assms by (auto simp: location_err_def parse_location_str_def parser_new_reading split: sum.splits)
  from location_same [OF this] show ?thesis by (auto simp: parse_location_def expect_delimiter)
qed

lemma split_at: "split_once ''@'' s = Some (a, b) \<Longrightarrow> s = a @ CHR ''@'' # b \<and> CHR ''@'' \<notin> set a"
proof (induction s arbitrary: a)
  case (Cons c s)
  then show ?case by (cases "c = CHR ''@''") auto
qed simp

lemma legacy_ref_ok:
  assumes "\<And>e. follows e f f" "\<And>t i. from_str t = Inr i \<Longrightarrow> bind_result (f (parser_new t)) finish_parse = Inr i"
    and none: "legacy_parse_ref env from_str s = None"
  shows "\<exists>x. bind_result (f (parser_new s)) (\<lambda>(i, p). bind_result (parse_location env p) (\<lambda>l. Inr (mk i l))) = Inr x"
proof -
  obtain id_text loc i where s: "split_once ''@'' s = Some (id_text, loc)" "from_str id_text = Inr i" "location_err env loc = None"
    using none by (auto simp: legacy_parse_ref_def split: option.splits sum.splits)
  note a = split_at [OF s(1)]
  then have "f (parser_new s) = Inr (i, reading id_text (CHR ''@'' # loc))" using id_part [OF assms(1)] assms(2) [OF s(2)] by blast
  then show ?thesis using location_err_None [OF s(3), of id_text] by (auto simp del: bind_result_eq_Inr)
qed

text \<open>An identity of any kind is read by the parser of all kinds.\<close>

lemma actor_parts:
  assumes "parse_actor_id_with_parser p = Inr (x, q)"
  obtains a p1 pr where "parse_uid p = Inr (a, p1)" "peek p1 = Dot" "parse_proc_id_with_parser (snd (bump p1)) = Inr (pr, q)" "x = actor_id_new a pr None"
  using assms by (auto simp: parse_actor_id_with_parser_def expect_kind_def split: if_splits)

lemma port_is_id:
  assumes "parse_port_id_with_parser p = Inr (x, q)"
  shows "parse_id_with_parser p = Inr (IdPort x, q)"
proof -
  obtain i p1 where p1: "parse_actor_id_with_parser p = Inr (i, p1)" using assms by (auto simp: parse_port_id_with_parser_def)
  obtain y where "x = port_id_new i y \<and>
    (peek p1 = Colon \<and> parse_port (snd (bump p1)) = Inr (y, q) \<or> peek p1 = Bang \<and> parse_control_port (snd (bump p1)) = Inr (y, q))"
    using assms p1 by (cases "peek p1") (auto simp: parse_port_id_with_parser_def)
  note 1 = p1 this [THEN conjunct1] this [THEN conjunct2]
  obtain a p2 pr where "parse_uid p = Inr (a, p2)" "peek p2 = Dot" "parse_proc_id_with_parser (snd (bump p2)) = Inr (pr, p1)" "i = actor_id_new a pr None"
    using actor_parts [OF 1(1)] by blast
  then show ?thesis using 1(2,3) by (auto simp: parse_id_with_parser_def simp del: bind_result_eq_Inr)
qed

lemma actor_is_id:
  assumes "parse_actor_id_with_parser p = Inr (x, q)" "peek q = Eof"
  shows "parse_id_with_parser p = Inr (IdActor x, q)"
proof -
  obtain a p2 pr where "parse_uid p = Inr (a, p2)" "peek p2 = Dot" "parse_proc_id_with_parser (snd (bump p2)) = Inr (pr, q)" "x = actor_id_new a pr None"
    using actor_parts [OF assms(1)] by blast
  then show ?thesis using assms(2) by (simp add: parse_id_with_parser_def del: bind_result_eq_Inr)
qed

lemma proc_is_id:
  assumes "parse_proc_id_with_parser p = Inr (x, q)" "peek q = Eof"
  shows "parse_id_with_parser p = Inr (IdProc x, q)"
proof -
  obtain u where "parse_uid p = Inr (u, q)" "x = proc_id_new u None" using assms(1) by (auto simp: parse_proc_id_with_parser_def)
  then show ?thesis using assms(2) by (simp add: parse_id_with_parser_def del: bind_result_eq_Inr)
qed

lemma some_is_id:
  assumes "is_ok (parse_port_id s) \<or> is_ok (parse_actor_id s) \<or> is_ok (parse_proc_id s)"
  shows "\<exists>i. parse_id s = Inr i"
  using assms port_is_id [of "parser_new s"] actor_is_id [of "parser_new s"] proc_is_id [of "parser_new s"]
  by (auto simp: is_ok_iff parse_port_id_def parse_actor_id_def parse_proc_id_def parse_id_def finish_parse_def split: if_splits)

lemma follows_id: "follows e parse_id_with_parser parse_id_with_parser"
proof -
  define m where "m a pr = (\<lambda>k. case k of
      Colon \<Rightarrow> (\<lambda>p. bind_result (parse_port (snd (bump p))) (\<lambda>(x, p). Inr (IdPort (port_id_new (actor_id_new a pr None) x), p)))
    | Bang \<Rightarrow> (\<lambda>p. bind_result (parse_control_port (snd (bump p))) (\<lambda>(x, p). Inr (IdPort (port_id_new (actor_id_new a pr None) x), p)))
    | _ \<Rightarrow> (\<lambda>p. Inr (IdActor (actor_id_new a pr None), p)))" for a pr
  define h where "h a = (\<lambda>k. case k of
      Dot \<Rightarrow> (\<lambda>p. bind_result (parse_proc_id_with_parser (snd (bump p))) (\<lambda>(pr, p). m a pr (peek p) p))
    | _ \<Rightarrow> (\<lambda>p. Inr (IdProc (proc_id_new a None), p)))" for a
  have eq: "parse_id_with_parser = (\<lambda>p. bind_result (parse_uid p) (\<lambda>(a, p). h a (peek p) p))"
    by (intro ext arg_cong [of _ _ "bind_result (parse_uid _)"])
      (auto simp: parse_id_with_parser_def h_def m_def fun_eq_iff intro!: arg_cong [of _ _ "bind_result _"] split: token_kind.splits)
  have port: "follows_at {Colon} e (\<lambda>p. bind_result (parse_port (snd (bump p))) (\<lambda>(x, p). Inr (g x, p))) (\<lambda>p. bind_result (parse_port (snd (bump p))) (\<lambda>(x, p). Inr (g x, p)))"
    "follows_at {Bang} e (\<lambda>p. bind_result (parse_control_port (snd (bump p))) (\<lambda>(x, p). Inr (g x, p))) (\<lambda>p. bind_result (parse_control_port (snd (bump p))) (\<lambda>(x, p). Inr (g x, p)))"
    for g :: "port \<Rightarrow> ident"
    by (rule follows_bind, rule follows_after_bump, rule follows_port follows_control, simp, rule follows_pure)+
  have "follows_at {k} e (m a pr k) (m a pr k)" for a pr k
    by (cases k) (simp_all add: m_def follows_pure port)
  then have "follows e (\<lambda>p. m a pr (peek p) p) (\<lambda>p. m a pr (peek p) p)" for a pr
    by (intro follows_peek [where f = "m a pr" and g = "m a pr"]) (simp_all add: m_def follows_pure)
  then have dot: "follows_at {Dot} e (h a Dot) (h a Dot)" for a
    unfolding h_def token_kind.case by (intro follows_bind follows_after_bump follows_proc) simp_all
  have "follows_at {k} e (h a k) (h a k)" for a k
    using dot by (cases k) (simp_all add: h_def follows_pure)
  then have "follows e (\<lambda>p. h a (peek p) p) (\<lambda>p. h a (peek p) p)" for a
    by (intro follows_peek [where f = "h a" and g = "h a"]) (simp_all add: h_def follows_pure)
  from follows_bind [OF follows_uid this] show ?thesis unfolding eq by simp
qed

lemma from_str_parts:
  "proc_id_from_str t = Inr p \<Longrightarrow> bind_result (parse_proc_id_with_parser (parser_new t)) finish_parse = Inr p"
  "actor_id_from_str t = Inr a \<Longrightarrow> bind_result (parse_actor_id_with_parser (parser_new t)) finish_parse = Inr a"
  "port_id_from_str t = Inr x \<Longrightarrow> bind_result (parse_port_id_with_parser (parser_new t)) finish_parse = Inr x"
  by (auto simp: proc_id_from_str_def parse_proc_id_def actor_id_from_str_def parse_actor_id_def port_id_from_str_def parse_port_id_def
      simp del: bind_result_eq_Inr split: sum.splits)


text \<open>C40: An address whose host name cannot be resolved at first may make \<open>FromStr\<close> panic: there is a string
  and a system whose resolver fails when the address is parsed and answers when the error is
  computed.\<close>

theorem from_str_panics: "\<exists>env env2 :: unit net_env. net_env_ok env \<and> ne_ip_parse env = ne_ip_parse env2 \<and>
    addr_from_str env env2 ''local@tcp://host:80'' = Panicked"
proof -
  define env2 where "env2 = ex_env\<lparr>ne_resolve := (\<lambda>_ port. Some ((), port))\<rparr>"
  have eighty: "u64_display 80 = ''80''" by (simp add: u64_display_def decimal_digits.simps decimal_alphabet_def)
  have hp: "parse_host_port_or_fd e ''host:80'' = Inr (''host'', 80)" for e :: "unit net_env"
    using parse_host_port [of 80 e "''host''"] eighty by simp
  have url: "find_url_scheme_start ''tcp://host:80'' = Some 0"
    by (simp add: find_url_scheme_start_def is_ascii_alphabetic_def is_ascii_lowercase_def)
  have fails: "from_zmq_url ex_env ''tcp://host:80'' = Inl (ResolutionFailed ''host'')"
    by (subst from_zmq_url.simps)
      (simp add: parse_scheme_def hp resolve_hostname_to_socket_addr_def strip_brackets_def ex_env_def ok_or_def)
  have answers: "from_zmq_url env2 ''tcp://host:80'' = Inr (Tcp () 80)"
    by (subst from_zmq_url.simps)
      (simp add: parse_scheme_def hp resolve_hostname_to_socket_addr_def strip_brackets_def env2_def ex_env_def ok_or_def)
  have l: "label_ok ''local''" by (simp add: label_ok_def label_char_def is_ascii_lowercase_def)
  have "parse_addr ex_env ''local@tcp://host:80'' \<noteq> Inr a" for a
    using parse_id_display [of "IdProc \<lparr>proc_uid = Singleton ''local''\<rparr>" "''@tcp://host:80''" "[]"] l url fails
    by (simp add: parse_addr_def parser_new_reading id_ok_def proc_id_ok_def uid_ok_def id_display_def proc_id_display_def uid_display_def
        parse_location_def expect_delimiter parse_location_body_def rest_reading Let_def)
  moreover have "location_err env2 ''tcp://host:80'' = None"
    using truncate_reading [of "[]" "[]" "''tcp://host:80''"] url answers parse_vias_Nil [of "reading [] []" "reading [] []"]
    by (simp add: location_err_def parse_location_str_def parser_new_reading parse_location_body_def rest_reading Let_def peek_reading
        split: sum.split)
  moreover have "proc_id_from_str ''local'' = Inr \<lparr>proc_uid = Singleton ''local''\<rparr>"
    using parse_proc_display [of "\<lparr>proc_uid = Singleton ''local''\<rparr>" "[]" "[]"] l
    by (simp add: proc_id_from_str_def parse_proc_id_def parser_new_reading proc_id_ok_def uid_ok_def proc_id_display_def uid_display_def
        finish_parse_def peek_reading)
  ultimately have "addr_from_str ex_env env2 ''local@tcp://host:80'' = Panicked"
    by (auto simp: addr_from_str_def or_error_def legacy_parse_reference_def split: sum.split)
  then show ?thesis using ex_addr_ok(1) by (intro exI [of _ ex_env] exI [of _ env2]) (simp add: env2_def ex_env_def)
qed

end
