(* ===== verification/Spec2Isabelle.thy ===== *)
theory Spec2Isabelle
  imports Tile_Props Sequenced_Props Value_Mesh_Props Mesh_Slicing Accum_Props Split_Port_Props Cast_Failures Cast_Order Channel_Liveness Multi_Props Addr_Errors
begin

text \<open>
  Monarch: verification of the messaging core of \<open>hyperactor\<close>.

  \<^bold>\<open>The program.\<close> Monarch runs meshes of actors. Procs host actors, actors have ports,
  and ports have mailboxes; \<open>hyperactor\<close> provides identities and addresses, mailboxes, the
  ordering of messages and the network channels, \<open>ndslice\<close> the strided views that number the
  members of a mesh, \<open>hyperactor_cast\<close> the tree along which one message reaches all members,
  and \<open>algebra\<close> with \<open>hyperactor/src/accum.rs\<close> the reductions that bring the replies back. A
  cast goes through these parts in this order: the sender numbers it for each member
  (\<open>ordering.rs\<close>), the cast actors forward it along the tiles of the region and split the
  reply ports it carries (\<open>cast_actor.rs\<close>, \<open>tile.rs\<close>, \<open>context.rs\<close>), the envelopes are routed
  by address (\<open>mailbox.rs\<close>) and cross the network in frames and sessions (\<open>channel/net\<close>), the
  receiver puts them into the order they were sent (\<open>sequenced.rs\<close>, \<open>proc.rs\<close>), and the replies
  are reduced at the split ports on their way to the caller.

  \<^bold>\<open>Conventions.\<close> A struct is a record, an enum a datatype, \<open>Result\<close> the sum type
  \<open>result\<close> of \<open>Prelude\<close> with the error on the left, and a panic (a failed assertion, an index
  out of range, an \<open>unwrap\<close> of nothing) is \<open>None\<close> or a value of its own, so that the absence of
  panics is a theorem. Unsigned integers are natural numbers with the checks and truncations the
  code makes written out (\<open>usize_bound\<close> is \<open>2 ^ 64\<close>), and words where the code computes on
  bits. Tasks are step relations over one configuration, whose interleavings cover all
  schedules. What is not in the repository, or belongs to the operating system, is an argument:
  the reducer registry, hash functions, serialization, the resolver (\<open>net_env\<close>), the schedule
  of reads and writes of a stream. Interfaces are locales, each interpreted on the definitions
  of the model.

  \<^bold>\<open>Theories and sources.\<close>

  \<^item> \<open>Prelude\<close>: results, checked arithmetic, folds that may fail, runs of a step relation with
    an invariant and a measure (locale), the collections of shared simplification rules.
  \<^item> \<open>Slice\<close>, \<open>Slice_Props\<close>, \<open>Slice_Views\<close> (\<open>ndslice/src/slice.rs\<close>): all operations of
    \<open>Slice\<close>; the layout invariant, \<open>coordinates\<close> and \<open>location\<close> as inverses, sub-slices.
    \<open>Extent\<close> (\<open>ndslice/src/view.rs\<close>): extents, points and regions.
  \<^item> \<open>Tile\<close>, \<open>Tile_Props\<close> (\<open>hyperactor_cast/src/tile.rs\<close>): the three tiling policies; the
    communication children of a tile partition its ranks and are strictly smaller, and the
    fan-out is bounded.
  \<^item> \<open>Rle\<close>, \<open>Value_Overlay\<close>, \<open>Value_Mesh\<close>, \<open>Value_Mesh_Props\<close>, \<open>Mesh_Slicing\<close>
    (\<open>hyperactor/src/value_mesh.rs\<close> and its modules): run-length encoded values per rank,
    against the dense list of values; overlays, the indexed build with its drop guard, slicing.
  \<^item> \<open>Semilattice\<close> (\<open>algebra\<close>), \<open>Accum\<close>, \<open>Accum_Props\<close> (\<open>accum.rs\<close>): join semilattices,
    accumulators and reducers; a locale states when reducing parts of the updates first gives the
    result of accumulating all of them, and every accumulator of the crate is an instance.
  \<^item> \<open>Addr\<close> (\<open>id.rs\<close>, \<open>port.rs\<close>, \<open>addr.rs\<close>): identities with their equality and order.
    \<open>Id_Syntax\<close>, \<open>Id_Props\<close> (\<open>parse/lex.rs\<close>, \<open>parse/id.rs\<close>), \<open>Addr_Syntax\<close>, \<open>Addr_Text\<close>,
    \<open>Addr_Errors\<close> (\<open>parse/addr.rs\<close>, \<open>channel.rs\<close>): their written form, the parsers, the round
    trips and the errors.
  \<^item> \<open>Ordering\<close> (\<open>ordering.rs\<close>), \<open>Sequenced\<close>, \<open>Sequenced_Props\<close> (\<open>sequenced.rs\<close>): the
    sequence numbers of a sender, the reordering buffer of a receiver.
  \<^item> \<open>Mailbox_Context\<close>, \<open>Split_Port_Props\<close> (\<open>context.rs\<close>, \<open>mailbox/headers.rs\<close>): posting, split
    ports with their buffers.
  \<^item> \<open>Cast\<close> (\<open>cast_actor.rs\<close>): the cast actor with its handlers and the sender side.
    \<open>Cast_Tree\<close>, \<open>Cast_Routes\<close>, \<open>Cast_Net\<close>, \<open>Cast_Sender\<close>, \<open>Cast_System\<close>: the cast actors of all
    procs as one system over a network that keeps the order of each channel. \<open>Cast_Props\<close>,
    \<open>Cast_Failures\<close>, \<open>Cast_Order\<close>: what a cast guarantees, end to end.
  \<^item> \<open>Framed\<close> (\<open>channel/net/framed.rs\<close>): frames over a byte stream and the demultiplexer.
    \<open>Channel_Session\<close>, \<open>Channel_Link\<close>, \<open>Channel_Runs\<close>, \<open>Channel_Props\<close>, \<open>Channel_Liveness\<close>
    (\<open>channel/net/session.rs\<close>, \<open>server.rs\<close>, \<open>channel/net.rs\<close>): the session that makes a channel
    reliable over connections that fail. \<open>Ack_Watermark\<close>, \<open>Multi_Stream\<close>, \<open>Multi_Props\<close>: the
    sessions that spread messages over several streams.

  \<^bold>\<open>Bounds and fuel.\<close> All functions of the model are total; loops are recursive functions with
  a termination proof. Slices whose ranks do not fit into \<open>usize\<close> are excluded by their
  invariant, which the constructors check. Counters of messages (sequence numbers, ephemeral
  port indices, acknowledgements) are unbounded naturals: the code gives them 64 bits, which no
  run exhausts; the 8-bit stream numbers and the 64-bit watermarks are bounded. Properties about
  tasks quantify over all runs; the liveness properties bound the number of steps and show that
  a run that can take no further step has done its work.

  \<^bold>\<open>Not modelled.\<close> Serialization formats other than frames and the materialized tile (serde,
  \<open>wirevalue\<close>, \<open>serde_multipart\<close>), the transports below a byte stream (TLS, QUIC, sockets), time
  (a deadline may pass at any moment instead), telemetry and logging. The lifecycle of actors and
  procs, supervision, hosts and the mesh layer (\<open>hyperactor_mesh\<close>) are not modelled: they are
  asynchronous glue over the parts above and over operating system processes. Python bindings,
  RDMA, tensor workers and the user interfaces of the administration tools are outside of the
  messaging core.
\<close>

end
